(* ===== verification/Ngx_Prelude.thy ===== *)
theory Ngx_Prelude
  imports Main "HOL-Library.Word" "HOL-Library.Monad_Syntax"
begin

text \<open>
  Shared vocabulary of the development: the machine types of the C code on an LP64 platform,
  character literals as bytes, bounds-checked memory reads, the nginx return codes, and the
  generic lemmas on bytes, words and lists that the component theories use.

  \<^item> \<open>byte\<close> is \<open>u_char\<close>; \<open>ngx_int_t\<close>, \<open>ngx_uint_t\<close>, \<open>ssize_t\<close>, \<open>off_t\<close>, \<open>time_t\<close>
    are 64-bit words, read with \<open>sint\<close> where the C type is signed (signed arithmetic is
    two's complement, as compiled code computes it).
  \<^item> A region of memory is a byte list; \<open>rd m i\<close> is the read \<open>m[i]\<close>, and is \<open>None\<close> outside
    the region, so that a theorem that a function returns \<open>Some\<close> says that it stays inside
    the memory it was given.
\<close>

unbundle bit_operations_syntax

type_synonym byte = "8 word"
type_synonym u32 = "32 word"
type_synonym u64 = "64 word"
type_synonym addr = nat
type_synonym ngx_int_t = "64 word"
type_synonym ngx_uint_t = "64 word"

named_theorems ngx_defs \<open>definitions unfolded when the model is evaluated\<close>
named_theorems byte_simps \<open>byte literals and byte class tests as numerals\<close>

subsection \<open>Return codes (src/core/ngx_core.h)\<close>

abbreviation (input) NGX_OK :: ngx_int_t where "NGX_OK \<equiv> 0"
abbreviation (input) NGX_ERROR :: ngx_int_t where "NGX_ERROR \<equiv> - 1"
abbreviation (input) NGX_AGAIN :: ngx_int_t where "NGX_AGAIN \<equiv> - 2"
abbreviation (input) NGX_BUSY :: ngx_int_t where "NGX_BUSY \<equiv> - 3"
abbreviation (input) NGX_DONE :: ngx_int_t where "NGX_DONE \<equiv> - 4"

abbreviation (input) NGX_DECLINED :: ngx_int_t where "NGX_DECLINED \<equiv> - 5"

subsection \<open>Character and string literals\<close>

definition ch :: "char \<Rightarrow> byte" where
  [byte_simps, ngx_defs, code_unfold]: "ch c = of_char c"

definition bytes :: "string \<Rightarrow> byte list" where
  [byte_simps, ngx_defs]: "bytes s = map ch s"

lemma length_bytes [simp]: "length (bytes s) = length s"
  by (simp add: bytes_def)

subsection \<open>Memory reads\<close>

definition rd :: "byte list \<Rightarrow> nat \<Rightarrow> byte option" where
  [ngx_defs]: "rd m i = (if i < length m then Some (m ! i) else None)"

lemma rd_Some_iff: "rd m i = Some c \<longleftrightarrow> i < length m \<and> c = m ! i"
  by (auto simp: rd_def)

lemma rd_in [simp]: "i < length m \<Longrightarrow> rd m i = Some (m ! i)"
  by (simp add: rd_def)

lemma rd_out [simp]: "length m \<le> i \<Longrightarrow> rd m i = None"
  by (simp add: rd_def)

text \<open>The bytes \<open>xs\<close> are in memory from \<open>p\<close> on.\<close>

definition reads :: "byte list \<Rightarrow> nat \<Rightarrow> byte list \<Rightarrow> bool" where
  "reads mem p xs \<longleftrightarrow> (\<forall>i < length xs. rd mem (p + i) = Some (xs ! i))"

lemma reads_Nil [simp]: "reads mem p []"
  by (simp add: reads_def)

lemma reads_Cons [simp]: "reads mem p (x # xs) \<longleftrightarrow> rd mem p = Some x \<and> reads mem (p + 1) xs"
  by (auto simp: reads_def All_less_Suc2)

lemma reads_append [simp]: "reads mem p (xs @ ys) \<longleftrightarrow> reads mem p xs \<and> reads mem (p + length xs) ys"
  by (induction xs arbitrary: p) (auto simp: add.assoc)

lemma reads_self: "reads mem 0 mem"
  by (simp add: reads_def)

lemma reads_bytes [simp]: "reads mem p (bytes []) \<longleftrightarrow> True" "reads mem p (bytes (c # cs)) \<longleftrightarrow> rd mem p = Some (ch c) \<and> reads mem (p + 1) (bytes cs)"
  by (simp_all add: bytes_def)

subsection \<open>Counted strings (src/core/ngx_string.h)\<close>

text \<open>
  \<open>str_data\<close> is the memory from the address \<open>data\<close> on: the code may look at bytes past
  \<open>len\<close> where the region holds more (a terminating NUL, say).
\<close>

record ngx_str_t =
  str_len :: nat
  str_data :: "byte list"

definition ngx_string :: "byte list \<Rightarrow> ngx_str_t" where
  [ngx_defs]: "ngx_string bs = \<lparr>str_len = length bs, str_data = bs @ [0]\<rparr>"

subsection \<open>Byte classes\<close>

definition is_digit :: "byte \<Rightarrow> bool" where
  [byte_simps, ngx_defs]: "is_digit c \<longleftrightarrow> ch CHR ''0'' \<le> c \<and> c \<le> ch CHR ''9''"

definition ngx_tolower :: "byte \<Rightarrow> byte" where
  [ngx_defs]: "ngx_tolower c =
     (if ch CHR ''A'' \<le> c \<and> c \<le> ch CHR ''Z'' then c OR 0x20 else c)"

definition ngx_toupper :: "byte \<Rightarrow> byte" where
  [ngx_defs]: "ngx_toupper c =
     (if ch CHR ''a'' \<le> c \<and> c \<le> ch CHR ''z'' then c AND NOT 0x20 else c)"

text \<open>The value of a digit byte, as a number.\<close>

definition digit_val :: "byte \<Rightarrow> nat" where
  "digit_val c = unat c - 48"

lemma is_digit_unat: "is_digit c \<longleftrightarrow> 48 \<le> unat c \<and> unat c \<le> 57"
  by (simp add: byte_simps word_le_nat_alt)

lemma not_is_digit: "(c < ch CHR ''0'' \<or> ch CHR ''9'' < c) \<longleftrightarrow> \<not> is_digit c"
  by (auto simp: byte_simps)

lemma digit_val_less: "is_digit c \<Longrightarrow> digit_val c < 10"
  by (auto simp: is_digit_unat digit_val_def)

subsection \<open>Exhaustive case analysis over bytes\<close>

lemma all_byte: "(\<forall>b::byte. P b) \<longleftrightarrow> (\<forall>n\<in>set [0..<256]. P (of_nat n))"
proof
  assume all: "\<forall>n\<in>set [0..<256]. P (of_nat n)"
  show "\<forall>b. P b"
  proof
    fix b :: byte
    have "unat b < 2 ^ 8" using unsigned_less [of b] by simp
    then have "P (of_nat (unat b))" using all by (intro bspec [OF all]) simp
    then show "P b" by simp
  qed
qed simp

subsection \<open>Words and natural numbers\<close>

lemma unat_less_256: "unat (b::byte) < 256"
  using unsigned_less [of b] by simp

lemma unat_of_nat_small: "n < 2 ^ 64 \<Longrightarrow> unat (of_nat n :: 64 word) = n"
  by (simp add: unat_of_nat take_bit_nat_eq_self)

lemma sint_of_nat_small: "n < 2 ^ 63 \<Longrightarrow> sint (of_nat n :: 64 word) = int n"
  by (simp add: signed_of_nat signed_take_bit_int_eq_self)

lemma of_nat_sless_0: "((of_nat n :: 64 word) <s 0) \<longleftrightarrow> 2 ^ 63 \<le> n mod 2 ^ 64"
proof -
  have "(of_nat n :: 64 word) <s 0 \<longleftrightarrow> sint (of_nat n :: 64 word) < 0"
    by (simp add: word_sless_alt)
  also have "\<dots> \<longleftrightarrow> bit (of_nat n :: 64 word) 63"
    by (simp add: sint_uint bit_uint_iff)
  also have "\<dots> \<longleftrightarrow> bit n 63"
    by (simp add: bit_of_nat_iff)
  also have "\<dots> \<longleftrightarrow> odd (n div 2 ^ 63)"
    by (rule bit_iff_odd)
  also have "\<dots> \<longleftrightarrow> 2 ^ 63 \<le> n mod 2 ^ 64"
  proof -
    have "n mod 2 ^ 64 = 2 ^ 63 * (n div 2 ^ 63 mod 2) + n mod 2 ^ 63"
      using mod_mult2_eq [of n "2 ^ 63" 2] by simp
    moreover have "n mod 2 ^ 63 < 2 ^ 63" by simp
    ultimately show ?thesis by (cases "odd (n div 2 ^ 63)") (auto simp: mod2_eq_if)
  qed
  finally show ?thesis .
qed

end
