(* ===== verification/Ngx_Numbers.thy ===== *)
theory Ngx_Numbers
  imports Ngx_Prelude
begin

text \<open>
  Numbers in configuration values and headers: the decimal, fixed point and hexadecimal
  readers of src/core/ngx_string.c (\<open>ngx_atoi\<close>, \<open>ngx_atofp\<close>, \<open>ngx_atosz\<close>, \<open>ngx_atoof\<close>,
  \<open>ngx_atotm\<close>, \<open>ngx_hextoi\<close>, \<open>ngx_hex_dump\<close>). The first argument is the memory from the pointer on, the result is
  \<open>None\<close> exactly when the code reads outside of it.
\<close>

section \<open>Decimal numbers\<close>

fun ngx_ato_loop :: "byte list \<Rightarrow> nat \<Rightarrow> ngx_int_t \<Rightarrow> ngx_int_t option" where
  "ngx_ato_loop line 0 value = Some (if value <s 0 then NGX_ERROR else value)"
| "ngx_ato_loop [] (Suc n) value = None"
| "ngx_ato_loop (c # line) (Suc n) value =
     (if c < ch CHR ''0'' \<or> ch CHR ''9'' < c then Some NGX_ERROR
      else ngx_ato_loop line n (value * 10 + (ucast c - ucast (ch CHR ''0''))))"

definition ngx_atoi :: "byte list \<Rightarrow> nat \<Rightarrow> ngx_int_t option" where
  [ngx_defs]: "ngx_atoi line n = (if n = 0 then Some NGX_ERROR else ngx_ato_loop line n 0)"

text \<open>
  \<open>ngx_atosz\<close>, \<open>ngx_atoof\<close> and \<open>ngx_atotm\<close> have the body of \<open>ngx_atoi\<close> at the types
  \<open>ssize_t\<close>, \<open>off_t\<close> and \<open>time_t\<close>, which are 64-bit signed integers as well.
\<close>

definition ngx_atosz :: "byte list \<Rightarrow> nat \<Rightarrow> 64 word option" where
  [ngx_defs]: "ngx_atosz line n = (if n = 0 then Some NGX_ERROR else ngx_ato_loop line n 0)"

definition ngx_atoof :: "byte list \<Rightarrow> nat \<Rightarrow> 64 word option" where
  [ngx_defs]: "ngx_atoof line n = (if n = 0 then Some NGX_ERROR else ngx_ato_loop line n 0)"

definition ngx_atotm :: "byte list \<Rightarrow> nat \<Rightarrow> 64 word option" where
  [ngx_defs]: "ngx_atotm line n = (if n = 0 then Some NGX_ERROR else ngx_ato_loop line n 0)"

section \<open>Fixed point numbers\<close>

primrec ngx_atofp_scale :: "nat \<Rightarrow> ngx_int_t \<Rightarrow> ngx_int_t" where
  "ngx_atofp_scale 0 value = value"
| "ngx_atofp_scale (Suc point) value = ngx_atofp_scale point (value * 10)"

fun ngx_atofp_loop :: "byte list \<Rightarrow> nat \<Rightarrow> nat \<Rightarrow> bool \<Rightarrow> ngx_int_t \<Rightarrow> ngx_int_t option" where
  "ngx_atofp_loop line 0 point dot value =
     (let value = ngx_atofp_scale point value
      in Some (if value <s 0 then NGX_ERROR else value))"
| "ngx_atofp_loop line (Suc n) point dot value =
     (if point = 0 then Some NGX_ERROR
      else case line of
        [] \<Rightarrow> None
      | c # line' \<Rightarrow>
          if c = ch CHR ''.'' then
            (if dot then Some NGX_ERROR else ngx_atofp_loop line' n point True value)
          else if c < ch CHR ''0'' \<or> ch CHR ''9'' < c then Some NGX_ERROR
          else ngx_atofp_loop line' n (point - (if dot then 1 else 0)) dot
                 (value * 10 + (ucast c - ucast (ch CHR ''0''))))"

definition ngx_atofp :: "byte list \<Rightarrow> nat \<Rightarrow> nat \<Rightarrow> ngx_int_t option" where
  [ngx_defs]: "ngx_atofp line n point =
     (if n = 0 then Some NGX_ERROR else ngx_atofp_loop line n point False 0)"

section \<open>Hexadecimal numbers\<close>

fun ngx_hextoi_loop :: "byte list \<Rightarrow> nat \<Rightarrow> ngx_int_t \<Rightarrow> ngx_int_t option" where
  "ngx_hextoi_loop line 0 value = Some (if value <s 0 then NGX_ERROR else value)"
| "ngx_hextoi_loop [] (Suc n) value = None"
| "ngx_hextoi_loop (c # line) (Suc n) value =
     (if ch CHR ''0'' \<le> c \<and> c \<le> ch CHR ''9'' then
        ngx_hextoi_loop line n (value * 16 + (ucast c - ucast (ch CHR ''0'')))
      else let c' = c OR 0x20
        in if ch CHR ''a'' \<le> c' \<and> c' \<le> ch CHR ''f'' then
             ngx_hextoi_loop line n (value * 16 + (ucast c' - ucast (ch CHR ''a'') + 10))
           else Some NGX_ERROR)"

definition ngx_hextoi :: "byte list \<Rightarrow> nat \<Rightarrow> ngx_int_t option" where
  [ngx_defs]: "ngx_hextoi line n = (if n = 0 then Some NGX_ERROR else ngx_hextoi_loop line n 0)"

definition hex_digits :: "byte list" where
  [ngx_defs]: "hex_digits = bytes ''0123456789abcdef''"

fun ngx_hex_dump :: "byte list \<Rightarrow> nat \<Rightarrow> byte list option" where
  "ngx_hex_dump src 0 = Some []"
| "ngx_hex_dump [] (Suc len) = None"
| "ngx_hex_dump (c # src) (Suc len) = do {
     rest \<leftarrow> ngx_hex_dump src len;
     Some (hex_digits ! unat (drop_bit 4 c) # hex_digits ! unat (c AND 0xf) # rest)
   }"

section \<open>Decimal readers: values, errors and wrap-around\<close>

definition dec_acc :: "nat \<Rightarrow> byte list \<Rightarrow> nat" where
  "dec_acc v ds = foldl (\<lambda>v c. v * 10 + digit_val c) v ds"

abbreviation dec_value :: "byte list \<Rightarrow> nat" where
  "dec_value \<equiv> dec_acc 0"

lemma dec_acc_simps [simp]:
  "dec_acc v [] = v"
  "dec_acc v (c # ds) = dec_acc (v * 10 + digit_val c) ds"
  by (simp_all add: dec_acc_def)

lemma dec_acc_append [simp]: "dec_acc v (xs @ ys) = dec_acc (dec_acc v xs) ys"
  by (simp add: dec_acc_def)

text \<open>What the readers return for the accumulated value: the C test \<open>value < 0\<close>.\<close>

definition int64_result :: "nat \<Rightarrow> ngx_int_t" where
  "int64_result v = (if v mod 2 ^ 64 < 2 ^ 63 then of_nat v else NGX_ERROR)"

lemma int64_result_small: "v < 2 ^ 63 \<Longrightarrow> int64_result v = of_nat v"
  by (simp add: int64_result_def)

lemma int64_result_code:
  "(if (of_nat v :: ngx_int_t) <s 0 then NGX_ERROR else of_nat v) = int64_result v"
  by (auto simp: int64_result_def of_nat_sless_0 simp del: of_nat_numeral)

lemma digit_step:
  assumes "is_digit c"
  shows "(of_nat v :: 64 word) * 10 + (ucast c - ucast (ch CHR ''0'')) = of_nat (v * 10 + digit_val c)"
proof -
  have "unat c = 48 + digit_val c"
    using assms by (simp add: is_digit_unat digit_val_def)
  then have "(ucast c :: 64 word) = 48 + of_nat (digit_val c)"
    by (metis of_nat_unat of_nat_add of_nat_numeral)
  then show ?thesis by (simp add: byte_simps)
qed

lemma ngx_ato_loop_spec:
  "n \<le> length line \<Longrightarrow> ngx_ato_loop line n (of_nat v) =
     Some (if list_all is_digit (take n line) then int64_result (dec_acc v (take n line))
           else NGX_ERROR)"
proof (induction n arbitrary: line v)
  case 0
  then show ?case by (simp add: int64_result_code)
next
  case (Suc n)
  then obtain c line' where line: "line = c # line'" "n \<le> length line'"
    by (cases line) auto
  show ?case
  proof (cases "is_digit c")
    case True
    with line show ?thesis
      using Suc.IH [OF line(2), of "v * 10 + digit_val c"] digit_step [OF True, of v]
      by (simp add: not_is_digit)
  qed (simp add: line not_is_digit)
qed

lemmas ngx_ato_defs = ngx_atoi_def ngx_atosz_def ngx_atoof_def ngx_atotm_def

lemma ngx_ato_loop_0:
  "n \<le> length line \<Longrightarrow> ngx_ato_loop line n 0 =
     Some (if list_all is_digit (take n line) then int64_result (dec_value (take n line))
           else NGX_ERROR)"
  using ngx_ato_loop_spec [of n line 0] by simp

text \<open>
  on \<open>n\<close> readable bytes \<open>ngx_atoi\<close> always returns, reads nothing else, and the result is the
  decimal value of the digits where that value fits into the positive half of the 64-bit range,
  and \<open>NGX_ERROR\<close> when there is no byte or some byte is not a digit. A larger value is taken
  modulo 2^64 first, so it is an error only if the wrapped value is negative.
\<close>

theorem ngx_atoi_correct:
  assumes "n \<le> length line"
  shows "ngx_atoi line n =
     Some (if n = 0 \<or> \<not> list_all is_digit (take n line) then NGX_ERROR
           else if dec_value (take n line) mod 2 ^ 64 < 2 ^ 63
                then of_nat (dec_value (take n line)) else NGX_ERROR)"
  using assms by (simp add: ngx_atoi_def ngx_ato_loop_0 int64_result_def)

theorem ngx_atoi_correct_witness:
  "ngx_atoi (bytes ''18446744073709551617;'') 20 = Some 1"
  using ngx_atoi_correct [of 20 "bytes ''18446744073709551617;''"]
  by (simp add: byte_simps digit_val_def)

lemma int64_result_neq_error:
  assumes "v < 2 ^ 63"
  shows "int64_result v \<noteq> NGX_ERROR"
proof
  assume "int64_result v = NGX_ERROR"
  with assms have "sint (of_nat v :: ngx_int_t) = sint (- 1 :: ngx_int_t)"
    by (simp only: int64_result_small)
  moreover have "sint (of_nat v :: ngx_int_t) = int v" using assms by (rule sint_of_nat_small)
  moreover have "sint (- 1 :: ngx_int_t) = - 1" by (rule sint_n1)
  ultimately show False by linarith
qed

lemma ngx_ato_loop_digits:
  assumes "list_all is_digit ds" and "dec_value ds < 2 ^ 63"
  shows "ngx_ato_loop (ds @ rest) (length ds) 0 = Some (int64_result (dec_value ds))"
  using ngx_ato_loop_0 [of "length ds" "ds @ rest"] assms by simp

lemma last_digit:
  assumes "list_all is_digit ds" and "ds \<noteq> []"
  shows "is_digit (ds ! (length ds - Suc 0))"
  using assms by (simp add: list_all_length)

section \<open>Fixed point reader\<close>

lemma ngx_atofp_scale_of_nat: "ngx_atofp_scale point (of_nat v) = of_nat (v * 10 ^ point)"
proof (induction point arbitrary: v)
  case (Suc point)
  have "ngx_atofp_scale point (of_nat (v * 10)) = of_nat (v * 10 * 10 ^ point)"
    by (rule Suc.IH)
  then show ?case by (simp add: algebra_simps)
qed simp

lemma ngx_atofp_loop_digit:
  assumes "is_digit c" and "0 < point"
  shows "ngx_atofp_loop (c # line) (Suc n) point dot (of_nat v) =
     ngx_atofp_loop line n (point - (if dot then 1 else 0)) dot (of_nat (v * 10 + digit_val c))"
proof -
  have "c \<noteq> ch CHR ''.''" using assms(1) by (auto simp: byte_simps)
  then show ?thesis
    using assms digit_step [OF assms(1), of v] by (simp add: not_is_digit)
qed

lemma ngx_atofp_loop_int:
  "list_all is_digit ds \<Longrightarrow> 0 < point \<Longrightarrow>
     ngx_atofp_loop (ds @ line) (length ds + n) point False (of_nat v) =
     ngx_atofp_loop line n point False (of_nat (dec_acc v ds))"
proof (induction ds arbitrary: v)
  case (Cons c ds)
  then show ?case
    using ngx_atofp_loop_digit [of c point "ds @ line" "length ds + n" False v]
    by (simp del: ngx_atofp_loop.simps of_nat_add of_nat_mult)
qed simp

lemma ngx_atofp_loop_frac:
  "list_all is_digit fs \<Longrightarrow>
     ngx_atofp_loop (fs @ line) (length fs) point True (of_nat v) =
     Some (if length fs \<le> point then int64_result (dec_acc v fs * 10 ^ (point - length fs))
           else NGX_ERROR)"
proof (induction fs arbitrary: point v)
  case Nil
  then show ?case
    using int64_result_code [of "v * 10 ^ point"]
    by (simp add: ngx_atofp_scale_of_nat Let_def del: of_nat_mult of_nat_power)
next
  case (Cons c fs)
  show ?case
  proof (cases "point = 0")
    case False
    then obtain q where q: "point = Suc q" by (cases point) auto
    show ?thesis
      using ngx_atofp_loop_digit [of c point "fs @ line" "length fs" True v] Cons q
      by (simp del: ngx_atofp_loop.simps of_nat_add of_nat_mult)
  qed simp
qed

text \<open>
  \<open>ngx_atofp\<close> reads \<open>ds.fs\<close> with at most \<open>point\<close> fractional digits as the value scaled by
  \<open>10^point\<close>, e.g. \<open>ngx_atofp("10.5", 4, 2)\<close> is 1050; more fractional digits are an error.
\<close>

theorem ngx_atofp_correct:
  assumes "list_all is_digit ds" and "list_all is_digit fs" and "0 < point"
  shows "ngx_atofp (ds @ ch CHR ''.'' # fs @ rest) (length ds + 1 + length fs) point =
     Some (if length fs \<le> point
           then int64_result (dec_value (ds @ fs) * 10 ^ (point - length fs))
           else NGX_ERROR)"
proof -
  have "ngx_atofp (ds @ ch CHR ''.'' # fs @ rest) (length ds + 1 + length fs) point =
      ngx_atofp_loop (ch CHR ''.'' # fs @ rest) (Suc (length fs)) point False (of_nat (dec_value ds))"
    using ngx_atofp_loop_int [OF assms(1,3), of "ch CHR ''.'' # fs @ rest" "Suc (length fs)" 0]
    by (simp add: ngx_atofp_def del: ngx_atofp_loop.simps)
  also have "\<dots> = ngx_atofp_loop (fs @ rest) (length fs) point True (of_nat (dec_value ds))"
    using assms(3) by simp
  finally show ?thesis
    using ngx_atofp_loop_frac [OF assms(2), of rest point "dec_value ds"] by simp
qed

theorem ngx_atofp_correct_witness: "ngx_atofp (bytes ''10.5'') (length ''10.5'') 2 = Some 1050"
  using ngx_atofp_correct [of "bytes ''10''" "bytes ''5''" 2 "[]"]
  by (simp add: byte_simps digit_val_def int64_result_def)

section \<open>Hexadecimal dump and reader\<close>

definition be_acc :: "nat \<Rightarrow> byte list \<Rightarrow> nat" where
  "be_acc v bs = foldl (\<lambda>v c. v * 256 + unat c) v bs"

lemma be_acc_simps [simp]:
  "be_acc v [] = v"
  "be_acc v (c # bs) = be_acc (v * 256 + unat c) bs"
  by (simp_all add: be_acc_def)

lemma unat_high_nibble: "unat (drop_bit 4 (c::byte)) = unat c div 16"
proof -
  have "unat (drop_bit 4 c) = unat c div 2 ^ 4"
    unfolding unat_drop_bit_eq by (rule drop_bit_eq_div)
  then show ?thesis by simp
qed

lemma unat_low_nibble: "unat (c AND 0xf :: byte) = unat c mod 16"
proof -
  have "c AND 0xf = take_bit 4 c"
    by (simp add: take_bit_eq_mask mask_numeral)
  moreover have "unat (take_bit 4 c) = unat c mod 2 ^ 4"
    unfolding unsigned_take_bit_eq by (rule take_bit_eq_mod)
  ultimately show ?thesis by simp
qed

lemma nibble_cases:
  assumes "n < (16::nat)"
  shows "n \<in> {0, 1, 2, 3, 4, 5, 6, 7, 8, 9, 10, 11, 12, 13, 14, 15}"
  using assms by simp presburger

lemma ngx_hextoi_loop_nibble:
  assumes "n < 16"
  shows "ngx_hextoi_loop (hex_digits ! n # line) (Suc k) value =
     ngx_hextoi_loop line k (value * 16 + of_nat n)"
  using nibble_cases [OF assms] by (auto simp: hex_digits_def byte_simps Let_def)

lemma ngx_hextoi_loop_byte:
  fixes c :: byte
  shows "ngx_hextoi_loop (hex_digits ! unat (drop_bit 4 c) # hex_digits ! unat (c AND 0xf) # line)
       (Suc (Suc k)) (of_nat v) =
     ngx_hextoi_loop line k (of_nat (v * 256 + unat c))"
proof -
  let ?hi = "unat c div 16" and ?lo = "unat c mod 16"
  have hi: "?hi < 16" and lo: "?lo < 16" using unat_less_256 [of c] by simp_all
  have "ngx_hextoi_loop (hex_digits ! ?hi # hex_digits ! ?lo # line) (Suc (Suc k)) (of_nat v) =
      ngx_hextoi_loop line k ((of_nat v * 16 + of_nat ?hi) * 16 + of_nat ?lo)"
    by (simp only: ngx_hextoi_loop_nibble [OF hi] ngx_hextoi_loop_nibble [OF lo])
  also have "(of_nat v * 16 + of_nat ?hi) * 16 + of_nat ?lo =
      (of_nat ((v * 16 + ?hi) * 16 + ?lo) :: ngx_int_t)"
    by (simp only: of_nat_add of_nat_mult of_nat_numeral)
  also have "(v * 16 + ?hi) * 16 + ?lo = v * 256 + unat c"
    by (simp add: algebra_simps)
  finally show ?thesis by (simp only: unat_high_nibble unat_low_nibble)
qed

text \<open>
  the hexadecimal reader inverts the hexadecimal dump: dumping \<open>src\<close> and reading it back
  gives the big-endian value of the bytes (an error if that value is negative at 64 bits).
\<close>

theorem ngx_hextoi_hex_dump:
  assumes "src \<noteq> []"
  shows "do { h \<leftarrow> ngx_hex_dump src (length src); ngx_hextoi h (length h) } =
     Some (int64_result (be_acc 0 src))"
proof -
  have "\<exists>h. ngx_hex_dump src (length src) = Some h \<and> length h = 2 * length src \<and>
      ngx_hextoi_loop h (length h) (of_nat v) = Some (int64_result (be_acc v src))" for v
  proof (induction src arbitrary: v)
    case Nil
    then show ?case by (simp add: int64_result_code)
  next
    case (Cons c src)
    then obtain h where "ngx_hex_dump src (length src) = Some h" "length h = 2 * length src"
      "ngx_hextoi_loop h (length h) (of_nat (v * 256 + unat c)) =
        Some (int64_result (be_acc (v * 256 + unat c) src))"
      by blast
    then show ?case
      using ngx_hextoi_loop_byte [of c h "length h" v]
      by (simp del: ngx_hextoi_loop.simps of_nat_add of_nat_mult of_nat_unat)
  qed
  from this [of 0] obtain h where h: "ngx_hex_dump src (length src) = Some h"
    "length h = 2 * length src"
    "ngx_hextoi_loop h (length h) 0 = Some (int64_result (be_acc 0 src))"
    by auto
  with assms show ?thesis by (auto simp: ngx_hextoi_def)
qed

theorem ngx_hextoi_hex_dump_witness:
  "do { h \<leftarrow> ngx_hex_dump [0x12, 0xab] (length [0x12, 0xab :: byte]); ngx_hextoi h (length h) } = Some 0x12ab"
  using ngx_hextoi_hex_dump [of "[0x12, 0xab]"]
  by (simp add: int64_result_def del: ngx_hex_dump.simps)

end
