(* ===== verification/Ngx_Parse.thy ===== *)
theory Ngx_Parse
  imports Ngx_Numbers
begin

text \<open>
  The configuration value readers of src/core/ngx_parse.c: \<open>ngx_parse_size\<close>,
  \<open>ngx_parse_offset\<close> and \<open>ngx_parse_time\<close>. A result \<open>None\<close> is a read outside of the
  string's memory (an empty size reads the byte before the string).
\<close>

section \<open>Sizes and offsets\<close>

definition ngx_parse_size :: "ngx_str_t \<Rightarrow> 64 word option" where
  [ngx_defs]: "ngx_parse_size line = do {
     let len = str_len line;
     unit \<leftarrow> (if len = 0 then None else rd (str_data line) (len - 1));
     let (len, scale :: 64 word) =
       (if unit = ch CHR ''K'' \<or> unit = ch CHR ''k'' then (len - 1, 1024)
        else if unit = ch CHR ''M'' \<or> unit = ch CHR ''m'' then (len - 1, 1024 * 1024)
        else (len, 1));
     size \<leftarrow> ngx_atosz (str_data line) len;
     Some (if size = NGX_ERROR then NGX_ERROR else size * scale)
   }"

definition ngx_parse_offset :: "ngx_str_t \<Rightarrow> 64 word option" where
  [ngx_defs]: "ngx_parse_offset line = do {
     let len = str_len line;
     unit \<leftarrow> (if len = 0 then None else rd (str_data line) (len - 1));
     let (len, scale :: 64 word) =
       (if unit = ch CHR ''K'' \<or> unit = ch CHR ''k'' then (len - 1, 1024)
        else if unit = ch CHR ''M'' \<or> unit = ch CHR ''m'' then (len - 1, 1024 * 1024)
        else if unit = ch CHR ''G'' \<or> unit = ch CHR ''g'' then (len - 1, 1024 * 1024 * 1024)
        else (len, 1));
     offset \<leftarrow> ngx_atoof (str_data line) len;
     Some (if offset = NGX_ERROR then NGX_ERROR else offset * scale)
   }"

section \<open>Times\<close>

datatype time_step =
  st_start | st_year | st_month | st_week | st_day | st_hour | st_min | st_sec | st_msec | st_last

text \<open>The enumeration is ordered by its C values.\<close>

primrec step_value :: "time_step \<Rightarrow> nat" where
  "step_value st_start = 0"
| "step_value st_year = 1"
| "step_value st_month = 2"
| "step_value st_week = 3"
| "step_value st_day = 4"
| "step_value st_hour = 5"
| "step_value st_min = 6"
| "step_value st_sec = 7"
| "step_value st_msec = 8"
| "step_value st_last = 9"

lemma step_value_inj: "step_value a = step_value b \<Longrightarrow> a = b"
  by (cases a; cases b) simp_all

instantiation time_step :: linorder
begin
definition less_eq_time_step :: "time_step \<Rightarrow> time_step \<Rightarrow> bool" where
  "less_eq_time_step a b \<longleftrightarrow> step_value a \<le> step_value b"
definition less_time_step :: "time_step \<Rightarrow> time_step \<Rightarrow> bool" where
  "less_time_step a b \<longleftrightarrow> step_value a < step_value b"
instance
  by standard (auto simp: less_eq_time_step_def less_time_step_def dest: step_value_inj)
end

lemmas time_step_order = less_eq_time_step_def less_time_step_def

abbreviation (input) NGX_MAX_INT32_VALUE :: "64 word" where
  "NGX_MAX_INT32_VALUE \<equiv> 0x7fffffff"

text \<open>
  One unit letter \<open>c\<close>, with \<open>p\<close> already behind it: the new step, the largest value allowed
  with this unit, the scale and the new position; \<open>Some None\<close> is \<open>return NGX_ERROR\<close>.
\<close>

definition ngx_parse_time_unit ::
    "byte list \<Rightarrow> nat \<Rightarrow> bool \<Rightarrow> time_step \<Rightarrow> byte
       \<Rightarrow> (time_step \<times> ngx_uint_t \<times> ngx_int_t \<times> nat) option option" where
  "ngx_parse_time_unit data p is_sec step c =
     (if c = ch CHR ''y'' then
        Some (if step > st_start then None
              else Some (st_year, NGX_MAX_INT32_VALUE div (60 * 60 * 24 * 365),
                         60 * 60 * 24 * 365, p))
      else if c = ch CHR ''M'' then
        Some (if step \<ge> st_month then None
              else Some (st_month, NGX_MAX_INT32_VALUE div (60 * 60 * 24 * 30),
                         60 * 60 * 24 * 30, p))
      else if c = ch CHR ''w'' then
        Some (if step \<ge> st_week then None
              else Some (st_week, NGX_MAX_INT32_VALUE div (60 * 60 * 24 * 7),
                         60 * 60 * 24 * 7, p))
      else if c = ch CHR ''d'' then
        Some (if step \<ge> st_day then None
              else Some (st_day, NGX_MAX_INT32_VALUE div (60 * 60 * 24), 60 * 60 * 24, p))
      else if c = ch CHR ''h'' then
        Some (if step \<ge> st_hour then None
              else Some (st_hour, NGX_MAX_INT32_VALUE div (60 * 60), 60 * 60, p))
      else if c = ch CHR ''m'' then do {
        next \<leftarrow> rd data p;
        Some (if next = ch CHR ''s'' then
                (if is_sec \<or> step \<ge> st_msec then None
                 else Some (st_msec, NGX_MAX_INT32_VALUE, 1, p + 1))
              else if step \<ge> st_min then None
              else Some (st_min, NGX_MAX_INT32_VALUE div 60, 60, p))
      }
      else if c = ch CHR ''s'' then
        Some (if step \<ge> st_sec then None
              else Some (st_sec, NGX_MAX_INT32_VALUE, 1, p))
      else if c = ch CHR '' '' then
        Some (if step \<ge> st_sec then None
              else Some (st_last, NGX_MAX_INT32_VALUE, 1, p))
      else Some None)"

function skip_spaces :: "byte list \<Rightarrow> nat \<Rightarrow> nat \<Rightarrow> nat option" where
  "skip_spaces data stop p =
     (if p < stop then
        (case rd data p of
           None \<Rightarrow> None
         | Some c \<Rightarrow> if c = ch CHR '' '' then skip_spaces data stop (p + 1) else Some p)
      else Some p)"
  by pat_completeness auto
termination
  by (relation "measure (\<lambda>(data, stop, p). stop - p)") auto

declare skip_spaces.simps [simp del]

lemma skip_spaces_ge: "skip_spaces data stop p = Some q \<Longrightarrow> p \<le> q"
proof (induction data stop p rule: skip_spaces.induct)
  case (1 data stop p)
  show ?case
    using "1.prems" "1.IH"
    by (subst (asm) skip_spaces.simps) (fastforce split: if_splits option.splits)
qed

lemma ngx_parse_time_unit_ge:
  "ngx_parse_time_unit data p is_sec step c = Some (Some (step', maxv, scale, q)) \<Longrightarrow> p \<le> q"
  by (auto simp: ngx_parse_time_unit_def split: if_splits bind_splits)

function ngx_parse_time_loop ::
    "byte list \<Rightarrow> nat \<Rightarrow> bool \<Rightarrow> nat \<Rightarrow> time_step \<Rightarrow> ngx_int_t \<Rightarrow> ngx_int_t \<Rightarrow> bool
       \<Rightarrow> ngx_int_t option" where
  "ngx_parse_time_loop data stop is_sec p step value tot valid =
     (if p < stop then
        (case rd data p of
           None \<Rightarrow> None
         | Some c \<Rightarrow>
             if ch CHR ''0'' \<le> c \<and> c \<le> ch CHR ''9'' then
               ngx_parse_time_loop data stop is_sec (p + 1) step
                 (value * 10 + (ucast c - ucast (ch CHR ''0''))) tot True
             else
               (case ngx_parse_time_unit data (p + 1) is_sec step c of
                  None \<Rightarrow> None
                | Some None \<Rightarrow> Some NGX_ERROR
                | Some (Some (step', maxv, scale, q)) \<Rightarrow>
                    let (scale, maxv) =
                          (if step' \<noteq> st_msec \<and> \<not> is_sec then (scale * 1000, maxv div 1000)
                           else (scale, maxv))
                    in if value > maxv then Some NGX_ERROR
                       else let tot' = tot + value * scale
                         in if tot' > NGX_MAX_INT32_VALUE then Some NGX_ERROR
                            else (case skip_spaces data stop q of
                                    None \<Rightarrow> None
                                  | Some q' \<Rightarrow>
                                      ngx_parse_time_loop data stop is_sec q' step' 0 tot' valid)))
      else Some (if valid then tot + value * (if is_sec then 1 else 1000) else NGX_ERROR))"
  by pat_completeness auto
termination
  by (relation "measure (\<lambda>(data, stop, is_sec, p, step, value, tot, valid). stop - p)")
     (auto dest!: ngx_parse_time_unit_ge skip_spaces_ge)

declare ngx_parse_time_loop.simps [simp del]

definition ngx_parse_time :: "ngx_str_t \<Rightarrow> bool \<Rightarrow> ngx_int_t option" where
  [ngx_defs]: "ngx_parse_time line is_sec =
     ngx_parse_time_loop (str_data line) (str_len line) is_sec 0
       (if is_sec then st_start else st_month) 0 0 False"

section \<open>Sizes and offsets with a unit\<close>

definition size_unit :: "byte list \<Rightarrow> nat option" where
  "size_unit us =
     (if us = [] then Some 1
      else if us = bytes ''K'' \<or> us = bytes ''k'' then Some 1024
      else if us = bytes ''M'' \<or> us = bytes ''m'' then Some 1048576 else None)"

definition offset_unit :: "byte list \<Rightarrow> nat option" where
  "offset_unit us =
     (if us = bytes ''G'' \<or> us = bytes ''g'' then Some 1073741824 else size_unit us)"

lemma digit_not_unit:
  assumes "is_digit c"
  shows "c \<noteq> ch CHR ''K'' \<and> c \<noteq> ch CHR ''k'' \<and> c \<noteq> ch CHR ''M'' \<and> c \<noteq> ch CHR ''m'' \<and>
    c \<noteq> ch CHR ''G'' \<and> c \<noteq> ch CHR ''g''"
  using assms by (auto simp: byte_simps)

lemma ngx_parse_size_digits:
  assumes "list_all is_digit ds" and "ds \<noteq> []" and "dec_value ds < 2 ^ 63"
    and "size_unit us = Some k"
  shows "ngx_parse_size (ngx_string (ds @ us)) = Some (int64_result (dec_value ds) * of_nat k)"
proof -
  consider "us = []" "k = 1"
    | "us = bytes ''K''" "k = 1024" | "us = bytes ''k''" "k = 1024"
    | "us = bytes ''M''" "k = 1048576" | "us = bytes ''m''" "k = 1048576"
    using assms(4) unfolding size_unit_def by (metis option.inject option.distinct(1))
  then show ?thesis
  proof cases
    case 1
    then show ?thesis
      using assms(2) last_digit [OF assms(1,2)]
      by (simp add: ngx_parse_size_def ngx_string_def nth_append ngx_atosz_def digit_not_unit
          ngx_ato_loop_digits [OF assms(1,3)] int64_result_neq_error [OF assms(3)])
  qed (simp_all add: ngx_parse_size_def ngx_string_def nth_append ngx_atosz_def Let_def byte_simps
      ngx_ato_loop_digits [OF assms(1,3)] int64_result_neq_error [OF assms(3)] assms(2))
qed

lemma ngx_parse_offset_digits:
  assumes "list_all is_digit ds" and "ds \<noteq> []" and "dec_value ds < 2 ^ 63"
    and "offset_unit us = Some k"
  shows "ngx_parse_offset (ngx_string (ds @ us)) = Some (int64_result (dec_value ds) * of_nat k)"
proof -
  consider "us = []" "k = 1"
    | "us = bytes ''K''" "k = 1024" | "us = bytes ''k''" "k = 1024"
    | "us = bytes ''M''" "k = 1048576" | "us = bytes ''m''" "k = 1048576"
    | "us = bytes ''G''" "k = 1073741824" | "us = bytes ''g''" "k = 1073741824"
    using assms(4) unfolding offset_unit_def size_unit_def by (metis option.inject option.distinct(1))
  then show ?thesis
  proof cases
    case 1
    then show ?thesis
      using assms(2) last_digit [OF assms(1,2)]
      by (simp add: ngx_parse_offset_def ngx_string_def nth_append ngx_atoof_def digit_not_unit
          ngx_ato_loop_digits [OF assms(1,3)] int64_result_neq_error [OF assms(3)])
  qed (simp_all add: ngx_parse_offset_def ngx_string_def nth_append ngx_atoof_def Let_def byte_simps
      ngx_ato_loop_digits [OF assms(1,3)] int64_result_neq_error [OF assms(3)] assms(2))
qed

text \<open>
  a size or an offset is its number times its unit, and the number itself without a unit.
  The product is not checked against the range: it is taken modulo 2^64.
\<close>

theorem ngx_parse_size_offset_unit:
  assumes "list_all is_digit ds" and "ds \<noteq> []" and "dec_value ds < 2 ^ 63"
  shows "(size_unit us = Some k \<longrightarrow>
            ngx_parse_size (ngx_string (ds @ us)) = Some (of_nat (dec_value ds * k))) \<and>
         (offset_unit us = Some k \<longrightarrow>
            ngx_parse_offset (ngx_string (ds @ us)) = Some (of_nat (dec_value ds * k)))"
  using ngx_parse_size_digits [OF assms] ngx_parse_offset_digits [OF assms]
  by (simp add: int64_result_small [OF assms(3)])

theorem ngx_parse_size_offset_unit_witness:
  "ngx_parse_size (ngx_string (bytes ''8m'')) = Some 8388608 \<and>
   ngx_parse_size (ngx_string (bytes ''18014398509481985K'')) = Some 1024"
  using ngx_parse_size_offset_unit [of "bytes ''8''" "bytes ''m''" 1048576]
    ngx_parse_size_offset_unit [of "bytes ''18014398509481985''" "bytes ''K''" 1024]
  by (simp add: byte_simps digit_val_def size_unit_def)

section \<open>Times: the value of a list of components\<close>

fun unit_bytes :: "time_step \<Rightarrow> byte list" where
  "unit_bytes st_year = bytes ''y''"
| "unit_bytes st_month = bytes ''M''"
| "unit_bytes st_week = bytes ''w''"
| "unit_bytes st_day = bytes ''d''"
| "unit_bytes st_hour = bytes ''h''"
| "unit_bytes st_min = bytes ''m''"
| "unit_bytes st_sec = bytes ''s''"
| "unit_bytes st_msec = bytes ''ms''"
| "unit_bytes _ = []"

fun unit_seconds :: "time_step \<Rightarrow> nat" where
  "unit_seconds st_year = 31536000"
| "unit_seconds st_month = 2592000"
| "unit_seconds st_week = 604800"
| "unit_seconds st_day = 86400"
| "unit_seconds st_hour = 3600"
| "unit_seconds st_min = 60"
| "unit_seconds _ = 1"

definition time_scale :: "bool \<Rightarrow> time_step \<Rightarrow> nat" where
  "time_scale is_sec u = unit_seconds u * (if is_sec \<or> u = st_msec then 1 else 1000)"

definition time_max :: "bool \<Rightarrow> time_step \<Rightarrow> nat" where
  "time_max is_sec u =
     0x7fffffff div unit_seconds u div (if is_sec \<or> u = st_msec then 1 else 1000)"

text \<open>
  A well-formed list of components: units in descending order of size, none repeated, no
  milliseconds in a value in seconds, every value and every partial sum in the 31-bit range.
\<close>

fun comps_ok :: "bool \<Rightarrow> time_step \<Rightarrow> nat \<Rightarrow> (byte list \<times> time_step) list \<Rightarrow> bool" where
  "comps_ok is_sec step tot [] = True"
| "comps_ok is_sec step tot ((ds, u) # cs) =
     (list_all is_digit ds \<and> ds \<noteq> [] \<and> step < u \<and> unit_bytes u \<noteq> [] \<and>
      (is_sec \<longrightarrow> u \<noteq> st_msec) \<and>
      dec_value ds \<le> time_max is_sec u \<and>
      tot + dec_value ds * time_scale is_sec u \<le> 0x7fffffff \<and>
      comps_ok is_sec u (tot + dec_value ds * time_scale is_sec u) cs)"

fun render_time :: "(byte list \<times> time_step) list \<Rightarrow> byte list" where
  "render_time [] = []"
| "render_time ((ds, u) # cs) = ds @ unit_bytes u @ render_time cs"

fun time_value :: "bool \<Rightarrow> (byte list \<times> time_step) list \<Rightarrow> nat" where
  "time_value is_sec [] = 0"
| "time_value is_sec ((ds, u) # cs) = dec_value ds * time_scale is_sec u + time_value is_sec cs"

lemma ngx_parse_time_loop_digits:
  "list_all is_digit ds \<Longrightarrow> length pre + length ds \<le> stop \<Longrightarrow>
     ngx_parse_time_loop (pre @ ds @ post) stop is_sec (length pre) step (of_nat v) tot valid =
     ngx_parse_time_loop (pre @ ds @ post) stop is_sec (length pre + length ds) step
       (of_nat (dec_acc v ds)) tot (valid \<or> ds \<noteq> [])"
proof (induction ds arbitrary: pre v valid)
  case (Cons c ds)
  then have "is_digit c" by simp
  then have "ngx_parse_time_loop (pre @ (c # ds) @ post) stop is_sec (length pre) step (of_nat v) tot valid
    = ngx_parse_time_loop ((pre @ [c]) @ ds @ post) stop is_sec (length (pre @ [c])) step
        (of_nat (v * 10 + digit_val c)) tot True"
    using Cons.prems digit_step [of c v]
    by (subst ngx_parse_time_loop.simps) (simp add: is_digit_def [symmetric] nth_append)
  then show ?case
    using Cons.IH [of "pre @ [c]" "v * 10 + digit_val c" True] Cons.prems by simp
qed simp

lemma skip_spaces_stay:
  assumes "p \<le> stop" and "p < stop \<Longrightarrow> p < length data \<and> data ! p \<noteq> ch CHR '' ''"
  shows "skip_spaces data stop p = Some p"
  using assms by (subst skip_spaces.simps) auto

lemma ngx_parse_time_unit_known:
  assumes "step < u" and "unit_bytes u = c # us" and "is_sec \<longrightarrow> u \<noteq> st_msec"
    and "us \<noteq> [] \<Longrightarrow> p < length data \<and> data ! p = hd us"
    and "us = [] \<Longrightarrow> p < length data \<and> data ! p \<noteq> ch CHR ''s''"
  shows "ngx_parse_time_unit data p is_sec step c =
    Some (Some (u, 0x7fffffff div of_nat (unit_seconds u), of_nat (unit_seconds u), p + length us))"
  using assms
  by (cases u; cases step) (auto simp: ngx_parse_time_unit_def time_step_order byte_simps)

lemma time_max_bound: "time_max is_sec u \<le> 0x7fffffff"
  by (cases u) (auto simp: time_max_def)

lemma time_max_word:
  "(if u \<noteq> st_msec \<and> \<not> is_sec
    then (of_nat (unit_seconds u) * 1000, 0x7fffffff div of_nat (unit_seconds u) div 1000)
    else (of_nat (unit_seconds u), 0x7fffffff div of_nat (unit_seconds u)))
   = (of_nat (time_scale is_sec u), of_nat (time_max is_sec u) :: 64 word)"
  by (cases u) (auto simp: time_scale_def time_max_def)

lemma of_nat_le_word64:
  assumes "a \<le> b" and "b \<le> 0x7fffffff"
  shows "\<not> of_nat b < (of_nat a :: 64 word)"
  using assms by (simp add: word_less_nat_alt unat_of_nat_small)

lemma unit_bytes_first:
  assumes "unit_bytes u = c # us"
  shows "\<not> is_digit c"
  using assms by (cases u) (auto simp: byte_simps)

lemma ngx_parse_time_loop_unit:
  assumes "step < u" and us: "unit_bytes u = c # us" and "is_sec \<longrightarrow> u \<noteq> st_msec"
    and v: "v \<le> time_max is_sec u" and tot: "tot + v * time_scale is_sec u \<le> 0x7fffffff"
    and post: "post \<noteq> []" "hd post \<noteq> ch CHR ''s''" "hd post \<noteq> ch CHR '' ''"
    and stop: "length pre + length (unit_bytes u) \<le> stop"
  shows "ngx_parse_time_loop (pre @ unit_bytes u @ post) stop is_sec (length pre) step
      (of_nat v) (of_nat tot) valid =
    ngx_parse_time_loop (pre @ unit_bytes u @ post) stop is_sec (length pre + length (unit_bytes u)) u
      0 (of_nat (tot + v * time_scale is_sec u)) valid"
proof -
  let ?data = "pre @ unit_bytes u @ post" and ?p = "Suc (length pre)"
  let ?q = "length pre + length (unit_bytes u)"
  have c: "rd ?data (length pre) = Some c" "\<not> (ch CHR ''0'' \<le> c \<and> c \<le> ch CHR ''9'')"
    using us unit_bytes_first [OF us] by (simp_all add: is_digit_def)
  have len: "us = [] \<or> (\<exists>d. us = [d])"
    using us by (cases u) (auto simp: bytes_def)
  have after: "?q < length ?data \<and> ?data ! ?q = hd post"
    using post(1) by (simp add: nth_append hd_conv_nth)
  have unit: "ngx_parse_time_unit ?data ?p is_sec step c =
      Some (Some (u, 0x7fffffff div of_nat (unit_seconds u), of_nat (unit_seconds u), ?p + length us))"
    using len us post after
    by (intro ngx_parse_time_unit_known assms(1,3) us) (auto simp: nth_append)
  have "skip_spaces ?data stop ?q = Some ?q"
    using stop after post(3) by (intro skip_spaces_stay) auto
  then have skip: "skip_spaces ?data stop (?p + length us) = Some ?q"
    using us by simp
  have sum: "of_nat tot + of_nat v * of_nat (time_scale is_sec u) =
      (of_nat (tot + v * time_scale is_sec u) :: 64 word)"
    by simp
  have le: "\<not> of_nat (time_max is_sec u) < (of_nat v :: 64 word)"
    "\<not> 0x7fffffff < (of_nat (tot + v * time_scale is_sec u) :: 64 word)"
    using of_nat_le_word64 [OF v time_max_bound] of_nat_le_word64 [OF tot] by simp_all
  show ?thesis
    using stop us c unit skip le
    by (subst ngx_parse_time_loop.simps) (auto simp: time_max_word sum simp del: of_nat_add of_nat_mult)
qed

lemma hd_render_time:
  assumes "comps_ok is_sec step tot cs" and "list_all is_digit ts"
  shows "hd (render_time cs @ ts @ [0]) \<noteq> ch CHR ''s'' \<and>
         hd (render_time cs @ ts @ [0]) \<noteq> ch CHR '' ''"
proof -
  have "c \<noteq> ch CHR ''s'' \<and> c \<noteq> ch CHR '' ''" if "c = 0 \<or> is_digit c" for c
    using that by (auto simp: byte_simps)
  moreover have "hd (render_time cs @ ts @ [0]) = 0 \<or> is_digit (hd (render_time cs @ ts @ [0]))"
    using assms by (cases cs; cases ts) (auto simp: neq_Nil_conv)
  ultimately show ?thesis by blast
qed

lemma ngx_parse_time_loop_comps:
  "comps_ok is_sec step tot cs \<Longrightarrow> list_all is_digit ts \<Longrightarrow>
   ngx_parse_time_loop (pre @ render_time cs @ ts @ [0]) (length pre + length (render_time cs) + length ts)
     is_sec (length pre) step 0 (of_nat tot) valid =
   Some (if valid \<or> cs \<noteq> [] \<or> ts \<noteq> []
         then of_nat (tot + time_value is_sec cs + dec_value ts * (if is_sec then 1 else 1000))
         else NGX_ERROR)"
proof (induction cs arbitrary: pre step tot valid)
  case Nil
  then show ?case
    using ngx_parse_time_loop_digits [of ts pre "length pre + length ts" "[0]" is_sec step 0]
    by (simp add: ngx_parse_time_loop.simps [where p = "length pre + length ts"])
next
  case (Cons cu cs)
  obtain ds u where cu: "cu = (ds, u)" by (cases cu)
  then obtain c us where us: "unit_bytes u = c # us"
    using Cons.prems by (cases "unit_bytes u") auto
  let ?post = "render_time cs @ ts @ [0]"
  let ?stop = "length pre + length (render_time (cu # cs)) + length ts"
  let ?tot = "tot + dec_value ds * time_scale is_sec u"
  have "ngx_parse_time_loop (pre @ ds @ unit_bytes u @ ?post) ?stop is_sec (length pre) step 0
      (of_nat tot) valid =
    ngx_parse_time_loop ((pre @ ds) @ unit_bytes u @ ?post) ?stop is_sec (length (pre @ ds)) step
      (of_nat (dec_value ds)) (of_nat tot) True"
    using ngx_parse_time_loop_digits [of ds pre ?stop "unit_bytes u @ ?post" is_sec step 0] Cons.prems cu
    by simp
  also have "\<dots> = ngx_parse_time_loop ((pre @ ds) @ unit_bytes u @ ?post) ?stop is_sec
      (length (pre @ ds) + length (unit_bytes u)) u 0 (of_nat ?tot) True"
    using Cons.prems cu us hd_render_time [of is_sec u ?tot cs ts]
    by (intro ngx_parse_time_loop_unit) auto
  finally show ?case
    using Cons.IH [of u ?tot "pre @ ds @ unit_bytes u" True] Cons.prems cu
    by (simp add: algebra_simps)
qed

text \<open>
  a time value made of components in descending units (\<open>1d 2h\<close> written \<open>1d2h\<close>) and a
  trailing number is the sum of its components, in seconds or, for \<open>is_sec = 0\<close>, in
  milliseconds. A trailing number without a unit counts as seconds and is not range-checked.
\<close>

theorem ngx_parse_time_components:
  assumes "comps_ok is_sec (if is_sec then st_start else st_month) 0 cs"
    and "list_all is_digit ts" and "cs \<noteq> [] \<or> ts \<noteq> []"
  shows "ngx_parse_time (ngx_string (render_time cs @ ts)) is_sec =
    Some (of_nat (time_value is_sec cs + dec_value ts * (if is_sec then 1 else 1000)))"
  using ngx_parse_time_loop_comps [OF assms(1,2), of "[]" False] assms(3)
  by (auto simp: ngx_parse_time_def ngx_string_def)

theorem ngx_parse_time_components_witness:
  "ngx_parse_time (ngx_string (bytes ''1d2h'')) True = Some 93600 \<and>
   ngx_parse_time (ngx_string (bytes ''1d99999999999'')) True = Some 100000086399"
  using ngx_parse_time_components [of True "[(bytes ''1'', st_day), (bytes ''2'', st_hour)]" "[]"]
    ngx_parse_time_components [of True "[(bytes ''1'', st_day)]" "bytes ''99999999999''"]
  by (simp add: byte_simps digit_val_def time_step_order time_max_def time_scale_def)

lemma skip_spaces_total:
  "stop < length data \<Longrightarrow> skip_spaces data stop p \<noteq> None"
proof (induction data stop p rule: skip_spaces.induct)
  case (1 data stop p)
  then show ?case by (subst skip_spaces.simps) auto
qed

lemma ngx_parse_time_unit_total:
  "p < length data \<Longrightarrow> ngx_parse_time_unit data p is_sec step c \<noteq> None"
  by (auto simp: ngx_parse_time_unit_def)

text \<open>
  on a string with a readable byte after its end (the configuration's strings are
  NUL-terminated) \<open>ngx_parse_time\<close> returns and never reads past that byte.
\<close>

theorem ngx_parse_time_memory_safe:
  assumes "str_len line < length (str_data line)"
  shows "\<exists>w. ngx_parse_time line is_sec = Some w"
proof -
  have "stop < length data \<Longrightarrow>
      ngx_parse_time_loop data stop sec p step v tot valid \<noteq> None"
    for data stop sec p step v tot valid
  proof (induction data stop sec p step v tot valid rule: ngx_parse_time_loop.induct)
    case (1 data stop sec p step v tot valid)
    then show ?case
      using ngx_parse_time_unit_total [of "p + 1" data sec step "data ! p"]
      by (subst ngx_parse_time_loop.simps)
         (auto simp: Let_def skip_spaces_total split: option.splits prod.splits if_splits)
  qed
  with assms show ?thesis by (auto simp: ngx_parse_time_def)
qed

theorem ngx_parse_time_memory_safe_witness:
  "\<exists>w. ngx_parse_time \<lparr>str_len = 2, str_data = bytes ''5m;''\<rparr> True = Some w"
  by (rule ngx_parse_time_memory_safe) simp

end
