(* ===== verification/Insertion_Sort.thy ===== *)
theory Insertion_Sort
  imports Main "HOL-Library.Multiset"
begin

text \<open>
  The reference for the two insertion sorts of the program (\<open>ngx_queue_sort\<close> on linked queues
  and \<open>ngx_sort\<close> on arrays): each element is moved towards the front past the elements that
  are strictly greater. For a comparison that follows a key this is the stable sort by the key.
\<close>

definition ins_back :: "('a \<Rightarrow> 'a \<Rightarrow> bool) \<Rightarrow> 'a \<Rightarrow> 'a list \<Rightarrow> 'a list" where
  "ins_back le q ys =
     rev (dropWhile (\<lambda>p. \<not> le p q) (rev ys)) @ q # rev (takeWhile (\<lambda>p. \<not> le p q) (rev ys))"

lemma ins_back_snoc:
  "ins_back le q (ys @ [y]) = (if le y q then ys @ [y, q] else ins_back le q ys @ [y])"
  by (simp add: ins_back_def)

lemma ins_back_Nil [simp]: "ins_back le q [] = [q]"
  by (simp add: ins_back_def)

lemma ins_back_not_Nil [simp]: "ins_back le q ys \<noteq> []"
  by (simp add: ins_back_def)

lemma mset_ins_back [simp]: "mset (ins_back le q ys) = add_mset q (mset ys)"
  by (induction ys rule: rev_induct) (auto simp: ins_back_snoc)

lemma set_ins_back [simp]: "set (ins_back le q ys) = insert q (set ys)"
  by (metis mset_ins_back set_mset_add_mset_insert set_mset_mset)

lemma length_ins_back [simp]: "length (ins_back le q ys) = Suc (length ys)"
  by (metis mset_ins_back size_add_mset size_mset)

lemma ins_back_sorted:
  assumes le: "\<And>a b. le a b \<longleftrightarrow> (key a :: 'k::linorder) \<le> key b"
  shows "sorted (map key ys) \<Longrightarrow>
    ins_back le q ys = filter (\<lambda>y. key y \<le> key q) ys @ q # filter (\<lambda>y. key q < key y) ys"
proof (induction ys rule: rev_induct)
  case (snoc y ys)
  then have below: "\<forall>x\<in>set ys. key x \<le> key y" by (simp add: sorted_append)
  show ?case
  proof (cases "key y \<le> key q")
    case True
    with below have "filter (\<lambda>y. key y \<le> key q) ys = ys" "filter (\<lambda>y. key q < key y) ys = []"
      by (auto simp: filter_id_conv filter_empty_conv)
    with True show ?thesis by (simp add: ins_back_snoc le)
  next
    case False
    with snoc show ?thesis by (simp add: ins_back_snoc le sorted_append)
  qed
qed simp

lemma sort_key_snoc:
  "sort_key key (xs @ [q]) =
     filter (\<lambda>y. key y \<le> key q) (sort_key key xs) @ q # filter (\<lambda>y. key q < key y) (sort_key key xs)"
proof (rule properties_for_sort_key)
  let ?s = "sort_key key xs"
  let ?lo = "filter (\<lambda>y. key y \<le> key q) ?s" and ?hi = "filter (\<lambda>y. key q < key y) ?s"
  have "mset ?lo + mset ?hi = mset ?s"
    by (metis (no_types, lifting) multiset_partition mset_filter not_le filter_mset_cong)
  then show "mset (?lo @ q # ?hi) = mset (xs @ [q])" by simp
  have sorted: "sorted (map key ?s)" by simp
  have "sorted (map key ?lo)" "sorted (map key ?hi)"
    using sorted_filter [OF sorted] by blast+
  then show "sorted (map key (?lo @ q # ?hi))"
    by (force simp: sorted_append)
  fix k
  have *: "filter (\<lambda>x. key k = key x) ?s = filter (\<lambda>x. key k = key x) xs"
    using sort_key_stable [of key "key k" xs] by (simp add: eq_commute)
  show "filter (\<lambda>x. key k = key x) (?lo @ q # ?hi) = filter (\<lambda>x. key k = key x) (xs @ [q])"
  proof (cases "key k \<le> key q")
    case True
    then have "filter (\<lambda>x. key k = key x) ?lo = filter (\<lambda>x. key k = key x) ?s"
      "filter (\<lambda>x. key k = key x) ?hi = []"
      by (auto simp: filter_empty_conv intro!: filter_cong)
    with True * show ?thesis by (auto simp: filter_empty_conv)
  next
    case False
    then have "filter (\<lambda>x. key k = key x) ?hi = filter (\<lambda>x. key k = key x) ?s"
      "filter (\<lambda>x. key k = key x) ?lo = []"
      by (auto simp: filter_empty_conv intro!: filter_cong)
    with False * show ?thesis by (auto simp: filter_empty_conv)
  qed
qed

lemma insertion_sort:
  assumes le: "\<And>a b. le a b \<longleftrightarrow> (key a :: 'k::linorder) \<le> key b"
  shows "foldl (\<lambda>ys q. ins_back le q ys) [] xs = sort_key key xs"
proof (induction xs rule: rev_induct)
  case (snoc q xs)
  then show ?case
    by (simp add: ins_back_sorted [OF le] sort_key_snoc)
qed simp

end
