(* ===== verification/Ngx_Queue.thy ===== *)
theory Ngx_Queue
  imports Ngx_Prelude Insertion_Sort
begin

text \<open>
  The circular doubly linked queue of src/core/ngx_queue.h and src/core/ngx_queue.c. The store
  maps the address of a queue link to its \<open>prev\<close> and \<open>next\<close> pointers, every macro is the
  sequence of assignments it expands to (without \<open>NGX_DEBUG\<close>, which additionally clears a
  removed link), and the loops are partial functions whose \<open>None\<close> is a run that never returns.
  The abstraction \<open>queue s h xs\<close> says that from the sentinel \<open>h\<close> the links run through
  exactly the addresses \<open>xs\<close> and back.
\<close>

section \<open>Store and operations\<close>

record ngx_queue_t =
  qprev :: "addr \<Rightarrow> addr"
  qnext :: "addr \<Rightarrow> addr"

definition set_prev :: "addr \<Rightarrow> addr \<Rightarrow> ngx_queue_t \<Rightarrow> ngx_queue_t" where
  [ngx_defs]: "set_prev p v s = s\<lparr>qprev := (qprev s)(p := v)\<rparr>"

definition set_next :: "addr \<Rightarrow> addr \<Rightarrow> ngx_queue_t \<Rightarrow> ngx_queue_t" where
  [ngx_defs]: "set_next p v s = s\<lparr>qnext := (qnext s)(p := v)\<rparr>"

definition ngx_queue_init :: "addr \<Rightarrow> ngx_queue_t \<Rightarrow> ngx_queue_t" where
  [ngx_defs]: "ngx_queue_init q s =
     (let s = set_prev q q s
      in set_next q q s)"

definition ngx_queue_empty :: "addr \<Rightarrow> ngx_queue_t \<Rightarrow> bool" where
  [ngx_defs]: "ngx_queue_empty h s \<longleftrightarrow> h = qprev s h"

definition ngx_queue_insert_head :: "addr \<Rightarrow> addr \<Rightarrow> ngx_queue_t \<Rightarrow> ngx_queue_t" where
  [ngx_defs]: "ngx_queue_insert_head h x s =
     (let s = set_next x (qnext s h) s;
          s = set_prev (qnext s x) x s;
          s = set_prev x h s
      in set_next h x s)"

definition ngx_queue_insert_after :: "addr \<Rightarrow> addr \<Rightarrow> ngx_queue_t \<Rightarrow> ngx_queue_t" where
  [ngx_defs]: "ngx_queue_insert_after = ngx_queue_insert_head"

definition ngx_queue_insert_tail :: "addr \<Rightarrow> addr \<Rightarrow> ngx_queue_t \<Rightarrow> ngx_queue_t" where
  [ngx_defs]: "ngx_queue_insert_tail h x s =
     (let s = set_prev x (qprev s h) s;
          s = set_next (qprev s x) x s;
          s = set_next x h s
      in set_prev h x s)"

definition ngx_queue_head :: "addr \<Rightarrow> ngx_queue_t \<Rightarrow> addr" where
  [ngx_defs]: "ngx_queue_head h s = qnext s h"

definition ngx_queue_last :: "addr \<Rightarrow> ngx_queue_t \<Rightarrow> addr" where
  [ngx_defs]: "ngx_queue_last h s = qprev s h"

definition ngx_queue_remove :: "addr \<Rightarrow> ngx_queue_t \<Rightarrow> ngx_queue_t" where
  [ngx_defs]: "ngx_queue_remove x s =
     (let s = set_prev (qnext s x) (qprev s x) s
      in set_next (qprev s x) (qnext s x) s)"

definition ngx_queue_split :: "addr \<Rightarrow> addr \<Rightarrow> addr \<Rightarrow> ngx_queue_t \<Rightarrow> ngx_queue_t" where
  [ngx_defs]: "ngx_queue_split h q n s =
     (let s = set_prev n (qprev s h) s;
          s = set_next (qprev s n) n s;
          s = set_next n q s;
          s = set_prev h (qprev s q) s;
          s = set_next (qprev s h) h s
      in set_prev q n s)"

definition ngx_queue_add :: "addr \<Rightarrow> addr \<Rightarrow> ngx_queue_t \<Rightarrow> ngx_queue_t" where
  [ngx_defs]: "ngx_queue_add h n s =
     (let s = set_next (qprev s h) (qnext s n) s;
          s = set_prev (qnext s n) (qprev s h) s;
          s = set_prev h (qprev s n) s
      in set_next (qprev s h) h s)"

partial_function (option) ngx_queue_middle_loop ::
    "ngx_queue_t \<Rightarrow> addr \<Rightarrow> addr \<Rightarrow> addr \<Rightarrow> addr option" where
  "ngx_queue_middle_loop s queue middle nxt =
     (let middle = qnext s middle;
          nxt = qnext s nxt
      in if nxt = ngx_queue_last queue s then Some middle
         else let nxt = qnext s nxt
           in if nxt = ngx_queue_last queue s then Some middle
              else ngx_queue_middle_loop s queue middle nxt)"

definition ngx_queue_middle :: "addr \<Rightarrow> ngx_queue_t \<Rightarrow> addr option" where
  "ngx_queue_middle queue s =
     (let middle = ngx_queue_head queue s
      in if middle = ngx_queue_last queue s then Some middle
         else ngx_queue_middle_loop s queue middle (ngx_queue_head queue s))"

text \<open>The comparison function of the sort, on the links' addresses.\<close>

type_synonym ngx_queue_cmp = "addr \<Rightarrow> addr \<Rightarrow> ngx_int_t"

partial_function (option) ngx_queue_sort_back ::
    "ngx_queue_cmp \<Rightarrow> ngx_queue_t \<Rightarrow> addr \<Rightarrow> addr \<Rightarrow> addr \<Rightarrow> addr option" where
  "ngx_queue_sort_back cmp s queue prev q =
     (if cmp prev q <=s 0 then Some prev
      else let prev = qprev s prev
        in if prev \<noteq> queue then ngx_queue_sort_back cmp s queue prev q else Some prev)"

partial_function (option) ngx_queue_sort_loop ::
    "ngx_queue_cmp \<Rightarrow> addr \<Rightarrow> addr \<Rightarrow> ngx_queue_t \<Rightarrow> ngx_queue_t option" where
  "ngx_queue_sort_loop cmp queue q s =
     (if q = queue then Some s
      else let prev = qprev s q;
               nxt = qnext s q;
               s = ngx_queue_remove q s
        in do {
             prev \<leftarrow> ngx_queue_sort_back cmp s queue prev q;
             ngx_queue_sort_loop cmp queue nxt (ngx_queue_insert_after prev q s)
           })"

definition ngx_queue_sort :: "ngx_queue_cmp \<Rightarrow> addr \<Rightarrow> ngx_queue_t \<Rightarrow> ngx_queue_t option" where
  "ngx_queue_sort cmp queue s =
     (let q = ngx_queue_head queue s
      in if q = ngx_queue_last queue s then Some s
         else ngx_queue_sort_loop cmp queue (qnext s q) s)"

section \<open>The list a queue holds\<close>

fun links :: "ngx_queue_t \<Rightarrow> addr \<Rightarrow> addr list \<Rightarrow> addr \<Rightarrow> bool" where
  "links s a [] b \<longleftrightarrow> qnext s a = b \<and> qprev s b = a"
| "links s a (x # xs) b \<longleftrightarrow> qnext s a = x \<and> qprev s x = a \<and> links s x xs b"

definition queue :: "ngx_queue_t \<Rightarrow> addr \<Rightarrow> addr list \<Rightarrow> bool" where
  "queue s h xs \<longleftrightarrow> distinct (h # xs) \<and> links s h xs h"

lemma links_append [simp]:
  "links s a (xs @ y # ys) b \<longleftrightarrow> links s a xs y \<and> links s y ys b"
  by (induction xs arbitrary: a) auto

lemma links_last: "links s a xs b \<Longrightarrow> qprev s b = last (a # xs)"
  by (induction xs arbitrary: a) auto

lemma links_first: "links s a xs b \<Longrightarrow> qnext s a = hd (xs @ [b])"
  by (cases xs) auto

text \<open>Writes outside of a segment do not change it: only \<open>a\<close>'s \<open>next\<close> and \<open>b\<close>'s \<open>prev\<close> count.\<close>

lemma links_set_next [simp]:
  "p \<notin> set (a # xs) \<Longrightarrow> links (set_next p v s) a xs b = links s a xs b"
  by (induction xs arbitrary: a) (auto simp: set_next_def)

lemma links_set_prev [simp]:
  "p \<notin> set (xs @ [b]) \<Longrightarrow> links (set_prev p v s) a xs b = links s a xs b"
  by (induction xs arbitrary: a) (auto simp: set_prev_def)

lemma set_prev_sel [simp]:
  "qprev (set_prev p v s) = (qprev s)(p := v)" "qnext (set_prev p v s) = qnext s"
  by (simp_all add: set_prev_def)

lemma set_next_sel [simp]:
  "qnext (set_next p v s) = (qnext s)(p := v)" "qprev (set_next p v s) = qprev s"
  by (simp_all add: set_next_def)

lemma queue_init: "queue (ngx_queue_init h s) h []"
  by (simp add: queue_def ngx_queue_init_def)

lemma queue_empty_iff: "queue s h xs \<Longrightarrow> ngx_queue_empty h s \<longleftrightarrow> xs = []"
  by (cases xs rule: rev_cases) (auto simp: queue_def ngx_queue_empty_def)

lemma queue_head: "queue s h xs \<Longrightarrow> ngx_queue_head h s = hd (xs @ [h])"
  by (auto simp: queue_def ngx_queue_head_def dest: links_first)

lemma queue_last: "queue s h xs \<Longrightarrow> ngx_queue_last h s = last (h # xs)"
  by (auto simp: queue_def ngx_queue_last_def dest: links_last)

lemma queue_insert_head:
  "queue s h xs \<Longrightarrow> x \<notin> set (h # xs) \<Longrightarrow> queue (ngx_queue_insert_head h x s) h (x # xs)"
  by (cases xs) (auto simp: queue_def ngx_queue_insert_head_def Let_def)

lemma queue_insert_tail:
  "queue s h xs \<Longrightarrow> x \<notin> set (h # xs) \<Longrightarrow> queue (ngx_queue_insert_tail h x s) h (xs @ [x])"
  by (cases xs rule: rev_cases) (auto simp: queue_def ngx_queue_insert_tail_def Let_def)

lemma queue_insert_after:
  "queue s h (us @ p # vs) \<Longrightarrow> x \<notin> set (h # us @ p # vs) \<Longrightarrow>
     queue (ngx_queue_insert_after p x s) h (us @ p # x # vs)"
  by (cases us rule: rev_cases; cases vs)
     (auto simp: queue_def ngx_queue_insert_after_def ngx_queue_insert_head_def Let_def)

lemma queue_remove:
  "queue s h (us @ x # vs) \<Longrightarrow> queue (ngx_queue_remove x s) h (us @ vs)"
  by (cases us rule: rev_cases; cases vs) (auto simp: queue_def ngx_queue_remove_def Let_def)

lemma queue_split:
  "queue s h (us @ q # vs) \<Longrightarrow> n \<notin> set (h # us @ q # vs) \<Longrightarrow>
     queue (ngx_queue_split h q n s) h us \<and> queue (ngx_queue_split h q n s) n (q # vs)"
  by (cases us rule: rev_cases; cases vs rule: rev_cases)
     (auto simp: queue_def ngx_queue_split_def Let_def)

lemma queue_add:
  "queue s h xs \<Longrightarrow> queue s n ys \<Longrightarrow> set (h # xs) \<inter> set (n # ys) = {} \<Longrightarrow>
     queue (ngx_queue_add h n s) h (xs @ ys)"
  by (cases xs rule: rev_cases; cases ys; cases "tl ys" rule: rev_cases)
     (auto simp: queue_def ngx_queue_add_def Let_def)

section \<open>The queue interface\<close>

text \<open>
  What the users of queues rely on (the cache of idle upstream connections and the open file
  cache keep their entries in such a queue, the most recently used first): the list after each
  operation. The move-to-front and eviction steps of these users are proved from the laws.
\<close>

locale list_queue =
  fixes holds :: "'s \<Rightarrow> 'a \<Rightarrow> 'a list \<Rightarrow> bool"
    and init :: "'a \<Rightarrow> 's \<Rightarrow> 's"
    and insert_head :: "'a \<Rightarrow> 'a \<Rightarrow> 's \<Rightarrow> 's"
    and insert_tail :: "'a \<Rightarrow> 'a \<Rightarrow> 's \<Rightarrow> 's"
    and remove :: "'a \<Rightarrow> 's \<Rightarrow> 's"
    and empty :: "'a \<Rightarrow> 's \<Rightarrow> bool"
    and last_of :: "'a \<Rightarrow> 's \<Rightarrow> 'a"
  assumes holds_distinct: "holds s h xs \<Longrightarrow> distinct (h # xs)"
    and holds_init: "holds (init h s) h []"
    and holds_insert_head:
      "holds s h xs \<Longrightarrow> x \<notin> set (h # xs) \<Longrightarrow> holds (insert_head h x s) h (x # xs)"
    and holds_insert_tail:
      "holds s h xs \<Longrightarrow> x \<notin> set (h # xs) \<Longrightarrow> holds (insert_tail h x s) h (xs @ [x])"
    and holds_remove: "holds s h (us @ x # vs) \<Longrightarrow> holds (remove x s) h (us @ vs)"
    and holds_empty: "holds s h xs \<Longrightarrow> empty h s \<longleftrightarrow> xs = []"
    and holds_last: "holds s h xs \<Longrightarrow> xs \<noteq> [] \<Longrightarrow> last_of h s = last xs"
begin

lemma touch:
  assumes "holds s h (us @ x # vs)"
  shows "holds (insert_head h x (remove x s)) h (x # us @ vs)"
  using holds_insert_head [OF holds_remove [OF assms]] holds_distinct [OF assms] by auto

lemma evict_last:
  assumes "holds s h xs" and "\<not> empty h s"
  shows "holds (remove (last_of h s) s) h (butlast xs)"
proof -
  from assms have xs: "xs \<noteq> []" by (simp add: holds_empty)
  then have "holds s h (butlast xs @ last_of h s # [])"
    using assms(1) holds_last [OF assms(1)] by simp
  from holds_remove [OF this] show ?thesis by simp
qed

lemma insert_all_head:
  "holds s h xs \<Longrightarrow> distinct ys \<Longrightarrow> set ys \<inter> set (h # xs) = {} \<Longrightarrow>
     holds (fold (insert_head h) ys s) h (rev ys @ xs)"
proof (induction ys arbitrary: s xs)
  case (Cons y ys)
  have "holds (insert_head h y s) h (y # xs)"
    using Cons.prems by (intro holds_insert_head) auto
  from Cons.IH [OF this] Cons.prems show ?case by auto
qed simp

end

interpretation nq: list_queue queue ngx_queue_init ngx_queue_insert_head ngx_queue_insert_tail
    ngx_queue_remove ngx_queue_empty ngx_queue_last
  by unfold_locales
     (auto simp: queue_init queue_insert_head queue_insert_tail queue_remove queue_empty_iff
        queue_last queue_def [THEN iffD1, THEN conjunct1] dest: queue_def [THEN iffD1])

text \<open>
  C38: every queue operation has the effect of its list counterpart, whatever else the store
  holds: initialisation, insertion at both ends and after an element, removal, split at an
  element and concatenation.
\<close>

theorem ngx_queue_refines_lists:
  "queue (ngx_queue_init h s) h [] \<and>
   (queue s h xs \<longrightarrow>
      (ngx_queue_empty h s \<longleftrightarrow> xs = []) \<and>
      ngx_queue_head h s = hd (xs @ [h]) \<and> ngx_queue_last h s = last (h # xs)) \<and>
   (queue s h xs \<and> x \<notin> set (h # xs) \<longrightarrow>
      queue (ngx_queue_insert_head h x s) h (x # xs) \<and>
      queue (ngx_queue_insert_tail h x s) h (xs @ [x])) \<and>
   (queue s h (us @ p # vs) \<longrightarrow> queue (ngx_queue_remove p s) h (us @ vs)) \<and>
   (queue s h (us @ p # vs) \<and> x \<notin> set (h # us @ p # vs) \<longrightarrow>
      queue (ngx_queue_insert_after p x s) h (us @ p # x # vs) \<and>
      queue (ngx_queue_split h p x s) h us \<and> queue (ngx_queue_split h p x s) x (p # vs)) \<and>
   (queue s h xs \<and> queue s n ys \<and> set (h # xs) \<inter> set (n # ys) = {} \<longrightarrow>
      queue (ngx_queue_add h n s) h (xs @ ys))"
  by (intro conjI impI; (elim conjE)?)
     (simp_all add: queue_init queue_empty_iff queue_head queue_last queue_insert_head
       queue_insert_tail queue_remove queue_insert_after queue_split queue_add)

theorem ngx_queue_refines_lists_witness:
  "queue (ngx_queue_remove 1 (ngx_queue_insert_tail 0 2 (ngx_queue_insert_head 0 1
     (ngx_queue_init 0 \<lparr>qprev = id, qnext = id\<rparr>)))) 0 [2]"
proof -
  let ?s0 = "ngx_queue_init 0 \<lparr>qprev = id, qnext = id\<rparr>"
  let ?s1 = "ngx_queue_insert_head 0 1 ?s0"
  let ?s2 = "ngx_queue_insert_tail 0 2 ?s1"
  have "queue ?s0 0 []"
    using ngx_queue_refines_lists [of 0 "\<lparr>qprev = id, qnext = id\<rparr>"] by blast
  then have "queue ?s1 0 [1]"
    using ngx_queue_refines_lists [of 0 ?s0 "[]" 1] by simp
  then have "queue ?s2 0 ([] @ 1 # [2])"
    using ngx_queue_refines_lists [of 0 ?s1 "[1]" 2] by simp
  then show ?thesis
    using ngx_queue_refines_lists [of 0 ?s2 "[]" 0 "[]" 1 "[2]"] by simp
qed

section \<open>The middle element\<close>

lemma links_nth:
  "links s a xs b \<Longrightarrow> i < length xs \<Longrightarrow>
     qnext s (xs ! i) = (xs @ [b]) ! Suc i \<and> qprev s (xs ! i) = (a # xs) ! i"
proof (induction xs arbitrary: a i)
  case (Cons x xs)
  then show ?case by (cases i; cases xs) auto
qed simp

lemma queue_nth:
  "queue s h xs \<Longrightarrow> i < length xs \<Longrightarrow>
     qnext s (xs ! i) = (xs @ [h]) ! Suc i \<and> qprev s (xs ! i) = (h # xs) ! i"
  by (auto simp: queue_def dest: links_nth)

lemma queue_last_nth: "queue s h xs \<Longrightarrow> xs \<noteq> [] \<Longrightarrow> ngx_queue_last h s = xs ! (length xs - 1)"
  by (simp add: queue_last last_conv_nth)

lemma ngx_queue_middle_loop_index:
  assumes q: "queue s h xs"
  shows "2 * k + 1 < length xs \<Longrightarrow>
    ngx_queue_middle_loop s h (xs ! k) (xs ! (2 * k)) = Some (xs ! (length xs div 2))"
proof (induction "length xs - 2 * k" arbitrary: k rule: less_induct)
  case less
  let ?n = "length xs"
  have d: "distinct xs" using q by (simp add: queue_def)
  have last: "ngx_queue_last h s = xs ! (?n - 1)"
    using q less.prems by (intro queue_last_nth) auto
  have nexts: "qnext s (xs ! k) = xs ! Suc k" "qnext s (xs ! (2 * k)) = xs ! (2 * k + 1)"
    using less.prems queue_nth [OF q, of k] queue_nth [OF q, of "2 * k"]
    by (simp_all add: nth_append)
  show ?case
  proof (cases "2 * k + 1 = ?n - 1")
    case True
    then have "?n div 2 = Suc k" using less.prems by linarith
    with True nexts last show ?thesis
      by (simp add: ngx_queue_middle_loop.simps [of s h "xs ! k"])
  next
    case False
    with less.prems have lt: "2 * k + 2 < ?n" by linarith
    have n2: "qnext s (xs ! (2 * k + 1)) = xs ! (2 * k + 2)"
      using lt queue_nth [OF q, of "2 * k + 1"] by (simp add: nth_append)
    have neq: "xs ! (2 * k + 1) \<noteq> xs ! (?n - 1)"
      using d lt False by (simp add: nth_eq_iff_index_eq)
    show ?thesis
    proof (cases "2 * k + 2 = ?n - 1")
      case True
      then have "?n div 2 = Suc k" using lt by linarith
      with True neq n2 nexts last show ?thesis
        by (simp add: ngx_queue_middle_loop.simps [of s h "xs ! k"])
    next
      case False
      then have lt': "2 * Suc k + 1 < ?n" using lt by arith
      have "xs ! (2 * k + 2) \<noteq> xs ! (?n - 1)"
        using d lt False by (simp add: nth_eq_iff_index_eq)
      moreover have "ngx_queue_middle_loop s h (xs ! Suc k) (xs ! (2 * Suc k)) = Some (xs ! (?n div 2))"
        using lt' less.prems by (intro less.hyps) auto
      ultimately show ?thesis
        using neq n2 nexts last
        by (simp add: ngx_queue_middle_loop.simps [of s h "xs ! k"])
    qed
  qed
qed

text \<open>
  on a non-empty queue \<open>ngx_queue_middle\<close> returns, and gives the middle element of an odd
  number of elements and the first element of the second half of an even number.
\<close>

theorem ngx_queue_middle_correct:
  assumes "queue s h xs" and "xs \<noteq> []"
  shows "ngx_queue_middle h s = Some (xs ! (length xs div 2))"
proof -
  have head: "ngx_queue_head h s = xs ! 0"
    using assms queue_head [of s h xs] by (cases xs) auto
  have last: "ngx_queue_last h s = xs ! (length xs - 1)"
    using assms by (rule queue_last_nth)
  show ?thesis
  proof (cases "length xs = 1")
    case True
    then show ?thesis using head last by (simp add: ngx_queue_middle_def)
  next
    case False
    then have "0 < length xs - 1" "0 < length xs" using assms(2) by (cases xs; auto)+
    then have "xs ! 0 \<noteq> xs ! (length xs - 1)"
      using assms(1) by (simp add: queue_def nth_eq_iff_index_eq)
    then show ?thesis
      using head last False \<open>0 < length xs - 1\<close> ngx_queue_middle_loop_index [OF assms(1), of 0]
      by (simp add: ngx_queue_middle_def)
  qed
qed

theorem ngx_queue_middle_correct_witness:
  "ngx_queue_middle 0 \<lparr>qprev = (\<lambda>a. (a + 3) mod 4), qnext = (\<lambda>a. (a + 1) mod 4)\<rparr> = Some 2"
  using ngx_queue_middle_correct [of "\<lparr>qprev = (\<lambda>a. (a + 3) mod 4), qnext = (\<lambda>a. (a + 1) mod 4)\<rparr>"
      0 "[1, 2, 3]"]
  by (simp add: queue_def)

section \<open>The stable sort\<close>

abbreviation cmp_le :: "ngx_queue_cmp \<Rightarrow> addr \<Rightarrow> addr \<Rightarrow> bool" where
  "cmp_le cmp a b \<equiv> cmp a b <=s 0"

lemma ngx_queue_sort_back_pos:
  "queue s h (us @ vs) \<Longrightarrow> us \<noteq> [] \<Longrightarrow>
   ngx_queue_sort_back cmp s h (last us) q =
     Some (last (h # rev (dropWhile (\<lambda>p. \<not> cmp_le cmp p q) (rev us))))"
proof (induction us arbitrary: vs rule: rev_induct)
  case (snoc p us)
  have prev: "qprev s p = last (h # us)"
    using snoc.prems(1) links_last [of s h us p] by (simp add: queue_def)
  show ?case
  proof (cases "us = []")
    case True
    then show ?thesis
      using prev by (simp add: ngx_queue_sort_back.simps)
  next
    case False
    then have "last us \<in> set us" by simp
    then have "last us \<noteq> h" using snoc.prems(1) by (auto simp: queue_def)
    then show ?thesis
      using prev False snoc.IH [of "p # vs"] snoc.prems(1)
      by (simp add: ngx_queue_sort_back.simps [of cmp s h p])
  qed
qed simp

lemma queue_insert_sorted:
  assumes q: "queue s h (us @ vs)" "x \<notin> set (h # us @ vs)"
  shows "queue (ngx_queue_insert_after (last (h # us)) x s) h (us @ x # vs)"
proof (cases us rule: rev_cases)
  case Nil
  then show ?thesis
    using assms queue_insert_head [of s h vs x] by (simp add: ngx_queue_insert_after_def)
next
  case (snoc ws p)
  then show ?thesis
    using assms queue_insert_after [of s h ws p vs x] by simp
qed

lemma ngx_queue_sort_loop_list:
  "queue s h (ys @ zs) \<Longrightarrow> ys \<noteq> [] \<Longrightarrow>
   \<exists>t. ngx_queue_sort_loop cmp h (hd (zs @ [h])) s = Some t \<and>
       queue t h (foldl (\<lambda>ys q. ins_back (cmp_le cmp) q ys) ys zs)"
proof (induction zs arbitrary: s ys)
  case Nil
  then show ?case by (simp add: ngx_queue_sort_loop.simps)
next
  case (Cons q zs)
  let ?r = "ngx_queue_remove q s" and ?P = "\<lambda>p. \<not> cmp_le cmp p q"
  let ?us = "rev (dropWhile ?P (rev ys))" and ?ws = "rev (takeWhile ?P (rev ys))"
  have q: "q \<noteq> h" "q \<notin> set (h # ys @ zs)" using Cons.prems(1) by (auto simp: queue_def)
  have ends: "qprev s q = last ys" "qnext s q = hd (zs @ [h])"
    using Cons.prems links_last [of s h ys q] links_first [of s q zs h] by (auto simp: queue_def)
  have r: "queue ?r h (ys @ zs)" by (rule queue_remove) (rule Cons.prems(1))
  have ys: "ys = ?us @ ?ws" by (metis rev_append rev_rev_ident takeWhile_dropWhile_id)
  have pos: "ngx_queue_sort_back cmp ?r h (last ys) q = Some (last (h # ?us))"
    using ngx_queue_sort_back_pos [OF r Cons.prems(2)] by simp
  have "queue (ngx_queue_insert_after (last (h # ?us)) q ?r) h (?us @ q # ?ws @ zs)"
    using r q ys by (intro queue_insert_sorted) (metis append.assoc)+
  then have "queue (ngx_queue_insert_after (last (h # ?us)) q ?r) h
      (ins_back (cmp_le cmp) q ys @ zs)"
    by (simp add: ins_back_def)
  from Cons.IH [OF this] show ?case
    using q(1) ends pos by (simp add: ngx_queue_sort_loop.simps [of cmp h q] Let_def)
qed

text \<open>
  \<open>ngx_queue_sort\<close> returns on every queue, and for a comparison that orders the elements by
  a key the result is the stable sort of the queue by that key.
\<close>

theorem ngx_queue_sort_stable:
  fixes key :: "addr \<Rightarrow> 'k::linorder"
  assumes "queue s h xs" and "\<And>a b. (cmp a b <=s 0) \<longleftrightarrow> key a \<le> key b"
  shows "\<exists>t. ngx_queue_sort cmp h s = Some t \<and> queue t h (sort_key key xs)"
proof (cases "length xs \<le> 1")
  case True
  then have "sort_key key xs = xs" by (cases xs) auto
  then show ?thesis
    using True assms(1) queue_head [OF assms(1)] queue_last [OF assms(1)]
    by (cases xs) (auto simp: ngx_queue_sort_def)
next
  case False
  then obtain x y zs where xs: "xs = x # y # zs"
    by (cases xs; cases "tl xs") auto
  have ends: "ngx_queue_head h s = x" "ngx_queue_last h s \<noteq> x" "qnext s x = y"
    using assms(1) queue_head [OF assms(1)] queue_last [OF assms(1)]
    by (auto simp: xs queue_def split: if_splits) (metis last_in_set)
  obtain t where "ngx_queue_sort_loop cmp h y s = Some t"
    "queue t h (foldl (\<lambda>ys q. ins_back (cmp_le cmp) q ys) [x] (y # zs))"
    using ngx_queue_sort_loop_list [of s h "[x]" "y # zs" cmp] assms(1) xs by auto
  moreover have "foldl (\<lambda>ys q. ins_back (cmp_le cmp) q ys) [x] (y # zs) = sort_key key xs"
    using insertion_sort [where xs = xs, OF assms(2)] xs by simp
  ultimately show ?thesis using ends by (auto simp: ngx_queue_sort_def)
qed

theorem ngx_queue_sort_stable_witness:
  "\<exists>t. ngx_queue_sort (\<lambda>a b. if b mod 2 < a mod 2 then 1 else 0) 0
         \<lparr>qprev = (\<lambda>a. (a + 3) mod 4), qnext = (\<lambda>a. (a + 1) mod 4)\<rparr> = Some t \<and>
       queue t 0 [2, 1, 3]"
proof -
  let ?cmp = "\<lambda>a b :: addr. if b mod 2 < a mod 2 then 1 else 0 :: ngx_int_t"
  have "(?cmp a b <=s 0) \<longleftrightarrow> a mod 2 \<le> b mod 2" for a b by (auto simp: word_sle_eq)
  from ngx_queue_sort_stable [where cmp = ?cmp and h = 0 and xs = "[1, 2, 3]", OF _ this]
  show ?thesis by (simp add: queue_def)
qed

text \<open>
  the recency order of the queues that serve as caches: taking an element out and inserting
  it at the head moves it to the front and keeps the order of the others, and removing the last
  element of a non-empty queue drops exactly the least recently used one.
\<close>

theorem ngx_queue_recency:
  "(queue s h (us @ x # vs) \<longrightarrow>
      queue (ngx_queue_insert_head h x (ngx_queue_remove x s)) h (x # us @ vs)) \<and>
   (queue s h xs \<and> \<not> ngx_queue_empty h s \<longrightarrow>
      queue (ngx_queue_remove (ngx_queue_last h s) s) h (butlast xs))"
  using nq.touch nq.evict_last by blast

theorem ngx_queue_recency_witness:
  "queue (ngx_queue_insert_head 0 3 (ngx_queue_remove 3
     \<lparr>qprev = (\<lambda>a. (a + 3) mod 4), qnext = (\<lambda>a. (a + 1) mod 4)\<rparr>)) 0 [3, 1, 2]"
  using ngx_queue_recency [of "\<lparr>qprev = (\<lambda>a. (a + 3) mod 4), qnext = (\<lambda>a. (a + 1) mod 4)\<rparr>"
      0 "[1, 2]" 3 "[]"]
  by (simp add: queue_def)

end
