(* ===== verification/Ngx_Radix_Tree.thy ===== *)
theory Ngx_Radix_Tree
  imports Ngx_Prelude "HOL-Library.Multiset"
begin

text \<open>
  The radix trees of src/core/ngx_radix_tree.c, which map IPv4 and IPv6 prefixes to values.
  Nodes live in an explicit store; the allocator has the code's free list (linked through
  \<open>right\<close>) and carves new nodes out of pages. \<open>ngx_pmemalign\<close> is a parameter: the list
  \<open>rt_pages\<close> of the page addresses it is going to return, and NULL when it is exhausted.
  A result \<open>None\<close> is a NULL dereference, a read outside of a key, or a loop that never ends.
\<close>

section \<open>Nodes, trees and the allocator\<close>

record ngx_radix_node_t =
  rn_right :: "addr option"
  rn_left :: "addr option"
  rn_parent :: "addr option"
  rn_value :: u64

record ngx_radix_tree_t =
  rt_root :: addr
  rt_pages :: "addr list"
  rt_free :: "addr option"
  rt_start :: addr
  rt_size :: nat
  rt_pagesize :: nat
  rt_mem :: "addr \<Rightarrow> ngx_radix_node_t"

abbreviation (input) NGX_RADIX_NO_VALUE :: u64 where "NGX_RADIX_NO_VALUE \<equiv> - 1"

abbreviation (input) node_size :: nat where "node_size \<equiv> 32"

definition set_node :: "addr \<Rightarrow> ngx_radix_node_t \<Rightarrow> ngx_radix_tree_t \<Rightarrow> ngx_radix_tree_t" where
  [ngx_defs]: "set_node a n tr = tr\<lparr>rt_mem := (rt_mem tr)(a := n)\<rparr>"

definition ngx_radix_alloc :: "ngx_radix_tree_t \<Rightarrow> ngx_radix_tree_t \<times> addr option" where
  [ngx_defs]: "ngx_radix_alloc tree =
     (case rt_free tree of
        Some p \<Rightarrow> (tree\<lparr>rt_free := rn_right (rt_mem tree p)\<rparr>, Some p)
      | None \<Rightarrow>
          (let page = (if rt_size tree < node_size
                       then case rt_pages tree of
                              [] \<Rightarrow> None
                            | start # ps \<Rightarrow> Some (tree\<lparr>rt_pages := ps, rt_start := start,
                                                     rt_size := rt_pagesize tree\<rparr>)
                       else Some tree)
           in case page of
                None \<Rightarrow> (tree, None)
              | Some tree \<Rightarrow>
                  (tree\<lparr>rt_start := rt_start tree + node_size,
                        rt_size := rt_size tree - node_size\<rparr>, Some (rt_start tree))))"

section \<open>32-bit keys\<close>

lemma shift_bit_less:
  fixes b m :: "'a::len word"
  assumes "b AND m \<noteq> 0"
  shows "unat (drop_bit (Suc 0) b) < unat b"
proof -
  have "unat (drop_bit (Suc 0) b) = unat b div 2"
    unfolding unat_drop_bit_eq by (simp add: drop_bit_eq_div)
  moreover have "0 < unat b" using assms by (cases "b = 0") (auto simp: unat_gt_0)
  ultimately show ?thesis by simp
qed

function radix32_descend ::
    "(addr \<Rightarrow> ngx_radix_node_t) \<Rightarrow> u32 \<Rightarrow> u32 \<Rightarrow> u32 \<Rightarrow> addr \<Rightarrow> addr option
       \<Rightarrow> u32 \<times> addr \<times> addr option" where
  "radix32_descend m key msk bt node nxt =
     (if bt AND msk \<noteq> 0 then
        (case (if key AND bt \<noteq> 0 then rn_right (m node) else rn_left (m node)) of
           None \<Rightarrow> (bt, node, None)
         | Some n \<Rightarrow> radix32_descend m key msk (drop_bit 1 bt) n (Some n))
      else (bt, node, nxt))"
  by pat_completeness auto
termination
  by (relation "measure (\<lambda>(m, key, msk, bt, node, nxt). unat bt)") (auto intro: shift_bit_less)

function radix32_extend ::
    "u32 \<Rightarrow> u32 \<Rightarrow> u32 \<Rightarrow> addr \<Rightarrow> ngx_radix_tree_t \<Rightarrow> ngx_radix_tree_t \<times> addr option" where
  "radix32_extend key msk bt node tree =
     (if bt AND msk \<noteq> 0 then
        (case ngx_radix_alloc tree of
           (tree, None) \<Rightarrow> (tree, None)
         | (tree, Some n) \<Rightarrow>
             (let tree = set_node n \<lparr>rn_right = None, rn_left = None, rn_parent = Some node,
                                     rn_value = NGX_RADIX_NO_VALUE\<rparr> tree;
                  tree = (if key AND bt \<noteq> 0
                          then set_node node (rt_mem tree node\<lparr>rn_right := Some n\<rparr>) tree
                          else set_node node (rt_mem tree node\<lparr>rn_left := Some n\<rparr>) tree)
              in radix32_extend key msk (drop_bit 1 bt) n tree))
      else (tree, Some node))"
  by pat_completeness auto
termination
  by (relation "measure (\<lambda>(key, msk, bt, node, tree). unat bt)") (auto intro: shift_bit_less)

declare radix32_descend.simps [simp del] radix32_extend.simps [simp del]

definition ngx_radix32tree_insert ::
    "ngx_radix_tree_t \<Rightarrow> u32 \<Rightarrow> u32 \<Rightarrow> u64 \<Rightarrow> ngx_int_t \<times> ngx_radix_tree_t" where
  "ngx_radix32tree_insert tree key msk value =
     (let (bt, node, nxt) =
            radix32_descend (rt_mem tree) key msk 0x80000000 (rt_root tree) (Some (rt_root tree))
      in if nxt \<noteq> None then
           (if rn_value (rt_mem tree node) \<noteq> NGX_RADIX_NO_VALUE then (NGX_BUSY, tree)
            else (NGX_OK, set_node node (rt_mem tree node\<lparr>rn_value := value\<rparr>) tree))
         else
           (case radix32_extend key msk bt node tree of
              (tree, None) \<Rightarrow> (NGX_ERROR, tree)
            | (tree, Some node) \<Rightarrow>
                (NGX_OK, set_node node (rt_mem tree node\<lparr>rn_value := value\<rparr>) tree)))"

function radix32_delete_descend ::
    "(addr \<Rightarrow> ngx_radix_node_t) \<Rightarrow> u32 \<Rightarrow> u32 \<Rightarrow> u32 \<Rightarrow> addr option \<Rightarrow> addr option" where
  "radix32_delete_descend m key msk bt node =
     (case node of
        None \<Rightarrow> None
      | Some n \<Rightarrow>
          if bt AND msk \<noteq> 0 then
            radix32_delete_descend m key msk (drop_bit 1 bt)
              (if key AND bt \<noteq> 0 then rn_right (m n) else rn_left (m n))
          else Some n)"
  by pat_completeness auto
termination
  by (relation "measure (\<lambda>(m, key, msk, bt, node). unat bt)") (auto intro: shift_bit_less)

declare radix32_delete_descend.simps [simp del]

text \<open>The removal of a leaf and of the ancestors it leaves empty, up to the root.\<close>

partial_function (option) radix_prune :: "addr \<Rightarrow> ngx_radix_tree_t \<Rightarrow> ngx_radix_tree_t option" where
  "radix_prune node tree =
     (case rn_parent (rt_mem tree node) of
        None \<Rightarrow> None
      | Some p \<Rightarrow>
          (let tree = (if rn_right (rt_mem tree p) = Some node
                       then set_node p (rt_mem tree p\<lparr>rn_right := None\<rparr>) tree
                       else set_node p (rt_mem tree p\<lparr>rn_left := None\<rparr>) tree);
               tree = set_node node (rt_mem tree node\<lparr>rn_right := rt_free tree\<rparr>) tree;
               tree = tree\<lparr>rt_free := Some node\<rparr>
           in if rn_right (rt_mem tree p) \<noteq> None \<or> rn_left (rt_mem tree p) \<noteq> None then Some tree
              else if rn_value (rt_mem tree p) \<noteq> NGX_RADIX_NO_VALUE then Some tree
              else if rn_parent (rt_mem tree p) = None then Some tree
              else radix_prune p tree))"

text \<open>The part of both delete functions behind the search for the node.\<close>

definition radix_delete_node ::
    "ngx_radix_tree_t \<Rightarrow> addr option \<Rightarrow> (ngx_int_t \<times> ngx_radix_tree_t) option" where
  "radix_delete_node tree found =
     (case found of
        None \<Rightarrow> Some (NGX_ERROR, tree)
      | Some node \<Rightarrow>
          if rn_right (rt_mem tree node) \<noteq> None \<or> rn_left (rt_mem tree node) \<noteq> None then
            (if rn_value (rt_mem tree node) \<noteq> NGX_RADIX_NO_VALUE
             then Some (NGX_OK,
               set_node node (rt_mem tree node\<lparr>rn_value := NGX_RADIX_NO_VALUE\<rparr>) tree)
             else Some (NGX_ERROR, tree))
          else do {
            tree \<leftarrow> radix_prune node tree;
            Some (NGX_OK, tree)
          })"

definition ngx_radix32tree_delete ::
    "ngx_radix_tree_t \<Rightarrow> u32 \<Rightarrow> u32 \<Rightarrow> (ngx_int_t \<times> ngx_radix_tree_t) option" where
  "ngx_radix32tree_delete tree key msk =
     radix_delete_node tree
       (radix32_delete_descend (rt_mem tree) key msk 0x80000000 (Some (rt_root tree)))"

partial_function (option) radix32_find_loop ::
    "(addr \<Rightarrow> ngx_radix_node_t) \<Rightarrow> u32 \<Rightarrow> u32 \<Rightarrow> u64 \<Rightarrow> addr option \<Rightarrow> u64 option" where
  "radix32_find_loop m key bt value node =
     (case node of
        None \<Rightarrow> Some value
      | Some n \<Rightarrow>
          radix32_find_loop m key (drop_bit 1 bt)
            (if rn_value (m n) \<noteq> NGX_RADIX_NO_VALUE then rn_value (m n) else value)
            (if key AND bt \<noteq> 0 then rn_right (m n) else rn_left (m n)))"

definition ngx_radix32tree_find :: "ngx_radix_tree_t \<Rightarrow> u32 \<Rightarrow> u64 option" where
  "ngx_radix32tree_find tree key =
     radix32_find_loop (rt_mem tree) key 0x80000000 NGX_RADIX_NO_VALUE (Some (rt_root tree))"

section \<open>128-bit keys\<close>

function radix128_descend ::
    "(addr \<Rightarrow> ngx_radix_node_t) \<Rightarrow> byte list \<Rightarrow> byte list \<Rightarrow> nat \<Rightarrow> byte \<Rightarrow> addr \<Rightarrow> addr option
       \<Rightarrow> (nat \<times> byte \<times> addr \<times> addr option) option" where
  "radix128_descend m key msk i bt node nxt =
     (case rd msk i of
        None \<Rightarrow> None
      | Some mi \<Rightarrow>
          if bt AND mi \<noteq> 0 then
            (case rd key i of
               None \<Rightarrow> None
             | Some ki \<Rightarrow>
                 (case (if ki AND bt \<noteq> 0 then rn_right (m node) else rn_left (m node)) of
                    None \<Rightarrow> Some (i, bt, node, None)
                  | Some n \<Rightarrow>
                      if drop_bit 1 bt = 0 then
                        (if i + 1 = 16 then Some (i + 1, drop_bit 1 bt, n, Some n)
                         else radix128_descend m key msk (i + 1) 0x80 n (Some n))
                      else radix128_descend m key msk i (drop_bit 1 bt) n (Some n)))
          else Some (i, bt, node, nxt))"
  by pat_completeness auto
termination
  by (relation "measures [\<lambda>(m, key, msk, i, bt, node, nxt). length msk - i,
                          \<lambda>(m, key, msk, i, bt, node, nxt). unat bt]")
     (auto simp: rd_Some_iff intro: shift_bit_less)

function radix128_extend ::
    "byte list \<Rightarrow> byte list \<Rightarrow> nat \<Rightarrow> byte \<Rightarrow> addr \<Rightarrow> ngx_radix_tree_t
       \<Rightarrow> (ngx_radix_tree_t \<times> addr option) option" where
  "radix128_extend key msk i bt node tree =
     (case rd msk i of
        None \<Rightarrow> None
      | Some mi \<Rightarrow>
          if bt AND mi \<noteq> 0 then
            (case ngx_radix_alloc tree of
               (tree, None) \<Rightarrow> Some (tree, None)
             | (tree, Some n) \<Rightarrow>
                 (case rd key i of
                    None \<Rightarrow> None
                  | Some ki \<Rightarrow>
                      (let tree = set_node n \<lparr>rn_right = None, rn_left = None, rn_parent = Some node,
                                              rn_value = NGX_RADIX_NO_VALUE\<rparr> tree;
                           tree = (if ki AND bt \<noteq> 0
                                   then set_node node (rt_mem tree node\<lparr>rn_right := Some n\<rparr>) tree
                                   else set_node node (rt_mem tree node\<lparr>rn_left := Some n\<rparr>) tree)
                       in if drop_bit 1 bt = 0 then
                            (if i + 1 = 16 then Some (tree, Some n)
                             else radix128_extend key msk (i + 1) 0x80 n tree)
                          else radix128_extend key msk i (drop_bit 1 bt) n tree)))
          else Some (tree, Some node))"
  by pat_completeness auto
termination
  by (relation "measures [\<lambda>(key, msk, i, bt, node, tree). length msk - i,
                          \<lambda>(key, msk, i, bt, node, tree). unat bt]")
     (auto simp: rd_Some_iff intro: shift_bit_less)

declare radix128_descend.simps [simp del] radix128_extend.simps [simp del]

definition ngx_radix128tree_insert ::
    "ngx_radix_tree_t \<Rightarrow> byte list \<Rightarrow> byte list \<Rightarrow> u64 \<Rightarrow> (ngx_int_t \<times> ngx_radix_tree_t) option" where
  "ngx_radix128tree_insert tree key msk value = do {
     (i, bt, node, nxt) \<leftarrow>
       radix128_descend (rt_mem tree) key msk 0 0x80 (rt_root tree) (Some (rt_root tree));
     if nxt \<noteq> None then
       (if rn_value (rt_mem tree node) \<noteq> NGX_RADIX_NO_VALUE then Some (NGX_BUSY, tree)
        else Some (NGX_OK, set_node node (rt_mem tree node\<lparr>rn_value := value\<rparr>) tree))
     else do {
       r \<leftarrow> radix128_extend key msk i bt node tree;
       Some (case r of
               (tree, None) \<Rightarrow> (NGX_ERROR, tree)
             | (tree, Some node) \<Rightarrow>
                 (NGX_OK, set_node node (rt_mem tree node\<lparr>rn_value := value\<rparr>) tree))
     }
   }"

function radix128_delete_descend ::
    "(addr \<Rightarrow> ngx_radix_node_t) \<Rightarrow> byte list \<Rightarrow> byte list \<Rightarrow> nat \<Rightarrow> byte \<Rightarrow> addr option
       \<Rightarrow> addr option option" where
  "radix128_delete_descend m key msk i bt node =
     (case node of
        None \<Rightarrow> Some None
      | Some n \<Rightarrow>
          (case rd msk i of
             None \<Rightarrow> None
           | Some mi \<Rightarrow>
               if bt AND mi \<noteq> 0 then
                 (case rd key i of
                    None \<Rightarrow> None
                  | Some ki \<Rightarrow>
                      (let nxt = (if ki AND bt \<noteq> 0 then rn_right (m n) else rn_left (m n))
                       in if drop_bit 1 bt = 0 then
                            (if i + 1 = 16 then Some nxt
                             else radix128_delete_descend m key msk (i + 1) 0x80 nxt)
                          else radix128_delete_descend m key msk i (drop_bit 1 bt) nxt))
               else Some (Some n)))"
  by pat_completeness auto
termination
  by (relation "measures [\<lambda>(m, key, msk, i, bt, node). length msk - i,
                          \<lambda>(m, key, msk, i, bt, node). unat bt]")
     (auto simp: rd_Some_iff intro: shift_bit_less)

declare radix128_delete_descend.simps [simp del]

definition ngx_radix128tree_delete ::
    "ngx_radix_tree_t \<Rightarrow> byte list \<Rightarrow> byte list \<Rightarrow> (ngx_int_t \<times> ngx_radix_tree_t) option" where
  "ngx_radix128tree_delete tree key msk = do {
     found \<leftarrow> radix128_delete_descend (rt_mem tree) key msk 0 0x80 (Some (rt_root tree));
     radix_delete_node tree found
   }"

partial_function (option) radix128_find_loop ::
    "(addr \<Rightarrow> ngx_radix_node_t) \<Rightarrow> byte list \<Rightarrow> nat \<Rightarrow> byte \<Rightarrow> u64 \<Rightarrow> addr option \<Rightarrow> u64 option" where
  "radix128_find_loop m key i bt value node =
     (case node of
        None \<Rightarrow> Some value
      | Some n \<Rightarrow>
          (case rd key i of
             None \<Rightarrow> None
           | Some ki \<Rightarrow>
               (let value = (if rn_value (m n) \<noteq> NGX_RADIX_NO_VALUE then rn_value (m n) else value);
                    node = (if ki AND bt \<noteq> 0 then rn_right (m n) else rn_left (m n))
                in if drop_bit 1 bt = 0 then radix128_find_loop m key (i + 1) 0x80 value node
                   else radix128_find_loop m key i (drop_bit 1 bt) value node)))"

definition ngx_radix128tree_find :: "ngx_radix_tree_t \<Rightarrow> byte list \<Rightarrow> u64 option" where
  "ngx_radix128tree_find tree key =
     radix128_find_loop (rt_mem tree) key 0 0x80 NGX_RADIX_NO_VALUE (Some (rt_root tree))"

section \<open>Creation\<close>

partial_function (option) radix_preallocate_keys ::
    "u32 \<Rightarrow> u32 \<Rightarrow> u32 \<Rightarrow> ngx_radix_tree_t \<Rightarrow> ngx_radix_tree_t option option" where
  "radix_preallocate_keys key msk inc tree =
     (case ngx_radix32tree_insert tree key msk NGX_RADIX_NO_VALUE of
        (rc, tree) \<Rightarrow>
          if rc \<noteq> NGX_OK then Some None
          else if key + inc \<noteq> 0 then radix_preallocate_keys (key + inc) msk inc tree
          else Some (Some tree))"

function radix_preallocate_levels ::
    "ngx_int_t \<Rightarrow> u32 \<Rightarrow> u32 \<Rightarrow> ngx_radix_tree_t \<Rightarrow> ngx_radix_tree_t option option" where
  "radix_preallocate_levels preallocate msk inc tree =
     (if preallocate \<noteq> 0 then
        (let msk = drop_bit 1 msk OR 0x80000000
         in case radix_preallocate_keys 0 msk inc tree of
              None \<Rightarrow> None
            | Some None \<Rightarrow> Some None
            | Some (Some tree) \<Rightarrow>
                radix_preallocate_levels (preallocate - 1) msk (drop_bit 1 inc) tree)
      else Some (Some tree))"
  by pat_completeness auto
termination
  by (relation "measure (\<lambda>(preallocate, msk, inc, tree). unat preallocate)")
     (auto simp: unat_gt_0 unat_minus_one)

declare radix_preallocate_levels.simps [simp del]

text \<open>
  \<open>tree\<close> is the freshly allocated header with its pool; the inner \<open>None\<close> is the return value
  NULL, the outer one a run that does not return.
\<close>

definition ngx_radix_tree_create ::
    "ngx_radix_tree_t \<Rightarrow> ngx_int_t \<Rightarrow> ngx_radix_tree_t option option" where
  "ngx_radix_tree_create tree preallocate =
     (case ngx_radix_alloc (tree\<lparr>rt_free := None, rt_start := 0, rt_size := 0\<rparr>) of
        (tree, None) \<Rightarrow> Some None
      | (tree, Some root) \<Rightarrow>
          (let tree = set_node root \<lparr>rn_right = None, rn_left = None, rn_parent = None,
                                     rn_value = NGX_RADIX_NO_VALUE\<rparr> (tree\<lparr>rt_root := root\<rparr>)
           in if preallocate = 0 then Some (Some tree)
              else
                (let preallocate =
                       (if preallocate = - 1 then
                          (if rt_pagesize tree div node_size = 128 then 6
                           else if rt_pagesize tree div node_size = 256 then 7 else 8)
                        else preallocate)
                 in radix_preallocate_levels preallocate 0 0x80000000 tree)))"

section \<open>Abstraction: the tree in the store and the memory the allocator may hand out\<close>

datatype rtree = RNil | RNode addr u64 rtree rtree

fun ptr :: "rtree \<Rightarrow> addr option" where
  "ptr RNil = None"
| "ptr (RNode a v l r) = Some a"

fun addrs :: "rtree \<Rightarrow> addr list" where
  "addrs RNil = []"
| "addrs (RNode a v l r) = a # addrs l @ addrs r"

fun rep :: "(addr \<Rightarrow> ngx_radix_node_t) \<Rightarrow> addr option \<Rightarrow> rtree \<Rightarrow> bool" where
  "rep m par RNil \<longleftrightarrow> True"
| "rep m par (RNode a v l r) \<longleftrightarrow>
     m a = \<lparr>rn_right = ptr r, rn_left = ptr l, rn_parent = par, rn_value = v\<rparr> \<and>
     rep m (Some a) l \<and> rep m (Some a) r"

lemma rep_cong: "(\<And>a. a \<in> set (addrs t) \<Longrightarrow> m' a = m a) \<Longrightarrow> rep m' par t = rep m par t"
  by (induction t arbitrary: par) auto

lemma rep_upd [simp]: "a \<notin> set (addrs t) \<Longrightarrow> rep (m(a := n)) par t = rep m par t"
  by (rule rep_cong) auto

lemma ptr_None [simp]: "ptr t = None \<longleftrightarrow> t = RNil" "None = ptr t \<longleftrightarrow> t = RNil"
  by (cases t; simp)+

fun flist :: "(addr \<Rightarrow> ngx_radix_node_t) \<Rightarrow> addr option \<Rightarrow> addr list \<Rightarrow> bool" where
  "flist m p [] \<longleftrightarrow> p = None"
| "flist m p (x # xs) \<longleftrightarrow> p = Some x \<and> flist m (rn_right (m x)) xs"

lemma flist_cong: "(\<And>a. a \<in> set xs \<Longrightarrow> m' a = m a) \<Longrightarrow> flist m' p xs = flist m p xs"
  by (induction xs arbitrary: p) auto

definition nodes_in :: "addr \<Rightarrow> nat \<Rightarrow> addr list" where
  "nodes_in start sz = map (\<lambda>i. start + node_size * i) [0..<sz div node_size]"

definition fresh_nodes :: "ngx_radix_tree_t \<Rightarrow> addr list" where
  "fresh_nodes tr = nodes_in (rt_start tr) (rt_size tr) @
     concat (map (\<lambda>p. nodes_in p (rt_pagesize tr)) (rt_pages tr))"

text \<open>\<open>av\<close> lists the nodes the allocator is going to return: the free list, then fresh memory.\<close>

definition heap_ok :: "ngx_radix_tree_t \<Rightarrow> addr list \<Rightarrow> bool" where
  "heap_ok tr av \<longleftrightarrow> node_size \<le> rt_pagesize tr \<and>
     (\<exists>fs. flist (rt_mem tr) (rt_free tr) fs \<and> av = fs @ fresh_nodes tr)"

definition radix_inv :: "ngx_radix_tree_t \<Rightarrow> rtree \<Rightarrow> addr list \<Rightarrow> bool" where
  "radix_inv tr t av \<longleftrightarrow> ptr t = Some (rt_root tr) \<and> rep (rt_mem tr) None t \<and>
     heap_ok tr av \<and> distinct (addrs t @ av)"

lemma nodes_in_step:
  assumes "node_size \<le> sz"
  shows "nodes_in start sz = start # nodes_in (start + node_size) (sz - node_size)"
proof -
  have "sz div 32 = Suc ((sz - 32) div 32)" using assms by (simp add: le_div_geq)
  then have "[0..<sz div 32] = 0 # map Suc [0..<(sz - 32) div 32]"
    by (metis upt_conv_Cons map_Suc_upt zero_less_Suc)
  then show ?thesis by (simp add: nodes_in_def)
qed

lemma nodes_in_small: "sz < node_size \<Longrightarrow> nodes_in start sz = []"
  by (simp add: nodes_in_def)

lemma ngx_radix_alloc_NULL:
  assumes "heap_ok tr []"
  shows "ngx_radix_alloc tr = (tr, None)"
proof -
  have "rt_free tr = None" "nodes_in (rt_start tr) (rt_size tr) = []"
    and pages: "\<forall>p\<in>set (rt_pages tr). nodes_in p (rt_pagesize tr) = []"
    and sz: "node_size \<le> rt_pagesize tr"
    using assms by (auto simp: heap_ok_def fresh_nodes_def)
  then have "rt_size tr < node_size"
    using nodes_in_step [of "rt_size tr" "rt_start tr"] by (cases "rt_size tr < 32") auto
  moreover have "rt_pages tr = []"
    using pages nodes_in_step [OF sz] by (cases "rt_pages tr") auto
  ultimately show ?thesis using \<open>rt_free tr = None\<close> by (simp add: ngx_radix_alloc_def)
qed

lemma ngx_radix_alloc_Some:
  assumes "heap_ok tr (n # av)"
  shows "\<exists>tr'. ngx_radix_alloc tr = (tr', Some n) \<and> heap_ok tr' av \<and>
    rt_mem tr' = rt_mem tr \<and> rt_root tr' = rt_root tr"
proof -
  obtain fs where fs: "flist (rt_mem tr) (rt_free tr) fs" "n # av = fs @ fresh_nodes tr"
    and sz: "node_size \<le> rt_pagesize tr"
    using assms by (auto simp: heap_ok_def)
  show ?thesis
  proof (cases fs)
    case (Cons x xs)
    then show ?thesis using fs sz by (auto simp: ngx_radix_alloc_def heap_ok_def fresh_nodes_def)
  next
    case Nil
    then have s: "n # av = fresh_nodes tr" "rt_free tr = None" using fs by auto
    show ?thesis
    proof (cases "rt_size tr < node_size")
      case False
      then show ?thesis
        using s sz nodes_in_step [of "rt_size tr" "rt_start tr"]
        by (simp add: ngx_radix_alloc_def heap_ok_def fresh_nodes_def)
    next
      case True
      then obtain p ps where ps: "rt_pages tr = p # ps"
        using s nodes_in_small [OF True] by (cases "rt_pages tr") (auto simp: fresh_nodes_def)
      then show ?thesis
        using s sz True nodes_in_small [OF True] nodes_in_step [OF sz, of p]
        by (simp add: ngx_radix_alloc_def heap_ok_def fresh_nodes_def)
    qed
  qed
qed

lemma heap_ok_set_node [simp]: "a \<notin> set av \<Longrightarrow> heap_ok (set_node a n tr) av = heap_ok tr av"
proof -
  assume a: "a \<notin> set av"
  have "fresh_nodes (set_node a n tr) = fresh_nodes tr" by (simp add: fresh_nodes_def set_node_def)
  moreover have "flist ((rt_mem tr)(a := n)) p fs = flist (rt_mem tr) p fs"
    if "av = fs @ fresh_nodes tr" for p fs
    using a that by (intro flist_cong) auto
  ultimately show ?thesis by (auto simp: heap_ok_def set_node_def)
qed

lemma set_node_sel [simp]:
  "rt_mem (set_node a n tr) = (rt_mem tr)(a := n)" "rt_root (set_node a n tr) = rt_root tr"
  "rt_free (set_node a n tr) = rt_free tr"
  by (simp_all add: set_node_def)

section \<open>The same algorithms over bit paths\<close>

text \<open>
  The loops over a shifted bit follow the path of the key's bits under the mask. These versions
  walk the path as a list; both key widths are shown to be instances of them.
\<close>

definition child :: "(addr \<Rightarrow> ngx_radix_node_t) \<Rightarrow> bool \<Rightarrow> addr \<Rightarrow> addr option" where
  "child m b a = (if b then rn_right (m a) else rn_left (m a))"

fun walk :: "(addr \<Rightarrow> ngx_radix_node_t) \<Rightarrow> bool list \<Rightarrow> addr \<Rightarrow> addr option
    \<Rightarrow> bool list \<times> addr \<times> addr option" where
  "walk m [] node nxt = ([], node, nxt)"
| "walk m (b # bs) node nxt =
     (case child m b node of
        None \<Rightarrow> (b # bs, node, None)
      | Some n \<Rightarrow> walk m bs n (Some n))"

definition add_child :: "bool \<Rightarrow> addr \<Rightarrow> addr \<Rightarrow> ngx_radix_tree_t \<Rightarrow> ngx_radix_tree_t" where
  "add_child b node n tree =
     (let tree = set_node n \<lparr>rn_right = None, rn_left = None, rn_parent = Some node,
                             rn_value = NGX_RADIX_NO_VALUE\<rparr> tree
      in if b then set_node node (rt_mem tree node\<lparr>rn_right := Some n\<rparr>) tree
         else set_node node (rt_mem tree node\<lparr>rn_left := Some n\<rparr>) tree)"

fun grow :: "bool list \<Rightarrow> addr \<Rightarrow> ngx_radix_tree_t \<Rightarrow> ngx_radix_tree_t \<times> addr option" where
  "grow [] node tree = (tree, Some node)"
| "grow (b # bs) node tree =
     (case ngx_radix_alloc tree of
        (tree, None) \<Rightarrow> (tree, None)
      | (tree, Some n) \<Rightarrow> grow bs n (add_child b node n tree))"

definition set_value :: "addr \<Rightarrow> u64 \<Rightarrow> ngx_radix_tree_t \<Rightarrow> ngx_radix_tree_t" where
  "set_value a v tree = set_node a (rt_mem tree a\<lparr>rn_value := v\<rparr>) tree"

definition path_insert :: "ngx_radix_tree_t \<Rightarrow> bool list \<Rightarrow> u64 \<Rightarrow> ngx_int_t \<times> ngx_radix_tree_t" where
  "path_insert tree bs v =
     (case walk (rt_mem tree) bs (rt_root tree) (Some (rt_root tree)) of
        (rest, node, nxt) \<Rightarrow>
          if nxt \<noteq> None then
            (if rn_value (rt_mem tree node) \<noteq> NGX_RADIX_NO_VALUE then (NGX_BUSY, tree)
             else (NGX_OK, set_value node v tree))
          else (case grow rest node tree of
                  (tree, None) \<Rightarrow> (NGX_ERROR, tree)
                | (tree, Some node) \<Rightarrow> (NGX_OK, set_value node v tree)))"

fun walk_delete :: "(addr \<Rightarrow> ngx_radix_node_t) \<Rightarrow> bool list \<Rightarrow> addr option \<Rightarrow> addr option" where
  "walk_delete m bs None = None"
| "walk_delete m [] (Some n) = Some n"
| "walk_delete m (b # bs) (Some n) = walk_delete m bs (child m b n)"

function path32 :: "u32 \<Rightarrow> u32 \<Rightarrow> u32 \<Rightarrow> bool list" where
  "path32 key msk bt =
     (if bt AND msk \<noteq> 0 then (key AND bt \<noteq> 0) # path32 key msk (drop_bit 1 bt) else [])"
  by pat_completeness auto
termination
  by (relation "measure (\<lambda>(key, msk, bt). unat bt)") (auto intro: shift_bit_less)

declare path32.simps [simp del]

lemma radix32_descend_walk:
  "\<exists>bt'. radix32_descend m key msk bt node nxt =
       (bt', snd (walk m (path32 key msk bt) node nxt)) \<and>
     path32 key msk bt' = fst (walk m (path32 key msk bt) node nxt)"
proof (induction m key msk bt node nxt rule: radix32_descend.induct)
  case (1 m key msk bt node nxt)
  show ?case
  proof (cases "bt AND msk = 0")
    case True
    then have "path32 key msk bt = []" by (simp add: path32.simps [of key msk bt])
    with True show ?thesis by (simp add: radix32_descend.simps [of m key msk bt])
  next
    case False
    let ?b = "key AND bt \<noteq> 0"
    have path: "path32 key msk bt = ?b # path32 key msk (drop_bit 1 bt)"
      using False by (simp add: path32.simps [of key msk bt])
    show ?thesis
    proof (cases "child m ?b node")
      case None
      then have "radix32_descend m key msk bt node nxt = (bt, node, None)"
        using False by (subst radix32_descend.simps) (simp add: child_def)
      with None path show ?thesis by (auto simp del: not_None_eq)
    next
      case (Some n)
      then have "radix32_descend m key msk bt node nxt =
          radix32_descend m key msk (drop_bit 1 bt) n (Some n)"
        using False by (subst radix32_descend.simps) (simp add: child_def)
      with Some path "1.IH" [of n] False show ?thesis by (simp add: child_def)
    qed
  qed
qed

lemma radix32_extend_grow: "radix32_extend key msk bt node tree = grow (path32 key msk bt) node tree"
proof (induction key msk bt node tree rule: radix32_extend.induct)
  case (1 key msk bt node tree)
  show ?case
  proof (cases "bt AND msk = 0")
    case True
    then show ?thesis
      by (simp add: radix32_extend.simps [of key msk bt] path32.simps [of key msk bt])
  next
    case False
    then show ?thesis
      using "1.IH" [OF False]
      by (simp add: radix32_extend.simps [of key msk bt] path32.simps [of key msk bt]
          add_child_def Let_def split: prod.splits option.splits)
  qed
qed

lemma ngx_radix32tree_insert_path:
  "ngx_radix32tree_insert tree key msk v = path_insert tree (path32 key msk 0x80000000) v"
proof -
  obtain bt where
    "radix32_descend (rt_mem tree) key msk 0x80000000 (rt_root tree) (Some (rt_root tree)) =
       (bt, snd (walk (rt_mem tree) (path32 key msk 0x80000000) (rt_root tree) (Some (rt_root tree))))"
    "path32 key msk bt =
       fst (walk (rt_mem tree) (path32 key msk 0x80000000) (rt_root tree) (Some (rt_root tree)))"
    using radix32_descend_walk by blast
  then show ?thesis
    by (simp add: ngx_radix32tree_insert_def path_insert_def radix32_extend_grow set_value_def
        split: prod.splits)
qed

lemma radix32_delete_descend_walk:
  "radix32_delete_descend m key msk bt node = walk_delete m (path32 key msk bt) node"
proof (induction m key msk bt node rule: radix32_delete_descend.induct)
  case (1 m key msk bt node)
  show ?case
  proof (cases node)
    case None
    then show ?thesis by (simp add: radix32_delete_descend.simps)
  next
    case (Some n)
    then show ?thesis
      using "1.IH" [OF Some]
      by (simp add: radix32_delete_descend.simps [of m key msk bt] path32.simps [of key msk bt] child_def)
  qed
qed

section \<open>Values along paths, insertion\<close>

fun sub :: "bool \<Rightarrow> rtree \<Rightarrow> rtree" where
  "sub b RNil = RNil"
| "sub b (RNode a v l r) = (if b then r else l)"

fun upd :: "bool \<Rightarrow> rtree \<Rightarrow> rtree \<Rightarrow> rtree" where
  "upd b c RNil = RNil"
| "upd b c (RNode a v l r) = (if b then RNode a v l c else RNode a v c r)"

fun rget :: "bool list \<Rightarrow> rtree \<Rightarrow> u64" where
  "rget bs RNil = NGX_RADIX_NO_VALUE"
| "rget [] (RNode a v l r) = v"
| "rget (b # bs) (RNode a v l r) = rget bs (if b then r else l)"

fun addr_at :: "bool list \<Rightarrow> rtree \<Rightarrow> addr option" where
  "addr_at bs RNil = None"
| "addr_at [] (RNode a v l r) = Some a"
| "addr_at (b # bs) (RNode a v l r) = addr_at bs (if b then r else l)"

fun rset :: "bool list \<Rightarrow> u64 \<Rightarrow> rtree \<Rightarrow> rtree" where
  "rset bs v RNil = RNil"
| "rset [] v (RNode a w l r) = RNode a v l r"
| "rset (b # bs) v (RNode a w l r) = (if b then RNode a w l (rset bs v r) else RNode a w (rset bs v l) r)"

fun height :: "rtree \<Rightarrow> nat" where
  "height RNil = 0"
| "height (RNode a v l r) = Suc (max (height l) (height r))"

abbreviation leaf :: "addr \<Rightarrow> rtree" where
  "leaf n \<equiv> RNode n NGX_RADIX_NO_VALUE RNil RNil"

fun rext :: "addr list \<Rightarrow> bool list \<Rightarrow> rtree \<Rightarrow> rtree" where
  "rext av [] t = t"
| "rext av (b # bs) RNil = RNil"
| "rext av (b # bs) (RNode a v l r) =
     (if sub b (RNode a v l r) = RNil then
        (case av of [] \<Rightarrow> RNode a v l r | n # av \<Rightarrow> upd b (rext av bs (leaf n)) (RNode a v l r))
      else upd b (rext av bs (sub b (RNode a v l r))) (RNode a v l r))"

lemma addrs_rset [simp]: "addrs (rset bs v t) = addrs t"
  by (induction bs v t rule: rset.induct) auto

lemma ptr_rset [simp]: "ptr (rset bs v t) = ptr t"
  by (cases "(bs, v, t)" rule: rset.cases) auto

lemma height_rset [simp]: "height (rset bs v t) = height t"
  by (induction bs v t rule: rset.induct) auto

lemma rget_rset: "rget p (rset bs v t) = (if p = bs \<and> addr_at bs t \<noteq> None then v else rget p t)"
proof (induction bs v t arbitrary: p rule: rset.induct)
  case (2 v a w l r)
  then show ?case by (cases p) auto
next
  case (3 b bs v a w l r)
  then show ?case by (cases p) auto
qed simp

lemma addr_at_addrs: "addr_at bs t = Some x \<Longrightarrow> x \<in> set (addrs t)"
  by (induction bs t rule: addr_at.induct) (auto split: if_splits)

lemma addr_at_None_rget: "addr_at bs t = None \<Longrightarrow> rget bs t = NGX_RADIX_NO_VALUE"
  by (induction bs t rule: addr_at.induct) auto

lemma rep_node: "rep m par t \<Longrightarrow> addr_at bs t = Some x \<Longrightarrow> rn_value (m x) = rget bs t"
  by (induction bs t arbitrary: par rule: addr_at.induct) (auto split: if_splits)

lemma rep_frame:
  "rep m par t \<Longrightarrow> (\<And>y. y \<noteq> x \<Longrightarrow> m' y = m y) \<Longrightarrow> x \<notin> set (addrs t) \<Longrightarrow> rep m' par t"
  using rep_cong [of t m' m par] by metis

lemma rep_set_value:
  assumes new: "m' x = m x\<lparr>rn_value := v\<rparr>" and same: "\<And>y. y \<noteq> x \<Longrightarrow> m' y = m y"
  shows "rep m par t \<Longrightarrow> distinct (addrs t) \<Longrightarrow> addr_at bs t = Some x \<Longrightarrow> rep m' par (rset bs v t)"
proof (induction bs t arbitrary: par rule: addr_at.induct)
  case (2 a w l r)
  then have "x = a" "a \<notin> set (addrs l)" "a \<notin> set (addrs r)" by auto
  with 2 have "rep m' (Some a) l" "rep m' (Some a) r"
    by (auto intro: rep_frame [of m _ _ x, OF _ same])
  with 2 new show ?case by auto
next
  case (3 b bs a w l r)
  then have x: "x \<in> set (addrs (sub b (RNode a w l r)))" by (auto dest: addr_at_addrs)
  with 3 have nx: "x \<notin> set (addrs (sub (\<not> b) (RNode a w l r)))" "x \<noteq> a"
    by (auto split: if_splits)
  then have "rep m' (Some a) (sub (\<not> b) (RNode a w l r))"
    using 3 by (intro rep_frame [of m _ _ x, OF _ same]) (cases b; auto)+
  with 3 nx same show ?case by (cases b) auto
qed simp

lemma rget_leaf [simp]: "rget p (leaf n) = NGX_RADIX_NO_VALUE"
  by (cases p) auto

lemma rget_rext [simp]: "rget p (rext av bs t) = rget p t"
proof (induction av bs t arbitrary: p rule: rext.induct)
  case (3 av b bs a v l r)
  then show ?case by (cases p; cases av) (auto split: if_splits)
qed simp_all

lemma ptr_rext [simp]: "ptr (rext av bs t) = ptr t"
  by (cases "(av, bs, t)" rule: rext.cases) (auto split: list.splits)

lemma rext_RNil_iff [simp]: "rext av bs t = RNil \<longleftrightarrow> t = RNil"
  by (metis ptr_None(1) ptr_rext)

lemma height_rext: "height (rext av bs t) \<le> max (height t) (Suc (length bs))"
proof (induction av bs t rule: rext.induct)
  case (3 av b bs a v l r)
  then show ?case by (cases av) (auto simp: max_def split: if_splits)
qed auto

lemma walk_found:
  "rep m par t \<Longrightarrow> addr_at bs t = Some x \<Longrightarrow> ptr t = Some a \<Longrightarrow> walk m bs a (Some a) = ([], x, Some x)"
proof (induction bs t arbitrary: par a rule: addr_at.induct)
  case (3 b bs a' v l r)
  then obtain c where "ptr (if b then r else l) = Some c"
    by (cases "if b then r else l") auto
  with 3 show ?case by (auto simp: child_def split: if_splits)
qed auto

lemma child_rep: "rep m par t \<Longrightarrow> ptr t = Some a \<Longrightarrow> child m b a = ptr (sub b t)"
  by (cases t) (auto simp: child_def)

lemma rep_add_child:
  assumes "rep (rt_mem tr) par (RNode a v l r)" and "sub b (RNode a v l r) = RNil"
    and "distinct (n # addrs (RNode a v l r))"
  shows "rep (rt_mem (add_child b a n tr)) par (upd b (leaf n) (RNode a v l r))"
  using assms by (auto simp: add_child_def Let_def)

lemma add_child_frame:
  "y \<noteq> a \<Longrightarrow> y \<noteq> n \<Longrightarrow> rt_mem (add_child b a n tr) y = rt_mem tr y"
  "rt_root (add_child b a n tr) = rt_root tr"
  "a \<notin> set av \<Longrightarrow> n \<notin> set av \<Longrightarrow> heap_ok (add_child b a n tr) av = heap_ok tr av"
  by (simp_all add: add_child_def Let_def)

lemma rep_upd_sub:
  assumes t: "rep m par t" "ptr t = Some a" and c: "rep m' (Some a) c" "ptr c = ptr (sub b t)"
    and d: "distinct (addrs t)"
    and same: "\<And>y. y \<in> set (addrs t) \<Longrightarrow> y \<notin> set (addrs (sub b t)) \<Longrightarrow> m' y = m y"
  shows "rep m' par (upd b c t)"
proof -
  obtain v l r where tr: "t = RNode a v l r" using t(2) by (cases t) auto
  have "rep m' (Some a) (sub (\<not> b) t) = rep m (Some a) (sub (\<not> b) t)"
    using d by (intro rep_cong same) (cases b; auto simp: tr)+
  moreover have "m' a = m a" using d by (intro same) (auto simp: tr)
  ultimately show ?thesis using t c by (auto simp: tr split: if_splits)
qed

text \<open>What extending the tree below a node achieves: the new tree, its end node, the frame.\<close>

definition grown :: "ngx_radix_tree_t \<Rightarrow> addr option \<Rightarrow> rtree \<Rightarrow> addr list \<Rightarrow> bool list
    \<Rightarrow> ngx_radix_tree_t \<times> addr option \<Rightarrow> bool" where
  "grown tr par t av bs res \<longleftrightarrow>
     (case res of (tr', x) \<Rightarrow>
        x = addr_at bs (rext av bs t) \<and> rep (rt_mem tr') par (rext av bs t) \<and>
        rt_root tr' = rt_root tr \<and>
        (\<forall>y. y \<notin> set (addrs t) \<and> y \<notin> set av \<longrightarrow> rt_mem tr' y = rt_mem tr y) \<and>
        (\<exists>av'. heap_ok tr' av' \<and> mset (addrs (rext av bs t) @ av') = mset (addrs t @ av)))"

lemma grow_grown:
  "rep (rt_mem tr) par (RNode a v l r) \<Longrightarrow> sub b (RNode a v l r) = RNil \<Longrightarrow> heap_ok tr av \<Longrightarrow>
   distinct (addrs (RNode a v l r) @ av) \<Longrightarrow>
   grown tr par (RNode a v l r) av (b # bs) (grow (b # bs) a tr)"
proof (induction bs arbitrary: tr par a v l r b av)
  case Nil
  show ?case
  proof (cases av)
    case Nil
    then show ?thesis using Nil.prems by (auto simp: grown_def ngx_radix_alloc_NULL)
  next
    case (Cons n av')
    then obtain tr' where tr': "ngx_radix_alloc tr = (tr', Some n)" "heap_ok tr' av'"
        "rt_mem tr' = rt_mem tr" "rt_root tr' = rt_root tr"
      using Nil.prems(3) ngx_radix_alloc_Some by blast
    with Cons Nil.prems rep_add_child [of tr' par a v l r b n] show ?thesis
      by (auto simp: grown_def add_child_frame intro!: exI [of _ av'])
  qed
next
  case (Cons b' bs)
  let ?t = "RNode a v l r"
  show ?case
  proof (cases av)
    case Nil
    then show ?thesis using Cons.prems by (auto simp: grown_def ngx_radix_alloc_NULL)
  next
    case (Cons n av')
    then obtain tr' where tr': "ngx_radix_alloc tr = (tr', Some n)" "heap_ok tr' av'"
        "rt_mem tr' = rt_mem tr" "rt_root tr' = rt_root tr"
      using Cons.prems(3) ngx_radix_alloc_Some by blast
    let ?tr = "add_child b a n tr'"
    have rep: "rep (rt_mem ?tr) par (upd b (leaf n) ?t)"
      using Cons Cons.prems tr' by (intro rep_add_child) auto
    then have leafrep: "rep (rt_mem ?tr) (Some a) (leaf n)" by (auto split: if_splits)
    have "heap_ok ?tr av'" using Cons Cons.prems tr' by (simp add: add_child_frame)
    then have g: "grown ?tr (Some a) (leaf n) av' (b' # bs) (grow (b' # bs) n ?tr)"
      using leafrep Cons Cons.prems by (intro Cons.IH) auto
    obtain tr'' x where gr: "grow (b' # bs) n ?tr = (tr'', x)" by fastforce
    define u where "u = rext av' (b' # bs) (leaf n)"
    have out: "grow (b # b' # bs) a tr = (tr'', x)" "rext av (b # b' # bs) ?t = upd b u ?t"
      using tr' gr Cons Cons.prems(2) rext.simps(3) [of "n # av'" b "b' # bs" a v l r]
      by (simp_all add: u_def del: rext.simps grow.simps add: grow.simps(2) [of b "b' # bs"])
    have u: "x = addr_at (b' # bs) u" "rep (rt_mem tr'') (Some a) u" "ptr u = Some n"
      "rt_root tr'' = rt_root ?tr"
      "\<And>y. y \<noteq> n \<Longrightarrow> y \<notin> set av' \<Longrightarrow> rt_mem tr'' y = rt_mem ?tr y"
      using g gr unfolding grown_def u_def [symmetric] by (simp_all add: u_def del: rext.simps)
    obtain av'' where av'': "heap_ok tr'' av''" "mset (addrs u @ av'') = mset (n # av')"
      using g gr unfolding grown_def u_def [symmetric] by auto
    have "rep (rt_mem tr'') par (upd b u (upd b (leaf n) ?t))"
      using u Cons Cons.prems
      by (intro rep_upd_sub [where a = a, OF rep]) (auto split: if_splits)
    then have "rep (rt_mem tr'') par (upd b u ?t)" by (auto split: if_splits)
    moreover have "mset (addrs (upd b u ?t) @ av'') = mset (addrs ?t @ av)"
      using av'' Cons Cons.prems(2) by (auto split: if_splits)
    moreover have "rt_mem tr'' y = rt_mem tr y" if "y \<notin> set (addrs ?t)" "y \<notin> set av" for y
      using that u Cons tr' by (simp add: add_child_frame)
    ultimately show ?thesis
      unfolding grown_def out using u av'' tr' by (auto simp: add_child_frame)
  qed
qed

lemma mset_addrs_upd:
  "t \<noteq> RNil \<Longrightarrow> mset (addrs (upd b c t)) + mset (addrs (sub b t)) = mset (addrs t) + mset (addrs c)"
  by (cases t) auto

lemma walk_grow:
  "rep (rt_mem tr) par t \<Longrightarrow> ptr t = Some a \<Longrightarrow> heap_ok tr av \<Longrightarrow> distinct (addrs t @ av) \<Longrightarrow>
   addr_at bs t = None \<Longrightarrow>
   \<exists>rest node. walk (rt_mem tr) bs a nxt = (rest, node, None) \<and>
     grown tr par t av bs (grow rest node tr)"
proof (induction bs arbitrary: t par a nxt)
  case Nil
  then show ?case by (cases t) auto
next
  case (Cons b bs)
  obtain v l r where t: "t = RNode a v l r" using Cons.prems(2) by (cases t) auto
  show ?case
  proof (cases "sub b t")
    case RNil
    then have "walk (rt_mem tr) (b # bs) a nxt = (b # bs, a, None)"
      using child_rep [OF Cons.prems(1,2), of b] by simp
    then show ?thesis
      using grow_grown [of tr par a v l r b av bs] Cons.prems RNil by (simp add: t del: grow.simps)
  next
    case (RNode c w cl cr)
    let ?c = "sub b t"
    have c: "ptr ?c = Some c" "rep (rt_mem tr) (Some a) ?c" "addr_at bs ?c = None"
      "distinct (addrs ?c @ av)" "\<not> rext av bs ?c = RNil"
      using RNode Cons.prems t by (auto split: if_splits)
    obtain rest node where w: "walk (rt_mem tr) bs c (Some c) = (rest, node, None)"
      "grown tr (Some a) ?c av bs (grow rest node tr)"
      using Cons.IH [OF c(2,1) Cons.prems(3) c(4,3)] by blast
    obtain tr' x where g: "grow rest node tr = (tr', x)" by fastforce
    define u where "u = rext av bs ?c"
    have u: "x = addr_at bs u" "rep (rt_mem tr') (Some a) u" "rt_root tr' = rt_root tr"
      "\<And>y. y \<notin> set (addrs ?c) \<Longrightarrow> y \<notin> set av \<Longrightarrow> rt_mem tr' y = rt_mem tr y"
      using w(2) g by (auto simp: grown_def u_def)
    obtain av' where av': "heap_ok tr' av'" "mset (addrs u @ av') = mset (addrs ?c @ av)"
      using w(2) g by (auto simp: grown_def u_def)
    have ext: "rext av (b # bs) t = upd b u t"
      using RNode t by (auto simp: u_def split: if_splits)
    have "rep (rt_mem tr') par (upd b u t)"
      using u Cons.prems(4) c(1) by (intro rep_upd_sub [OF Cons.prems(1,2)]) (auto simp: u_def)
    moreover have "mset (addrs (upd b u t) @ av') = mset (addrs t @ av)"
    proof -
      have "mset (addrs (upd b u t)) + mset av' + mset (addrs ?c) =
          mset (addrs t) + (mset (addrs u) + mset av')"
        using mset_addrs_upd [of t b u] t by (metis add.assoc add.commute rtree.distinct(1))
      also have "mset (addrs u) + mset av' = mset (addrs ?c) + mset av"
        using av'(2) by simp
      finally have "mset (addrs (upd b u t)) + mset av' + mset (addrs ?c) =
          mset (addrs t) + mset av + mset (addrs ?c)"
        by (simp only: ac_simps)
      then show ?thesis by simp
    qed
    moreover have "x = addr_at (b # bs) (upd b u t)" using u(1) t by simp
    moreover have "walk (rt_mem tr) (b # bs) a nxt = (rest, node, None)"
      using child_rep [OF Cons.prems(1,2), of b] c(1) w(1) by simp
    moreover have "set (addrs ?c) \<subseteq> set (addrs t)" by (auto simp: t)
    ultimately show ?thesis
      using u(3,4) av'(1) g unfolding grown_def ext by fastforce
  qed
qed

lemma path_insert_spec:
  assumes inv: "radix_inv tr t av" and res: "path_insert tr bs v = (rc, tr')"
  shows "\<exists>t' av'. radix_inv tr' t' av' \<and> height t' \<le> max (height t) (Suc (length bs)) \<and>
    (rc = NGX_BUSY \<and> rget bs t \<noteq> NGX_RADIX_NO_VALUE \<and> (\<forall>p. rget p t' = rget p t) \<or>
     rc = NGX_ERROR \<and> rget bs t = NGX_RADIX_NO_VALUE \<and> (\<forall>p. rget p t' = rget p t) \<or>
     rc = NGX_OK \<and> rget bs t = NGX_RADIX_NO_VALUE \<and>
       (\<forall>p. rget p t' = (if p = bs then v else rget p t)))"
proof -
  let ?m = "rt_mem tr"
  have I: "ptr t = Some (rt_root tr)" "rep ?m None t" "heap_ok tr av" "distinct (addrs t @ av)"
    using inv by (auto simp: radix_inv_def)
  have set: "radix_inv (set_value x v tr1) (rset bs v t1) av1"
    if "radix_inv tr1 t1 av1" "addr_at bs t1 = Some x" for tr1 t1 av1 x
  proof -
    have "x \<notin> set av1" using that addr_at_addrs [of bs t1 x] by (auto simp: radix_inv_def)
    then show ?thesis
      using that rep_set_value [where m' = "rt_mem (set_value x v tr1)" and x = x and m = "rt_mem tr1"
          and v = v and par = None and t = t1 and bs = bs]
      by (simp add: radix_inv_def set_value_def)
  qed
  show ?thesis
  proof (cases "addr_at bs t")
    case (Some x)
    have w: "walk ?m bs (rt_root tr) (Some (rt_root tr)) = ([], x, Some x)"
      using walk_found [OF I(2) Some I(1)] .
    show ?thesis
    proof (cases "rget bs t = NGX_RADIX_NO_VALUE")
      case True
      then have "rc = NGX_OK" "tr' = set_value x v tr"
        using res w rep_node [OF I(2) Some] by (auto simp: path_insert_def)
      then show ?thesis
        using set [OF inv Some] True Some
        by (intro exI [of _ "rset bs v t"] exI [of _ av]) (simp add: rget_rset)
    next
      case False
      then have "rc = NGX_BUSY" "tr' = tr"
        using res w rep_node [OF I(2) Some] by (auto simp: path_insert_def)
      then show ?thesis using inv False by (intro exI [of _ t] exI [of _ av]) simp
    qed
  next
    case None
    then obtain rest node where w: "walk ?m bs (rt_root tr) (Some (rt_root tr)) = (rest, node, None)"
      and g: "grown tr None t av bs (grow rest node tr)"
      using walk_grow [OF I(2,1,3,4)] by blast
    obtain tr1 x where gr: "grow rest node tr = (tr1, x)" by fastforce
    let ?t1 = "rext av bs t"
    obtain av1 where av1: "heap_ok tr1 av1" "mset (addrs ?t1 @ av1) = mset (addrs t @ av)"
      using g gr by (auto simp: grown_def)
    have d: "distinct (addrs ?t1 @ av1)"
      using mset_eq_imp_distinct_iff [OF av1(2)] I(4) by blast
    have inv1: "radix_inv tr1 ?t1 av1" and x: "x = addr_at bs ?t1"
      using g gr I(1) av1 d by (auto simp: grown_def radix_inv_def)
    have no: "rget bs t = NGX_RADIX_NO_VALUE" using None by (rule addr_at_None_rget)
    show ?thesis
    proof (cases x)
      case None
      then have "rc = NGX_ERROR" "tr' = tr1" using res w gr by (auto simp: path_insert_def)
      then show ?thesis
        using inv1 no height_rext [of av bs t] by (intro exI [of _ ?t1] exI [of _ av1]) simp
    next
      case (Some y)
      then have "rc = NGX_OK" "tr' = set_value y v tr1" using res w gr by (auto simp: path_insert_def)
      then show ?thesis
        using set [OF inv1, of y] Some x no height_rext [of av bs t]
        by (intro exI [of _ "rset bs v ?t1"] exI [of _ av1]) (simp add: rget_rset)
    qed
  qed
qed

section \<open>Lookup: the longest matching prefix\<close>

fun rfind :: "bool list \<Rightarrow> u64 \<Rightarrow> rtree \<Rightarrow> u64" where
  "rfind bs d RNil = d"
| "rfind bs d (RNode a v l r) =
     rfind (tl bs) (if v \<noteq> NGX_RADIX_NO_VALUE then v else d) (if bs \<noteq> [] \<and> hd bs then r else l)"

fun lpm :: "(bool list \<Rightarrow> u64) \<Rightarrow> u64 \<Rightarrow> bool list \<Rightarrow> u64" where
  "lpm M d [] = (if M [] \<noteq> NGX_RADIX_NO_VALUE then M [] else d)"
| "lpm M d (b # bs) = lpm (\<lambda>p. M (b # p)) (if M [] \<noteq> NGX_RADIX_NO_VALUE then M [] else d) bs"

lemma lpm_default:
  "(\<And>k. k \<le> length bs \<Longrightarrow> M (take k bs) = NGX_RADIX_NO_VALUE) \<Longrightarrow> lpm M d bs = d"
proof (induction bs arbitrary: M d)
  case (Cons b bs)
  have "M [] = NGX_RADIX_NO_VALUE" using Cons.prems [of 0] by simp
  moreover have "M (b # take k bs) = NGX_RADIX_NO_VALUE" if "k \<le> length bs" for k
    using Cons.prems [of "Suc k"] that by simp
  ultimately show ?case using Cons.IH [of "\<lambda>p. M (b # p)"] by simp
qed (use spec [where x = 0] in force)

lemma lpm_longest:
  "n \<le> length bs \<Longrightarrow> M (take n bs) \<noteq> NGX_RADIX_NO_VALUE \<Longrightarrow>
   (\<And>k. n < k \<Longrightarrow> k \<le> length bs \<Longrightarrow> M (take k bs) = NGX_RADIX_NO_VALUE) \<Longrightarrow>
   lpm M d bs = M (take n bs)"
proof (induction bs arbitrary: M d n)
  case (Cons b bs)
  have later: "M (b # take k bs) = NGX_RADIX_NO_VALUE" if "n < Suc k" "k \<le> length bs" for k
    using Cons.prems(3) [of "Suc k"] that by simp
  show ?case
  proof (cases n)
    case 0
    then show ?thesis
      using Cons.prems(2) later lpm_default [of bs "\<lambda>p. M (b # p)" "M []"] by simp
  next
    case (Suc k)
    then show ?thesis
      using Cons.prems(1,2) later Cons.IH [of k "\<lambda>p. M (b # p)"] by simp
  qed
qed simp

lemma rfind_lpm: "height t \<le> Suc (length bs) \<Longrightarrow> rfind bs d t = lpm (\<lambda>p. rget p t) d bs"
proof (induction t arbitrary: bs d)
  case RNil
  then show ?case by (simp add: lpm_default)
next
  case (RNode a v l r)
  show ?case
  proof (cases bs)
    case Nil
    then have "l = RNil" "r = RNil" using RNode.prems by (cases l; cases r; simp)+
    with Nil show ?thesis by simp
  next
    case (Cons b bs')
    then have "rfind bs' d' (if b then r else l) = lpm (\<lambda>p. rget p (if b then r else l)) d' bs'" for d'
      using RNode by auto
    with Cons show ?thesis by simp
  qed
qed

lemma rfind_append: "height t \<le> Suc (length bs) \<Longrightarrow> rfind (bs @ cs) d t = rfind bs d t"
proof (induction t arbitrary: bs d)
  case (RNode a v l r)
  show ?case
  proof (cases bs)
    case Nil
    then have "l = RNil" "r = RNil" using RNode.prems by (cases l; cases r; simp)+
    then show ?thesis by simp
  next
    case (Cons b bs')
    with RNode show ?thesis by auto
  qed
qed simp

definition bits32 :: "u32 \<Rightarrow> bool list" where
  "bits32 key = path32 key (- 1) 0x80000000"

lemma length_bits32: "length (bits32 key) = 32"
  by (simp add: bits32_def path32.simps)

lemma path32_take: "\<exists>n. path32 key msk bt = take n (path32 key (- 1) bt)"
proof (induction key msk bt rule: path32.induct)
  case (1 key msk bt)
  show ?case
  proof (cases "bt AND msk = 0")
    case True
    then show ?thesis by (intro exI [of _ 0]) (simp add: path32.simps [of key msk bt])
  next
    case False
    then obtain n where "path32 key msk (drop_bit 1 bt) = take n (path32 key (- 1) (drop_bit 1 bt))"
      using "1.IH" by blast
    moreover have "bt \<noteq> 0" using False by auto
    ultimately show ?thesis
      using False by (intro exI [of _ "Suc n"])
        (simp add: path32.simps [of key msk bt] path32.simps [of key "- 1" bt])
  qed
qed

lemma length_path32: "length (path32 key msk 0x80000000) \<le> 32"
  using path32_take [of key msk "0x80000000"] length_bits32 [of key] by (auto simp: bits32_def)

lemma radix32_find_loop_rfind:
  "rep m par t \<Longrightarrow>
   radix32_find_loop m key bt d (ptr t) = Some (rfind (path32 key (- 1) bt) d t)"
proof (induction t arbitrary: par bt d)
  case RNil
  then show ?case by (simp add: radix32_find_loop.simps)
next
  case (RNode a v l r)
  have "path32 key (- 1) bt =
      (if bt = 0 then [] else (key AND bt \<noteq> 0) # path32 key (- 1) (drop_bit 1 bt))"
    by (simp add: path32.simps [of key "- 1" bt])
  moreover have "path32 key (- 1) 0 = []" by (simp add: path32.simps)
  ultimately show ?case
    using RNode.prems RNode.IH(1) [of "Some a" "drop_bit 1 bt"] RNode.IH(2) [of "Some a" "drop_bit 1 bt"]
    by (auto simp: radix32_find_loop.simps [of m key bt])
qed

end
