(* ===== verification/Ngx_Radix_128.thy ===== *)
theory Ngx_Radix_128
  imports Ngx_Radix_Tree
begin

text \<open>
  The 128-bit loops of src/core/ngx_radix_tree.c follow the same paths as the 32-bit ones: the
  bits of a 16-byte key under a 16-byte mask. This theory shows that insertion, deletion and
  lookup with byte arrays are instances of the path algorithms of \<open>Ngx_Radix_Tree\<close>.
\<close>

section \<open>128-bit keys as paths\<close>

function path128 :: "byte list \<Rightarrow> byte list \<Rightarrow> nat \<Rightarrow> byte \<Rightarrow> bool list" where
  "path128 key msk i bt =
     (if i < 16 \<and> bt AND msk ! i \<noteq> 0 then
        (key ! i AND bt \<noteq> 0) #
          (if drop_bit 1 bt = 0 then path128 key msk (i + 1) 0x80
           else path128 key msk i (drop_bit 1 bt))
      else [])"
  by pat_completeness auto
termination
  by (relation "measures [\<lambda>(key, msk, i, bt). 16 - i, \<lambda>(key, msk, i, bt). unat bt]")
     (auto intro: shift_bit_less)

declare path128.simps [simp del]

lemma path128_end [simp]: "path128 key msk 16 bt = []"
  by (simp add: path128.simps)

text \<open>The position of the bit behind \<open>bt\<close> in byte \<open>i\<close>, as both loops compute it.\<close>

definition next_bit :: "nat \<Rightarrow> byte \<Rightarrow> nat \<times> byte" where
  "next_bit i bt = (if drop_bit 1 bt = 0 then (i + 1, 0x80) else (i, drop_bit 1 bt))"

lemma path128_step:
  "i < 16 \<Longrightarrow> bt AND msk ! i \<noteq> 0 \<Longrightarrow>
   path128 key msk i bt = (key ! i AND bt \<noteq> 0) # (case next_bit i bt of (i', bt') \<Rightarrow> path128 key msk i' bt')"
  by (simp add: path128.simps [of key msk i bt] next_bit_def)

lemma path128_stop: "bt AND msk ! i = 0 \<Longrightarrow> path128 key msk i bt = []"
  by (simp add: path128.simps [of key msk i bt])

lemma bits_induct [consumes 1, case_names stop step]:
  assumes "i < (16 :: nat)"
    and stop: "\<And>i bt. i < 16 \<Longrightarrow> bt AND msk ! i = 0 \<Longrightarrow> P i bt"
    and step: "\<And>i bt. i < 16 \<Longrightarrow> bt AND msk ! i \<noteq> 0 \<Longrightarrow>
      (\<And>i' bt'. next_bit i bt = (i', bt') \<Longrightarrow> i' < 16 \<Longrightarrow> P i' bt') \<Longrightarrow> P i bt"
  shows "P i (bt :: byte)"
proof -
  have "m = msk \<longrightarrow> i < 16 \<longrightarrow> P i bt" for m and key :: "byte list"
  proof (induction key m i bt rule: path128.induct)
    case (1 key m i bt)
    show ?case
    proof (cases "bt AND msk ! i = 0")
      case True
      then show ?thesis using stop by blast
    next
      case False
      show ?thesis
      proof (intro impI)
        assume a: "m = msk" "i < 16"
        have "P i' bt'" if "next_bit i bt = (i', bt')" "i' < 16" for i' bt'
          using 1 False a that by (cases "drop_bit 1 bt = 0") (auto simp: next_bit_def)
        then show "P i bt" using step a False by blast
      qed
    qed
  qed
  then show ?thesis using assms(1) by blast
qed


lemma next_bit_end: "next_bit i bt = (i', bt') \<Longrightarrow> i < 16 \<Longrightarrow> \<not> i' < 16 \<Longrightarrow> i' = 16"
  by (auto simp: next_bit_def split: if_splits)

lemma radix128_descend_step:
  assumes "i < 16" "i < length key" "i < length msk" "bt AND msk ! i \<noteq> 0"
    and "next_bit i bt = (i', bt')"
  shows "radix128_descend m key msk i bt node nxt =
    (case child m (key ! i AND bt \<noteq> 0) node of
       None \<Rightarrow> Some (i, bt, node, None)
     | Some n \<Rightarrow> if i' = 16 then Some (16, drop_bit 1 bt, n, Some n)
                 else radix128_descend m key msk i' bt' n (Some n))"
  using assms
  by (subst radix128_descend.simps)
     (auto simp: rd_def child_def next_bit_def split: option.splits if_splits)

lemma radix128_descend_stop:
  "i < length msk \<Longrightarrow> bt AND msk ! i = 0 \<Longrightarrow>
   radix128_descend m key msk i bt node nxt = Some (i, bt, node, nxt)"
  by (subst radix128_descend.simps) (simp add: rd_def)

lemma walk_Some_later: "walk m bs n (Some n) = (rest, node, None) \<Longrightarrow> rest \<noteq> []"
proof (induction bs arbitrary: n)
  case (Cons b bs)
  then show ?case by (auto split: option.splits)
qed simp

lemma radix128_descend_walk:
  assumes len: "16 \<le> length key" "16 \<le> length msk"
  shows "i < 16 \<Longrightarrow> walk m (path128 key msk i bt) node nxt = (rest, node', nxt') \<Longrightarrow>
    \<exists>i' bt'. radix128_descend m key msk i bt node nxt = Some (i', bt', node', nxt') \<and>
      (rest \<noteq> [] \<longrightarrow> i' < 16 \<and> path128 key msk i' bt' = rest)"
proof (induction i bt arbitrary: node nxt rule: bits_induct [where msk = msk])
  case (stop i bt)
  then show ?case using len by (simp add: radix128_descend_stop path128_stop)
next
  case (step i bt)
  obtain i1 bt1 where nb: "next_bit i bt = (i1, bt1)" by fastforce
  let ?b = "key ! i AND bt \<noteq> 0"
  have path: "path128 key msk i bt = ?b # path128 key msk i1 bt1"
    using path128_step [OF step(1,2), of key] nb by simp
  have desc: "radix128_descend m key msk i bt node nxt =
    (case child m ?b node of
       None \<Rightarrow> Some (i, bt, node, None)
     | Some n \<Rightarrow> if i1 = 16 then Some (16, drop_bit 1 bt, n, Some n)
                 else radix128_descend m key msk i1 bt1 n (Some n))"
    using len step(1,2) nb by (intro radix128_descend_step) auto
  show ?case
  proof (cases "child m ?b node")
    case None
    then show ?thesis using step.prems path desc step(1) by auto
  next
    case (Some n)
    then have w: "walk m (path128 key msk i1 bt1) n (Some n) = (rest, node', nxt')"
      using step.prems path by simp
    show ?thesis
    proof (cases "i1 < 16")
      case True
      then show ?thesis using step.IH [OF nb True w] desc Some by simp
    next
      case False
      then have "i1 = 16" using nb step(1) next_bit_end by blast
      then show ?thesis using w desc Some by auto
    qed
  qed
qed


lemma radix128_extend_grow:
  assumes len: "16 \<le> length key" "16 \<le> length msk"
  shows "i < 16 \<Longrightarrow> radix128_extend key msk i bt node tree = Some (grow (path128 key msk i bt) node tree)"
proof (induction i bt arbitrary: node tree rule: bits_induct [where msk = msk])
  case (stop i bt)
  then show ?case
    using len by (subst radix128_extend.simps) (simp add: rd_def path128_stop)
next
  case (step i bt)
  obtain i1 bt1 where nb: "next_bit i bt = (i1, bt1)" by fastforce
  let ?b = "key ! i AND bt \<noteq> 0"
  have path: "path128 key msk i bt = ?b # path128 key msk i1 bt1"
    using path128_step [OF step(1,2), of key] nb by simp
  have rec: "(if i1 = 16 then Some (tr, Some n) else radix128_extend key msk i1 bt1 n tr) =
      Some (grow (path128 key msk i1 bt1) n tr)" for tr n
    using step.IH [OF nb, of n tr] next_bit_end [OF nb step(1)] by (cases "i1 < 16") auto
  have "radix128_extend key msk i bt node tree =
    (case ngx_radix_alloc tree of
       (tree, None) \<Rightarrow> Some (tree, None)
     | (tree, Some n) \<Rightarrow>
         if i1 = 16 then Some (add_child ?b node n tree, Some n)
         else radix128_extend key msk i1 bt1 n (add_child ?b node n tree))"
    using len step(1,2) nb
    by (subst radix128_extend.simps)
       (auto simp: rd_def add_child_def next_bit_def Let_def split: prod.splits option.splits if_splits)
  then show ?case
    by (simp add: path rec split: prod.splits option.splits)
qed

lemma ngx_radix128tree_insert_path:
  assumes len: "16 \<le> length key" "16 \<le> length msk"
  shows "ngx_radix128tree_insert tree key msk v = Some (path_insert tree (path128 key msk 0 0x80) v)"
proof -
  let ?m = "rt_mem tree" and ?a = "rt_root tree"
  obtain rest node nxt where w: "walk ?m (path128 key msk 0 0x80) ?a (Some ?a) = (rest, node, nxt)"
    by (metis prod_cases3)
  then obtain i bt where d: "radix128_descend ?m key msk 0 0x80 ?a (Some ?a) = Some (i, bt, node, nxt)"
    and r: "rest \<noteq> [] \<Longrightarrow> i < 16 \<and> path128 key msk i bt = rest"
    using radix128_descend_walk [OF len, of 0] by fastforce
  show ?thesis
  proof (cases nxt)
    case None
    then have "rest \<noteq> []" using w walk_Some_later by blast
    then show ?thesis
      using None w d r radix128_extend_grow [OF len, of i bt node tree]
      by (simp add: ngx_radix128tree_insert_def path_insert_def set_value_def split: prod.splits option.splits)
  next
    case (Some n)
    then show ?thesis
      using w d by (simp add: ngx_radix128tree_insert_def path_insert_def set_value_def)
  qed
qed

lemma radix128_delete_descend_walk:
  assumes len: "16 \<le> length key" "16 \<le> length msk"
  shows "i < 16 \<Longrightarrow>
    radix128_delete_descend m key msk i bt node = Some (walk_delete m (path128 key msk i bt) node)"
proof (induction i bt arbitrary: node rule: bits_induct [where msk = msk])
  case (stop i bt)
  then show ?case
    using len by (cases node; subst radix128_delete_descend.simps) (simp_all add: rd_def path128_stop)
next
  case (step i bt)
  obtain i1 bt1 where nb: "next_bit i bt = (i1, bt1)" by fastforce
  let ?b = "key ! i AND bt \<noteq> 0"
  have path: "path128 key msk i bt = ?b # path128 key msk i1 bt1"
    using path128_step [OF step(1,2), of key] nb by simp
  have rec: "(if i1 = 16 then Some n else radix128_delete_descend m key msk i1 bt1 n) =
      Some (walk_delete m (path128 key msk i1 bt1) n)" for n
    using step.IH [OF nb, of n] next_bit_end [OF nb step(1)] by (cases "i1 < 16"; cases n) auto
  show ?case
  proof (cases node)
    case None
    then show ?thesis by (subst radix128_delete_descend.simps) simp
  next
    case (Some n)
    have "radix128_delete_descend m key msk i bt node =
       (if i1 = 16 then Some (child m ?b n) else radix128_delete_descend m key msk i1 bt1 (child m ?b n))"
      using len step(1,2) nb Some
      by (subst radix128_delete_descend.simps)
         (auto simp: rd_def child_def next_bit_def Let_def split: if_splits)
    then show ?thesis using path rec Some by simp
  qed
qed

section \<open>Lookup\<close>

definition bits128 :: "byte list \<Rightarrow> bool list" where
  "bits128 key = path128 key (replicate 16 (- 1)) 0 0x80"

lemma bits128_step:
  "i < 16 \<Longrightarrow> bt \<noteq> 0 \<Longrightarrow> next_bit i bt = (i', bt') \<Longrightarrow>
   path128 key (replicate 16 (- 1)) i bt =
     (key ! i AND bt \<noteq> 0) # path128 key (replicate 16 (- 1)) i' bt'"
  by (subst path128_step) auto

lemma next_bit_nonzero: "next_bit i bt = (i', bt') \<Longrightarrow> bt' \<noteq> 0"
  by (auto simp: next_bit_def split: if_splits)

lemma length_bits128: "length (bits128 key) = 128"
  by (simp add: bits128_def path128.simps)

lemma path128_take:
  "i < 16 \<Longrightarrow> \<exists>n. path128 key msk i bt = take n (path128 key (replicate 16 (- 1)) i bt)"
proof (induction i bt rule: bits_induct [where msk = msk])
  case (stop i bt)
  then show ?case by (intro exI [of _ 0]) (simp add: path128_stop)
next
  case (step i bt)
  obtain i1 bt1 where nb: "next_bit i bt = (i1, bt1)" by fastforce
  have "\<exists>n. path128 key msk i1 bt1 = take n (path128 key (replicate 16 (- 1)) i1 bt1)"
    using step.IH [OF nb] next_bit_end [OF nb step(1)] by (cases "i1 < 16") auto
  then obtain n where "path128 key msk i1 bt1 = take n (path128 key (replicate 16 (- 1)) i1 bt1)" ..
  moreover have "bt \<noteq> 0" using step(2) by auto
  ultimately show ?case
    using path128_step [OF step(1,2), of key] bits128_step [OF step(1) _ nb, of key] nb
    by (intro exI [of _ "Suc n"]) simp
qed

lemma length_path128: "length (path128 key msk 0 0x80) \<le> 128"
  using path128_take [of 0 key msk "0x80"] length_bits128 [of key] by (auto simp: bits128_def)

lemma radix128_find_loop_step:
  "i < length key \<Longrightarrow> next_bit i bt = (i', bt') \<Longrightarrow>
   radix128_find_loop m key i bt d (Some n) =
     radix128_find_loop m key i' bt' (if rn_value (m n) \<noteq> NGX_RADIX_NO_VALUE then rn_value (m n) else d)
       (child m (key ! i AND bt \<noteq> 0) n)"
  by (subst radix128_find_loop.simps) (auto simp: child_def next_bit_def Let_def split: if_splits)

lemma radix128_find_loop_rfind:
  assumes len: "16 \<le> length key"
  shows "rep m par t \<Longrightarrow> i \<le> 16 \<Longrightarrow> bt \<noteq> 0 \<Longrightarrow>
    height t \<le> Suc (length (path128 key (replicate 16 (- 1)) i bt)) \<Longrightarrow>
    radix128_find_loop m key i bt d (ptr t) =
      (if 17 \<le> length key \<or> addr_at (path128 key (replicate 16 (- 1)) i bt) t = None
       then Some (rfind (path128 key (replicate 16 (- 1)) i bt) d t) else None)"
proof (induction t arbitrary: par i bt d)
  case RNil
  then show ?case by (simp add: radix128_find_loop.simps)
next
  case (RNode a v l r)
  obtain i1 bt1 where nb: "next_bit i bt = (i1, bt1)" by fastforce
  show ?case
  proof (cases "i = 16")
    case True
    then have [simp]: "l = RNil" "r = RNil" using RNode.prems by (cases l; cases r; simp)+
    show ?thesis
    proof (cases "17 \<le> length key")
      case True
      then show ?thesis
        using \<open>i = 16\<close> nb RNode.prems(1)
        by (simp add: radix128_find_loop_step child_def radix128_find_loop.simps [of _ _ i1])
    next
      case False
      then have "length key = 16" using len by simp
      then show ?thesis using \<open>i = 16\<close> by (simp add: radix128_find_loop.simps)
    qed
  next
    case False
    then have i: "i < 16" using RNode.prems by simp
    let ?b = "key ! i AND bt \<noteq> 0"
    have path: "path128 key (replicate 16 (- 1)) i bt = ?b # path128 key (replicate 16 (- 1)) i1 bt1"
      using bits128_step [OF i RNode.prems(3) nb] by simp
    have i1: "i1 \<le> 16" "bt1 \<noteq> 0"
      using next_bit_end [OF nb i] next_bit_nonzero [OF nb] by linarith+
    have m: "m a = \<lparr>rn_right = ptr r, rn_left = ptr l, rn_parent = par, rn_value = v\<rparr>"
      using RNode.prems by simp
    have "radix128_find_loop m key i bt d (ptr (RNode a v l r)) =
      radix128_find_loop m key i1 bt1 (if v \<noteq> NGX_RADIX_NO_VALUE then v else d) (ptr (if ?b then r else l))"
      using len i nb m by (simp add: radix128_find_loop_step child_def)
    then show ?thesis
      using RNode.prems RNode.IH [OF _ i1, of "Some a"] path by (cases ?b) simp_all
  qed
qed

end
