(* ===== verification/Ngx_Radix_Delete.thy ===== *)
theory Ngx_Radix_Delete
  imports Ngx_Radix_Tree
begin

text \<open>
  Deletion from the radix trees of src/core/ngx_radix_tree.c. The code clears the value of an
  inner node, and removes a leaf together with the ancestors that it leaves without a value and
  without children, by climbing the parent pointers and pushing every node on the free list. The
  climbing loop is related to a recursion from the root.
\<close>

section \<open>The functional counterpart of the climbing loop\<close>

fun subtree :: "bool list \<Rightarrow> rtree \<Rightarrow> rtree" where
  "subtree [] t = t"
| "subtree (b # bs) t = subtree bs (sub b t)"

definition is_leaf :: "rtree \<Rightarrow> bool" where
  "is_leaf t \<longleftrightarrow> (\<exists>x v. t = RNode x v RNil RNil)"

fun rprune :: "bool list \<Rightarrow> rtree \<Rightarrow> rtree" where
  "rprune bs RNil = RNil"
| "rprune [] (RNode a v l r) = RNil"
| "rprune (b # bs) (RNode a v l r) =
     (case upd b (rprune bs (sub b (RNode a v l r))) (RNode a v l r) of
        RNode a v RNil RNil \<Rightarrow> if v = NGX_RADIX_NO_VALUE then RNil else RNode a v RNil RNil
      | t \<Rightarrow> t)"

lemma sub_upd: "t \<noteq> RNil \<Longrightarrow> sub b' (upd b c t) = (if b' = b then c else sub b' t)"
  by (cases t) auto

lemma subtree_RNil [simp]: "subtree bs RNil = RNil"
  by (induction bs) auto

lemma addr_at_subtree: "addr_at bs t = ptr (subtree bs t)"
  by (induction bs t rule: addr_at.induct) auto

lemma rget_subtree: "rget bs t = rget [] (subtree bs t)"
  by (induction bs t rule: rget.induct) auto

lemma rget_leaf_other: "p \<noteq> [] \<Longrightarrow> rget p (RNode a v RNil RNil) = NGX_RADIX_NO_VALUE"
  by (cases p) auto

lemma rget_upd: "t \<noteq> RNil \<Longrightarrow>
  rget p (upd b c t) = (case p of [] \<Rightarrow> rget [] t | b' # p' \<Rightarrow> if b' = b then rget p' c else rget p t)"
  by (cases t; cases p) auto

lemma rprune_Cons:
  "t \<noteq> RNil \<Longrightarrow> rprune (b # bs) t = upd b (rprune bs (sub b t)) t \<or>
     rprune (b # bs) t = RNil \<and>
       (\<exists>a. upd b (rprune bs (sub b t)) t = RNode a NGX_RADIX_NO_VALUE RNil RNil)"
  by (cases t) (auto split: rtree.splits)

lemma rget_rprune:
  "is_leaf (subtree bs t) \<Longrightarrow> rget p (rprune bs t) = (if p = bs then NGX_RADIX_NO_VALUE else rget p t)"
proof (induction bs arbitrary: t p)
  case Nil
  then show ?case by (auto simp: is_leaf_def rget_leaf_other)
next
  case (Cons b bs)
  then have t: "t \<noteq> RNil" "is_leaf (subtree bs (sub b t))" by (auto simp: is_leaf_def)
  let ?u = "upd b (rprune bs (sub b t)) t"
  have u: "rget p ?u = (if p = b # bs then NGX_RADIX_NO_VALUE else rget p t)"
    using t Cons.IH [OF t(2)] by (cases t; cases p) auto
  have "rget p (rprune (b # bs) t) = rget p ?u"
    using rprune_Cons [OF t(1), of b bs] by auto
  with u show ?case by simp
qed

lemma height_upd: "height c \<le> height (sub b t) \<Longrightarrow> height (upd b c t) \<le> height t"
  by (cases t; cases b) auto

lemma height_rprune: "height (rprune bs t) \<le> height t"
proof (induction bs arbitrary: t)
  case Nil
  then show ?case by (cases t) auto
next
  case (Cons b bs)
  show ?case
  proof (cases "t = RNil")
    case False
    then show ?thesis
      using rprune_Cons [OF False, of b bs] height_upd [OF Cons.IH, of b t] by auto
  qed simp
qed

lemma ptr_rprune: "rprune bs t \<noteq> RNil \<Longrightarrow> ptr (rprune bs t) = ptr t"
  by (cases "(bs, t)" rule: rprune.cases) (auto split: rtree.splits if_splits)

lemma walk_delete_addr_at: "rep m par t \<Longrightarrow> walk_delete m bs (ptr t) = addr_at bs t"
proof (induction bs arbitrary: t par)
  case Nil
  then show ?case by (cases t) auto
next
  case (Cons b bs)
  then show ?case by (cases t) (auto simp: child_def split: if_splits)
qed

section \<open>One round of the loop\<close>

definition unlink :: "bool \<Rightarrow> addr \<Rightarrow> addr \<Rightarrow> ngx_radix_tree_t \<Rightarrow> ngx_radix_tree_t" where
  "unlink b a c tr =
     (let tr = (if b then set_node a (rt_mem tr a\<lparr>rn_right := None\<rparr>) tr
                else set_node a (rt_mem tr a\<lparr>rn_left := None\<rparr>) tr)
      in set_node c (rt_mem tr c\<lparr>rn_right := rt_free tr\<rparr>) tr\<lparr>rt_free := Some c\<rparr>)"

text \<open>What a run below \<open>t\<close> achieves: the new tree, the frame, and that no node is lost.\<close>

definition pruned :: "ngx_radix_tree_t \<Rightarrow> addr option \<Rightarrow> rtree \<Rightarrow> addr list
    \<Rightarrow> ngx_radix_tree_t \<Rightarrow> rtree \<Rightarrow> bool" where
  "pruned tr par t av tr' t' \<longleftrightarrow>
     rep (rt_mem tr') par t' \<and> rt_root tr' = rt_root tr \<and>
     (\<forall>y. y \<notin> set (addrs t) \<longrightarrow> rt_mem tr' y = rt_mem tr y) \<and>
     (\<exists>av'. heap_ok tr' av' \<and> mset (addrs t' @ av') = mset (addrs t @ av))"

lemma heap_ok_push:
  assumes "heap_ok tr av" "c \<notin> set av"
  shows "heap_ok (set_node c (n\<lparr>rn_right := rt_free tr\<rparr>) tr\<lparr>rt_free := Some c\<rparr>) (c # av)"
proof -
  obtain fs where fs: "flist (rt_mem tr) (rt_free tr) fs" "av = fs @ fresh_nodes tr"
    and sz: "node_size \<le> rt_pagesize tr"
    using assms by (auto simp: heap_ok_def)
  have "flist ((rt_mem tr)(c := n\<lparr>rn_right := rt_free tr\<rparr>)) (rt_free tr) fs"
    using fs assms(2) by (subst flist_cong [where m = "rt_mem tr"]) auto
  then show ?thesis
    using sz fs(2) by (auto simp: heap_ok_def set_node_def fresh_nodes_def intro!: exI [of _ "c # fs"])
qed

lemma rep_unlink:
  assumes rep: "rep m par t" and t: "ptr t = Some a" "sub b t = RNode c w RNil RNil"
    and d: "distinct (addrs t)"
    and new: "m' a = (if b then m a\<lparr>rn_right := None\<rparr> else m a\<lparr>rn_left := None\<rparr>)"
    and same: "\<And>y. y \<noteq> a \<Longrightarrow> y \<noteq> c \<Longrightarrow> m' y = m y"
  shows "rep m' par (upd b RNil t)"
proof -
  obtain v l r where tr: "t = RNode a v l r" using t(1) by (cases t) auto
  have "rep m' (Some a) (sub (\<not> b) t) = rep m (Some a) (sub (\<not> b) t)"
    using d t by (intro rep_cong same) (cases b; auto simp: tr)+
  then show ?thesis using rep new by (cases b) (auto simp: tr)
qed

lemma unlink_pruned:
  assumes rep: "rep (rt_mem tr) par t" and t: "ptr t = Some a" "sub b t = RNode c w RNil RNil"
    and heap: "heap_ok tr av" and d: "distinct (addrs t @ av)"
  shows "pruned tr par t av (unlink b a c tr) (upd b RNil t)"
proof -
  let ?tr = "unlink b a c tr"
  obtain v l r where tr: "t = RNode a v l r" using t(1) by (cases t) auto
  have ac: "a \<noteq> c" "a \<notin> set av" "c \<notin> set av" "c \<in> set (addrs t)"
    using d t by (auto simp: tr split: if_splits)
  have mem: "rt_mem ?tr a = (if b then rt_mem tr a\<lparr>rn_right := None\<rparr> else rt_mem tr a\<lparr>rn_left := None\<rparr>)"
    "\<And>y. y \<noteq> a \<Longrightarrow> y \<noteq> c \<Longrightarrow> rt_mem ?tr y = rt_mem tr y" "rt_root ?tr = rt_root tr"
    using ac(1) by (auto simp: unlink_def Let_def)
  have "rep (rt_mem ?tr) par (upd b RNil t)"
    using rep_unlink [OF rep t _ mem(1,2)] d by auto
  moreover have "heap_ok ?tr (c # av)"
    unfolding unlink_def Let_def using ac heap by (intro heap_ok_push) auto
  moreover have "mset (addrs (upd b RNil t) @ c # av) = mset (addrs t @ av)"
    using mset_addrs_upd [of t b RNil] t by (simp add: tr)
  moreover have "rt_mem ?tr y = rt_mem tr y" if "y \<notin> set (addrs t)" for y
    using that ac mem(2) tr by auto
  ultimately show ?thesis unfolding pruned_def using mem(3) by blast
qed

lemma radix_prune_step:
  assumes rep: "rep (rt_mem tr) par t" and t: "ptr t = Some a" "sub b t = RNode c w RNil RNil"
    and d: "distinct (addrs t)"
  shows "radix_prune c tr =
    (if par = None \<or> \<not> (\<exists>a. upd b RNil t = leaf a) then Some (unlink b a c tr)
     else radix_prune a (unlink b a c tr))"
proof -
  obtain v l r where tr: "t = RNode a v l r" using t(1) by (cases t) auto
  have c: "rn_parent (rt_mem tr c) = Some a" and ac: "a \<noteq> c"
    using rep t d by (auto simp: tr split: if_splits)
  have m: "rt_mem tr a = \<lparr>rn_right = ptr r, rn_left = ptr l, rn_parent = par, rn_value = v\<rparr>"
    using rep by (simp add: tr)
  have right: "rn_right (rt_mem tr a) = Some c \<longleftrightarrow> b"
    using t d m by (cases b; cases r) (auto simp: tr)
  have after: "rn_right (rt_mem (unlink b a c tr) a) = (if b then None else ptr r)"
      "rn_left (rt_mem (unlink b a c tr) a) = (if b then ptr l else None)"
      "rn_value (rt_mem (unlink b a c tr) a) = v" "rn_parent (rt_mem (unlink b a c tr) a) = par"
    using ac m by (auto simp: unlink_def Let_def)
  have "radix_prune c tr =
    (let tree = unlink b a c tr
     in if rn_right (rt_mem tree a) \<noteq> None \<or> rn_left (rt_mem tree a) \<noteq> None then Some tree
        else if rn_value (rt_mem tree a) \<noteq> NGX_RADIX_NO_VALUE then Some tree
        else if rn_parent (rt_mem tree a) = None then Some tree
        else radix_prune a tree)"
    by (subst radix_prune.simps) (simp add: c right unlink_def Let_def)
  then show ?thesis
    unfolding Let_def after by (auto simp: tr)
qed

section \<open>The whole climb\<close>

lemma pruned_refl: "rep (rt_mem tr) par t \<Longrightarrow> heap_ok tr av \<Longrightarrow> pruned tr par t av tr t"
  by (auto simp: pruned_def)

lemma pruned_trans:
  assumes 1: "pruned tr par t av tr1 t1" and 2: "\<And>av1. heap_ok tr1 av1 \<Longrightarrow>
      mset (addrs t1 @ av1) = mset (addrs t @ av) \<Longrightarrow> pruned tr1 par t1 av1 tr2 t2"
    and sub: "set (addrs t1) \<subseteq> set (addrs t)"
  shows "pruned tr par t av tr2 t2"
proof -
  obtain av1 where av1: "heap_ok tr1 av1" "mset (addrs t1 @ av1) = mset (addrs t @ av)"
    using 1 by (auto simp: pruned_def)
  note p = 2 [OF this]
  obtain av2 where "heap_ok tr2 av2" "mset (addrs t2 @ av2) = mset (addrs t1 @ av1)"
    using p by (auto simp: pruned_def)
  with 1 p sub av1 show ?thesis unfolding pruned_def by (metis subset_iff)
qed

lemma pruned_sub:
  assumes p: "pruned tr (Some a) (sub b t) av tr' c" and c: "ptr c = ptr (sub b t)"
    and t: "rep (rt_mem tr) par t" "ptr t = Some a" and d: "distinct (addrs t)"
  shows "pruned tr par t av tr' (upd b c t)"
proof -
  obtain v l r where tr: "t = RNode a v l r" using t(2) by (cases t) auto
  obtain av' where av': "heap_ok tr' av'" "mset (addrs c @ av') = mset (addrs (sub b t) @ av)"
    using p by (auto simp: pruned_def)
  have "rep (rt_mem tr') par (upd b c t)"
    using p c d by (intro rep_upd_sub [OF t]) (auto simp: pruned_def)
  moreover have "mset (addrs (upd b c t) @ av') = mset (addrs t @ av)"
  proof -
    have "mset (addrs (upd b c t)) + mset av' + mset (addrs (sub b t)) =
        mset (addrs t) + (mset (addrs c) + mset av')"
      using mset_addrs_upd [of t b c] tr by (metis add.assoc add.commute rtree.distinct(1))
    also have "mset (addrs c) + mset av' = mset (addrs (sub b t)) + mset av" using av'(2) by simp
    finally have "mset (addrs (upd b c t)) + mset av' + mset (addrs (sub b t)) =
        mset (addrs t) + mset av + mset (addrs (sub b t))"
      by (simp only: ac_simps)
    then show ?thesis by simp
  qed
  moreover have "set (addrs (sub b t)) \<subseteq> set (addrs t)" by (auto simp: tr)
  ultimately show ?thesis using p av' unfolding pruned_def by blast
qed

lemma set_addrs_upd_RNil: "set (addrs (upd b RNil t)) \<subseteq> set (addrs t)"
  by (cases t) auto

text \<open>
  Climbing from the leaf at \<open>bs\<close> below the child \<open>b\<close> of the node \<open>a\<close> either ends at an ancestor that
  stays, or leaves the node \<open>a\<close> itself without a child, ready to be removed in the next round.
\<close>

lemma radix_prune_climb:
  assumes "rep (rt_mem tr) par t" "ptr t = Some a" "heap_ok tr av" "distinct (addrs t @ av)"
    and "is_leaf (subtree (b # bs) t)" "addr_at (b # bs) t = Some x"
  shows "\<exists>tr'. let t' = upd b (rprune bs (sub b t)) t in pruned tr par t av tr' t' \<and>
    radix_prune x tr =
      (if par \<noteq> None \<and> (\<exists>a. t' = leaf a) then radix_prune a tr' else Some tr')"
  using assms
proof (induction bs arbitrary: tr par t a av b)
  case Nil
  then obtain c w where c: "sub b t = RNode c w RNil RNil" by (auto simp: is_leaf_def)
  then have "x = c" using Nil.prems by (cases t) auto
  then show ?case
    using unlink_pruned [OF Nil.prems(1,2) c Nil.prems(3,4)] c
      radix_prune_step [OF Nil.prems(1,2) c] Nil.prems(4)
    by (intro exI [of _ "unlink b a c tr"]) auto
next
  case (Cons b' bs)
  let ?c = "sub b t" and ?c' = "upd b' (rprune bs (sub b' (sub b t))) (sub b t)"
  obtain v l r where t: "t = RNode a v l r" using Cons.prems(2) by (cases t) auto
  obtain c where c: "ptr ?c = Some c"
    using Cons.prems(5) by (cases ?c) (auto simp: is_leaf_def)
  then have crep: "rep (rt_mem tr) (Some a) ?c" "distinct (addrs ?c @ av)" "?c \<noteq> RNil"
    and cat: "is_leaf (subtree (b' # bs) ?c)" "addr_at (b' # bs) ?c = Some x"
    using Cons.prems by (auto simp: t split: if_splits)
  obtain tr1 where p1: "pruned tr (Some a) ?c av tr1 ?c'" and
    r1: "radix_prune x tr = (if \<exists>a. ?c' = leaf a then radix_prune c tr1 else Some tr1)"
    using Cons.IH [OF crep(1) c Cons.prems(3) crep(2) cat] by (auto simp: Let_def)
  have pc: "ptr ?c' = ptr ?c" by (cases ?c) auto
  have p1': "pruned tr par t av tr1 (upd b ?c' t)"
    using pruned_sub [OF p1 pc Cons.prems(1,2)] Cons.prems(4) by simp
  show ?case
  proof (cases "\<exists>a. ?c' = leaf a")
    case False
    then have "rprune (b' # bs) ?c = ?c'" using rprune_Cons [OF crep(3), of b' bs] by auto
    moreover have "\<not> (\<exists>a. upd b ?c' t = leaf a)"
      using c pc by (cases ?c') (auto simp: t)
    ultimately show ?thesis using p1' r1 False by (intro exI [of _ tr1]) simp
  next
    case True
    then have lf: "?c' = leaf c" using pc c by auto
    let ?t1 = "upd b (leaf c) t"
    have gone: "rprune (b' # bs) ?c = RNil" using lf crep(3) by (cases ?c) auto
    have t1: "rep (rt_mem tr1) par ?t1" "ptr ?t1 = Some a" "sub b ?t1 = RNode c (- 1) RNil RNil"
      using p1' lf by (auto simp: pruned_def t)
    obtain av1 where av1: "heap_ok tr1 av1" "mset (addrs ?t1 @ av1) = mset (addrs t @ av)"
      using p1' lf by (auto simp: pruned_def)
    have dist: "distinct (addrs ?t1 @ av1)"
      if "mset (addrs ?t1 @ av1) = mset (addrs t @ av)" for av1
      using mset_eq_imp_distinct_iff [OF that] Cons.prems(4) by blast
    have addrs_t1: "set (addrs ?t1) \<subseteq> set (addrs t)"
      using c by (cases ?c; cases b) (auto simp: t)
    have "pruned tr par t av (unlink b a c tr1) (upd b RNil ?t1)"
      by (intro pruned_trans [OF p1' [unfolded lf]] unlink_pruned [OF t1] dist addrs_t1)
    moreover have "upd b RNil ?t1 = upd b RNil t" by (simp add: t)
    moreover have "radix_prune x tr = radix_prune c tr1" using r1 True by simp
    ultimately show ?thesis
      using radix_prune_step [OF t1] dist [OF av1(2)] gone
      by (intro exI [of _ "unlink b a c tr1"]) auto
  qed
qed

lemma rep_children:
  "rep m par t \<Longrightarrow> addr_at bs t = Some x \<Longrightarrow>
   (rn_right (m x) \<noteq> None \<or> rn_left (m x) \<noteq> None) \<longleftrightarrow> \<not> is_leaf (subtree bs t)"
proof (induction bs arbitrary: t par)
  case Nil
  then show ?case by (cases t) (auto simp: is_leaf_def)
next
  case (Cons b bs)
  then show ?case by (cases t) (auto split: if_splits)
qed

lemma radix_inv_pruned:
  assumes inv: "radix_inv tr t av" and p: "pruned tr None t av tr' t'" and "ptr t' = ptr t"
  shows "\<exists>av'. radix_inv tr' t' av'"
proof -
  obtain av' where av': "heap_ok tr' av'" "mset (addrs t' @ av') = mset (addrs t @ av)"
    using p by (auto simp: pruned_def)
  moreover have "distinct (addrs t' @ av')"
    using mset_eq_imp_distinct_iff [OF av'(2)] inv by (auto simp: radix_inv_def)
  ultimately show ?thesis using inv p assms(3) by (auto simp: radix_inv_def pruned_def)
qed

lemma radix_inv_set_value:
  assumes inv: "radix_inv tr t av" and x: "addr_at bs t = Some x"
  shows "radix_inv (set_value x v tr) (rset bs v t) av"
proof -
  have "x \<notin> set av" using inv addr_at_addrs [OF x] by (auto simp: radix_inv_def)
  then show ?thesis
    using inv x rep_set_value [where m' = "rt_mem (set_value x v tr)" and x = x and m = "rt_mem tr"
        and v = v and par = None and t = t and bs = bs]
    by (simp add: radix_inv_def set_value_def)
qed

text \<open>
  Deletion along a path: it removes the value, fails only where there is none, and keeps every other
  value. The root, when it is a leaf, has no parent to unlink it from.
\<close>

definition path_delete :: "ngx_radix_tree_t \<Rightarrow> bool list \<Rightarrow> (ngx_int_t \<times> ngx_radix_tree_t) option" where
  "path_delete tr bs = radix_delete_node tr (walk_delete (rt_mem tr) bs (Some (rt_root tr)))"

lemma path_delete_spec:
  assumes inv: "radix_inv tr t av" and root: "bs \<noteq> [] \<or> \<not> is_leaf t"
  shows "\<exists>rc tr' t' av'. path_delete tr bs = Some (rc, tr') \<and> radix_inv tr' t' av' \<and>
    height t' \<le> height t \<and>
    (rc = NGX_OK \<and> (\<forall>p. rget p t' = (if p = bs then NGX_RADIX_NO_VALUE else rget p t)) \<or>
     rc = NGX_ERROR \<and> rget bs t = NGX_RADIX_NO_VALUE \<and> (\<forall>p. rget p t' = rget p t))"
proof -
  have I: "ptr t = Some (rt_root tr)" "rep (rt_mem tr) None t" "heap_ok tr av" "distinct (addrs t @ av)"
    using inv by (auto simp: radix_inv_def)
  have del: "path_delete tr bs = radix_delete_node tr (addr_at bs t)"
    using walk_delete_addr_at [OF I(2), of bs] I(1) by (simp add: path_delete_def)
  show ?thesis
  proof (cases "addr_at bs t")
    case None
    then show ?thesis
      using inv addr_at_None_rget [OF None] del by (fastforce simp: radix_delete_node_def)
  next
    case (Some x)
    note kids = rep_children [OF I(2) Some] and val = rep_node [OF I(2) Some]
    show ?thesis
    proof (cases "is_leaf (subtree bs t)")
      case False
      show ?thesis
      proof (cases "rget bs t = NGX_RADIX_NO_VALUE")
        case True
        then show ?thesis
          using inv del Some kids val False by (fastforce simp: radix_delete_node_def)
      next
        case novalue: False
        then have "path_delete tr bs = Some (NGX_OK, set_value x NGX_RADIX_NO_VALUE tr)"
          using del Some kids val False by (auto simp: radix_delete_node_def set_value_def)
        then show ?thesis
          using radix_inv_set_value [OF inv Some] Some by (fastforce simp: rget_rset)
      qed
    next
      case True
      then obtain b bs' where bs: "bs = b # bs'" using root by (cases bs) auto
      let ?t = "upd b (rprune bs' (sub b t)) t"
      obtain tr' where p: "pruned tr None t av tr' ?t" "radix_prune x tr = Some tr'"
        using radix_prune_climb [OF I(2,1,3,4)] True Some bs by (fastforce simp: Let_def)
      have t: "t \<noteq> RNil" "is_leaf (subtree bs' (sub b t))"
        using Some True bs by (auto simp: is_leaf_def)
      have "ptr ?t = ptr t" by (cases t) auto
      then obtain av' where "radix_inv tr' ?t av'"
        using radix_inv_pruned [OF inv p(1)] by blast
      moreover have "path_delete tr bs = Some (NGX_OK, tr')"
        using del Some kids True p(2) by (auto simp: radix_delete_node_def)
      moreover have "rget q ?t = (if q = bs then NGX_RADIX_NO_VALUE else rget q t)" for q
        using t rget_rprune [OF t(2)] by (cases t; cases q) (auto simp: bs)
      ultimately show ?thesis
        using height_upd [OF height_rprune] by blast
    qed
  qed
qed

lemma path_delete_root_leaf:
  "radix_inv tr t av \<Longrightarrow> is_leaf t \<Longrightarrow> path_delete tr [] = None"
  by (auto simp: path_delete_def radix_inv_def is_leaf_def radix_delete_node_def radix_prune.simps)

end
