(* ===== verification/Ngx_Radix_Table.thy ===== *)
theory Ngx_Radix_Table
  imports Ngx_Radix_128 Ngx_Radix_Delete
begin

text \<open>
  What the radix trees promise their clients: a table from bit prefixes to values, with lookup by
  the longest prefix. The interface is the locale \<open>prefix_table\<close>; it is interpreted for the 32-bit
  and for the 128-bit operations of src/core/ngx_radix_tree.c. Its client in this development is
  \<open>ngx_http_geo_cidr_add\<close> of src/http/modules/ngx_http_geo_module.c.
\<close>

section \<open>The client\<close>

datatype cidr = AF_INET u32 u32 | AF_INET6 "byte list" "byte list"

record ngx_http_geo_conf_ctx_t =
  geo_tree :: ngx_radix_tree_t
  geo_tree6 :: ngx_radix_tree_t

datatype conf_rv = NGX_CONF_OK | NGX_CONF_ERROR

text \<open>
  The code has this sequence of calls once per address family. The list is what is logged: the old
  value of a duplicate network. The value is the pointer \<open>ngx_http_geo_value\<close> returned.
\<close>

definition geo_add ::
    "('t \<Rightarrow> 'k \<Rightarrow> 'k \<Rightarrow> u64 \<Rightarrow> (ngx_int_t \<times> 't) option) \<Rightarrow> ('t \<Rightarrow> 'k \<Rightarrow> u64 option) \<Rightarrow>
     ('t \<Rightarrow> 'k \<Rightarrow> 'k \<Rightarrow> (ngx_int_t \<times> 't) option) \<Rightarrow> 't \<Rightarrow> 'k \<Rightarrow> 'k \<Rightarrow> u64 \<Rightarrow>
     (conf_rv \<times> u64 list \<times> 't) option" where
  "geo_add ins fnd del tree addr msk val = do {
     (rc, tree) \<leftarrow> ins tree addr msk val;
     if rc = NGX_OK then Some (NGX_CONF_OK, [], tree)
     else if rc = NGX_ERROR then Some (NGX_CONF_ERROR, [], tree)
     else do {
       old \<leftarrow> fnd tree addr;
       (rc, tree) \<leftarrow> del tree addr msk;
       if rc = NGX_ERROR then Some (NGX_CONF_ERROR, [old], tree)
       else do {
         (rc, tree) \<leftarrow> ins tree addr msk val;
         if rc = NGX_OK then Some (NGX_CONF_OK, [old], tree)
         else Some (NGX_CONF_ERROR, [old], tree)
       }
     }
   }"

definition ngx_http_geo_cidr_add ::
    "ngx_http_geo_conf_ctx_t \<Rightarrow> cidr \<Rightarrow> u64 option
       \<Rightarrow> (conf_rv \<times> u64 list \<times> ngx_http_geo_conf_ctx_t) option" where
  "ngx_http_geo_cidr_add ctx cidr val =
     (case val of
        None \<Rightarrow> Some (NGX_CONF_ERROR, [], ctx)
      | Some val \<Rightarrow>
          (case cidr of
             AF_INET6 addr msk \<Rightarrow> do {
               (rv, old, tree) \<leftarrow> geo_add ngx_radix128tree_insert ngx_radix128tree_find
                 ngx_radix128tree_delete (geo_tree6 ctx) addr msk val;
               Some (rv, old, ctx\<lparr>geo_tree6 := tree\<rparr>)
             }
           | AF_INET addr msk \<Rightarrow> do {
               (rv, old, tree) \<leftarrow> geo_add (\<lambda>t k m v. Some (ngx_radix32tree_insert t k m v))
                 ngx_radix32tree_find ngx_radix32tree_delete (geo_tree ctx) addr msk val;
               Some (rv, old, ctx\<lparr>geo_tree := tree\<rparr>)
             }))"

section \<open>The interface\<close>

abbreviation (input) no_value :: "bool list \<Rightarrow> u64" where "no_value \<equiv> \<lambda>p. NGX_RADIX_NO_VALUE"

locale prefix_table =
  fixes tab :: "'t \<Rightarrow> (bool list \<Rightarrow> u64) \<Rightarrow> bool"
    and valid :: "'k \<Rightarrow> bool"
    and path :: "'k \<Rightarrow> 'k \<Rightarrow> bool list"
    and bits :: "'k \<Rightarrow> bool list"
    and ins :: "'t \<Rightarrow> 'k \<Rightarrow> 'k \<Rightarrow> u64 \<Rightarrow> (ngx_int_t \<times> 't) option"
    and del :: "'t \<Rightarrow> 'k \<Rightarrow> 'k \<Rightarrow> (ngx_int_t \<times> 't) option"
    and fnd :: "'t \<Rightarrow> 'k \<Rightarrow> u64 option"
  assumes ins_law: "tab tr M \<Longrightarrow> valid k \<Longrightarrow> valid m \<Longrightarrow>
      \<exists>rc tr' M'. ins tr k m v = Some (rc, tr') \<and> tab tr' M' \<and>
        (rc = NGX_BUSY \<and> M (path k m) \<noteq> NGX_RADIX_NO_VALUE \<and> M' = M \<or>
         rc = NGX_ERROR \<and> M (path k m) = NGX_RADIX_NO_VALUE \<and> M' = M \<or>
         rc = NGX_OK \<and> M (path k m) = NGX_RADIX_NO_VALUE \<and> M' = M(path k m := v))"
    and del_law: "tab tr M \<Longrightarrow> valid k \<Longrightarrow> valid m \<Longrightarrow> path k m \<noteq> [] \<Longrightarrow>
      \<exists>rc tr' M'. del tr k m = Some (rc, tr') \<and> tab tr' M' \<and>
        (rc = NGX_OK \<and> M' = M(path k m := NGX_RADIX_NO_VALUE) \<or>
         rc = NGX_ERROR \<and> M (path k m) = NGX_RADIX_NO_VALUE \<and> M' = M)"
    and fnd_law: "tab tr M \<Longrightarrow> valid k \<Longrightarrow> fnd tr k = Some (lpm M NGX_RADIX_NO_VALUE (bits k))"
begin

lemma geo_add_replaces:
  assumes tab: "tab tr M" and ok: "valid k" "valid m" "path k m \<noteq> []"
  shows "\<exists>rv old tr' M'. geo_add ins fnd del tr k m v = Some (rv, old, tr') \<and> tab tr' M' \<and>
    (\<forall>p. p \<noteq> path k m \<longrightarrow> M' p = M p) \<and> (rv = NGX_CONF_OK \<longrightarrow> M' (path k m) = v) \<and>
    old = (if M (path k m) = NGX_RADIX_NO_VALUE then [] else [lpm M NGX_RADIX_NO_VALUE (bits k)])"
proof -
  obtain rc tr1 M1 where 1: "ins tr k m v = Some (rc, tr1)" "tab tr1 M1"
    and c1: "rc = NGX_BUSY \<and> M (path k m) \<noteq> NGX_RADIX_NO_VALUE \<and> M1 = M \<or>
       rc = NGX_ERROR \<and> M (path k m) = NGX_RADIX_NO_VALUE \<and> M1 = M \<or>
       rc = NGX_OK \<and> M (path k m) = NGX_RADIX_NO_VALUE \<and> M1 = M(path k m := v)"
    using ins_law [OF tab ok(1,2)] by blast
  show ?thesis
  proof (cases "M (path k m) = NGX_RADIX_NO_VALUE")
    case True
    with 1 c1 show ?thesis by (auto simp: geo_add_def)
  next
    case False
    then have b: "rc = NGX_BUSY" "M1 = M" using c1 by auto
    then have f: "fnd tr1 k = Some (lpm M NGX_RADIX_NO_VALUE (bits k))"
      using fnd_law [OF 1(2) ok(1)] by simp
    obtain tr2 where 2: "del tr1 k m = Some (NGX_OK, tr2)" "tab tr2 (M(path k m := NGX_RADIX_NO_VALUE))"
      using del_law [OF 1(2) ok] b False by auto
    obtain rc3 tr3 M3 where 3: "ins tr2 k m v = Some (rc3, tr3)" "tab tr3 M3"
      and c3: "rc3 = NGX_ERROR \<and> M3 = M(path k m := NGX_RADIX_NO_VALUE) \<or>
        rc3 = NGX_OK \<and> M3 = M(path k m := v)"
      using ins_law [OF 2(2) ok(1,2), of v] by auto
    show ?thesis
      using 1 b f 2 3 c3 False by (auto simp: geo_add_def)
  qed
qed

end

section \<open>Both key widths provide it\<close>

definition radix_table :: "nat \<Rightarrow> ngx_radix_tree_t \<Rightarrow> (bool list \<Rightarrow> u64) \<Rightarrow> bool" where
  "radix_table width tr M \<longleftrightarrow>
     (\<exists>t av. radix_inv tr t av \<and> height t \<le> Suc width \<and> M = (\<lambda>p. rget p t))"

lemma radix_tableI: "radix_inv tr t av \<Longrightarrow> height t \<le> Suc width \<Longrightarrow> (\<And>p. M p = rget p t) \<Longrightarrow> radix_table width tr M"
  unfolding radix_table_def by blast

lemma path_insert_table:
  assumes "radix_table width tr M" "length bs \<le> width"
  shows "\<exists>rc tr' M'. path_insert tr bs v = (rc, tr') \<and> radix_table width tr' M' \<and>
        (rc = NGX_BUSY \<and> M bs \<noteq> NGX_RADIX_NO_VALUE \<and> M' = M \<or>
         rc = NGX_ERROR \<and> M bs = NGX_RADIX_NO_VALUE \<and> M' = M \<or>
         rc = NGX_OK \<and> M bs = NGX_RADIX_NO_VALUE \<and> M' = M(bs := v))"
proof -
  obtain t av where t: "radix_inv tr t av" "height t \<le> Suc width" "M = (\<lambda>p. rget p t)"
    using assms(1) by (auto simp: radix_table_def)
  obtain rc tr' where r: "path_insert tr bs v = (rc, tr')" by fastforce
  obtain t' av' where t': "radix_inv tr' t' av'" "height t' \<le> max (height t) (Suc (length bs))"
    and c: "rc = NGX_BUSY \<and> rget bs t \<noteq> NGX_RADIX_NO_VALUE \<and> (\<forall>p. rget p t' = rget p t) \<or>
     rc = NGX_ERROR \<and> rget bs t = NGX_RADIX_NO_VALUE \<and> (\<forall>p. rget p t' = rget p t) \<or>
     rc = NGX_OK \<and> rget bs t = NGX_RADIX_NO_VALUE \<and>
       (\<forall>p. rget p t' = (if p = bs then v else rget p t))"
    using path_insert_spec [OF t(1) r] by blast
  have "radix_table width tr' (\<lambda>p. rget p t')"
    using t' t(2) assms(2) by (intro radix_tableI) auto
  with r c t(3) show ?thesis by (intro exI [of _ rc] exI [of _ tr'] exI [of _ "\<lambda>p. rget p t'"]) (auto simp: fun_eq_iff)
qed

lemma path_delete_table:
  assumes "radix_table width tr M" "bs \<noteq> []"
  shows "\<exists>rc tr' M'. path_delete tr bs = Some (rc, tr') \<and> radix_table width tr' M' \<and>
        (rc = NGX_OK \<and> M' = M(bs := NGX_RADIX_NO_VALUE) \<or>
         rc = NGX_ERROR \<and> M bs = NGX_RADIX_NO_VALUE \<and> M' = M)"
proof -
  obtain t av where t: "radix_inv tr t av" "height t \<le> Suc width" "M = (\<lambda>p. rget p t)"
    using assms(1) by (auto simp: radix_table_def)
  obtain rc tr' t' av' where t': "path_delete tr bs = Some (rc, tr')" "radix_inv tr' t' av'"
    "height t' \<le> height t"
    and c: "rc = NGX_OK \<and> (\<forall>p. rget p t' = (if p = bs then NGX_RADIX_NO_VALUE else rget p t)) \<or>
     rc = NGX_ERROR \<and> rget bs t = NGX_RADIX_NO_VALUE \<and> (\<forall>p. rget p t' = rget p t)"
    using path_delete_spec [OF t(1)] assms(2) by blast
  have "radix_table width tr' (\<lambda>p. rget p t')"
    using t' t(2) by (intro radix_tableI) auto
  with t'(1) c t(3) show ?thesis
    by (intro exI [of _ rc] exI [of _ tr'] exI [of _ "\<lambda>p. rget p t'"]) (auto simp: fun_eq_iff)
qed

lemma ngx_radix32tree_delete_path:
  "ngx_radix32tree_delete tr key msk = path_delete tr (path32 key msk 0x80000000)"
  by (simp add: ngx_radix32tree_delete_def path_delete_def radix32_delete_descend_walk)

lemma ngx_radix128tree_delete_path:
  "16 \<le> length key \<Longrightarrow> 16 \<le> length msk \<Longrightarrow>
   ngx_radix128tree_delete tr key msk = path_delete tr (path128 key msk 0 0x80)"
  by (simp add: ngx_radix128tree_delete_def path_delete_def radix128_delete_descend_walk)

lemma ngx_radix32tree_find_table:
  assumes "radix_table 32 tr M"
  shows "ngx_radix32tree_find tr key = Some (lpm M NGX_RADIX_NO_VALUE (bits32 key))"
proof -
  obtain t av where t: "radix_inv tr t av" "height t \<le> Suc 32" "M = (\<lambda>p. rget p t)"
    using assms by (auto simp: radix_table_def)
  then show ?thesis
    using radix32_find_loop_rfind [of "rt_mem tr" None t key "0x80000000" "NGX_RADIX_NO_VALUE"]
    by (simp add: ngx_radix32tree_find_def radix_inv_def bits32_def [symmetric] rfind_lpm length_bits32)
qed

lemma ngx_radix128tree_find_table:
  assumes "radix_table 128 tr M" "17 \<le> length key"
  shows "ngx_radix128tree_find tr key = Some (lpm M NGX_RADIX_NO_VALUE (bits128 key))"
proof -
  obtain t av where t: "radix_inv tr t av" "height t \<le> Suc 128" "M = (\<lambda>p. rget p t)"
    using assms by (auto simp: radix_table_def)
  then show ?thesis
    using radix128_find_loop_rfind [of key "rt_mem tr" None t 0 "0x80" "NGX_RADIX_NO_VALUE"] assms(2)
    by (simp add: ngx_radix128tree_find_def radix_inv_def bits128_def [symmetric] rfind_lpm length_bits128)
qed

text \<open>
  A width of keys provides the table when its operations are the path algorithms.
\<close>

locale path_table =
  fixes width :: nat
    and valid :: "'k \<Rightarrow> bool"
    and path :: "'k \<Rightarrow> 'k \<Rightarrow> bool list"
    and bits :: "'k \<Rightarrow> bool list"
    and ins :: "ngx_radix_tree_t \<Rightarrow> 'k \<Rightarrow> 'k \<Rightarrow> u64 \<Rightarrow> (ngx_int_t \<times> ngx_radix_tree_t) option"
    and del :: "ngx_radix_tree_t \<Rightarrow> 'k \<Rightarrow> 'k \<Rightarrow> (ngx_int_t \<times> ngx_radix_tree_t) option"
    and fnd :: "ngx_radix_tree_t \<Rightarrow> 'k \<Rightarrow> u64 option"
  assumes path_le: "length (path k m) \<le> width"
    and ins_path: "valid k \<Longrightarrow> valid m \<Longrightarrow> ins tr k m v = Some (path_insert tr (path k m) v)"
    and del_path: "valid k \<Longrightarrow> valid m \<Longrightarrow> del tr k m = path_delete tr (path k m)"
    and fnd_lpm: "radix_table width tr M \<Longrightarrow> valid k \<Longrightarrow>
      fnd tr k = Some (lpm M NGX_RADIX_NO_VALUE (bits k))"

sublocale path_table \<subseteq> prefix_table "radix_table width" valid path bits ins del fnd
proof unfold_locales
  fix tr M k m v
  assume "radix_table width tr M" "valid k" "valid m"
  then show "\<exists>rc tr' M'. ins tr k m v = Some (rc, tr') \<and> radix_table width tr' M' \<and>
        (rc = NGX_BUSY \<and> M (path k m) \<noteq> NGX_RADIX_NO_VALUE \<and> M' = M \<or>
         rc = NGX_ERROR \<and> M (path k m) = NGX_RADIX_NO_VALUE \<and> M' = M \<or>
         rc = NGX_OK \<and> M (path k m) = NGX_RADIX_NO_VALUE \<and> M' = M(path k m := v))"
    using path_insert_table [OF _ path_le, of tr M k m v] by (simp add: ins_path)
next
  fix tr M k m
  assume "radix_table width tr M" "valid k" "valid m" "path k m \<noteq> []"
  then show "\<exists>rc tr' M'. del tr k m = Some (rc, tr') \<and> radix_table width tr' M' \<and>
        (rc = NGX_OK \<and> M' = M(path k m := NGX_RADIX_NO_VALUE) \<or>
         rc = NGX_ERROR \<and> M (path k m) = NGX_RADIX_NO_VALUE \<and> M' = M)"
    using path_delete_table [of width tr M "path k m"] by (simp add: del_path)
qed (rule fnd_lpm)

interpretation t32: path_table 32 "\<lambda>key. True" "\<lambda>key msk. path32 key msk 0x80000000"
  bits32 "\<lambda>t k m v. Some (ngx_radix32tree_insert t k m v)" ngx_radix32tree_delete ngx_radix32tree_find
  by unfold_locales
    (simp_all add: length_path32 ngx_radix32tree_insert_path ngx_radix32tree_delete_path
      ngx_radix32tree_find_table)

interpretation t128: path_table 128 "\<lambda>key. 17 \<le> length key" "\<lambda>key msk. path128 key msk 0 0x80"
  bits128 ngx_radix128tree_insert ngx_radix128tree_delete ngx_radix128tree_find
  by unfold_locales
    (simp_all add: length_path128 ngx_radix128tree_insert_path ngx_radix128tree_delete_path
      ngx_radix128tree_find_table)

section \<open>Network masks\<close>

text \<open>A mask of \<open>n\<close> leading ones selects the first \<open>n\<close> bits of the key.\<close>

definition netmask32 :: "nat \<Rightarrow> u32" where
  "netmask32 n = - (2 ^ (32 - n))"

lemma path32_netmask:
  assumes "n \<le> 32"
  shows "path32 key (netmask32 n) 0x80000000 = take n (bits32 key)"
proof -
  have "n \<in> {..<33}" using assms by simp
  then show ?thesis
    unfolding lessThan_nat_numeral pred_numeral_simps arith_simps lessThan_0
    by (elim insertE emptyE; simp add: netmask32_def bits32_def path32.simps)
qed

section \<open>Creation\<close>

lemma radix_table_mono: "radix_table w tr M \<Longrightarrow> w \<le> w' \<Longrightarrow> radix_table w' tr M"
  by (auto simp: radix_table_def)

lemma preallocate_one:
  assumes "radix_table 32 tr no_value" "ngx_radix32tree_insert tr key msk NGX_RADIX_NO_VALUE = (rc, tr')"
  shows "radix_table 32 tr' no_value"
proof -
  let ?bs = "path32 key msk 0x80000000"
  obtain rc2 tr2 M' where ins: "path_insert tr ?bs NGX_RADIX_NO_VALUE = (rc2, tr2)"
    and t2: "radix_table 32 tr2 M'"
    and M': "rc2 = NGX_BUSY \<and> NGX_RADIX_NO_VALUE \<noteq> NGX_RADIX_NO_VALUE \<and> M' = no_value \<or>
         rc2 = NGX_ERROR \<and> NGX_RADIX_NO_VALUE = NGX_RADIX_NO_VALUE \<and> M' = no_value \<or>
         rc2 = NGX_OK \<and> NGX_RADIX_NO_VALUE = NGX_RADIX_NO_VALUE \<and>
           M' = no_value(?bs := NGX_RADIX_NO_VALUE)"
    using path_insert_table [OF assms(1) length_path32, of key msk "NGX_RADIX_NO_VALUE"]
    by blast
  have "M' p = NGX_RADIX_NO_VALUE" for p using M' by (elim disjE) simp_all
  then have "M' = no_value" by (rule ext)
  moreover have "tr2 = tr'" using assms(2) ins by (simp add: ngx_radix32tree_insert_path)
  ultimately show ?thesis using t2 by simp
qed

lemma radix_preallocate_keys_returns:
  "radix_table 32 tr no_value \<Longrightarrow> i < 32 \<Longrightarrow> j < 2 ^ (32 - i) \<Longrightarrow> key = of_nat (j * 2 ^ i) \<Longrightarrow>
   \<exists>r. radix_preallocate_keys key msk (2 ^ i) tr = Some r \<and>
     (\<forall>tr'. r = Some tr' \<longrightarrow> radix_table 32 tr' no_value)"
proof (induction "2 ^ (32 - i) - j" arbitrary: j tr key)
  case 0
  then show ?case by simp
next
  case (Suc n)
  obtain rc tr1 where ins: "ngx_radix32tree_insert tr key msk NGX_RADIX_NO_VALUE = (rc, tr1)"
    by fastforce
  have t1: "radix_table 32 tr1 no_value" using preallocate_one [OF Suc.prems(1) ins] .
  have nxt: "key + 2 ^ i = of_nat ((j + 1) * 2 ^ i)" using Suc.prems(4) by (simp add: algebra_simps)
  have z: "key + 2 ^ i = 0" if "j + 1 = 2 ^ (32 - i)"
  proof -
    have "(j + 1) * 2 ^ i = (2 ^ 32 :: nat)"
      unfolding that using Suc.prems(2) by (simp flip: power_add)
    then show ?thesis unfolding nxt by simp
  qed
  show ?case
  proof (cases "rc \<noteq> NGX_OK \<or> key + 2 ^ i = 0")
    case True
    then show ?thesis
      using t1 by (subst radix_preallocate_keys.simps) (auto simp: ins)
  next
    case False
    then have lt: "j + 1 < 2 ^ (32 - i)" using z Suc.prems(3) by fastforce
    have "radix_preallocate_keys key msk (2 ^ i) tr = radix_preallocate_keys (key + 2 ^ i) msk (2 ^ i) tr1"
      using False by (subst radix_preallocate_keys.simps) (simp add: ins)
    moreover have "n = 2 ^ (32 - i) - (j + 1)" using Suc.hyps(2) by simp
    ultimately show ?thesis using Suc.hyps(1) [OF _ t1 Suc.prems(2) lt nxt] by simp
  qed
qed

lemma drop_bit_power: "drop_bit 1 (2 ^ i :: u32) = (if i = 0 then 0 else 2 ^ (i - 1))" if "i < 32"
  using that by (cases i) (auto intro!: bit_word_eqI simp: bit_simps)

lemma radix_preallocate_levels_returns:
  "radix_table 32 tr no_value \<Longrightarrow> inc = 0 \<or> (\<exists>i<32. inc = 2 ^ i) \<Longrightarrow>
   \<exists>r. radix_preallocate_levels n msk inc tr = Some r \<and>
     (\<forall>tr'. r = Some tr' \<longrightarrow> radix_table 32 tr' no_value)"
proof (induction n msk inc tr rule: radix_preallocate_levels.induct)
  case (1 n msk inc tr)
  let ?msk = "drop_bit 1 msk OR 0x80000000"
  have "\<exists>r. radix_preallocate_keys 0 ?msk inc tr = Some r \<and>
     (\<forall>tr'. r = Some tr' \<longrightarrow> radix_table 32 tr' no_value)"
  proof (cases "inc = 0")
    case True
    obtain rc tr1 where "ngx_radix32tree_insert tr 0 ?msk NGX_RADIX_NO_VALUE = (rc, tr1)" by fastforce
    with True show ?thesis
      using preallocate_one [OF "1.prems"(1)] by (subst radix_preallocate_keys.simps) auto
  next
    case False
    then show ?thesis
      using "1.prems" radix_preallocate_keys_returns [OF "1.prems"(1), of _ 0 0] by fastforce
  qed
  then obtain r where r: "radix_preallocate_keys 0 ?msk inc tr = Some r"
    "\<And>tr'. r = Some tr' \<Longrightarrow> radix_table 32 tr' no_value" by blast
  have inc: "drop_bit 1 inc = 0 \<or> (\<exists>i<32. drop_bit 1 inc = 2 ^ i)"
  proof (cases "inc = 0")
    case False
    then obtain i where "i < 32" "inc = 2 ^ i" using "1.prems"(2) by blast
    then show ?thesis using drop_bit_power [of i] by (cases i) (auto simp del: power_Suc intro: exI [of _ "i - 1"])
  qed simp
  show ?case
  proof (cases "n = 0 \<or> r = None")
    case True
    then show ?thesis
      using "1.prems" r by (subst radix_preallocate_levels.simps) (auto simp: Let_def)
  next
    case False
    then obtain tr1 where "r = Some tr1" by auto
    then show ?thesis
      using False r "1.IH" [OF _ refl r(1), of tr1] inc
      by (subst radix_preallocate_levels.simps) (auto simp: Let_def)
  qed
qed

definition pages_ok :: "ngx_radix_tree_t \<Rightarrow> bool" where
  "pages_ok tree \<longleftrightarrow> node_size \<le> rt_pagesize tree \<and>
     distinct (concat (map (\<lambda>p. nodes_in p (rt_pagesize tree)) (rt_pages tree)))"

lemma ngx_radix_tree_create_table:
  assumes "pages_ok tree"
  shows "\<exists>r. ngx_radix_tree_create tree preallocate = Some r \<and>
    (\<forall>tr. r = Some tr \<longrightarrow> radix_table 32 tr no_value) \<and>
    (preallocate = 0 \<longrightarrow> (r = None) = (rt_pages tree = []))"
proof -
  let ?tree = "tree\<lparr>rt_free := None, rt_start := 0, rt_size := 0\<rparr>"
  let ?av = "fresh_nodes ?tree"
  have av: "?av = concat (map (\<lambda>p. nodes_in p (rt_pagesize tree)) (rt_pages tree))"
    by (simp add: fresh_nodes_def nodes_in_small)
  have h: "heap_ok ?tree ?av" and d: "distinct ?av"
    using assms unfolding av by (auto simp: heap_ok_def pages_ok_def av intro!: exI [of _ "[]"])
  show ?thesis
  proof (cases ?av)
    case Nil
    then have "rt_pages tree = []"
      using assms nodes_in_step [of "rt_pagesize tree"]
      by (cases "rt_pages tree") (auto simp: av pages_ok_def)
    then show ?thesis
      using h Nil ngx_radix_alloc_NULL [of ?tree] by (simp add: ngx_radix_tree_create_def)
  next
    case (Cons root av)
    then obtain tr where tr: "ngx_radix_alloc ?tree = (tr, Some root)" "heap_ok tr av"
      using h ngx_radix_alloc_Some by metis
    let ?tr = "set_node root \<lparr>rn_right = None, rn_left = None, rn_parent = None,
                             rn_value = NGX_RADIX_NO_VALUE\<rparr> (tr\<lparr>rt_root := root\<rparr>)"
    have "heap_ok (tr\<lparr>rt_root := root\<rparr>) av"
      using tr(2) by (simp add: heap_ok_def fresh_nodes_def)
    then have "radix_inv ?tr (leaf root) av"
      using d Cons by (auto simp: radix_inv_def)
    then have t: "radix_table 32 ?tr no_value" by (rule radix_tableI) auto
    have ne: "rt_pages tree \<noteq> []" using Cons by (auto simp: av)
    have "\<exists>i<32. (0x80000000 :: u32) = 2 ^ i" by (rule exI [of _ 31]) simp
    then show ?thesis
      using t ne radix_preallocate_levels_returns [OF t, of "0x80000000"]
      by (cases "preallocate = 0") (auto simp: ngx_radix_tree_create_def tr(1) Let_def)
  qed
qed

section \<open>Properties\<close>

definition sample_tree :: ngx_radix_tree_t where
  "sample_tree = \<lparr>rt_root = 64, rt_pages = [128], rt_free = None, rt_start = 96, rt_size = 32,
     rt_pagesize = 64,
     rt_mem = (\<lambda>a. \<lparr>rn_right = None, rn_left = None, rn_parent = None, rn_value = NGX_RADIX_NO_VALUE\<rparr>)\<rparr>"

lemma sample_inv: "radix_inv sample_tree (leaf 64) [96, 128, 160]"
  by (simp add: radix_inv_def sample_tree_def heap_ok_def fresh_nodes_def nodes_in_def upt_rec)

lemma sample_table: "radix_table 32 sample_tree no_value" "radix_table 128 sample_tree no_value"
  by (rule radix_tableI [OF sample_inv]; simp)+

lemma lpm_cases:
  fixes bs :: "bool list" and M :: "bool list \<Rightarrow> u64"
  shows "lpm M NGX_RADIX_NO_VALUE bs = NGX_RADIX_NO_VALUE \<and>
      (\<forall>n \<le> length bs. M (take n bs) = NGX_RADIX_NO_VALUE) \<or>
    (\<exists>n \<le> length bs. lpm M NGX_RADIX_NO_VALUE bs = M (take n bs) \<and> M (take n bs) \<noteq> NGX_RADIX_NO_VALUE \<and>
      (\<forall>k \<le> length bs. n < k \<longrightarrow> M (take k bs) = NGX_RADIX_NO_VALUE))"
proof (cases "\<forall>n \<le> length bs. M (take n bs) = NGX_RADIX_NO_VALUE")
  case True
  then show ?thesis using lpm_default [of bs M] by blast
next
  case False
  let ?S = "{n. n \<le> length bs \<and> M (take n bs) \<noteq> NGX_RADIX_NO_VALUE}"
  define n where "n = Max ?S"
  have S: "finite ?S" "?S \<noteq> {}" using False by auto
  have n: "n \<in> ?S" "\<And>k. k \<in> ?S \<Longrightarrow> k \<le> n"
    unfolding n_def by (fact Max_in [OF S], fact Max_ge [OF S(1)])
  then have later: "M (take k bs) = NGX_RADIX_NO_VALUE" if "n < k" "k \<le> length bs" for k
    using that by fastforce
  then show ?thesis
    using n(1) lpm_longest [of n bs M "NGX_RADIX_NO_VALUE"] by blast
qed

text \<open>
  C36: \<open>ngx_radix32tree_find\<close> always returns; the value is that of the longest prefix of the key
  which the table holds, and NGX_RADIX_NO_VALUE when it holds none.
\<close>

theorem ngx_radix32tree_find_longest_prefix:
  assumes "radix_table 32 tr M"
  shows "\<exists>v. ngx_radix32tree_find tr key = Some v \<and>
    (v = NGX_RADIX_NO_VALUE \<and> (\<forall>n \<le> 32. M (take n (bits32 key)) = NGX_RADIX_NO_VALUE) \<or>
     (\<exists>n \<le> 32. v = M (take n (bits32 key)) \<and> v \<noteq> NGX_RADIX_NO_VALUE \<and>
        (\<forall>k \<le> 32. n < k \<longrightarrow> M (take k (bits32 key)) = NGX_RADIX_NO_VALUE)))"
  using lpm_cases [of M "bits32 key"] t32.fnd_law [OF assms TrueI, of key]
  unfolding length_bits32 by auto

theorem ngx_radix32tree_find_longest_prefix_witness:
  "\<exists>v. ngx_radix32tree_find sample_tree 0x0a000001 = Some v \<and> v = NGX_RADIX_NO_VALUE"
  using ngx_radix32tree_find_longest_prefix [OF sample_table(1), of "0x0a000001"] by auto



text \<open>
  The 128-bit operations implement the same table: insertion and deletion follow the bits of the
  key under the mask, and lookup returns the value of the longest prefix of the key in the table.
\<close>

theorem ngx_radix128tree_table:
  assumes tab: "radix_table 128 tr M" and len: "16 \<le> length key" "16 \<le> length msk"
    and p: "p = path128 key msk 0 0x80"
  shows "(\<exists>rc tr' M'. ngx_radix128tree_insert tr key msk v = Some (rc, tr') \<and> radix_table 128 tr' M' \<and>
        (rc = NGX_BUSY \<and> M p \<noteq> NGX_RADIX_NO_VALUE \<and> M' = M \<or>
         rc = NGX_ERROR \<and> M p = NGX_RADIX_NO_VALUE \<and> M' = M \<or>
         rc = NGX_OK \<and> M p = NGX_RADIX_NO_VALUE \<and> M' = M(p := v))) \<and>
    (p \<noteq> [] \<longrightarrow> (\<exists>rc tr' M'. ngx_radix128tree_delete tr key msk = Some (rc, tr') \<and> radix_table 128 tr' M' \<and>
        (rc = NGX_OK \<and> M' = M(p := NGX_RADIX_NO_VALUE) \<or>
         rc = NGX_ERROR \<and> M p = NGX_RADIX_NO_VALUE \<and> M' = M))) \<and>
    (17 \<le> length key \<longrightarrow>
       ngx_radix128tree_find tr key = Some (lpm M NGX_RADIX_NO_VALUE (bits128 key)))"
  using path_insert_table [OF tab length_path128, of key msk v]
    path_delete_table [OF tab, of "path128 key msk 0 0x80"] t128.fnd_law [OF tab, of key]
  by (simp only: p ngx_radix128tree_insert_path [OF len] ngx_radix128tree_delete_path [OF len]
      option.inject) blast

theorem ngx_radix128tree_table_witness:
  "ngx_radix128tree_find sample_tree (replicate 17 0x20) = Some NGX_RADIX_NO_VALUE \<and>
   (\<exists>rc tr' M'. ngx_radix128tree_insert sample_tree (replicate 17 0x20) (replicate 17 0x80) 7 = Some (rc, tr') \<and>
      radix_table 128 tr' M' \<and> rc \<noteq> NGX_BUSY)"
  using ngx_radix128tree_table [OF sample_table(2) _ _ refl, of "replicate 17 0x20" "replicate 17 0x80" 7]
  by (force simp: lpm_default)

text \<open>
  With a key of exactly the 16 bytes of an IPv6 address, \<open>ngx_radix128tree_find\<close> is right as long
  as the walk does not reach a node of depth 128; when the tree has that node, the loop reads the byte
  behind the key before it notices that the node has no children.
\<close>

theorem ngx_radix128tree_find_overread:
  assumes inv: "radix_inv tr t av" "height t \<le> 129" and len: "length key = 16"
  shows "ngx_radix128tree_find tr key =
    (if addr_at (bits128 key) t = None then Some (lpm (\<lambda>p. rget p t) NGX_RADIX_NO_VALUE (bits128 key))
     else None)"
  using radix128_find_loop_rfind [of key "rt_mem tr" None t 0 "0x80" "NGX_RADIX_NO_VALUE"] inv len
  by (simp add: ngx_radix128tree_find_def radix_inv_def bits128_def [symmetric] rfind_lpm length_bits128)

theorem ngx_radix128tree_find_overread_witness:
  "ngx_radix128tree_find sample_tree (replicate 16 0) = Some NGX_RADIX_NO_VALUE"
proof -
  have "bits128 (replicate 16 0) \<noteq> []" using length_bits128 [of "replicate 16 0"] by auto
  then have "addr_at (bits128 (replicate 16 0)) (leaf 64) = None" by (cases "bits128 (replicate 16 0)") auto
  then show ?thesis
    using ngx_radix128tree_find_overread [OF sample_inv, of "replicate 16 0"] by (simp add: lpm_default)
qed

text \<open>
  \<open>ngx_radix_tree_create\<close> returns for every amount of preallocation: NULL, or a well formed
  tree that holds no value. Without preallocation NULL means that there was no memory for the root.
\<close>

theorem ngx_radix_tree_create_empty:
  assumes "pages_ok tree"
  shows "\<exists>r. ngx_radix_tree_create tree preallocate = Some r \<and>
    (\<forall>tr. r = Some tr \<longrightarrow> radix_table 32 tr no_value \<and> radix_table 128 tr no_value) \<and>
    (preallocate = 0 \<longrightarrow> (r = None) = (rt_pages tree = []))"
  using ngx_radix_tree_create_table [OF assms, of preallocate] radix_table_mono [of 32 _ no_value 128]
  by auto

theorem ngx_radix_tree_create_empty_witness:
  "\<exists>tr. ngx_radix_tree_create sample_tree 0 = Some (Some tr) \<and> radix_table 32 tr no_value"
proof -
  have "pages_ok sample_tree"
    by (simp add: pages_ok_def sample_tree_def nodes_in_def upt_rec)
  then show ?thesis
    using ngx_radix_tree_create_empty [of sample_tree 0] by (auto simp: sample_tree_def)
qed

text \<open>
  Adding a network in \<open>ngx_http_geo_cidr_add\<close> replaces an older value of the same network and
  changes no other entry. The old value it reports is the value of the longest prefix of the network's
  address, which is another network's value when a longer prefix of that address is in the table.
\<close>

theorem ngx_http_geo_cidr_add_replaces:
  assumes tab: "radix_table 32 (geo_tree ctx) M" and n: "0 < n" "n \<le> 32" and p: "p = take n (bits32 key)"
  shows "\<exists>rv old ctx' M'. ngx_http_geo_cidr_add ctx (AF_INET key (netmask32 n)) (Some v) =
      Some (rv, old, ctx') \<and> geo_tree6 ctx' = geo_tree6 ctx \<and> radix_table 32 (geo_tree ctx') M' \<and>
    (\<forall>q. q \<noteq> p \<longrightarrow> M' q = M q) \<and> (rv = NGX_CONF_OK \<longrightarrow> M' p = v) \<and>
    old = (if M p = NGX_RADIX_NO_VALUE then [] else [lpm M NGX_RADIX_NO_VALUE (bits32 key)])"
proof -
  have path: "path32 key (netmask32 n) 0x80000000 = p" using path32_netmask [OF n(2)] p by simp
  have "p \<noteq> []" using n p length_bits32 [of key] by (cases "bits32 key") auto
  then show ?thesis
    using t32.geo_add_replaces [OF tab TrueI TrueI, of key "netmask32 n" v] unfolding path
    by (auto simp: ngx_http_geo_cidr_add_def)
qed

theorem ngx_http_geo_cidr_add_replaces_witness:
  "\<exists>rv old ctx' M'. ngx_http_geo_cidr_add \<lparr>geo_tree = sample_tree, geo_tree6 = sample_tree\<rparr>
      (AF_INET 0x0a000000 (netmask32 8)) (Some 7) = Some (rv, old, ctx') \<and>
    radix_table 32 (geo_tree ctx') M' \<and> old = []"
  using ngx_http_geo_cidr_add_replaces
    [of "\<lparr>geo_tree = sample_tree, geo_tree6 = sample_tree\<rparr>", OF _ _ _ refl, of no_value 8 "0x0a000000" 7]
    sample_table(1) by auto

text \<open>Deleting the network of prefix length 0 from a tree that is only its root dereferences NULL.\<close>

lemma ngx_radix32tree_delete_root_leaf:
  "radix_inv tr (RNode a v RNil RNil) av \<Longrightarrow> ngx_radix32tree_delete tr key 0 = None"
  using path_delete_root_leaf [of tr "RNode a v RNil RNil" av]
  by (simp add: ngx_radix32tree_delete_path path32.simps is_leaf_def)

end
