(* ===== verification/Byte_Machine.thy ===== *)
theory Byte_Machine
  imports Ngx_Prelude
begin

text \<open>
  The shape of the incremental parsers of src/http/ngx_http_parse.c: a loop
  \<open>for (p = b->pos; p < b->last; p++)\<close> around a switch over the state. A case ends with \<open>break\<close>
  (\<open>Next\<close>), with \<open>p--; break\<close> (\<open>Redo\<close>: the same byte is read again in the new state), or leaves
  the loop through a label or a return (\<open>Exit\<close>). The result of the loop is \<open>None\<close> when a byte
  outside of the buffer is read or when the loop does not end; otherwise it has the label
  (\<open>None\<close> for the end of the data), the position and the state.
\<close>

datatype ('x, 's) action = Next 's | Redo 's | Exit 'x 's

type_synonym ('x, 's) stepper = "byte list \<Rightarrow> nat \<Rightarrow> byte \<Rightarrow> 's \<Rightarrow> ('x, 's) action"

partial_function (option) machine ::
    "('x, 's) stepper \<Rightarrow> byte list \<Rightarrow> nat \<Rightarrow> nat \<Rightarrow> 's \<Rightarrow> ('x option \<times> nat \<times> 's) option" where
  "machine stp buf stop p s =
     (if p < stop then
        (case rd buf p of
           None \<Rightarrow> None
         | Some c \<Rightarrow>
             (case stp buf p c s of
                Next s' \<Rightarrow> machine stp buf stop (p + 1) s'
              | Redo s' \<Rightarrow> machine stp buf stop p s'
              | Exit x s' \<Rightarrow> Some (Some x, p, s')))
      else Some (None, p, s))"

text \<open>The bytes \<open>xs\<close> are the next ones of the data.\<close>

definition avail :: "byte list \<Rightarrow> nat \<Rightarrow> nat \<Rightarrow> byte list \<Rightarrow> bool" where
  "avail buf stop p xs \<longleftrightarrow> p + length xs \<le> stop \<and> stop \<le> length buf \<and> take (length xs) (drop p buf) = xs"

lemma avail_Cons:
  "avail buf stop p (x # xs) \<longleftrightarrow> p < stop \<and> stop \<le> length buf \<and> buf ! p = x \<and> avail buf stop (Suc p) xs"
proof (cases "p < length buf")
  case True
  then show ?thesis by (auto simp: avail_def Cons_nth_drop_Suc [symmetric])
qed (auto simp: avail_def)

lemma avail_append:
  "avail buf stop p (xs @ ys) \<longleftrightarrow> avail buf stop p xs \<and> avail buf stop (p + length xs) ys"
  by (induction xs arbitrary: p) (auto simp: avail_Cons, auto simp: avail_def)

lemma avail_take: "avail buf stop p xs \<Longrightarrow> take (length xs) (drop p buf) = xs"
  by (simp add: avail_def)

text \<open>
  What the loop relies on: a re-read byte is consumed in the end, and a case looks only at bytes that
  were received, up to the current one.
\<close>

locale byte_machine =
  fixes stp :: "('x, 's) stepper"
    and rank :: "'s \<Rightarrow> nat"
  assumes redo_rank: "stp buf p c s = Redo s' \<Longrightarrow> rank s' < rank s"
    and local: "take p buf = take p buf' \<Longrightarrow> stp buf p c s = stp buf' p c s"
begin

lemma machine_stop [simp]: "\<not> p < stop \<Longrightarrow> machine stp buf stop p s = Some (None, p, s)"
  by (subst machine.simps) simp

lemma machine_step:
  "p < stop \<Longrightarrow> p < length buf \<Longrightarrow>
   machine stp buf stop p s =
     (case stp buf p (buf ! p) s of
        Next s' \<Rightarrow> machine stp buf stop (p + 1) s'
      | Redo s' \<Rightarrow> machine stp buf stop p s'
      | Exit x s' \<Rightarrow> Some (Some x, p, s'))"
  by (subst machine.simps) simp

lemma machine_induct [case_names stop step]:
  assumes stop: "\<And>p s. \<not> p < stop \<Longrightarrow> P p s"
    and step: "\<And>p s. p < stop \<Longrightarrow>
      (\<And>s'. stp buf p (buf ! p) s = Next s' \<Longrightarrow> P (p + 1) s') \<Longrightarrow>
      (\<And>s'. stp buf p (buf ! p) s = Redo s' \<Longrightarrow> P p s') \<Longrightarrow> P p s"
  shows "P p s"
proof (induction "(p, s)" arbitrary: p s
    rule: wf_induct_rule [OF wf_measures [of "[\<lambda>(p, s). stop - p, \<lambda>(p, s). rank s]"]])
  case less: 1
  show ?case
  proof (cases "p < stop")
    case True
    show ?thesis
    proof (rule step [OF True])
      show "P (p + 1) s'" for s' using diff_less_mono2 [OF lessI True] by (intro less) simp
      show "P p s'" if "stp buf p (buf ! p) s = Redo s'" for s'
        using redo_rank [OF that] by (intro less) simp
    qed
  qed (rule stop)
qed

text \<open>The loop ends, and stays inside of the buffer.\<close>

lemma machine_total:
  "stop \<le> length buf \<Longrightarrow> p \<le> stop \<Longrightarrow>
   \<exists>x q s'. machine stp buf stop p s = Some (x, q, s') \<and> p \<le> q \<and> (if x = None then q = stop else q < stop)"
proof (induction p s rule: machine_induct [where stop = stop and buf = buf])
  case (step p s)
  then show ?case
    by (cases "stp buf p (buf ! p) s") (fastforce simp: machine_step)+
qed simp

text \<open>
  Parsing does not depend on how the input is split: what a call returns on the first part of the
  data, and what a later call makes of its saved state, is what one call on all of the data returns.
\<close>

lemma machine_split:
  "m \<le> stop \<Longrightarrow> stop \<le> length buf \<Longrightarrow> m \<le> length buf1 \<Longrightarrow> take m buf1 = take m buf \<Longrightarrow> p \<le> m \<Longrightarrow>
   machine stp buf1 m p s = Some (x, q, s') \<Longrightarrow>
   machine stp buf stop p s = (if x = None then machine stp buf stop m s' else Some (x, q, s'))"
proof (induction p s rule: machine_induct [where stop = m and buf = buf1])
  case (stop p s)
  then show ?case by simp
next
  case (step p s)
  have "buf ! p = buf1 ! p"
    using step.hyps step.prems(4) by (metis nth_take)
  moreover have "take p buf = take p buf1"
    using step.hyps step.prems(4) by (metis min.absorb1 less_imp_le take_take)
  ultimately have eq: "stp buf p (buf ! p) s = stp buf1 p (buf1 ! p) s" using local by metis
  have "machine stp buf stop p s =
     (case stp buf1 p (buf1 ! p) s of
        Next s' \<Rightarrow> machine stp buf stop (p + 1) s'
      | Redo s' \<Rightarrow> machine stp buf stop p s'
      | Exit x s' \<Rightarrow> Some (Some x, p, s'))"
    using step.hyps step.prems by (simp add: machine_step eq)
  then show ?case
    using step by (cases "stp buf1 p (buf1 ! p) s") (auto simp: machine_step)
qed

text \<open>An invariant of the cases is an invariant of the loop.\<close>

lemma machine_invariant:
  assumes inv: "\<And>p s. I p s \<Longrightarrow> p < stop \<Longrightarrow>
      (case stp buf p (buf ! p) s of Next s' \<Rightarrow> I (p + 1) s' | Redo s' \<Rightarrow> I p s' | Exit x s' \<Rightarrow> J x p s')"
    and "stop \<le> length buf" "I p s" "p \<le> stop" "machine stp buf stop p s = Some (x, q, s')"
  shows "case x of None \<Rightarrow> I q s' | Some l \<Rightarrow> J l q s'"
  using assms(2-)
proof (induction p s rule: machine_induct [where stop = stop and buf = buf])
  case (stop p s)
  then show ?case by auto
next
  case (step p s)
  then show ?case
    using inv [of p s] by (cases "stp buf p (buf ! p) s") (auto simp: machine_step)
qed

lemma machine_avail:
  "avail buf stop p (x # xs) \<Longrightarrow>
   machine stp buf stop p s =
     (case stp buf p x s of
        Next s' \<Rightarrow> machine stp buf stop (Suc p) s'
      | Redo s' \<Rightarrow> machine stp buf stop p s'
      | Exit x s' \<Rightarrow> Some (Some x, p, s'))"
  using machine_step [of p stop buf s] by (auto simp: avail_Cons split: action.splits)

text \<open>Reading a block of bytes that keep the machine going.\<close>

lemma machine_block:
  assumes step: "\<And>p x s. x \<in> set xs \<Longrightarrow> I s \<Longrightarrow> \<exists>s'. stp buf p x s = Next s' \<and> I s' \<and> R s s'"
    and refl: "\<And>s. R s s" and trans: "\<And>s s' s''. R s s' \<Longrightarrow> R s' s'' \<Longrightarrow> R s s''"
  shows "avail buf stop p xs \<Longrightarrow> I s \<Longrightarrow>
    \<exists>s'. machine stp buf stop p s = machine stp buf stop (p + length xs) s' \<and> I s' \<and> R s s'"
  using step
proof (induction xs arbitrary: p s)
  case Nil
  then show ?case using refl by auto
next
  case (Cons x xs)
  obtain s1 where s1: "stp buf p x s = Next s1" "I s1" "R s s1" using Cons.prems by force
  have "avail buf stop (Suc p) xs" using Cons.prems(1) by (simp add: avail_Cons)
  then obtain s2 where s2: "machine stp buf stop (Suc p) s1 = machine stp buf stop (Suc p + length xs) s2"
      "I s2" "R s1 s2"
    using Cons.IH [of "Suc p" s1] s1(2) Cons.prems(3) by (meson list.set_intros(2))
  have "machine stp buf stop p s = machine stp buf stop (Suc p) s1"
    using machine_avail [OF Cons.prems(1), of s] s1(1) by simp
  then show ?case using s1 s2 trans by (metis add_Suc_shift length_Cons)
qed

text \<open>A block whose effect is a fold.\<close>

lemma machine_fold:
  assumes step: "\<And>p x s. x \<in> set xs \<Longrightarrow> stp buf p x (f s) = Next (f (g x s))"
  shows "avail buf stop p xs \<Longrightarrow>
    machine stp buf stop p (f s) = machine stp buf stop (p + length xs) (f (fold g xs s))"
  using step
proof (induction xs arbitrary: p s)
  case (Cons x xs)
  then have "machine stp buf stop p (f s) = machine stp buf stop (Suc p) (f (g x s))"
    using machine_avail [OF Cons.prems(1)] by simp
  with Cons show ?case by (simp add: avail_Cons)
qed simp

end

end
