(* ===== verification/Ngx_Http_Request.thy ===== *)
theory Ngx_Http_Request
  imports Byte_Machine
begin

text \<open>
  The request record and the constants that the parsers of src/http/ngx_http_parse.c share
  (src/http/ngx_http_request.h). A pointer into the request buffer is an index, NULL is \<open>None\<close>; the
  16-bit fields of the version are words of that width. The member \<open>state\<close> is an argument of each
  parser of its own, because every parser stores its own enumeration there.
\<close>

section \<open>Constants\<close>

abbreviation (input) NGX_HTTP_PARSE_HEADER_DONE :: ngx_int_t where "NGX_HTTP_PARSE_HEADER_DONE \<equiv> 1"
abbreviation (input) NGX_HTTP_PARSE_INVALID_METHOD :: ngx_int_t where "NGX_HTTP_PARSE_INVALID_METHOD \<equiv> 10"
abbreviation (input) NGX_HTTP_PARSE_INVALID_REQUEST :: ngx_int_t where "NGX_HTTP_PARSE_INVALID_REQUEST \<equiv> 11"
abbreviation (input) NGX_HTTP_PARSE_INVALID_09_METHOD :: ngx_int_t where "NGX_HTTP_PARSE_INVALID_09_METHOD \<equiv> 12"
abbreviation (input) NGX_HTTP_PARSE_INVALID_HEADER :: ngx_int_t where "NGX_HTTP_PARSE_INVALID_HEADER \<equiv> 13"

abbreviation (input) NGX_HTTP_UNKNOWN :: ngx_uint_t where "NGX_HTTP_UNKNOWN \<equiv> 0x0001"
abbreviation (input) NGX_HTTP_GET :: ngx_uint_t where "NGX_HTTP_GET \<equiv> 0x0002"
abbreviation (input) NGX_HTTP_HEAD :: ngx_uint_t where "NGX_HTTP_HEAD \<equiv> 0x0004"
abbreviation (input) NGX_HTTP_POST :: ngx_uint_t where "NGX_HTTP_POST \<equiv> 0x0008"
abbreviation (input) NGX_HTTP_PUT :: ngx_uint_t where "NGX_HTTP_PUT \<equiv> 0x0010"
abbreviation (input) NGX_HTTP_DELETE :: ngx_uint_t where "NGX_HTTP_DELETE \<equiv> 0x0020"
abbreviation (input) NGX_HTTP_MKCOL :: ngx_uint_t where "NGX_HTTP_MKCOL \<equiv> 0x0040"
abbreviation (input) NGX_HTTP_COPY :: ngx_uint_t where "NGX_HTTP_COPY \<equiv> 0x0080"
abbreviation (input) NGX_HTTP_MOVE :: ngx_uint_t where "NGX_HTTP_MOVE \<equiv> 0x0100"
abbreviation (input) NGX_HTTP_OPTIONS :: ngx_uint_t where "NGX_HTTP_OPTIONS \<equiv> 0x0200"
abbreviation (input) NGX_HTTP_PROPFIND :: ngx_uint_t where "NGX_HTTP_PROPFIND \<equiv> 0x0400"
abbreviation (input) NGX_HTTP_PROPPATCH :: ngx_uint_t where "NGX_HTTP_PROPPATCH \<equiv> 0x0800"
abbreviation (input) NGX_HTTP_LOCK :: ngx_uint_t where "NGX_HTTP_LOCK \<equiv> 0x1000"
abbreviation (input) NGX_HTTP_UNLOCK :: ngx_uint_t where "NGX_HTTP_UNLOCK \<equiv> 0x2000"
abbreviation (input) NGX_HTTP_PATCH :: ngx_uint_t where "NGX_HTTP_PATCH \<equiv> 0x4000"
abbreviation (input) NGX_HTTP_TRACE :: ngx_uint_t where "NGX_HTTP_TRACE \<equiv> 0x8000"

abbreviation (input) CR :: byte where "CR \<equiv> 13"
abbreviation (input) LF :: byte where "LF \<equiv> 10"
abbreviation (input) SP :: byte where "SP \<equiv> 32"

section \<open>Records\<close>

type_synonym ptr = "nat option"

record ngx_buf_t =
  buf_mem :: "byte list"
  buf_pos :: nat
  buf_last :: nat

record ngx_http_request_t =
  r_method :: ngx_uint_t
  r_http_version :: nat
  r_http_protocol :: ptr
  r_complex_uri :: bool
  r_quoted_uri :: bool
  r_plus_in_uri :: bool
  r_space_in_uri :: bool
  r_uri_start :: ptr
  r_uri_end :: ptr
  r_uri_ext :: ptr
  r_args_start :: ptr
  r_request_start :: ptr
  r_request_end :: ptr
  r_method_end :: ptr
  r_schema_start :: ptr
  r_schema_end :: ptr
  r_host_start :: ptr
  r_host_end :: ptr
  r_port_end :: ptr
  r_http_minor :: "16 word"
  r_http_major :: "16 word"

definition fresh_request :: ngx_http_request_t where
  "fresh_request = \<lparr>r_method = NGX_HTTP_UNKNOWN, r_http_version = 0, r_http_protocol = None,
     r_complex_uri = False, r_quoted_uri = False, r_plus_in_uri = False, r_space_in_uri = False,
     r_uri_start = None, r_uri_end = None, r_uri_ext = None, r_args_start = None, r_request_start = None,
     r_request_end = None, r_method_end = None, r_schema_start = None, r_schema_end = None,
     r_host_start = None, r_host_end = None, r_port_end = None, r_http_minor = 0, r_http_major = 0\<rparr>"

datatype parse_exit = Goto_done | Goto_header_done | Return ngx_int_t

section \<open>Byte classes\<close>

definition usual :: "u32 list" where
  "usual = [0xffffdbfe, 0x7fff37d6, 0xffffffff, 0xffffffff,
            0xffffffff, 0xffffffff, 0xffffffff, 0xffffffff]"

definition is_usual :: "byte \<Rightarrow> bool" where
  "is_usual c \<longleftrightarrow> (usual ! unat (drop_bit 5 c)) AND push_bit (unat (c AND 0x1f)) 1 \<noteq> 0"

definition is_letter :: "byte \<Rightarrow> bool" where
  [byte_simps]: "is_letter c \<longleftrightarrow> ch CHR ''a'' \<le> c OR 0x20 \<and> c OR 0x20 \<le> ch CHR ''z''"

definition is_method_char :: "byte \<Rightarrow> bool" where
  [byte_simps]: "is_method_char c \<longleftrightarrow> \<not> ((c < ch CHR ''A'' \<or> ch CHR ''Z'' < c) \<and> c \<noteq> ch CHR ''_'')"

lemma is_usual_high:
  assumes "64 \<le> unat c"
  shows "is_usual c"
proof -
  have k: "unat (drop_bit 5 c) = unat c div 32" unfolding unat_drop_bit_eq by (simp add: drop_bit_eq_div)
  have "unat c < 256" by (rule unat_less_256)
  then have "unat c div 32 \<in> {2..<8}" using assms by auto
  then have "unat c div 32 \<in> {2,3,4,5,6,7}" by auto
  then have "usual ! unat (drop_bit 5 c) = - 1" unfolding k by (auto simp: usual_def)
  moreover have "unat (c AND 0x1f) < 32"
    using word_and_le1 [of c "0x1f"] by (simp add: word_le_nat_alt)
  then have "push_bit (unat (c AND 0x1f)) (1 :: u32) \<noteq> 0" by simp
  ultimately show ?thesis by (simp add: is_usual_def)
qed

lemma is_usual_iff: "is_usual c \<longleftrightarrow> c \<notin> set (0 # LF # CR # bytes '' #%+./?'')"
proof (cases "unat c < 64")
  case True
  have "\<forall>n\<in>set [0..63::int]. is_usual (word_of_int n) \<longleftrightarrow> (word_of_int n :: byte) \<notin> set (0 # LF # CR # bytes '' #%+./?'')"
    by code_simp
  moreover have "uint c \<in> set [0..63]"
  proof -
    have "uint c = int (unat c)" by simp
    then have "0 \<le> uint c" "uint c \<le> 63" using True by linarith+
    then show ?thesis by simp
  qed
  ultimately have "is_usual (word_of_int (uint c)) \<longleftrightarrow> (word_of_int (uint c) :: byte) \<notin> set (0 # LF # CR # bytes '' #%+./?'')"
    by (rule bspec)
  then show ?thesis unfolding word_of_int_uint .
next
  case False
  then have "64 \<le> c" by (simp add: word_le_nat_alt)
  then have "c \<notin> set (0 # LF # CR # bytes '' #%+./?'')" by (auto simp: byte_simps)
  then show ?thesis using False is_usual_high [of c] by simp
qed

end
