(* ===== verification/Ngx_Http_Request_Line.thy ===== *)
theory Ngx_Http_Request_Line
  imports Ngx_Http_Request
begin

text \<open>
  \<open>ngx_http_parse_request_line\<close> of src/http/ngx_http_parse.c: one definition per group of states of
  its switch, the loop as a byte machine, and the code behind the label \<open>done\<close>.
\<close>

datatype rl_state = sw_start | sw_method | sw_spaces_before_uri | sw_schema | sw_schema_slash
  | sw_schema_slash_slash | sw_host_start | sw_host | sw_host_end | sw_host_ip_literal | sw_port
  | sw_host_http_09 | sw_after_slash_in_uri | sw_check_uri | sw_check_uri_http_09 | sw_uri | sw_http_09
  | sw_http_H | sw_http_HT | sw_http_HTT | sw_http_HTTP | sw_first_major_digit | sw_major_digit
  | sw_first_minor_digit | sw_minor_digit | sw_spaces_after_digit | sw_almost_done

type_synonym rl_action = "(parse_exit, rl_state \<times> ngx_http_request_t) action"

definition invalid :: "ngx_http_request_t \<Rightarrow> rl_action" where
  [ngx_defs]: "invalid r = Exit (Return NGX_HTTP_PARSE_INVALID_REQUEST) (sw_start, r)"

section \<open>The method\<close>

definition rl_start :: "nat \<Rightarrow> byte \<Rightarrow> ngx_http_request_t \<Rightarrow> rl_action" where
  "rl_start p c r =
     (let r = r\<lparr>r_request_start := Some p\<rparr>
      in if c = CR \<or> c = LF then Next (sw_start, r)
         else if \<not> is_method_char c then Exit (Return NGX_HTTP_PARSE_INVALID_METHOD) (sw_start, r)
         else Next (sw_method, r))"

text \<open>\<open>m\<close> has the bytes from \<open>request_start\<close> to the space.\<close>

definition ngx_str3_cmp :: "byte list \<Rightarrow> string \<Rightarrow> bool" where
  "ngx_str3_cmp m s \<longleftrightarrow> m ! 0 = ch (s ! 0) \<and> m ! 1 = ch (s ! 1) \<and> m ! 2 = ch (s ! 2)"

definition ngx_str3Ocmp :: "byte list \<Rightarrow> string \<Rightarrow> bool" where
  "ngx_str3Ocmp m s \<longleftrightarrow> m ! 0 = ch (s ! 0) \<and> m ! 2 = ch (s ! 2) \<and> m ! 3 = ch (s ! 3)"

definition ngx_str4cmp :: "byte list \<Rightarrow> string \<Rightarrow> bool" where
  "ngx_str4cmp m s \<longleftrightarrow> m ! 0 = ch (s ! 0) \<and> m ! 1 = ch (s ! 1) \<and> m ! 2 = ch (s ! 2) \<and> m ! 3 = ch (s ! 3)"

definition ngx_str5cmp :: "byte list \<Rightarrow> string \<Rightarrow> bool" where
  "ngx_str5cmp m s \<longleftrightarrow> ngx_str4cmp m s \<and> m ! 4 = ch (s ! 4)"

definition ngx_str6cmp :: "byte list \<Rightarrow> string \<Rightarrow> bool" where
  "ngx_str6cmp m s \<longleftrightarrow> ngx_str4cmp m s \<and> m ! 4 = ch (s ! 4) \<and> m ! 5 = ch (s ! 5)"

definition ngx_str7_cmp :: "byte list \<Rightarrow> string \<Rightarrow> bool" where
  "ngx_str7_cmp m s \<longleftrightarrow> ngx_str6cmp m s \<and> m ! 6 = ch (s ! 6)"

definition ngx_str8cmp :: "byte list \<Rightarrow> string \<Rightarrow> bool" where
  "ngx_str8cmp m s \<longleftrightarrow> ngx_str7_cmp m s \<and> m ! 7 = ch (s ! 7)"

definition ngx_str9cmp :: "byte list \<Rightarrow> string \<Rightarrow> bool" where
  "ngx_str9cmp m s \<longleftrightarrow> ngx_str8cmp m s \<and> m ! 8 = ch (s ! 8)"

lemmas strcmp_defs = ngx_str3_cmp_def ngx_str3Ocmp_def ngx_str4cmp_def ngx_str5cmp_def
  ngx_str6cmp_def ngx_str7_cmp_def ngx_str8cmp_def ngx_str9cmp_def

definition rl_method_code :: "byte list \<Rightarrow> ngx_uint_t \<Rightarrow> ngx_uint_t" where
  "rl_method_code m method =
     (if length m = 3 then
        (if ngx_str3_cmp m ''GET '' then NGX_HTTP_GET
         else if ngx_str3_cmp m ''PUT '' then NGX_HTTP_PUT
         else method)
      else if length m = 4 then
        (if m ! 1 = ch CHR ''O'' then
           (if ngx_str3Ocmp m ''POST'' then NGX_HTTP_POST
            else if ngx_str3Ocmp m ''COPY'' then NGX_HTTP_COPY
            else if ngx_str3Ocmp m ''MOVE'' then NGX_HTTP_MOVE
            else if ngx_str3Ocmp m ''LOCK'' then NGX_HTTP_LOCK
            else method)
         else if ngx_str4cmp m ''HEAD'' then NGX_HTTP_HEAD
         else method)
      else if length m = 5 then
        (let method = (if ngx_str5cmp m ''MKCOL'' then NGX_HTTP_MKCOL else method);
             method = (if ngx_str5cmp m ''PATCH'' then NGX_HTTP_PATCH else method)
         in if ngx_str5cmp m ''TRACE'' then NGX_HTTP_TRACE else method)
      else if length m = 6 then
        (if ngx_str6cmp m ''DELETE'' then NGX_HTTP_DELETE
         else if ngx_str6cmp m ''UNLOCK'' then NGX_HTTP_UNLOCK
         else method)
      else if length m = 7 then (if ngx_str7_cmp m ''OPTIONS '' then NGX_HTTP_OPTIONS else method)
      else if length m = 8 then (if ngx_str8cmp m ''PROPFIND'' then NGX_HTTP_PROPFIND else method)
      else if length m = 9 then (if ngx_str9cmp m ''PROPPATCH'' then NGX_HTTP_PROPPATCH else method)
      else method)"

definition rl_method :: "byte list \<Rightarrow> nat \<Rightarrow> byte \<Rightarrow> ngx_http_request_t \<Rightarrow> rl_action" where
  "rl_method buf p c r =
     (if c = SP then
        (let r = r\<lparr>r_method_end := Some (p - 1)\<rparr>
         in case r_request_start r of
              None \<Rightarrow> Next (sw_spaces_before_uri, r)
            | Some m \<Rightarrow>
                Next (sw_spaces_before_uri,
                      r\<lparr>r_method := rl_method_code (drop m (take p buf)) (r_method r)\<rparr>))
      else if \<not> is_method_char c then Exit (Return NGX_HTTP_PARSE_INVALID_METHOD) (sw_start, r)
      else Next (sw_method, r))"

section \<open>Schema, host and port\<close>

definition rl_spaces_before_uri :: "nat \<Rightarrow> byte \<Rightarrow> ngx_http_request_t \<Rightarrow> rl_action" where
  "rl_spaces_before_uri p c r =
     (if c = ch CHR ''/'' then Next (sw_after_slash_in_uri, r\<lparr>r_uri_start := Some p\<rparr>)
      else if is_letter c then Next (sw_schema, r\<lparr>r_schema_start := Some p\<rparr>)
      else if c = SP then Next (sw_spaces_before_uri, r)
      else invalid r)"

definition rl_schema :: "nat \<Rightarrow> byte \<Rightarrow> ngx_http_request_t \<Rightarrow> rl_action" where
  "rl_schema p c r =
     (if is_letter c then Next (sw_schema, r)
      else if c = ch CHR '':'' then Next (sw_schema_slash, r\<lparr>r_schema_end := Some p\<rparr>)
      else invalid r)"

definition rl_expect :: "byte \<Rightarrow> rl_state \<Rightarrow> byte \<Rightarrow> ngx_http_request_t \<Rightarrow> rl_action" where
  "rl_expect x st c r = (if c = x then Next (st, r) else invalid r)"

definition rl_host_end :: "nat \<Rightarrow> byte \<Rightarrow> ngx_http_request_t \<Rightarrow> rl_action" where
  "rl_host_end p c r =
     (let r = r\<lparr>r_host_end := Some p\<rparr>
      in if c = ch CHR '':'' then Next (sw_port, r)
         else if c = ch CHR ''/'' then Next (sw_after_slash_in_uri, r\<lparr>r_uri_start := Some p\<rparr>)
         else if c = SP then
           Next (sw_host_http_09, r\<lparr>r_uri_start := map_option (\<lambda>e. e + 1) (r_schema_end r),
                                    r_uri_end := map_option (\<lambda>e. e + 2) (r_schema_end r)\<rparr>)
         else invalid r)"

definition rl_host :: "nat \<Rightarrow> byte \<Rightarrow> ngx_http_request_t \<Rightarrow> rl_action" where
  "rl_host p c r =
     (if is_letter c then Next (sw_host, r)
      else if is_digit c \<or> c = ch CHR ''.'' \<or> c = ch CHR ''-'' then Next (sw_host, r)
      else rl_host_end p c r)"

definition rl_host_start :: "nat \<Rightarrow> byte \<Rightarrow> ngx_http_request_t \<Rightarrow> rl_action" where
  "rl_host_start p c r =
     (let r = r\<lparr>r_host_start := Some p\<rparr>
      in if c = ch CHR ''['' then Next (sw_host_ip_literal, r)
         else rl_host p c r)"

definition rl_host_ip_literal :: "byte \<Rightarrow> ngx_http_request_t \<Rightarrow> rl_action" where
  "rl_host_ip_literal c r =
     (if is_digit c then Next (sw_host_ip_literal, r)
      else if is_letter c then Next (sw_host_ip_literal, r)
      else if c = ch CHR '':'' then Next (sw_host_ip_literal, r)
      else if c = ch CHR '']'' then Next (sw_host_end, r)
      else if c \<in> set (bytes ''-._~'') then Next (sw_host_ip_literal, r)
      else if c \<in> set (ch (char_of (39 :: nat)) # bytes ''!$&()*+,;='') then Next (sw_host_ip_literal, r)
      else invalid r)"

definition rl_port :: "nat \<Rightarrow> byte \<Rightarrow> ngx_http_request_t \<Rightarrow> rl_action" where
  "rl_port p c r =
     (if is_digit c then Next (sw_port, r)
      else if c = ch CHR ''/'' then
        Next (sw_after_slash_in_uri, r\<lparr>r_port_end := Some p, r_uri_start := Some p\<rparr>)
      else if c = SP then
        Next (sw_host_http_09, r\<lparr>r_port_end := Some p,
                                 r_uri_start := map_option (\<lambda>e. e + 1) (r_schema_end r),
                                 r_uri_end := map_option (\<lambda>e. e + 2) (r_schema_end r)\<rparr>)
      else invalid r)"

definition rl_host_http_09 :: "nat \<Rightarrow> byte \<Rightarrow> ngx_http_request_t \<Rightarrow> rl_action" where
  "rl_host_http_09 p c r =
     (if c = SP then Next (sw_host_http_09, r)
      else if c = CR then Next (sw_almost_done, r\<lparr>r_http_minor := 9\<rparr>)
      else if c = LF then Exit Goto_done (sw_host_http_09, r\<lparr>r_http_minor := 9\<rparr>)
      else if c = ch CHR ''H'' then Next (sw_http_H, r\<lparr>r_http_protocol := Some p\<rparr>)
      else invalid r)"

section \<open>The URI\<close>

definition rl_after_slash_in_uri :: "nat \<Rightarrow> byte \<Rightarrow> ngx_http_request_t \<Rightarrow> rl_action" where
  "rl_after_slash_in_uri p c r =
     (if is_usual c then Next (sw_check_uri, r)
      else if c = SP then Next (sw_check_uri_http_09, r\<lparr>r_uri_end := Some p\<rparr>)
      else if c = CR then Next (sw_almost_done, r\<lparr>r_uri_end := Some p, r_http_minor := 9\<rparr>)
      else if c = LF then
        Exit Goto_done (sw_after_slash_in_uri, r\<lparr>r_uri_end := Some p, r_http_minor := 9\<rparr>)
      else if c = ch CHR ''.'' then Next (sw_uri, r\<lparr>r_complex_uri := True\<rparr>)
      else if c = ch CHR ''%'' then Next (sw_uri, r\<lparr>r_quoted_uri := True\<rparr>)
      else if c = ch CHR ''/'' then Next (sw_uri, r\<lparr>r_complex_uri := True\<rparr>)
      else if c = ch CHR ''?'' then Next (sw_uri, r\<lparr>r_args_start := Some (p + 1)\<rparr>)
      else if c = ch CHR ''#'' then Next (sw_uri, r\<lparr>r_complex_uri := True\<rparr>)
      else if c = ch CHR ''+'' then Next (sw_after_slash_in_uri, r\<lparr>r_plus_in_uri := True\<rparr>)
      else if c = 0 then invalid r
      else Next (sw_check_uri, r))"

definition rl_check_uri :: "nat \<Rightarrow> byte \<Rightarrow> ngx_http_request_t \<Rightarrow> rl_action" where
  "rl_check_uri p c r =
     (if is_usual c then Next (sw_check_uri, r)
      else if c = ch CHR ''/'' then Next (sw_after_slash_in_uri, r\<lparr>r_uri_ext := None\<rparr>)
      else if c = ch CHR ''.'' then Next (sw_check_uri, r\<lparr>r_uri_ext := Some (p + 1)\<rparr>)
      else if c = SP then Next (sw_check_uri_http_09, r\<lparr>r_uri_end := Some p\<rparr>)
      else if c = CR then Next (sw_almost_done, r\<lparr>r_uri_end := Some p, r_http_minor := 9\<rparr>)
      else if c = LF then
        Exit Goto_done (sw_check_uri, r\<lparr>r_uri_end := Some p, r_http_minor := 9\<rparr>)
      else if c = ch CHR ''%'' then Next (sw_uri, r\<lparr>r_quoted_uri := True\<rparr>)
      else if c = ch CHR ''?'' then Next (sw_uri, r\<lparr>r_args_start := Some (p + 1)\<rparr>)
      else if c = ch CHR ''#'' then Next (sw_uri, r\<lparr>r_complex_uri := True\<rparr>)
      else if c = ch CHR ''+'' then Next (sw_check_uri, r\<lparr>r_plus_in_uri := True\<rparr>)
      else if c = 0 then invalid r
      else Next (sw_check_uri, r))"

definition rl_check_uri_http_09 :: "nat \<Rightarrow> byte \<Rightarrow> ngx_http_request_t \<Rightarrow> rl_action" where
  "rl_check_uri_http_09 p c r =
     (if c = SP then Next (sw_check_uri_http_09, r)
      else if c = CR then Next (sw_almost_done, r\<lparr>r_http_minor := 9\<rparr>)
      else if c = LF then Exit Goto_done (sw_check_uri_http_09, r\<lparr>r_http_minor := 9\<rparr>)
      else if c = ch CHR ''H'' then Next (sw_http_H, r\<lparr>r_http_protocol := Some p\<rparr>)
      else Redo (sw_check_uri, r\<lparr>r_space_in_uri := True\<rparr>))"

definition rl_uri :: "nat \<Rightarrow> byte \<Rightarrow> ngx_http_request_t \<Rightarrow> rl_action" where
  "rl_uri p c r =
     (if is_usual c then Next (sw_uri, r)
      else if c = SP then Next (sw_http_09, r\<lparr>r_uri_end := Some p\<rparr>)
      else if c = CR then Next (sw_almost_done, r\<lparr>r_uri_end := Some p, r_http_minor := 9\<rparr>)
      else if c = LF then Exit Goto_done (sw_uri, r\<lparr>r_uri_end := Some p, r_http_minor := 9\<rparr>)
      else if c = ch CHR ''#'' then Next (sw_uri, r\<lparr>r_complex_uri := True\<rparr>)
      else if c = 0 then invalid r
      else Next (sw_uri, r))"

definition rl_http_09 :: "nat \<Rightarrow> byte \<Rightarrow> ngx_http_request_t \<Rightarrow> rl_action" where
  "rl_http_09 p c r =
     (if c = SP then Next (sw_http_09, r)
      else if c = CR then Next (sw_almost_done, r\<lparr>r_http_minor := 9\<rparr>)
      else if c = LF then Exit Goto_done (sw_http_09, r\<lparr>r_http_minor := 9\<rparr>)
      else if c = ch CHR ''H'' then Next (sw_http_H, r\<lparr>r_http_protocol := Some p\<rparr>)
      else Redo (sw_uri, r\<lparr>r_space_in_uri := True\<rparr>))"

section \<open>The version\<close>

definition digit16 :: "byte \<Rightarrow> 16 word" where
  "digit16 c = ucast c - 48"

definition rl_first_major_digit :: "byte \<Rightarrow> ngx_http_request_t \<Rightarrow> rl_action" where
  "rl_first_major_digit c r =
     (if c < ch CHR ''1'' \<or> ch CHR ''9'' < c then invalid r
      else Next (sw_major_digit, r\<lparr>r_http_major := digit16 c\<rparr>))"

definition rl_major_digit :: "byte \<Rightarrow> ngx_http_request_t \<Rightarrow> rl_action" where
  "rl_major_digit c r =
     (if c = ch CHR ''.'' then Next (sw_first_minor_digit, r)
      else if \<not> is_digit c then invalid r
      else Next (sw_major_digit, r\<lparr>r_http_major := r_http_major r * 10 + digit16 c\<rparr>))"

definition rl_first_minor_digit :: "byte \<Rightarrow> ngx_http_request_t \<Rightarrow> rl_action" where
  "rl_first_minor_digit c r =
     (if \<not> is_digit c then invalid r
      else Next (sw_minor_digit, r\<lparr>r_http_minor := digit16 c\<rparr>))"

definition rl_minor_digit :: "byte \<Rightarrow> ngx_http_request_t \<Rightarrow> rl_action" where
  "rl_minor_digit c r =
     (if c = CR then Next (sw_almost_done, r)
      else if c = LF then Exit Goto_done (sw_minor_digit, r)
      else if c = SP then Next (sw_spaces_after_digit, r)
      else if \<not> is_digit c then invalid r
      else Next (sw_minor_digit, r\<lparr>r_http_minor := r_http_minor r * 10 + digit16 c\<rparr>))"

definition rl_spaces_after_digit :: "byte \<Rightarrow> ngx_http_request_t \<Rightarrow> rl_action" where
  "rl_spaces_after_digit c r =
     (if c = SP then Next (sw_spaces_after_digit, r)
      else if c = CR then Next (sw_almost_done, r)
      else if c = LF then Exit Goto_done (sw_spaces_after_digit, r)
      else invalid r)"

definition rl_almost_done :: "nat \<Rightarrow> byte \<Rightarrow> ngx_http_request_t \<Rightarrow> rl_action" where
  "rl_almost_done p c r =
     (let r = r\<lparr>r_request_end := Some (p - 1)\<rparr>
      in if c = LF then Exit Goto_done (sw_almost_done, r) else invalid r)"

section \<open>The parser\<close>

definition rl_step :: "(parse_exit, rl_state \<times> ngx_http_request_t) stepper" where
  "rl_step buf p c s =
     (case s of (st, r) \<Rightarrow>
        (case st of
           sw_start \<Rightarrow> rl_start p c r
         | sw_method \<Rightarrow> rl_method buf p c r
         | sw_spaces_before_uri \<Rightarrow> rl_spaces_before_uri p c r
         | sw_schema \<Rightarrow> rl_schema p c r
         | sw_schema_slash \<Rightarrow> rl_expect (ch CHR ''/'') sw_schema_slash_slash c r
         | sw_schema_slash_slash \<Rightarrow> rl_expect (ch CHR ''/'') sw_host_start c r
         | sw_host_start \<Rightarrow> rl_host_start p c r
         | sw_host \<Rightarrow> rl_host p c r
         | sw_host_end \<Rightarrow> rl_host_end p c r
         | sw_host_ip_literal \<Rightarrow> rl_host_ip_literal c r
         | sw_port \<Rightarrow> rl_port p c r
         | sw_host_http_09 \<Rightarrow> rl_host_http_09 p c r
         | sw_after_slash_in_uri \<Rightarrow> rl_after_slash_in_uri p c r
         | sw_check_uri \<Rightarrow> rl_check_uri p c r
         | sw_check_uri_http_09 \<Rightarrow> rl_check_uri_http_09 p c r
         | sw_uri \<Rightarrow> rl_uri p c r
         | sw_http_09 \<Rightarrow> rl_http_09 p c r
         | sw_http_H \<Rightarrow> rl_expect (ch CHR ''T'') sw_http_HT c r
         | sw_http_HT \<Rightarrow> rl_expect (ch CHR ''T'') sw_http_HTT c r
         | sw_http_HTT \<Rightarrow> rl_expect (ch CHR ''P'') sw_http_HTTP c r
         | sw_http_HTTP \<Rightarrow> rl_expect (ch CHR ''/'') sw_first_major_digit c r
         | sw_first_major_digit \<Rightarrow> rl_first_major_digit c r
         | sw_major_digit \<Rightarrow> rl_major_digit c r
         | sw_first_minor_digit \<Rightarrow> rl_first_minor_digit c r
         | sw_minor_digit \<Rightarrow> rl_minor_digit c r
         | sw_spaces_after_digit \<Rightarrow> rl_spaces_after_digit c r
         | sw_almost_done \<Rightarrow> rl_almost_done p c r))"

definition rl_done :: "nat \<Rightarrow> ngx_http_request_t \<Rightarrow> ngx_int_t \<times> ngx_http_request_t" where
  "rl_done p r =
     (let r = (if r_request_end r = None then r\<lparr>r_request_end := Some p\<rparr> else r);
          r = r\<lparr>r_http_version := unat (r_http_major r) * 1000 + unat (r_http_minor r)\<rparr>
      in if r_http_version r = 9 \<and> r_method r \<noteq> NGX_HTTP_GET
         then (NGX_HTTP_PARSE_INVALID_09_METHOD, r) else (NGX_OK, r))"

definition ngx_http_parse_request_line ::
    "rl_state \<times> ngx_http_request_t \<Rightarrow> ngx_buf_t
       \<Rightarrow> (ngx_int_t \<times> (rl_state \<times> ngx_http_request_t) \<times> ngx_buf_t) option" where
  "ngx_http_parse_request_line s b =
     (case machine rl_step (buf_mem b) (buf_last b) (buf_pos b) s of
        None \<Rightarrow> None
      | Some (None, p, s') \<Rightarrow> Some (NGX_AGAIN, s', b\<lparr>buf_pos := p\<rparr>)
      | Some (Some (Return rc), p, (st, r)) \<Rightarrow> Some (rc, (fst s, r), b)
      | Some (Some _, p, (st, r)) \<Rightarrow>
          (case rl_done p r of (rc, r) \<Rightarrow> Some (rc, (sw_start, r), b\<lparr>buf_pos := p + 1\<rparr>)))"

section \<open>The loop ends, and the input may be split anywhere\<close>

lemmas rl_state_defs = rl_start_def rl_method_def rl_spaces_before_uri_def rl_schema_def rl_expect_def
  rl_host_end_def rl_host_def rl_host_start_def rl_host_ip_literal_def rl_port_def rl_host_http_09_def
  rl_after_slash_in_uri_def rl_check_uri_def rl_check_uri_http_09_def rl_uri_def rl_http_09_def
  rl_first_major_digit_def rl_major_digit_def rl_first_minor_digit_def rl_minor_digit_def
  rl_spaces_after_digit_def rl_almost_done_def invalid_def

definition rl_rank :: "rl_state \<times> ngx_http_request_t \<Rightarrow> nat" where
  "rl_rank s = (if fst s \<in> {sw_check_uri_http_09, sw_http_09} then 1 else 0)"

lemma rl_step_redo:
  "rl_step buf p c s = Redo s' \<Longrightarrow>
   fst s = sw_check_uri_http_09 \<and> fst s' = sw_check_uri \<or> fst s = sw_http_09 \<and> fst s' = sw_uri"
  by (cases s; cases "fst s")
     (auto simp: rl_step_def rl_state_defs Let_def split: if_splits option.splits)

interpretation rl: byte_machine rl_step rl_rank
proof unfold_locales
  show "rl_rank s' < rl_rank s" if "rl_step buf p c s = Redo s'" for buf p c s s'
    using rl_step_redo [OF that] by (auto simp: rl_rank_def)
  show "rl_step buf p c s = rl_step buf' p c s" if "take p buf = take p buf'" for buf buf' p c s
  proof -
    have "rl_method buf p c r = rl_method buf' p c r" for r unfolding rl_method_def that ..
    then show ?thesis unfolding rl_step_def by presburger
  qed
qed

lemma rl_done_not_again: "fst (rl_done p r) \<noteq> NGX_AGAIN"
  by (simp add: rl_done_def Let_def)

definition rl_return_ok :: "parse_exit \<Rightarrow> bool" where
  "rl_return_ok x \<longleftrightarrow> x \<in> {Goto_done, Return NGX_HTTP_PARSE_INVALID_METHOD, Return NGX_HTTP_PARSE_INVALID_REQUEST}"

lemma rl_step_exit: "rl_step buf p c s = Exit x s' \<Longrightarrow> rl_return_ok x"
  by (cases s; cases "fst s")
     (auto simp: rl_step_def rl_state_defs rl_return_ok_def Let_def split: if_splits option.splits)

lemma rl_machine_exit:
  assumes "machine rl_step buf stop p s = Some (Some x, q, s')" "stop \<le> length buf" "p \<le> stop"
  shows "rl_return_ok x"
proof -
  have "case Some x of None \<Rightarrow> True | Some l \<Rightarrow> rl_return_ok l"
    by (rule rl.machine_invariant [OF _ assms(2) _ assms(3) assms(1), of "\<lambda>_ _. True" "\<lambda>x _ _. rl_return_ok x"])
       (auto split: action.splits dest: rl_step_exit)
  then show ?thesis by simp
qed

lemma rl_returns:
  assumes "buf_last b \<le> length (buf_mem b)" "buf_pos b \<le> buf_last b"
  shows "ngx_http_parse_request_line s b \<noteq> None"
proof -
  obtain x q st r where "machine rl_step (buf_mem b) (buf_last b) (buf_pos b) s = Some (x, q, (st, r))"
    using rl.machine_total [OF assms, of s] by (metis prod_cases3 surj_pair)
  then show ?thesis
    by (cases x) (auto simp: ngx_http_parse_request_line_def split: parse_exit.splits prod.splits)
qed

abbreviation (input) rl_answer ::
    "(ngx_int_t \<times> (rl_state \<times> ngx_http_request_t) \<times> ngx_buf_t) option \<Rightarrow> (ngx_int_t \<times> ngx_http_request_t) option" where
  "rl_answer \<equiv> map_option (\<lambda>(rc, (st, r), b). (rc, r))"

text \<open>
  C6: \<open>ngx_http_parse_request_line\<close> returns on every input, and it does not matter how the request
  line is cut into reads: when a call on the first bytes returns NGX_AGAIN, the next call on the
  longer buffer gives the return code and the request that one call on all the bytes gives; when the
  first call returns anything else, the bytes behind do not change the answer.
\<close>

theorem ngx_http_parse_request_line_incremental:
  assumes b1: "buf_pos b1 \<le> buf_last b1" "buf_last b1 \<le> length (buf_mem b1)"
    and b2: "buf_last b1 \<le> buf_last b2" "buf_last b2 \<le> length (buf_mem b2)" "buf_pos b2 = buf_pos b1"
      "take (buf_last b1) (buf_mem b1) = take (buf_last b1) (buf_mem b2)"
  shows "\<exists>rc s1 b1'. ngx_http_parse_request_line s b1 = Some (rc, s1, b1') \<and>
    ngx_http_parse_request_line s b2 \<noteq> None \<and>
    rl_answer (ngx_http_parse_request_line s b2) =
      (if rc = NGX_AGAIN then rl_answer (ngx_http_parse_request_line s1 (b2\<lparr>buf_pos := buf_pos b1'\<rparr>))
       else Some (rc, snd s1))"
proof -
  obtain x q st' r' where m1: "machine rl_step (buf_mem b1) (buf_last b1) (buf_pos b1) s = Some (x, q, (st', r'))"
    and q: "if x = None then q = buf_last b1 else q < buf_last b1"
    using rl.machine_total [OF b1(2,1), of s] by (metis prod_cases3 surj_pair)
  note m2 = rl.machine_split [OF b2(1,2) b1(2) b2(4) b1(1) m1]
  have "buf_pos b2 \<le> buf_last b2" using b1(1) b2(1,3) by simp
  then have total: "ngx_http_parse_request_line s b2 \<noteq> None"
    by (rule rl_returns [OF b2(2)])
  show ?thesis
  proof (cases x)
    case None
    then show ?thesis
      using m1 m2 q b2(3) total
      by (auto simp: ngx_http_parse_request_line_def split: option.splits prod.splits parse_exit.splits)
  next
    case (Some l)
    then have "rl_return_ok l" using rl_machine_exit [of "buf_mem b1" "buf_last b1"] m1 b1 by blast
    moreover obtain rc s1 b1' where "ngx_http_parse_request_line s b1 = Some (rc, s1, b1')"
      using rl_returns [OF b1(2,1), of s] by auto
    ultimately have "rc \<noteq> NGX_AGAIN \<and> rl_answer (ngx_http_parse_request_line s b2) = Some (rc, snd s1)"
      using m1 m2 Some b2(3) rl_done_not_again [of q r']
      by (auto simp: ngx_http_parse_request_line_def rl_return_ok_def split: prod.splits parse_exit.splits)
    then show ?thesis
      using \<open>ngx_http_parse_request_line s b1 = Some (rc, s1, b1')\<close> total by simp
  qed
qed

theorem ngx_http_parse_request_line_incremental_witness:
  "\<exists>rc s1 b1'. ngx_http_parse_request_line (sw_start, fresh_request)
      \<lparr>buf_mem = bytes ''GET '', buf_pos = 0, buf_last = 4\<rparr> = Some (rc, s1, b1') \<and>
    ngx_http_parse_request_line (sw_start, fresh_request)
      \<lparr>buf_mem = bytes ''GET /'', buf_pos = 0, buf_last = 5\<rparr> \<noteq> None"
  using ngx_http_parse_request_line_incremental
    [of "\<lparr>buf_mem = bytes ''GET '', buf_pos = 0, buf_last = 4\<rparr>"
        "\<lparr>buf_mem = bytes ''GET /'', buf_pos = 0, buf_last = 5\<rparr>" "(sw_start, fresh_request)"]
  by (auto simp: bytes_def)

end
