(* ===== verification/Ngx_Http_Request_Ok.thy ===== *)
theory Ngx_Http_Request_Ok
  imports Ngx_Http_Request_Line Ngx_Numbers
begin

text \<open>
  What \<open>ngx_http_parse_request_line\<close> makes of a well formed request line
  \<open>METHOD SP /uri SP HTTP/major.minor CR LF\<close>.
\<close>

section \<open>Methods\<close>

definition http_methods :: "(string \<times> ngx_uint_t) list" where
  "http_methods = [(''GET'', NGX_HTTP_GET), (''PUT'', NGX_HTTP_PUT), (''POST'', NGX_HTTP_POST),
     (''COPY'', NGX_HTTP_COPY), (''MOVE'', NGX_HTTP_MOVE), (''LOCK'', NGX_HTTP_LOCK), (''HEAD'', NGX_HTTP_HEAD),
     (''MKCOL'', NGX_HTTP_MKCOL), (''PATCH'', NGX_HTTP_PATCH), (''TRACE'', NGX_HTTP_TRACE),
     (''DELETE'', NGX_HTTP_DELETE), (''UNLOCK'', NGX_HTTP_UNLOCK), (''OPTIONS'', NGX_HTTP_OPTIONS),
     (''PROPFIND'', NGX_HTTP_PROPFIND), (''PROPPATCH'', NGX_HTTP_PROPPATCH)]"

definition method_of :: "byte list \<Rightarrow> ngx_uint_t \<Rightarrow> ngx_uint_t" where
  "method_of m d = (case map_of (map (\<lambda>(s, v). (bytes s, v)) http_methods) m of None \<Rightarrow> d | Some v \<Rightarrow> v)"

lemma list_of_length:
  "length m = 3 \<Longrightarrow> \<exists>a b c. m = [a, b, c]" "length m = 4 \<Longrightarrow> \<exists>a b c d. m = [a, b, c, d]"
  "length m = 5 \<Longrightarrow> \<exists>a b c d e. m = [a, b, c, d, e]"
  "length m = 6 \<Longrightarrow> \<exists>a b c d e f. m = [a, b, c, d, e, f]"
  "length m = 7 \<Longrightarrow> \<exists>a b c d e f g. m = [a, b, c, d, e, f, g]"
  "length m = 8 \<Longrightarrow> \<exists>a b c d e f g h. m = [a, b, c, d, e, f, g, h]"
  "length m = 9 \<Longrightarrow> \<exists>a b c d e f g h i. m = [a, b, c, d, e, f, g, h, i]"
  by (auto simp: length_Suc_conv numeral_eq_Suc)

lemma rl_method_code_table: "rl_method_code m d = method_of m d"
proof -
  consider "length m = 3" | "length m = 4" | "length m = 5" | "length m = 6" | "length m = 7"
    | "length m = 8" | "length m = 9" | "length m \<notin> {3, 4, 5, 6, 7, 8, 9}" by auto
  then show ?thesis
  proof cases
    case 1
    then obtain a b c where "m = [a, b, c]" using list_of_length(1) by blast
    then show ?thesis
      by (simp add: method_of_def http_methods_def byte_simps rl_method_code_def strcmp_defs)
  next
    case 2
    then obtain a b c e where "m = [a, b, c, e]" using list_of_length(2) by blast
    then show ?thesis
      by (auto simp: method_of_def http_methods_def byte_simps rl_method_code_def strcmp_defs)
  next
    case 3
    then obtain a b c e f where "m = [a, b, c, e, f]" using list_of_length(3) by blast
    then show ?thesis
      by (auto simp: method_of_def http_methods_def byte_simps rl_method_code_def strcmp_defs)
  next
    case 4
    then obtain a b c e f g where "m = [a, b, c, e, f, g]" using list_of_length(4) by blast
    then show ?thesis
      by (auto simp: method_of_def http_methods_def byte_simps rl_method_code_def strcmp_defs)
  next
    case 5
    then obtain a b c e f g h where "m = [a, b, c, e, f, g, h]" using list_of_length(5) by blast
    then show ?thesis
      by (auto simp: method_of_def http_methods_def byte_simps rl_method_code_def strcmp_defs)
  next
    case 6
    then obtain a b c e f g h i where "m = [a, b, c, e, f, g, h, i]" using list_of_length(6) by blast
    then show ?thesis
      by (auto simp: method_of_def http_methods_def byte_simps rl_method_code_def strcmp_defs)
  next
    case 7
    then obtain a b c e f g h i j where "m = [a, b, c, e, f, g, h, i, j]" using list_of_length(7) by blast
    then show ?thesis
      by (auto simp: method_of_def http_methods_def byte_simps rl_method_code_def strcmp_defs)
  next
    case 8
    then have "map_of (map (\<lambda>(s, v). (bytes s, v)) http_methods) m = None"
      by (auto simp: http_methods_def)
    then show ?thesis using 8 by (simp add: method_of_def rl_method_code_def)
  qed
qed

section \<open>Blocks of the request line\<close>

definition same_core :: "ngx_http_request_t \<Rightarrow> ngx_http_request_t \<Rightarrow> bool" where
  "same_core r r' \<longleftrightarrow> r' = r\<lparr>r_complex_uri := r_complex_uri r', r_quoted_uri := r_quoted_uri r',
     r_plus_in_uri := r_plus_in_uri r', r_uri_ext := r_uri_ext r', r_args_start := r_args_start r'\<rparr>"

lemma same_core_refl: "same_core r r"
  by (simp add: same_core_def)

lemma same_core_trans: "same_core r r' \<Longrightarrow> same_core r' r'' \<Longrightarrow> same_core r r''"
  by (cases r; cases r'; cases r'') (simp add: same_core_def)

lemma same_core_fields:
  assumes "same_core r r'"
  shows "r_method r' = r_method r" "r_request_start r' = r_request_start r" "r_uri_start r' = r_uri_start r"
    "r_request_end r' = r_request_end r" "r_method_end r' = r_method_end r"
  by (subst assms [unfolded same_core_def], simp)+

lemma uri_block:
  assumes "avail buf stop p cs" "set cs \<inter> {0, CR, LF, SP} = {}"
    and "st \<in> {sw_after_slash_in_uri, sw_check_uri, sw_uri}"
  shows "\<exists>st' r'. machine rl_step buf stop p (st, r) = machine rl_step buf stop (p + length cs) (st', r') \<and>
    st' \<in> {sw_after_slash_in_uri, sw_check_uri, sw_uri} \<and> same_core r r'"
proof -
  let ?I = "\<lambda>s. fst s \<in> {sw_after_slash_in_uri, sw_check_uri, sw_uri}"
  let ?R = "\<lambda>s s'. same_core (snd s) (snd s')"
  have "\<exists>s'. rl_step buf p x s = Next s' \<and> ?I s' \<and> ?R s s'" if "x \<in> set cs" "?I s" for p x s
  proof -
    have "x \<noteq> 0" "x \<noteq> CR" "x \<noteq> LF" "x \<noteq> SP" using that assms(2) by auto
    then show ?thesis
      using that(2) by (cases s)
        (auto simp: rl_step_def rl_after_slash_in_uri_def rl_check_uri_def rl_uri_def same_core_def)
  qed
  from rl.machine_block [of cs ?I buf ?R stop p "(st, r)", OF this]
  show ?thesis using assms same_core_refl same_core_trans by (auto; blast)
qed

lemma expect_block:
  assumes "avail buf stop p (bytes ''TTP/'')"
  shows "machine rl_step buf stop p (sw_http_H, r) = machine rl_step buf stop (p + 4) (sw_first_major_digit, r)"
proof -
  have "p < stop \<and> Suc p < stop \<and> Suc (Suc p) < stop \<and> Suc (Suc (Suc p)) < stop \<and> stop \<le> length buf"
    using assms by (simp add: bytes_def avail_Cons avail_def)
  then show ?thesis
    using assms by (simp add: bytes_def avail_Cons rl.machine_step rl_step_def rl_expect_def numeral_eq_Suc)
qed

lemma method_block:
  assumes a: "avail buf stop p (m @ SP # ch CHR ''/'' # rest)" and m: "m \<noteq> []" "list_all is_method_char m"
  shows "machine rl_step buf stop p (sw_start, r) =
    machine rl_step buf stop (p + length m + 2)
      (sw_after_slash_in_uri, r\<lparr>r_request_start := Some p, r_method_end := Some (p + length m - 1),
         r_method := method_of m (r_method r), r_uri_start := Some (p + length m + 1)\<rparr>)"
proof -
  obtain x xs where xs: "m = x # xs" using m by (cases m) auto
  let ?r = "r\<lparr>r_request_start := Some p\<rparr>" and ?q = "p + length m"
  have x: "is_method_char x" "x \<noteq> CR" "x \<noteq> LF"
    using m xs by (auto simp: byte_simps)
  have a1: "avail buf stop (Suc p) xs" "avail buf stop ?q (SP # ch CHR ''/'' # rest)"
    "avail buf stop (Suc ?q) (ch CHR ''/'' # rest)"
    using a xs by (simp_all add: avail_append avail_Cons)
  have "machine rl_step buf stop p (sw_start, r) = machine rl_step buf stop (Suc p) (sw_method, ?r)"
    using rl.machine_avail [of buf stop p x "xs @ SP # ch CHR ''/'' # rest" "(sw_start, r)"] a xs x
    by (simp add: rl_step_def rl_start_def)
  also have "\<dots> = machine rl_step buf stop ?q (sw_method, ?r)"
  proof -
    have "rl_step buf p c (sw_method, ?r) = Next (sw_method, ?r)" if "c \<in> set xs" for p c
      using that m xs by (auto simp: rl_step_def rl_method_def list_all_iff byte_simps)
    then show ?thesis
      using rl.machine_fold [of xs buf "\<lambda>_. (sw_method, ?r)" "\<lambda>_ _. ()" stop "Suc p" "()"] a1(1) xs by simp
  qed
  also have "\<dots> = machine rl_step buf stop (Suc ?q) (sw_spaces_before_uri,
      ?r\<lparr>r_method_end := Some (?q - 1), r_method := method_of m (r_method r)\<rparr>)"
  proof -
    have "drop p (take ?q buf) = m" using a avail_take [of buf stop p m] by (simp add: avail_append take_drop add.commute)
    then show ?thesis
      using rl.machine_avail [OF a1(2), of "(sw_method, ?r)"]
      by (simp add: rl_step_def rl_method_def Let_def rl_method_code_table)
  qed
  also have "\<dots> = machine rl_step buf stop (Suc (Suc ?q)) (sw_after_slash_in_uri,
      ?r\<lparr>r_method_end := Some (?q - 1), r_method := method_of m (r_method r), r_uri_start := Some (Suc ?q)\<rparr>)"
    using rl.machine_avail [OF a1(3)] by (simp add: rl_step_def rl_spaces_before_uri_def)
  finally show ?thesis by simp
qed

lemma uri_block_end:
  assumes a: "avail buf stop p (path @ SP # ch CHR ''H'' # rest)" and path: "set path \<inter> {0, CR, LF, SP} = {}"
  shows "\<exists>r'. machine rl_step buf stop p (sw_after_slash_in_uri, r) =
      machine rl_step buf stop (p + length path + 2)
        (sw_http_H, r'\<lparr>r_uri_end := Some (p + length path), r_http_protocol := Some (p + length path + 1)\<rparr>) \<and>
    same_core r r'"
proof -
  let ?q = "p + length path"
  have a1: "avail buf stop p path" "avail buf stop ?q (SP # ch CHR ''H'' # rest)"
    "avail buf stop (Suc ?q) (ch CHR ''H'' # rest)"
    using a by (simp_all add: avail_append avail_Cons)
  obtain st' r' where u: "machine rl_step buf stop p (sw_after_slash_in_uri, r) = machine rl_step buf stop ?q (st', r')"
    "st' \<in> {sw_after_slash_in_uri, sw_check_uri, sw_uri}" "same_core r r'"
    using uri_block [OF a1(1) path, of sw_after_slash_in_uri r] by auto
  have "\<not> is_usual SP" by (simp add: is_usual_iff byte_simps)
  then have "\<exists>st. machine rl_step buf stop ?q (st', r') =
      machine rl_step buf stop (Suc ?q) (st, r'\<lparr>r_uri_end := Some ?q\<rparr>) \<and> st \<in> {sw_check_uri_http_09, sw_http_09}"
    using rl.machine_avail [OF a1(2), of "(st', r')"] u(2)
    by (auto simp: rl_step_def rl_after_slash_in_uri_def rl_check_uri_def rl_uri_def byte_simps)
  then obtain st where st: "machine rl_step buf stop ?q (st', r') =
      machine rl_step buf stop (Suc ?q) (st, r'\<lparr>r_uri_end := Some ?q\<rparr>)" "st \<in> {sw_check_uri_http_09, sw_http_09}"
    by blast
  have "machine rl_step buf stop (Suc ?q) (st, r'\<lparr>r_uri_end := Some ?q\<rparr>) =
      machine rl_step buf stop (Suc (Suc ?q))
        (sw_http_H, r'\<lparr>r_uri_end := Some ?q, r_http_protocol := Some (Suc ?q)\<rparr>)"
    using rl.machine_avail [OF a1(3), of "(st, r'\<lparr>r_uri_end := Some ?q\<rparr>)"] st(2)
    by (auto simp: rl_step_def rl_check_uri_http_09_def rl_http_09_def byte_simps)
  then show ?thesis using u st(1) by auto
qed

lemma digit16_of_nat: "is_digit c \<Longrightarrow> digit16 c = of_nat (digit_val c)"
  by (simp add: digit16_def digit_val_def is_digit_unat of_nat_diff)

lemma fold_digit16:
  "list_all is_digit ds \<Longrightarrow> fold (\<lambda>c v. v * 10 + digit16 c) ds (of_nat n) = of_nat (dec_acc n ds)"
proof (induction ds arbitrary: n)
  case (Cons c ds)
  then have "of_nat n * 10 + digit16 c = of_nat (n * 10 + digit_val c)" by (simp add: digit16_of_nat)
  with Cons show ?case by (simp del: of_nat_add of_nat_mult)
qed simp

lemma digit_not: "is_digit c \<Longrightarrow> c \<noteq> ch CHR ''.'' \<and> c \<noteq> CR \<and> c \<noteq> LF \<and> c \<noteq> SP"
  by (auto simp: byte_simps)

lemma version_block:
  assumes a: "avail buf stop p (bytes ''TTP/'' @ d # ds @ ch CHR ''.'' # e # es @ [CR, LF])"
    and d: "ch CHR ''1'' \<le> d" "d \<le> ch CHR ''9''" "list_all is_digit ds"
    and e: "list_all is_digit (e # es)"
    and q: "q = p + length ds + length es + 7"
  shows "machine rl_step buf stop p (sw_http_H, r) =
    Some (Some Goto_done, q + 1, (sw_almost_done,
      r\<lparr>r_http_major := of_nat (dec_value (d # ds)), r_http_minor := of_nat (dec_value (e # es)),
        r_request_end := Some q\<rparr>))"
proof -
  obtain p1 where p1: "p1 = p + 4" by simp
  obtain p2 where p2: "p2 = Suc p1 + length ds" by simp
  have qp: "Suc (Suc p2) + length es = q" using q p1 p2 by simp
  have d': "is_digit d" using d by (simp add: byte_simps word_le_nat_alt)
  have range: "\<not> (d < ch CHR ''1'' \<or> ch CHR ''9'' < d)" using d by auto
  have a1: "avail buf stop p (bytes ''TTP/'')" "avail buf stop p1 (d # ds @ ch CHR ''.'' # e # es @ [CR, LF])"
    "avail buf stop (Suc p1) ds" "avail buf stop p2 (ch CHR ''.'' # e # es @ [CR, LF])"
    "avail buf stop (Suc p2) (e # es @ [CR, LF])" "avail buf stop (Suc (Suc p2)) es"
    "avail buf stop q [CR, LF]" "avail buf stop (Suc q) [LF]"
    using a unfolding qp [symmetric] p2 p1 by (simp_all add: avail_append avail_Cons numeral_eq_Suc)
  let ?maj = "\<lambda>v. (sw_major_digit, r\<lparr>r_http_major := v\<rparr>)"
  let ?r = "r\<lparr>r_http_major := of_nat (dec_value (d # ds))\<rparr>"
  let ?min = "\<lambda>v. (sw_minor_digit, ?r\<lparr>r_http_minor := v\<rparr>)"
  have "machine rl_step buf stop p (sw_http_H, r) = machine rl_step buf stop p1 (sw_first_major_digit, r)"
    unfolding p1 by (rule expect_block [OF a1(1)])
  also have "\<dots> = machine rl_step buf stop (Suc p1) (?maj (of_nat (digit_val d)))"
    using rl.machine_avail [OF a1(2), of "(sw_first_major_digit, r)"] d'
    by (simp add: rl_step_def rl_first_major_digit_def range digit16_of_nat)
  also have "\<dots> = machine rl_step buf stop p2 (sw_major_digit, ?r)"
  proof -
    have "rl_step buf p c (?maj v) = Next (?maj (v * 10 + digit16 c))" if "c \<in> set ds" for p c v
      using that d(3) digit_not [of c] by (simp add: rl_step_def rl_major_digit_def list_all_iff)
    from rl.machine_fold [of ds buf ?maj "\<lambda>c v. v * 10 + digit16 c", OF this a1(3)]
    have "machine rl_step buf stop (Suc p1) (?maj (of_nat (digit_val d))) =
        machine rl_step buf stop (Suc p1 + length ds) (?maj (of_nat (dec_acc (digit_val d) ds)))"
      unfolding fold_digit16 [OF d(3), symmetric] .
    then show ?thesis unfolding p2 by simp
  qed
  also have "\<dots> = machine rl_step buf stop (Suc p2) (sw_first_minor_digit, ?r)"
    using rl.machine_avail [OF a1(4), of "(sw_major_digit, ?r)"] by (simp add: rl_step_def rl_major_digit_def)
  also have "\<dots> = machine rl_step buf stop (Suc (Suc p2)) (?min (of_nat (digit_val e)))"
    using rl.machine_avail [OF a1(5), of "(sw_first_minor_digit, ?r)"] e
    by (simp add: rl_step_def rl_first_minor_digit_def digit16_of_nat)
  also have "\<dots> = machine rl_step buf stop q (?min (of_nat (dec_value (e # es))))"
  proof -
    have "rl_step buf p c (?min v) = Next (?min (v * 10 + digit16 c))" if "c \<in> set es" for p c v
      using that e digit_not [of c] by (simp add: rl_step_def rl_minor_digit_def list_all_iff)
    from rl.machine_fold [of es buf ?min "\<lambda>c v. v * 10 + digit16 c", OF this a1(6)]
    have "machine rl_step buf stop (Suc (Suc p2)) (?min (of_nat (digit_val e))) =
        machine rl_step buf stop (Suc (Suc p2) + length es) (?min (of_nat (dec_acc (digit_val e) es)))"
      using fold_digit16 [of es "digit_val e"] e by simp
    then show ?thesis unfolding qp by simp
  qed
  also have "\<dots> = machine rl_step buf stop (Suc q) (sw_almost_done, snd (?min (of_nat (dec_value (e # es)))))"
    using rl.machine_avail [OF a1(7)] by (simp add: rl_step_def rl_minor_digit_def)
  also have "\<dots> = Some (Some Goto_done, Suc q, (sw_almost_done,
      snd (?min (of_nat (dec_value (e # es))))\<lparr>r_request_end := Some q\<rparr>))"
    using rl.machine_avail [OF a1(8)] by (simp add: rl_step_def rl_almost_done_def Let_def)
  finally show ?thesis by simp
qed

section \<open>The whole line\<close>

text \<open>
  C5: A well formed request line is read as it is meant. With a method of capital letters, a URI that
  starts with a slash and has no space, CR, LF or NUL, and a version \<open>major.minor\<close>, the parser stops
  behind the line, with the known method's code (or the code it had before), the bounds of the URI and
  the version \<open>1000 major + minor\<close>. The two numbers are kept in 16 bits: they wrap, and are not
  checked.
\<close>

theorem ngx_http_parse_request_line_wellformed:
  assumes m: "m \<noteq> []" "list_all is_method_char m"
    and path: "set path \<inter> {0, CR, LF, SP} = {}"
    and d: "ch CHR ''1'' \<le> d" "d \<le> ch CHR ''9''" "list_all is_digit ds" and e: "list_all is_digit (e # es)"
    and line: "line = m @ SP # ch CHR ''/'' # path @ SP # bytes ''HTTP/'' @ d # ds @ ch CHR ''.'' # e # es @ [CR, LF]"
    and b: "avail (buf_mem b) (buf_last b) (buf_pos b) line" and r0: "r_request_end r0 = None"
    and version: "version = dec_value (d # ds) mod 65536 * 1000 + dec_value (e # es) mod 65536"
    and u: "u = buf_pos b + length m + 1"
  shows "\<exists>r b'. ngx_http_parse_request_line (sw_start, r0) b =
      Some (if version = 9 \<and> method_of m (r_method r0) \<noteq> NGX_HTTP_GET
            then NGX_HTTP_PARSE_INVALID_09_METHOD else NGX_OK, (sw_start, r), b') \<and>
    buf_pos b' = buf_pos b + length line \<and> r_method r = method_of m (r_method r0) \<and>
    r_request_start r = Some (buf_pos b) \<and> r_method_end r = Some (buf_pos b + length m - 1) \<and>
    r_uri_start r = Some u \<and> r_uri_end r = Some (u + 1 + length path) \<and>
    r_request_end r = Some (buf_pos b + length line - 2) \<and> r_http_version r = version"
proof -
  let ?buf = "buf_mem b" and ?stop = "buf_last b" and ?p = "buf_pos b"
  let ?r1 = "r0\<lparr>r_request_start := Some ?p, r_method_end := Some (?p + length m - 1),
         r_method := method_of m (r_method r0), r_uri_start := Some u\<rparr>"
  let ?tail = "bytes ''TTP/'' @ d # ds @ ch CHR ''.'' # e # es @ [CR, LF]"
  have http: "bytes ''HTTP/'' = ch CHR ''H'' # bytes ''TTP/''" by (simp add: bytes_def)
  have a1: "avail ?buf ?stop ?p (m @ SP # ch CHR ''/'' # path @ SP # ch CHR ''H'' # ?tail)"
    using b line http by simp
  have a2: "avail ?buf ?stop (u + 1) (path @ SP # ch CHR ''H'' # ?tail)"
    using a1 u by (simp add: avail_append [of _ _ _ m] avail_Cons)
  have a3: "avail ?buf ?stop (u + length path + 3) ?tail"
    using a2 u by (simp add: avail_append [of _ _ _ path] avail_Cons numeral_eq_Suc)
  obtain r2 where r2: "machine rl_step ?buf ?stop (u + 1) (sw_after_slash_in_uri, ?r1) =
      machine rl_step ?buf ?stop (u + 1 + length path + 2)
        (sw_http_H, r2\<lparr>r_uri_end := Some (u + 1 + length path), r_http_protocol := Some (u + 1 + length path + 1)\<rparr>)"
    and core: "same_core ?r1 r2"
    using uri_block_end [OF a2 path, of ?r1] by blast
  let ?q = "?p + length line - 2"
  let ?r3 = "r2\<lparr>r_uri_end := Some (u + 1 + length path), r_http_protocol := Some (u + 1 + length path + 1),
      r_http_major := of_nat (dec_value (d # ds)), r_http_minor := of_nat (dec_value (e # es)),
      r_request_end := Some ?q\<rparr>"
  have len: "?q = (u + length path + 3) + length ds + length es + 7" "?q + 1 = ?p + length line - 1"
    using line u by simp_all
  have "machine rl_step ?buf ?stop ?p (sw_start, r0) = machine rl_step ?buf ?stop (u + 1) (sw_after_slash_in_uri, ?r1)"
    using method_block [OF a1 m, of r0] u by simp
  also have "\<dots> = Some (Some Goto_done, ?q + 1, (sw_almost_done, ?r3))"
    using r2 version_block [OF a3 d e len(1)] by (simp add: numeral_eq_Suc)
  finally have m: "machine rl_step ?buf ?stop ?p (sw_start, r0) = Some (Some Goto_done, ?q + 1, (sw_almost_done, ?r3))" .
  have v: "unat (of_nat (dec_value (d # ds)) :: 16 word) * 1000 + unat (of_nat (dec_value (e # es)) :: 16 word) = version"
    using version by (simp add: unat_of_nat del: dec_acc_simps)
  let ?r4 = "?r3\<lparr>r_http_version := version\<rparr>"
  have "rl_done (?q + 1) ?r3 = (if version = 9 \<and> method_of m (r_method r0) \<noteq> NGX_HTTP_GET
      then NGX_HTTP_PARSE_INVALID_09_METHOD else NGX_OK, ?r4)"
    using v same_core_fields(1) [OF core] by (auto simp: rl_done_def Let_def simp del: dec_acc_simps)
  then have "ngx_http_parse_request_line (sw_start, r0) b =
      Some (if version = 9 \<and> method_of m (r_method r0) \<noteq> NGX_HTTP_GET
            then NGX_HTTP_PARSE_INVALID_09_METHOD else NGX_OK, (sw_start, ?r4), b\<lparr>buf_pos := ?q + 1 + 1\<rparr>)"
    unfolding ngx_http_parse_request_line_def m by (simp del: dec_acc_simps)
  then show ?thesis
    using same_core_fields [OF core] line by (intro exI [of _ ?r4] exI) (auto simp del: dec_acc_simps)
qed

theorem ngx_http_parse_request_line_wellformed_witness:
  "\<exists>r b'. ngx_http_parse_request_line (sw_start, fresh_request)
      \<lparr>buf_mem = bytes ''GET /a HTTP/1.0'' @ [CR, LF], buf_pos = 0, buf_last = 17\<rparr> =
      Some (NGX_OK, (sw_start, r), b') \<and> r_method r = NGX_HTTP_GET \<and> r_http_version r = 1000 \<and>
    r_uri_start r = Some 4 \<and> r_uri_end r = Some 6"
proof -
  let ?b = "\<lparr>buf_mem = bytes ''GET /a HTTP/1.0'' @ [CR, LF], buf_pos = 0, buf_last = 17\<rparr>"
  let ?line = "bytes ''GET'' @ SP # ch CHR ''/'' # bytes ''a'' @ SP # bytes ''HTTP/'' @
     ch CHR ''1'' # [] @ ch CHR ''.'' # ch CHR ''0'' # [] @ [CR, LF]"
  have line: "avail (buf_mem ?b) (buf_last ?b) (buf_pos ?b) ?line"
    by (simp add: avail_def byte_simps)
  have get: "method_of (bytes ''GET'') d = NGX_HTTP_GET" for d
    by (simp add: method_of_def http_methods_def)
  have "list_all is_method_char (bytes ''GET'')" "bytes ''GET'' \<noteq> []" by (simp_all add: byte_simps)
  moreover have "set (bytes ''a'') \<inter> {0, CR, LF, SP} = {}" "list_all is_digit [ch CHR ''0'']"
    "ch CHR ''1'' \<le> ch CHR ''1''" "ch CHR ''1'' \<le> ch CHR ''9''" "list_all is_digit []"
    by (simp_all add: byte_simps)
  moreover have "r_request_end fresh_request = None" by (simp add: fresh_request_def)
  moreover have "(1000 :: nat) = dec_value [ch CHR ''1''] mod 65536 * 1000 + dec_value [ch CHR ''0''] mod 65536"
    by (simp add: digit_val_def byte_simps)
  ultimately show ?thesis
    using ngx_http_parse_request_line_wellformed
      [of "bytes ''GET''" "bytes ''a''" "ch CHR ''1''" "[]" "ch CHR ''0''" "[]", OF _ _ _ _ _ _ _ refl line _ _ refl,
        of fresh_request 1000]
    by (auto simp: get)
qed

end
