(* ===== verification/Ngx_Http_Header_Line.thy ===== *)
theory Ngx_Http_Header_Line
  imports Ngx_Http_Request
begin

text \<open>
  \<open>ngx_http_parse_header_line\<close> of src/http/ngx_http_parse.c. The members \<open>state\<close>, \<open>header_hash\<close> and
  \<open>lowcase_index\<close> of the request, which the code copies to local variables and stores back at two of its
  exits, are the first three components of the argument and of the result; the record has the other
  members. A write outside of the 32 bytes of \<open>lowcase_header\<close> is the exit \<open>Fault\<close>.
\<close>

datatype hl_state = hl_start | hl_name | hl_space_before_value | hl_value | hl_space_after_value
  | hl_ignore_line | hl_almost_done | hl_header_almost_done

datatype hl_exit = Hl_done | Hl_header_done | Hl_return ngx_int_t | Fault

record hl_request =
  h_lowcase_header :: "byte list"
  h_header_name_start :: ptr
  h_header_name_end :: ptr
  h_header_start :: ptr
  h_header_end :: ptr
  h_invalid_header :: bool
  h_upstream :: bool

type_synonym hl_local = "hl_state \<times> ngx_uint_t \<times> nat \<times> hl_request"
type_synonym hl_action = "(hl_exit, hl_local) action"

abbreviation (input) NGX_HTTP_LC_HEADER_LEN :: nat where "NGX_HTTP_LC_HEADER_LEN \<equiv> 32"

definition ngx_hash :: "ngx_uint_t \<Rightarrow> byte \<Rightarrow> ngx_uint_t" where
  "ngx_hash key c = key * 31 + ucast c"

definition lowcase :: "byte list" where
  "lowcase = replicate 32 0 @
     replicate 13 0 @ [ch CHR ''-''] @ replicate 2 0 @ bytes ''0123456789'' @ replicate 6 0 @
     [0] @ bytes ''abcdefghijklmnopqrstuvwxyz'' @ replicate 5 0 @
     [0] @ bytes ''abcdefghijklmnopqrstuvwxyz'' @ replicate 5 0 @
     replicate 32 0 @ replicate 32 0 @ replicate 32 0 @ replicate 32 0"

section \<open>The states\<close>

definition hl_start_step :: "nat \<Rightarrow> byte \<Rightarrow> ngx_uint_t \<Rightarrow> nat \<Rightarrow> hl_request \<Rightarrow> hl_action" where
  "hl_start_step p c hash i r =
     (let r = r\<lparr>h_header_name_start := Some p, h_invalid_header := False\<rparr>
      in if c = CR then Next (hl_header_almost_done, hash, i, r\<lparr>h_header_end := Some p\<rparr>)
         else if c = LF then Exit Hl_header_done (hl_start, hash, i, r\<lparr>h_header_end := Some p\<rparr>)
         else if lowcase ! unat c \<noteq> 0 then
           Next (hl_name, ngx_hash 0 (lowcase ! unat c), 1,
                 r\<lparr>h_lowcase_header := (h_lowcase_header r)[0 := lowcase ! unat c]\<rparr>)
         else if c = 0 then Exit (Hl_return NGX_HTTP_PARSE_INVALID_HEADER) (hl_start, hash, i, r)
         else Next (hl_name, hash, i, r\<lparr>h_invalid_header := True\<rparr>))"

text \<open>\<open>lowcase_header[i++] = c; i &= (NGX_HTTP_LC_HEADER_LEN - 1)\<close>, in the state \<open>sw_name\<close>.\<close>

definition hl_put :: "byte \<Rightarrow> ngx_uint_t \<Rightarrow> nat \<Rightarrow> hl_request \<Rightarrow> hl_action" where
  "hl_put c hash i r =
     (if i < NGX_HTTP_LC_HEADER_LEN then
        Next (hl_name, ngx_hash hash c, (i + 1) mod NGX_HTTP_LC_HEADER_LEN,
              r\<lparr>h_lowcase_header := (h_lowcase_header r)[i := c]\<rparr>)
      else Exit Fault (hl_name, hash, i, r))"

definition hl_name_step ::
    "bool \<Rightarrow> byte list \<Rightarrow> nat \<Rightarrow> byte \<Rightarrow> ngx_uint_t \<Rightarrow> nat \<Rightarrow> hl_request \<Rightarrow> hl_action" where
  "hl_name_step allow_underscores buf p c hash i r =
     (if lowcase ! unat c \<noteq> 0 then hl_put (lowcase ! unat c) hash i r
      else if c = ch CHR ''_'' then
        (if allow_underscores then hl_put c hash i r
         else Next (hl_name, hash, i, r\<lparr>h_invalid_header := True\<rparr>))
      else if c = ch CHR '':'' then Next (hl_space_before_value, hash, i, r\<lparr>h_header_name_end := Some p\<rparr>)
      else if c = CR then
        Next (hl_almost_done, hash, i,
              r\<lparr>h_header_name_end := Some p, h_header_start := Some p, h_header_end := Some p\<rparr>)
      else if c = LF then
        Exit Hl_done (hl_name, hash, i,
              r\<lparr>h_header_name_end := Some p, h_header_start := Some p, h_header_end := Some p\<rparr>)
      else if c = ch CHR ''/'' \<and> h_upstream r \<and>
          (case h_header_name_start r of None \<Rightarrow> False
           | Some s \<Rightarrow> p - s = 4 \<and> drop s (take p buf) = bytes ''HTTP'')
        then Next (hl_ignore_line, hash, i, r)
      else if c = 0 then Exit (Hl_return NGX_HTTP_PARSE_INVALID_HEADER) (hl_name, hash, i, r)
      else Next (hl_name, hash, i, r\<lparr>h_invalid_header := True\<rparr>))"

definition hl_space_before_value_step :: "nat \<Rightarrow> byte \<Rightarrow> ngx_uint_t \<Rightarrow> nat \<Rightarrow> hl_request \<Rightarrow> hl_action" where
  "hl_space_before_value_step p c hash i r =
     (if c = SP then Next (hl_space_before_value, hash, i, r)
      else if c = CR then
        Next (hl_almost_done, hash, i, r\<lparr>h_header_start := Some p, h_header_end := Some p\<rparr>)
      else if c = LF then
        Exit Hl_done (hl_space_before_value, hash, i, r\<lparr>h_header_start := Some p, h_header_end := Some p\<rparr>)
      else if c = 0 then Exit (Hl_return NGX_HTTP_PARSE_INVALID_HEADER) (hl_space_before_value, hash, i, r)
      else Next (hl_value, hash, i, r\<lparr>h_header_start := Some p\<rparr>))"

definition hl_value_step :: "nat \<Rightarrow> byte \<Rightarrow> ngx_uint_t \<Rightarrow> nat \<Rightarrow> hl_request \<Rightarrow> hl_action" where
  "hl_value_step p c hash i r =
     (if c = SP then Next (hl_space_after_value, hash, i, r\<lparr>h_header_end := Some p\<rparr>)
      else if c = CR then Next (hl_almost_done, hash, i, r\<lparr>h_header_end := Some p\<rparr>)
      else if c = LF then Exit Hl_done (hl_value, hash, i, r\<lparr>h_header_end := Some p\<rparr>)
      else if c = 0 then Exit (Hl_return NGX_HTTP_PARSE_INVALID_HEADER) (hl_value, hash, i, r)
      else Next (hl_value, hash, i, r))"

definition hl_space_after_value_step :: "byte \<Rightarrow> ngx_uint_t \<Rightarrow> nat \<Rightarrow> hl_request \<Rightarrow> hl_action" where
  "hl_space_after_value_step c hash i r =
     (if c = SP then Next (hl_space_after_value, hash, i, r)
      else if c = CR then Next (hl_almost_done, hash, i, r)
      else if c = LF then Exit Hl_done (hl_space_after_value, hash, i, r)
      else if c = 0 then Exit (Hl_return NGX_HTTP_PARSE_INVALID_HEADER) (hl_space_after_value, hash, i, r)
      else Next (hl_value, hash, i, r))"

definition hl_end_step :: "hl_state \<Rightarrow> byte \<Rightarrow> ngx_uint_t \<Rightarrow> nat \<Rightarrow> hl_request \<Rightarrow> hl_action" where
  "hl_end_step st c hash i r =
     (if st = hl_ignore_line then
        (if c = LF then Next (hl_start, hash, i, r) else Next (hl_ignore_line, hash, i, r))
      else if st = hl_almost_done then
        (if c = LF then Exit Hl_done (hl_almost_done, hash, i, r)
         else if c = CR then Next (hl_almost_done, hash, i, r)
         else Exit (Hl_return NGX_HTTP_PARSE_INVALID_HEADER) (hl_almost_done, hash, i, r))
      else if c = LF then Exit Hl_header_done (hl_header_almost_done, hash, i, r)
      else Exit (Hl_return NGX_HTTP_PARSE_INVALID_HEADER) (hl_header_almost_done, hash, i, r))"

definition hl_step :: "bool \<Rightarrow> (hl_exit, hl_local) stepper" where
  "hl_step allow_underscores buf p c s =
     (case s of (st, hash, i, r) \<Rightarrow>
        (case st of
           hl_start \<Rightarrow> hl_start_step p c hash i r
         | hl_name \<Rightarrow> hl_name_step allow_underscores buf p c hash i r
         | hl_space_before_value \<Rightarrow> hl_space_before_value_step p c hash i r
         | hl_value \<Rightarrow> hl_value_step p c hash i r
         | hl_space_after_value \<Rightarrow> hl_space_after_value_step c hash i r
         | _ \<Rightarrow> hl_end_step st c hash i r))"

definition ngx_http_parse_header_line ::
    "hl_local \<Rightarrow> ngx_buf_t \<Rightarrow> bool \<Rightarrow> (ngx_int_t \<times> hl_local \<times> ngx_buf_t) option" where
  "ngx_http_parse_header_line s b allow_underscores =
     (case machine (hl_step allow_underscores) (buf_mem b) (buf_last b) (buf_pos b) s of
        None \<Rightarrow> None
      | Some (x, p, (st, hash, i, r)) \<Rightarrow>
          (case s of (st0, hash0, i0, r0) \<Rightarrow>
             (case x of
                None \<Rightarrow> Some (NGX_AGAIN, (st, hash, i, r), b\<lparr>buf_pos := p\<rparr>)
              | Some Hl_done \<Rightarrow> Some (NGX_OK, (hl_start, hash, i, r), b\<lparr>buf_pos := p + 1\<rparr>)
              | Some Hl_header_done \<Rightarrow>
                  Some (NGX_HTTP_PARSE_HEADER_DONE, (hl_start, hash0, i0, r), b\<lparr>buf_pos := p + 1\<rparr>)
              | Some (Hl_return rc) \<Rightarrow> Some (rc, (st0, hash0, i0, r), b)
              | Some Fault \<Rightarrow> None)))"

lemmas hl_state_defs = hl_start_step_def hl_name_step_def hl_put_def hl_space_before_value_step_def
  hl_value_step_def hl_space_after_value_step_def hl_end_step_def

section \<open>The table of lower case letters\<close>

definition lowcase_fun :: "nat \<Rightarrow> byte" where
  "lowcase_fun n =
     (if n = 45 \<or> 48 \<le> n \<and> n \<le> 57 \<or> 97 \<le> n \<and> n \<le> 122 then of_nat n
      else if 65 \<le> n \<and> n \<le> 90 then of_nat (n + 32) else 0)"

lemma lowcase_table: "lowcase = map lowcase_fun [0..<256]"
  by code_simp

lemma lowcase_nth: "lowcase ! unat (c :: byte) = lowcase_fun (unat c)"
  using unat_less_256 [of c] by (simp add: lowcase_table)

section \<open>Termination, splitting and memory safety\<close>

lemma hl_step_redo: "hl_step au buf p c s \<noteq> Redo s'"
  by (cases s; cases "fst s")
     (auto simp: hl_step_def hl_state_defs Let_def split: option.splits)

interpretation hl: byte_machine "hl_step au" "\<lambda>_. 0" for au
proof unfold_locales
  show "(0::nat) < 0" if "hl_step au buf p c s = Redo s'" for buf p c s s'
    using that hl_step_redo by blast
  show "hl_step au buf p c s = hl_step au buf' p c s" if "take p buf = take p buf'" for buf buf' p c s
  proof -
    have "hl_name_step au buf p c hash i r = hl_name_step au buf' p c hash i r" for hash i r
      unfolding hl_name_step_def that ..
    then show ?thesis unfolding hl_step_def by presburger
  qed
qed

definition hl_inv :: "hl_local \<Rightarrow> bool" where
  "hl_inv s \<longleftrightarrow> (case s of (st, hash, i, r) \<Rightarrow> i < 32 \<and> length (h_lowcase_header r) = 32)"

definition hl_exit_ok :: "hl_exit \<Rightarrow> bool" where
  "hl_exit_ok x \<longleftrightarrow> x \<in> {Hl_done, Hl_header_done, Hl_return NGX_HTTP_PARSE_INVALID_HEADER}"

lemma hl_step_inv:
  "hl_inv s \<Longrightarrow> (case hl_step au buf p c s of Next s' \<Rightarrow> hl_inv s' | Redo s' \<Rightarrow> hl_inv s'
     | Exit x s' \<Rightarrow> hl_exit_ok x \<and> hl_inv s')"
  by (cases s; cases "fst s")
     (auto simp: hl_inv_def hl_exit_ok_def hl_step_def hl_state_defs Let_def split: option.splits)

lemma hl_run:
  assumes "buf_last b \<le> length (buf_mem b)" "buf_pos b \<le> buf_last b" "hl_inv s"
  obtains x q s' where "machine (hl_step au) (buf_mem b) (buf_last b) (buf_pos b) s = Some (x, q, s')"
    "if x = None then q = buf_last b else q < buf_last b" "hl_inv s'"
    "\<And>l. x = Some l \<Longrightarrow> hl_exit_ok l"
proof -
  obtain x q s' where m: "machine (hl_step au) (buf_mem b) (buf_last b) (buf_pos b) s = Some (x, q, s')"
    "buf_pos b \<le> q" "if x = None then q = buf_last b else q < buf_last b"
    using hl.machine_total [OF assms(1,2), of au s] by blast
  have "case x of None \<Rightarrow> hl_inv s' | Some l \<Rightarrow> hl_exit_ok l \<and> hl_inv s'"
    by (rule hl.machine_invariant [OF _ assms(1) _ assms(2) m(1), of "\<lambda>_. hl_inv"])
       (use hl_step_inv assms(3) in \<open>auto split: action.splits\<close>)
  then show thesis using that [OF m(1)] m by (auto split: option.splits)
qed

text \<open>The answer of a call: the return code, the request, and what a result stores of hash and index.\<close>

definition hl_answer :: "ngx_int_t \<times> hl_local \<times> ngx_buf_t \<Rightarrow> ngx_int_t \<times> hl_request \<times> (ngx_uint_t \<times> nat) option" where
  "hl_answer res = (case res of (rc, (st, hash, i, r), b) \<Rightarrow>
     (rc, r, if rc = NGX_OK \<or> rc = NGX_AGAIN then Some (hash, i) else None))"

fun hl_ans :: "hl_exit option \<Rightarrow> hl_local \<Rightarrow> ngx_int_t \<times> hl_request \<times> (ngx_uint_t \<times> nat) option" where
  "hl_ans None (st, hash, i, r) = (NGX_AGAIN, r, Some (hash, i))"
| "hl_ans (Some Hl_done) (st, hash, i, r) = (NGX_OK, r, Some (hash, i))"
| "hl_ans (Some Hl_header_done) (st, hash, i, r) = (NGX_HTTP_PARSE_HEADER_DONE, r, None)"
| "hl_ans (Some _) (st, hash, i, r) = (NGX_HTTP_PARSE_INVALID_HEADER, r, None)"

lemma hl_parse_answer:
  assumes m: "machine (hl_step au) (buf_mem b) (buf_last b) (buf_pos b) s = Some (x, q, s')"
    and ok: "\<And>l. x = Some l \<Longrightarrow> hl_exit_ok l" and inv: "hl_inv s" "hl_inv s'"
  shows "\<exists>rc s1 b'. ngx_http_parse_header_line s b au = Some (rc, s1, b') \<and> hl_inv s1 \<and>
    hl_answer (rc, s1, b') = hl_ans x s' \<and>
    rc \<in> {NGX_OK, NGX_AGAIN, NGX_HTTP_PARSE_HEADER_DONE, NGX_HTTP_PARSE_INVALID_HEADER} \<and>
    (rc = NGX_AGAIN \<longleftrightarrow> x = None) \<and> (x = None \<longrightarrow> s1 = s' \<and> buf_pos b' = q)"
proof -
  obtain st hash i r st0 hash0 i0 r0 where s: "s' = (st, hash, i, r)" "s = (st0, hash0, i0, r0)"
    by (cases s; cases s')
  consider "x = None" | "x = Some Hl_done" | "x = Some Hl_header_done"
    | "x = Some (Hl_return NGX_HTTP_PARSE_INVALID_HEADER)"
    using ok by (cases x) (auto simp: hl_exit_ok_def)
  then show ?thesis
    by cases (use m inv in \<open>simp_all add: ngx_http_parse_header_line_def s hl_answer_def hl_inv_def\<close>)
qed

text \<open>
  C11: \<open>ngx_http_parse_header_line\<close> returns, never writes outside of \<open>lowcase_header\<close> and keeps its index
  below 32; and it does not matter how the header is cut into reads: after NGX_AGAIN the next call gives
  the answer that one call on all the bytes gives, and any other answer does not depend on later bytes.
\<close>

theorem ngx_http_parse_header_line_incremental:
  assumes b1: "buf_pos b1 \<le> buf_last b1" "buf_last b1 \<le> length (buf_mem b1)"
    and b2: "buf_last b1 \<le> buf_last b2" "buf_last b2 \<le> length (buf_mem b2)" "buf_pos b2 = buf_pos b1"
      "take (buf_last b1) (buf_mem b1) = take (buf_last b1) (buf_mem b2)"
    and s: "hl_inv s"
  shows "\<exists>rc s1 b1'. ngx_http_parse_header_line s b1 au = Some (rc, s1, b1') \<and> hl_inv s1 \<and>
    rc \<in> {NGX_OK, NGX_AGAIN, NGX_HTTP_PARSE_HEADER_DONE, NGX_HTTP_PARSE_INVALID_HEADER} \<and>
    ngx_http_parse_header_line s b2 au \<noteq> None \<and>
    map_option hl_answer (ngx_http_parse_header_line s b2 au) =
      (if rc = NGX_AGAIN
       then map_option hl_answer (ngx_http_parse_header_line s1 (b2\<lparr>buf_pos := buf_pos b1'\<rparr>) au)
       else Some (hl_answer (rc, s1, b1')))"
proof -
  obtain x q s' where m1: "machine (hl_step au) (buf_mem b1) (buf_last b1) (buf_pos b1) s = Some (x, q, s')"
    and q: "if x = None then q = buf_last b1 else q < buf_last b1" and inv: "hl_inv s'"
    and ex: "\<And>l. x = Some l \<Longrightarrow> hl_exit_ok l"
    by (rule hl_run [OF b1(2,1) s, of au]) (rule that)
  note m2 = hl.machine_split [OF b2(1,2) b1(2) b2(4) b1(1) m1]
  obtain rc s1 b1' where 1: "ngx_http_parse_header_line s b1 au = Some (rc, s1, b1')" "hl_inv s1"
    "hl_answer (rc, s1, b1') = hl_ans x s'"
    "rc \<in> {NGX_OK, NGX_AGAIN, NGX_HTTP_PARSE_HEADER_DONE, NGX_HTTP_PARSE_INVALID_HEADER}"
    "rc = NGX_AGAIN \<longleftrightarrow> x = None" "x = None \<longrightarrow> s1 = s' \<and> buf_pos b1' = q"
    using hl_parse_answer [OF m1 ex s inv] by blast
  show ?thesis
  proof (cases x)
    case None
    let ?b = "b2\<lparr>buf_pos := buf_last b1\<rparr>"
    obtain y q2 s2 where m3: "machine (hl_step au) (buf_mem ?b) (buf_last ?b) (buf_pos ?b) s' = Some (y, q2, s2)"
      and y: "hl_inv s2" "\<And>l. y = Some l \<Longrightarrow> hl_exit_ok l"
      by (rule hl_run [of ?b s' au]) (use b2(1,2) inv in auto)
    have m2': "machine (hl_step au) (buf_mem b2) (buf_last b2) (buf_pos b2) s = Some (y, q2, s2)"
      using m2 m3 None b2(3) by simp
    obtain r3 where r3: "ngx_http_parse_header_line s' ?b au = Some r3" "hl_answer r3 = hl_ans y s2"
      using hl_parse_answer [OF m3 y(2) inv y(1)] by blast
    obtain r2 where r2: "ngx_http_parse_header_line s b2 au = Some r2" "hl_answer r2 = hl_ans y s2"
      using hl_parse_answer [OF m2' y(2) s y(1)] by blast
    then have "ngx_http_parse_header_line s b2 au \<noteq> None" by simp
    have "rc = NGX_AGAIN" "s1 = s'" "buf_pos b1' = buf_last b1" using 1(5,6) None q by simp_all
    then have "map_option hl_answer (ngx_http_parse_header_line s b2 au) =
      (if rc = NGX_AGAIN then map_option hl_answer (ngx_http_parse_header_line s1 (b2\<lparr>buf_pos := buf_pos b1'\<rparr>) au)
       else Some (hl_answer (rc, s1, b1')))"
      using r2 r3 by simp
    with 1(1,2,4) \<open>ngx_http_parse_header_line s b2 au \<noteq> None\<close> show ?thesis by blast
  next
    case (Some l)
    have m2': "machine (hl_step au) (buf_mem b2) (buf_last b2) (buf_pos b2) s = Some (x, q, s')"
      using m2 Some b2(3) by simp
    obtain r2 where "ngx_http_parse_header_line s b2 au = Some r2" "hl_answer r2 = hl_ans x s'"
      using hl_parse_answer [OF m2' ex s inv] by blast
    moreover have "rc \<noteq> NGX_AGAIN" using 1(5) Some by simp
    ultimately have "ngx_http_parse_header_line s b2 au \<noteq> None"
      "map_option hl_answer (ngx_http_parse_header_line s b2 au) =
      (if rc = NGX_AGAIN then map_option hl_answer (ngx_http_parse_header_line s1 (b2\<lparr>buf_pos := buf_pos b1'\<rparr>) au)
       else Some (hl_answer (rc, s1, b1')))"
      using 1(3) by simp_all
    with 1(1,2,4) show ?thesis by blast
  qed
qed

theorem ngx_http_parse_header_line_incremental_witness:
  "\<exists>rc s1 b1'. ngx_http_parse_header_line
      (hl_start, 0, 0, \<lparr>h_lowcase_header = replicate 32 0, h_header_name_start = None, h_header_name_end = None,
         h_header_start = None, h_header_end = None, h_invalid_header = False, h_upstream = False\<rparr>)
      \<lparr>buf_mem = bytes ''Ho'', buf_pos = 0, buf_last = 2\<rparr> False = Some (rc, s1, b1') \<and> hl_inv s1"
  using ngx_http_parse_header_line_incremental
    [of "\<lparr>buf_mem = bytes ''Ho'', buf_pos = 0, buf_last = 2\<rparr>"
        "\<lparr>buf_mem = bytes ''Host'', buf_pos = 0, buf_last = 4\<rparr>"
        "(hl_start, 0, 0, \<lparr>h_lowcase_header = replicate 32 0, h_header_name_start = None, h_header_name_end = None,
         h_header_start = None, h_header_end = None, h_invalid_header = False, h_upstream = False\<rparr>)" False]
  by (simp add: bytes_def hl_inv_def) blast

section \<open>Well formed header lines\<close>

definition name_char :: "byte \<Rightarrow> bool" where
  "name_char c \<longleftrightarrow> lowcase ! unat c \<noteq> 0"

text \<open>Writing \<open>cs\<close> to the 32-byte ring from index \<open>i\<close> on.\<close>

fun ring_write :: "byte list \<Rightarrow> nat \<Rightarrow> byte list \<Rightarrow> byte list" where
  "ring_write [] i buf = buf"
| "ring_write (c # cs) i buf = ring_write cs (Suc i mod 32) (buf[i := c])"

lemma length_ring_write [simp]: "length (ring_write cs i buf) = length buf"
  by (induction cs i buf rule: ring_write.induct) auto

lemma ring_write_prefix:
  "i + length cs \<le> 32 \<Longrightarrow> length buf = 32 \<Longrightarrow> take (i + length cs) (ring_write cs i buf) = take i buf @ cs"
proof (induction cs i buf rule: ring_write.induct)
  case (2 c cs i buf)
  show ?case
  proof (cases "cs = []")
    case True
    then show ?thesis using 2 by (simp add: take_Suc_conv_app_nth)
  next
    case False
    then have "Suc i < 32" using "2.prems" by (cases cs) auto
    then show ?thesis using 2 by (simp add: take_Suc_conv_app_nth)
  qed
qed simp

lemma name_char_not:
  "name_char c \<Longrightarrow> c \<noteq> CR \<and> c \<noteq> LF \<and> c \<noteq> 0"
  by (auto simp: name_char_def lowcase_nth lowcase_fun_def)

lemma name_block:
  "avail buf stop p cs \<Longrightarrow> list_all name_char cs \<Longrightarrow> i < 32 \<Longrightarrow>
   machine (hl_step au) buf stop p (hl_name, hash, i, r) =
     machine (hl_step au) buf stop (p + length cs)
       (hl_name, fold (\<lambda>c h. ngx_hash h (lowcase ! unat c)) cs hash, (i + length cs) mod 32,
        r\<lparr>h_lowcase_header := ring_write (map (\<lambda>c. lowcase ! unat c) cs) i (h_lowcase_header r)\<rparr>)"
proof (induction cs arbitrary: p hash i r)
  case (Cons c cs)
  let ?c = "lowcase ! unat c"
  have "machine (hl_step au) buf stop p (hl_name, hash, i, r) =
      machine (hl_step au) buf stop (Suc p) (hl_name, ngx_hash hash ?c, Suc i mod 32,
        r\<lparr>h_lowcase_header := (h_lowcase_header r)[i := ?c]\<rparr>)"
    using hl.machine_avail [OF Cons.prems(1), of au "(hl_name, hash, i, r)"] Cons.prems(2,3)
    by (simp add: hl_step_def hl_name_step_def hl_put_def name_char_def)
  also have "\<dots> = machine (hl_step au) buf stop (Suc p + length cs)
       (hl_name, fold (\<lambda>c h. ngx_hash h (lowcase ! unat c)) cs (ngx_hash hash ?c), (Suc i mod 32 + length cs) mod 32,
        (r\<lparr>h_lowcase_header := (h_lowcase_header r)[i := ?c]\<rparr>)\<lparr>h_lowcase_header :=
          ring_write (map (\<lambda>c. lowcase ! unat c) cs) (Suc i mod 32)
            (h_lowcase_header (r\<lparr>h_lowcase_header := (h_lowcase_header r)[i := ?c]\<rparr>))\<rparr>)"
    using Cons.prems by (intro Cons.IH) (auto simp: avail_Cons)
  also have "(Suc i mod 32 + length cs) mod 32 = (i + length (c # cs)) mod 32"
    by (simp add: mod_add_left_eq)
  finally show ?case by simp
qed simp

lemma value_block:
  assumes "avail buf stop p vs" "set vs \<inter> {0, CR, LF} = {}" "vs \<noteq> []" "last vs \<noteq> SP"
    and st: "st \<in> {hl_value, hl_space_after_value}"
  shows "\<exists>e. machine (hl_step au) buf stop p (st, hash, i, r) =
    machine (hl_step au) buf stop (p + length vs) (hl_value, hash, i, r\<lparr>h_header_end := e\<rparr>)"
proof -
  obtain ws v where vs: "vs = ws @ [v]" using assms(3) by (cases vs rule: rev_cases) auto
  let ?I = "\<lambda>s. \<exists>st e. st \<in> {hl_value, hl_space_after_value} \<and> s = (st, hash, i, r\<lparr>h_header_end := e\<rparr>)"
  have "\<exists>s'. hl_step au buf p x s = Next s' \<and> ?I s' \<and> True" if "x \<in> set ws" "?I s" for p x s
  proof -
    have "x \<noteq> 0" "x \<noteq> CR" "x \<noteq> LF" using that(1) assms(2) vs by auto
    then show ?thesis
      using that(2) by (auto simp: hl_step_def hl_value_step_def hl_space_after_value_step_def)
  qed
  moreover have "?I (st, hash, i, r)" using st by (intro exI [of _ st] exI [of _ "h_header_end r"]) simp
  moreover have "avail buf stop p ws" using assms(1) vs by (simp add: avail_append)
  ultimately have "\<exists>s'. machine (hl_step au) buf stop p (st, hash, i, r) =
      machine (hl_step au) buf stop (p + length ws) s' \<and> ?I s' \<and> True"
    by (intro hl.machine_block [where I = ?I and R = "\<lambda>_ _. True"]) (assumption | rule TrueI)+
  then obtain st' e where b: "st' \<in> {hl_value, hl_space_after_value}" "machine (hl_step au) buf stop p (st, hash, i, r) =
      machine (hl_step au) buf stop (p + length ws) (st', hash, i, r\<lparr>h_header_end := e\<rparr>)"
    by (elim exE conjE) simp
  have "avail buf stop (p + length ws) [v]" "v \<noteq> 0" "v \<noteq> CR" "v \<noteq> LF" "v \<noteq> SP"
    using assms vs by (auto simp: avail_append)
  then have "machine (hl_step au) buf stop (p + length ws) (st', hash, i, r\<lparr>h_header_end := e\<rparr>) =
      machine (hl_step au) buf stop (Suc (p + length ws)) (hl_value, hash, i, r\<lparr>h_header_end := e\<rparr>)"
    using hl.machine_avail [of buf stop "p + length ws" v "[]" au "(st', hash, i, r\<lparr>h_header_end := e\<rparr>)"] b(1)
    by (auto simp: hl_step_def hl_value_step_def hl_space_after_value_step_def)
  then show ?thesis using b(2) vs by auto
qed

lemma trailing_block:
  assumes a: "avail buf stop p (replicate k SP @ [CR, LF])"
  shows "machine (hl_step au) buf stop p (hl_value, hash, i, r) =
    Some (Some Hl_done, p + k + 1, (hl_almost_done, hash, i, r\<lparr>h_header_end := Some p\<rparr>))"
proof (cases k)
  case 0
  then have "p < stop" "Suc p < stop" "stop \<le> length buf" "buf ! p = CR" "buf ! Suc p = LF"
    using a by (auto simp: avail_Cons)
  then show ?thesis using 0 by (simp add: hl.machine_step hl_step_def hl_value_step_def hl_end_step_def)
next
  case (Suc n)
  let ?s = "(hl_space_after_value, hash, i, r\<lparr>h_header_end := Some p\<rparr>)" and ?q = "Suc p + n"
  have a1: "avail buf stop p (SP # replicate n SP @ [CR, LF])" "avail buf stop (Suc p) (replicate n SP)"
    and a2: "avail buf stop ?q [CR, LF]"
    using a Suc by (simp_all add: avail_append avail_Cons)
  have "machine (hl_step au) buf stop p (hl_value, hash, i, r) = machine (hl_step au) buf stop (Suc p) ?s"
    using hl.machine_avail [OF a1(1)] by (simp add: hl_step_def hl_value_step_def)
  also have "\<dots> = machine (hl_step au) buf stop ?q ?s"
    using hl.machine_fold [of "replicate n SP" au buf "\<lambda>_. ?s" "\<lambda>_ _. ()" stop "Suc p"] a1(2)
    by (simp add: hl_step_def hl_space_after_value_step_def)
  also have "\<dots> = Some (Some Hl_done, ?q + 1, (hl_almost_done, hash, i, r\<lparr>h_header_end := Some p\<rparr>))"
    using a2 by (simp add: avail_Cons hl.machine_step hl_step_def hl_space_after_value_step_def hl_end_step_def)
  finally show ?thesis using Suc by simp
qed

lemma colon: "lowcase ! unat (ch CHR '':'') = 0" "ch CHR '':'' \<noteq> ch CHR ''_''"
  unfolding lowcase_nth by (simp_all add: lowcase_fun_def byte_simps)

lemma header_name_block:
  assumes a: "avail buf stop p (name @ ch CHR '':'' # rest)" and name: "name \<noteq> []" "list_all name_char name"
    and r: "length (h_lowcase_header r) = 32"
  shows "\<exists>lc. machine (hl_step au) buf stop p (hl_start, hash, i, r) =
      machine (hl_step au) buf stop (p + length name + 1)
        (hl_space_before_value, fold (\<lambda>c h. ngx_hash h (lowcase ! unat c)) name 0, length name mod 32,
         r\<lparr>h_header_name_start := Some p, h_invalid_header := False, h_lowcase_header := lc,
           h_header_name_end := Some (p + length name)\<rparr>) \<and>
    length lc = 32 \<and> (length name \<le> 32 \<longrightarrow> take (length name) lc = map (\<lambda>c. lowcase ! unat c) name)"
proof -
  obtain c cs where cs: "name = c # cs" using name by (cases name) auto
  let ?c = "lowcase ! unat c" and ?lc = "\<lambda>c. lowcase ! unat c"
  let ?r = "r\<lparr>h_header_name_start := Some p, h_invalid_header := False, h_lowcase_header := (h_lowcase_header r)[0 := ?c]\<rparr>"
  let ?h = "fold (\<lambda>c h. ngx_hash h (?lc c)) name 0" and ?q = "p + length name"
  let ?ring = "ring_write (map ?lc cs) 1 (h_lowcase_header ?r)"
  let ?r2 = "?r\<lparr>h_lowcase_header := ?ring\<rparr>"
  have c: "?c \<noteq> 0" "c \<noteq> CR" "c \<noteq> LF" using name cs name_char_not [of c] by (auto simp: name_char_def)
  have a1: "avail buf stop p (c # cs @ ch CHR '':'' # rest)" "avail buf stop (Suc p) cs"
    "avail buf stop ?q (ch CHR '':'' # rest)"
    using a cs by (simp_all add: avail_append avail_Cons)
  have "machine (hl_step au) buf stop p (hl_start, hash, i, r) =
      machine (hl_step au) buf stop (Suc p) (hl_name, ngx_hash 0 ?c, 1, ?r)"
    using hl.machine_avail [OF a1(1), of au "(hl_start, hash, i, r)"] c
    by (simp add: hl_step_def hl_start_step_def Let_def)
  also have "\<dots> = machine (hl_step au) buf stop ?q (hl_name, ?h, length name mod 32, ?r2)"
    using name_block [OF a1(2), of 1 au "ngx_hash 0 ?c" ?r] name cs by simp
  also have "\<dots> = machine (hl_step au) buf stop (?q + 1)
      (hl_space_before_value, ?h, length name mod 32, ?r2\<lparr>h_header_name_end := Some ?q\<rparr>)"
    using hl.machine_avail [OF a1(3), of au "(hl_name, ?h, length name mod 32, ?r2)"]
    by (simp add: hl_step_def hl_name_step_def colon)
  finally have "machine (hl_step au) buf stop p (hl_start, hash, i, r) = \<dots>" .
  moreover have "length name \<le> 32 \<longrightarrow> take (length name) ?ring = map ?lc name"
    using ring_write_prefix [of 1 "map ?lc cs" "h_lowcase_header ?r"] r cs
    by (cases "h_lowcase_header r") auto
  ultimately show ?thesis using r by (intro exI [of _ ?ring]) simp
qed

text \<open>
  C10: A well formed header line \<open>name: value\<close>, with any number of spaces around the value, is read as it
  is meant: the bounds of name and value exclude the colon, the spaces and the line end; the hash is the
  hash of the name in lower case; and for a name of up to 32 bytes \<open>lowcase_header\<close> holds the name in
  lower case.
\<close>

theorem ngx_http_parse_header_line_wellformed:
  assumes name: "name \<noteq> []" "list_all name_char name"
    and v: "v \<noteq> []" "set v \<inter> {0, CR, LF} = {}" "hd v \<noteq> SP" "last v \<noteq> SP"
    and line: "line = name @ ch CHR '':'' # replicate j SP @ v @ replicate k SP @ [CR, LF]"
    and b: "avail (buf_mem b) (buf_last b) (buf_pos b) line" and r: "length (h_lowcase_header r0) = 32"
    and start: "start = buf_pos b + length name + 1 + j"
  shows "\<exists>r b'. ngx_http_parse_header_line (hl_start, hash0, i0, r0) b au =
      Some (NGX_OK, (hl_start, fold (\<lambda>c h. ngx_hash h (lowcase ! unat c)) name 0, length name mod 32, r), b') \<and>
    buf_pos b' = buf_pos b + length line \<and> \<not> h_invalid_header r \<and>
    h_header_name_start r = Some (buf_pos b) \<and> h_header_name_end r = Some (buf_pos b + length name) \<and>
    h_header_start r = Some start \<and> h_header_end r = Some (start + length v) \<and>
    (length name \<le> 32 \<longrightarrow> take (length name) (h_lowcase_header r) = map (\<lambda>c. lowcase ! unat c) name)"
proof -
  let ?buf = "buf_mem b" and ?stop = "buf_last b" and ?p = "buf_pos b"
  let ?h = "fold (\<lambda>c h. ngx_hash h (lowcase ! unat c)) name 0" and ?i = "length name mod 32"
  let ?m = "machine (hl_step au) ?buf ?stop"
  obtain w ws where w: "v = w # ws" using v(1) by (cases v) auto
  let ?tail = "replicate k SP @ [CR, LF]"
  have a1: "avail ?buf ?stop ?p (name @ ch CHR '':'' # replicate j SP @ v @ ?tail)" using b line by simp
  have a2: "avail ?buf ?stop (?p + length name + 1) (replicate j SP)" "avail ?buf ?stop start (v @ ?tail)"
    using a1 start by (simp_all add: avail_append avail_Cons)
  have a3: "avail ?buf ?stop start (w # ws @ ?tail)" "avail ?buf ?stop (Suc start) ws"
    "avail ?buf ?stop (start + length v) ?tail"
    using a2(2) w by (simp_all add: avail_append avail_Cons)
  obtain lc where lc: "?m ?p (hl_start, hash0, i0, r0) = ?m (?p + length name + 1) (hl_space_before_value, ?h, ?i,
      r0\<lparr>h_header_name_start := Some ?p, h_invalid_header := False, h_lowcase_header := lc,
         h_header_name_end := Some (?p + length name)\<rparr>)"
    "length name \<le> 32 \<Longrightarrow> take (length name) lc = map (\<lambda>c. lowcase ! unat c) name"
    using header_name_block [OF a1 name r, of au hash0 i0] by blast
  define r1 where "r1 = r0\<lparr>h_header_name_start := Some ?p, h_invalid_header := False, h_lowcase_header := lc,
         h_header_name_end := Some (?p + length name)\<rparr>"
  let ?r2 = "r1\<lparr>h_header_start := Some start\<rparr>"
  have "?m (?p + length name + 1) (hl_space_before_value, ?h, ?i, r1) = ?m start (hl_space_before_value, ?h, ?i, r1)"
    using hl.machine_fold [of "replicate j SP" au ?buf "\<lambda>_. (hl_space_before_value, ?h, ?i, r1)" "\<lambda>_ _. ()", OF _ a2(1)]
      start by (simp add: hl_step_def hl_space_before_value_step_def)
  also have "\<dots> = ?m (Suc start) (hl_value, ?h, ?i, ?r2)"
    using hl.machine_avail [OF a3(1), of au "(hl_space_before_value, ?h, ?i, r1)"] v(2,3) w
    by (simp add: hl_step_def hl_space_before_value_step_def)
  also have "\<exists>e. \<dots> = ?m (start + length v) (hl_value, ?h, ?i, ?r2\<lparr>h_header_end := e\<rparr>)"
  proof (cases "ws = []")
    case True
    then show ?thesis using w by (intro exI [of _ "h_header_end ?r2"]) simp
  next
    case False
    then show ?thesis using value_block [OF a3(2) _ False, of hl_value au ?h ?i ?r2] v(2,4) w by simp
  qed
  then obtain e where "?m (Suc start) (hl_value, ?h, ?i, ?r2) =
      ?m (start + length v) (hl_value, ?h, ?i, ?r2\<lparr>h_header_end := e\<rparr>)" by blast
  also have "\<dots> = Some (Some Hl_done, start + length v + k + 1, (hl_almost_done, ?h, ?i,
      ?r2\<lparr>h_header_end := Some (start + length v)\<rparr>))"
    using trailing_block [OF a3(3)] by simp
  finally have "?m ?p (hl_start, hash0, i0, r0) = Some (Some Hl_done, start + length v + k + 1, (hl_almost_done, ?h, ?i,
      ?r2\<lparr>h_header_end := Some (start + length v)\<rparr>))"
    using lc(1) by (simp add: r1_def)
  then show ?thesis
    using lc(2) line start by (simp add: ngx_http_parse_header_line_def r1_def)
qed

theorem ngx_http_parse_header_line_wellformed_witness:
  "\<exists>r b'. ngx_http_parse_header_line
      (hl_start, 0, 0, \<lparr>h_lowcase_header = replicate 32 0, h_header_name_start = None, h_header_name_end = None,
         h_header_start = None, h_header_end = None, h_invalid_header = False, h_upstream = False\<rparr>)
      \<lparr>buf_mem = bytes ''Te: x'' @ [CR, LF], buf_pos = 0, buf_last = 7\<rparr> False =
      Some (NGX_OK, (hl_start, ngx_hash (ngx_hash 0 (ch CHR ''t'')) (ch CHR ''e''), Suc (Suc 0), r), b') \<and>
    take (Suc (Suc 0)) (h_lowcase_header r) = bytes ''te''"
proof -
  let ?r = "\<lparr>h_lowcase_header = replicate 32 0, h_header_name_start = None, h_header_name_end = None,
         h_header_start = None, h_header_end = None, h_invalid_header = False, h_upstream = False\<rparr>"
  let ?b = "\<lparr>buf_mem = bytes ''Te: x'' @ [CR, LF], buf_pos = 0, buf_last = 7\<rparr>"
  let ?line = "bytes ''Te'' @ ch CHR '':'' # replicate 1 SP @ bytes ''x'' @ replicate 0 SP @ [CR, LF]"
  have "avail (buf_mem ?b) (buf_last ?b) (buf_pos ?b) ?line" by (simp add: avail_def byte_simps)
  moreover have lc: "lowcase ! unat (ch CHR ''T'') = ch CHR ''t''" "lowcase ! unat (ch CHR ''e'') = ch CHR ''e''"
    unfolding lowcase_nth by (simp_all add: lowcase_fun_def byte_simps)
  moreover have "list_all name_char (bytes ''Te'')"
    by (simp add: name_char_def bytes_def lc) (simp add: ch_def)
  moreover have "set (bytes ''x'') \<inter> {0, CR, LF} = {}" "hd (bytes ''x'') \<noteq> SP" "last (bytes ''x'') \<noteq> SP"
    by (simp_all add: byte_simps)
  ultimately show ?thesis
    using ngx_http_parse_header_line_wellformed [of "bytes ''Te''" "bytes ''x''", OF _ _ _ _ _ _ refl _ _ refl,
        of ?b 1 0 ?r 0 0 False]
    by (simp add: bytes_def) blast
qed

end
