(* ===== verification/Ngx_Http_Chunked.thy ===== *)
theory Ngx_Http_Chunked
  imports Ngx_Http_Request
begin

text \<open>
  \<open>ngx_http_parse_chunked\<close> of src/http/ngx_http_parse.c and the loop over one buffer of
  \<open>ngx_http_request_body_chunked_filter\<close> (src/http/ngx_http_request_body.c) that drives it. The sizes
  are 64-bit words read as signed numbers, as \<open>off_t\<close> is; their arithmetic wraps.
\<close>

datatype ck_state = sw_chunk_start | sw_chunk_size | sw_chunk_extension | sw_chunk_extension_almost_done
  | sw_chunk_data | sw_after_data | sw_after_data_almost_done | sw_last_chunk_extension
  | sw_last_chunk_extension_almost_done | sw_trailer | sw_trailer_almost_done | sw_trailer_header
  | sw_trailer_header_almost_done

datatype ck_exit = Ck_data | Ck_done | Ck_invalid

record ngx_http_chunked_t =
  ck_state :: ck_state
  ck_size :: u64
  ck_length :: u64

type_synonym ck_local = "ck_state \<times> u64"
type_synonym ck_action = "(ck_exit, ck_local) action"

abbreviation (input) HT :: byte where "HT \<equiv> 9"

definition is_hex_letter :: "byte \<Rightarrow> bool" where
  [byte_simps]: "is_hex_letter c \<longleftrightarrow> ch CHR ''a'' \<le> c OR 0x20 \<and> c OR 0x20 \<le> ch CHR ''f''"

section \<open>The states\<close>

definition ck_start :: "byte \<Rightarrow> u64 \<Rightarrow> ck_action" where
  "ck_start c sz =
     (if is_digit c then Next (sw_chunk_size, ucast (c - ch CHR ''0''))
      else if is_hex_letter c then Next (sw_chunk_size, ucast ((c OR 0x20) - ch CHR ''a'' + 10))
      else Exit Ck_invalid (sw_chunk_start, sz))"

definition ck_size_step :: "byte \<Rightarrow> u64 \<Rightarrow> ck_action" where
  "ck_size_step c sz =
     (if is_digit c then Next (sw_chunk_size, sz * 16 + ucast (c - ch CHR ''0''))
      else if is_hex_letter c then
        Next (sw_chunk_size, sz * 16 + ucast ((c OR 0x20) - ch CHR ''a'' + 10))
      else if sz = 0 then
        (if c = CR then Next (sw_last_chunk_extension_almost_done, sz)
         else if c = LF then Next (sw_trailer, sz)
         else if c = ch CHR '';'' \<or> c = SP \<or> c = HT then Next (sw_last_chunk_extension, sz)
         else Exit Ck_invalid (sw_chunk_size, sz))
      else if c = CR then Next (sw_chunk_extension_almost_done, sz)
      else if c = LF then Next (sw_chunk_data, sz)
      else if c = ch CHR '';'' \<or> c = SP \<or> c = HT then Next (sw_chunk_extension, sz)
      else Exit Ck_invalid (sw_chunk_size, sz))"

text \<open>The states of the form: CR leads to one state, LF to another, and other bytes are skipped.\<close>

definition ck_line :: "ck_state \<Rightarrow> ck_state \<Rightarrow> ck_state \<Rightarrow> byte \<Rightarrow> u64 \<Rightarrow> ck_action" where
  "ck_line st cr lf c sz =
     (if c = CR then Next (cr, sz) else if c = LF then Next (lf, sz) else Next (st, sz))"

definition ck_expect_lf :: "ck_state \<Rightarrow> ck_state \<Rightarrow> byte \<Rightarrow> u64 \<Rightarrow> ck_action" where
  "ck_expect_lf st lf c sz = (if c = LF then Next (lf, sz) else Exit Ck_invalid (st, sz))"

definition ck_trailer :: "byte \<Rightarrow> u64 \<Rightarrow> ck_action" where
  "ck_trailer c sz =
     (if c = CR then Next (sw_trailer_almost_done, sz)
      else if c = LF then Exit Ck_done (sw_trailer, sz)
      else Next (sw_trailer_header, sz))"

definition ck_trailer_almost_done :: "byte \<Rightarrow> u64 \<Rightarrow> ck_action" where
  "ck_trailer_almost_done c sz =
     (if c = LF then Exit Ck_done (sw_trailer_almost_done, sz)
      else Exit Ck_invalid (sw_trailer_almost_done, sz))"

definition ck_step :: "(ck_exit, ck_local) stepper" where
  "ck_step buf p c s =
     (case s of (st, sz) \<Rightarrow>
        (case st of
           sw_chunk_start \<Rightarrow> ck_start c sz
         | sw_chunk_size \<Rightarrow> ck_size_step c sz
         | sw_chunk_extension \<Rightarrow> ck_line st sw_chunk_extension_almost_done sw_chunk_data c sz
         | sw_chunk_extension_almost_done \<Rightarrow> ck_expect_lf st sw_chunk_data c sz
         | sw_chunk_data \<Rightarrow> Exit Ck_data (st, sz)
         | sw_after_data \<Rightarrow> ck_line st sw_after_data_almost_done sw_chunk_start c sz
         | sw_after_data_almost_done \<Rightarrow> ck_expect_lf st sw_chunk_start c sz
         | sw_last_chunk_extension \<Rightarrow> ck_line st sw_last_chunk_extension_almost_done sw_trailer c sz
         | sw_last_chunk_extension_almost_done \<Rightarrow> ck_expect_lf st sw_trailer c sz
         | sw_trailer \<Rightarrow> ck_trailer c sz
         | sw_trailer_almost_done \<Rightarrow> ck_trailer_almost_done c sz
         | sw_trailer_header \<Rightarrow> ck_line st sw_trailer_header_almost_done sw_trailer c sz
         | sw_trailer_header_almost_done \<Rightarrow> ck_expect_lf st sw_trailer c sz))"

section \<open>The parser\<close>

text \<open>The least number of bytes that have to follow, which the caller reads next.\<close>

definition ck_length_of :: "ck_state \<Rightarrow> u64 \<Rightarrow> u64" where
  "ck_length_of st sz =
     (case st of
        sw_chunk_start \<Rightarrow> 3
      | sw_chunk_size \<Rightarrow> 2 + (if sz \<noteq> 0 then sz + 4 else 0)
      | sw_chunk_extension \<Rightarrow> 1 + sz + 4
      | sw_chunk_extension_almost_done \<Rightarrow> 1 + sz + 4
      | sw_chunk_data \<Rightarrow> sz + 4
      | sw_after_data \<Rightarrow> 4
      | sw_after_data_almost_done \<Rightarrow> 4
      | sw_last_chunk_extension \<Rightarrow> 2
      | sw_last_chunk_extension_almost_done \<Rightarrow> 2
      | sw_trailer \<Rightarrow> 1
      | sw_trailer_almost_done \<Rightarrow> 1
      | sw_trailer_header \<Rightarrow> 2
      | sw_trailer_header_almost_done \<Rightarrow> 2)"

definition ngx_http_parse_chunked ::
    "ngx_http_chunked_t \<Rightarrow> ngx_buf_t \<Rightarrow> (ngx_int_t \<times> ngx_http_chunked_t \<times> ngx_buf_t) option" where
  "ngx_http_parse_chunked ctx b =
     (let state = (if ck_state ctx = sw_chunk_data \<and> ck_size ctx = 0 then sw_after_data else ck_state ctx)
      in case machine ck_step (buf_mem b) (buf_last b) (buf_pos b) (state, ck_size ctx) of
           None \<Rightarrow> None
         | Some (x, p, (state, sz)) \<Rightarrow>
             (if x = Some Ck_done then
                Some (NGX_DONE, ctx\<lparr>ck_state := sw_chunk_start, ck_size := sz\<rparr>, b\<lparr>buf_pos := p + 1\<rparr>)
              else if x = Some Ck_invalid then Some (NGX_ERROR, ctx\<lparr>ck_size := sz\<rparr>, b)
              else
                (let rc = (if x = Some Ck_data then NGX_OK else NGX_AGAIN);
                     len = ck_length_of state sz;
                     ctx = ctx\<lparr>ck_state := state, ck_size := sz, ck_length := len\<rparr>;
                     b = b\<lparr>buf_pos := p\<rparr>
                 in if sz <s 0 \<or> len <s 0 then Some (NGX_ERROR, ctx, b) else Some (rc, ctx, b))))"

section \<open>The driver\<close>

text \<open>
  The loop of \<open>ngx_http_request_body_chunked_filter\<close> over one buffer. \<open>mem\<close> has the outcomes of the
  calls of \<open>ngx_chain_get_free_buf\<close>; \<open>out\<close> collects the bytes of the buffers put on the output chain.
  The result is the return code of an error, or NGX_DONE or NGX_AGAIN for the two breaks.
\<close>

record ck_body =
  cb_chunked :: ngx_http_chunked_t
  cb_rest :: u64
  cb_content_length_n :: u64
  cb_out :: "byte list"
  cb_last_buf :: bool

abbreviation (input) NGX_HTTP_BAD_REQUEST :: ngx_int_t where "NGX_HTTP_BAD_REQUEST \<equiv> 400"
abbreviation (input) NGX_HTTP_REQUEST_ENTITY_TOO_LARGE :: ngx_int_t where "NGX_HTTP_REQUEST_ENTITY_TOO_LARGE \<equiv> 413"
abbreviation (input) NGX_HTTP_INTERNAL_SERVER_ERROR :: ngx_int_t where "NGX_HTTP_INTERNAL_SERVER_ERROR \<equiv> 500"

definition ck_take :: "ck_body \<Rightarrow> ngx_buf_t \<Rightarrow> ck_body \<times> ngx_buf_t" where
  "ck_take rb b =
     (let avail_size = of_nat (buf_last b - buf_pos b);
          sz = ck_size (cb_chunked rb)
      in if sz <s avail_size then
           (rb\<lparr>cb_chunked := (cb_chunked rb)\<lparr>ck_size := 0\<rparr>,
               cb_content_length_n := cb_content_length_n rb + sz,
               cb_out := cb_out rb @ take (unat sz) (drop (buf_pos b) (buf_mem b))\<rparr>,
            b\<lparr>buf_pos := buf_pos b + unat sz\<rparr>)
         else
           (rb\<lparr>cb_chunked := (cb_chunked rb)\<lparr>ck_size := sz - avail_size\<rparr>,
               cb_content_length_n := cb_content_length_n rb + avail_size,
               cb_out := cb_out rb @ take (buf_last b - buf_pos b) (drop (buf_pos b) (buf_mem b))\<rparr>,
            b\<lparr>buf_pos := buf_last b\<rparr>))"

partial_function (option) chunked_filter_loop ::
    "u64 \<Rightarrow> bool list \<Rightarrow> ck_body \<Rightarrow> ngx_buf_t \<Rightarrow> (ngx_int_t \<times> ck_body \<times> ngx_buf_t) option" where
  "chunked_filter_loop client_max_body_size mem rb b =
     (case ngx_http_parse_chunked (cb_chunked rb) b of
        None \<Rightarrow> None
      | Some (rc, ctx, b) \<Rightarrow>
          (let rb = rb\<lparr>cb_chunked := ctx\<rparr>
           in if rc = NGX_OK then
                (if client_max_body_size \<noteq> 0 \<and>
                    client_max_body_size - cb_content_length_n rb <s ck_size ctx
                 then Some (NGX_HTTP_REQUEST_ENTITY_TOO_LARGE, rb, b)
                 else if mem = [] \<or> \<not> hd mem then Some (NGX_HTTP_INTERNAL_SERVER_ERROR, rb, b)
                 else (case ck_take rb b of (rb, b) \<Rightarrow> chunked_filter_loop client_max_body_size (tl mem) rb b))
              else if rc = NGX_DONE then
                (let rb = rb\<lparr>cb_rest := 0\<rparr>
                 in if mem = [] \<or> \<not> hd mem then Some (NGX_HTTP_INTERNAL_SERVER_ERROR, rb, b)
                    else Some (NGX_DONE, rb\<lparr>cb_last_buf := True\<rparr>, b))
              else if rc = NGX_AGAIN then Some (NGX_AGAIN, rb\<lparr>cb_rest := ck_length ctx\<rparr>, b)
              else Some (NGX_HTTP_BAD_REQUEST, rb, b)))"

section \<open>The loop\<close>

lemmas ck_state_defs = ck_start_def ck_size_step_def ck_line_def ck_expect_lf_def ck_trailer_def
  ck_trailer_almost_done_def

lemma ck_step_redo: "ck_step buf p c s \<noteq> Redo s'"
  by (cases s; cases "fst s") (auto simp: ck_step_def ck_state_defs)

interpretation ck: byte_machine ck_step "\<lambda>_. 0"
proof unfold_locales
  show "(0::nat) < 0" if "ck_step buf p c s = Redo s'" for buf p c s s'
    using that ck_step_redo by blast
  show "ck_step buf p c s = ck_step buf' p c s" for buf buf' p c s
    by (simp add: ck_step_def)
qed

text \<open>The data of a chunk is only reached with a size other than zero.\<close>

definition ck_inv :: "ck_local \<Rightarrow> bool" where
  "ck_inv s \<longleftrightarrow> (fst s \<in> {sw_chunk_extension, sw_chunk_extension_almost_done, sw_chunk_data} \<longrightarrow> snd s \<noteq> 0)"

lemma ck_step_inv:
  "ck_inv s \<Longrightarrow> (case ck_step buf p c s of Next s' \<Rightarrow> ck_inv s' | Redo s' \<Rightarrow> ck_inv s' | Exit x s' \<Rightarrow> ck_inv s')"
  by (cases s; cases "fst s") (auto simp: ck_inv_def ck_step_def ck_state_defs)

lemma ck_machine_inv:
  assumes "machine ck_step buf stop p s = Some (x, q, s')" "stop \<le> length buf" "p \<le> stop" "ck_inv s"
  shows "ck_inv s'"
proof -
  have "case x of None \<Rightarrow> ck_inv s' | Some l \<Rightarrow> ck_inv s'"
    by (rule ck.machine_invariant [OF _ assms(2) _ assms(3,1), of "\<lambda>_. ck_inv" "\<lambda>_ _. ck_inv"])
       (use ck_step_inv assms(4) in \<open>auto split: action.splits\<close>)
  then show ?thesis by (simp split: option.splits)
qed

definition ck_entry :: "ngx_http_chunked_t \<Rightarrow> ck_local" where
  "ck_entry ctx = (if ck_state ctx = sw_chunk_data \<and> ck_size ctx = 0 then sw_after_data else ck_state ctx, ck_size ctx)"

text \<open>What a run of the loop makes of the context and the buffer.\<close>

definition ck_finish ::
    "ngx_http_chunked_t \<Rightarrow> ngx_buf_t \<Rightarrow> ck_exit option \<times> nat \<times> ck_local \<Rightarrow> ngx_int_t \<times> ngx_http_chunked_t \<times> ngx_buf_t" where
  "ck_finish ctx b res =
     (case res of (x, p, (state, sz)) \<Rightarrow>
        if x = Some Ck_done then
          (NGX_DONE, ctx\<lparr>ck_state := sw_chunk_start, ck_size := sz\<rparr>, b\<lparr>buf_pos := p + 1\<rparr>)
        else if x = Some Ck_invalid then (NGX_ERROR, ctx\<lparr>ck_size := sz\<rparr>, b)
        else
          (let rc = (if x = Some Ck_data then NGX_OK else NGX_AGAIN);
               len = ck_length_of state sz
           in (if sz <s 0 \<or> len <s 0 then NGX_ERROR else rc,
               ctx\<lparr>ck_state := state, ck_size := sz, ck_length := len\<rparr>, b\<lparr>buf_pos := p\<rparr>)))"

lemma ngx_http_parse_chunked_eq:
  "ngx_http_parse_chunked ctx b =
     map_option (ck_finish ctx b) (machine ck_step (buf_mem b) (buf_last b) (buf_pos b) (ck_entry ctx))"
  by (auto simp: ngx_http_parse_chunked_def ck_entry_def ck_finish_def Let_def split: option.splits prod.splits)

lemma ck_run:
  assumes "buf_last b \<le> length (buf_mem b)" "buf_pos b \<le> buf_last b"
  obtains x q st sz where "machine ck_step (buf_mem b) (buf_last b) (buf_pos b) s = Some (x, q, (st, sz))"
    "if x = None then q = buf_last b else q < buf_last b"
  using ck.machine_total [OF assms, of s] by (metis prod_cases3 surj_pair)

definition ctx_ok :: "ngx_http_chunked_t \<Rightarrow> bool" where
  "ctx_ok ctx \<longleftrightarrow> ck_inv (ck_entry ctx)"

text \<open>
  C9: \<open>ngx_http_parse_chunked\<close> returns, and a chunked body may arrive in pieces: when the call on the
  first bytes returns NGX_AGAIN, the call on the rest gives the return code, the size, the state and the
  position of one call on all the bytes (except that an invalid byte leaves the state as it was on entry).
\<close>

theorem ngx_http_parse_chunked_incremental:
  assumes b1: "buf_pos b1 \<le> buf_last b1" "buf_last b1 \<le> length (buf_mem b1)"
    and b2: "buf_last b1 \<le> buf_last b2" "buf_last b2 \<le> length (buf_mem b2)" "buf_pos b2 = buf_pos b1"
      "take (buf_last b1) (buf_mem b1) = take (buf_last b1) (buf_mem b2)"
    and ctx: "ctx_ok ctx"
  shows "\<exists>rc ctx1 b1'. ngx_http_parse_chunked ctx b1 = Some (rc, ctx1, b1') \<and>
    (rc = NGX_AGAIN \<longrightarrow> ctx_ok ctx1 \<and>
       (\<exists>rc2 ctx2 b2' ctx3 b3'. ngx_http_parse_chunked ctx b2 = Some (rc2, ctx2, b2') \<and>
          ngx_http_parse_chunked ctx1 (b2\<lparr>buf_pos := buf_pos b1'\<rparr>) = Some (rc2, ctx3, b3') \<and>
          ck_size ctx3 = ck_size ctx2 \<and>
          (rc2 \<noteq> NGX_ERROR \<longrightarrow> ck_state ctx3 = ck_state ctx2 \<and> b3' = b2')))"
proof -
  obtain x q st sz where m1: "machine ck_step (buf_mem b1) (buf_last b1) (buf_pos b1) (ck_entry ctx) = Some (x, q, (st, sz))"
    and q: "if x = None then q = buf_last b1 else q < buf_last b1"
    by (rule ck_run [OF b1(2,1)])
  note m2 = ck.machine_split [OF b2(1,2) b1(2) b2(4) b1(1) m1]
  obtain rc ctx1 b1' where r1: "ngx_http_parse_chunked ctx b1 = Some (rc, ctx1, b1')"
    and f1: "ck_finish ctx b1 (x, q, (st, sz)) = (rc, ctx1, b1')"
    using m1 by (cases "ck_finish ctx b1 (x, q, (st, sz))") (simp add: ngx_http_parse_chunked_eq)
  have inv: "ck_inv (st, sz)" using ck_machine_inv [OF m1 b1(2,1)] ctx by (simp add: ctx_ok_def)
  show ?thesis
  proof (cases "rc = NGX_AGAIN")
    case False
    then show ?thesis using r1 by blast
  next
    case True
    then have x: "x = None" "buf_pos b1' = buf_last b1" "ck_state ctx1 = st" "ck_size ctx1 = sz"
      using f1 q by (cases "the x"; auto simp: ck_finish_def Let_def split: if_splits)+
    have entry: "ck_entry ctx1 = (st, sz)" using inv x by (auto simp: ck_entry_def ck_inv_def)
    let ?b = "b2\<lparr>buf_pos := buf_last b1\<rparr>"
    obtain y q2 st2 sz2 where m3: "machine ck_step (buf_mem ?b) (buf_last ?b) (buf_pos ?b) (st, sz) = Some (y, q2, (st2, sz2))"
      by (rule ck_run [of ?b "(st, sz)"]) (use b2(1,2) in auto)
    have "ngx_http_parse_chunked ctx b2 = Some (ck_finish ctx b2 (y, q2, (st2, sz2)))"
      using m2 m3 x(1) b2(3) by (simp add: ngx_http_parse_chunked_eq)
    moreover have "ngx_http_parse_chunked ctx1 ?b = Some (ck_finish ctx1 ?b (y, q2, (st2, sz2)))"
      using m3 entry by (simp add: ngx_http_parse_chunked_eq)
    moreover have "ctx_ok ctx1" using inv entry by (simp add: ctx_ok_def)
    ultimately show ?thesis
      using r1 x(2) by (auto simp: ck_finish_def Let_def)
  qed
qed

theorem ngx_http_parse_chunked_incremental_witness:
  "\<exists>rc ctx1 b1'. ngx_http_parse_chunked \<lparr>ck_state = sw_chunk_start, ck_size = 0, ck_length = 0\<rparr>
     \<lparr>buf_mem = bytes ''1'', buf_pos = 0, buf_last = 1\<rparr> = Some (rc, ctx1, b1')"
  using ngx_http_parse_chunked_incremental
    [of "\<lparr>buf_mem = bytes ''1'', buf_pos = 0, buf_last = 1\<rparr>" "\<lparr>buf_mem = bytes ''1a'', buf_pos = 0, buf_last = 2\<rparr>"
        "\<lparr>ck_state = sw_chunk_start, ck_size = 0, ck_length = 0\<rparr>"]
  by (auto simp: bytes_def ctx_ok_def ck_entry_def ck_inv_def)

section \<open>Chunk sizes\<close>

definition hexv :: "byte \<Rightarrow> nat" where
  "hexv c = (if is_digit c then unat c - 48 else unat (c OR 0x20) - 87)"

definition is_hex :: "byte \<Rightarrow> bool" where
  "is_hex c \<longleftrightarrow> is_digit c \<or> is_hex_letter c"

definition hexval :: "byte list \<Rightarrow> nat" where
  "hexval ds = foldl (\<lambda>v c. v * 16 + hexv c) 0 ds"

lemma hex_digit_word:
  "is_digit c \<Longrightarrow> ucast (c - ch CHR ''0'') = (of_nat (hexv c) :: u64)"
  "\<not> is_digit c \<Longrightarrow> is_hex_letter c \<Longrightarrow> ucast ((c OR 0x20) - ch CHR ''a'' + 10) = (of_nat (hexv c) :: u64)"
proof -
  assume "is_digit c"
  then have le: "48 \<le> c" and "hexv c = unat (c - 48)"
    by (auto simp: hexv_def byte_simps unat_sub)
  then show "ucast (c - ch CHR ''0'') = (of_nat (hexv c) :: u64)" by (simp add: byte_simps)
next
  assume nd: "\<not> is_digit c" and "is_hex_letter c"
  then have le: "97 \<le> c OR 0x20" "c OR 0x20 \<le> 102" by (auto simp: byte_simps)
  then have "hexv c = unat ((c OR 0x20) - 87)"
    using nd by (simp add: hexv_def unat_sub word_le_nat_alt)
  moreover have "(c OR 0x20) - ch CHR ''a'' + 10 = (c OR 0x20) - 87" by (simp add: byte_simps)
  ultimately show "ucast ((c OR 0x20) - ch CHR ''a'' + 10) = (of_nat (hexv c) :: u64)" by simp
qed

lemma size_block:
  "avail buf stop p ds \<Longrightarrow> list_all is_hex ds \<Longrightarrow>
   machine ck_step buf stop p (sw_chunk_size, of_nat n) =
     machine ck_step buf stop (p + length ds) (sw_chunk_size, of_nat (foldl (\<lambda>v c. v * 16 + hexv c) n ds))"
proof (induction ds arbitrary: p n)
  case (Cons c ds)
  have "ck_step buf p c (sw_chunk_size, of_nat n) = Next (sw_chunk_size, of_nat (n * 16 + hexv c))"
    using Cons.prems(2) hex_digit_word [of c] by (auto simp: ck_step_def ck_size_step_def is_hex_def)
  then have "machine ck_step buf stop p (sw_chunk_size, of_nat n) =
      machine ck_step buf stop (Suc p) (sw_chunk_size, of_nat (n * 16 + hexv c))"
    using ck.machine_avail [OF Cons.prems(1), of "(sw_chunk_size, of_nat n)"] by simp
  also have "\<dots> = machine ck_step buf stop (Suc p + length ds)
      (sw_chunk_size, of_nat (foldl (\<lambda>v c. v * 16 + hexv c) (n * 16 + hexv c) ds))"
    using Cons.prems by (intro Cons.IH) (auto simp: avail_Cons)
  finally show ?case by simp
qed simp

lemma digits_block:
  assumes a: "avail buf stop p ds" and ds: "ds \<noteq> []" "list_all is_hex ds"
  shows "machine ck_step buf stop p (sw_chunk_start, s) =
    machine ck_step buf stop (p + length ds) (sw_chunk_size, of_nat (hexval ds))"
proof -
  obtain c cs where cs: "ds = c # cs" using ds by (cases ds) auto
  have "ck_step buf p c (sw_chunk_start, s) = Next (sw_chunk_size, of_nat (hexv c))"
    using ds(2) cs hex_digit_word [of c] by (auto simp: ck_step_def ck_start_def is_hex_def)
  then have "machine ck_step buf stop p (sw_chunk_start, s) = machine ck_step buf stop (Suc p) (sw_chunk_size, of_nat (hexv c))"
    using ck.machine_avail [of buf stop p c cs "(sw_chunk_start, s)"] a cs by simp
  also have "\<dots> = machine ck_step buf stop (Suc p + length cs)
      (sw_chunk_size, of_nat (foldl (\<lambda>v c. v * 16 + hexv c) (hexv c) cs))"
    using a ds cs by (intro size_block) (auto simp: avail_Cons)
  finally show ?thesis using cs by (simp add: hexval_def)
qed

text \<open>The rest of a chunk's first line: nothing, or an extension after a semicolon or blank.\<close>

definition extension_ok :: "byte list \<Rightarrow> bool" where
  "extension_ok ext \<longleftrightarrow> ext = [] \<or> hd ext \<in> {ch CHR '';'', SP, HT} \<and> set ext \<inter> {CR, LF} = {}"

lemma not_hex: "\<not> is_digit CR" "\<not> is_hex_letter CR" "\<not> is_digit LF" "\<not> is_hex_letter LF"
  "x \<in> {ch CHR '';'', SP, HT} \<Longrightarrow> \<not> is_digit x \<and> \<not> is_hex_letter x \<and> x \<noteq> CR \<and> x \<noteq> LF"
  by (auto simp: byte_simps)

lemma header_block:
  assumes a: "avail buf stop p (ds @ ext @ CR # LF # d # rest)" and ds: "ds \<noteq> []" "list_all is_hex ds"
    and ext: "extension_ok ext" and v: "(of_nat (hexval ds) :: u64) \<noteq> 0" and q: "q = p + length ds + length ext + 2"
  shows "machine ck_step buf stop p (sw_chunk_start, s) = Some (Some Ck_data, q, (sw_chunk_data, of_nat (hexval ds)))"
proof -
  let ?v = "of_nat (hexval ds) :: u64"
  obtain p1 where p1: "p1 = p + length ds" by simp
  obtain p2 where p2: "p2 = p1 + length ext" by simp
  have q2: "q = Suc (Suc p2)" using q p1 p2 by simp
  have a1: "avail buf stop p ds" "avail buf stop p1 (ext @ CR # LF # d # rest)"
    "avail buf stop p2 (CR # LF # d # rest)" "avail buf stop (Suc p2) (LF # d # rest)" "avail buf stop q (d # rest)"
    using a unfolding q2 p2 p1 by (simp_all add: avail_append avail_Cons)
  have "machine ck_step buf stop p (sw_chunk_start, s) = machine ck_step buf stop p1 (sw_chunk_size, ?v)"
    unfolding p1 by (rule digits_block [OF a1(1) ds])
  also have "\<dots> = machine ck_step buf stop (Suc p2) (sw_chunk_extension_almost_done, ?v)"
  proof (cases "ext = []")
    case True
    then show ?thesis
      using ck.machine_avail [OF a1(3), of "(sw_chunk_size, ?v)"] v p2 not_hex
      by (simp add: ck_step_def ck_size_step_def)
  next
    case False
    then obtain x xs where x: "ext = x # xs" by (cases ext) auto
    have "x \<in> {ch CHR '';'', SP, HT}" "set xs \<inter> {CR, LF} = {}"
      using ext False x by (auto simp: extension_ok_def)
    note x' = this(1) not_hex(5) [OF this(1)] this(2)
    have "machine ck_step buf stop p1 (sw_chunk_size, ?v) = machine ck_step buf stop (Suc p1) (sw_chunk_extension, ?v)"
      using ck.machine_avail [of buf stop p1 x _ "(sw_chunk_size, ?v)"] a1(2) x v x'(1,2)
      by (auto simp: ck_step_def ck_size_step_def)
    also have "\<dots> = machine ck_step buf stop (Suc p1 + length xs) (sw_chunk_extension, ?v)"
    proof -
      have "avail buf stop (Suc p1) xs" using a1(2) x by (simp add: avail_append avail_Cons)
      moreover have "ck_step buf p c (sw_chunk_extension, ?v) = Next (sw_chunk_extension, ?v)" if "c \<in> set xs" for p c
        using that x'(3) by (auto simp: ck_step_def ck_line_def)
      ultimately show ?thesis
        using ck.machine_fold [of xs buf "\<lambda>_. (sw_chunk_extension, ?v)" "\<lambda>_ _. ()"] by simp
    qed
    also have "Suc p1 + length xs = p2" using p2 x by simp
    also have "machine ck_step buf stop p2 (sw_chunk_extension, ?v) =
        machine ck_step buf stop (Suc p2) (sw_chunk_extension_almost_done, ?v)"
      using ck.machine_avail [OF a1(3)] by (simp add: ck_step_def ck_line_def)
    finally show ?thesis .
  qed
  also have "\<dots> = machine ck_step buf stop q (sw_chunk_data, ?v)"
    using ck.machine_avail [OF a1(4)] q2 by (simp add: ck_step_def ck_expect_lf_def)
  also have "\<dots> = Some (Some Ck_data, q, (sw_chunk_data, ?v))"
    using ck.machine_avail [OF a1(5)] by (simp add: ck_step_def)
  finally show ?thesis .
qed

lemma signed_small: "n < 2 ^ 63 \<Longrightarrow> \<not> (of_nat n :: u64) <s 0"
  by (simp add: word_sless_alt sint_of_nat_small)

lemma signed_big: "2 ^ 63 \<le> n \<Longrightarrow> n < 2 ^ 64 \<Longrightarrow> (of_nat n :: u64) <s 0"
  using of_nat_sless_0 [of n] by simp

text \<open>
  C8: The size of a chunk is the number on its line modulo 2^64: it is not checked while the digits are
  read. A first line with hexadecimal digits, an optional extension and some byte behind it is accepted
  exactly when that remainder (plus the four bytes that must follow the data) is below 2^63, whatever the
  number of digits; then the position is that of the first byte of data.
\<close>

theorem ngx_http_parse_chunked_size:
  assumes b: "avail (buf_mem b) (buf_last b) (buf_pos b) (ds @ ext @ CR # LF # d # rest)"
    and ds: "ds \<noteq> []" "list_all is_hex ds" and ext: "extension_ok ext" and ctx: "ck_state ctx = sw_chunk_start"
    and v: "v = hexval ds mod 2 ^ 64" "v \<noteq> 0"
  shows "\<exists>ctx' b'. ngx_http_parse_chunked ctx b = Some (if v + 4 < 2 ^ 63 then NGX_OK else NGX_ERROR, ctx', b') \<and>
    ck_state ctx' = sw_chunk_data \<and> unat (ck_size ctx') = v \<and>
    buf_pos b' = buf_pos b + length ds + length ext + 2"
proof -
  let ?q = "buf_pos b + length ds + length ext + 2"
  have of: "of_nat (hexval ds) = (of_nat v :: u64)" "v < 2 ^ 64" using v(1) by (simp_all add: word_unat_eq_iff unat_of_nat take_bit_eq_mod)
  then have "unat (of_nat (hexval ds) :: u64) = v" by (simp add: unat_of_nat_small)
  then have nz: "(of_nat (hexval ds) :: u64) \<noteq> 0" using v(2) by auto
  have m: "machine ck_step (buf_mem b) (buf_last b) (buf_pos b) (ck_entry ctx) =
      Some (Some Ck_data, ?q, (sw_chunk_data, of_nat v))"
    using header_block [OF b ds ext nz refl, of "ck_size ctx"] ctx of(1) by (simp add: ck_entry_def)
  have len: "ck_length_of sw_chunk_data (of_nat v) = of_nat (v + 4)" by (simp add: ck_length_of_def)
  have "(of_nat v :: u64) <s 0 \<or> (of_nat (v + 4) :: u64) <s 0 \<longleftrightarrow> \<not> v + 4 < 2 ^ 63"
  proof (cases "v < 2 ^ 63")
    case True
    then show ?thesis
      using signed_small [of v] signed_small [of "v + 4"] signed_big [of "v + 4"] by (cases "v + 4 < 2 ^ 63") auto
  next
    case False
    then show ?thesis using signed_big [of v] of(2) by simp
  qed
  then show ?thesis
    using m len of(2) by (simp add: ngx_http_parse_chunked_eq ck_finish_def Let_def unat_of_nat_small)
qed

theorem ngx_http_parse_chunked_size_witness:
  "\<exists>ctx' b'. ngx_http_parse_chunked \<lparr>ck_state = sw_chunk_start, ck_size = 0, ck_length = 0\<rparr>
     \<lparr>buf_mem = bytes ''10000000000000001'' @ [CR, LF, 0], buf_pos = 0, buf_last = 20\<rparr> = Some (NGX_OK, ctx', b') \<and>
   unat (ck_size ctx') = 1"
proof -
  let ?b = "\<lparr>buf_mem = bytes ''10000000000000001'' @ [CR, LF, 0], buf_pos = 0, buf_last = 20\<rparr>"
  have "avail (buf_mem ?b) (buf_last ?b) (buf_pos ?b) (bytes ''10000000000000001'' @ [] @ CR # LF # 0 # [])"
    by (simp add: avail_def bytes_def)
  moreover have "list_all is_hex (bytes ''10000000000000001'')" "extension_ok []" "bytes ''10000000000000001'' \<noteq> []"
    by (simp_all add: is_hex_def extension_ok_def byte_simps)
  moreover have "1 = hexval (bytes ''10000000000000001'') mod 2 ^ 64"
    by (simp add: hexval_def hexv_def byte_simps)
  ultimately show ?thesis
    using ngx_http_parse_chunked_size [of ?b "bytes ''10000000000000001''" "[]" 0 "[]"
      "\<lparr>ck_state = sw_chunk_start, ck_size = 0, ck_length = 0\<rparr>" 1] by auto
qed

section \<open>Decoding a whole body\<close>

fun enc_chunks :: "(byte list \<times> byte list) list \<Rightarrow> byte list \<Rightarrow> byte list" where
  "enc_chunks [] tail = tail"
| "enc_chunks ((ds, data) # cs) tail = ds @ [CR, LF] @ data @ [CR, LF] @ enc_chunks cs tail"

definition chunk_ok :: "byte list \<times> byte list \<Rightarrow> bool" where
  "chunk_ok c \<longleftrightarrow> (case c of (ds, data) \<Rightarrow> ds \<noteq> [] \<and> list_all is_hex ds \<and> data \<noteq> [] \<and>
     hexval ds = length data \<and> length data < 2 ^ 62)"

definition last_chunk :: "byte list \<Rightarrow> byte list" where
  "last_chunk zs = zs @ [CR, LF, CR, LF]"

text \<open>Where the driver is before a chunk: at the start, or behind the data of the chunk before it.\<close>

definition at_chunk :: "ck_body \<Rightarrow> ngx_buf_t \<Rightarrow> nat \<Rightarrow> bool" where
  "at_chunk rb b p \<longleftrightarrow>
     ck_state (cb_chunked rb) = sw_chunk_start \<and> buf_pos b = p \<or>
     ck_state (cb_chunked rb) = sw_chunk_data \<and> ck_size (cb_chunked rb) = 0 \<and> p = buf_pos b + 2 \<and>
       avail (buf_mem b) (buf_last b) (buf_pos b) [CR, LF]"

lemma at_chunk_machine:
  assumes "at_chunk rb b p"
  shows "\<exists>s. machine ck_step (buf_mem b) (buf_last b) (buf_pos b) (ck_entry (cb_chunked rb)) =
    machine ck_step (buf_mem b) (buf_last b) p (sw_chunk_start, s)"
proof (cases "ck_state (cb_chunked rb) = sw_chunk_start")
  case True
  then show ?thesis using assms by (auto simp: at_chunk_def ck_entry_def)
next
  case False
  then have *: "ck_state (cb_chunked rb) = sw_chunk_data" "ck_size (cb_chunked rb) = 0" "p = buf_pos b + 2"
    "avail (buf_mem b) (buf_last b) (buf_pos b) [CR, LF]"
    using assms by (auto simp: at_chunk_def)
  from *(4) have "buf_pos b < buf_last b" "Suc (buf_pos b) < buf_last b" "buf_last b \<le> length (buf_mem b)"
    "buf_mem b ! buf_pos b = CR" "buf_mem b ! Suc (buf_pos b) = LF"
    by (auto simp: avail_Cons)
  then have "machine ck_step (buf_mem b) (buf_last b) (buf_pos b) (sw_after_data, 0) =
      machine ck_step (buf_mem b) (buf_last b) p (sw_chunk_start, 0)"
    by (simp add: *(3) ck.machine_step ck_step_def ck_line_def ck_expect_lf_def)
  then show ?thesis using *(1,2) by (auto simp: ck_entry_def)
qed

lemma ck_take_all:
  assumes a: "avail (buf_mem b) (buf_last b) (buf_pos b) (data @ x # rest)" and len: "length data < 2 ^ 62"
    and sz: "ck_size (cb_chunked rb) = of_nat (length data)" and small: "buf_last b < 2 ^ 63"
  shows "ck_take rb b =
    (rb\<lparr>cb_chunked := (cb_chunked rb)\<lparr>ck_size := 0\<rparr>,
        cb_content_length_n := cb_content_length_n rb + of_nat (length data), cb_out := cb_out rb @ data\<rparr>,
     b\<lparr>buf_pos := buf_pos b + length data\<rparr>)"
proof -
  have lt: "length data < buf_last b - buf_pos b" using a by (auto simp: avail_def)
  have "take (length data) (drop (buf_pos b) (buf_mem b)) = data"
    using a avail_take [of "buf_mem b" "buf_last b" "buf_pos b" data] by (simp add: avail_append)
  moreover have "(of_nat (length data) :: u64) <s of_nat (buf_last b - buf_pos b)"
    using lt small len by (simp add: word_sless_alt sint_of_nat_small del: of_nat_diff)
  ultimately show ?thesis
    using len by (simp add: ck_take_def Let_def sz unat_of_nat_small)
qed

lemma last_chunk_block:
  assumes a: "avail buf stop p (last_chunk zs)" and zs: "zs \<noteq> []" "list_all (\<lambda>c. c = ch CHR ''0'') zs"
  shows "machine ck_step buf stop p (sw_chunk_start, s) =
    Some (Some Ck_done, p + length zs + 3, (sw_trailer_almost_done, 0))"
proof -
  have "foldl (\<lambda>v c. v * 16 + hexv c) 0 zs = 0"
    using zs(2) by (induction zs) (auto simp: hexv_def byte_simps)
  then have v: "hexval zs = 0" by (simp add: hexval_def)
  have "list_all is_hex zs" using zs(2) by (auto simp: list_all_iff is_hex_def byte_simps)
  moreover have "avail buf stop p zs" using a by (simp add: last_chunk_def avail_append)
  ultimately have "machine ck_step buf stop p (sw_chunk_start, s) = machine ck_step buf stop (p + length zs) (sw_chunk_size, 0)"
    using digits_block [of buf stop p zs s] zs(1) v by simp
  also have "\<dots> = Some (Some Ck_done, p + length zs + 3, (sw_trailer_almost_done, 0))"
  proof -
    have "avail buf stop (p + length zs) [CR, LF, CR, LF]" using a by (simp add: last_chunk_def avail_append)
    then show ?thesis
      using not_hex by (simp add: avail_Cons ck.machine_step ck_step_def ck_size_step_def ck_expect_lf_def
          ck_trailer_def ck_trailer_almost_done_def numeral_eq_Suc)
  qed
  finally show ?thesis .
qed

lemma chunked_filter_decodes:
  assumes zs: "zs \<noteq> []" "list_all (\<lambda>c. c = ch CHR ''0'') zs"
  shows "at_chunk rb b p \<Longrightarrow> avail (buf_mem b) (buf_last b) p (enc_chunks cs (last_chunk zs)) \<Longrightarrow>
    list_all chunk_ok cs \<Longrightarrow> length cs < length mem \<Longrightarrow> list_all (\<lambda>m. m) mem \<Longrightarrow> buf_last b < 2 ^ 63 \<Longrightarrow>
    \<exists>rb' b'. chunked_filter_loop 0 mem rb b = Some (NGX_DONE, rb', b') \<and>
      cb_out rb' = cb_out rb @ concat (map snd cs) \<and> cb_last_buf rb' \<and> cb_rest rb' = 0 \<and>
      cb_content_length_n rb' = cb_content_length_n rb + of_nat (length (concat (map snd cs))) \<and>
      buf_pos b' = p + length (enc_chunks cs (last_chunk zs))"
proof (induction cs arbitrary: rb b p mem)
  case Nil
  obtain s where "machine ck_step (buf_mem b) (buf_last b) (buf_pos b) (ck_entry (cb_chunked rb)) =
      machine ck_step (buf_mem b) (buf_last b) p (sw_chunk_start, s)"
    using at_chunk_machine [OF Nil.prems(1)] by blast
  also have "\<dots> = Some (Some Ck_done, p + length zs + 3, (sw_trailer_almost_done, 0))"
    using Nil.prems(2) zs by (intro last_chunk_block) auto
  finally have "ngx_http_parse_chunked (cb_chunked rb) b =
      Some (NGX_DONE, (cb_chunked rb)\<lparr>ck_state := sw_chunk_start, ck_size := 0\<rparr>, b\<lparr>buf_pos := p + length zs + 4\<rparr>)"
    by (simp add: ngx_http_parse_chunked_eq ck_finish_def)
  then show ?case
    using Nil.prems(4,5) by (cases mem) (simp_all add: chunked_filter_loop.simps Let_def last_chunk_def)
next
  case (Cons c cs)
  obtain ds data where c: "c = (ds, data)" by (cases c)
  have ok: "ds \<noteq> []" "list_all is_hex ds" "data \<noteq> []" "hexval ds = length data" "length data < 2 ^ 62"
    using Cons.prems(3) by (auto simp: c chunk_ok_def)
  obtain d data' where d: "data = d # data'" using ok(3) by (cases data) auto
  let ?rest = "CR # LF # enc_chunks cs (last_chunk zs)"
  let ?q = "p + length ds + 2"
  have a: "avail (buf_mem b) (buf_last b) p (ds @ [] @ CR # LF # d # data' @ ?rest)"
    using Cons.prems(2) by (simp add: c d)
  have a2: "avail (buf_mem b) (buf_last b) ?q (data @ ?rest)"
    using a d by (simp add: avail_append [of _ _ _ ds] avail_Cons)
  have "unat (of_nat (length data) :: u64) = length data" using ok(5) by (simp add: unat_of_nat_small)
  then have nz: "(of_nat (hexval ds) :: u64) \<noteq> 0" using ok(3,4) by (metis length_0_conv unat_0)
  obtain s where "machine ck_step (buf_mem b) (buf_last b) (buf_pos b) (ck_entry (cb_chunked rb)) =
      machine ck_step (buf_mem b) (buf_last b) p (sw_chunk_start, s)"
    using at_chunk_machine [OF Cons.prems(1)] by blast
  also have "\<dots> = Some (Some Ck_data, ?q, (sw_chunk_data, of_nat (length data)))"
    using header_block [OF a ok(1,2) _ nz refl] ok(4) by (simp add: extension_ok_def)
  finally have m: "machine ck_step (buf_mem b) (buf_last b) (buf_pos b) (ck_entry (cb_chunked rb)) = \<dots>" .
  have len: "ck_length_of sw_chunk_data (of_nat (length data)) = of_nat (length data + 4)" by (simp add: ck_length_of_def)
  let ?ctx = "(cb_chunked rb)\<lparr>ck_state := sw_chunk_data, ck_size := of_nat (length data), ck_length := of_nat (length data + 4)\<rparr>"
  have parse: "ngx_http_parse_chunked (cb_chunked rb) b = Some (NGX_OK, ?ctx, b\<lparr>buf_pos := ?q\<rparr>)"
    using m len signed_small [of "length data"] signed_small [of "length data + 4"] ok(5)
    by (simp add: ngx_http_parse_chunked_eq ck_finish_def Let_def)
  let ?rb = "rb\<lparr>cb_chunked := ?ctx\<lparr>ck_size := 0\<rparr>,
    cb_content_length_n := cb_content_length_n rb + of_nat (length data), cb_out := cb_out rb @ data\<rparr>"
  let ?b = "b\<lparr>buf_pos := ?q + length data\<rparr>"
  have tk: "ck_take (rb\<lparr>cb_chunked := ?ctx\<rparr>) (b\<lparr>buf_pos := ?q\<rparr>) = (?rb, ?b)"
    using ck_take_all [of "b\<lparr>buf_pos := ?q\<rparr>" data CR "LF # enc_chunks cs (last_chunk zs)" "rb\<lparr>cb_chunked := ?ctx\<rparr>"]
      a2 ok(5) Cons.prems(6) by simp
  have loop: "chunked_filter_loop 0 mem rb b = chunked_filter_loop 0 (tl mem) ?rb ?b"
    using Cons.prems(4,5) parse tk
    by (subst chunked_filter_loop.simps) (cases mem; simp add: Let_def)
  have a3: "avail (buf_mem b) (buf_last b) (?q + length data) [CR, LF]"
    "avail (buf_mem b) (buf_last b) (?q + length data + 2) (enc_chunks cs (last_chunk zs))"
    using a2 by (simp_all add: avail_append avail_Cons) (auto simp: avail_def)
  then have "at_chunk ?rb ?b (?q + length data + 2)" by (simp add: at_chunk_def)
  then obtain rb' b' where "chunked_filter_loop 0 (tl mem) ?rb ?b = Some (NGX_DONE, rb', b')"
    "cb_out rb' = cb_out ?rb @ concat (map snd cs)" "cb_last_buf rb'" "cb_rest rb' = 0"
    "cb_content_length_n rb' = cb_content_length_n ?rb + of_nat (length (concat (map snd cs)))"
    "buf_pos b' = ?q + length data + 2 + length (enc_chunks cs (last_chunk zs))"
    using Cons.IH [of ?rb ?b "?q + length data + 2" "tl mem"] a3(2) Cons.prems(3-6) by (cases mem) auto
  then show ?case using loop by (simp add: c)
qed

text \<open>
  C7: The body filter inverts the chunked encoding. A body of chunks, each with its length in
  hexadecimal digits, and the last chunk is decoded to the concatenation of the chunks; the end is
  recognised, the length is counted, and the position is behind the body. (With enough memory and
  without a limit on the size of the body.)
\<close>

theorem chunked_filter_roundtrip:
  assumes zs: "zs \<noteq> []" "list_all (\<lambda>c. c = ch CHR ''0'') zs" and cs: "list_all chunk_ok cs"
    and b: "avail (buf_mem b) (buf_last b) (buf_pos b) (enc_chunks cs (last_chunk zs))" "buf_last b < 2 ^ 63"
    and rb: "ck_state (cb_chunked rb) = sw_chunk_start" "cb_out rb = []" "cb_content_length_n rb = 0"
    and mem: "length cs < length mem" "list_all (\<lambda>m. m) mem"
  shows "\<exists>rb' b'. chunked_filter_loop 0 mem rb b = Some (NGX_DONE, rb', b') \<and>
      cb_out rb' = concat (map snd cs) \<and> cb_last_buf rb' \<and> cb_rest rb' = 0 \<and>
      cb_content_length_n rb' = of_nat (length (concat (map snd cs))) \<and>
      buf_pos b' = buf_pos b + length (enc_chunks cs (last_chunk zs))"
  using chunked_filter_decodes [OF zs _ b(1) cs mem b(2), of rb] rb by (simp add: at_chunk_def)

theorem chunked_filter_roundtrip_witness:
  "\<exists>rb' b'. chunked_filter_loop 0 [True, True]
      \<lparr>cb_chunked = \<lparr>ck_state = sw_chunk_start, ck_size = 0, ck_length = 0\<rparr>, cb_rest = 3, cb_content_length_n = 0,
        cb_out = [], cb_last_buf = False\<rparr>
      \<lparr>buf_mem = bytes ''2'' @ [CR, LF] @ bytes ''ab'' @ [CR, LF] @ bytes ''0'' @ [CR, LF, CR, LF], buf_pos = 0, buf_last = 12\<rparr> =
      Some (NGX_DONE, rb', b') \<and> cb_out rb' = bytes ''ab''"
proof -
  let ?b = "\<lparr>buf_mem = bytes ''2'' @ [CR, LF] @ bytes ''ab'' @ [CR, LF] @ bytes ''0'' @ [CR, LF, CR, LF], buf_pos = 0, buf_last = 12\<rparr>"
  let ?rb = "\<lparr>cb_chunked = \<lparr>ck_state = sw_chunk_start, ck_size = 0, ck_length = 0\<rparr>, cb_rest = 3, cb_content_length_n = 0,
        cb_out = [], cb_last_buf = False\<rparr>"
  have "avail (buf_mem ?b) (buf_last ?b) (buf_pos ?b) (enc_chunks [(bytes ''2'', bytes ''ab'')] (last_chunk (bytes ''0'')))"
    by (simp add: avail_def bytes_def last_chunk_def)
  moreover have "list_all chunk_ok [(bytes ''2'', bytes ''ab'')]"
    by (simp add: chunk_ok_def is_hex_def hexval_def hexv_def byte_simps)
  ultimately show ?thesis
    using chunked_filter_roundtrip [of "bytes ''0''" "[(bytes ''2'', bytes ''ab'')]" ?b ?rb "[True, True]"]
    by (auto simp: bytes_def)
qed

end
