(* ===== verification/Ngx_Http_Status_Line.thy ===== *)
theory Ngx_Http_Status_Line
  imports Ngx_Http_Request Ngx_Numbers
begin

text \<open>
  \<open>ngx_http_parse_status_line\<close> of src/http/ngx_http_parse.c, which reads the first line of a response
  from an upstream server.
\<close>

datatype sl_state = sl_start | sl_H | sl_HT | sl_HTT | sl_HTTP | sl_first_major_digit | sl_major_digit
  | sl_first_minor_digit | sl_minor_digit | sl_status | sl_space_after_status | sl_status_text | sl_almost_done

datatype sl_exit = Sl_done | Sl_error

record ngx_http_status_t =
  st_http_version :: nat
  st_code :: ngx_uint_t
  st_count :: ngx_uint_t
  st_start :: ptr
  st_end :: ptr

type_synonym sl_local = "sl_state \<times> ngx_http_request_t \<times> ngx_http_status_t"
type_synonym sl_action = "(sl_exit, sl_local) action"

section \<open>The states\<close>

definition sl_expect :: "sl_state \<Rightarrow> byte \<Rightarrow> sl_state \<Rightarrow> byte \<Rightarrow> ngx_http_request_t \<Rightarrow> ngx_http_status_t \<Rightarrow> sl_action" where
  "sl_expect st x st' c r status = (if c = x then Next (st', r, status) else Exit Sl_error (st, r, status))"

definition sl_digit16 :: "byte \<Rightarrow> 16 word" where
  "sl_digit16 c = ucast c - 48"

definition sl_version ::
    "sl_state \<Rightarrow> byte \<Rightarrow> ngx_http_request_t \<Rightarrow> ngx_http_status_t \<Rightarrow> sl_action" where
  "sl_version st c r status =
     (if st = sl_first_major_digit then
        (if c < ch CHR ''1'' \<or> ch CHR ''9'' < c then Exit Sl_error (st, r, status)
         else Next (sl_major_digit, r\<lparr>r_http_major := sl_digit16 c\<rparr>, status))
      else if st = sl_major_digit then
        (if c = ch CHR ''.'' then Next (sl_first_minor_digit, r, status)
         else if \<not> is_digit c then Exit Sl_error (st, r, status)
         else Next (sl_major_digit, r\<lparr>r_http_major := r_http_major r * 10 + sl_digit16 c\<rparr>, status))
      else if st = sl_first_minor_digit then
        (if \<not> is_digit c then Exit Sl_error (st, r, status)
         else Next (sl_minor_digit, r\<lparr>r_http_minor := sl_digit16 c\<rparr>, status))
      else
        (if c = SP then Next (sl_status, r, status)
         else if \<not> is_digit c then Exit Sl_error (st, r, status)
         else Next (sl_minor_digit, r\<lparr>r_http_minor := r_http_minor r * 10 + sl_digit16 c\<rparr>, status)))"

definition sl_status_step :: "nat \<Rightarrow> byte \<Rightarrow> ngx_http_request_t \<Rightarrow> ngx_http_status_t \<Rightarrow> sl_action" where
  "sl_status_step p c r status =
     (if c = SP then Next (sl_status, r, status)
      else if \<not> is_digit c then Exit Sl_error (sl_status, r, status)
      else
        (let status = status\<lparr>st_code := st_code status * 10 + (ucast c - 48), st_count := st_count status + 1\<rparr>
         in if st_count status = 3 then Next (sl_space_after_status, r, status\<lparr>st_start := Some (p - 2)\<rparr>)
            else Next (sl_status, r, status)))"

definition sl_text ::
    "sl_state \<Rightarrow> nat \<Rightarrow> byte \<Rightarrow> ngx_http_request_t \<Rightarrow> ngx_http_status_t \<Rightarrow> sl_action" where
  "sl_text st p c r status =
     (if st = sl_space_after_status then
        (if c = SP then Next (sl_status_text, r, status)
         else if c = ch CHR ''.'' then Next (sl_status_text, r, status)
         else if c = CR then Next (sl_almost_done, r, status)
         else if c = LF then Exit Sl_done (st, r, status)
         else Exit Sl_error (st, r, status))
      else if st = sl_status_text then
        (if c = CR then Next (sl_almost_done, r, status)
         else if c = LF then Exit Sl_done (st, r, status)
         else Next (sl_status_text, r, status))
      else
        (let status = status\<lparr>st_end := Some (p - 1)\<rparr>
         in if c = LF then Exit Sl_done (st, r, status) else Exit Sl_error (st, r, status)))"

definition sl_step :: "(sl_exit, sl_local) stepper" where
  "sl_step buf p c s =
     (case s of (st, r, status) \<Rightarrow>
        (case st of
           sl_start \<Rightarrow> sl_expect st (ch CHR ''H'') sl_H c r status
         | sl_H \<Rightarrow> sl_expect st (ch CHR ''T'') sl_HT c r status
         | sl_HT \<Rightarrow> sl_expect st (ch CHR ''T'') sl_HTT c r status
         | sl_HTT \<Rightarrow> sl_expect st (ch CHR ''P'') sl_HTTP c r status
         | sl_HTTP \<Rightarrow> sl_expect st (ch CHR ''/'') sl_first_major_digit c r status
         | sl_first_major_digit \<Rightarrow> sl_version st c r status
         | sl_major_digit \<Rightarrow> sl_version st c r status
         | sl_first_minor_digit \<Rightarrow> sl_version st c r status
         | sl_minor_digit \<Rightarrow> sl_version st c r status
         | sl_status \<Rightarrow> sl_status_step p c r status
         | sl_space_after_status \<Rightarrow> sl_text st p c r status
         | sl_status_text \<Rightarrow> sl_text st p c r status
         | sl_almost_done \<Rightarrow> sl_text st p c r status))"

definition ngx_http_parse_status_line ::
    "sl_local \<Rightarrow> ngx_buf_t \<Rightarrow> (ngx_int_t \<times> sl_local \<times> ngx_buf_t) option" where
  "ngx_http_parse_status_line s b =
     (case machine sl_step (buf_mem b) (buf_last b) (buf_pos b) s of
        None \<Rightarrow> None
      | Some (None, p, s') \<Rightarrow> Some (NGX_AGAIN, s', b\<lparr>buf_pos := p\<rparr>)
      | Some (Some Sl_error, p, (st, r, status)) \<Rightarrow> Some (NGX_ERROR, (fst s, r, status), b)
      | Some (Some Sl_done, p, (st, r, status)) \<Rightarrow>
          (let status = (if st_end status = None then status\<lparr>st_end := Some p\<rparr> else status);
               status = status\<lparr>st_http_version := unat (r_http_major r) * 1000 + unat (r_http_minor r)\<rparr>
           in Some (NGX_OK, (sl_start, r, status), b\<lparr>buf_pos := p + 1\<rparr>)))"

lemmas sl_state_defs = sl_expect_def sl_version_def sl_status_step_def sl_text_def

lemma sl_step_redo: "sl_step buf p c s \<noteq> Redo s'"
  by (cases s; cases "fst s") (auto simp: sl_step_def sl_state_defs Let_def)

interpretation sl: byte_machine sl_step "\<lambda>_. 0"
proof unfold_locales
  show "(0::nat) < 0" if "sl_step buf p c s = Redo s'" for buf p c s s'
    using that sl_step_redo by blast
  show "sl_step buf p c s = sl_step buf' p c s" for buf buf' p c s
    by (simp add: sl_step_def)
qed

section \<open>Status codes\<close>

lemma digit64: "is_digit c \<Longrightarrow> (ucast c - 48 :: u64) = of_nat (digit_val c)"
  by (simp add: digit_val_def is_digit_unat of_nat_diff)

lemma status_block:
  assumes a: "avail buf stop p [d1, d2, d3]" and d: "list_all is_digit [d1, d2, d3]"
    and s: "st_code status = 0" "st_count status = 0"
  shows "machine sl_step buf stop p (sl_status, r, status) =
    machine sl_step buf stop (Suc (Suc (Suc p))) (sl_space_after_status, r,
      status\<lparr>st_code := of_nat (dec_value [d1, d2, d3]), st_count := 3, st_start := Some p\<rparr>)"
proof -
  have ne: "d1 \<noteq> SP" "d2 \<noteq> SP" "d3 \<noteq> SP" using d by (auto simp: byte_simps)
  have pos: "p < stop" "Suc p < stop" "Suc (Suc p) < stop" "stop \<le> length buf"
    "buf ! p = d1" "buf ! Suc p = d2" "buf ! Suc (Suc p) = d3"
    using a by (auto simp: avail_Cons)
  have st: "sl_step buf p d1 (sl_status, r, status) =
      Next (sl_status, r, status\<lparr>st_code := of_nat (digit_val d1), st_count := 1\<rparr>)"
    using d ne s by (simp add: sl_step_def sl_status_step_def digit64 Let_def)
  have st2: "sl_step buf (Suc p) d2 (sl_status, r, status\<lparr>st_code := of_nat (digit_val d1), st_count := 1\<rparr>) =
      Next (sl_status, r, status\<lparr>st_code := of_nat (digit_val d1 * 10 + digit_val d2), st_count := 2\<rparr>)"
    using d ne by (simp add: sl_step_def sl_status_step_def digit64 Let_def)
  have st3: "sl_step buf (Suc (Suc p)) d3
        (sl_status, r, status\<lparr>st_code := of_nat (digit_val d1 * 10 + digit_val d2), st_count := 2\<rparr>) =
      Next (sl_space_after_status, r, status\<lparr>st_code := of_nat ((digit_val d1 * 10 + digit_val d2) * 10 + digit_val d3),
        st_count := 3, st_start := Some p\<rparr>)"
    using d ne by (simp add: sl_step_def sl_status_step_def digit64 Let_def)
  show ?thesis
    using pos sl.machine_step [of p stop buf] sl.machine_step [of "Suc p" stop buf]
      sl.machine_step [of "Suc (Suc p)" stop buf]
    by (simp add: st st2 st3 del: of_nat_add of_nat_mult)
qed

lemma code_block:
  assumes b: "avail buf stop p (SP # d1 # d2 # d3 # SP # reason @ [CR, LF])"
    and d: "list_all is_digit [d1, d2, d3]" and reason: "set reason \<inter> {CR, LF} = {}"
    and s: "st_code status = 0" "st_count status = 0"
  shows "machine sl_step buf stop p (sl_minor_digit, r, status) =
    Some (Some Sl_done, p + length reason + 6, (sl_almost_done, r,
      status\<lparr>st_code := of_nat (dec_value [d1, d2, d3]), st_count := 3, st_start := Some (Suc p),
        st_end := Some (p + 5 + length reason)\<rparr>))"
proof -
  let ?m = "machine sl_step buf stop" and ?p = "p"
  let ?s = "status\<lparr>st_code := of_nat (dec_value [d1, d2, d3]), st_count := 3, st_start := Some (Suc ?p)\<rparr>"
  obtain p1 where p1: "p1 = Suc (Suc (Suc (Suc ?p)))" by simp
  have a: "avail buf stop (Suc ?p) [d1, d2, d3]"
    "avail buf stop p1 (SP # reason @ [CR, LF])" "avail buf stop (Suc p1) reason"
    "avail buf stop (Suc p1 + length reason) [CR, LF]"
    using b unfolding p1 by (simp_all add: avail_append avail_Cons) (auto simp: avail_def)
  have "?m ?p (sl_minor_digit, r, status) = ?m (Suc ?p) (sl_status, r, status)"
    using sl.machine_avail [OF b, of "(sl_minor_digit, r, status)"] by (simp add: sl_step_def sl_version_def)
  also have "\<dots> = ?m p1 (sl_space_after_status, r, ?s)"
    unfolding p1 by (rule status_block [OF a(1) d s])
  also have "\<dots> = ?m (Suc p1) (sl_status_text, r, ?s)"
    using sl.machine_avail [OF a(2)] by (simp add: sl_step_def sl_text_def)
  also have "\<dots> = ?m (Suc p1 + length reason) (sl_status_text, r, ?s)"
  proof -
    have "sl_step buf p c (sl_status_text, r, ?s) = Next (sl_status_text, r, ?s)" if "c \<in> set reason" for p c
      using that reason by (auto simp: sl_step_def sl_text_def)
    then show ?thesis
      using sl.machine_fold [of reason buf "\<lambda>_. (sl_status_text, r, ?s)" "\<lambda>_ _. ()", OF _ a(3)] by simp
  qed
  also have "\<dots> = Some (Some Sl_done, p1 + length reason + 2, (sl_almost_done, r, ?s\<lparr>st_end := Some (Suc p1 + length reason)\<rparr>))"
    using a(4) by (simp add: avail_Cons sl.machine_step sl_step_def sl_text_def Let_def)
  finally show ?thesis by (simp add: p1)
qed


lemma sl_fold_digits:
  "list_all is_digit ds \<Longrightarrow> fold (\<lambda>c v. v * 10 + sl_digit16 c) ds (of_nat n) = of_nat (dec_acc n ds)"
proof (induction ds arbitrary: n)
  case (Cons c ds)
  then have "of_nat n * 10 + sl_digit16 c = of_nat (n * 10 + digit_val c)"
    by (simp add: sl_digit16_def digit_val_def is_digit_unat of_nat_diff)
  with Cons show ?case by (simp del: of_nat_add of_nat_mult)
qed simp

lemma sl_http_block:
  assumes "avail buf stop p (bytes ''HTTP/'')"
  shows "machine sl_step buf stop p (sl_start, r, status) = machine sl_step buf stop (p + 5) (sl_first_major_digit, r, status)"
proof -
  have "p < stop \<and> Suc p < stop \<and> Suc (Suc p) < stop \<and> Suc (Suc (Suc p)) < stop \<and>
      Suc (Suc (Suc (Suc p))) < stop \<and> stop \<le> length buf"
    using assms by (simp add: bytes_def avail_Cons avail_def)
  then show ?thesis
    using assms by (simp add: bytes_def avail_Cons sl.machine_step sl_step_def sl_expect_def numeral_eq_Suc)
qed

lemma sl_version_block:
  assumes a: "avail buf stop p (d # ds @ ch CHR ''.'' # e # es)"
    and d: "ch CHR ''1'' \<le> d" "d \<le> ch CHR ''9''" "list_all is_digit ds" and e: "list_all is_digit (e # es)"
  shows "machine sl_step buf stop p (sl_first_major_digit, r, status) =
    machine sl_step buf stop (p + length ds + length es + 3)
      (sl_minor_digit, r\<lparr>r_http_major := of_nat (dec_value (d # ds)), r_http_minor := of_nat (dec_value (e # es))\<rparr>, status)"
proof -
  obtain p2 where p2: "p2 = Suc p + length ds" by simp
  have d': "is_digit d" using d by (simp add: byte_simps word_le_nat_alt)
  have range: "\<not> (d < ch CHR ''1'' \<or> ch CHR ''9'' < d)" using d by auto
  have dig: "sl_digit16 c = of_nat (digit_val c)" if "is_digit c" for c
    using that by (simp add: sl_digit16_def digit_val_def is_digit_unat of_nat_diff)
  have no: "c \<noteq> ch CHR ''.'' \<and> c \<noteq> SP" if "is_digit c" for c using that by (auto simp: byte_simps)
  have a1: "avail buf stop (Suc p) ds" "avail buf stop p2 (ch CHR ''.'' # e # es)"
    "avail buf stop (Suc p2) (e # es)" "avail buf stop (Suc (Suc p2)) es"
    using a unfolding p2 by (simp_all add: avail_append avail_Cons)
  let ?maj = "\<lambda>v. (sl_major_digit, r\<lparr>r_http_major := v\<rparr>, status)"
  let ?r = "r\<lparr>r_http_major := of_nat (dec_value (d # ds))\<rparr>"
  let ?min = "\<lambda>v. (sl_minor_digit, ?r\<lparr>r_http_minor := v\<rparr>, status)"
  have "machine sl_step buf stop p (sl_first_major_digit, r, status) =
      machine sl_step buf stop (Suc p) (?maj (of_nat (digit_val d)))"
    using sl.machine_avail [OF a, of "(sl_first_major_digit, r, status)"] d'
    by (simp add: sl_step_def sl_version_def range dig)
  also have "\<dots> = machine sl_step buf stop p2 (sl_major_digit, ?r, status)"
  proof -
    have "sl_step buf p c (?maj v) = Next (?maj (v * 10 + sl_digit16 c))" if "c \<in> set ds" for p c v
      using that d(3) no [of c] by (simp add: sl_step_def sl_version_def list_all_iff)
    from sl.machine_fold [of ds buf ?maj "\<lambda>c v. v * 10 + sl_digit16 c", OF this a1(1)]
    have "machine sl_step buf stop (Suc p) (?maj (of_nat (digit_val d))) =
        machine sl_step buf stop (Suc p + length ds) (?maj (of_nat (dec_acc (digit_val d) ds)))"
      unfolding sl_fold_digits [OF d(3), symmetric] .
    then show ?thesis unfolding p2 by simp
  qed
  also have "\<dots> = machine sl_step buf stop (Suc p2) (sl_first_minor_digit, ?r, status)"
    using sl.machine_avail [OF a1(2), of "(sl_major_digit, ?r, status)"] by (simp add: sl_step_def sl_version_def)
  also have "\<dots> = machine sl_step buf stop (Suc (Suc p2)) (?min (of_nat (digit_val e)))"
    using sl.machine_avail [OF a1(3), of "(sl_first_minor_digit, ?r, status)"] e
    by (simp add: sl_step_def sl_version_def dig)
  also have "\<dots> = machine sl_step buf stop (Suc (Suc p2) + length es) (?min (of_nat (dec_value (e # es))))"
  proof -
    have "sl_step buf p c (?min v) = Next (?min (v * 10 + sl_digit16 c))" if "c \<in> set es" for p c v
      using that e no [of c] by (simp add: sl_step_def sl_version_def list_all_iff)
    from sl.machine_fold [of es buf ?min "\<lambda>c v. v * 10 + sl_digit16 c", OF this a1(4)]
    show ?thesis using sl_fold_digits [of es "digit_val e"] e by simp
  qed
  also have "Suc (Suc p2) + length es = p + length ds + length es + 3" using p2 by simp
  finally show ?thesis by simp
qed

text \<open>
  A well formed status line \<open>HTTP/major.minor SP code SP reason CR LF\<close> of an upstream response gives
  the version, the code as a number of three digits and its position; the position is behind the line.
\<close>

theorem ngx_http_parse_status_line_wellformed:
  assumes b: "avail (buf_mem b) (buf_last b) (buf_pos b) line"
    and line: "line = bytes ''HTTP/'' @ (d # ds @ ch CHR ''.'' # e # es) @ SP # d1 # d2 # d3 # SP # reason @ [CR, LF]"
    and d: "ch CHR ''1'' \<le> d" "d \<le> ch CHR ''9''" "list_all is_digit ds" and e: "list_all is_digit (e # es)"
    and code: "list_all is_digit [d1, d2, d3]" and reason: "set reason \<inter> {CR, LF} = {}"
    and s: "st_code status = 0" "st_count status = 0"
  shows "\<exists>r' status' b'. ngx_http_parse_status_line (sl_start, r, status) b = Some (NGX_OK, (sl_start, r', status'), b') \<and>
    st_code status' = of_nat (dec_value [d1, d2, d3]) \<and>
    st_start status' = Some (buf_pos b + length ds + length es + 9) \<and>
    st_end status' = Some (buf_pos b + length line - 2) \<and>
    st_http_version status' = dec_value (d # ds) mod 65536 * 1000 + dec_value (e # es) mod 65536 \<and>
    buf_pos b' = buf_pos b + length line"
proof -
  let ?m = "machine sl_step (buf_mem b) (buf_last b)" and ?p = "buf_pos b"
  let ?v = "d # ds @ ch CHR ''.'' # e # es" and ?tail = "SP # d1 # d2 # d3 # SP # reason @ [CR, LF]"
  let ?r = "r\<lparr>r_http_major := of_nat (dec_value (d # ds)), r_http_minor := of_nat (dec_value (e # es))\<rparr>"
  let ?q = "?p + 5 + length ds + length es + 3"
  have "avail (buf_mem b) (buf_last b) ?p (bytes ''HTTP/'' @ ?v @ ?tail)" using b line by simp
  then have a: "avail (buf_mem b) (buf_last b) ?p (bytes ''HTTP/'')" "avail (buf_mem b) (buf_last b) (?p + 5) ?v"
    "avail (buf_mem b) (buf_last b) (?p + 5 + length ?v) ?tail"
    unfolding avail_append by (simp_all add: add.assoc numeral_eq_Suc)
  have q: "?p + 5 + length ?v = ?q" by simp
  have "?m ?p (sl_start, r, status) = ?m (?p + 5) (sl_first_major_digit, r, status)"
    by (rule sl_http_block [OF a(1)])
  also have "\<dots> = ?m ?q (sl_minor_digit, ?r, status)"
    by (rule sl_version_block [OF a(2) d e])
  finally have "?m ?p (sl_start, r, status) = Some (Some Sl_done, ?q + length reason + 6, (sl_almost_done, ?r,
      status\<lparr>st_code := of_nat (dec_value [d1, d2, d3]), st_count := 3, st_start := Some (Suc ?q),
        st_end := Some (?q + 5 + length reason)\<rparr>))"
    using code_block [OF a(3)[unfolded q] code reason s] by simp
  then show ?thesis
    using line by (simp add: ngx_http_parse_status_line_def Let_def unat_of_nat take_bit_eq_mod del: dec_acc_simps)
qed

theorem ngx_http_parse_status_line_wellformed_witness:
  "\<exists>r' status' b'. ngx_http_parse_status_line (sl_start, fresh_request, \<lparr>st_http_version = 0, st_code = 0,
       st_count = 0, st_start = None, st_end = None\<rparr>)
     \<lparr>buf_mem = bytes ''HTTP/1.1 200 OK'' @ [CR, LF], buf_pos = 0, buf_last = 17\<rparr> =
     Some (NGX_OK, (sl_start, r', status'), b') \<and> st_code status' = 200"
proof -
  let ?b = "\<lparr>buf_mem = bytes ''HTTP/1.1 200 OK'' @ [CR, LF], buf_pos = 0, buf_last = 17\<rparr>"
  let ?line = "bytes ''HTTP/'' @ (ch CHR ''1'' # [] @ ch CHR ''.'' # ch CHR ''1'' # []) @
     SP # ch CHR ''2'' # ch CHR ''0'' # ch CHR ''0'' # SP # bytes ''OK'' @ [CR, LF]"
  let ?st = "\<lparr>st_http_version = 0, st_code = 0, st_count = 0, st_start = None, st_end = None\<rparr>"
  have line: "avail (buf_mem ?b) (buf_last ?b) (buf_pos ?b) ?line" by (simp add: avail_def byte_simps)
  have "list_all is_digit [ch CHR ''2'', ch CHR ''0'', ch CHR ''0'']" "list_all is_digit [ch CHR ''1'']"
    "ch CHR ''1'' \<le> ch CHR ''9''" "set (bytes ''OK'') \<inter> {CR, LF} = {}"
    by (simp_all add: byte_simps)
  moreover have "dec_value [ch CHR ''2'', ch CHR ''0'', ch CHR ''0''] = 200"
    by (simp add: digit_val_def byte_simps)
  ultimately show ?thesis
    using ngx_http_parse_status_line_wellformed [OF line refl, of ?st fresh_request]
    by (simp del: dec_acc_simps) blast
qed

end
