(* ===== verification/Ngx_Http_Complex_Uri.thy ===== *)
theory Ngx_Http_Complex_Uri
  imports Ngx_Http_Request
begin

text \<open>
  \<open>ngx_http_parse_complex_uri\<close> of src/http/ngx_http_parse.c: it decodes and normalises the path of a
  request into the memory at \<open>r->uri.data\<close>. The pointers \<open>p\<close> (into the request) and \<open>u\<close> (into the output)
  are indices; \<open>u\<close> is an integer, because the code moves it before the start of the memory. Every read
  and write is checked: a result \<open>None\<close> is an access outside of the request buffer or of the output.
\<close>

datatype cu_state = sw_usual | sw_slash | sw_dot | sw_dot_dot | sw_quoted | sw_quoted_second

record cu =
  cu_state :: cu_state
  cu_quoted_state :: cu_state
  cu_decoded :: byte
  cu_ch :: byte
  cu_p :: nat
  cu_u :: int
  cu_out :: "byte list"
  cu_uri_ext :: "int option"
  cu_args_start :: ptr
  cu_args :: "(nat \<times> nat) option"
  cu_quoted_uri :: bool
  cu_plus_in_uri :: bool

datatype cu_action = Cont cu | Args cu | Done cu | Fail

section \<open>Reading and writing\<close>

definition cu_next :: "byte list \<Rightarrow> cu \<Rightarrow> cu option" where
  "cu_next buf s = (case rd buf (cu_p s) of None \<Rightarrow> None | Some c \<Rightarrow> Some (s\<lparr>cu_ch := c, cu_p := cu_p s + 1\<rparr>))"

definition cu_put :: "byte \<Rightarrow> cu \<Rightarrow> cu option" where
  "cu_put c s =
     (if 0 \<le> cu_u s \<and> cu_u s < int (length (cu_out s))
      then Some (s\<lparr>cu_out := (cu_out s)[nat (cu_u s) := c], cu_u := cu_u s + 1\<rparr>) else None)"

text \<open>The loop behind \<open>u -= 5\<close>: back to the slash; \<open>None\<close> where the code returns an error.\<close>

function cu_back :: "byte list \<Rightarrow> int \<Rightarrow> int option" where
  "cu_back out u =
     (if u < 0 then None
      else if out ! nat u = ch CHR ''/'' then Some (u + 1)
      else cu_back out (u - 1))"
  by pat_completeness auto
termination
  by (relation "measure (\<lambda>(out, u). nat (u + 1))") auto

declare cu_back.simps [simp del]

section \<open>The states\<close>

definition cu_put_next :: "byte list \<Rightarrow> byte \<Rightarrow> cu \<Rightarrow> cu_action option" where
  "cu_put_next buf c s = do { s \<leftarrow> cu_put c s; s \<leftarrow> cu_next buf s; Some (Cont s) }"

definition cu_go :: "byte list \<Rightarrow> cu \<Rightarrow> cu_action option" where
  "cu_go buf s = do { s \<leftarrow> cu_next buf s; Some (Cont s) }"

definition cu_usual :: "byte list \<Rightarrow> cu \<Rightarrow> cu_action option" where
  "cu_usual buf s =
     (let c = cu_ch s
      in if is_usual c then cu_put_next buf c s
         else if c = ch CHR ''/'' then cu_put_next buf c (s\<lparr>cu_uri_ext := None, cu_state := sw_slash\<rparr>)
         else if c = ch CHR ''%'' then cu_go buf (s\<lparr>cu_quoted_state := cu_state s, cu_state := sw_quoted\<rparr>)
         else if c = ch CHR ''?'' then Some (Args (s\<lparr>cu_args_start := Some (cu_p s)\<rparr>))
         else if c = ch CHR ''#'' then Some (Done s)
         else if c = ch CHR ''.'' then cu_put_next buf c (s\<lparr>cu_uri_ext := Some (cu_u s + 1)\<rparr>)
         else if c = ch CHR ''+'' then cu_put_next buf c (s\<lparr>cu_plus_in_uri := True\<rparr>)
         else cu_put_next buf c s)"

definition cu_slash :: "bool \<Rightarrow> byte list \<Rightarrow> cu \<Rightarrow> cu_action option" where
  "cu_slash merge_slashes buf s =
     (let c = cu_ch s
      in if is_usual c then cu_put_next buf c (s\<lparr>cu_state := sw_usual\<rparr>)
         else if c = ch CHR ''/'' then (if \<not> merge_slashes then cu_put_next buf c s else cu_go buf s)
         else if c = ch CHR ''.'' then cu_put_next buf c (s\<lparr>cu_state := sw_dot\<rparr>)
         else if c = ch CHR ''%'' then cu_go buf (s\<lparr>cu_quoted_state := cu_state s, cu_state := sw_quoted\<rparr>)
         else if c = ch CHR ''?'' then Some (Args (s\<lparr>cu_args_start := Some (cu_p s)\<rparr>))
         else if c = ch CHR ''#'' then Some (Done s)
         else if c = ch CHR ''+'' then cu_put_next buf c (s\<lparr>cu_plus_in_uri := True, cu_state := sw_usual\<rparr>)
         else cu_put_next buf c (s\<lparr>cu_state := sw_usual\<rparr>))"

definition cu_dot :: "byte list \<Rightarrow> cu \<Rightarrow> cu_action option" where
  "cu_dot buf s =
     (let c = cu_ch s
      in if is_usual c then cu_put_next buf c (s\<lparr>cu_state := sw_usual\<rparr>)
         else if c = ch CHR ''/'' then cu_go buf (s\<lparr>cu_state := sw_slash, cu_u := cu_u s - 1\<rparr>)
         else if c = ch CHR ''.'' then cu_put_next buf c (s\<lparr>cu_state := sw_dot_dot\<rparr>)
         else if c = ch CHR ''%'' then cu_go buf (s\<lparr>cu_quoted_state := cu_state s, cu_state := sw_quoted\<rparr>)
         else if c = ch CHR ''?'' then Some (Args (s\<lparr>cu_args_start := Some (cu_p s)\<rparr>))
         else if c = ch CHR ''#'' then Some (Done s)
         else if c = ch CHR ''+'' then cu_put_next buf c (s\<lparr>cu_plus_in_uri := True, cu_state := sw_usual\<rparr>)
         else cu_put_next buf c (s\<lparr>cu_state := sw_usual\<rparr>))"

definition cu_dot_dot :: "byte list \<Rightarrow> cu \<Rightarrow> cu_action option" where
  "cu_dot_dot buf s =
     (let c = cu_ch s
      in if is_usual c then cu_put_next buf c (s\<lparr>cu_state := sw_usual\<rparr>)
         else if c = ch CHR ''/'' then
           (case cu_back (cu_out s) (cu_u s - 5) of
              None \<Rightarrow> Some Fail
            | Some u \<Rightarrow> cu_go buf (s\<lparr>cu_state := sw_slash, cu_u := u\<rparr>))
         else if c = ch CHR ''%'' then cu_go buf (s\<lparr>cu_quoted_state := cu_state s, cu_state := sw_quoted\<rparr>)
         else if c = ch CHR ''?'' then Some (Args (s\<lparr>cu_args_start := Some (cu_p s)\<rparr>))
         else if c = ch CHR ''#'' then Some (Done s)
         else if c = ch CHR ''+'' then cu_put_next buf c (s\<lparr>cu_plus_in_uri := True, cu_state := sw_usual\<rparr>)
         else cu_put_next buf c (s\<lparr>cu_state := sw_usual\<rparr>))"

definition cu_quoted :: "byte list \<Rightarrow> cu \<Rightarrow> cu_action option" where
  "cu_quoted buf s =
     (let s = s\<lparr>cu_quoted_uri := True\<rparr>; c = cu_ch s
      in if is_digit c then cu_go buf (s\<lparr>cu_decoded := c - ch CHR ''0'', cu_state := sw_quoted_second\<rparr>)
         else if ch CHR ''a'' \<le> c OR 0x20 \<and> c OR 0x20 \<le> ch CHR ''f'' then
           cu_go buf (s\<lparr>cu_decoded := (c OR 0x20) - ch CHR ''a'' + 10, cu_state := sw_quoted_second\<rparr>)
         else Some Fail)"

definition cu_quoted_second :: "byte list \<Rightarrow> cu \<Rightarrow> cu_action option" where
  "cu_quoted_second buf s =
     (let c = cu_ch s
      in if is_digit c then
           (let c = push_bit 4 (cu_decoded s) + c - ch CHR ''0''; s = s\<lparr>cu_ch := c\<rparr>
            in if c = ch CHR ''%'' \<or> c = ch CHR ''#'' then cu_put_next buf c (s\<lparr>cu_state := sw_usual\<rparr>)
               else if c = 0 then Some Fail
               else Some (Cont (s\<lparr>cu_state := cu_quoted_state s\<rparr>)))
         else if ch CHR ''a'' \<le> c OR 0x20 \<and> c OR 0x20 \<le> ch CHR ''f'' then
           (let c = push_bit 4 (cu_decoded s) + (c OR 0x20) - ch CHR ''a'' + 10; s = s\<lparr>cu_ch := c\<rparr>
            in if c = ch CHR ''?'' then cu_put_next buf c (s\<lparr>cu_state := sw_usual\<rparr>)
               else if c = ch CHR ''+'' then Some (Cont (s\<lparr>cu_plus_in_uri := True, cu_state := cu_quoted_state s\<rparr>))
               else Some (Cont (s\<lparr>cu_state := cu_quoted_state s\<rparr>)))
         else Some Fail)"

definition cu_step :: "bool \<Rightarrow> byte list \<Rightarrow> cu \<Rightarrow> cu_action option" where
  "cu_step merge_slashes buf s =
     (case cu_state s of
        sw_usual \<Rightarrow> cu_usual buf s
      | sw_slash \<Rightarrow> cu_slash merge_slashes buf s
      | sw_dot \<Rightarrow> cu_dot buf s
      | sw_dot_dot \<Rightarrow> cu_dot_dot buf s
      | sw_quoted \<Rightarrow> cu_quoted buf s
      | sw_quoted_second \<Rightarrow> cu_quoted_second buf s)"

section \<open>The parser\<close>

partial_function (option) cu_loop :: "bool \<Rightarrow> byte list \<Rightarrow> nat \<Rightarrow> cu \<Rightarrow> cu_action option" where
  "cu_loop merge_slashes buf uri_end s =
     (if cu_p s \<le> uri_end then
        (case cu_step merge_slashes buf s of
           None \<Rightarrow> None
         | Some (Cont s) \<Rightarrow> cu_loop merge_slashes buf uri_end s
         | Some act \<Rightarrow> Some act)
      else Some (Done s))"

declare cu_loop.simps [code]

text \<open>The loop behind the label \<open>args\<close>: the arguments end at a \<open>#\<close>.\<close>

function cu_args_loop :: "byte list \<Rightarrow> nat \<Rightarrow> cu \<Rightarrow> cu option" where
  "cu_args_loop buf uri_end s =
     (if cu_p s < uri_end then
        (case rd buf (cu_p s) of
           None \<Rightarrow> None
         | Some c \<Rightarrow>
             if c \<noteq> ch CHR ''#'' then cu_args_loop buf uri_end (s\<lparr>cu_p := cu_p s + 1\<rparr>)
             else Some (s\<lparr>cu_p := cu_p s + 1,
                          cu_args := map_option (\<lambda>a. (a, cu_p s - a)) (cu_args_start s),
                          cu_args_start := None\<rparr>))
      else Some s)"
  by pat_completeness auto
termination
  by (relation "measure (\<lambda>(buf, uri_end, s). uri_end - cu_p s)") auto

declare cu_args_loop.simps [simp del]

record complex_uri =
  c_uri :: "byte list"
  c_exten :: "(int \<times> int) option"
  c_args :: "(nat \<times> nat) option"
  c_args_start :: ptr
  c_quoted_uri :: bool
  c_plus_in_uri :: bool

text \<open>Behind the labels: \<open>uri.len\<close> with its bytes, and the extension as its start and length.\<close>

definition cu_finish :: "cu \<Rightarrow> complex_uri" where
  "cu_finish s =
     \<lparr>c_uri = take (nat (cu_u s)) (cu_out s),
      c_exten = map_option (\<lambda>e. (e, cu_u s - e)) (cu_uri_ext s),
      c_args = cu_args s, c_args_start = cu_args_start s,
      c_quoted_uri = cu_quoted_uri s, c_plus_in_uri = cu_plus_in_uri s\<rparr>"

text \<open>
  \<open>out\<close> is the memory of \<open>uri.data\<close>. The results are NGX_OK with the request, or
  NGX_HTTP_PARSE_INVALID_REQUEST (the inner \<open>None\<close>).
\<close>

definition ngx_http_parse_complex_uri ::
    "byte list \<Rightarrow> nat \<Rightarrow> nat \<Rightarrow> byte list \<Rightarrow> bool \<Rightarrow> bool \<Rightarrow> bool \<Rightarrow> complex_uri option option" where
  "ngx_http_parse_complex_uri buf uri_start uri_end out quoted_uri plus_in_uri merge_slashes = do {
     s \<leftarrow> cu_next buf \<lparr>cu_state = sw_usual, cu_quoted_state = sw_usual, cu_decoded = 0, cu_ch = 0,
            cu_p = uri_start, cu_u = 0, cu_out = out, cu_uri_ext = None, cu_args_start = None,
            cu_args = None, cu_quoted_uri = quoted_uri, cu_plus_in_uri = plus_in_uri\<rparr>;
     act \<leftarrow> cu_loop merge_slashes buf uri_end s;
     (case act of
        Fail \<Rightarrow> Some None
      | Args s \<Rightarrow> do { s \<leftarrow> cu_args_loop buf uri_end s; Some (Some (cu_finish s)) }
      | Done s \<Rightarrow> Some (Some (cu_finish s))
      | Cont s \<Rightarrow> Some (Some (cu_finish s)))
   }"

end
