(* ===== verification/Ngx_Http_Request_Safe.thy ===== *)
theory Ngx_Http_Request_Safe
  imports Ngx_Http_Request_Line
begin

text \<open>
  What \<open>ngx_http_parse_request_line\<close> promises to the code behind it: where the pointers of an accepted
  request point to, and that a URI which is not marked for normalisation needs none.
\<close>

section \<open>Scanned URIs\<close>

definition scanned :: "byte list \<Rightarrow> nat \<Rightarrow> nat \<Rightarrow> bool" where
  "scanned buf u k \<longleftrightarrow> u < k \<and> buf ! u = ch CHR ''/'' \<and>
     (\<forall>i. u \<le> i \<and> i < k \<longrightarrow> buf ! i \<noteq> 0 \<and> buf ! i \<noteq> CR \<and> buf ! i \<noteq> LF)"

text \<open>No escape, fragment or query, and no segment that is empty or starts with a dot.\<close>

definition clean :: "byte list \<Rightarrow> nat \<Rightarrow> nat \<Rightarrow> bool" where
  "clean buf u k \<longleftrightarrow>
     (\<forall>i. u \<le> i \<and> i < k \<longrightarrow> buf ! i \<notin> set (bytes ''%#?'')) \<and>
     (\<forall>i. u \<le> i \<and> Suc i < k \<and> buf ! i = ch CHR ''/'' \<longrightarrow> buf ! Suc i \<notin> set (bytes ''/.''))"

lemma scanned_first: "c = ch CHR ''/'' \<Longrightarrow> buf ! p = c \<Longrightarrow> scanned buf p (Suc p)"
  by (auto simp: scanned_def le_less_Suc_eq byte_simps)

lemma clean_first: "c = ch CHR ''/'' \<Longrightarrow> buf ! p = c \<Longrightarrow> clean buf p (Suc p)"
  by (auto simp: clean_def le_less_Suc_eq byte_simps)

lemma scanned_Suc:
  "scanned buf u p \<Longrightarrow> buf ! p \<noteq> 0 \<Longrightarrow> buf ! p \<noteq> CR \<Longrightarrow> buf ! p \<noteq> LF \<Longrightarrow> scanned buf u (Suc p)"
  by (auto simp: scanned_def less_Suc_eq)

lemma clean_Suc:
  assumes "clean buf u p" "u < p" "buf ! p \<notin> set (bytes ''%#?'')"
    and "buf ! (p - 1) = ch CHR ''/'' \<Longrightarrow> buf ! p \<notin> set (bytes ''/.'')"
  shows "clean buf u (Suc p)"
  unfolding clean_def
proof (intro conjI allI impI)
  fix i assume "u \<le> i \<and> i < Suc p"
  then show "buf ! i \<notin> set (bytes ''%#?'')" using assms(1,3) by (auto simp: clean_def less_Suc_eq)
next
  fix i assume i: "u \<le> i \<and> Suc i < Suc p \<and> buf ! i = ch CHR ''/''"
  show "buf ! Suc i \<notin> set (bytes ''/.'')"
  proof (cases "Suc i = p")
    case True
    then show ?thesis using i assms(4) by auto
  next
    case False
    then show ?thesis using i assms(1) by (auto simp: clean_def)
  qed
qed

section \<open>The invariant\<close>

definition plain :: "ngx_http_request_t \<Rightarrow> bool" where
  "plain r \<longleftrightarrow> \<not> r_complex_uri r \<and> \<not> r_quoted_uri r"

definition path_end :: "ngx_http_request_t \<Rightarrow> nat \<Rightarrow> nat" where
  "path_end r e = (case r_args_start r of None \<Rightarrow> e | Some a \<Rightarrow> a - 1)"

definition args_ok :: "byte list \<Rightarrow> nat \<Rightarrow> nat \<Rightarrow> ngx_http_request_t \<Rightarrow> bool" where
  "args_ok buf u e r \<longleftrightarrow> (\<forall>a. r_args_start r = Some a \<longrightarrow> u + 1 < a \<and> a \<le> e \<and> buf ! (a - 1) = ch CHR ''?'')"

lemma args_ok_None [simp]: "r_args_start r = None \<Longrightarrow> args_ok buf u e r"
  by (simp add: args_ok_def)

lemma args_ok_cong: "r_args_start r' = r_args_start r \<Longrightarrow> args_ok buf u e r' = args_ok buf u e r"
  by (simp add: args_ok_def)

lemma args_ok_Suc: "args_ok buf u e r \<Longrightarrow> args_ok buf u (Suc e) r"
  by (auto simp: args_ok_def)

definition uri_found :: "byte list \<Rightarrow> nat \<Rightarrow> ngx_http_request_t \<Rightarrow> bool" where
  "uri_found buf p r \<longleftrightarrow> (\<exists>u e. r_uri_start r = Some u \<and> r_uri_end r = Some e \<and>
     scanned buf u e \<and> e \<le> p \<and> args_ok buf u e r \<and> (plain r \<longrightarrow> path_end r e \<le> e \<and> clean buf u (path_end r e)))"

definition in_path :: "byte list \<Rightarrow> nat \<Rightarrow> ngx_http_request_t \<Rightarrow> bool" where
  "in_path buf p r \<longleftrightarrow> r_args_start r = None \<and>
     (\<exists>u. r_uri_start r = Some u \<and> scanned buf u p \<and> (plain r \<longrightarrow> clean buf u p))"

definition in_rest :: "byte list \<Rightarrow> nat \<Rightarrow> ngx_http_request_t \<Rightarrow> bool" where
  "in_rest buf p r \<longleftrightarrow> (\<exists>u. r_uri_start r = Some u \<and> scanned buf u p \<and> args_ok buf u p r \<and>
     (plain r \<longrightarrow> (\<exists>a. r_args_start r = Some a \<and> a \<le> p \<and> clean buf u (a - 1))))"

definition behind_schema :: "byte list \<Rightarrow> nat \<Rightarrow> ngx_http_request_t \<Rightarrow> bool" where
  "behind_schema buf p r \<longleftrightarrow> r_args_start r = None \<and>
     (\<exists>e. r_schema_end r = Some e \<and> e + 2 < p \<and> buf ! (e + 1) = ch CHR ''/'')"

fun rl_inv :: "byte list \<Rightarrow> nat \<Rightarrow> rl_state \<times> ngx_http_request_t \<Rightarrow> bool" where
  "rl_inv buf p (st, r) \<longleftrightarrow> r_request_end r = None \<and>
     (if st \<in> {sw_start, sw_method, sw_spaces_before_uri, sw_schema} then r_args_start r = None
      else if st = sw_schema_slash then
        r_args_start r = None \<and> (\<exists>e. r_schema_end r = Some e \<and> p = e + 1)
      else if st = sw_schema_slash_slash then
        r_args_start r = None \<and> (\<exists>e. r_schema_end r = Some e \<and> p = e + 2 \<and> buf ! (e + 1) = ch CHR ''/'')
      else if st \<in> {sw_host_start, sw_host, sw_host_end, sw_host_ip_literal, sw_port} then
        behind_schema buf p r
      else if st = sw_after_slash_in_uri then in_path buf p r
      else if st = sw_check_uri then in_path buf p r \<and> buf ! (p - 1) \<noteq> ch CHR ''/''
      else if st = sw_check_uri_http_09 then
        in_path buf p r \<and> buf ! (p - 1) = SP \<and> (\<exists>e. r_uri_end r = Some e \<and> e < p) \<and> uri_found buf (p - 1) r
      else if st = sw_uri then in_rest buf p r
      else if st = sw_http_09 then in_rest buf p r \<and> uri_found buf (p - 1) r
      else uri_found buf (p - 1) r \<and> 0 < p)"

definition rl_exit_inv :: "byte list \<Rightarrow> parse_exit \<Rightarrow> nat \<Rightarrow> rl_state \<times> ngx_http_request_t \<Rightarrow> bool" where
  "rl_exit_inv buf x p s \<longleftrightarrow>
     (x = Goto_done \<longrightarrow> uri_found buf (case r_request_end (snd s) of None \<Rightarrow> p | Some e \<Rightarrow> e) (snd s) \<and>
        (\<forall>e. r_request_end (snd s) = Some e \<longrightarrow> e < p))"

definition rl_ok :: "byte list \<Rightarrow> nat \<Rightarrow> rl_action \<Rightarrow> bool" where
  "rl_ok buf p act \<longleftrightarrow>
     (case act of Next s \<Rightarrow> rl_inv buf (Suc p) s | Redo s \<Rightarrow> rl_inv buf p s | Exit x s \<Rightarrow> rl_exit_inv buf x p s)"

lemma rl_ok_simps [simp]:
  "rl_ok buf p (Next s) = rl_inv buf (Suc p) s" "rl_ok buf p (Redo s) = rl_inv buf p s"
  "rl_ok buf p (Exit x s) = rl_exit_inv buf x p s"
  by (simp_all add: rl_ok_def)

lemma rl_ok_invalid [simp]: "rl_ok buf p (invalid r)"
  by (simp add: invalid_def rl_exit_inv_def)

lemma uri_found_mono: "uri_found buf p r \<Longrightarrow> p \<le> q \<Longrightarrow> uri_found buf q r"
  unfolding uri_found_def by (meson le_trans)

lemma uri_found_cong:
  "r_uri_start r' = r_uri_start r \<Longrightarrow> r_uri_end r' = r_uri_end r \<Longrightarrow> r_args_start r' = r_args_start r \<Longrightarrow>
   r_complex_uri r' = r_complex_uri r \<Longrightarrow> r_quoted_uri r' = r_quoted_uri r \<Longrightarrow>
   uri_found buf p r' = uri_found buf p r"
  by (simp add: uri_found_def plain_def path_end_def args_ok_def)

section \<open>Every case keeps the invariant\<close>

lemma ok_start: "rl_inv buf p (sw_start, r) \<Longrightarrow> rl_ok buf p (rl_start p c r)"
  by (simp add: rl_start_def rl_exit_inv_def Let_def)

lemma ok_method: "rl_inv buf p (sw_method, r) \<Longrightarrow> rl_ok buf p (rl_method buf p c r)"
  by (simp add: rl_method_def rl_exit_inv_def Let_def split: option.splits)

lemma ok_spaces_before_uri:
  "rl_inv buf p (sw_spaces_before_uri, r) \<Longrightarrow> c = buf ! p \<Longrightarrow> rl_ok buf p (rl_spaces_before_uri p c r)"
  by (auto simp: rl_spaces_before_uri_def in_path_def intro: scanned_first clean_first)

lemma ok_schema: "rl_inv buf p (sw_schema, r) \<Longrightarrow> rl_ok buf p (rl_schema p c r)"
  by (simp add: rl_schema_def)

lemma ok_schema_slash:
  "rl_inv buf p (sw_schema_slash, r) \<Longrightarrow> c = buf ! p \<Longrightarrow>
   rl_ok buf p (rl_expect (ch CHR ''/'') sw_schema_slash_slash c r)"
  by (auto simp: rl_expect_def)

lemma ok_schema_slash_slash:
  "rl_inv buf p (sw_schema_slash_slash, r) \<Longrightarrow> rl_ok buf p (rl_expect (ch CHR ''/'') sw_host_start c r)"
  by (auto simp: rl_expect_def behind_schema_def)

lemma behind_schema_uri:
  assumes "behind_schema buf p r"
  shows "r_args_start r = None" "uri_found buf p (r\<lparr>r_uri_start := map_option (\<lambda>e. e + 1) (r_schema_end r),
                                 r_uri_end := map_option (\<lambda>e. e + 2) (r_schema_end r)\<rparr>)"
proof -
  obtain e where e: "r_schema_end r = Some e" "e + 2 < p" "buf ! (e + 1) = ch CHR ''/''"
    using assms by (auto simp: behind_schema_def)
  then show "uri_found buf p (r\<lparr>r_uri_start := map_option (\<lambda>e. e + 1) (r_schema_end r),
                                 r_uri_end := map_option (\<lambda>e. e + 2) (r_schema_end r)\<rparr>)"
    using assms scanned_first [OF e(3) refl] clean_first [OF e(3) refl]
    by (simp add: uri_found_def path_end_def behind_schema_def)
  show "r_args_start r = None" using assms by (simp add: behind_schema_def)
qed

lemma behind_schema_Suc: "behind_schema buf p r \<Longrightarrow> behind_schema buf (Suc p) r"
  by (auto simp: behind_schema_def)

lemma ok_host_end:
  assumes "behind_schema buf p r" "r_request_end r = None" "c = buf ! p"
  shows "rl_ok buf p (rl_host_end p c r)"
proof -
  have [simp]: "behind_schema buf (Suc p) (r\<lparr>r_host_end := Some p\<rparr>)"
    using behind_schema_Suc [OF assms(1)] by (simp add: behind_schema_def)
  have [simp]: "r_args_start r = None" using behind_schema_uri(1) [OF assms(1)] .
  have "uri_found buf p (r\<lparr>r_host_end := Some p, r_uri_start := map_option (\<lambda>e. e + 1) (r_schema_end r),
      r_uri_end := map_option (\<lambda>e. e + 2) (r_schema_end r)\<rparr>)"
    using behind_schema_uri(2) [OF assms(1)] by (subst uri_found_cong) auto
  then show ?thesis
    using assms(2,3) by (auto simp: rl_host_end_def Let_def in_path_def intro: scanned_first clean_first)
qed

lemma ok_host:
  assumes "behind_schema buf p r" "r_request_end r = None" "c = buf ! p"
  shows "rl_ok buf p (rl_host p c r)"
  using ok_host_end [OF assms] behind_schema_Suc [OF assms(1)] assms(2) by (simp add: rl_host_def)

lemma ok_host_start:
  assumes "behind_schema buf p r" "r_request_end r = None" "c = buf ! p"
  shows "rl_ok buf p (rl_host_start p c r)"
proof -
  have b: "behind_schema buf p (r\<lparr>r_host_start := Some p\<rparr>)"
    using assms(1) by (simp add: behind_schema_def)
  then have "rl_ok buf p (rl_host p c (r\<lparr>r_host_start := Some p\<rparr>))" using assms by (intro ok_host) auto
  then show ?thesis
    using behind_schema_Suc [OF b] assms(2) by (simp add: rl_host_start_def Let_def)
qed

lemma ok_host_ip_literal:
  "rl_inv buf p (sw_host_ip_literal, r) \<Longrightarrow> rl_ok buf p (rl_host_ip_literal c r)"
  by (simp add: rl_host_ip_literal_def behind_schema_Suc)

lemma ok_port:
  assumes "behind_schema buf p r" "r_request_end r = None" "c = buf ! p"
  shows "rl_ok buf p (rl_port p c r)"
proof -
  have [simp]: "r_args_start r = None" using behind_schema_uri(1) [OF assms(1)] .
  have "uri_found buf p (r\<lparr>r_port_end := Some p, r_uri_start := map_option (\<lambda>e. e + 1) (r_schema_end r),
      r_uri_end := map_option (\<lambda>e. e + 2) (r_schema_end r)\<rparr>)"
    using behind_schema_uri(2) [OF assms(1)] by (subst uri_found_cong) auto
  then show ?thesis
    using assms(2,3) behind_schema_Suc [OF assms(1)]
    by (auto simp: rl_port_def in_path_def intro: scanned_first clean_first)
qed

lemma uri_found_pred: "uri_found buf (p - Suc 0) r \<Longrightarrow> uri_found buf p r"
  by (erule uri_found_mono) simp

lemma uri_found_minor [simp]:
  "uri_found buf p (r\<lparr>r_http_minor := v\<rparr>) = uri_found buf p r"
  "uri_found buf p (r\<lparr>r_http_major := v\<rparr>) = uri_found buf p r"
  "uri_found buf p (r\<lparr>r_http_protocol := q\<rparr>) = uri_found buf p r"
  "uri_found buf p (r\<lparr>r_request_end := q\<rparr>) = uri_found buf p r"
  "uri_found buf p (r\<lparr>r_space_in_uri := b\<rparr>) = uri_found buf p r"
  by (simp_all add: uri_found_def plain_def path_end_def args_ok_def)

lemma ok_host_http_09: "rl_inv buf p (sw_host_http_09, r) \<Longrightarrow> rl_ok buf p (rl_host_http_09 p c r)"
  by (auto simp: rl_host_http_09_def rl_exit_inv_def dest: uri_found_pred)

lemma in_path_end:
  "in_path buf p r \<Longrightarrow> uri_found buf p (r\<lparr>r_uri_end := Some p\<rparr>)"
  by (auto simp: in_path_def uri_found_def plain_def path_end_def args_ok_def)

lemma in_path_keep:
  assumes path: "in_path buf p r" and c: "buf ! p \<notin> set [0, CR, LF]"
    and same: "r_uri_start r' = r_uri_start r" "r_args_start r' = r_args_start r"
    and pl: "plain r' \<Longrightarrow> plain r \<and> buf ! p \<notin> set (bytes ''%#?'') \<and>
      (buf ! (p - 1) = ch CHR ''/'' \<longrightarrow> buf ! p \<notin> set (bytes ''/.''))"
  shows "in_path buf (Suc p) r'"
proof -
  obtain u where u: "r_uri_start r = Some u" "r_args_start r = None" "scanned buf u p" "u < p"
    and cl: "plain r \<Longrightarrow> clean buf u p"
    using path by (auto simp: in_path_def scanned_def)
  have "scanned buf u (Suc p)" using u(3) c by (intro scanned_Suc) auto
  moreover have "clean buf u (Suc p)" if "plain r'"
    using pl [OF that] cl u(4) by (intro clean_Suc) auto
  ultimately show ?thesis using u same by (simp add: in_path_def)
qed

lemma in_rest_keep:
  assumes "in_rest buf p r" "buf ! p \<notin> set [0, CR, LF]" "r_uri_start r' = r_uri_start r"
    "r_args_start r' = r_args_start r" "plain r' \<Longrightarrow> plain r"
  shows "in_rest buf (Suc p) r'"
  proof -
  obtain u where "r_uri_start r = Some u" "scanned buf u p" "args_ok buf u p r"
    and pl: "plain r \<Longrightarrow> \<exists>a. r_args_start r = Some a \<and> a \<le> p \<and> clean buf u (a - 1)"
    using assms(1) by (auto simp: in_rest_def)
  then have "r_uri_start r' = Some u" "scanned buf u (Suc p)" "args_ok buf u (Suc p) r'"
    using assms scanned_Suc [of buf u p] args_ok_Suc args_ok_cong [OF assms(4)] by auto
  then show ?thesis using pl assms(4,5) by (fastforce simp: in_rest_def)
qed

lemma in_rest_end: "in_rest buf p r \<Longrightarrow> uri_found buf p (r\<lparr>r_uri_end := Some p\<rparr>)"
  by (auto simp: in_rest_def uri_found_def plain_def path_end_def args_ok_def)

lemma in_path_rest:
  assumes "in_path buf p r" "buf ! p \<notin> set [0, CR, LF]" "r_uri_start r' = r_uri_start r"
    and "\<not> plain r' \<and> r_args_start r' = r_args_start r \<or> buf ! p = ch CHR ''?'' \<and> (plain r' \<longrightarrow> plain r) \<and> r_args_start r' = Some (Suc p)"
  shows "in_rest buf (Suc p) r'"
proof -
  obtain u where u: "r_uri_start r = Some u" "r_args_start r = None" "scanned buf u p" "u < p"
    and cl: "plain r \<Longrightarrow> clean buf u p"
    using assms(1) by (auto simp: in_path_def scanned_def)
  have sc: "scanned buf u (Suc p)" using u(3) assms(2) by (intro scanned_Suc) auto
  from assms(4) show ?thesis
  proof
    assume "\<not> plain r' \<and> r_args_start r' = r_args_start r"
    then show ?thesis using sc u assms(3) by (simp add: in_rest_def)
  next
    assume "buf ! p = ch CHR ''?'' \<and> (plain r' \<longrightarrow> plain r) \<and> r_args_start r' = Some (Suc p)"
    then show ?thesis using sc u cl assms(3) by (simp add: in_rest_def args_ok_def)
  qed
qed

lemma usual_char:
  "is_usual c \<Longrightarrow> c \<notin> set [0, CR, LF] \<and> c \<notin> set (bytes ''%#?'') \<and> c \<notin> set (bytes ''/.'') \<and> c \<noteq> SP"
  by (auto simp: is_usual_iff byte_simps)

lemma ok_after_slash_in_uri:
  assumes "in_path buf p r" "r_request_end r = None" "c = buf ! p"
  shows "rl_ok buf p (rl_after_slash_in_uri p c r)"
proof -
  note end_ok = in_path_end [OF assms(1)]
  note keep = in_path_keep [OF assms(1)] and rest = in_path_rest [OF assms(1)]
  show ?thesis
    using assms(2) end_ok unfolding rl_after_slash_in_uri_def
    by (auto simp: rl_exit_inv_def plain_def byte_simps assms(3) [symmetric] dest!: usual_char
        intro!: keep rest uri_found_cong [THEN iffD1, OF _ _ _ _ _ end_ok])
qed

lemma ok_check_uri:
  assumes "in_path buf p r" "r_request_end r = None" "c = buf ! p" "buf ! (p - 1) \<noteq> ch CHR ''/''"
  shows "rl_ok buf p (rl_check_uri p c r)"
proof -
  note end_ok = in_path_end [OF assms(1)]
  note keep = in_path_keep [OF assms(1)] and rest = in_path_rest [OF assms(1)]
  show ?thesis
    using assms(2,4) end_ok unfolding rl_check_uri_def
    by (auto simp: rl_exit_inv_def plain_def byte_simps assms(3) [symmetric] dest!: usual_char
        intro!: keep rest uri_found_cong [THEN iffD1, OF _ _ _ _ _ end_ok])
qed

lemma ok_uri:
  assumes "in_rest buf p r" "r_request_end r = None" "c = buf ! p"
  shows "rl_ok buf p (rl_uri p c r)"
proof -
  note end_ok = in_rest_end [OF assms(1)]
  note keep = in_rest_keep [OF assms(1)]
  show ?thesis
    using assms(2) end_ok unfolding rl_uri_def
    by (auto simp: rl_exit_inv_def plain_def byte_simps assms(3) [symmetric] dest!: usual_char
        intro!: keep uri_found_cong [THEN iffD1, OF _ _ _ _ _ end_ok])
qed

lemma in_path_space: "in_path buf p (r\<lparr>r_space_in_uri := True\<rparr>) = in_path buf p r"
  by (simp add: in_path_def plain_def)

lemma in_rest_space: "in_rest buf p (r\<lparr>r_space_in_uri := True\<rparr>) = in_rest buf p r"
  by (simp add: in_rest_def plain_def args_ok_def)

lemma ok_check_uri_http_09:
  assumes "rl_inv buf p (sw_check_uri_http_09, r)" "c = buf ! p"
  shows "rl_ok buf p (rl_check_uri_http_09 p c r)"
proof -
  have "in_path buf (Suc p) r" if "c = SP"
    using assms that by (intro in_path_keep [where r = r]) (auto simp: byte_simps)
  then show ?thesis
    using assms unfolding rl_check_uri_http_09_def
    by (auto simp: rl_exit_inv_def in_path_space byte_simps dest: uri_found_pred)
qed

lemma ok_http_09:
  assumes "rl_inv buf p (sw_http_09, r)" "c = buf ! p"
  shows "rl_ok buf p (rl_http_09 p c r)"
proof -
  have "in_rest buf (Suc p) r" if "c = SP"
    using assms that by (intro in_rest_keep [where r = r]) (auto simp: byte_simps)
  then show ?thesis
    using assms unfolding rl_http_09_def
    by (auto simp: rl_exit_inv_def in_rest_space byte_simps dest: uri_found_pred)
qed

lemma ok_version:
  assumes "uri_found buf (p - Suc 0) r" "r_request_end r = None" "0 < p"
  shows "rl_ok buf p (rl_first_major_digit c r)" "rl_ok buf p (rl_major_digit c r)"
    "rl_ok buf p (rl_first_minor_digit c r)" "rl_ok buf p (rl_minor_digit c r)"
    "rl_ok buf p (rl_spaces_after_digit c r)" "rl_ok buf p (rl_almost_done p c r)"
    "st \<in> {sw_http_HT, sw_http_HTT, sw_http_HTTP, sw_first_major_digit} \<Longrightarrow> rl_ok buf p (rl_expect x st c r)"
  using assms uri_found_pred [OF assms(1)]
  by (auto simp: rl_first_major_digit_def rl_major_digit_def rl_first_minor_digit_def rl_minor_digit_def
      rl_spaces_after_digit_def rl_almost_done_def rl_expect_def rl_exit_inv_def Let_def)

lemma rl_step_inv:
  assumes "rl_inv buf p s" "c = buf ! p"
  shows "rl_ok buf p (rl_step buf p c s)"
proof -
  obtain st r where s: "s = (st, r)" by (cases s)
  note inv = assms(1) [unfolded s]
  show ?thesis
    using inv assms(2)
    by (cases st) (simp_all add: rl_step_def s ok_start ok_method ok_spaces_before_uri ok_schema ok_schema_slash
      ok_schema_slash_slash ok_host_start ok_host ok_host_end ok_host_ip_literal ok_port ok_host_http_09
      ok_after_slash_in_uri ok_check_uri ok_check_uri_http_09 ok_uri ok_http_09 ok_version)
qed

text \<open>The URI starts in the bytes that this call reads, from the position \<open>b0\<close> on.\<close>

fun rl_low :: "nat \<Rightarrow> nat \<Rightarrow> rl_state \<times> ngx_http_request_t \<Rightarrow> bool" where
  "rl_low b0 p (st, r) \<longleftrightarrow> b0 \<le> p \<and>
     (if st \<in> {sw_start, sw_method, sw_spaces_before_uri, sw_schema} then True
      else if st \<in> {sw_schema_slash, sw_schema_slash_slash, sw_host_start, sw_host, sw_host_end, sw_host_ip_literal, sw_port} then
        \<exists>e. r_schema_end r = Some e \<and> b0 \<le> e
      else \<exists>u. r_uri_start r = Some u \<and> b0 \<le> u)"

lemma rl_step_low:
  assumes "rl_low b0 p (st, r)"
  shows "case rl_step buf p c (st, r) of Next s' \<Rightarrow> rl_low b0 (p + 1) s' | Redo s' \<Rightarrow> rl_low b0 p s'
    | Exit x s' \<Rightarrow> x = Goto_done \<longrightarrow> (\<exists>u. r_uri_start (snd s') = Some u \<and> b0 \<le> u)"
  using assms by (cases st) (auto simp: rl_step_def rl_state_defs invalid_def Let_def split: option.splits)

lemma request_line_uri:
  assumes b: "buf_pos b \<le> buf_last b" "buf_last b \<le> length (buf_mem b)"
    and r0: "r_request_end r0 = None" "r_args_start r0 = None"
    and res: "ngx_http_parse_request_line (sw_start, r0) b = Some (NGX_OK, (st, r), b')"
  shows "\<exists>u e re. r_uri_start r = Some u \<and> r_uri_end r = Some e \<and> r_request_end r = Some re \<and> buf_pos b \<le> u \<and>
    scanned (buf_mem b) u e \<and> e \<le> re \<and> re < buf_pos b' \<and> buf_pos b' \<le> buf_last b \<and>
    args_ok (buf_mem b) u e r \<and>
    (\<not> r_complex_uri r \<and> \<not> r_quoted_uri r \<longrightarrow>
       path_end r e \<le> e \<and> clean (buf_mem b) u (path_end r e))"
proof -
  let ?buf = "buf_mem b"
  obtain x q st' r' where m: "machine rl_step ?buf (buf_last b) (buf_pos b) (sw_start, r0) = Some (x, q, (st', r'))"
    and q: "if x = None then q = buf_last b else q < buf_last b"
    using rl.machine_total [OF b(2,1), of "(sw_start, r0)"] by (metis prod_cases3 surj_pair)
  have fin: "x = Some Goto_done" "b' = b\<lparr>buf_pos := q + 1\<rparr>" "rl_done q r' = (NGX_OK, r)"
    using res m rl_machine_exit [of ?buf "buf_last b" "buf_pos b" "(sw_start, r0)" _ q "(st', r')"] b
    by (auto simp: ngx_http_parse_request_line_def rl_return_ok_def
        split: option.splits parse_exit.splits prod.splits)
  have "case x of None \<Rightarrow> rl_inv ?buf q (st', r') | Some l \<Rightarrow> rl_exit_inv ?buf l q (st', r')"
  proof (rule rl.machine_invariant [OF _ b(2) _ b(1) m])
    show "rl_inv ?buf (buf_pos b) (sw_start, r0)" using r0 by simp
    show "case rl_step ?buf p (?buf ! p) s of Next s' \<Rightarrow> rl_inv ?buf (p + 1) s'
        | Redo s' \<Rightarrow> rl_inv ?buf p s' | Exit x s' \<Rightarrow> rl_exit_inv ?buf x p s'" if "rl_inv ?buf p s" for p s
      using rl_step_inv [OF that refl] unfolding rl_ok_def Suc_eq_plus1 .
  qed
  then have inv: "uri_found ?buf (case r_request_end r' of None \<Rightarrow> q | Some e \<Rightarrow> e) r'"
    "\<And>e. r_request_end r' = Some e \<Longrightarrow> e < q"
    using fin(1) by (auto simp: rl_exit_inv_def)
  have "case x of None \<Rightarrow> rl_low (buf_pos b) q (st', r') | Some l \<Rightarrow> l = Goto_done \<longrightarrow> (\<exists>u. r_uri_start (snd (st', r')) = Some u \<and> buf_pos b \<le> u)"
  proof (rule rl.machine_invariant [OF _ b(2) _ b(1) m])
    show "case rl_step ?buf p (?buf ! p) s of Next s' \<Rightarrow> rl_low (buf_pos b) (p + 1) s'
        | Redo s' \<Rightarrow> rl_low (buf_pos b) p s' | Exit x s' \<Rightarrow> x = Goto_done \<longrightarrow> (\<exists>u. r_uri_start (snd s') = Some u \<and> buf_pos b \<le> u)" if "rl_low (buf_pos b) p s" for p s
      using rl_step_low that by (cases s) simp
  qed simp
  then have low: "\<exists>u. r_uri_start r' = Some u \<and> buf_pos b \<le> u" using fin(1) by simp
  show ?thesis
    using inv fin(2,3) q fin(1) low
    by (cases "r_request_end r'")
       (fastforce simp: rl_done_def Let_def uri_found_def plain_def path_end_def args_ok_def split: if_splits)+
qed

text \<open>
  C4: Where the pointers of an accepted request line point to. From the start of a request, when
  \<open>ngx_http_parse_request_line\<close> returns NGX_OK, the URI is a non-empty part of the bytes that this call
  read: it starts at or behind the old position, with a slash, contains no NUL, CR or LF (other control bytes are accepted), and ends at or before \<open>request_end\<close>, which is
  before the new position; the arguments start behind a question mark of it. When neither \<open>complex_uri\<close> nor \<open>quoted_uri\<close> is set, the path has no escape
  and no segment that is empty or starts with a dot: it needs no normalisation, and does not contain
  \<open>/../\<close>.
\<close>

theorem ngx_http_parse_request_line_uri:
  assumes b: "buf_pos b \<le> buf_last b" "buf_last b \<le> length (buf_mem b)"
    and r0: "r_request_end r0 = None" "r_args_start r0 = None"
    and res: "ngx_http_parse_request_line (sw_start, r0) b = Some (NGX_OK, (st, r), b')"
  shows "\<exists>u e re. r_uri_start r = Some u \<and> r_uri_end r = Some e \<and> r_request_end r = Some re \<and> buf_pos b \<le> u \<and>
    scanned (buf_mem b) u e \<and> e \<le> re \<and> re < buf_pos b' \<and> buf_pos b' \<le> buf_last b \<and>
    args_ok (buf_mem b) u e r \<and>
    (\<not> r_complex_uri r \<and> \<not> r_quoted_uri r \<longrightarrow>
       path_end r e \<le> e \<and> clean (buf_mem b) u (path_end r e))"
  by (rule request_line_uri [OF assms])

theorem ngx_http_parse_request_line_uri_witness:
  "\<exists>r b'. ngx_http_parse_request_line (sw_start, fresh_request)
      \<lparr>buf_mem = bytes ''GET /'' @ [LF], buf_pos = 0, buf_last = 6\<rparr> = Some (NGX_OK, (sw_start, r), b') \<and>
    (\<exists>u e. r_uri_start r = Some u \<and> r_uri_end r = Some e \<and> scanned (bytes ''GET /'' @ [LF]) u e)"
proof -
  let ?b = "\<lparr>buf_mem = bytes ''GET /'' @ [LF], buf_pos = 0, buf_last = 6\<rparr>"
  have "\<exists>r b'. ngx_http_parse_request_line (sw_start, fresh_request) ?b = Some (NGX_OK, (sw_start, r), b')"
    by (simp add: ngx_http_parse_request_line_def machine.simps rl_step_def rl_start_def rl_method_def
        rl_spaces_before_uri_def rl_after_slash_in_uri_def is_usual_iff byte_simps fresh_request_def Let_def
        rl_method_code_def strcmp_defs rl_done_def)
  then obtain r b' where res: "ngx_http_parse_request_line (sw_start, fresh_request) ?b = Some (NGX_OK, (sw_start, r), b')"
    by blast
  have "r_request_end fresh_request = None" "r_args_start fresh_request = None" by (simp_all add: fresh_request_def)
  from ngx_http_parse_request_line_uri [OF _ _ this res] res show ?thesis by (auto simp: byte_simps)
qed

end
