(* ===== verification/Ngx_Http_Complex_Uri_Safe.thy ===== *)
theory Ngx_Http_Complex_Uri_Safe
  imports Ngx_Http_Complex_Uri Ngx_Http_Request_Safe
begin

text \<open>
  \<open>ngx_http_parse_complex_uri\<close> is memory safe, and no closed segment of its result
  is a single or a double dot, with \<open>merge_slashes\<close> none is empty. The last segment is kept as it is, so that the path \<open>/..\<close> is the one that leaves its root.
\<close>

section \<open>Paths\<close>

text \<open>A path of closed segments and the bytes behind the last slash.\<close>

fun enc_path :: "byte list list \<Rightarrow> byte list \<Rightarrow> byte list" where
  "enc_path [] t = ch CHR ''/'' # t"
| "enc_path (s # ss) t = ch CHR ''/'' # s @ enc_path ss t"

lemma enc_path_append: "enc_path ss t @ xs = enc_path ss (t @ xs)"
  by (induction ss) auto

lemma enc_path_close: "enc_path ss t @ [ch CHR ''/''] = enc_path (ss @ [t]) []"
  by (induction ss) auto

abbreviation dot_seg :: "byte list" where "dot_seg \<equiv> bytes ''.''"
abbreviation dot_dot_seg :: "byte list" where "dot_dot_seg \<equiv> bytes ''..''"

definition seg_ok :: "bool \<Rightarrow> byte list \<Rightarrow> bool" where
  "seg_ok merge_slashes s \<longleftrightarrow> ch CHR ''/'' \<notin> set s \<and> s \<noteq> dot_seg \<and> s \<noteq> dot_dot_seg \<and> (merge_slashes \<longrightarrow> s \<noteq> [])"

fun tail_ok :: "cu_state \<Rightarrow> byte list \<Rightarrow> bool" where
  "tail_ok sw_usual t \<longleftrightarrow> ch CHR ''/'' \<notin> set t \<and> t \<noteq> [] \<and> t \<noteq> dot_seg \<and> t \<noteq> dot_dot_seg"
| "tail_ok sw_slash t \<longleftrightarrow> t = []"
| "tail_ok sw_dot t \<longleftrightarrow> t = dot_seg"
| "tail_ok sw_dot_dot t \<longleftrightarrow> t = dot_dot_seg"
| "tail_ok _ t \<longleftrightarrow> False"

definition shape :: "bool \<Rightarrow> cu_state \<Rightarrow> byte list \<Rightarrow> bool" where
  "shape m st w \<longleftrightarrow> (\<exists>ss t. w = enc_path ss t \<and> list_all (seg_ok m) ss \<and> tail_ok st t)"

lemma dot_segs: "dot_seg = [ch CHR ''.'']" "dot_dot_seg = [ch CHR ''.'', ch CHR ''.'']"
  by (simp_all add: bytes_def)

lemma dot_not_slash: "ch CHR ''.'' \<noteq> ch CHR ''/''"
  by (simp add: byte_simps)

lemma append_not_dots: "t \<noteq> [] \<Longrightarrow> t \<noteq> dot_seg \<Longrightarrow> t @ [c] \<noteq> dot_seg \<and> t @ [c] \<noteq> dot_dot_seg"
  unfolding dot_segs by (cases t rule: rev_cases) auto

lemma shapeI: "w = enc_path ss t \<Longrightarrow> list_all (seg_ok m) ss \<Longrightarrow> tail_ok st t \<Longrightarrow> shape m st w"
  unfolding shape_def by blast

lemma shapeE:
  assumes "shape m st w"
  obtains ss t where "w = enc_path ss t" "list_all (seg_ok m) ss" "tail_ok st t"
  using assms unfolding shape_def by blast

lemma shape_extend:
  assumes "shape m st w" "\<And>t. tail_ok st t \<Longrightarrow> tail_ok st' (t @ [c])"
  shows "shape m st' (w @ [c])"
  using assms(1)
proof (rule shapeE)
  fix ss t
  assume "w = enc_path ss t" "list_all (seg_ok m) ss" "tail_ok st t"
  then show ?thesis using assms(2) by (intro shapeI [of _ ss "t @ [c]"]) (auto simp: enc_path_append)
qed

lemma shape_closed:
  assumes "shape m st w" "\<And>t. tail_ok st t \<Longrightarrow> seg_ok m t"
  shows "shape m sw_slash (w @ [ch CHR ''/''])"
  using assms(1)
proof (rule shapeE)
  fix ss t
  assume "w = enc_path ss t" "list_all (seg_ok m) ss" "tail_ok st t"
  then show ?thesis
    using assms(2) by (intro shapeI [of _ "ss @ [t]" "[]"]) (auto simp: enc_path_close)
qed

lemma tail_usual:
  "tail_ok sw_usual t \<Longrightarrow> c \<noteq> ch CHR ''/'' \<Longrightarrow> tail_ok sw_usual (t @ [c])"
  using append_not_dots by auto

lemma tail_slash:
  "tail_ok sw_slash t \<Longrightarrow> c \<noteq> ch CHR ''/'' \<Longrightarrow> c \<noteq> ch CHR ''.'' \<Longrightarrow> tail_ok sw_usual (t @ [c])"
  by (auto simp: dot_segs)

lemma tail_dot:
  "tail_ok sw_dot t \<Longrightarrow> c \<noteq> ch CHR ''/'' \<Longrightarrow> c \<noteq> ch CHR ''.'' \<Longrightarrow> tail_ok sw_usual (t @ [c])"
  using dot_not_slash by (auto simp: dot_segs)

lemma tail_dot_dot:
  "tail_ok sw_dot_dot t \<Longrightarrow> c \<noteq> ch CHR ''/'' \<Longrightarrow> tail_ok sw_usual (t @ [c])"
  using dot_not_slash by (auto simp: dot_segs)

lemma shape_put_usual:
  assumes "shape m st w" "st \<in> {sw_usual, sw_slash, sw_dot, sw_dot_dot}" "c \<noteq> ch CHR ''/''"
    "c = ch CHR ''.'' \<Longrightarrow> st \<in> {sw_usual, sw_dot_dot}"
  shows "shape m sw_usual (w @ [c])"
  using assms by (intro shape_extend [OF assms(1)]) (use tail_usual tail_slash tail_dot tail_dot_dot in blast)

lemma shape_put_slash:
  "shape m sw_usual w \<Longrightarrow> shape m sw_slash (w @ [ch CHR ''/''])"
  "shape False sw_slash w \<Longrightarrow> shape False sw_slash (w @ [ch CHR ''/''])"
  by (erule shape_closed; simp add: seg_ok_def dot_segs)+

lemma shape_put_dot:
  "shape m sw_slash w \<Longrightarrow> shape m sw_dot (w @ [ch CHR ''.''])"
  "shape m sw_dot w \<Longrightarrow> shape m sw_dot_dot (w @ [ch CHR ''.''])"
  by (erule shape_extend; simp add: dot_segs)+

lemma shape_nonempty: "shape m st w \<Longrightarrow> 0 < length w"
  by (erule shapeE, rename_tac ss t, case_tac ss) auto

lemma shape_dot_slash: "shape m sw_dot w \<Longrightarrow> shape m sw_slash (butlast w)"
proof (erule shapeE)
  fix ss t
  assume a: "w = enc_path ss t" "list_all (seg_ok m) ss" "tail_ok sw_dot t"
  then have "w = enc_path ss [] @ [ch CHR ''.'']" by (simp add: enc_path_append dot_segs)
  then show ?thesis using a(2) by (intro shapeI [of _ ss "[]"]) simp_all
qed

lemma enc_path_cut:
  "list_all (\<lambda>s. ch CHR ''/'' \<notin> set s) ss \<Longrightarrow> ch CHR ''/'' \<notin> set t \<Longrightarrow>
   k < length (enc_path ss t) \<Longrightarrow> enc_path ss t ! k = ch CHR ''/'' \<Longrightarrow>
   \<exists>n. take (Suc k) (enc_path ss t) = enc_path (take n ss) []"
proof (induction ss arbitrary: k)
  case Nil
  then have "k = 0" using nth_mem [of "k - 1" t] by (cases k) auto
  then show ?case by simp
next
  case (Cons s ss)
  show ?case
  proof (cases k)
    case 0
    then show ?thesis by (intro exI [of _ 0]) simp
  next
    case (Suc k')
    have "\<not> k' < length s"
    proof
      assume "k' < length s"
      then have "enc_path (s # ss) t ! k \<in> set s" using Suc by (simp add: nth_append)
      then show False using Cons.prems by simp
    qed
    moreover from this have "k' - length s < length (enc_path ss t)" using Cons.prems(3) Suc by simp
    ultimately obtain n where "take (Suc (k' - length s)) (enc_path ss t) = enc_path (take n ss) []"
      using Cons.IH [of "k' - length s"] Cons.prems Suc by (auto simp: nth_append)
    then show ?thesis
      using Suc \<open>\<not> k' < length s\<close> by (intro exI [of _ "Suc n"]) (simp add: Suc_diff_le)
  qed
qed

lemma tail_no_slash: "tail_ok st t \<Longrightarrow> ch CHR ''/'' \<notin> set t"
  using dot_not_slash by (cases st) (auto simp: dot_segs)

lemma shape_cut:
  assumes "shape m st w" "k < length w" "w ! k = ch CHR ''/''"
  shows "shape m sw_slash (take (Suc k) w)"
  using assms(1)
proof (rule shapeE)
  fix ss t
  assume w: "w = enc_path ss t" "list_all (seg_ok m) ss" "tail_ok st t"
  have "list_all (\<lambda>s. ch CHR ''/'' \<notin> set s) ss"
    using w(2) by (rule list.pred_mono_strong) (simp add: seg_ok_def)
  then obtain n where "take (Suc k) w = enc_path (take n ss) []"
    using enc_path_cut [OF _ tail_no_slash [OF w(3)]] assms(2,3) w(1) by blast
  moreover have "list_all (seg_ok m) (take n ss)" using w(2) by (auto simp: list_all_iff dest: in_set_takeD)
  ultimately show ?thesis by (intro shapeI [of _ "take n ss" "[]"]) auto
qed

lemma cu_back_Some:
  "cu_back out u = Some v \<Longrightarrow> 0 < v \<and> v \<le> u + 1 \<and> out ! nat (v - 1) = ch CHR ''/''"
proof (induction out u rule: cu_back.induct)
  case (1 out u)
  then show ?case by (auto simp: cu_back.simps [of out u] split: if_splits)
qed


section \<open>The invariant of the loop\<close>

text \<open>
  \<open>lim\<close> is the end of the memory of the output: the end of the request URI, or the first question mark.
\<close>

definition cu_area :: "byte list \<Rightarrow> nat \<Rightarrow> nat \<Rightarrow> nat \<Rightarrow> bool" where
  "cu_area buf us lim ue \<longleftrightarrow> scanned buf us ue \<and> us < lim \<and> lim \<le> ue \<and> ue < length buf \<and>
     (lim < ue \<longrightarrow> buf ! lim = ch CHR ''?'')"

definition cu_text :: "bool \<Rightarrow> cu_state \<Rightarrow> cu \<Rightarrow> bool" where
  "cu_text m st s \<longleftrightarrow> 0 \<le> cu_u s \<and> cu_u s \<le> int (length (cu_out s)) \<and>
     shape m st (take (nat (cu_u s)) (cu_out s)) \<and> 0 \<notin> set (take (nat (cu_u s)) (cu_out s)) \<and>
     (\<forall>e. cu_uri_ext s = Some e \<longrightarrow> st = sw_usual \<and> 0 < e \<and> e \<le> cu_u s)"

definition cu_at :: "byte list \<Rightarrow> nat \<Rightarrow> nat \<Rightarrow> nat \<Rightarrow> cu \<Rightarrow> bool" where
  "cu_at buf us lim ue s \<longleftrightarrow> us < cu_p s \<and> cu_p s \<le> lim + 1 \<and> cu_u s \<le> int (cu_p s - 1 - us) \<and>
     lim - us \<le> length (cu_out s) \<and> (cu_p s = lim + 1 \<and> lim < ue \<longrightarrow> cu_ch s = ch CHR ''?'') \<and>
     (cu_p s \<le> ue \<longrightarrow> cu_ch s \<noteq> 0)"

definition eff_state :: "cu \<Rightarrow> cu_state" where
  "eff_state s = (if cu_state s \<in> {sw_quoted, sw_quoted_second} then cu_quoted_state s else cu_state s)"

definition cu_inv :: "byte list \<Rightarrow> nat \<Rightarrow> nat \<Rightarrow> nat \<Rightarrow> bool \<Rightarrow> cu \<Rightarrow> bool" where
  "cu_inv buf us lim ue m s \<longleftrightarrow> cu_at buf us lim ue s \<and> cu_text m (eff_state s) s"

definition cu_measure :: "nat \<Rightarrow> cu \<Rightarrow> nat" where
  "cu_measure ue s = 2 * (ue + 1 - cu_p s) + (if cu_state s = sw_quoted_second then 1 else 0)"

fun cu_ok :: "byte list \<Rightarrow> nat \<Rightarrow> nat \<Rightarrow> nat \<Rightarrow> bool \<Rightarrow> cu \<Rightarrow> cu_action option \<Rightarrow> bool" where
  "cu_ok buf us lim ue m s None \<longleftrightarrow> False"
| "cu_ok buf us lim ue m s (Some (Cont s')) \<longleftrightarrow> cu_inv buf us lim ue m s' \<and> cu_measure ue s' < cu_measure ue s"
| "cu_ok buf us lim ue m s (Some (Args s')) \<longleftrightarrow> cu_inv buf us lim ue m s'"
| "cu_ok buf us lim ue m s (Some (Done s')) \<longleftrightarrow> cu_inv buf us lim ue m s'"
| "cu_ok buf us lim ue m s (Some Fail) \<longleftrightarrow> True"

lemma scanned_nonzero: "scanned buf us ue \<Longrightarrow> us \<le> i \<Longrightarrow> i < ue \<Longrightarrow> buf ! i \<noteq> 0"
  by (simp add: scanned_def)

lemma go_ok:
  assumes area: "cu_area buf us lim ue" and s: "cu_at buf us lim ue s" "cu_p s \<le> lim"
    and s': "cu_p s' = cu_p s" "cu_u s' \<le> cu_u s" "length (cu_out s') = length (cu_out s)" "cu_text m (eff_state s') s'"
  shows "cu_ok buf us lim ue m s (cu_go buf s')"
proof -
  have p: "cu_p s < length buf" "us \<le> cu_p s" "cu_p s \<le> ue" using area s unfolding cu_area_def cu_at_def by auto
  have "cu_p s < ue \<Longrightarrow> buf ! cu_p s \<noteq> 0" using area p scanned_nonzero unfolding cu_area_def by blast
  then have "cu_inv buf us lim ue m (s'\<lparr>cu_ch := buf ! cu_p s, cu_p := cu_p s + 1\<rparr>)"
    using area s s' unfolding cu_area_def cu_inv_def cu_at_def cu_text_def eff_state_def by auto
  then show ?thesis using p s' by (simp add: cu_go_def cu_next_def cu_measure_def Suc_diff_le)
qed

lemma put_next_ok:
  assumes area: "cu_area buf us lim ue" and s: "cu_at buf us lim ue s" "cu_p s \<le> lim"
    and t: "0 \<le> cu_u s" "0 \<notin> set (take (nat (cu_u s)) (cu_out s))" and c: "c \<noteq> 0"
    and s': "cu_p s' = cu_p s" "cu_u s' = cu_u s" "cu_out s' = cu_out s"
    and sh: "shape m (eff_state s') (take (nat (cu_u s)) (cu_out s) @ [c])"
    and ext: "\<forall>e. cu_uri_ext s' = Some e \<longrightarrow> eff_state s' = sw_usual \<and> 0 < e \<and> e \<le> cu_u s + 1"
  shows "cu_ok buf us lim ue m s (cu_put_next buf c s')"
proof -
  have p: "cu_p s < length buf" "us \<le> cu_p s" "cu_p s \<le> ue" using area s unfolding cu_area_def cu_at_def by auto
  have u: "cu_u s < int (length (cu_out s))" using s unfolding cu_at_def by auto
  then have tk: "take (nat (cu_u s + 1)) ((cu_out s)[nat (cu_u s) := c]) = take (nat (cu_u s)) (cu_out s) @ [c]"
    using t(1) by (simp add: nat_add_distrib take_Suc_conv_app_nth)
  have nz: "cu_p s < ue \<Longrightarrow> buf ! cu_p s \<noteq> 0" using area p scanned_nonzero unfolding cu_area_def by blast
  let ?s = "s'\<lparr>cu_out := (cu_out s)[nat (cu_u s) := c], cu_u := cu_u s + 1, cu_ch := buf ! cu_p s, cu_p := cu_p s + 1\<rparr>"
  have "cu_text m (eff_state s') ?s" using t u c sh ext unfolding cu_text_def by (simp add: tk)
  moreover have "eff_state ?s = eff_state s'" by (simp add: eff_state_def)
  moreover have "cu_at buf us lim ue ?s" using area s nz unfolding cu_area_def cu_at_def by auto
  ultimately have "cu_inv buf us lim ue m ?s" by (simp add: cu_inv_def)
  then show ?thesis using p s' t u by (simp add: cu_put_next_def cu_put_def cu_next_def cu_measure_def Suc_diff_le)
qed


section \<open>The states keep the invariant\<close>

lemma put_usual_ok:
  assumes area: "cu_area buf us lim ue" and inv: "cu_inv buf us lim ue m s" and p: "cu_p s \<le> lim"
    and st: "eff_state s \<in> {sw_usual, sw_slash, sw_dot, sw_dot_dot}"
    and c: "c \<noteq> 0" "c \<noteq> ch CHR ''/''" "c = ch CHR ''.'' \<Longrightarrow> eff_state s \<in> {sw_usual, sw_dot_dot}"
    and s': "cu_p s' = cu_p s" "cu_u s' = cu_u s" "cu_out s' = cu_out s" "eff_state s' = sw_usual"
      "cu_uri_ext s' = cu_uri_ext s \<or> cu_uri_ext s' = Some (cu_u s + 1)"
  shows "cu_ok buf us lim ue m s (cu_put_next buf c s')"
proof (rule put_next_ok [OF area _ p _ _ c(1) s'(1-3)])
  show "shape m (eff_state s') (take (nat (cu_u s)) (cu_out s) @ [c])"
    using inv st c s'(4) by (auto simp: cu_inv_def cu_text_def intro!: shape_put_usual [of m "eff_state s"])
qed (use inv s'(4,5) in \<open>auto simp: cu_inv_def cu_text_def\<close>)

lemma quoted_ok:
  assumes area: "cu_area buf us lim ue" and inv: "cu_inv buf us lim ue m s" and p: "cu_p s \<le> lim"
    and st: "cu_state s = st" "st \<in> {sw_usual, sw_slash, sw_dot, sw_dot_dot}"
  shows "cu_ok buf us lim ue m s (cu_go buf (s\<lparr>cu_quoted_state := st, cu_state := sw_quoted\<rparr>))"
proof (rule go_ok [OF area _ p])
  show "cu_text m (eff_state (s\<lparr>cu_quoted_state := st, cu_state := sw_quoted\<rparr>)) (s\<lparr>cu_quoted_state := st, cu_state := sw_quoted\<rparr>)"
    using inv st by (auto simp: cu_inv_def cu_text_def eff_state_def)
qed (use inv in \<open>auto simp: cu_inv_def\<close>)

lemma inv_lim:
  assumes "cu_inv buf us lim ue m s" "cu_p s \<le> ue" "cu_ch s \<noteq> ch CHR ''?''"
  shows "cu_p s \<le> lim"
proof (rule ccontr)
  assume "\<not> cu_p s \<le> lim"
  then have "cu_p s = lim + 1 \<and> lim < ue" using assms unfolding cu_inv_def cu_at_def by auto
  then show False using assms unfolding cu_inv_def cu_at_def by blast
qed

lemma inv_args: "cu_inv buf us lim ue m s \<Longrightarrow> cu_inv buf us lim ue m (s\<lparr>cu_args_start := a\<rparr>)"
  by (auto simp: cu_inv_def cu_at_def cu_text_def eff_state_def)

lemma usual_not: "is_usual c \<Longrightarrow> c \<noteq> 0 \<and> c \<noteq> ch CHR ''/'' \<and> c \<noteq> ch CHR ''.'' \<and> c \<noteq> ch CHR ''?''"
  by (simp add: is_usual_iff bytes_def)

lemma special_neq:
  "ch CHR ''.'' \<noteq> ch CHR ''/''" "ch CHR ''.'' \<noteq> ch CHR ''?''" "ch CHR ''/'' \<noteq> ch CHR ''?''"
  "ch CHR ''+'' \<noteq> ch CHR ''/''" "ch CHR ''+'' \<noteq> ch CHR ''.''" "ch CHR ''+'' \<noteq> ch CHR ''?''"
  "ch CHR ''%'' \<noteq> ch CHR ''?''" "ch CHR ''?'' \<noteq> ch CHR ''/''" "ch CHR ''?'' \<noteq> ch CHR ''.''"
  "ch CHR ''%'' \<noteq> ch CHR ''/''" "ch CHR ''%'' \<noteq> ch CHR ''.''" "ch CHR ''#'' \<noteq> ch CHR ''/''" "ch CHR ''#'' \<noteq> ch CHR ''.''"
  "ch CHR ''/'' \<noteq> 0" "ch CHR ''.'' \<noteq> 0" "ch CHR ''?'' \<noteq> 0" "ch CHR ''#'' \<noteq> 0" "ch CHR ''%'' \<noteq> 0"
  by (simp_all add: byte_simps)

lemma inv_ch: "cu_inv buf us lim ue m s \<Longrightarrow> cu_p s \<le> ue \<Longrightarrow> cu_ch s \<noteq> 0"
  by (simp add: cu_inv_def cu_at_def)

lemma inv_shape:
  "cu_inv buf us lim ue m s \<Longrightarrow> shape m (eff_state s) (take (nat (cu_u s)) (cu_out s)) \<and> cu_at buf us lim ue s \<and>
     0 \<le> cu_u s \<and> 0 \<notin> set (take (nat (cu_u s)) (cu_out s)) \<and> cu_u s \<le> int (length (cu_out s)) \<and>
     (\<forall>e. cu_uri_ext s = Some e \<longrightarrow> eff_state s = sw_usual \<and> 0 < e \<and> e \<le> cu_u s)"
  by (auto simp: cu_inv_def cu_text_def)

lemma put_slash_ok:
  assumes area: "cu_area buf us lim ue" and inv: "cu_inv buf us lim ue m s" and p: "cu_p s \<le> lim"
    and st: "cu_state s = sw_usual \<or> cu_state s = sw_slash \<and> \<not> m"
    and s': "cu_p s' = cu_p s" "cu_u s' = cu_u s" "cu_out s' = cu_out s" "cu_state s' = sw_slash" "cu_uri_ext s' = None"
  shows "cu_ok buf us lim ue m s (cu_put_next buf (ch CHR ''/'') s')"
proof -
  have e: "eff_state s = cu_state s" "eff_state s' = sw_slash" using st s' by (auto simp: eff_state_def)
  have "shape m (eff_state s') (take (nat (cu_u s)) (cu_out s) @ [ch CHR ''/''])"
    using inv_shape [OF inv] st e shape_put_slash by auto
  then show ?thesis using inv_shape [OF inv] s' special_neq(14) by (intro put_next_ok [OF area _ p]) auto
qed

lemma put_dot_ok:
  assumes area: "cu_area buf us lim ue" and inv: "cu_inv buf us lim ue m s" and p: "cu_p s \<le> lim"
    and st: "(cu_state s, cu_state s') \<in> {(sw_slash, sw_dot), (sw_dot, sw_dot_dot)}"
    and s': "cu_p s' = cu_p s" "cu_u s' = cu_u s" "cu_out s' = cu_out s" "cu_uri_ext s' = cu_uri_ext s"
  shows "cu_ok buf us lim ue m s (cu_put_next buf (ch CHR ''.'') s')"
proof -
  have e: "eff_state s = cu_state s" "eff_state s' = cu_state s'" using st by (auto simp: eff_state_def)
  have "shape m (eff_state s') (take (nat (cu_u s)) (cu_out s) @ [ch CHR ''.''])"
    using inv_shape [OF inv] st e shape_put_dot by auto
  moreover have "cu_uri_ext s = None" using inv_shape [OF inv] e st by (cases "cu_uri_ext s") auto
  ultimately show ?thesis
    using inv_shape [OF inv] s' special_neq(15) by (intro put_next_ok [OF area _ p]) auto
qed

lemma cu_usual_ok:
  assumes area: "cu_area buf us lim ue" and inv: "cu_inv buf us lim ue m s" and ue: "cu_p s \<le> ue"
    and st: "cu_state s = sw_usual"
  shows "cu_ok buf us lim ue m s (cu_usual buf s)"
proof -
  note lim = inv_lim [OF inv ue] and nz = inv_ch [OF inv ue]
  note put = put_usual_ok [OF area inv] and quoted = quoted_ok [OF area inv _ st] and slash = put_slash_ok [OF area inv]
  have e: "eff_state s = sw_usual" using st by (simp add: eff_state_def)
  show ?thesis
    unfolding cu_usual_def Let_def
    using lim nz st e usual_not [of "cu_ch s"] inv_args [OF inv] inv special_neq
    by (auto intro!: put quoted slash simp: eff_state_def)
qed


lemma cu_slash_ok:
  assumes area: "cu_area buf us lim ue" and inv: "cu_inv buf us lim ue m s" and ue: "cu_p s \<le> ue"
    and st: "cu_state s = sw_slash"
  shows "cu_ok buf us lim ue m s (cu_slash m buf s)"
proof -
  note lim = inv_lim [OF inv ue] and nz = inv_ch [OF inv ue]
  note put = put_usual_ok [OF area inv] and quoted = quoted_ok [OF area inv _ st]
    and slash = put_slash_ok [OF area inv] and dot = put_dot_ok [OF area inv]
  have e: "eff_state s = sw_slash" using st by (simp add: eff_state_def)
  have x: "cu_uri_ext s = None" using inv_shape [OF inv] e by (cases "cu_uri_ext s") auto
  have go: "cu_ok buf us lim ue m s (cu_go buf s)" if "cu_p s \<le> lim"
    using inv by (intro go_ok [OF area _ that]) (auto simp: cu_inv_def)
  show ?thesis
  proof (cases "cu_ch s = ch CHR ''/''")
    case True
    then have eq: "cu_slash m buf s = (if \<not> m then cu_put_next buf (ch CHR ''/'') s else cu_go buf s)"
      using usual_not [of "cu_ch s"] by (auto simp: cu_slash_def Let_def)
    have "cu_p s \<le> lim" using lim True special_neq by simp
    then show ?thesis unfolding eq using go slash [of s] st x by (cases m) simp_all
  next
    case False
    then show ?thesis
      unfolding cu_slash_def Let_def
      using lim nz st e x usual_not [of "cu_ch s"] inv_args [OF inv] inv special_neq
      by (auto intro!: put quoted dot simp: eff_state_def)
  qed
qed

lemma dot_slash_ok:
  assumes area: "cu_area buf us lim ue" and inv: "cu_inv buf us lim ue m s" and p: "cu_p s \<le> lim"
    and st: "cu_state s = sw_dot"
  shows "cu_ok buf us lim ue m s (cu_go buf (s\<lparr>cu_state := sw_slash, cu_u := cu_u s - 1\<rparr>))"
proof -
  have e: "eff_state s = sw_dot" using st by (simp add: eff_state_def)
  note i = inv_shape [OF inv, unfolded e]
  have x: "cu_uri_ext s = None" using i by (cases "cu_uri_ext s") auto
  obtain n where n: "cu_u s = int n" using i nonneg_int_cases by metis
  have len: "0 < n" "n \<le> length (cu_out s)" using i n shape_nonempty [of m sw_dot "take n (cu_out s)"] by auto
  have w: "take (n - Suc 0) (cu_out s) = butlast (take n (cu_out s))" using len by (simp add: butlast_take)
  have nn: "nat (int n - 1) = n - 1" by simp
  have "cu_text m sw_slash (s\<lparr>cu_state := sw_slash, cu_u := cu_u s - 1\<rparr>)"
    using i len x shape_dot_slash [of m "take n (cu_out s)"] in_set_butlastD [of 0 "take n (cu_out s)"]
    unfolding cu_text_def by (auto simp: n nn w)
  then show ?thesis using i by (intro go_ok [OF area _ p]) (auto simp: eff_state_def)
qed

lemma dot_dot_slash_ok:
  assumes area: "cu_area buf us lim ue" and inv: "cu_inv buf us lim ue m s" and p: "cu_p s \<le> lim"
    and st: "cu_state s = sw_dot_dot" and v: "cu_back (cu_out s) (cu_u s - 5) = Some v"
  shows "cu_ok buf us lim ue m s (cu_go buf (s\<lparr>cu_state := sw_slash, cu_u := v\<rparr>))"
proof -
  have e: "eff_state s = sw_dot_dot" using st by (simp add: eff_state_def)
  note i = inv_shape [OF inv, unfolded e]
  have x: "cu_uri_ext s = None" using i by (cases "cu_uri_ext s") auto
  obtain n where n: "cu_u s = int n" using i nonneg_int_cases by metis
  obtain k where k: "v = int (Suc k)" using cu_back_Some [OF v] by (metis zero_less_imp_eq_int gr0_implies_Suc)
  have bk: "Suc k \<le> n" "cu_out s ! k = ch CHR ''/''" using cu_back_Some [OF v] n k by auto
  let ?w = "take n (cu_out s)"
  have w: "take (Suc k) ?w = take (Suc k) (cu_out s)" "k < length ?w" "?w ! k = ch CHR ''/''"
    using bk i n by (simp_all add: min_def)
  have "set (take (Suc k) ?w) \<subseteq> set ?w" by (rule set_take_subset)
  moreover have "nat v = Suc k" "0 \<le> v" "v \<le> int (length (cu_out s))" using i n k bk by auto
  moreover have "shape m sw_slash (take (Suc k) ?w)" using i n w by (intro shape_cut) auto
  ultimately have "cu_text m sw_slash (s\<lparr>cu_state := sw_slash, cu_u := v\<rparr>)"
    using i n x w(1) unfolding cu_text_def by auto
  then show ?thesis using i bk n k by (intro go_ok [OF area _ p]) (auto simp: eff_state_def)
qed

lemma cu_dot_ok:
  assumes area: "cu_area buf us lim ue" and inv: "cu_inv buf us lim ue m s" and ue: "cu_p s \<le> ue"
    and st: "cu_state s = sw_dot"
  shows "cu_ok buf us lim ue m s (cu_dot buf s)"
proof -
  note lim = inv_lim [OF inv ue] and nz = inv_ch [OF inv ue]
  note put = put_usual_ok [OF area inv] and quoted = quoted_ok [OF area inv _ st]
    and slash = dot_slash_ok [OF area inv] and dot = put_dot_ok [OF area inv]
  have e: "eff_state s = sw_dot" using st by (simp add: eff_state_def)
  show ?thesis
    unfolding cu_dot_def Let_def
    using lim nz st e usual_not [of "cu_ch s"] inv_args [OF inv] inv special_neq
    by (auto intro!: put quoted slash dot simp: eff_state_def)
qed

lemma cu_dot_dot_ok:
  assumes area: "cu_area buf us lim ue" and inv: "cu_inv buf us lim ue m s" and ue: "cu_p s \<le> ue"
    and st: "cu_state s = sw_dot_dot"
  shows "cu_ok buf us lim ue m s (cu_dot_dot buf s)"
proof -
  note lim = inv_lim [OF inv ue] and nz = inv_ch [OF inv ue]
  note put = put_usual_ok [OF area inv] and quoted = quoted_ok [OF area inv _ st]
    and slash = dot_dot_slash_ok [OF area inv]
  have e: "eff_state s = sw_dot_dot" using st by (simp add: eff_state_def)
  show ?thesis
    unfolding cu_dot_dot_def Let_def
    using lim nz st e usual_not [of "cu_ch s"] inv_args [OF inv] inv special_neq
    by (auto intro!: put quoted slash simp: eff_state_def split: option.split)
qed

lemma hex_byte_nonzero:
  assumes "ch CHR ''a'' \<le> c" "c \<le> ch CHR ''f''"
  shows "push_bit 4 d + c - ch CHR ''a'' + 10 \<noteq> (0 :: byte)"
proof
  assume z: "push_bit 4 d + c - ch CHR ''a'' + 10 = 0"
  have "unat c \<in> {97..102}" using assms by (simp add: byte_simps word_le_nat_alt)
  then have "unat c \<in> {97, 98, 99, 100, 101, 102}" by auto
  then have "c \<in> {97, 98, 99, 100, 101, 102}" by (auto simp: word_unat_eq_iff)
  moreover have "push_bit 4 d = 87 - c" using z by (simp add: byte_simps algebra_simps eq_neg_iff_add_eq_0)
  then have "take_bit 4 (87 - c) = 0" by (metis take_bit_push_bit cancel_comm_monoid_add_class.diff_cancel take_bit_0 push_bit_of_0)
  ultimately show False by auto
qed

lemma cu_quoted_ok:
  assumes area: "cu_area buf us lim ue" and inv: "cu_inv buf us lim ue m s" and ue: "cu_p s \<le> ue"
    and st: "cu_state s = sw_quoted"
  shows "cu_ok buf us lim ue m s (cu_quoted buf s)"
proof -
  have q: "is_digit (ch CHR ''?'') = False" "(ch CHR ''a'' \<le> ch CHR ''?'' OR 0x20) = False" by (simp_all add: byte_simps)
  have t: "cu_text m (cu_quoted_state s) s" using inv st by (simp add: cu_inv_def eff_state_def)
  have go: "cu_ok buf us lim ue m s (cu_go buf (s\<lparr>cu_quoted_uri := True, cu_decoded := d, cu_state := sw_quoted_second\<rparr>))"
    if "cu_p s \<le> lim" for d
    using inv t by (intro go_ok [OF area _ that]) (auto simp: cu_inv_def cu_text_def eff_state_def)
  show ?thesis
  proof (cases "cu_ch s = ch CHR ''?''")
    case True
    then show ?thesis by (simp add: cu_quoted_def Let_def q)
  next
    case False
    then show ?thesis using go inv_lim [OF inv ue] by (simp add: cu_quoted_def Let_def)
  qed
qed


lemma cu_quoted_second_ok:
  assumes area: "cu_area buf us lim ue" and inv: "cu_inv buf us lim ue m s" and ue: "cu_p s \<le> ue"
    and st: "cu_state s = sw_quoted_second"
  shows "cu_ok buf us lim ue m s (cu_quoted_second buf s)"
proof (cases "cu_ch s = ch CHR ''?''")
  case True
  have "is_digit (ch CHR ''?'') = False" "(ch CHR ''a'' \<le> ch CHR ''?'' OR 0x20) = False" by (simp_all add: byte_simps)
  then show ?thesis using True by (simp add: cu_quoted_second_def Let_def)
next
  case False
  then have lim: "cu_p s \<le> lim" by (rule inv_lim [OF inv ue])
  have q: "cu_quoted_state s \<in> {sw_usual, sw_slash, sw_dot, sw_dot_dot}" and e: "eff_state s = cu_quoted_state s"
    using inv_shape [OF inv] st by (auto simp: eff_state_def shape_def elim: tail_ok.elims)
  have put: "cu_ok buf us lim ue m s (cu_put_next buf c (s\<lparr>cu_ch := c, cu_state := sw_usual\<rparr>))"
    if "c \<in> {ch CHR ''%'', ch CHR ''#'', ch CHR ''?''}" for c
    using that q e special_neq by (intro put_usual_ok [OF area inv lim]) (auto simp: eff_state_def)
  have cont: "cu_ok buf us lim ue m s (Some (Cont (s\<lparr>cu_ch := c, cu_plus_in_uri := b, cu_state := cu_quoted_state s\<rparr>)))"
    if "c \<noteq> 0" for c b
    using that inv st q lim e unfolding cu_ok.simps cu_inv_def cu_at_def cu_text_def cu_measure_def
    by (auto simp: eff_state_def)
  have cont': "cu_ok buf us lim ue m s (Some (Cont (s\<lparr>cu_ch := c, cu_state := cu_quoted_state s\<rparr>)))" if "c \<noteq> 0" for c
    using cont [OF that, of "cu_plus_in_uri s"] by simp
  note hex = hex_byte_nonzero [of "cu_ch s OR 0x20" "cu_decoded s"]
  define x y where "x = push_bit 4 (cu_decoded s) + cu_ch s - ch CHR ''0''"
    and "y = push_bit 4 (cu_decoded s) + (cu_ch s OR 0x20) - ch CHR ''a'' + 10"
  show ?thesis
    unfolding cu_quoted_second_def Let_def x_def [symmetric] y_def [symmetric]
    using put [of x] put [of y] cont [of y True] cont' [of x] cont' [of y] hex [folded y_def] by auto
qed

lemma cu_step_ok:
  assumes "cu_area buf us lim ue" "cu_inv buf us lim ue m s" "cu_p s \<le> ue"
  shows "cu_ok buf us lim ue m s (cu_step m buf s)"
  using cu_usual_ok [OF assms] cu_slash_ok [OF assms] cu_dot_ok [OF assms] cu_dot_dot_ok [OF assms]
    cu_quoted_ok [OF assms] cu_quoted_second_ok [OF assms]
  by (cases "cu_state s") (simp_all add: cu_step_def)

section \<open>The loop\<close>

lemma cu_loop_ok:
  assumes area: "cu_area buf us lim ue"
  shows "cu_inv buf us lim ue m s \<Longrightarrow>
    \<exists>act. cu_loop m buf ue s = Some act \<and>
      (act = Fail \<or> (\<exists>s'. (act = Args s' \<or> act = Done s') \<and> cu_inv buf us lim ue m s'))"
proof (induction "cu_measure ue s" arbitrary: s rule: less_induct)
  case less
  show ?case
  proof (cases "cu_p s \<le> ue")
    case False
    then show ?thesis using less.prems by (subst cu_loop.simps) auto
  next
    case True
    have ok: "cu_ok buf us lim ue m s (cu_step m buf s)" by (rule cu_step_ok [OF area less.prems True])
    then obtain act where act: "cu_step m buf s = Some act" by (cases "cu_step m buf s") auto
    show ?thesis
    proof (cases act)
      case (Cont s')
      then have "cu_inv buf us lim ue m s'" "cu_measure ue s' < cu_measure ue s" using ok act by auto
      then show ?thesis using less.hyps [of s'] Cont act True by (subst cu_loop.simps) simp
    qed (use ok act True in \<open>subst cu_loop.simps, auto\<close>)+
  qed
qed

lemma cu_args_loop_ok:
  assumes "ue < length buf"
  shows "\<exists>s'. cu_args_loop buf ue s = Some s' \<and> cu_u s' = cu_u s \<and> cu_out s' = cu_out s \<and> cu_uri_ext s' = cu_uri_ext s"
  using assms
proof (induction buf ue s rule: cu_args_loop.induct)
  case (1 buf ue s)
  then show ?case by (subst cu_args_loop.simps) (simp add: rd_def)
qed


section \<open>The result\<close>

lemma cu_first_step:
  assumes area: "cu_area buf us lim ue" and out: "lim - us \<le> length out"
    and s: "cu_state s = sw_usual" "cu_ch s = ch CHR ''/''" "cu_p s = us + 1" "cu_u s = 0" "cu_out s = out"
  shows "\<exists>s'. cu_step m buf s = Some (Cont s') \<and> cu_inv buf us lim ue m s'"
proof -
  have p: "us + 1 < length buf" "0 < length out" using area out unfolding cu_area_def by auto
  have nz: "us + 1 < ue \<Longrightarrow> buf ! (us + 1) \<noteq> 0" using area scanned_nonzero unfolding cu_area_def by auto
  let ?s = "s\<lparr>cu_uri_ext := None, cu_state := sw_slash, cu_out := out[0 := ch CHR ''/''], cu_u := 1,
    cu_ch := buf ! (us + 1), cu_p := us + 2\<rparr>"
  have "take 1 (out[0 := ch CHR ''/'']) = [ch CHR ''/'']" using p(2) by (cases out) auto
  moreover have "shape m sw_slash [ch CHR ''/'']" by (rule shapeI [of _ "[]" "[]"]) simp_all
  ultimately have "cu_inv buf us lim ue m ?s"
    using area nz out p special_neq unfolding cu_inv_def cu_text_def cu_at_def cu_area_def eff_state_def by auto
  moreover have "cu_step m buf s = Some (Cont ?s)"
    using s p by (simp add: cu_step_def cu_usual_def cu_put_next_def cu_put_def cu_next_def is_usual_iff bytes_def)
  ultimately show ?thesis by blast
qed

lemma cu_finish_ok:
  assumes "cu_inv buf us lim ue m s" "cu_u s' = cu_u s" "cu_out s' = cu_out s" "cu_uri_ext s' = cu_uri_ext s"
  shows "\<exists>ss t. c_uri (cu_finish s') = enc_path ss t \<and> list_all (seg_ok m) ss \<and> ch CHR ''/'' \<notin> set t"
    "length (c_uri (cu_finish s')) \<le> lim - us" "0 \<notin> set (c_uri (cu_finish s'))"
    "\<And>e l. c_exten (cu_finish s') = Some (e, l) \<Longrightarrow> 0 < e \<and> 0 \<le> l \<and> e + l = int (length (c_uri (cu_finish s')))"
proof -
  note i = inv_shape [OF assms(1)]
  show "\<exists>ss t. c_uri (cu_finish s') = enc_path ss t \<and> list_all (seg_ok m) ss \<and> ch CHR ''/'' \<notin> set t"
    using i assms tail_no_slash unfolding cu_finish_def by (auto elim!: shapeE)
  show "length (c_uri (cu_finish s')) \<le> lim - us"
    using i assms unfolding cu_finish_def cu_at_def by auto
  show "0 \<notin> set (c_uri (cu_finish s'))" using i assms by (simp add: cu_finish_def)
  show "0 < e \<and> 0 \<le> l \<and> e + l = int (length (c_uri (cu_finish s')))" if "c_exten (cu_finish s') = Some (e, l)" for e l
    using i assms that by (auto simp: cu_finish_def min_def)
qed

lemma complex_uri_normalised:
  assumes uri: "scanned buf us ue" "ue < length buf"
    and lim: "us < lim" "lim \<le> ue" "lim < ue \<longrightarrow> buf ! lim = ch CHR ''?''" "lim - us \<le> length out"
  shows "\<exists>res. ngx_http_parse_complex_uri buf us ue out quoted plus_in merge_slashes = Some res \<and>
    (\<forall>c. res = Some c \<longrightarrow>
       (\<exists>ss t. c_uri c = enc_path ss t \<and> list_all (seg_ok merge_slashes) ss \<and> ch CHR ''/'' \<notin> set t) \<and>
       length (c_uri c) \<le> lim - us \<and> 0 \<notin> set (c_uri c) \<and>
       (\<forall>e l. c_exten c = Some (e, l) \<longrightarrow> 0 < e \<and> 0 \<le> l \<and> e + l = int (length (c_uri c))))"
proof -
  have area: "cu_area buf us lim ue" using assms by (simp add: cu_area_def)
  let ?s0 = "\<lparr>cu_state = sw_usual, cu_quoted_state = sw_usual, cu_decoded = 0, cu_ch = ch CHR ''/'',
            cu_p = us + 1, cu_u = 0, cu_out = out, cu_uri_ext = None, cu_args_start = None,
            cu_args = None, cu_quoted_uri = quoted, cu_plus_in_uri = plus_in\<rparr>"
  obtain s1 where s1: "cu_step merge_slashes buf ?s0 = Some (Cont s1)" "cu_inv buf us lim ue merge_slashes s1"
    using cu_first_step [OF area lim(4), of ?s0] by auto
  then obtain act where act: "cu_loop merge_slashes buf ue s1 = Some act"
    "act = Fail \<or> (\<exists>s'. (act = Args s' \<or> act = Done s') \<and> cu_inv buf us lim ue merge_slashes s')"
    using cu_loop_ok [OF area] by blast
  have "cu_loop merge_slashes buf ue ?s0 = Some act"
    using s1(1) act(1) lim by (subst cu_loop.simps) simp
  moreover have "us < length buf" "buf ! us = ch CHR ''/''" using uri by (auto simp: scanned_def)
  ultimately have run: "ngx_http_parse_complex_uri buf us ue out quoted plus_in merge_slashes =
      (case act of Fail \<Rightarrow> Some None
       | Args s \<Rightarrow> do { s \<leftarrow> cu_args_loop buf ue s; Some (Some (cu_finish s)) }
       | Done s \<Rightarrow> Some (Some (cu_finish s)) | Cont s \<Rightarrow> Some (Some (cu_finish s)))"
    by (simp add: ngx_http_parse_complex_uri_def cu_next_def)
  from act(2) consider "act = Fail" | s where "act = Args s" "cu_inv buf us lim ue merge_slashes s"
    | s where "act = Done s" "cu_inv buf us lim ue merge_slashes s" by blast
  then show ?thesis
  proof cases
    case 1
    then show ?thesis using run by simp
  next
    case 2
    obtain s' where "cu_args_loop buf ue s = Some s'" "cu_u s' = cu_u s" "cu_out s' = cu_out s" "cu_uri_ext s' = cu_uri_ext s"
      using cu_args_loop_ok [OF uri(2)] by blast
    then show ?thesis using run 2 cu_finish_ok [OF 2(2), of s'] by simp
  next
    case 3
    then show ?thesis using run cu_finish_ok [OF 3(2), of s] by simp
  qed
qed

section \<open>Paths below the root\<close>

text \<open>The segments of a path between its slashes, and whether walking through them, the last one included, goes above the starting point.\<close>

fun path_segs :: "byte list \<Rightarrow> byte list list" where
  "path_segs [] = [[]]"
| "path_segs (c # w) = (if c = ch CHR ''/'' then [] # path_segs w else (c # hd (path_segs w)) # tl (path_segs w))"

fun climbs :: "nat \<Rightarrow> byte list list \<Rightarrow> bool" where
  "climbs d [] = False"
| "climbs d (s # ss) =
     (if s = dot_dot_seg then d = 0 \<or> climbs (d - 1) ss
      else if s = dot_seg \<or> s = [] then climbs d ss
      else climbs (d + 1) ss)"

definition leaves_root :: "byte list \<Rightarrow> bool" where
  "leaves_root w \<longleftrightarrow> climbs 0 (path_segs w)"

lemma path_segs_append: "ch CHR ''/'' \<notin> set s \<Longrightarrow> path_segs (s @ ch CHR ''/'' # w) = s # path_segs w"
  by (induction s) auto

lemma path_segs_single: "ch CHR ''/'' \<notin> set t \<Longrightarrow> path_segs t = [t]"
  by (induction t) auto

lemma path_segs_enc: "list_all (seg_ok m) ss \<Longrightarrow> ch CHR ''/'' \<notin> set t \<Longrightarrow> path_segs (enc_path ss t) = [] # ss @ [t]"
proof (induction ss)
  case (Cons s ss)
  obtain w where w: "enc_path ss t = ch CHR ''/'' # w" by (cases ss) auto
  then have "path_segs w = ss @ [t]" using Cons by simp
  then show ?case using Cons.prems w by (simp add: path_segs_append seg_ok_def)
qed (simp add: path_segs_single)

lemma climbs_last:
  assumes "list_all (seg_ok m) ss" "climbs d (ss @ [t])"
  shows "t = dot_dot_seg \<and> d = 0 \<and> list_all ((=) []) ss"
  using assms
proof (induction ss arbitrary: d)
  case (Cons s ss)
  show ?case
  proof (cases "s = []")
    case False
    then have "climbs (d + 1) (ss @ [t])" using Cons.prems by (auto simp: seg_ok_def)
    then show ?thesis using Cons.IH [of "d + 1"] Cons.prems(1) by simp
  qed (use Cons in \<open>auto simp: seg_ok_def dot_segs\<close>)
qed (auto split: if_splits)

lemma enc_path_empty: "list_all ((=) []) ss \<Longrightarrow> enc_path ss t = replicate (Suc (length ss)) (ch CHR ''/'') @ t"
  by (induction ss) auto

text \<open>A path of segments that are neither a dot nor a double dot can leave the root with its last segment only.\<close>

lemma below_root:
  assumes "list_all (seg_ok m) ss" "ch CHR ''/'' \<notin> set t" "leaves_root (enc_path ss t)"
  shows "\<exists>n. enc_path ss t = replicate (Suc n) (ch CHR ''/'') @ dot_dot_seg \<and> (m \<longrightarrow> n = 0)"
proof -
  have "climbs 0 (ss @ [t])" using assms(3) by (simp add: leaves_root_def path_segs_enc [OF assms(1,2)] dot_segs)
  then have c: "t = dot_dot_seg" "list_all ((=) []) ss" using climbs_last [OF assms(1)] by auto
  have "m \<longrightarrow> length ss = 0" using assms(1) c(2) by (cases ss) (auto simp: seg_ok_def)
  then show ?thesis using enc_path_empty [OF c(2)] c(1) by blast
qed

text \<open>
  C2: \<open>ngx_http_parse_complex_uri\<close> always returns and stays inside of the request and of its output memory,
  also when that memory ends at the first question mark of the request. An accepted path consists of
  closed segments, which are followed by a slash and are neither a dot, a double dot nor (with \<open>merge_slashes\<close>) empty, and of a last segment, which may be
  anything without a slash. Therefore walking through all segments of the path goes above the root only if the path is \<open>/..\<close> or, without \<open>merge_slashes\<close>, more slashes in front of the double dot. The
  path has no NUL byte, it is not longer than its source, and the extension is a suffix of it.
\<close>
theorem ngx_http_parse_complex_uri_below_root:
  assumes uri: "scanned buf us ue" "ue < length buf"
    and lim: "us < lim" "lim \<le> ue" "lim < ue \<longrightarrow> buf ! lim = ch CHR ''?''" "lim - us \<le> length out"
  shows "\<exists>res. ngx_http_parse_complex_uri buf us ue out quoted plus_in merge_slashes = Some res \<and>
    (\<forall>c. res = Some c \<longrightarrow>
       (\<exists>ss t. c_uri c = enc_path ss t \<and> list_all (seg_ok merge_slashes) ss \<and> ch CHR ''/'' \<notin> set t) \<and>
       (leaves_root (c_uri c) \<longrightarrow> (\<exists>n. c_uri c = replicate (Suc n) (ch CHR ''/'') @ dot_dot_seg \<and> (merge_slashes \<longrightarrow> n = 0))) \<and>
       length (c_uri c) \<le> lim - us \<and> 0 \<notin> set (c_uri c) \<and>
       (\<forall>e l. c_exten c = Some (e, l) \<longrightarrow> 0 < e \<and> 0 \<le> l \<and> e + l = int (length (c_uri c))))"
proof -
  obtain res where res: "ngx_http_parse_complex_uri buf us ue out quoted plus_in merge_slashes = Some res"
    and c: "\<And>c. res = Some c \<Longrightarrow> (\<exists>ss t. c_uri c = enc_path ss t \<and> list_all (seg_ok merge_slashes) ss \<and> ch CHR ''/'' \<notin> set t) \<and>
       length (c_uri c) \<le> lim - us \<and> 0 \<notin> set (c_uri c) \<and>
       (\<forall>e l. c_exten c = Some (e, l) \<longrightarrow> 0 < e \<and> 0 \<le> l \<and> e + l = int (length (c_uri c)))"
    using complex_uri_normalised [OF assms, of quoted plus_in merge_slashes] by blast
  have "leaves_root (c_uri c) \<Longrightarrow> \<exists>n. c_uri c = replicate (Suc n) (ch CHR ''/'') @ dot_dot_seg \<and> (merge_slashes \<longrightarrow> n = 0)" if "res = Some c" for c
    using c [OF that] below_root [of merge_slashes] by metis
  then show ?thesis using res c by blast
qed

theorem ngx_http_parse_complex_uri_below_root_witness:
  "\<exists>c. ngx_http_parse_complex_uri (bytes ''/a/../%62?x '') 0 11 (replicate 10 0) False False True = Some (Some c) \<and>
     c_uri c = bytes ''/b'' \<and> length (c_uri c) \<le> 9"
proof -
  let ?buf = "bytes ''/a/../%62?x ''"
  have "list_all (\<lambda>c. c \<noteq> 0 \<and> c \<noteq> CR \<and> c \<noteq> LF) ?buf" "?buf ! 0 = ch CHR ''/''" by (simp_all add: byte_simps)
  then have "scanned ?buf 0 11" by (auto simp: scanned_def list_all_length)
  then have "\<exists>res. ngx_http_parse_complex_uri ?buf 0 11 (replicate 10 0) False False True = Some res \<and>
      (\<forall>c. res = Some c \<longrightarrow> length (c_uri c) \<le> 9)"
    using ngx_http_parse_complex_uri_below_root [of ?buf 0 11 9 "replicate 10 0" False False True]
    by (auto simp: byte_simps)
  moreover have "map_option (map_option c_uri) (ngx_http_parse_complex_uri ?buf 0 11 (replicate 10 0) False False True) =
      Some (Some (bytes ''/b''))" by code_simp
  ultimately show ?thesis by auto
qed

end
