(* ===== verification/Ngx_Http_Uri.thy ===== *)
theory Ngx_Http_Uri
  imports Ngx_Http_Complex_Uri_Safe
begin

text \<open>
  From the request line to \<open>r->uri\<close>: \<open>ngx_http_process_request_uri\<close> of src/http/ngx_http_request.c, which
  runs the normaliser where the request line parser asked for it, and \<open>ngx_http_parse_uri\<close>
  of src/http/ngx_http_parse.c, which checks URIs of other origin.
\<close>

section \<open>ngx\_http\_process\_request\_uri\<close>

abbreviation (input) BAD_REQUEST :: nat where "BAD_REQUEST \<equiv> 400"
abbreviation (input) INTERNAL_SERVER_ERROR :: nat where "INTERNAL_SERVER_ERROR \<equiv> 500"

text \<open>The members that the function sets, as the bytes they refer to.\<close>

record request_uri =
  ru_uri :: "byte list"
  ru_exten :: "byte list"
  ru_args :: "byte list"
  ru_unparsed_uri :: "byte list"
  ru_valid_unparsed_uri :: bool

definition byte_range :: "byte list \<Rightarrow> nat \<Rightarrow> nat \<Rightarrow> byte list" where
  "byte_range buf i j = take (j - i) (drop i buf)"

text \<open>
  \<open>pnalloc n\<close> is the memory that \<open>ngx_pnalloc\<close> returns, \<open>None\<close> for NULL. A NGX_ERROR comes with the status
  that the request is finalised with.
\<close>

definition process_uri_finish ::
    "byte list \<Rightarrow> ngx_http_request_t \<Rightarrow> nat \<Rightarrow> nat \<Rightarrow> ptr \<Rightarrow> ptr \<Rightarrow> request_uri \<Rightarrow> request_uri" where
  "process_uri_finish buf r us ue uri_ext args_start u =
     (let u = u\<lparr>ru_unparsed_uri := byte_range buf us ue, ru_valid_unparsed_uri := \<not> r_space_in_uri r\<rparr>;
          u = (case uri_ext of
                 None \<Rightarrow> u
               | Some x \<Rightarrow> u\<lparr>ru_exten := byte_range buf x (case args_start of Some a \<Rightarrow> a - 1 | None \<Rightarrow> ue)\<rparr>)
      in case args_start of
           None \<Rightarrow> u
         | Some a \<Rightarrow> if a < ue then u\<lparr>ru_args := byte_range buf a ue\<rparr> else u)"

definition ngx_http_process_request_uri ::
    "byte list \<Rightarrow> ngx_http_request_t \<Rightarrow> bool \<Rightarrow> (nat \<Rightarrow> byte list option) \<Rightarrow> (nat + request_uri) option" where
  "ngx_http_process_request_uri buf r merge_slashes pnalloc = do {
     us \<leftarrow> r_uri_start r;
     ue \<leftarrow> r_uri_end r;
     let len = (case r_args_start r of Some a \<Rightarrow> a - 1 - us | None \<Rightarrow> ue - us);
     let u = \<lparr>ru_uri = [], ru_exten = [], ru_args = [], ru_unparsed_uri = [], ru_valid_unparsed_uri = False\<rparr>;
     (if r_complex_uri r \<or> r_quoted_uri r then
        (case pnalloc (len + 1) of
           None \<Rightarrow> Some (Inl INTERNAL_SERVER_ERROR)
         | Some out \<Rightarrow> do {
             res \<leftarrow> ngx_http_parse_complex_uri buf us ue out (r_quoted_uri r) (r_plus_in_uri r) merge_slashes;
             (case res of
                None \<Rightarrow> Some (Inl BAD_REQUEST)
              | Some c \<Rightarrow>
                  Some (Inr (process_uri_finish buf r us ue None (c_args_start c)
                    (u\<lparr>ru_uri := c_uri c,
                       ru_exten := (case c_exten c of None \<Rightarrow> [] | Some (e, l) \<Rightarrow> take (nat l) (drop (nat e) (c_uri c))),
                       ru_args := (case c_args c of None \<Rightarrow> [] | Some (a, l) \<Rightarrow> byte_range buf a (a + l))\<rparr>))))
           })
      else Some (Inr (process_uri_finish buf r us ue (r_uri_ext r) (r_args_start r)
             (u\<lparr>ru_uri := byte_range buf us (us + len)\<rparr>))))
   }"

section \<open>Clean paths have normal closed segments\<close>

text \<open>
  A path whose closed segments, those with a slash behind them, are neither a dot, a double dot nor (with \<open>merge_slashes\<close>) empty; the last segment may be anything.
\<close>

definition closed_normal :: "bool \<Rightarrow> byte list \<Rightarrow> bool" where
  "closed_normal merge_slashes w \<longleftrightarrow>
     (\<exists>ss t. w = enc_path ss t \<and> list_all (seg_ok merge_slashes) ss \<and> ch CHR ''/'' \<notin> set t) \<and> 0 \<notin> set w"

lemma clean_segments:
  "w \<noteq> [] \<Longrightarrow> hd w = ch CHR ''/'' \<Longrightarrow>
   (\<And>i. Suc i < length w \<Longrightarrow> w ! i = ch CHR ''/'' \<Longrightarrow> w ! Suc i \<notin> set (bytes ''/.'')) \<Longrightarrow>
   \<exists>ss t. w = enc_path ss t \<and> list_all (seg_ok m) ss \<and> ch CHR ''/'' \<notin> set t"
proof (induction w rule: length_induct)
  case (1 w)
  let ?slash = "ch CHR ''/''"
  obtain v where w: "w = ?slash # v" using 1(2,3) by (cases w) auto
  show ?case
  proof (cases "?slash \<in> set v")
    case False
    then show ?thesis using w by (intro exI [of _ "[]"] exI [of _ v]) simp
  next
    case True
    then obtain s v' where v: "v = s @ ?slash # v'" "?slash \<notin> set s" by (auto dest: split_list_first)
    let ?w' = "?slash # v'"
    have "\<exists>ss t. ?w' = enc_path ss t \<and> list_all (seg_ok m) ss \<and> ?slash \<notin> set t"
    proof (rule 1(1) [rule_format])
      show "length ?w' < length w" using w v by simp
      fix i assume i: "Suc i < length ?w'" "?w' ! i = ?slash"
      have *: "w ! (Suc (length s) + k) = ?w' ! k" for k using w v by (simp add: nth_append)
      show "?w' ! Suc i \<notin> set (bytes ''/.'')"
        using 1(4) [of "Suc (length s) + i"] i *[of i] *[of "Suc i"] w v by simp
    qed simp_all
    then obtain ss t where w': "?w' = enc_path ss t" "list_all (seg_ok m) ss" "?slash \<notin> set t" by blast
    have "s \<noteq> []" using 1(4) [of 0] w v by (auto simp: bytes_def)
    moreover from this have "hd s \<noteq> ch CHR ''.''" using 1(4) [of 0] w v by (cases s) (auto simp: bytes_def)
    ultimately have "seg_ok m s" using v(2) by (auto simp: seg_ok_def bytes_def)
    then show ?thesis using w v w' by (intro exI [of _ "s # ss"] exI [of _ t]) simp
  qed
qed

lemma clean_normal:
  assumes "scanned buf u e" "clean buf u k" "u < k" "k \<le> e" "e \<le> length buf"
  shows "closed_normal m (byte_range buf u k)"
proof -
  have len: "length (byte_range buf u k) = k - u" and nth: "\<And>i. i < k - u \<Longrightarrow> byte_range buf u k ! i = buf ! (u + i)"
    using assms by (simp_all add: byte_range_def)
  have "\<exists>ss t. byte_range buf u k = enc_path ss t \<and> list_all (seg_ok m) ss \<and> ch CHR ''/'' \<notin> set t"
  proof (rule clean_segments)
    show ne: "byte_range buf u k \<noteq> []" using len assms(3) by auto
    show "hd (byte_range buf u k) = ch CHR ''/''"
      using assms(1,3) nth [of 0] by (simp add: hd_conv_nth [OF ne] scanned_def)
    show "byte_range buf u k ! Suc i \<notin> set (bytes ''/.'')"
      if "Suc i < length (byte_range buf u k)" "byte_range buf u k ! i = ch CHR ''/''" for i
      using that assms(2) nth [of i] nth [of "Suc i"] len by (simp add: clean_def)
  qed
  moreover have "0 \<notin> set (byte_range buf u k)"
    using assms(1,4) nth len by (fastforce simp: in_set_conv_nth scanned_def)
  ultimately show ?thesis by (simp add: closed_normal_def)
qed

lemma closed_below:
  assumes "closed_normal m w" "leaves_root w"
  shows "\<exists>n. w = replicate (Suc n) (ch CHR ''/'') @ dot_dot_seg \<and> (m \<longrightarrow> n = 0)"
  using assms below_root [of m] by (auto simp: closed_normal_def)

lemma clean_below:
  assumes "scanned buf u e" "clean buf u k" "u < k" "k \<le> e" "e \<le> length buf"
  shows "\<not> leaves_root (byte_range buf u k)"
proof
  let ?w = "byte_range buf u k"
  assume "leaves_root ?w"
  then have w: "?w = ch CHR ''/'' # dot_dot_seg" using closed_below [OF clean_normal [OF assms, of True]] by auto
  have len: "length ?w = k - u" and nth: "\<And>i. i < k - u \<Longrightarrow> ?w ! i = buf ! (u + i)" using assms by (simp_all add: byte_range_def)
  have "Suc u < k" using len w by simp
  moreover from this have "buf ! u = ch CHR ''/''" "buf ! Suc u = ch CHR ''.''" using nth [of 0] nth [of 1] w by (auto simp: bytes_def)
  ultimately show False using assms(2) unfolding clean_def by (fastforce simp: bytes_def)
qed

lemma process_uri_finish_uri [simp]: "ru_uri (process_uri_finish buf r us ue x a u) = ru_uri u"
  by (simp add: process_uri_finish_def Let_def split: option.splits)

lemma process_uri_finish_unparsed [simp]:
  "ru_unparsed_uri (process_uri_finish buf r us ue x a u) = byte_range buf us ue"
  by (simp add: process_uri_finish_def Let_def split: option.splits)

text \<open>
  C1: From the wire to \<open>r->uri\<close>. For every request line that \<open>ngx_http_parse_request_line\<close> accepts,
  \<open>ngx_http_process_request_uri\<close> returns and stays inside of the memory it was given. When it succeeds,
  the path has no NUL byte and none of its closed segments is a dot, a double dot or (with \<open>merge_slashes\<close>) empty. The last segment is not constrained, since the code leaves a dot or
  double dot at the end as it is (\<open>/a/..\<close> stays \<open>/a/..\<close>); still, walking through all segments goes above the root only for the path \<open>/..\<close> or, without \<open>merge_slashes\<close>,
  more slashes in front of the double dot, and never where the URI was not flagged for normalisation. When it fails, the request ends with the status 400, or with 500 where there was no memory.
\<close>
theorem ngx_http_process_request_uri_below_root:
  assumes b: "buf_pos b \<le> buf_last b" "buf_last b \<le> length (buf_mem b)"
    and r0: "r_request_end r0 = None" "r_args_start r0 = None"
    and line: "ngx_http_parse_request_line (sw_start, r0) b = Some (NGX_OK, (st, r), b')"
    and mem: "\<And>n out. pnalloc n = Some out \<Longrightarrow> length out = n"
  shows "\<exists>res. ngx_http_process_request_uri (buf_mem b) r merge_slashes pnalloc = Some res \<and>
    (case res of
       Inr u \<Rightarrow> closed_normal merge_slashes (ru_uri u) \<and> length (ru_uri u) \<le> length (ru_unparsed_uri u) \<and>
         (leaves_root (ru_uri u) \<longrightarrow> (r_complex_uri r \<or> r_quoted_uri r) \<and>
            (\<exists>n. ru_uri u = replicate (Suc n) (ch CHR ''/'') @ dot_dot_seg \<and> (merge_slashes \<longrightarrow> n = 0)))
     | Inl status \<Rightarrow> (r_complex_uri r \<or> r_quoted_uri r) \<and>
         (status = BAD_REQUEST \<or> status = INTERNAL_SERVER_ERROR \<and> (\<exists>n. pnalloc n = None)))"
proof -
  let ?buf = "buf_mem b"
  obtain us ue re where u: "r_uri_start r = Some us" "r_uri_end r = Some ue" and sc: "scanned ?buf us ue"
    and re: "ue \<le> re" "re < buf_pos b'" "buf_pos b' \<le> buf_last b" and args: "args_ok ?buf us ue r"
    and cl: "\<not> r_complex_uri r \<and> \<not> r_quoted_uri r \<longrightarrow> path_end r ue \<le> ue \<and> clean ?buf us (path_end r ue)"
    using request_line_uri [OF b r0 line] by blast
  have ue: "ue < length ?buf" using re b(2) by linarith
  have us: "us < ue" using sc by (simp add: scanned_def)
  define lim where "lim = (case r_args_start r of Some a \<Rightarrow> a - 1 | None \<Rightarrow> ue)"
  have lim: "us < lim" "lim \<le> ue" "lim < ue \<longrightarrow> ?buf ! lim = ch CHR ''?''"
    using args us by (auto simp: lim_def args_ok_def split: option.splits)
  have len: "(case r_args_start r of Some a \<Rightarrow> a - 1 - us | None \<Rightarrow> ue - us) = lim - us"
    by (simp add: lim_def split: option.splits)
  have slice_len: "length (byte_range ?buf us ue) = ue - us" using ue us by (simp add: byte_range_def)
  show ?thesis
  proof (cases "r_complex_uri r \<or> r_quoted_uri r")
    case False
    have pe: "path_end r ue = lim" by (simp add: path_end_def lim_def split: option.splits)
    have "closed_normal merge_slashes (byte_range ?buf us lim)"
      using clean_normal [OF sc _ lim(1,2)] cl False pe ue by simp
    moreover have "\<not> leaves_root (byte_range ?buf us lim)" using clean_below [OF sc _ lim(1,2)] cl False pe ue by simp
    moreover have "length (byte_range ?buf us lim) \<le> ue - us" using lim by (simp add: byte_range_def)
    ultimately show ?thesis
      using False u lim slice_len by (simp add: ngx_http_process_request_uri_def len Let_def)
  next
    case True
    show ?thesis
    proof (cases "pnalloc (lim - us + 1)")
      case None
      then show ?thesis using True u by (auto simp: ngx_http_process_request_uri_def len Let_def)
    next
      case (Some out)
      then have "lim - us \<le> length out" using mem by fastforce
      from complex_uri_normalised [OF sc ue lim this, of "r_quoted_uri r" "r_plus_in_uri r" merge_slashes]
      obtain res where res: "ngx_http_parse_complex_uri ?buf us ue out (r_quoted_uri r) (r_plus_in_uri r) merge_slashes = Some res"
        and ok: "\<And>c. res = Some c \<Longrightarrow> closed_normal merge_slashes (c_uri c) \<and> length (c_uri c) \<le> lim - us"
        by (auto simp: closed_normal_def)
      show ?thesis
      proof (cases res)
        case None
        then show ?thesis using True u Some res by (simp add: ngx_http_process_request_uri_def len Let_def)
      next
        case (Some c)
        have "lim - us \<le> ue - us" using lim by simp
        then have "length (c_uri c) \<le> ue - us" using ok [OF Some] le_trans by blast
        moreover note closed_below [of merge_slashes "c_uri c"]
        ultimately show ?thesis
          using Some True u \<open>pnalloc (lim - us + 1) = Some out\<close> res ok [OF Some] slice_len
          by (simp add: ngx_http_process_request_uri_def len Let_def)
      qed
    qed
  qed
qed


theorem ngx_http_process_request_uri_below_root_witness:
  "\<exists>u. ngx_http_process_request_uri (bytes ''GET /a'' @ [LF]) (fresh_request\<lparr>r_method := NGX_HTTP_GET, r_request_start := Some 0,
       r_method_end := Some 2, r_uri_start := Some 4, r_uri_end := Some 6, r_http_minor := 9, r_request_end := Some 6,
       r_http_version := 9\<rparr>) True (\<lambda>n. Some (replicate n 0)) = Some (Inr u) \<and>
     closed_normal True (ru_uri u)"
proof -
  let ?b = "\<lparr>buf_mem = bytes ''GET /a'' @ [LF], buf_pos = 0, buf_last = 7\<rparr>"
  let ?r = "fresh_request\<lparr>r_method := NGX_HTTP_GET, r_request_start := Some 0, r_method_end := Some 2,
       r_uri_start := Some 4, r_uri_end := Some 6, r_http_minor := 9, r_request_end := Some 6, r_http_version := 9\<rparr>"
  have line: "ngx_http_parse_request_line (sw_start, fresh_request) ?b = Some (NGX_OK, (sw_start, ?r), ?b\<lparr>buf_pos := 7\<rparr>)"
    by (simp add: ngx_http_parse_request_line_def machine.simps rl_step_def rl_start_def rl_method_def
        rl_spaces_before_uri_def rl_after_slash_in_uri_def rl_check_uri_def is_usual_iff byte_simps fresh_request_def Let_def
        rl_method_code_def strcmp_defs rl_done_def)
  have "r_request_end fresh_request = None" "r_args_start fresh_request = None" "\<not> (r_complex_uri ?r \<or> r_quoted_uri ?r)"
    by (simp_all add: fresh_request_def)
  then obtain res where "ngx_http_process_request_uri (bytes ''GET /a'' @ [LF]) ?r True (\<lambda>n. Some (replicate n 0)) = Some res"
    "case res of Inl _ \<Rightarrow> False | Inr u \<Rightarrow> closed_normal True (ru_uri u)"
    using ngx_http_process_request_uri_below_root [OF _ _ _ _ line, of "\<lambda>n. Some (replicate n 0)" True]
    by (fastforce split: sum.splits)
  then show ?thesis by (cases res) auto
qed


section \<open>ngx\_http\_parse\_uri\<close>

datatype pu_state = pu_start | pu_after_slash_in_uri | pu_check_uri | pu_uri

definition pu_after_slash_step :: "nat \<Rightarrow> byte \<Rightarrow> ngx_http_request_t \<Rightarrow> pu_state \<times> ngx_http_request_t" where
  "pu_after_slash_step p c r =
     (if is_usual c then (pu_check_uri, r)
      else if c = SP then (pu_check_uri, r\<lparr>r_space_in_uri := True\<rparr>)
      else if c = ch CHR ''.'' then (pu_uri, r\<lparr>r_complex_uri := True\<rparr>)
      else if c = ch CHR ''%'' then (pu_uri, r\<lparr>r_quoted_uri := True\<rparr>)
      else if c = ch CHR ''/'' then (pu_uri, r\<lparr>r_complex_uri := True\<rparr>)
      else if c = ch CHR ''?'' then (pu_uri, r\<lparr>r_args_start := Some (p + 1)\<rparr>)
      else if c = ch CHR ''#'' then (pu_uri, r\<lparr>r_complex_uri := True\<rparr>)
      else if c = ch CHR ''+'' then (pu_after_slash_in_uri, r\<lparr>r_plus_in_uri := True\<rparr>)
      else (pu_check_uri, r))"

definition pu_check_step :: "nat \<Rightarrow> byte \<Rightarrow> ngx_http_request_t \<Rightarrow> pu_state \<times> ngx_http_request_t" where
  "pu_check_step p c r =
     (if is_usual c then (pu_check_uri, r)
      else if c = ch CHR ''/'' then (pu_after_slash_in_uri, r\<lparr>r_uri_ext := None\<rparr>)
      else if c = ch CHR ''.'' then (pu_check_uri, r\<lparr>r_uri_ext := Some (p + 1)\<rparr>)
      else if c = SP then (pu_check_uri, r\<lparr>r_space_in_uri := True\<rparr>)
      else if c = ch CHR ''%'' then (pu_uri, r\<lparr>r_quoted_uri := True\<rparr>)
      else if c = ch CHR ''?'' then (pu_uri, r\<lparr>r_args_start := Some (p + 1)\<rparr>)
      else if c = ch CHR ''#'' then (pu_uri, r\<lparr>r_complex_uri := True\<rparr>)
      else if c = ch CHR ''+'' then (pu_check_uri, r\<lparr>r_plus_in_uri := True\<rparr>)
      else (pu_check_uri, r))"

definition pu_uri_step :: "byte \<Rightarrow> ngx_http_request_t \<Rightarrow> pu_state \<times> ngx_http_request_t" where
  "pu_uri_step c r =
     (if is_usual c then (pu_uri, r)
      else if c = SP then (pu_uri, r\<lparr>r_space_in_uri := True\<rparr>)
      else if c = ch CHR ''#'' then (pu_uri, r\<lparr>r_complex_uri := True\<rparr>)
      else (pu_uri, r))"

text \<open>The loop over the bytes from \<open>uri_start\<close> to \<open>uri_end\<close>; \<open>p\<close> is the position of the first of them.\<close>

fun pu_loop :: "pu_state \<Rightarrow> nat \<Rightarrow> byte list \<Rightarrow> ngx_http_request_t \<Rightarrow> ngx_int_t \<times> ngx_http_request_t" where
  "pu_loop st p [] r = (NGX_OK, r)"
| "pu_loop pu_start p (c # cs) r =
     (if c \<noteq> ch CHR ''/'' then (NGX_ERROR, r) else pu_loop pu_after_slash_in_uri (p + 1) cs r)"
| "pu_loop pu_after_slash_in_uri p (c # cs) r =
     (case pu_after_slash_step p c r of (st, r) \<Rightarrow> pu_loop st (p + 1) cs r)"
| "pu_loop pu_check_uri p (c # cs) r =
     (case pu_check_step p c r of (st, r) \<Rightarrow> pu_loop st (p + 1) cs r)"
| "pu_loop pu_uri p (c # cs) r =
     (case pu_uri_step c r of (st, r) \<Rightarrow> pu_loop st (p + 1) cs r)"

definition ngx_http_parse_uri :: "byte list \<Rightarrow> ngx_http_request_t \<Rightarrow> (ngx_int_t \<times> ngx_http_request_t) option" where
  "ngx_http_parse_uri buf r = do {
     us \<leftarrow> r_uri_start r;
     ue \<leftarrow> r_uri_end r;
     (if us \<le> ue \<and> ue \<le> length buf then Some (pu_loop pu_start us (byte_range buf us ue) r) else None)
   }"

text \<open>What the loop establishes for the bytes \<open>w\<close> it has consumed behind \<open>us\<close>.\<close>

definition pu_clean :: "nat \<Rightarrow> byte list \<Rightarrow> ngx_http_request_t \<Rightarrow> bool" where
  "pu_clean us w r \<longleftrightarrow> (plain r \<longrightarrow> clean w 0 (path_end r (us + length w) - us) \<and>
     path_end r (us + length w) \<le> us + length w)"

fun pu_inv :: "nat \<Rightarrow> byte list \<Rightarrow> pu_state \<Rightarrow> ngx_http_request_t \<Rightarrow> bool" where
  "pu_inv us w pu_start r \<longleftrightarrow> w = [] \<and> r_args_start r = None"
| "pu_inv us w pu_after_slash_in_uri r \<longleftrightarrow> w \<noteq> [] \<and> hd w = ch CHR ''/'' \<and> r_args_start r = None \<and> pu_clean us w r"
| "pu_inv us w pu_check_uri r \<longleftrightarrow> w \<noteq> [] \<and> hd w = ch CHR ''/'' \<and> r_args_start r = None \<and> last w \<noteq> ch CHR ''/'' \<and> pu_clean us w r"
| "pu_inv us w pu_uri r \<longleftrightarrow> w \<noteq> [] \<and> hd w = ch CHR ''/'' \<and> (plain r \<longrightarrow> r_args_start r \<noteq> None) \<and> pu_clean us w r"


lemma clean_snoc: "k \<le> length w \<Longrightarrow> clean (w @ [c]) 0 k = clean w 0 k"
  by (auto simp: clean_def nth_append)

lemma pu_clean_keep:
  assumes "w \<noteq> []" "pu_clean us w r" "r_args_start r = None" "r_args_start r' = None"
    and "plain r' \<Longrightarrow> plain r \<and> c \<notin> set (bytes ''%#?'') \<and> (last w = ch CHR ''/'' \<longrightarrow> c \<notin> set (bytes ''/.''))"
  shows "pu_clean us (w @ [c]) r'"
proof -
  have "clean (w @ [c]) 0 (Suc (length w))" if pl: "plain r'"
  proof (rule clean_Suc)
    show "clean (w @ [c]) 0 (length w)"
      using assms(2,3,5) pl by (simp add: pu_clean_def path_end_def clean_snoc)
    show "(w @ [c]) ! length w \<notin> set (bytes ''%#?'')" using assms(5) [OF pl] by simp
    show "(w @ [c]) ! length w \<notin> set (bytes ''/.'')" if "(w @ [c]) ! (length w - 1) = ch CHR ''/''"
      using assms(1) assms(5) [OF pl] that by (simp add: nth_append last_conv_nth)
  qed (use assms(1) in auto)
  then show ?thesis using assms(4) by (simp add: pu_clean_def path_end_def)
qed

lemma pu_clean_args:
  assumes "pu_clean us w r" "r_args_start r = None" "plain r' \<Longrightarrow> plain r" "r_args_start r' = Some (us + length w + 1)"
  shows "pu_clean us (w @ [c]) r'"
  using assms by (auto simp: pu_clean_def path_end_def clean_snoc)

lemma pu_clean_rest:
  assumes "pu_clean us w r" "plain r' \<Longrightarrow> plain r \<and> r_args_start r \<noteq> None" "r_args_start r' = r_args_start r"
  shows "pu_clean us (w @ [c]) r'"
  using assms by (auto simp: pu_clean_def path_end_def clean_snoc)

lemma pu_after_slash_inv:
  assumes "pu_inv us w pu_after_slash_in_uri r" "pu_after_slash_step (us + length w) c r = (st, r')"
  shows "pu_inv us (w @ [c]) st r'"
proof -
  have w: "w \<noteq> []" "hd w = ch CHR ''/''" "r_args_start r = None" "pu_clean us w r" using assms(1) by auto
  note keep = pu_clean_keep [OF w(1,4,3)] and args = pu_clean_args [OF w(4,3)]
  show ?thesis
    using assms(2) w usual_char [of c] unfolding pu_after_slash_step_def
    by (auto split: if_splits intro: keep args simp: plain_def byte_simps)
qed

lemma pu_check_inv:
  assumes "pu_inv us w pu_check_uri r" "pu_check_step (us + length w) c r = (st, r')"
  shows "pu_inv us (w @ [c]) st r'"
proof -
  have w: "w \<noteq> []" "hd w = ch CHR ''/''" "r_args_start r = None" "last w \<noteq> ch CHR ''/''" "pu_clean us w r" using assms(1) by auto
  note keep = pu_clean_keep [OF w(1,5,3)] and args = pu_clean_args [OF w(5,3)]
  show ?thesis
    using assms(2) w usual_char [of c] unfolding pu_check_step_def
    by (auto split: if_splits intro: keep args simp: plain_def byte_simps)
qed

lemma pu_uri_inv:
  assumes "pu_inv us w pu_uri r" "pu_uri_step c r = (st, r')"
  shows "pu_inv us (w @ [c]) st r'"
proof -
  have w: "w \<noteq> []" "hd w = ch CHR ''/''" "plain r \<longrightarrow> r_args_start r \<noteq> None" "pu_clean us w r" using assms(1) by auto
  note rest = pu_clean_rest [OF w(4)]
  show ?thesis
    using assms(2) w unfolding pu_uri_step_def
    by (auto split: if_splits intro!: rest simp: plain_def)
qed

lemma pu_loop_ok:
  "pu_inv us w st r \<Longrightarrow> pu_loop st (us + length w) cs r = (rc, r') \<Longrightarrow>
   (rc = NGX_OK \<longleftrightarrow> (w @ cs = [] \<or> hd (w @ cs) = ch CHR ''/'')) \<and> (rc = NGX_OK \<or> rc = NGX_ERROR) \<and>
   (rc = NGX_OK \<longrightarrow> pu_clean us (w @ cs) r')"
proof (induction cs arbitrary: w st r)
  case Nil
  then show ?case by (cases st) (auto simp: pu_clean_def path_end_def clean_def)
next
  case (Cons c cs)
  have step: "?case" if "pu_inv us (w @ [c]) st' r1" "pu_loop st' (us + length w + 1) cs r1 = (rc, r')" for st' r1
    using Cons.IH [of "w @ [c]" st' r1] that by auto
  show ?case
  proof (cases st)
    case pu_start
    have "pu_clean us [ch CHR ''/''] r" if "r_args_start r = None"
      using that by (auto simp: pu_clean_def path_end_def clean_def byte_simps)
    then show ?thesis using step [of pu_after_slash_in_uri r] Cons.prems pu_start by (auto split: if_splits)
  next
    case pu_after_slash_in_uri
    obtain st' r1 where s: "pu_after_slash_step (us + length w) c r = (st', r1)" by (cases "pu_after_slash_step (us + length w) c r")
    show ?thesis
      by (rule step [OF pu_after_slash_inv [OF _ s]]) (use s Cons.prems pu_after_slash_in_uri in simp_all)
  next
    case pu_check_uri
    obtain st' r1 where s: "pu_check_step (us + length w) c r = (st', r1)" by (cases "pu_check_step (us + length w) c r")
    show ?thesis
      by (rule step [OF pu_check_inv [OF _ s]]) (use s Cons.prems pu_check_uri in simp_all)
  next
    case pu_uri
    obtain st' r1 where s: "pu_uri_step c r = (st', r1)" by (cases "pu_uri_step c r")
    show ?thesis
      by (rule step [OF pu_uri_inv [OF _ s]]) (use s Cons.prems pu_uri in simp_all)
  qed
qed

text \<open>
  \<open>ngx_http_parse_uri\<close> accepts exactly the empty URI and those that start with a slash. Where it leaves
  \<open>complex_uri\<close> and \<open>quoted_uri\<close> unset, the path in front of the arguments has no escape, no fragment, and no
  segment that is empty or starts with a dot.
\<close>
theorem ngx_http_parse_uri_flags:
  assumes r: "r_uri_start r = Some us" "r_uri_end r = Some ue" "us \<le> ue" "ue \<le> length buf" "r_args_start r = None"
  shows "\<exists>rc r'. ngx_http_parse_uri buf r = Some (rc, r') \<and> (rc = NGX_OK \<or> rc = NGX_ERROR) \<and>
    (rc = NGX_OK \<longleftrightarrow> us = ue \<or> buf ! us = ch CHR ''/'') \<and>
    (rc = NGX_OK \<and> \<not> r_complex_uri r' \<and> \<not> r_quoted_uri r' \<longrightarrow>
       path_end r' ue \<le> ue \<and> clean (byte_range buf us ue) 0 (path_end r' ue - us))"
proof -
  obtain rc r' where l: "pu_loop pu_start us (byte_range buf us ue) r = (rc, r')" by (cases "pu_loop pu_start us (byte_range buf us ue) r")
  have len: "length (byte_range buf us ue) = ue - us" using r by (simp add: byte_range_def)
  have "byte_range buf us ue = [] \<longleftrightarrow> us = ue" using r by (auto simp: byte_range_def)
  moreover have "us \<noteq> ue \<longrightarrow> hd (byte_range buf us ue) = buf ! us"
    using r by (auto simp: byte_range_def hd_drop_conv_nth hd_take)
  ultimately have "(rc = NGX_OK \<longleftrightarrow> us = ue \<or> buf ! us = ch CHR ''/'') \<and> (rc = NGX_OK \<or> rc = NGX_ERROR) \<and>
      (rc = NGX_OK \<longrightarrow> pu_clean us (byte_range buf us ue) r')"
    using pu_loop_ok [of us "[]" pu_start r "byte_range buf us ue" rc r'] l r(5) by (cases "us = ue") auto
  then show ?thesis
    using l r len by (auto simp: ngx_http_parse_uri_def pu_clean_def plain_def)
qed

theorem ngx_http_parse_uri_flags_witness:
  "\<exists>rc r'. ngx_http_parse_uri (bytes ''/a/b?c'') (fresh_request\<lparr>r_uri_start := Some 0, r_uri_end := Some 6\<rparr>) = Some (rc, r') \<and> rc = NGX_OK"
  using ngx_http_parse_uri_flags [of "fresh_request\<lparr>r_uri_start := Some 0, r_uri_end := Some 6\<rparr>" 0 6 "bytes ''/a/b?c''"]
  by (auto simp: fresh_request_def bytes_def)

end
