(* ===== verification/Ngx_Http_Unsafe_Uri.thy ===== *)
theory Ngx_Http_Unsafe_Uri
  imports Ngx_Http_Request
begin

text \<open>
  \<open>ngx_http_parse_unsafe_uri\<close> of src/http/ngx_http_parse.c, the check of a URI that comes from a
  header or a script. The URI is the first \<open>len\<close> bytes of a memory region; the result has the return code, the
  length of the URI behind the call, and the arguments as their position and length.
\<close>

text \<open>The test for a parent directory behind a slash, reading no further than needed.\<close>

definition dot_dot_at :: "byte list \<Rightarrow> nat \<Rightarrow> bool option" where
  "dot_dot_at m i = do {
     a \<leftarrow> rd m i;
     (if a \<noteq> ch CHR ''.'' then Some False
      else do {
        b \<leftarrow> rd m (i + 1);
        (if b \<noteq> ch CHR ''.'' then Some False
         else do { c \<leftarrow> rd m (i + 2); Some (c = ch CHR ''/'') })
      })
   }"

fun unsafe_loop :: "byte list \<Rightarrow> nat \<Rightarrow> nat \<Rightarrow> nat \<Rightarrow> (ngx_int_t \<times> nat \<times> (nat \<times> nat) option) option" where
  "unsafe_loop m uri_len i 0 = Some (NGX_OK, uri_len, None)"
| "unsafe_loop m uri_len i (Suc l) = do {
     c \<leftarrow> rd m i;
     (if is_usual c then unsafe_loop m uri_len (i + 1) l
      else if c = ch CHR ''?'' then Some (NGX_OK, uri_len - Suc l, Some (i + 1, l))
      else if c = 0 then Some (NGX_ERROR, uri_len, None)
      else if c = ch CHR ''/'' \<and> Suc l > 2 then do {
        dd \<leftarrow> dot_dot_at m (i + 1);
        (if dd then Some (NGX_ERROR, uri_len, None) else unsafe_loop m uri_len (i + 1) l)
      }
      else unsafe_loop m uri_len (i + 1) l)
   }"

definition ngx_http_parse_unsafe_uri :: "byte list \<Rightarrow> nat \<Rightarrow> (ngx_int_t \<times> nat \<times> (nat \<times> nat) option) option" where
  "ngx_http_parse_unsafe_uri m len = do {
     start \<leftarrow> (if len = 0 then Some True
              else do {
                c \<leftarrow> rd m 0;
                (if c = ch CHR ''?'' then Some True
                 else if c = ch CHR ''.'' \<and> len = 3 then do {
                   d \<leftarrow> rd m 1;
                   (if d = ch CHR ''.'' then do { e \<leftarrow> rd m 2; Some (e = ch CHR ''/'') } else Some False)
                 }
                 else Some False)
              });
     (if start then Some (NGX_ERROR, len, None) else unsafe_loop m len 0 len)
   }"

section \<open>What is unsafe\<close>

definition unsafe_at :: "byte list \<Rightarrow> nat \<Rightarrow> nat \<Rightarrow> bool" where
  "unsafe_at m len i \<longleftrightarrow> m ! i = 0 \<or>
     i + 2 < len \<and> m ! i = ch CHR ''/'' \<and> m ! (i + 1) = ch CHR ''.'' \<and> m ! (i + 2) = ch CHR ''.'' \<and> m ! (i + 3) = ch CHR ''/''"

text \<open>The length of the path: up to the first question mark.\<close>

definition path_len :: "byte list \<Rightarrow> nat" where
  "path_len w = length (takeWhile (\<lambda>c. c \<noteq> ch CHR ''?'') w)"

lemma dot_dot_at_in:
  "i + 2 < length m \<Longrightarrow>
   dot_dot_at m i = Some (m ! i = ch CHR ''.'' \<and> m ! (i + 1) = ch CHR ''.'' \<and> m ! (i + 2) = ch CHR ''/'')"
  by (simp add: dot_dot_at_def)

lemma ex_first: "(\<exists>k. i \<le> k \<and> k < i + Suc q \<and> P k) \<longleftrightarrow> P i \<or> (\<exists>k. i + 1 \<le> k \<and> k < i + 1 + q \<and> P k)"
  by (metis Suc_eq_plus1 add_Suc_right add_Suc le_add1 le_antisym not_less_eq_eq less_add_Suc1 Suc_leD)

lemma if_if_disj: "(if a then x else if b then x else y) = (if a \<or> b then x else y)"
  by simp

lemma unsafe_loop_spec:
  assumes "i + l = len" "len < length m"
  shows "unsafe_loop m len i l =
    (let q = path_len (take l (drop i m))
     in if \<exists>k. i \<le> k \<and> k < i + q \<and> unsafe_at m len k then Some (NGX_ERROR, len, None)
        else Some (NGX_OK, i + q, if q < l then Some (i + q + 1, l - q - 1) else None))"
  using assms
proof (induction l arbitrary: i)
  case 0
  then show ?case by (simp add: path_len_def)
next
  case (Suc l)
  have dr: "take (Suc l) (drop i m) = m ! i # take l (drop (Suc i) m)"
    using Suc.prems by (simp add: Cons_nth_drop_Suc [symmetric])
  have IH: "unsafe_loop m len (i + 1) l =
    (let q = path_len (take l (drop (i + 1) m))
     in if \<exists>k. i + 1 \<le> k \<and> k < i + 1 + q \<and> unsafe_at m len k then Some (NGX_ERROR, len, None)
        else Some (NGX_OK, i + 1 + q, if q < l then Some (i + 1 + q + 1, l - q - 1) else None))"
    by (rule Suc.IH) (use Suc.prems in simp_all)
  show ?case
  proof (cases "m ! i = ch CHR ''?''")
    case True
    have "\<not> is_usual (ch CHR ''?'')" by (simp add: is_usual_iff bytes_def)
    then show ?thesis using True Suc.prems dr by (auto simp: path_len_def)
  next
    case False
    then have q: "path_len (take (Suc l) (drop i m)) = Suc (path_len (take l (drop (i + 1) m)))"
      unfolding dr by (simp add: path_len_def)
    have us: "is_usual (m ! i) \<Longrightarrow> \<not> unsafe_at m len i" by (auto simp: is_usual_iff bytes_def unsafe_at_def)
    have step: "unsafe_loop m len i (Suc l) =
        (if unsafe_at m len i then Some (NGX_ERROR, len, None) else unsafe_loop m len (i + 1) l)"
      using False us Suc.prems dot_dot_at_in [of "i + 1" m]
      by (auto simp: unsafe_at_def is_usual_iff byte_simps numeral_3_eq_3)
    show ?thesis unfolding step q Let_def IH ex_first by auto
  qed
qed

text \<open>
  C24: \<open>ngx_http_parse_unsafe_uri\<close> on a URI with one readable byte behind it. It rejects exactly the empty path, the
  string \<open>../\<close>, and the URIs whose path (the part in front of the first question mark) has a NUL byte or
  \<open>/../\<close>, where the last slash may be the byte behind the URI; otherwise it cuts the arguments off. In
  particular a longer URI that starts with \<open>../\<close> is accepted.
\<close>
theorem ngx_http_parse_unsafe_uri_correct:
  assumes "len < length m"
  shows "ngx_http_parse_unsafe_uri m len =
    (let q = path_len (take len m)
     in if q = 0 \<or> take len m = bytes ''../'' \<or> (\<exists>k<q. unsafe_at m len k)
        then Some (NGX_ERROR, len, None)
        else Some (NGX_OK, q, if q < len then Some (q + 1, len - q - 1) else None))"
proof -
  have loop: "unsafe_loop m len 0 len =
    (let q = path_len (take len m)
     in if \<exists>k<q. unsafe_at m len k then Some (NGX_ERROR, len, None)
        else Some (NGX_OK, q, if q < len then Some (q + 1, len - q - 1) else None))"
    using unsafe_loop_spec [of 0 len len m] assms by (simp add: Let_def)
  have q: "path_len (take len m) = 0 \<longleftrightarrow> len = 0 \<or> m ! 0 = ch CHR ''?''"
    using assms by (cases m; cases len) (auto simp: path_len_def)
  have t: "take len m = bytes ''../'' \<longleftrightarrow> len = 3 \<and> m ! 0 = ch CHR ''.'' \<and> m ! 1 = ch CHR ''.'' \<and> m ! 2 = ch CHR ''/''"
  proof (cases "len = 3")
    case True
    then obtain a b c d rest where "m = a # b # c # d # rest" using assms
      by (cases m; cases "tl m"; cases "tl (tl m)"; cases "tl (tl (tl m))") auto
    then show ?thesis using True by (simp add: bytes_def numeral_3_eq_3 numeral_2_eq_2)
  next
    case False
    then have "length (take len m) \<noteq> length (bytes ''../'')" using assms by simp
    then show ?thesis using False by metis
  qed
  have "ngx_http_parse_unsafe_uri m len =
      (if len = 0 \<or> m ! 0 = ch CHR ''?'' \<or> len = 3 \<and> m ! 0 = ch CHR ''.'' \<and> m ! 1 = ch CHR ''.'' \<and> m ! 2 = ch CHR ''/''
       then Some (NGX_ERROR, len, None) else unsafe_loop m len 0 len)"
  proof (cases "len = 0")
    case True
    then show ?thesis by (simp add: ngx_http_parse_unsafe_uri_def)
  next
    case False
    then have "rd m 0 = Some (m ! 0)" "len = 3 \<Longrightarrow> rd m 1 = Some (m ! 1)" "len = 3 \<Longrightarrow> rd m 2 = Some (m ! 2)"
      using assms by (auto simp: rd_def)
    then show ?thesis using False by (auto simp: ngx_http_parse_unsafe_uri_def)
  qed
  then show ?thesis unfolding t [symmetric] loop Let_def q by (simp only: disj_assoc if_if_disj)
qed

theorem ngx_http_parse_unsafe_uri_correct_witness:
  "ngx_http_parse_unsafe_uri (bytes ''../a?b'' @ [0]) 6 = Some (NGX_OK, 4, Some (5, 1))"
proof -
  have "path_len (bytes ''../a?b'') = 4" by (simp add: path_len_def byte_simps)
  moreover have "\<not> unsafe_at (bytes ''../a?b'' @ [0]) 6 k" if "k < 4" for k
  proof -
    have "k \<in> {0, 1, 2, 3}" using that by auto
    then show ?thesis by (auto simp: unsafe_at_def byte_simps)
  qed
  ultimately show ?thesis
    using ngx_http_parse_unsafe_uri_correct [of 6 "bytes ''../a?b'' @ [0]"] by (auto simp: bytes_def Let_def)
qed

end
