(* ===== verification/Ngx_String_Search.thy ===== *)
theory Ngx_String_Search
  imports Ngx_Prelude
begin

text \<open>
  Comparing and searching strings, src/core/ngx_string.c and ngx_string.h: \<open>ngx_strlchr\<close>,
  \<open>ngx_strncasecmp\<close>, \<open>ngx_strstrn\<close>, \<open>ngx_strcasestrn\<close>, \<open>ngx_strnstr\<close> and \<open>ngx_strlcasestrn\<close>, each of
  which returns the first occurrence, and never reads behind the terminating NUL or the given end.
  A pointer is an index into a region; the outer \<open>None\<close> is a read outside of it, the inner one is NULL.
\<close>

section \<open>The code\<close>

fun strn_cmp :: "(byte \<Rightarrow> byte) \<Rightarrow> byte list \<Rightarrow> nat \<Rightarrow> byte list \<Rightarrow> nat \<Rightarrow> nat \<Rightarrow> ngx_int_t option" where
  "strn_cmp norm m1 i m2 j 0 = Some 0"
| "strn_cmp norm m1 i m2 j (Suc n) = do {
     c1 \<leftarrow> rd m1 i;
     c2 \<leftarrow> rd m2 j;
     let c1 = norm c1;
     let c2 = norm c2;
     (if c1 = c2 then (if c1 \<noteq> 0 then strn_cmp norm m1 (i + 1) m2 (j + 1) n else Some 0)
      else Some (ucast c1 - ucast c2))
   }"

definition ngx_strncasecmp :: "byte list \<Rightarrow> nat \<Rightarrow> byte list \<Rightarrow> nat \<Rightarrow> nat \<Rightarrow> ngx_int_t option" where
  "ngx_strncasecmp = strn_cmp ngx_tolower"

text \<open>\<open>ngx_strncmp\<close> is the function of the C library.\<close>

definition ngx_strncmp :: "byte list \<Rightarrow> nat \<Rightarrow> byte list \<Rightarrow> nat \<Rightarrow> nat \<Rightarrow> ngx_int_t option" where
  "ngx_strncmp = strn_cmp (\<lambda>c. c)"

text \<open>The search for the first byte \<open>c2\<close> of the pattern, which in \<open>ngx_strcasestrn\<close> is an unsigned integer.\<close>

function strn_loop ::
    "(byte \<Rightarrow> byte) \<Rightarrow> byte list \<Rightarrow> nat \<Rightarrow> ngx_uint_t \<Rightarrow> byte list \<Rightarrow> nat \<Rightarrow> nat option option" where
  "strn_loop norm s1 i c2 s2 n =
     (case rd s1 i of
        None \<Rightarrow> None
      | Some c1 \<Rightarrow>
          if c1 = 0 then Some None
          else if ucast (norm c1) \<noteq> c2 then strn_loop norm s1 (i + 1) c2 s2 n
          else (case strn_cmp norm s1 (i + 1) s2 1 n of
                  None \<Rightarrow> None
                | Some d \<Rightarrow> if d \<noteq> 0 then strn_loop norm s1 (i + 1) c2 s2 n else Some (Some i)))"
  by pat_completeness auto
termination
  by (relation "measure (\<lambda>(norm, s1, i, c2, s2, n). length s1 - i)") (auto simp: rd_Some_iff)

declare strn_loop.simps [simp del]

definition ngx_strstrn :: "byte list \<Rightarrow> byte list \<Rightarrow> nat \<Rightarrow> nat option option" where
  "ngx_strstrn s1 s2 n = do { c2 \<leftarrow> rd s2 0; strn_loop (\<lambda>c. c) s1 0 (ucast c2) s2 n }"

text \<open>
  In \<open>ngx_strcasestrn\<close> the pattern is a \<open>char *\<close>, and \<open>char\<close> is signed: a byte from 0x80 on is extended to an integer that is not the value of a byte.
\<close>

definition ngx_strcasestrn :: "byte list \<Rightarrow> byte list \<Rightarrow> nat \<Rightarrow> nat option option" where
  "ngx_strcasestrn s1 s2 n = do {
     c2 \<leftarrow> rd s2 0;
     let c2 = (scast c2 :: ngx_uint_t);
     let c2 = (if 0x41 \<le> c2 \<and> c2 \<le> 0x5a then c2 OR 0x20 else c2);
     strn_loop ngx_tolower s1 0 c2 s2 n
   }"

fun strnstr_loop :: "byte list \<Rightarrow> nat \<Rightarrow> nat \<Rightarrow> byte \<Rightarrow> byte list \<Rightarrow> nat \<Rightarrow> nat option option" where
  "strnstr_loop s1 i 0 c2 s2 n = Some None"
| "strnstr_loop s1 i (Suc len) c2 s2 n = do {
     c1 \<leftarrow> rd s1 i;
     (if c1 = 0 then Some None
      else if c1 \<noteq> c2 then strnstr_loop s1 (i + 1) len c2 s2 n
      else if n > len then Some None
      else do {
        d \<leftarrow> ngx_strncmp s1 (i + 1) s2 1 n;
        (if d \<noteq> 0 then strnstr_loop s1 (i + 1) len c2 s2 n else Some (Some i))
      })
   }"

text \<open>\<open>ngx_strlen\<close> of the C library.\<close>

function c_strlen :: "byte list \<Rightarrow> nat \<Rightarrow> nat option" where
  "c_strlen s i =
     (case rd s i of None \<Rightarrow> None | Some c \<Rightarrow> if c = 0 then Some 0 else map_option Suc (c_strlen s (i + 1)))"
  by pat_completeness auto
termination
  by (relation "measure (\<lambda>(s, i). length s - i)") (auto simp: rd_Some_iff)

declare c_strlen.simps [simp del]

definition ngx_strnstr :: "byte list \<Rightarrow> byte list \<Rightarrow> nat \<Rightarrow> nat option option" where
  "ngx_strnstr s1 s2 len = do { c2 \<leftarrow> rd s2 0; n \<leftarrow> c_strlen s2 1; strnstr_loop s1 0 len c2 s2 n }"

text \<open>\<open>last\<close> is an integer, because the code moves it before the start of the region.\<close>

function strlcasestrn_loop :: "byte list \<Rightarrow> nat \<Rightarrow> int \<Rightarrow> byte \<Rightarrow> byte list \<Rightarrow> nat \<Rightarrow> nat option option" where
  "strlcasestrn_loop s1 i stop c2 s2 n =
     (if int i \<ge> stop then Some None
      else (case rd s1 i of
              None \<Rightarrow> None
            | Some c1 \<Rightarrow>
                if ngx_tolower c1 \<noteq> c2 then strlcasestrn_loop s1 (i + 1) stop c2 s2 n
                else (case ngx_strncasecmp s1 (i + 1) s2 1 n of
                        None \<Rightarrow> None
                      | Some d \<Rightarrow> if d \<noteq> 0 then strlcasestrn_loop s1 (i + 1) stop c2 s2 n else Some (Some i))))"
  by pat_completeness auto
termination
  by (relation "measure (\<lambda>(s1, i, stop, c2, s2, n). nat (stop - int i))") auto

declare strlcasestrn_loop.simps [simp del]

definition ngx_strlcasestrn :: "byte list \<Rightarrow> nat \<Rightarrow> nat \<Rightarrow> byte list \<Rightarrow> nat \<Rightarrow> nat option option" where
  "ngx_strlcasestrn s1 i stop s2 n = do {
     c2 \<leftarrow> rd s2 0;
     strlcasestrn_loop s1 i (int stop - int n) (ngx_tolower c2) s2 n
   }"

function ngx_strlchr :: "byte list \<Rightarrow> nat \<Rightarrow> nat \<Rightarrow> byte \<Rightarrow> nat option option" where
  "ngx_strlchr m p stop c =
     (if p < stop then (case rd m p of None \<Rightarrow> None | Some d \<Rightarrow> if d = c then Some (Some p) else ngx_strlchr m (p + 1) stop c)
      else Some None)"
  by pat_completeness auto
termination
  by (relation "measure (\<lambda>(m, p, stop, c). stop - p)") auto

declare ngx_strlchr.simps [simp del]

section \<open>Comparison\<close>

text \<open>Two ways to compare bytes share the comparison loop: as they are, and with lower case letters.\<close>

definition is_match :: "(byte \<Rightarrow> byte) \<Rightarrow> byte list \<Rightarrow> byte list \<Rightarrow> bool" where
  "is_match norm s w \<longleftrightarrow> length s \<le> length w \<and> map norm (take (length s) w) = map norm s"

lemma is_match_Nil [simp]: "is_match norm [] w"
  by (simp add: is_match_def)

lemma is_match_Cons: "is_match norm (c # s) (d # w) \<longleftrightarrow> norm d = norm c \<and> is_match norm s w"
  by (auto simp: is_match_def)

lemma is_match_Cons_Nil [simp]: "\<not> is_match norm (c # s) []"
  by (simp add: is_match_def)

lemma drop_nth: "i < length m \<Longrightarrow> drop i m = m ! i # drop (Suc i) m"
  by (simp add: Cons_nth_drop_Suc)

lemma ucast_diff_0: "(ucast (a :: byte) - ucast b :: ngx_int_t) = 0 \<longleftrightarrow> a = b"
proof
  assume "(ucast a - ucast b :: ngx_int_t) = 0"
  then have "(ucast a :: ngx_int_t) = ucast b" by simp
  then show "a = b" by transfer (simp add: take_bit_take_bit)
qed simp

lemma ucast_inj: "(ucast (a :: byte) :: ngx_uint_t) = ucast b \<longleftrightarrow> a = b"
  using ucast_diff_0 [of a b] by auto

locale byte_norm =
  fixes norm :: "byte \<Rightarrow> byte"
  assumes norm_0: "norm c = 0 \<longleftrightarrow> c = 0"
begin

lemma strn_cmp_0:
  assumes "0 \<notin> set (take n (drop j m2))" "j + n \<le> length m2" "i + n \<le> length m1 \<or> 0 \<in> set (drop i m1)"
  shows "\<exists>d. strn_cmp norm m1 i m2 j n = Some d \<and> (d = 0 \<longleftrightarrow> is_match norm (take n (drop j m2)) (drop i m1))"
  using assms
proof (induction n arbitrary: i j)
  case (Suc n)
  have j: "j < length m2" "take (Suc n) (drop j m2) = m2 ! j # take n (drop (Suc j) m2)"
    using Suc.prems(2) by (simp_all add: drop_nth)
  have i: "i < length m1"
  proof (rule ccontr)
    assume "\<not> i < length m1"
    then show False using Suc.prems(3) by simp
  qed
  have nz: "m2 ! j \<noteq> 0" "0 \<notin> set (take n (drop (Suc j) m2))" using Suc.prems(1) j(2) by auto
  have m: "is_match norm (take (Suc n) (drop j m2)) (drop i m1) \<longleftrightarrow>
      norm (m1 ! i) = norm (m2 ! j) \<and> is_match norm (take n (drop (Suc j) m2)) (drop (Suc i) m1)"
    unfolding j(2) drop_nth [OF i] is_match_Cons ..
  show ?case
  proof (cases "norm (m1 ! i) = norm (m2 ! j)")
    case False
    then show ?thesis using i j(1) m ucast_diff_0 by (simp add: Let_def)
  next
    case True
    have "norm (m2 ! j) \<noteq> 0" using nz norm_0 by simp
    moreover from this have "m1 ! i \<noteq> 0" using True norm_0 by metis
    then have "Suc i + n \<le> length m1 \<or> 0 \<in> set (drop (Suc i) m1)" using Suc.prems(3) drop_nth [OF i] by auto
    ultimately show ?thesis using Suc.IH [of "Suc j" "Suc i"] Suc.prems(2) nz True i j(1) m by (simp add: Let_def)
  qed
qed simp

lemma strn_cmp_needle:
  assumes "needle \<noteq> []" "0 \<notin> set needle" "i + length needle \<le> length m \<or> 0 \<in> set (drop (Suc i) m)" "i < length m"
  shows "\<exists>d. strn_cmp norm m (i + 1) (needle @ rest) 1 (length needle - 1) = Some d \<and>
     (norm (m ! i) = norm (hd needle) \<longrightarrow> (d = 0 \<longleftrightarrow> is_match norm needle (drop i m)))"
proof -
  obtain c s where n: "needle = c # s" using assms(1) by (cases needle) auto
  have "take (length s) (drop 1 (needle @ rest)) = s" using n by simp
  then show ?thesis
    using strn_cmp_0 [of "length s" 1 "needle @ rest" "i + 1" m] assms n
    by (auto simp: drop_nth [OF assms(4)] is_match_Cons)
qed

end

interpretation exact: byte_norm "\<lambda>c. c"
  by unfold_locales simp

lemma tolower_0: "ngx_tolower c = 0 \<longleftrightarrow> c = 0"
proof -
  have "c OR 0x20 \<noteq> 0" by (simp add: or_eq_0_iff)
  then show ?thesis by (auto simp: ngx_tolower_def byte_simps)
qed

interpretation folded: byte_norm ngx_tolower
  by unfold_locales (rule tolower_0)


section \<open>Searching\<close>

lemma find_upt:
  "i < j \<Longrightarrow> find P [i..<j] = (if P i then Some i else find P [Suc i..<j])"
  by (simp add: upt_conv_Cons)

context byte_norm
begin

lemma not_match_hd: "i < length m \<Longrightarrow> needle \<noteq> [] \<Longrightarrow> norm (m ! i) \<noteq> norm (hd needle) \<Longrightarrow> \<not> is_match norm needle (drop i m)"
  by (cases needle) (simp_all add: drop_nth is_match_Cons)

lemma is_match_nul:
  assumes "0 \<notin> set needle" "i \<le> length t"
  shows "is_match norm needle (drop i (t @ 0 # rest)) \<longleftrightarrow> is_match norm needle (drop i t)"
proof -
  have "is_match norm s (w @ 0 # rest) \<longleftrightarrow> is_match norm s w" if "0 \<notin> set s" for s w
    using that
  proof (induction s arbitrary: w)
    case (Cons c s)
    then show ?case using norm_0 [of c] norm_0 [of 0] by (cases w) (auto simp: is_match_Cons)
  qed simp
  then show ?thesis using assms by simp
qed

lemma strn_loop_find:
  assumes t: "0 \<notin> set t" and s: "needle \<noteq> []" "0 \<notin> set needle" and i: "i \<le> length t"
  shows "strn_loop norm (t @ 0 # rest) i (ucast (norm (hd needle))) (needle @ r2) (length needle - 1) =
    Some (find (\<lambda>k. is_match norm needle (drop k t)) [i..<length t])"
  using i
proof (induction "length t - i" arbitrary: i)
  case 0
  then have "i = length t" by simp
  then show ?case by (subst strn_loop.simps) (simp add: rd_def nth_append)
next
  case (Suc x)
  let ?m = "t @ 0 # rest"
  have i: "i < length t" "i < length ?m" using Suc.hyps(2) by auto
  have nz: "?m ! i \<noteq> 0" using t i by (metis nth_append nth_mem)
  have IH: "strn_loop norm ?m (i + 1) (ucast (norm (hd needle))) (needle @ r2) (length needle - 1) =
      Some (find (\<lambda>k. is_match norm needle (drop k t)) [Suc i..<length t])"
    using Suc.hyps(1) [of "i + 1"] Suc.hyps(2) i by simp
  have "0 \<in> set (drop (Suc i) ?m)" using i by simp
  then obtain d where d: "strn_cmp norm ?m (i + 1) (needle @ r2) 1 (length needle - 1) = Some d"
    "norm (?m ! i) = norm (hd needle) \<Longrightarrow> (d = 0 \<longleftrightarrow> is_match norm needle (drop i t))"
    using strn_cmp_needle [OF s, of i ?m r2] i is_match_nul [OF s(2), of i t rest] by auto
  have "\<not> is_match norm needle (drop i t)" if "norm (?m ! i) \<noteq> norm (hd needle)"
    using not_match_hd [OF i(1) s(1)] that i by (simp add: nth_append)
  then show ?case
    using d nz i IH ucast_inj by (subst strn_loop.simps, subst find_upt [OF i(1)]) (auto simp: rd_def)
qed

text \<open>A first byte that is not the value of a byte is never found.\<close>

lemma strn_loop_never:
  assumes "0 \<notin> set t" "\<And>c. ucast (norm c) \<noteq> c2" "i \<le> length t"
  shows "strn_loop norm (t @ 0 # rest) i c2 s2 n = Some None"
  using assms(3)
proof (induction "length t - i" arbitrary: i)
  case 0
  then show ?case by (subst strn_loop.simps) (simp add: rd_def nth_append)
next
  case (Suc x)
  then have "strn_loop norm (t @ 0 # rest) (i + 1) c2 s2 n = Some None" by simp
  then show ?case using assms(2) Suc.prems by (subst strn_loop.simps) (auto simp: rd_def nth_append)
qed

end

lemma c_strlen_eq: "0 \<notin> set s \<Longrightarrow> c_strlen (p @ s @ 0 # rest) (length p) = Some (length s)"
proof (induction s arbitrary: p)
  case Nil
  then show ?case by (subst c_strlen.simps) (simp add: rd_def)
next
  case (Cons c s)
  then show ?case using Cons.IH [of "p @ [c]"] by (subst c_strlen.simps) (simp add: rd_def nth_append)
qed

lemma take_drop_match:
  assumes "i + length s \<le> len"
  shows "is_match norm s (drop i (take len t)) \<longleftrightarrow> is_match norm s (drop i t)"
  using assms by (auto simp: is_match_def drop_take min_def)

lemma find_none: "(\<And>x. x \<in> set xs \<Longrightarrow> \<not> P x) \<Longrightarrow> find P xs = None"
  by (simp add: find_None_iff)

lemma strnstr_loop_find:
  assumes t: "0 \<notin> set t" and s: "needle \<noteq> []" "0 \<notin> set needle" and i: "i \<le> length t"
  shows "strnstr_loop (t @ 0 # rest) i len (hd needle) (needle @ r2) (length needle - 1) =
    Some (find (\<lambda>k. is_match (\<lambda>c. c) needle (drop k (take (i + len) t))) [i..<min (i + len) (length t)])"
  using i
proof (induction len arbitrary: i)
  case (Suc len)
  let ?m = "t @ 0 # rest" and ?P = "\<lambda>k. is_match (\<lambda>c. c) needle (drop k (take (i + Suc len) t))"
  show ?case
  proof (cases "i = length t")
    case True
    then show ?thesis by (simp add: rd_def nth_append)
  next
    case False
    then have i: "i < length t" "i < length ?m" "i < min (i + Suc len) (length t)" using Suc.prems by auto
    have nz: "?m ! i \<noteq> 0" using t i by (metis nth_append nth_mem)
    have IH: "strnstr_loop ?m (i + 1) len (hd needle) (needle @ r2) (length needle - 1) =
        Some (find ?P [Suc i..<min (i + Suc len) (length t)])"
      using Suc.IH [of "i + 1"] i by simp
    have "0 \<in> set (drop (Suc i) ?m)" using i by simp
    then obtain d where d: "ngx_strncmp ?m (i + 1) (needle @ r2) 1 (length needle - 1) = Some d"
      "?m ! i = hd needle \<Longrightarrow> (d = 0 \<longleftrightarrow> is_match (\<lambda>c. c) needle (drop i t))"
      using exact.strn_cmp_needle [OF s, of i ?m r2] i exact.is_match_nul [OF s(2), of i t rest]
      by (auto simp: ngx_strncmp_def)
    have hd: "\<not> ?P i" if "?m ! i \<noteq> hd needle"
      using exact.not_match_hd [of i "take (i + Suc len) t" needle] s(1) that i by (simp add: nth_append)
    have short: "\<not> ?P k" if "len < length needle - 1" "i \<le> k" for k
      using that by (auto simp: is_match_def)
    have long: "?P i \<longleftrightarrow> is_match (\<lambda>c. c) needle (drop i t)" if "\<not> len < length needle - 1"
      using that s(1) by (intro take_drop_match) (cases needle; simp)
    have none: "find ?P [i..<min (i + Suc len) (length t)] = None" if "len < length needle - 1"
      using short [OF that] by (intro find_none) simp
    show ?thesis
    proof (cases "?m ! i = hd needle \<and> len < length needle - 1")
      case True
      then show ?thesis using none nz i by (simp add: rd_def)
    next
      case False
      then show ?thesis using d nz i IH hd long by (subst find_upt [OF i(3)]) (auto simp: rd_def)
    qed
  qed
qed simp

lemma strlcasestrn_loop_find:
  assumes s: "needle \<noteq> []" "0 \<notin> set needle" and last: "stop \<le> length m"
  shows "strlcasestrn_loop m i (int stop - int (length needle - 1)) (ngx_tolower (hd needle)) (needle @ r2) (length needle - 1) =
    Some (find (\<lambda>k. is_match ngx_tolower needle (drop k m)) [i..<stop - (length needle - 1)])"
proof (induction "stop - (length needle - 1) - i" arbitrary: i)
  case 0
  then show ?case by (subst strlcasestrn_loop.simps) auto
next
  case (Suc x)
  let ?n = "length needle - 1"
  have i: "i < stop - ?n" "i < length m" "i + length needle \<le> length m" using Suc.hyps(2) last s(1) by (cases needle; auto)+
  have IH: "strlcasestrn_loop m (i + 1) (int stop - int ?n) (ngx_tolower (hd needle)) (needle @ r2) ?n =
      Some (find (\<lambda>k. is_match ngx_tolower needle (drop k m)) [Suc i..<stop - ?n])"
    using Suc.hyps(1) [of "i + 1"] Suc.hyps(2) by simp
  obtain d where d: "ngx_strncasecmp m (i + 1) (needle @ r2) 1 ?n = Some d"
    "ngx_tolower (m ! i) = ngx_tolower (hd needle) \<Longrightarrow> (d = 0 \<longleftrightarrow> is_match ngx_tolower needle (drop i m))"
    using folded.strn_cmp_needle [OF s, of i m r2] i by (auto simp: ngx_strncasecmp_def)
  have "\<not> int stop - int ?n \<le> int i" using i(1) by auto
  then show ?case
    using d i(2) IH folded.not_match_hd [OF i(2) s(1)]
    by (subst strlcasestrn_loop.simps, subst find_upt [OF i(1)]) (auto simp: rd_def)
qed

lemma ngx_strlcasestrn_find:
  assumes "needle \<noteq> []" "0 \<notin> set needle" "stop \<le> length m"
  shows "ngx_strlcasestrn m i stop (needle @ r2) (length needle - 1) =
    Some (find (\<lambda>k. is_match ngx_tolower needle (drop k m)) [i..<stop - (length needle - 1)])"
  using strlcasestrn_loop_find [OF assms, of i r2] assms(1)
  by (cases needle) (simp_all add: ngx_strlcasestrn_def rd_def)

text \<open>The first byte of the pattern in \<open>ngx_strcasestrn\<close>.\<close>

abbreviation (input) signed_lower :: "byte \<Rightarrow> ngx_uint_t" where
  "signed_lower c \<equiv> (let c2 = scast c in if 0x41 \<le> c2 \<and> c2 \<le> 0x5a then c2 OR 0x20 else c2)"

lemma signed_lower_ascii:
  assumes "c < 0x80"
  shows "signed_lower c = ucast (ngx_tolower c)"
proof -
  have "uint c < 2 ^ 7" using assms by (simp add: word_less_def)
  moreover have "0 \<le> uint c" by simp
  ultimately have "signed_take_bit 7 (uint c) = uint c" by (intro signed_take_bit_int_eq_self) linarith+
  then have "sint c = uint c" by (simp add: sint_uint)
  then have s: "(scast c :: ngx_uint_t) = ucast c" by (simp add: scast_eq)
  have "unat c < 256" using unsigned_less [of c, where ?'a = nat] by simp
  then have u: "unat (ucast c :: ngx_uint_t) = unat c" by (simp add: unsigned_ucast_eq take_bit_nat_eq_self)
  have "0x41 \<le> (ucast c :: ngx_uint_t) \<longleftrightarrow> 0x41 \<le> c" "(ucast c :: ngx_uint_t) \<le> 0x5a \<longleftrightarrow> c \<le> 0x5a"
    unfolding word_le_nat_alt u by simp_all
  moreover have "(ucast (c OR 0x20) :: ngx_uint_t) = ucast c OR 0x20" by (simp add: unsigned_or_eq)
  ultimately show ?thesis unfolding s by (simp add: ngx_tolower_def byte_simps Let_def)
qed

lemma signed_lower_high:
  assumes "\<not> c < 0x80"
  shows "ucast (d :: byte) \<noteq> signed_lower c"
proof -
  have "128 \<le> unat c" "unat c < 256" using assms unsigned_less [of c] by (simp_all add: word_less_nat_alt not_less)
  then have "unat c div 128 = 1" by (intro div_nat_eqI) simp_all
  then have "bit (unat c) 7" by (simp add: bit_iff_odd)
  then have "bit c 7" by (simp add: bit_unsigned_iff)
  then have "bit (scast c :: ngx_uint_t) 8" by (simp add: bit_signed_iff)
  then have "bit (signed_lower c) 8" by (simp add: Let_def bit_or_iff)
  moreover have "\<not> bit (ucast d :: ngx_uint_t) 8" using bit_imp_le_length [of d 8] by (auto simp: bit_unsigned_iff)
  ultimately show ?thesis by metis
qed

text \<open>
  C26: The search functions. For a text without NUL that is followed by one, and a pattern without NUL, \<open>ngx_strstrn\<close>,
  \<open>ngx_strcasestrn\<close> and \<open>ngx_strnstr\<close> return the first position at which the pattern occurs in the text (in the first
  \<open>len\<close> bytes of it), NULL when there is none, and do not read behind the NUL; \<open>ngx_strlcasestrn\<close> does so for
  a region with an end instead of a NUL. A pattern whose first byte is not ASCII is never found by \<open>ngx_strcasestrn\<close>, which extends that byte with its sign.
\<close>
theorem ngx_string_search_first:
  assumes t: "0 \<notin> set t" and s: "needle \<noteq> []" "0 \<notin> set needle" and m: "stop \<le> length m"
  shows "ngx_strstrn (t @ 0 # r1) (needle @ 0 # r2) (length needle - 1) =
      Some (find (\<lambda>k. is_match (\<lambda>c. c) needle (drop k t)) [0..<length t]) \<and>
    ngx_strcasestrn (t @ 0 # r1) (needle @ 0 # r2) (length needle - 1) =
      Some (if hd needle < 0x80 then find (\<lambda>k. is_match ngx_tolower needle (drop k t)) [0..<length t] else None) \<and>
    ngx_strnstr (t @ 0 # r1) (needle @ 0 # r2) len =
      Some (find (\<lambda>k. is_match (\<lambda>c. c) needle (drop k (take len t))) [0..<min len (length t)]) \<and>
    ngx_strlcasestrn m i stop (needle @ 0 # r2) (length needle - 1) =
      Some (find (\<lambda>k. is_match ngx_tolower needle (drop k m)) [i..<stop - (length needle - 1)])"
proof -
  have hd: "rd (needle @ 0 # r2) 0 = Some (hd needle)" using s(1) by (cases needle) (simp_all add: rd_def)
  have 1: "ngx_strstrn (t @ 0 # r1) (needle @ 0 # r2) (length needle - 1) =
      Some (find (\<lambda>k. is_match (\<lambda>c. c) needle (drop k t)) [0..<length t])"
    using exact.strn_loop_find [OF t s, of 0 r1 "0 # r2"] hd by (simp add: ngx_strstrn_def)
  have run: "ngx_strcasestrn (t @ 0 # r1) (needle @ 0 # r2) (length needle - 1) =
      strn_loop ngx_tolower (t @ 0 # r1) 0 (signed_lower (hd needle)) (needle @ 0 # r2) (length needle - 1)"
    using hd by (simp add: ngx_strcasestrn_def Let_def)
  have 2: "ngx_strcasestrn (t @ 0 # r1) (needle @ 0 # r2) (length needle - 1) =
      Some (if hd needle < 0x80 then find (\<lambda>k. is_match ngx_tolower needle (drop k t)) [0..<length t] else None)"
  proof (cases "hd needle < 0x80")
    case True
    then show ?thesis unfolding run signed_lower_ascii [OF True] using folded.strn_loop_find [OF t s, of 0 r1 "0 # r2"] by simp
  next
    case False
    then show ?thesis unfolding run using folded.strn_loop_never [OF t signed_lower_high [OF False]] by simp
  qed
  obtain c p where n: "needle = c # p" using s(1) by (cases needle) auto
  have "c_strlen (needle @ 0 # r2) 1 = Some (length needle - 1)"
    using c_strlen_eq [of p "[c]" r2] n s(2) by simp
  then have 3: "ngx_strnstr (t @ 0 # r1) (needle @ 0 # r2) len =
      Some (find (\<lambda>k. is_match (\<lambda>c. c) needle (drop k (take len t))) [0..<min len (length t)])"
    using strnstr_loop_find [OF t s, of 0 r1 len "0 # r2"] hd by (simp add: ngx_strnstr_def)
  have 4: "ngx_strlcasestrn m i stop (needle @ 0 # r2) (length needle - 1) =
      Some (find (\<lambda>k. is_match ngx_tolower needle (drop k m)) [i..<stop - (length needle - 1)])"
    by (rule ngx_strlcasestrn_find [OF s m])
  from 1 2 3 4 show ?thesis by blast
qed

theorem ngx_string_search_first_witness:
  "ngx_strcasestrn (bytes ''a Cd'' @ [0]) (bytes ''cD'' @ [0]) 1 = Some (Some 2)"
proof -
  have p: "0 \<notin> set (bytes ''a Cd'')" "bytes ''cD'' \<noteq> []" "0 \<notin> set (bytes ''cD'')" "0 \<le> length ([] :: byte list)"
    by (simp_all add: byte_simps)
  have "find (\<lambda>k. is_match ngx_tolower (bytes ''cD'') (drop k (bytes ''a Cd''))) [0..<length (bytes ''a Cd'')] = Some 2"
    by (simp add: upt_rec is_match_def ngx_tolower_def byte_simps)
  moreover have "length (bytes ''cD'') - 1 = 1" "hd (bytes ''cD'') < 0x80" by (simp_all add: byte_simps)
  ultimately show ?thesis
    using ngx_string_search_first [OF p, THEN conjunct2, THEN conjunct1, of "[]" "[]"] by argo
qed

end
