(* ===== verification/Ngx_Http_Args.thy ===== *)
theory Ngx_Http_Args
  imports Ngx_String_Search
begin

text \<open>
  \<open>ngx_http_arg\<close> and \<open>ngx_http_split_args\<close> of src/http/ngx_http_parse.c: the value of an argument of the request, and
  the arguments of a URI. Pointers are indices into the memory of the arguments or of the URI.
\<close>

section \<open>ngx\_http\_arg\<close>

lemma strlcasestrn_loop_ge: "strlcasestrn_loop s1 i stop c2 s2 n = Some (Some q) \<Longrightarrow> i \<le> q"
proof (induction s1 i stop c2 s2 n rule: strlcasestrn_loop.induct)
  case (1 s1 i stop c2 s2 n)
  then show ?case
    by (subst (asm) strlcasestrn_loop.simps) (auto split: if_splits option.splits dest: Suc_leD)
qed

lemma ngx_strlcasestrn_ge: "ngx_strlcasestrn s1 i stop s2 n = Some (Some q) \<Longrightarrow> i \<le> q"
  by (auto simp: ngx_strlcasestrn_def bind_eq_Some_conv dest: strlcasestrn_loop_ge)

text \<open>The loop; \<open>args\<close> is the memory from \<open>r->args.data\<close> to the end of the arguments.\<close>

function arg_loop :: "byte list \<Rightarrow> byte list \<Rightarrow> nat \<Rightarrow> nat \<Rightarrow> (ngx_int_t \<times> (nat \<times> int) option) option" where
  "arg_loop args name len p =
     (if p < length args then
        (case ngx_strlcasestrn args p (length args - 1) name (len - 1) of
           None \<Rightarrow> None
         | Some None \<Rightarrow> Some (NGX_DECLINED, None)
         | Some (Some q) \<Rightarrow> do {
             first \<leftarrow> (if q = 0 then Some True else do { c \<leftarrow> rd args (q - 1); Some (c = ch CHR ''&'') });
             found \<leftarrow> (if first then do { c \<leftarrow> rd args (q + len); Some (c = ch CHR ''='') } else Some False);
             (if found then do {
                e \<leftarrow> ngx_strlchr args q (length args) (ch CHR ''&'');
                let e = (case e of None \<Rightarrow> length args | Some e \<Rightarrow> e);
                Some (NGX_OK, Some (q + len + 1, int e - int (q + len + 1)))
              }
              else arg_loop args name len (q + 1))
           })
      else Some (NGX_DECLINED, None))"
  by pat_completeness auto
termination
  by (relation "measure (\<lambda>(args, name, len, p). length args - p)") (auto dest: ngx_strlcasestrn_ge)

declare arg_loop.simps [simp del]

definition ngx_http_arg :: "byte list \<Rightarrow> byte list \<Rightarrow> nat \<Rightarrow> (ngx_int_t \<times> (nat \<times> int) option) option" where
  "ngx_http_arg args name len =
     (if length args = 0 then Some (NGX_DECLINED, None) else arg_loop args name len 0)"

section \<open>ngx\_http\_split\_args\<close>

text \<open>The length of the URI, and the arguments (position and length; none is a length of 0).\<close>

definition ngx_http_split_args :: "byte list \<Rightarrow> nat \<Rightarrow> (nat \<times> (nat \<times> nat) option) option" where
  "ngx_http_split_args uri len = do {
     p \<leftarrow> ngx_strlchr uri 0 len (ch CHR ''?'');
     (case p of Some p \<Rightarrow> Some (p, Some (p + 1, len - (p + 1))) | None \<Rightarrow> Some (len, None))
   }"

section \<open>Correctness\<close>

lemma ngx_strlchr_find:
  "stop \<le> length m \<Longrightarrow> ngx_strlchr m p stop c = Some (find (\<lambda>k. m ! k = c) [p..<stop])"
proof (induction m p stop c rule: ngx_strlchr.induct)
  case (1 m p stop c)
  then show ?case by (subst ngx_strlchr.simps) (auto simp: find_upt rd_def)
qed

lemma find_skip: "p \<le> q \<Longrightarrow> q \<le> j \<Longrightarrow> (\<And>k. p \<le> k \<Longrightarrow> k < q \<Longrightarrow> \<not> P k) \<Longrightarrow> find P [p..<j] = find P [q..<j]"
proof (induction "q - p" arbitrary: p)
  case (Suc x)
  then have "p < j" "\<not> P p" by auto
  then show ?case using Suc by (simp add: find_upt)
qed simp

lemma find_Some_upt: "find P [p..<j] = Some q \<Longrightarrow> p \<le> q \<and> q < j \<and> P q \<and> (\<forall>k. p \<le> k \<longrightarrow> k < q \<longrightarrow> \<not> P k)"
proof -
  assume "find P [p..<j] = Some q"
  then obtain i where i: "i < j - p" "P (p + i)" "q = p + i" "\<forall>k<i. \<not> P ([p..<j] ! k)"
    by (auto simp: find_Some_iff)
  have "\<not> P k" if "p \<le> k" "k < q" for k
    using i(1,3) that i(4) [rule_format, of "k - p"] by simp
  then show ?thesis using i by auto
qed

lemma find_None_upt: "find P [p..<j] = None \<Longrightarrow> p \<le> k \<Longrightarrow> k < j \<Longrightarrow> \<not> P k"
  by (simp add: find_None_iff)

lemma find_byte_takeWhile:
  "a \<le> length m \<Longrightarrow>
   (case find (\<lambda>k. m ! k = c) [a..<length m] of None \<Rightarrow> length m | Some e \<Rightarrow> e) = a + length (takeWhile (\<lambda>d. d \<noteq> c) (drop a m))"
proof (induction "length m - a" arbitrary: a)
  case (Suc x)
  then have "a < length m" by simp
  then show ?case using Suc by (auto simp: find_upt drop_nth)
qed simp

text \<open>An argument of that name: at the start or behind an ampersand, and followed by an equals sign.\<close>

definition arg_at :: "byte list \<Rightarrow> byte list \<Rightarrow> nat \<Rightarrow> bool" where
  "arg_at args name k \<longleftrightarrow> (k = 0 \<or> args ! (k - 1) = ch CHR ''&'') \<and> is_match ngx_tolower name (drop k args) \<and>
     k + length name < length args \<and> args ! (k + length name) = ch CHR ''=''"

definition arg_value :: "byte list \<Rightarrow> nat \<Rightarrow> byte list" where
  "arg_value args k = takeWhile (\<lambda>c. c \<noteq> ch CHR ''&'') (drop k args)"

lemma tolower_amp: "ngx_tolower c = ngx_tolower d \<Longrightarrow> d \<noteq> ch CHR ''&'' \<Longrightarrow> c \<noteq> ch CHR ''&''"
proof
  assume a: "ngx_tolower c = ngx_tolower d" "d \<noteq> ch CHR ''&''" "c = ch CHR ''&''"
  have "d \<le> d OR 0x20" by (rule le_word_or2)
  moreover have "\<not> (65 \<le> d \<and> d \<le> 38)" by (auto dest: order_trans [of 65 d 38])
  ultimately show False using a by (auto simp: ngx_tolower_def byte_simps split: if_splits)
qed

lemma match_no_amp:
  assumes "is_match ngx_tolower name (drop q args)" "ch CHR ''&'' \<notin> set name" "q \<le> k" "k < q + length name"
  shows "args ! k \<noteq> ch CHR ''&''"
proof -
  have "map ngx_tolower (take (length name) (drop q args)) ! (k - q) = map ngx_tolower name ! (k - q)"
    and l: "length name \<le> length args - q"
    using assms(1) by (simp_all add: is_match_def)
  then have "ngx_tolower (args ! k) = ngx_tolower (name ! (k - q))" using assms(3,4) by simp
  moreover have "name ! (k - q) \<noteq> ch CHR ''&''" using assms(2-4) nth_mem [of "k - q" name] by force
  ultimately show ?thesis by (rule tolower_amp)
qed

lemma arg_loop_spec:
  assumes name: "name \<noteq> []" "0 \<notin> set name" "ch CHR ''&'' \<notin> set name"
  shows "p \<le> length args \<Longrightarrow> arg_loop args (name @ rest) (length name) p =
    Some (case find (arg_at args name) [p..<length args] of
            None \<Rightarrow> (NGX_DECLINED, None)
          | Some k \<Rightarrow> (NGX_OK, Some (k + length name + 1, int (length (arg_value args (k + length name + 1))))))"
proof (induction "length args - p" arbitrary: p rule: less_induct)
  case less
  let ?len = "length name" and ?P = "\<lambda>k. is_match ngx_tolower name (drop k args)"
  have srch: "ngx_strlcasestrn args p (length args - 1) (name @ rest) (?len - 1) =
      Some (find ?P [p..<length args - ?len])"
    using ngx_strlcasestrn_find [OF name(1,2), of "length args - 1" args p rest] name(1) by (cases name) simp_all
  have at: "arg_at args name k \<Longrightarrow> ?P k \<and> k < length args - ?len" for k by (auto simp: arg_at_def)
  show ?case
  proof (cases "p < length args")
    case False
    then show ?thesis by (subst arg_loop.simps) simp
  next
    case True
    show ?thesis
    proof (cases "find ?P [p..<length args - ?len]")
      case None
      then have "find (arg_at args name) [p..<length args] = None"
        using find_None_upt [OF None] at by (intro find_none) auto
      then show ?thesis using True None srch by (subst arg_loop.simps) simp
    next
      case (Some q)
      note q = find_Some_upt [OF Some]
      have skip: "find (arg_at args name) [p..<length args] = find (arg_at args name) [q..<length args]"
        using q at by (intro find_skip) auto
      have "q < length args" using q by linarith
      then have skip': "find (arg_at args name) [p..<length args] =
          (if arg_at args name q then Some q else find (arg_at args name) [Suc q..<length args])"
        unfolding skip by (rule find_upt)
      have lq: "q + ?len < length args" using q by auto
      have IH: "arg_loop args (name @ rest) ?len (q + 1) =
          Some (case find (arg_at args name) [Suc q..<length args] of
            None \<Rightarrow> (NGX_DECLINED, None)
          | Some k \<Rightarrow> (NGX_OK, Some (k + ?len + 1, int (length (arg_value args (k + ?len + 1))))))"
        using less.hyps [of "q + 1"] \<open>q < length args\<close> diff_less_mono2 [of p "q + 1" "length args"] q True by simp
      have run: "arg_loop args (name @ rest) ?len p =
          (if arg_at args name q then
             Some (NGX_OK, Some (q + ?len + 1,
               int (case find (\<lambda>k. args ! k = ch CHR ''&'') [q..<length args] of None \<Rightarrow> length args | Some e \<Rightarrow> e) - int (q + ?len + 1)))
           else arg_loop args (name @ rest) ?len (q + 1))"
        using True Some srch q lq by (subst arg_loop.simps) (auto simp: arg_at_def rd_def ngx_strlchr_find Let_def)
      show ?thesis
      proof (cases "arg_at args name q")
        case False
        then show ?thesis using run IH skip' by simp
      next
        case atq: True
        have "args ! (q + ?len) \<noteq> ch CHR ''&''" using atq by (simp add: arg_at_def byte_simps)
        then have "find (\<lambda>k. args ! k = ch CHR ''&'') [q..<length args] =
            find (\<lambda>k. args ! k = ch CHR ''&'') [q + ?len + 1..<length args]"
          using match_no_amp [of name q args] atq name(3) lq
          by (intro find_skip) (auto simp: arg_at_def less_Suc_eq)
        then show ?thesis
          using run skip' atq find_byte_takeWhile [of "q + ?len + 1" args "ch CHR ''&''"] lq
          by (simp add: arg_value_def)
      qed
    qed
  qed
qed

text \<open>
  C25: \<open>ngx_http_arg\<close> reads only the arguments. For a name without NUL and ampersand it finds the first argument
  of that name, upper and lower case alike: a match at the start or behind an ampersand and in front of an equals
  sign. The value ends in front of the next ampersand or with the arguments. NGX\_DECLINED says that there is none.
\<close>
theorem ngx_http_arg_first:
  assumes "name \<noteq> []" "0 \<notin> set name" "ch CHR ''&'' \<notin> set name"
  shows "ngx_http_arg args (name @ rest) (length name) =
    Some (case find (arg_at args name) [0..<length args] of
            None \<Rightarrow> (NGX_DECLINED, None)
          | Some k \<Rightarrow> (NGX_OK, Some (k + length name + 1, int (length (arg_value args (k + length name + 1))))))"
  using arg_loop_spec [OF assms, of 0 args rest] by (simp add: ngx_http_arg_def)

theorem ngx_http_arg_first_witness:
  "ngx_http_arg (bytes ''xa=1&A=23&c'') (bytes ''a'') 1 = Some (NGX_OK, Some (7, 2))"
proof -
  have "bytes ''a'' \<noteq> []" "0 \<notin> set (bytes ''a'')" "ch CHR ''&'' \<notin> set (bytes ''a'')" by (simp_all add: byte_simps)
  note th = ngx_http_arg_first [OF this, of "bytes ''xa=1&A=23&c''" "[]"]
  have "find (arg_at (bytes ''xa=1&A=23&c'') (bytes ''a'')) [0..<length (bytes ''xa=1&A=23&c'')] = Some 5"
    by code_simp
  moreover have "length (arg_value (bytes ''xa=1&A=23&c'') (5 + length (bytes ''a'') + 1)) = 2" by code_simp
  ultimately show ?thesis using th by simp
qed

end
