(* ===== verification/Ngx_Http_Complex_Uri_Resolve.thy ===== *)
theory Ngx_Http_Complex_Uri_Resolve
  imports Ngx_Http_Complex_Uri_Safe
begin

text \<open>
  What \<open>ngx_http_parse_complex_uri\<close> computes: the path is read as a sequence of plain bytes and escapes,
  the decoded bytes are cut into segments, and dot segments are resolved on a stack of segments.
\<close>

section \<open>The specification\<close>

definition is_hex :: "byte \<Rightarrow> bool" where
  "is_hex c \<longleftrightarrow> is_digit c \<or> ch CHR ''a'' \<le> c OR 0x20 \<and> c OR 0x20 \<le> ch CHR ''f''"

definition hexb :: "byte \<Rightarrow> byte" where
  "hexb c = (if is_digit c then c - ch CHR ''0'' else (c OR 0x20) - ch CHR ''a'' + 10)"

datatype tok = Plain byte | Escape byte byte

fun tok_bytes :: "tok \<Rightarrow> byte list" where
  "tok_bytes (Plain c) = [c]"
| "tok_bytes (Escape h l) = [ch CHR ''%'', h, l]"

fun tok_value :: "tok \<Rightarrow> byte" where
  "tok_value (Plain c) = c"
| "tok_value (Escape h l) = push_bit 4 (hexb h) + hexb l"

fun tok_ok :: "tok \<Rightarrow> bool" where
  "tok_ok (Plain c) \<longleftrightarrow> c \<notin> set (bytes ''%?#'')"
| "tok_ok (Escape h l) \<longleftrightarrow> is_hex h \<and> is_hex l \<and> tok_value (Escape h l) \<noteq> 0"

text \<open>
  \<open>resolve acc ss\<close>: the closed segments \<open>ss\<close> behind the stack \<open>acc\<close> (its head is the last segment);
  \<open>None\<close> where a double dot would leave the root.
\<close>

fun resolve :: "byte list list \<Rightarrow> byte list list \<Rightarrow> byte list list option" where
  "resolve acc [] = Some (rev acc)"
| "resolve acc (s # ss) =
     (if s = [] \<or> s = dot_seg then resolve acc ss
      else if s = dot_dot_seg then (case acc of [] \<Rightarrow> None | _ # acc' \<Rightarrow> resolve acc' ss)
      else resolve (s # acc) ss)"

section \<open>Hexadecimal digits\<close>

lemma hexb_small:
  "is_digit c \<Longrightarrow> unat (hexb c) < 10"
  "is_hex c \<Longrightarrow> \<not> is_digit c \<Longrightarrow> 10 \<le> unat (hexb c) \<and> unat (hexb c) < 16"
proof -
  show "unat (hexb c) < 10" if "is_digit c"
  proof -
    have "48 \<le> c" "c \<le> 57" using that by (simp_all add: byte_simps)
    then have "unat (c - 48) = unat c - 48" "unat c \<le> 57" by (simp_all add: unat_sub word_le_nat_alt)
    then show ?thesis using that by (simp add: hexb_def byte_simps)
  qed
  show "10 \<le> unat (hexb c) \<and> unat (hexb c) < 16" if "is_hex c" "\<not> is_digit c"
  proof -
    let ?d = "c OR 0x20"
    have d: "97 \<le> unat ?d" "unat ?d \<le> 102" using that unfolding is_hex_def by (auto simp: word_le_nat_alt ch_def)
    have e: "hexb c = ?d - 87" using that(2) by (auto simp: hexb_def ch_def)
    have "unat (?d - 87) = unat ?d - 87" using d by (subst unat_sub) (simp_all add: word_le_nat_alt)
    then show ?thesis using d unfolding e by linarith
  qed
qed

lemma low_nibble:
  assumes "unat x < 16"
  shows "take_bit 4 (push_bit 4 d + x) = (x :: byte)"
proof -
  have "unat (push_bit 4 d) = unat d * 16 mod 256"
    by (simp add: unsigned_push_bit_eq push_bit_nat_def take_bit_nat_def)
  then have "unat (push_bit 4 d + x) = (unat d * 16 mod 256 + unat x) mod 256" by (simp add: unat_word_ariths)
  then have "unat (take_bit 4 (push_bit 4 d + x)) = (unat d * 16 mod 256 + unat x) mod 256 mod 16"
    by (simp add: unsigned_take_bit_eq take_bit_nat_def)
  also have "\<dots> = (unat d * 16 + unat x) mod 16" by (simp add: mod_mod_cancel mod_simps)
  finally have "unat (take_bit 4 (push_bit 4 d + x)) = unat x" using assms by simp
  then show ?thesis by (simp add: word_unat_eq_iff)
qed

lemma escape_digit: "is_digit l \<Longrightarrow> push_bit 4 d + hexb l \<noteq> ch CHR ''?''"
proof
  assume d: "is_digit l" and e: "push_bit 4 d + hexb l = ch CHR ''?''"
  then have "hexb l = take_bit 4 (ch CHR ''?'')" using low_nibble [of "hexb l" d] hexb_small(1) by force
  then show False using hexb_small(1) [OF d] by (simp add: byte_simps)
qed

lemma escape_letter:
  "is_hex l \<Longrightarrow> \<not> is_digit l \<Longrightarrow> push_bit 4 d + hexb l \<noteq> ch CHR ''%'' \<and> push_bit 4 d + hexb l \<noteq> ch CHR ''#''"
proof -
  assume h: "is_hex l" "\<not> is_digit l"
  then have "take_bit 4 (push_bit 4 d + hexb l) = hexb l" "10 \<le> unat (hexb l)"
    using low_nibble [of "hexb l" d] hexb_small(2) by auto
  moreover have "unat (take_bit 4 (ch CHR ''%'')) < 10" "unat (take_bit 4 (ch CHR ''#'')) < 10"
    by (simp_all add: byte_simps)
  ultimately show ?thesis by (metis leD)
qed

section \<open>The output\<close>

definition st_of :: "byte list \<Rightarrow> cu_state" where
  "st_of t = (if t = [] then sw_slash else if t = dot_seg then sw_dot else if t = dot_dot_seg then sw_dot_dot else sw_usual)"

definition cu_holds :: "byte list list \<Rightarrow> byte list \<Rightarrow> nat \<Rightarrow> cu \<Rightarrow> bool" where
  "cu_holds acc t room s \<longleftrightarrow>
     cu_u s = int (length (enc_path (rev acc) t)) \<and> length (enc_path (rev acc) t) + room \<le> length (cu_out s) \<and>
     take (length (enc_path (rev acc) t)) (cu_out s) = enc_path (rev acc) t"

definition sim :: "byte list \<Rightarrow> byte list list \<Rightarrow> byte list \<Rightarrow> nat \<Rightarrow> nat \<Rightarrow> cu \<Rightarrow> bool" where
  "sim buf acc t p room s \<longleftrightarrow>
     cu_p s = Suc p \<and> cu_ch s = buf ! p \<and> cu_state s = st_of t \<and> cu_holds acc t room s"

lemma holds_put:
  assumes "cu_holds acc t (Suc room) s" "cu_p s < length buf" "cu_state s' = st_of t'" "enc_path (rev acc') t' = enc_path (rev acc) t @ [c]"
    "cu_u s' = cu_u s" "cu_out s' = cu_out s" "cu_p s' = cu_p s"
  shows "\<exists>s2. cu_put_next buf c s' = Some (Cont s2) \<and> sim buf acc' t' (cu_p s) room s2"
proof -
  let ?w = "enc_path (rev acc) t"
  let ?s = "s'\<lparr>cu_out := (cu_out s)[length ?w := c], cu_u := cu_u s + 1, cu_ch := buf ! cu_p s, cu_p := cu_p s + 1\<rparr>"
  have w: "length ?w < length (cu_out s)" "take (length ?w) (cu_out s) = ?w" "cu_u s = int (length ?w)"
    using assms(1) by (auto simp: cu_holds_def)
  have "take (Suc (length ?w)) ((cu_out s)[length ?w := c]) = ?w @ [c]"
    using w by (simp add: take_Suc_conv_app_nth)
  then have "sim buf acc' t' (cu_p s) room ?s"
    using assms w(3) unfolding sim_def cu_holds_def by simp
  moreover have "cu_put_next buf c s' = Some (Cont ?s)"
    using assms w by (simp add: cu_put_next_def cu_put_def cu_next_def)
  ultimately show ?thesis by blast
qed

lemma holds_back:
  assumes "cu_holds acc t (Suc room) s" "cu_p s < length buf" "cu_state s' = sw_slash"
    "enc_path (rev acc) t = enc_path (rev acc') [] @ ys" "cu_u s' = int (length (enc_path (rev acc') []))"
    "cu_out s' = cu_out s" "cu_p s' = cu_p s"
  shows "\<exists>s2. cu_go buf s' = Some (Cont s2) \<and> sim buf acc' [] (cu_p s) room s2"
proof -
  let ?w = "enc_path (rev acc') []"
  have "take (length ?w) (take (length ?w + length ys) (cu_out s)) = ?w"
    using assms(1,4) by (simp add: cu_holds_def)
  then have "take (length ?w) (cu_out s) = ?w" by (simp add: min_def)
  then have "sim buf acc' [] (cu_p s) room (s'\<lparr>cu_ch := buf ! cu_p s, cu_p := cu_p s + 1\<rparr>)"
    using assms unfolding sim_def cu_holds_def by (auto simp: st_of_def)
  then show ?thesis using assms by (auto simp: cu_go_def cu_next_def)
qed

section \<open>One byte\<close>

lemma dot_segs_neq: "dot_seg \<noteq> []" "dot_dot_seg \<noteq> []" "dot_dot_seg \<noteq> dot_seg" "dot_seg \<noteq> dot_dot_seg"
  by (simp_all add: dot_segs)

lemma st_of_append:
  "c \<noteq> ch CHR ''.'' \<Longrightarrow> st_of (t @ [c]) = sw_usual"
  "t \<noteq> [] \<Longrightarrow> t \<noteq> dot_seg \<Longrightarrow> st_of (t @ [c]) = sw_usual"
  "st_of [ch CHR ''.''] = sw_dot" "st_of (dot_seg @ [ch CHR ''.'']) = sw_dot_dot" "st_of (dot_dot_seg @ [c]) = sw_usual"
  by (cases t rule: rev_cases, auto simp: st_of_def dot_segs)+

lemma step_put_eq:
  assumes s: "cu_state s = st_of t"
    and c: "cu_ch s = c" "c \<notin> set (bytes ''%?#'')" "c \<noteq> ch CHR ''/''"
  shows "\<exists>s'. cu_step m buf s = cu_put_next buf c s' \<and> cu_state s' = st_of (t @ [c]) \<and>
    cu_u s' = cu_u s \<and> cu_out s' = cu_out s \<and> cu_p s' = cu_p s"
proof -
  have c': "c \<noteq> ch CHR ''%''" "c \<noteq> ch CHR ''?''" "c \<noteq> ch CHR ''#''" using c(2) by (auto simp: bytes_def)
  note defs = cu_step_def cu_usual_def cu_slash_def cu_dot_def cu_dot_dot_def Let_def
  consider "t = []" | "t = dot_seg" | "t = dot_dot_seg" | "t \<noteq> []" "t \<noteq> dot_seg" "t \<noteq> dot_dot_seg" by blast
  then show ?thesis
  proof cases
    case 1
    then have "cu_state s = sw_slash" "st_of (t @ [c]) = (if c = ch CHR ''.'' then sw_dot else sw_usual)"
      using s by (auto simp: st_of_def dot_segs)
    then show ?thesis using c c' usual_not [of c] by (auto simp: defs)
  next
    case 2
    then have "cu_state s = sw_dot" "st_of (t @ [c]) = (if c = ch CHR ''.'' then sw_dot_dot else sw_usual)"
      using s by (auto simp: st_of_def dot_segs)
    then show ?thesis using c c' usual_not [of c] by (auto simp: defs)
  next
    case 3
    then have "cu_state s = sw_dot_dot" "st_of (t @ [c]) = sw_usual" using s by (auto simp: st_of_def dot_segs)
    then show ?thesis using c c' usual_not [of c] by (auto simp: defs)
  next
    case 4
    then have "cu_state s = sw_usual" "st_of (t @ [c]) = sw_usual" using s st_of_append(2) by (auto simp: st_of_def)
    then show ?thesis using c c' usual_not [of c] by (auto simp: defs)
  qed
qed

lemma step_put:
  assumes s: "cu_state s = st_of t" "cu_holds acc t (Suc room) s" "cu_p s < length buf"
    and c: "cu_ch s = c" "c \<notin> set (bytes ''%?#'')" "c \<noteq> ch CHR ''/''"
  shows "\<exists>s2. cu_step m buf s = Some (Cont s2) \<and> sim buf acc (t @ [c]) (cu_p s) room s2"
proof -
  obtain s' where "cu_step m buf s = cu_put_next buf c s'" "cu_state s' = st_of (t @ [c])"
    "cu_u s' = cu_u s" "cu_out s' = cu_out s" "cu_p s' = cu_p s"
    using step_put_eq [OF s(1) c] by blast
  then show ?thesis using holds_put [OF s(2,3), of s' "t @ [c]" acc c] by (simp add: enc_path_append)
qed

definition close_seg :: "bool \<Rightarrow> byte list list \<Rightarrow> byte list \<Rightarrow> byte list list option" where
  "close_seg m acc t =
     (if t = [] \<and> m \<or> t = dot_seg then Some acc
      else if t = dot_dot_seg then (case acc of [] \<Rightarrow> None | _ # acc' \<Rightarrow> Some acc')
      else Some (t # acc))"

lemma enc_path_snoc: "enc_path (ss @ [s]) t = enc_path ss [] @ s @ ch CHR ''/'' # t"
  by (induction ss) auto

lemma enc_path_last: "\<exists>v. enc_path ss [] = v @ [ch CHR ''/'']"
  by (induction ss) auto

lemma cu_back_to:
  assumes "k < length out" "out ! k = ch CHR ''/''" "k \<le> n" "\<And>j. k < j \<Longrightarrow> j \<le> n \<Longrightarrow> out ! j \<noteq> ch CHR ''/''"
  shows "cu_back out (int n) = Some (int (Suc k))"
  using assms(3,4)
proof (induction "n - k" arbitrary: n)
  case 0
  then show ?case using assms by (subst cu_back.simps) simp
next
  case (Suc d)
  then have "out ! n \<noteq> ch CHR ''/''" "n \<noteq> 0" by auto
  moreover have "cu_back out (int (n - 1)) = Some (int (Suc k))" using Suc by (intro Suc(1)) auto
  ultimately show ?case using Suc by (subst cu_back.simps) (simp add: of_nat_diff)
qed

lemma cu_back_pop:
  assumes "take (length w) out = w" "w = v @ ch CHR ''/'' # a @ ys" "length ys = 3" "a \<noteq> []" "ch CHR ''/'' \<notin> set a"
    "length w \<le> length out"
  shows "cu_back out (int (length w) - 5) = Some (int (length v + 1))"
proof -
  have nth: "out ! j = w ! j" if "j < length w" for j using assms(1) that by (metis nth_take)
  have "cu_back out (int (length v + length a - 1)) = Some (int (Suc (length v)))"
  proof (rule cu_back_to)
    fix j assume j: "length v < j" "j \<le> length v + length a - 1"
    then have "w ! j \<in> set a" using assms(2,4) by (auto simp: nth_append nth_Cons split: nat.splits)
    then show "out ! j \<noteq> ch CHR ''/''" using assms j by (subst nth) auto
  next
    show "length v < length out" using assms(2,6) by simp
    show "out ! length v = ch CHR ''/''" using assms(2) by (subst nth) auto
    show "length v \<le> length v + length a - 1" using assms(4) by (cases a) auto
  qed
  moreover have "int (length w) - 5 = int (length v + length a - 1)"
    using assms(2-4) by (cases a) auto
  ultimately show ?thesis by simp
qed

lemma step_slash:
  assumes s: "cu_state s = st_of t" "cu_holds acc t (Suc room) s" "cu_p s < length buf"
    and c: "cu_ch s = ch CHR ''/''"
    and acc: "list_all (\<lambda>a. a \<noteq> [] \<and> ch CHR ''/'' \<notin> set a) acc"
  shows "case close_seg m acc t of
      None \<Rightarrow> cu_step m buf s = Some Fail
    | Some acc' \<Rightarrow> \<exists>s2. cu_step m buf s = Some (Cont s2) \<and> sim buf acc' [] (cu_p s) room s2"
proof -
  let ?slash = "ch CHR ''/''"
  have nu: "\<not> is_usual ?slash" using usual_not by blast
  have h: "cu_u s = int (length (enc_path (rev acc) t))" "length (enc_path (rev acc) t) \<le> length (cu_out s)"
    "take (length (enc_path (rev acc) t)) (cu_out s) = enc_path (rev acc) t"
    using s(2) by (auto simp: cu_holds_def)
  have put: "\<exists>s2. cu_put_next buf ?slash s' = Some (Cont s2) \<and> sim buf (t # acc) [] (cu_p s) room s2"
    if "cu_state s' = sw_slash" "cu_u s' = cu_u s" "cu_out s' = cu_out s" "cu_p s' = cu_p s" for s'
    using that by (intro holds_put [OF s(2,3)]) (simp_all add: st_of_def enc_path_close)
  consider "t = []" | "t = dot_seg" | "t = dot_dot_seg" "acc = []" | a acc' where "t = dot_dot_seg" "acc = a # acc'"
    | "t \<noteq> []" "t \<noteq> dot_seg" "t \<noteq> dot_dot_seg" by (cases acc) auto
  then show ?thesis
  proof cases
    case 1
    then have st: "cu_state s = sw_slash" using s(1) by (simp add: st_of_def)
    then have go: "\<exists>s2. cu_go buf s = Some (Cont s2) \<and> sim buf acc [] (cu_p s) room s2"
      using 1 h by (intro holds_back [OF s(2,3), of _ _ "[]"]) simp_all
    have "cu_step m buf s = (if \<not> m then cu_put_next buf ?slash s else cu_go buf s)"
      using st c nu by (simp add: cu_step_def cu_slash_def)
    then show ?thesis using go put [of s] st 1 dot_segs_neq by (cases m) (simp_all add: close_seg_def)
  next
    case 2
    then have st: "cu_state s = sw_dot" using s(1) by (simp add: st_of_def dot_segs)
    have w: "enc_path (rev acc) t = enc_path (rev acc) [] @ dot_seg" using 2 by (simp add: enc_path_append)
    have "\<exists>s2. cu_go buf (s\<lparr>cu_state := sw_slash, cu_u := cu_u s - 1\<rparr>) = Some (Cont s2) \<and> sim buf acc [] (cu_p s) room s2"
      using h(1) w by (intro holds_back [OF s(2,3), of _ _ dot_seg]) simp_all
    then show ?thesis using 2 st c nu by (simp add: cu_step_def cu_dot_def close_seg_def)
  next
    case 3
    then have st: "cu_state s = sw_dot_dot" using s(1) by (simp add: st_of_def dot_segs)
    have "cu_back (cu_out s) (cu_u s - 5) = None" using 3 h by (subst cu_back.simps) simp
    then show ?thesis using 3 st c nu by (simp add: cu_step_def cu_dot_dot_def close_seg_def dot_segs_neq)
  next
    case 4
    then have st: "cu_state s = sw_dot_dot" using s(1) by (simp add: st_of_def dot_segs)
    obtain v where v: "enc_path (rev acc') [] = v @ [?slash]" using enc_path_last by blast
    have w: "enc_path (rev acc) t = v @ ?slash # a @ (?slash # dot_dot_seg)"
      using 4 v by (simp add: enc_path_snoc)
    have "cu_back (cu_out s) (cu_u s - 5) = Some (int (length v + 1))"
      using cu_back_pop [OF h(3) w] acc 4(2) h by simp
    moreover have "\<exists>s2. cu_go buf (s\<lparr>cu_state := sw_slash, cu_u := int (length v + 1)\<rparr>) = Some (Cont s2) \<and>
        sim buf acc' [] (cu_p s) room s2"
      using w v by (intro holds_back [OF s(2,3), of _ _ "a @ ?slash # dot_dot_seg"]) simp_all
    ultimately show ?thesis using 4 st c nu by (simp add: cu_step_def cu_dot_dot_def close_seg_def dot_segs_neq)
  next
    case 5
    then have st: "cu_state s = sw_usual" using s(1) by (simp add: st_of_def)
    show ?thesis using 5 st c nu put [of "s\<lparr>cu_uri_ext := None, cu_state := sw_slash\<rparr>"]
      by (simp add: cu_step_def cu_usual_def close_seg_def)
  qed
qed

section \<open>One token\<close>

definition byte_step :: "bool \<Rightarrow> byte list list \<Rightarrow> byte list \<Rightarrow> byte \<Rightarrow> (byte list list \<times> byte list) option" where
  "byte_step m acc t c = (if c = ch CHR ''/'' then map_option (\<lambda>a. (a, [])) (close_seg m acc t) else Some (acc, t @ [c]))"

text \<open>The loop goes on from a state that simulates the result, or it ends with an error.\<close>

definition goes :: "bool \<Rightarrow> byte list \<Rightarrow> nat \<Rightarrow> nat \<Rightarrow> nat \<Rightarrow> cu \<Rightarrow> (byte list list \<times> byte list) option \<Rightarrow> bool" where
  "goes m buf ue p room s res \<longleftrightarrow>
     (case res of
        None \<Rightarrow> cu_loop m buf ue s = Some Fail
      | Some (acc, t) \<Rightarrow> \<exists>s2. cu_loop m buf ue s = cu_loop m buf ue s2 \<and> sim buf acc t p room s2)"

lemma loop_Cont: "cu_p s \<le> ue \<Longrightarrow> cu_step m buf s = Some (Cont s2) \<Longrightarrow> cu_loop m buf ue s = cu_loop m buf ue s2"
  by (subst cu_loop.simps) simp

lemma loop_Fail: "cu_p s \<le> ue \<Longrightarrow> cu_step m buf s = Some Fail \<Longrightarrow> cu_loop m buf ue s = Some Fail"
  by (subst cu_loop.simps) simp

lemma goes_Cont: "cu_p s \<le> ue \<Longrightarrow> cu_step m buf s = Some (Cont s2) \<Longrightarrow> goes m buf ue p room s2 res \<Longrightarrow> goes m buf ue p room s res"
  using loop_Cont [of s ue m buf s2] by (simp add: goes_def split: option.splits prod.splits)

lemma byte_goes:
  assumes s: "cu_state s = st_of t" "cu_holds acc t (Suc room) s" "cu_p s < length buf" "cu_p s \<le> ue"
    and c: "cu_ch s = c" "c \<notin> set (bytes ''%?#'')"
    and acc: "list_all (\<lambda>a. a \<noteq> [] \<and> ch CHR ''/'' \<notin> set a) acc"
  shows "goes m buf ue (cu_p s) room s (byte_step m acc t c)"
proof (cases "c = ch CHR ''/''")
  case True
  then show ?thesis
    using step_slash [OF s(1-3) _ acc, of m] c(1) loop_Cont [OF s(4), of m buf] loop_Fail [OF s(4), of m buf]
    by (auto simp: goes_def byte_step_def split: option.splits)
next
  case False
  then show ?thesis
    using step_put [OF s(1-3) c False, of m] loop_Cont [OF s(4), of m buf] by (auto simp: goes_def byte_step_def)
qed

lemma st_of_plain: "st_of t \<in> {sw_usual, sw_slash, sw_dot, sw_dot_dot}"
  by (simp add: st_of_def)

lemma percent_step:
  assumes "cu_state s = st_of t" "cu_ch s = ch CHR ''%''" "cu_p s < length buf"
  shows "cu_step m buf s = Some (Cont (s\<lparr>cu_quoted_state := st_of t, cu_state := sw_quoted,
    cu_ch := buf ! cu_p s, cu_p := cu_p s + 1\<rparr>))"
proof -
  have "\<not> is_usual (ch CHR ''%'')" by (simp add: is_usual_iff bytes_def)
  then show ?thesis
    using assms st_of_plain [of t] special_neq
    by (auto simp: cu_step_def cu_usual_def cu_slash_def cu_dot_def cu_dot_dot_def cu_go_def cu_next_def Let_def)
qed

lemma first_hex_step:
  assumes "cu_state s = sw_quoted" "is_hex (cu_ch s)" "cu_p s < length buf"
  shows "cu_step m buf s = Some (Cont (s\<lparr>cu_quoted_uri := True, cu_decoded := hexb (cu_ch s), cu_state := sw_quoted_second,
    cu_ch := buf ! cu_p s, cu_p := cu_p s + 1\<rparr>))"
  using assms by (auto simp: cu_step_def cu_quoted_def cu_go_def cu_next_def Let_def is_hex_def hexb_def)

lemma second_hex_step:
  assumes "cu_state s = sw_quoted_second" "is_hex (cu_ch s)" "v = push_bit 4 (cu_decoded s) + hexb (cu_ch s)" "v \<noteq> 0"
  shows "\<exists>b. cu_step m buf s =
    (if v \<in> set (bytes ''%?#'') then cu_put_next buf v (s\<lparr>cu_ch := v, cu_state := sw_usual\<rparr>)
     else Some (Cont (s\<lparr>cu_ch := v, cu_plus_in_uri := b, cu_state := cu_quoted_state s\<rparr>)))"
proof -
  let ?d = "push_bit 4 (cu_decoded s)"
  have set: "v \<in> set (bytes ''%?#'') \<longleftrightarrow> v = ch CHR ''%'' \<or> v = ch CHR ''?'' \<or> v = ch CHR ''#''" by (auto simp: bytes_def)
  show ?thesis
  proof (cases "is_digit (cu_ch s)")
    case True
    have v: "?d + cu_ch s - ch CHR ''0'' = v" using True assms(3) by (simp add: hexb_def add_diff_eq)
    have "v \<noteq> ch CHR ''?''" using escape_digit [OF True] assms(3) by simp
    then show ?thesis
      using assms(1,4) True unfolding set
      by (intro exI [of _ "cu_plus_in_uri s"]) (simp add: cu_step_def cu_quoted_second_def Let_def v)
  next
    case False
    have v: "?d + (cu_ch s OR 0x20) - ch CHR ''a'' + 10 = v" using False assms(3) by (simp add: hexb_def add_diff_eq add.assoc)
    have l: "ch CHR ''a'' \<le> cu_ch s OR 0x20 \<and> cu_ch s OR 0x20 \<le> ch CHR ''f''" using assms(2) False by (simp add: is_hex_def)
    have n: "v \<noteq> ch CHR ''%''" "v \<noteq> ch CHR ''#''" using escape_letter [OF assms(2) False] assms(3) by auto
    show ?thesis
      using assms(1) False l n unfolding set
      by (intro exI [of _ "if v = ch CHR ''+'' then True else cu_plus_in_uri s"])
         (simp add: cu_step_def cu_quoted_second_def Let_def v special_neq)
  qed
qed

lemma escape_goes:
  assumes sim: "sim buf acc t p (Suc room) s" and p: "p + 3 \<le> ue" "ue < length buf"
    and b: "buf ! p = ch CHR ''%''" "buf ! (p + 1) = h" "buf ! (p + 2) = l"
    and ok: "tok_ok (Escape h l)"
    and acc: "list_all (\<lambda>a. a \<noteq> [] \<and> ch CHR ''/'' \<notin> set a) acc"
  shows "goes m buf ue (p + 3) room s (byte_step m acc t (tok_value (Escape h l)))"
proof -
  define v where "v = tok_value (Escape h l)"
  have s: "cu_p s = Suc p" "cu_ch s = ch CHR ''%''" "cu_state s = st_of t" "cu_holds acc t (Suc room) s"
    using sim b by (auto simp: sim_def)
  obtain s1 where s1: "cu_step m buf s = Some (Cont s1)" "cu_state s1 = sw_quoted" "cu_ch s1 = h" "cu_p s1 = p + 2"
    "cu_quoted_state s1 = st_of t" "cu_holds acc t (Suc room) s1"
    using percent_step [OF s(3,2), of buf m] s p b by (simp add: cu_holds_def)
  obtain s2 where s2: "cu_step m buf s1 = Some (Cont s2)" "cu_state s2 = sw_quoted_second" "cu_ch s2 = l" "cu_p s2 = p + 3"
    "cu_decoded s2 = hexb h" "cu_quoted_state s2 = st_of t" "cu_holds acc t (Suc room) s2"
    using first_hex_step [of s1 buf m] s1 ok p b by (simp add: cu_holds_def)
  obtain b where st: "cu_step m buf s2 =
    (if v \<in> set (bytes ''%?#'') then cu_put_next buf v (s2\<lparr>cu_ch := v, cu_state := sw_usual\<rparr>)
     else Some (Cont (s2\<lparr>cu_ch := v, cu_plus_in_uri := b, cu_state := cu_quoted_state s2\<rparr>)))"
    using second_hex_step [of s2 v m buf] s2 ok v_def by auto
  have "goes m buf ue (p + 3) room s2 (byte_step m acc t v)"
  proof (cases "v \<in> set (bytes ''%?#'')")
    case True
    then have n: "v \<noteq> ch CHR ''/''" "v \<noteq> ch CHR ''.''" using special_neq by (auto simp: bytes_def)
    then have "\<exists>s3. cu_step m buf s2 = Some (Cont s3) \<and> sim buf acc (t @ [v]) (p + 3) room s3"
      using holds_put [OF s2(7), of buf "s2\<lparr>cu_ch := v, cu_state := sw_usual\<rparr>" "t @ [v]" acc v] st True s2 p
      by (simp add: st_of_append enc_path_append)
    then show ?thesis
      using loop_Cont [of s2 ue m buf] s2(4) p n by (auto simp: goes_def byte_step_def)
  next
    case False
    let ?s = "s2\<lparr>cu_ch := v, cu_plus_in_uri := b, cu_state := cu_quoted_state s2\<rparr>"
    have "goes m buf ue (p + 3) room ?s (byte_step m acc t v)"
      using byte_goes [of ?s t acc room buf ue v m] False acc s2 p by (simp add: cu_holds_def)
    then show ?thesis using st False s2(4) p by (intro goes_Cont [of s2 ue m buf ?s]) simp_all
  qed
  then show ?thesis
    unfolding v_def [symmetric] using s s1 s2 p by (intro goes_Cont [OF _ s1(1)] goes_Cont [OF _ s2(1)]) simp_all
qed

lemma tok_goes:
  assumes sim: "sim buf acc t p (Suc room) s" and p: "p + length (tok_bytes k) \<le> ue" "ue < length buf"
    and b: "take (length (tok_bytes k)) (drop p buf) = tok_bytes k" and ok: "tok_ok k"
    and acc: "list_all (\<lambda>a. a \<noteq> [] \<and> ch CHR ''/'' \<notin> set a) acc"
  shows "goes m buf ue (p + length (tok_bytes k)) room s (byte_step m acc t (tok_value k))"
proof -
  have nth: "buf ! (p + i) = tok_bytes k ! i" if "i < length (tok_bytes k)" for i
  proof -
    have "buf ! (p + i) = take (length (tok_bytes k)) (drop p buf) ! i" using that p by simp
    then show ?thesis unfolding b .
  qed
  show ?thesis
  proof (cases k)
    case (Plain c)
    then show ?thesis
      using byte_goes [of s t acc room buf ue c m] sim nth [of 0] ok p acc by (auto simp: sim_def)
  next
    case (Escape h l)
    then show ?thesis using escape_goes [OF sim _ p(2), of h l m] nth [of 0] nth [of 1] nth [of 2] ok p acc
      by (auto simp: numeral_3_eq_3)
  qed
qed

section \<open>The whole path\<close>

fun run_path :: "bool \<Rightarrow> byte list list \<Rightarrow> byte list \<Rightarrow> byte list \<Rightarrow> (byte list list \<times> byte list) option" where
  "run_path m acc t [] = Some (acc, t)"
| "run_path m acc t (c # cs) = (case byte_step m acc t c of None \<Rightarrow> None | Some (acc', t') \<Rightarrow> run_path m acc' t' cs)"

text \<open>No empty segment is closed, or slashes are merged.\<close>

fun closes_ok :: "bool \<Rightarrow> byte list \<Rightarrow> byte list \<Rightarrow> bool" where
  "closes_ok m t [] \<longleftrightarrow> True"
| "closes_ok m t (c # cs) \<longleftrightarrow>
     (if c = ch CHR ''/'' then (m \<or> t \<noteq> []) \<and> closes_ok m [] cs else closes_ok m (t @ [c]) cs)"

lemma run_path_app:
  "ch CHR ''/'' \<notin> set xs \<Longrightarrow> run_path m acc t (xs @ ys) = run_path m acc (t @ xs) ys"
  by (induction xs arbitrary: t) (auto simp: byte_step_def)

lemma closes_ok_app: "ch CHR ''/'' \<notin> set xs \<Longrightarrow> closes_ok m t (xs @ ys) = closes_ok m (t @ xs) ys"
  by (induction xs arbitrary: t) auto

lemma closes_ok_path:
  assumes "list_all (\<lambda>s. ch CHR ''/'' \<notin> set s) ss" "ch CHR ''/'' \<notin> set t" "m \<or> [] \<notin> set ss"
  shows "closes_ok m [] (tl (enc_path ss t))"
  using assms(1,3)
proof (induction ss)
  case Nil
  then show ?case using closes_ok_app [OF assms(2), of m "[]" "[]"] by simp
next
  case (Cons s ss)
  obtain w where w: "enc_path ss t = ch CHR ''/'' # w" by (cases ss) auto
  then show ?case using Cons closes_ok_app [of s m "[]" "ch CHR ''/'' # w"] by auto
qed

lemma run_path_resolve:
  assumes "list_all (\<lambda>s. ch CHR ''/'' \<notin> set s) ss" "ch CHR ''/'' \<notin> set t" "m \<or> [] \<notin> set ss"
  shows "run_path m acc [] (tl (enc_path ss t)) = map_option (\<lambda>ss'. (rev ss', t)) (resolve acc ss)"
  using assms(1,3)
proof (induction ss arbitrary: acc)
  case Nil
  then show ?case using run_path_app [OF assms(2), of m acc "[]" "[]"] by simp
next
  case (Cons s ss)
  obtain w where w: "enc_path ss t = ch CHR ''/'' # w" by (cases ss) auto
  have "run_path m acc [] (tl (enc_path (s # ss) t)) = run_path m acc s (ch CHR ''/'' # w)"
    using run_path_app [of s m acc "[]"] Cons.prems w by simp
  also have "\<dots> = (case close_seg m acc s of None \<Rightarrow> None | Some acc' \<Rightarrow> run_path m acc' [] (tl (enc_path ss t)))"
    by (simp add: byte_step_def w split: option.splits)
  also have "\<dots> = map_option (\<lambda>ss'. (rev ss', t)) (resolve acc (s # ss))"
    using Cons dot_segs_neq by (auto simp: close_seg_def split: option.splits list.splits)
  finally show ?case .
qed

lemma byte_step_ok:
  assumes "byte_step m acc t c = Some (acc', t')" "closes_ok m t (c # cs)"
    "list_all (\<lambda>a. a \<noteq> [] \<and> ch CHR ''/'' \<notin> set a) acc" "ch CHR ''/'' \<notin> set t"
  shows "closes_ok m t' cs" "list_all (\<lambda>a. a \<noteq> [] \<and> ch CHR ''/'' \<notin> set a) acc'" "ch CHR ''/'' \<notin> set t'"
  using assms by (auto simp: byte_step_def close_seg_def split: if_splits list.splits)

lemma toks_go:
  assumes "ue < length buf"
  shows "sim buf acc t p (length ts + room) s \<Longrightarrow> p + length (concat (map tok_bytes ts)) \<le> ue \<Longrightarrow>
    take (length (concat (map tok_bytes ts))) (drop p buf) = concat (map tok_bytes ts) \<Longrightarrow> list_all tok_ok ts \<Longrightarrow>
    list_all (\<lambda>a. a \<noteq> [] \<and> ch CHR ''/'' \<notin> set a) acc \<Longrightarrow> ch CHR ''/'' \<notin> set t \<Longrightarrow> closes_ok m t (map tok_value ts) \<Longrightarrow>
    goes m buf ue (p + length (concat (map tok_bytes ts))) room s (run_path m acc t (map tok_value ts))"
proof (induction ts arbitrary: acc t p s)
  case Nil
  then show ?case by (auto simp: goes_def)
next
  case (Cons k ts)
  let ?n = "length (tok_bytes k)" and ?rest = "concat (map tok_bytes ts)"
  have b: "take ?n (drop p buf) = tok_bytes k" "take (length ?rest) (drop (p + ?n) buf) = ?rest"
    using Cons.prems(2,3) assms by (auto simp: take_add add.commute append_eq_append_conv)
  have g: "goes m buf ue (p + ?n) (length ts + room) s (byte_step m acc t (tok_value k))"
    using Cons.prems b(1) assms by (intro tok_goes) simp_all
  show ?case
  proof (cases "byte_step m acc t (tok_value k)")
    case None
    then show ?thesis using g by (simp add: goes_def)
  next
    case (Some r)
    obtain acc' t' where r: "byte_step m acc t (tok_value k) = Some (acc', t')" using Some by (cases r) simp
    obtain s2 where s2: "cu_loop m buf ue s = cu_loop m buf ue s2" "sim buf acc' t' (p + ?n) (length ts + room) s2"
      using g r by (auto simp: goes_def)
    have "goes m buf ue (p + ?n + length ?rest) room s2 (run_path m acc' t' (map tok_value ts))"
      using Cons.prems b(2) byte_step_ok [OF r] by (intro Cons.IH [OF s2(2)]) simp_all
    then show ?thesis using r s2(1) by (simp add: goes_def add.assoc split: option.splits prod.splits)
  qed
qed

section \<open>The result\<close>

lemma path_end:
  assumes "sim buf acc t e room s" "e \<le> ue" "ue < length buf" "e = ue \<or> buf ! e \<in> set (bytes ''?#'')"
  shows "\<exists>act s2. cu_loop m buf ue s = Some act \<and> (act = Done s2 \<or> act = Args s2) \<and> cu_u s2 = cu_u s \<and> cu_out s2 = cu_out s"
proof (cases "e = ue")
  case True
  then show ?thesis using assms(1) by (subst cu_loop.simps) (auto simp: sim_def)
next
  case False
  have nu: "\<not> is_usual (ch CHR ''?'')" "\<not> is_usual (ch CHR ''#'')" by (simp_all add: is_usual_iff bytes_def)
  have n: "ch CHR ''#'' \<noteq> ch CHR ''%''" "ch CHR ''#'' \<noteq> ch CHR ''?''" by (simp_all add: byte_simps)
  have c: "cu_ch s = ch CHR ''?'' \<or> cu_ch s = ch CHR ''#''" and p: "cu_p s \<le> ue" and st: "cu_state s = st_of t"
    using False assms by (auto simp: sim_def bytes_def)
  then have "cu_step m buf s = Some (if cu_ch s = ch CHR ''?'' then Args (s\<lparr>cu_args_start := Some (cu_p s)\<rparr>) else Done s)"
    using nu n special_neq st_of_plain [of t]
    by (auto simp: cu_step_def cu_usual_def cu_slash_def cu_dot_def cu_dot_dot_def Let_def)
  then show ?thesis using p by (subst cu_loop.simps) auto
qed

lemma sim_finish:
  assumes "sim buf acc t e room s" "cu_u s' = cu_u s" "cu_out s' = cu_out s"
  shows "c_uri (cu_finish s') = enc_path (rev acc) t"
  using assms by (simp add: sim_def cu_holds_def cu_finish_def)

lemma first_slash:
  assumes "buf ! us = ch CHR ''/''" "us + 1 < length buf" "Suc room \<le> length out" "us + 1 \<le> ue"
  shows "\<exists>s. sim buf [] [] (us + 1) room s \<and> cu_loop m buf ue
    \<lparr>cu_state = sw_usual, cu_quoted_state = sw_usual, cu_decoded = 0, cu_ch = ch CHR ''/'',
     cu_p = us + 1, cu_u = 0, cu_out = out, cu_uri_ext = None, cu_args_start = None,
     cu_args = None, cu_quoted_uri = q, cu_plus_in_uri = pl\<rparr> = cu_loop m buf ue s"
proof -
  have nu: "\<not> is_usual (ch CHR ''/'')" using usual_not by blast
  have "out \<noteq> []" using assms(3) by auto
  then have "take 1 (out[0 := ch CHR ''/'']) = [ch CHR ''/'']" by (cases out) auto
  then show ?thesis
    using assms nu \<open>out \<noteq> []\<close>
    by (subst cu_loop.simps)
       (auto simp: cu_step_def cu_usual_def cu_put_next_def cu_put_def cu_next_def sim_def cu_holds_def st_of_def intro!: exI conjI)
qed

lemma complex_uri_resolves:
  assumes buf: "buf = pre @ concat (map tok_bytes (Plain (ch CHR ''/'') # ts)) @ post" "us = length pre"
    and e: "e = us + length (concat (map tok_bytes (Plain (ch CHR ''/'') # ts)))" "e \<le> ue" "ue < length buf"
      "e = ue \<or> buf ! e \<in> set (bytes ''?#'')" and out: "e - us \<le> length out"
    and ok: "list_all tok_ok ts" and path: "ch CHR ''/'' # map tok_value ts = enc_path ss t"
    and seg: "list_all (\<lambda>s. ch CHR ''/'' \<notin> set s) ss" "ch CHR ''/'' \<notin> set t" "m \<or> [] \<notin> set ss"
  shows "\<exists>res. ngx_http_parse_complex_uri buf us ue out q pl m = Some res \<and>
    map_option c_uri res = map_option (\<lambda>ss'. enc_path ss' t) (resolve [] ss)"
proof -
  let ?bs = "concat (map tok_bytes ts)"
  have len: "length ts \<le> length (concat (map tok_bytes ts))" for ts :: "tok list"
  proof (induction ts)
    case (Cons k ts)
    then show ?case by (cases k) auto
  qed simp
  have us: "buf ! us = ch CHR ''/''" "us < length buf" "us + 1 < length buf" "us + 1 \<le> ue"
    "drop (us + 1) buf = ?bs @ post" "us + 1 + length ?bs = e" "Suc (length ts + 0) \<le> length out"
    using buf e out len [of ts] by (auto simp: nth_append)
  let ?s0 = "\<lparr>cu_state = sw_usual, cu_quoted_state = sw_usual, cu_decoded = 0, cu_ch = ch CHR ''/'',
     cu_p = us + 1, cu_u = 0, cu_out = out, cu_uri_ext = None, cu_args_start = None,
     cu_args = None, cu_quoted_uri = q, cu_plus_in_uri = pl\<rparr>"
  obtain s1 where s1: "sim buf [] [] (us + 1) (length ts + 0) s1" "cu_loop m buf ue ?s0 = cu_loop m buf ue s1"
    using first_slash [OF us(1,3,7,4)] by blast
  have tl: "map tok_value ts = tl (enc_path ss t)" using path by (metis list.sel(3))
  have "goes m buf ue e 0 s1 (map_option (\<lambda>ss'. (rev ss', t)) (resolve [] ss))"
    using toks_go [OF e(3) s1(1), of m] us ok e(2) run_path_resolve [OF seg, of "[]"] closes_ok_path [OF seg]
    by (simp add: tl)
  moreover have run: "ngx_http_parse_complex_uri buf us ue out q pl m =
      (do { act \<leftarrow> cu_loop m buf ue s1;
         (case act of Fail \<Rightarrow> Some None
          | Args s \<Rightarrow> do { s \<leftarrow> cu_args_loop buf ue s; Some (Some (cu_finish s)) }
          | Done s \<Rightarrow> Some (Some (cu_finish s)) | Cont s \<Rightarrow> Some (Some (cu_finish s))) })"
    using us s1(2) by (simp add: ngx_http_parse_complex_uri_def cu_next_def)
  ultimately show ?thesis
  proof (cases "resolve [] ss")
    case (Some ss')
    then obtain s2 where s2: "cu_loop m buf ue s1 = cu_loop m buf ue s2" "sim buf (rev ss') t e 0 s2"
      using \<open>goes _ _ _ _ _ _ _\<close> by (auto simp: goes_def)
    obtain act s3 where s3: "cu_loop m buf ue s2 = Some act" "act = Done s3 \<or> act = Args s3"
      "cu_u s3 = cu_u s2" "cu_out s3 = cu_out s2"
      using path_end [OF s2(2) e(2-4)] by blast
    obtain s4 where "cu_args_loop buf ue s3 = Some s4" "cu_u s4 = cu_u s3" "cu_out s4 = cu_out s3"
      using cu_args_loop_ok [OF e(3)] by blast
    then show ?thesis
      using run s2(1) s3 Some sim_finish [OF s2(2), of s3] sim_finish [OF s2(2), of s4] by auto
  qed (simp add: goes_def)
qed

text \<open>
  C3: What the normalisation computes. Let a URI start with a slash and consist of plain bytes and escapes, up to
  its end or to a \<open>?\<close> or \<open>#\<close>, and let the decoded bytes be the closed segments \<open>ss\<close> and the rest \<open>t\<close>, with no
  empty segment unless slashes are merged. Then \<open>ngx_http_parse_complex_uri\<close> returns the segments after the
  resolution of dots, followed by \<open>t\<close> as it is, or an error when a double dot leaves the root. (An escaped
  slash or dot counts as a plain one.)
\<close>
theorem ngx_http_parse_complex_uri_resolves:
  assumes "buf = pre @ concat (map tok_bytes (Plain (ch CHR ''/'') # ts)) @ post" "us = length pre"
    and "e = us + length (concat (map tok_bytes (Plain (ch CHR ''/'') # ts)))" "e \<le> ue" "ue < length buf"
      "e = ue \<or> buf ! e \<in> set (bytes ''?#'')" and "e - us \<le> length out"
    and "list_all tok_ok ts" and "ch CHR ''/'' # map tok_value ts = enc_path ss t"
    and "list_all (\<lambda>s. ch CHR ''/'' \<notin> set s) ss" "ch CHR ''/'' \<notin> set t" "merge_slashes \<or> [] \<notin> set ss"
  shows "\<exists>res. ngx_http_parse_complex_uri buf us ue out quoted plus_in merge_slashes = Some res \<and>
    map_option c_uri res = map_option (\<lambda>ss'. enc_path ss' t) (resolve [] ss)"
  by (rule complex_uri_resolves [OF assms])

theorem ngx_http_parse_complex_uri_resolves_witness:
  "\<exists>res. ngx_http_parse_complex_uri (bytes ''/a/b//%2e./c?x '') 0 14 (replicate 12 0) False False True = Some res \<and>
    map_option c_uri res = Some (bytes ''/a/c'')"
proof -
  let ?ts = "map (\<lambda>c. Plain (ch c)) ''a/b//'' @ [Escape (ch CHR ''2'') (ch CHR ''e'')] @ map (\<lambda>c. Plain (ch c)) ''./c''"
  have r: "resolve [] [bytes ''a'', bytes ''b'', [], bytes ''..''] = Some [bytes ''a'']"
    by (simp add: byte_simps)
  have "\<exists>res. ngx_http_parse_complex_uri (bytes ''/a/b//%2e./c?x '') 0 14 (replicate 12 0) False False True = Some res \<and>
    map_option c_uri res = map_option (\<lambda>ss'. enc_path ss' (bytes ''c'')) (resolve [] [bytes ''a'', bytes ''b'', [], bytes ''..''])"
    by (rule ngx_http_parse_complex_uri_resolves [where pre = "[]" and post = "bytes ''?x ''" and e = 12 and ts = ?ts])
       (simp_all add: byte_simps is_hex_def hexb_def)
  then show ?thesis unfolding r by (simp add: byte_simps)
qed

text \<open>
  Without merged slashes the step back over a double dot starts one byte too early: behind an empty
  segment it removes two segments.
\<close>

lemma empty_segment_dot_dot:
  "map_option (map_option c_uri) (ngx_http_parse_complex_uri (bytes ''/a//../ '') 0 7 (replicate 7 0) False False False) =
     Some (Some (bytes ''/''))"
  by code_simp

end
