(* ===== verification/Ngx_Base64.thy ===== *)
theory Ngx_Base64
  imports Ngx_Prelude
begin

text \<open>
  Base64 of src/core/ngx_string.c: \<open>ngx_encode_base64\<close>, \<open>ngx_decode_base64\<close>, \<open>ngx_decode_base64url\<close> and the loop that the
  decoders share. The output is the list of the bytes that are written at \<open>dst->data\<close>.
\<close>

section \<open>The code\<close>

definition basis64 :: "byte list" where
  "basis64 = bytes ''ABCDEFGHIJKLMNOPQRSTUVWXYZabcdefghijklmnopqrstuvwxyz0123456789+/''"

definition b64 :: "byte \<Rightarrow> byte" where
  "b64 x = basis64 ! unat x"

fun ngx_encode_base64 :: "byte list \<Rightarrow> byte list" where
  "ngx_encode_base64 (s0 # s1 # s2 # s) =
     b64 (drop_bit 2 s0 AND 0x3f) # b64 (push_bit 4 (s0 AND 3) OR drop_bit 4 s1) #
     b64 (push_bit 2 (s1 AND 0x0f) OR drop_bit 6 s2) # b64 (s2 AND 0x3f) # ngx_encode_base64 s"
| "ngx_encode_base64 [s0, s1] =
     [b64 (drop_bit 2 s0 AND 0x3f), b64 (push_bit 4 (s0 AND 3) OR drop_bit 4 s1),
      b64 (push_bit 2 (s1 AND 0x0f)), ch CHR ''='']"
| "ngx_encode_base64 [s0] =
     [b64 (drop_bit 2 s0 AND 0x3f), b64 (push_bit 4 (s0 AND 3)), ch CHR ''='', ch CHR ''='']"
| "ngx_encode_base64 [] = []"

text \<open>The tables of the decoders: 77 is an invalid byte.\<close>

definition decode_table :: "byte list" where
  "decode_table =
    [77, 77, 77, 77, 77, 77, 77, 77, 77, 77, 77, 77, 77, 77, 77, 77,
     77, 77, 77, 77, 77, 77, 77, 77, 77, 77, 77, 77, 77, 77, 77, 77,
     77, 77, 77, 77, 77, 77, 77, 77, 77, 77, 77, 62, 77, 77, 77, 63,
     52, 53, 54, 55, 56, 57, 58, 59, 60, 61, 77, 77, 77, 77, 77, 77,
     77,  0,  1,  2,  3,  4,  5,  6,  7,  8,  9, 10, 11, 12, 13, 14,
     15, 16, 17, 18, 19, 20, 21, 22, 23, 24, 25, 77, 77, 77, 77, 77,
     77, 26, 27, 28, 29, 30, 31, 32, 33, 34, 35, 36, 37, 38, 39, 40,
     41, 42, 43, 44, 45, 46, 47, 48, 49, 50, 51, 77, 77, 77, 77, 77] @ replicate 128 77"

definition decode_table_url :: "byte list" where
  "decode_table_url =
    [77, 77, 77, 77, 77, 77, 77, 77, 77, 77, 77, 77, 77, 77, 77, 77,
     77, 77, 77, 77, 77, 77, 77, 77, 77, 77, 77, 77, 77, 77, 77, 77,
     77, 77, 77, 77, 77, 77, 77, 77, 77, 77, 77, 77, 77, 62, 77, 77,
     52, 53, 54, 55, 56, 57, 58, 59, 60, 61, 77, 77, 77, 77, 77, 77,
     77,  0,  1,  2,  3,  4,  5,  6,  7,  8,  9, 10, 11, 12, 13, 14,
     15, 16, 17, 18, 19, 20, 21, 22, 23, 24, 25, 77, 77, 77, 77, 63,
     77, 26, 27, 28, 29, 30, 31, 32, 33, 34, 35, 36, 37, 38, 39, 40,
     41, 42, 43, 44, 45, 46, 47, 48, 49, 50, 51, 77, 77, 77, 77, 77] @ replicate 128 77"

text \<open>The first loop: how many bytes to decode, up to the padding.\<close>

fun decode_len :: "byte list \<Rightarrow> byte list \<Rightarrow> nat option" where
  "decode_len basis [] = Some 0"
| "decode_len basis (c # s) =
     (if c = ch CHR ''='' then Some 0
      else if basis ! unat c = 77 then None
      else map_option Suc (decode_len basis s))"

fun decode_loop :: "byte list \<Rightarrow> byte list \<Rightarrow> byte list" where
  "decode_loop basis (s0 # s1 # s2 # s3 # s) =
     (push_bit 2 (basis ! unat s0) OR drop_bit 4 (basis ! unat s1)) #
     (push_bit 4 (basis ! unat s1) OR drop_bit 2 (basis ! unat s2)) #
     (push_bit 6 (basis ! unat s2) OR (basis ! unat s3)) # decode_loop basis s"
| "decode_loop basis [s0, s1, s2] =
     [push_bit 2 (basis ! unat s0) OR drop_bit 4 (basis ! unat s1),
      push_bit 4 (basis ! unat s1) OR drop_bit 2 (basis ! unat s2)]"
| "decode_loop basis [s0, s1] = [push_bit 2 (basis ! unat s0) OR drop_bit 4 (basis ! unat s1)]"
| "decode_loop basis _ = []"

text \<open>\<open>None\<close> is NGX\_ERROR.\<close>

definition ngx_decode_base64_internal :: "byte list \<Rightarrow> byte list \<Rightarrow> byte list option" where
  "ngx_decode_base64_internal basis src =
     (case decode_len basis src of
        None \<Rightarrow> None
      | Some len \<Rightarrow> if len mod 4 = 1 then None else Some (decode_loop basis (take len src)))"

definition ngx_decode_base64 :: "byte list \<Rightarrow> byte list option" where
  "ngx_decode_base64 src = ngx_decode_base64_internal decode_table src"

definition ngx_decode_base64url :: "byte list \<Rightarrow> byte list option" where
  "ngx_decode_base64url src = ngx_decode_base64_internal decode_table_url src"

definition ngx_base64_encoded_length :: "nat \<Rightarrow> nat" where
  "ngx_base64_encoded_length len = (len + 2) div 3 * 4"

definition ngx_base64_decoded_length :: "nat \<Rightarrow> nat" where
  "ngx_base64_decoded_length len = (len + 3) div 4 * 3"

section \<open>Sextets\<close>

lemma less_64: "x < (64 :: byte) \<longleftrightarrow> take_bit 6 x = x"
  by (simp add: word_less_nat_alt word_unat_eq_iff unsigned_take_bit_eq take_bit_nat_eq_self_iff)

lemma byte_bit_ge: "8 \<le> n \<Longrightarrow> \<not> bit (b :: byte) n"
  using bit_imp_le_length [of b n] by auto

lemma less_8_iff: "n < 8 \<longleftrightarrow> n \<in> {0, 1, 2, 3, 4, 5, 6, 7 :: nat}"
  by auto

lemma byte_eq_iff:
  "(x :: byte) = y \<longleftrightarrow> bit x 0 = bit y 0 \<and> bit x 1 = bit y 1 \<and> bit x 2 = bit y 2 \<and> bit x 3 = bit y 3 \<and>
     bit x 4 = bit y 4 \<and> bit x 5 = bit y 5 \<and> bit x 6 = bit y 6 \<and> bit x 7 = bit y 7"
  (is "_ \<longleftrightarrow> ?bits")
proof
  assume ?bits
  show "x = y"
  proof (rule bit_word_eqI)
    fix n assume "n < LENGTH(8)"
    then have "n \<in> {0, 1, 2, 3, 4, 5, 6, 7}" using less_8_iff by simp
    then show "bit x n = bit y n" using \<open>?bits\<close> by auto
  qed
qed simp

lemma sextets:
  fixes a b c :: byte
  shows "drop_bit 2 a AND 0x3f < 64" "push_bit 4 (a AND 3) OR drop_bit 4 b < 64"
    "push_bit 2 (b AND 0x0f) OR drop_bit 6 c < 64" "c AND 0x3f < 64" "push_bit 4 (a AND 3) < 64" "push_bit 2 (b AND 0x0f) < 64"
  unfolding less_64 byte_eq_iff by (simp_all add: bit_simps byte_bit_ge)

lemma octets:
  fixes a b c :: byte
  shows "push_bit 2 (drop_bit 2 a AND 0x3f) OR drop_bit 4 (push_bit 4 (a AND 3) OR drop_bit 4 b) = a"
    "push_bit 4 (push_bit 4 (a AND 3) OR drop_bit 4 b) OR drop_bit 2 (push_bit 2 (b AND 0x0f) OR drop_bit 6 c) = b"
    "push_bit 6 (push_bit 2 (b AND 0x0f) OR drop_bit 6 c) OR (c AND 0x3f) = c"
    "push_bit 4 (push_bit 4 (a AND 3) OR drop_bit 4 b) OR drop_bit 2 (push_bit 2 (b AND 0x0f)) = b"
    "push_bit 2 (drop_bit 2 a AND 0x3f) OR drop_bit 4 (push_bit 4 (a AND 3)) = a"
  unfolding byte_eq_iff by (simp_all add: bit_simps byte_bit_ge)

section \<open>Alphabets\<close>

text \<open>An alphabet: a decoding table that inverts the encoding of the 64 sextets, renamed by \<open>f\<close>.\<close>

locale alphabet =
  fixes basis :: "byte list" and f :: "byte \<Rightarrow> byte"
  assumes inverse: "x < 64 \<Longrightarrow> basis ! unat (f (b64 x)) = x"
    and no_padding: "x < 64 \<Longrightarrow> f (b64 x) \<noteq> ch CHR ''=''"
    and padding: "f (ch CHR ''='') = ch CHR ''=''"
begin

lemma valid: "x < 64 \<Longrightarrow> basis ! unat (f (b64 x)) \<noteq> 77"
  using inverse by fastforce

lemma decode_sextets:
  assumes "x0 < 64" "x1 < 64" "x2 < 64" "x3 < 64"
  shows "decode_len basis (map f (b64 x0 # b64 x1 # b64 x2 # b64 x3 # w)) =
      map_option (\<lambda>k. Suc (Suc (Suc (Suc k)))) (decode_len basis (map f w))"
    "decode_loop basis (take (Suc (Suc (Suc (Suc k)))) (map f (b64 x0 # b64 x1 # b64 x2 # b64 x3 # w))) =
      (push_bit 2 x0 OR drop_bit 4 x1) # (push_bit 4 x1 OR drop_bit 2 x2) # (push_bit 6 x2 OR x3) #
      decode_loop basis (take k (map f w))"
  using assms inverse valid no_padding by (simp_all add: option.map_comp o_def)

lemma decode_tail:
  assumes "x0 < 64" "x1 < 64" "x2 < 64"
  shows "decode_len basis (map f [b64 x0, b64 x1, b64 x2, ch CHR ''='']) = Some 3"
    "decode_loop basis (take 3 (map f [b64 x0, b64 x1, b64 x2, ch CHR ''=''])) =
      [push_bit 2 x0 OR drop_bit 4 x1, push_bit 4 x1 OR drop_bit 2 x2]"
    "decode_len basis (map f [b64 x0, b64 x1, ch CHR ''='', ch CHR ''='']) = Some 2"
    "decode_loop basis (take 2 (map f [b64 x0, b64 x1, ch CHR ''='', ch CHR ''=''])) = [push_bit 2 x0 OR drop_bit 4 x1]"
  using assms inverse valid no_padding padding by simp_all

lemma decode_encode_len:
  "\<exists>k. decode_len basis (map f (ngx_encode_base64 s)) = Some k \<and> k mod 4 \<noteq> 1 \<and>
     decode_loop basis (take k (map f (ngx_encode_base64 s))) = s"
proof (induction s rule: ngx_encode_base64.induct)
  case (1 s0 s1 s2 s)
  then obtain k where k: "decode_len basis (map f (ngx_encode_base64 s)) = Some k" "k mod 4 \<noteq> 1"
    "decode_loop basis (take k (map f (ngx_encode_base64 s))) = s" by blast
  note d = decode_sextets [OF sextets(1) [of s0] sextets(2) [of s0 s1] sextets(3) [of s1 s2] sextets(4) [of s2]]
  have "decode_loop basis (take (Suc (Suc (Suc (Suc k)))) (map f (ngx_encode_base64 (s0 # s1 # s2 # s)))) = s0 # s1 # s2 # s"
    unfolding ngx_encode_base64.simps d octets k(3) ..
  moreover have "decode_len basis (map f (ngx_encode_base64 (s0 # s1 # s2 # s))) = Some (Suc (Suc (Suc (Suc k))))"
    unfolding ngx_encode_base64.simps d k(1) by simp
  moreover have "Suc (Suc (Suc (Suc k))) mod 4 \<noteq> 1" using k(2) by presburger
  ultimately show ?case by blast
next
  case (2 s0 s1)
  note d = decode_tail [OF sextets(1) [of s0] sextets(2) [of s0 s1] sextets(6) [of s1]]
  have "decode_loop basis (take 3 (map f (ngx_encode_base64 [s0, s1]))) = [s0, s1]"
    unfolding ngx_encode_base64.simps d octets ..
  moreover have "decode_len basis (map f (ngx_encode_base64 [s0, s1])) = Some 3" unfolding ngx_encode_base64.simps d ..
  moreover have "3 mod 4 \<noteq> (1 :: nat)" by simp
  ultimately show ?case by blast
next
  case (3 s0)
  note d = decode_tail [OF sextets(1) [of s0] sextets(5) [of s0] sextets(6)]
  have "decode_loop basis (take 2 (map f (ngx_encode_base64 [s0]))) = [s0]"
    unfolding ngx_encode_base64.simps d octets ..
  moreover have "decode_len basis (map f (ngx_encode_base64 [s0])) = Some 2" unfolding ngx_encode_base64.simps d ..
  moreover have "2 mod 4 \<noteq> (1 :: nat)" by simp
  ultimately show ?case by blast
qed simp

lemma decode_encode: "ngx_decode_base64_internal basis (map f (ngx_encode_base64 s)) = Some s"
  using decode_encode_len [of s] by (auto simp: ngx_decode_base64_internal_def)

end

lemma sextet_cases: "x < (64 :: byte) \<longleftrightarrow> unat x \<in> set [0..<64]"
  by (simp add: word_less_nat_alt)

lemma table_inverse: "x < 64 \<Longrightarrow> decode_table ! unat (b64 x) = x \<and> b64 x \<noteq> ch CHR ''=''"
proof -
  assume "x < 64"
  have "\<forall>n\<in>set [0..<64]. decode_table ! unat (b64 (of_nat n)) = of_nat n \<and> b64 (of_nat n) \<noteq> ch CHR ''=''"
    by code_simp
  then have "decode_table ! unat (b64 (of_nat (unat x))) = of_nat (unat x) \<and> b64 (of_nat (unat x)) \<noteq> ch CHR ''=''"
    using \<open>x < 64\<close> unfolding sextet_cases by (rule bspec)
  then show ?thesis by simp
qed

interpretation std: alphabet decode_table "\<lambda>c. c"
  using table_inverse by unfold_locales auto

text \<open>The alphabet of base64url, which the code only decodes.\<close>

definition to_url :: "byte \<Rightarrow> byte" where
  "to_url c = (if c = ch CHR ''+'' then ch CHR ''-'' else if c = ch CHR ''/'' then ch CHR ''_'' else c)"

lemma table_url_inverse: "x < 64 \<Longrightarrow> decode_table_url ! unat (to_url (b64 x)) = x \<and> to_url (b64 x) \<noteq> ch CHR ''=''"
proof -
  assume "x < 64"
  have "\<forall>n\<in>set [0..<64]. decode_table_url ! unat (to_url (b64 (of_nat n))) = of_nat n \<and> to_url (b64 (of_nat n)) \<noteq> ch CHR ''=''"
    by code_simp
  then have "decode_table_url ! unat (to_url (b64 (of_nat (unat x)))) = of_nat (unat x) \<and> to_url (b64 (of_nat (unat x))) \<noteq> ch CHR ''=''"
    using \<open>x < 64\<close> unfolding sextet_cases by (rule bspec)
  then show ?thesis by simp
qed

interpretation url: alphabet decode_table_url to_url
  using table_url_inverse by unfold_locales (auto simp: to_url_def byte_simps)

section \<open>Round trip and bounds\<close>

lemma decode_len_le: "decode_len basis s = Some k \<Longrightarrow> k \<le> length s"
  by (induction basis s arbitrary: k rule: decode_len.induct) (auto split: if_splits)

lemma length_decode_loop: "length (decode_loop basis s) = length s * 3 div 4"
  by (induction basis s rule: decode_loop.induct) auto

lemma length_encode: "length (ngx_encode_base64 s) = ngx_base64_encoded_length (length s)"
proof (induction s rule: ngx_encode_base64.induct)
  case (1 s0 s1 s2 s)
  have "(length (s0 # s1 # s2 # s) + 2) div 3 = Suc ((length s + 2) div 3)" by simp
  then show ?case using 1 by (simp add: ngx_base64_encoded_length_def)
qed (simp_all add: ngx_base64_encoded_length_def)

lemma length_decode:
  assumes "ngx_decode_base64_internal basis src = Some d"
  shows "length d \<le> ngx_base64_decoded_length (length src)"
proof -
  obtain k where k: "k \<le> length src" "d = decode_loop basis (take k src)"
    using assms decode_len_le by (auto simp: ngx_decode_base64_internal_def split: option.splits if_splits)
  then have "length d = k * 3 div 4" by (simp add: length_decode_loop)
  also have "\<dots> \<le> (length src + 3) div 4 * 3" using k(1) by linarith
  finally show ?thesis by (simp add: ngx_base64_decoded_length_def)
qed

text \<open>
  C40: The decoders invert the encoder: \<open>ngx_decode_base64\<close> returns every string from its encoding, and
  \<open>ngx_decode_base64url\<close> from the encoding in the alphabet for URLs.
\<close>
theorem ngx_base64_roundtrip:
  "ngx_decode_base64 (ngx_encode_base64 s) = Some s \<and>
   ngx_decode_base64url (map to_url (ngx_encode_base64 s)) = Some s"
  using std.decode_encode [of s] url.decode_encode [of s] by (simp add: ngx_decode_base64_def ngx_decode_base64url_def)

text \<open>
  The lengths for which the callers allocate memory are enough: the encoder writes exactly
  \<open>ngx_base64_encoded_length\<close> bytes, and a decoder at most \<open>ngx_base64_decoded_length\<close> ones, whatever its input.
\<close>
theorem ngx_base64_lengths:
  "length (ngx_encode_base64 s) = ngx_base64_encoded_length (length s) \<and>
   (case ngx_decode_base64 src of None \<Rightarrow> True | Some d \<Rightarrow> length d \<le> ngx_base64_decoded_length (length src)) \<and>
   (case ngx_decode_base64url src of None \<Rightarrow> True | Some d \<Rightarrow> length d \<le> ngx_base64_decoded_length (length src))"
  by (auto simp: length_encode ngx_decode_base64_def ngx_decode_base64url_def split: option.splits dest: length_decode)

end
