(* ===== verification/Ngx_Escape.thy ===== *)
theory Ngx_Escape
  imports Ngx_Prelude
begin

text \<open>
  Escaping of src/core/ngx_string.c: \<open>ngx_escape_uri\<close> with its seven byte classes, \<open>ngx_unescape_uri\<close> and
  \<open>ngx_escape_html\<close>. The output is the list of the bytes written at \<open>dst\<close>; a call with \<open>dst == NULL\<close> is a
  function of its own, which counts.
\<close>

section \<open>ngx\_escape\_uri\<close>

definition escape_map :: "u32 list list" where
  "escape_map =
    (let uri = [0xffffffff, 0x80000029, 0x00000000, 0x80000000, 0xffffffff, 0xffffffff, 0xffffffff, 0xffffffff];
         args = [0xffffffff, 0x88000869, 0x00000000, 0x80000000, 0xffffffff, 0xffffffff, 0xffffffff, 0xffffffff];
         uri_component = [0xffffffff, 0xfc009fff, 0x78000001, 0xb8000001, 0xffffffff, 0xffffffff, 0xffffffff, 0xffffffff];
         html = [0xffffffff, 0x000000ad, 0x00000000, 0x80000000, 0xffffffff, 0xffffffff, 0xffffffff, 0xffffffff];
         refresh = [0xffffffff, 0x00000085, 0x00000000, 0x80000000, 0xffffffff, 0xffffffff, 0xffffffff, 0xffffffff];
         memcached = [0xffffffff, 0x00000021, 0x00000000, 0x00000000, 0x00000000, 0x00000000, 0x00000000, 0x00000000]
     in [uri, args, uri_component, html, refresh, memcached, memcached])"

abbreviation (input) NGX_ESCAPE_URI :: nat where "NGX_ESCAPE_URI \<equiv> 0"
abbreviation (input) NGX_ESCAPE_ARGS :: nat where "NGX_ESCAPE_ARGS \<equiv> 1"
abbreviation (input) NGX_ESCAPE_URI_COMPONENT :: nat where "NGX_ESCAPE_URI_COMPONENT \<equiv> 2"
abbreviation (input) NGX_ESCAPE_HTML :: nat where "NGX_ESCAPE_HTML \<equiv> 3"
abbreviation (input) NGX_ESCAPE_REFRESH :: nat where "NGX_ESCAPE_REFRESH \<equiv> 4"
abbreviation (input) NGX_ESCAPE_MEMCACHED :: nat where "NGX_ESCAPE_MEMCACHED \<equiv> 5"
abbreviation (input) NGX_ESCAPE_MAIL_AUTH :: nat where "NGX_ESCAPE_MAIL_AUTH \<equiv> 6"

definition must_escape :: "u32 list \<Rightarrow> byte \<Rightarrow> bool" where
  "must_escape escape c \<longleftrightarrow> (escape ! unat (drop_bit 5 c)) AND push_bit (unat (c AND 0x1f)) 1 \<noteq> 0"

definition uri_hex :: "byte list" where
  "uri_hex = bytes ''0123456789abcdef''"

fun escape_loop :: "u32 list \<Rightarrow> byte list \<Rightarrow> byte list" where
  "escape_loop escape [] = []"
| "escape_loop escape (c # src) =
     (if must_escape escape c
      then ch CHR ''%'' # uri_hex ! unat (drop_bit 4 c) # uri_hex ! unat (c AND 0xf) # escape_loop escape src
      else c # escape_loop escape src)"

fun escape_count :: "u32 list \<Rightarrow> byte list \<Rightarrow> nat" where
  "escape_count escape [] = 0"
| "escape_count escape (c # src) = (if must_escape escape c then 1 else 0) + escape_count escape src"

definition ngx_escape_uri :: "byte list \<Rightarrow> nat \<Rightarrow> byte list" where
  "ngx_escape_uri src type = escape_loop (escape_map ! type) src"

definition ngx_escape_uri_count :: "byte list \<Rightarrow> nat \<Rightarrow> nat" where
  "ngx_escape_uri_count src type = escape_count (escape_map ! type) src"

section \<open>ngx\_unescape\_uri\<close>

datatype us_state = us_usual | us_quoted | us_quoted_second

abbreviation (input) NGX_UNESCAPE_URI :: ngx_uint_t where "NGX_UNESCAPE_URI \<equiv> 1"
abbreviation (input) NGX_UNESCAPE_REDIRECT :: ngx_uint_t where "NGX_UNESCAPE_REDIRECT \<equiv> 2"

text \<open>
  What the second digit of an escape appends, and whether it ends the loop; \<open>prev\<close> is the byte in front of
  it in the source, \<open>*(s - 2)\<close>.
\<close>

definition unescape_second :: "ngx_uint_t \<Rightarrow> byte \<Rightarrow> byte \<Rightarrow> byte \<Rightarrow> byte list \<times> bool" where
  "unescape_second type decoded prev c =
     (if is_digit c then
        (let d = push_bit 4 decoded + c - ch CHR ''0''
         in if type AND NGX_UNESCAPE_REDIRECT \<noteq> 0 then
              (if ch CHR ''%'' < d \<and> d < 0x7f then ([d], False) else ([ch CHR ''%'', prev, c], False))
            else ([d], False))
      else if ch CHR ''a'' \<le> c OR 0x20 \<and> c OR 0x20 \<le> ch CHR ''f'' then
        (let d = push_bit 4 decoded + (c OR 0x20) - ch CHR ''a'' + 10
         in if type AND NGX_UNESCAPE_URI \<noteq> 0 then ([d], d = ch CHR ''?'')
            else if type AND NGX_UNESCAPE_REDIRECT \<noteq> 0 then
              (if d = ch CHR ''?'' then ([d], True)
               else if ch CHR ''%'' < d \<and> d < 0x7f then ([d], False)
               else ([ch CHR ''%'', prev, c], False))
            else ([d], False))
      else ([], False))"

text \<open>The loop returns the output and the rest of the source.\<close>

fun unescape_loop :: "ngx_uint_t \<Rightarrow> us_state \<Rightarrow> byte \<Rightarrow> byte \<Rightarrow> byte list \<Rightarrow> byte list \<times> byte list" where
  "unescape_loop type st decoded prev [] = ([], [])"
| "unescape_loop type us_usual decoded prev (c # s) =
     (if c = ch CHR ''?'' \<and> type AND (NGX_UNESCAPE_URI OR NGX_UNESCAPE_REDIRECT) \<noteq> 0 then ([c], s)
      else if c = ch CHR ''%'' then unescape_loop type us_quoted decoded c s
      else (case unescape_loop type us_usual decoded c s of (d, s) \<Rightarrow> (c # d, s)))"
| "unescape_loop type us_quoted decoded prev (c # s) =
     (if is_digit c then unescape_loop type us_quoted_second (c - ch CHR ''0'') c s
      else if ch CHR ''a'' \<le> c OR 0x20 \<and> c OR 0x20 \<le> ch CHR ''f'' then
        unescape_loop type us_quoted_second ((c OR 0x20) - ch CHR ''a'' + 10) c s
      else (case unescape_loop type us_usual decoded c s of (d, s) \<Rightarrow> (c # d, s)))"
| "unescape_loop type us_quoted_second decoded prev (c # s) =
     (case unescape_second type decoded prev c of (out, stop) \<Rightarrow>
        if stop then (out, s)
        else (case unescape_loop type us_usual decoded c s of (d, s) \<Rightarrow> (out @ d, s)))"

definition ngx_unescape_uri :: "byte list \<Rightarrow> ngx_uint_t \<Rightarrow> byte list \<times> byte list" where
  "ngx_unescape_uri src type = unescape_loop type us_usual 0 0 src"

section \<open>ngx\_escape\_html\<close>

abbreviation (input) DQUOTE :: byte where "DQUOTE \<equiv> 34"

definition html_entity :: "byte \<Rightarrow> byte list" where
  "html_entity c =
     (if c = ch CHR ''<'' then bytes ''&lt;''
      else if c = ch CHR ''>'' then bytes ''&gt;''
      else if c = ch CHR ''&'' then bytes ''&amp;''
      else if c = DQUOTE then bytes ''&quot;''
      else [c])"

fun ngx_escape_html :: "byte list \<Rightarrow> byte list" where
  "ngx_escape_html [] = []"
| "ngx_escape_html (c # src) = html_entity c @ ngx_escape_html src"

fun ngx_escape_html_count :: "byte list \<Rightarrow> nat" where
  "ngx_escape_html_count [] = 0"
| "ngx_escape_html_count (c # src) =
     (if c = ch CHR ''<'' then 5 - 2
      else if c = ch CHR ''>'' then 5 - 2
      else if c = ch CHR ''&'' then 6 - 2
      else if c = DQUOTE then 7 - 2
      else 0) + ngx_escape_html_count src"

section \<open>Escapes are decoded\<close>

lemma nibbles: "(\<forall>n\<in>set [0..<256]. let c = of_nat n :: byte; a = uri_hex ! unat (drop_bit 4 c); b = uri_hex ! unat (c AND 0xf);
    d = (if is_digit a then a - ch CHR ''0'' else (a OR 0x20) - ch CHR ''a'' + 10)
  in (is_digit a \<or> ch CHR ''a'' \<le> a OR 0x20 \<and> a OR 0x20 \<le> ch CHR ''f'') \<and> unescape_second 0 d a b = ([c], False))"
  by code_simp


lemma unescape_loop_usual:
  "unescape_loop type us_usual d p s = unescape_loop type us_usual d' p' s"
  "unescape_loop type us_quoted d p s = unescape_loop type us_quoted d' p' s"
proof (induction s arbitrary: d p d' p')
  case (Cons c s)
  { case 1 show ?case using Cons.IH(1) [of d c d' c] Cons.IH(2) [of d c d' c] by auto }
  { case 2 show ?case using Cons.IH(1) [of d c d' c] by simp }
qed simp_all

lemma unescape_escaped:
  "unescape_loop 0 us_usual d p (ch CHR ''%'' # uri_hex ! unat (drop_bit 4 c) # uri_hex ! unat (c AND 0xf) # s) =
   (case unescape_loop 0 us_usual d p s of (out, s) \<Rightarrow> (c # out, s))"
proof -
  let ?a = "uri_hex ! unat (drop_bit 4 c)" and ?b = "uri_hex ! unat (c AND 0xf)"
  let ?d = "if is_digit ?a then ?a - ch CHR ''0'' else (?a OR 0x20) - ch CHR ''a'' + 10"
  have "unat c \<in> set [0..<256]" using unat_less_256 [of c] by simp
  moreover have e: "of_nat (unat c) = c" by simp
  ultimately have a: "is_digit ?a \<or> ch CHR ''a'' \<le> ?a OR 0x20 \<and> ?a OR 0x20 \<le> ch CHR ''f''"
    and b: "unescape_second 0 ?d ?a ?b = ([c], False)"
    using bspec [OF nibbles, of "unat c", unfolded Let_def e] by blast+
  have "unescape_loop 0 us_usual d p (ch CHR ''%'' # ?a # ?b # s) = unescape_loop 0 us_quoted_second ?d ?a (?b # s)"
    using a by (cases "is_digit ?a") simp_all
  also have "\<dots> = (case unescape_loop 0 us_usual ?d ?b s of (out, s) \<Rightarrow> (c # out, s))"
    using b by simp
  finally show ?thesis using unescape_loop_usual(1) by metis
qed

lemma escape_loop_decoded:
  assumes "must_escape escape (ch CHR ''%'')"
  shows "unescape_loop 0 us_usual d p (escape_loop escape s) = (s, [])"
proof (induction s arbitrary: d p)
  case (Cons c s)
  show ?case
  proof (cases "must_escape escape c")
    case True
    show ?thesis unfolding escape_loop.simps if_P [OF True] unescape_escaped Cons.IH by simp
  next
    case False
    then have "c \<noteq> ch CHR ''%''" using assms by auto
    then show ?thesis using False Cons.IH by simp
  qed
qed simp

lemma percent_escaped: "type < 7 \<Longrightarrow> type \<noteq> NGX_ESCAPE_REFRESH \<Longrightarrow> must_escape (escape_map ! type) (ch CHR ''%'')"
proof -
  assume "type < 7" "type \<noteq> NGX_ESCAPE_REFRESH"
  then have "type \<in> set [0, 1, 2, 3, 5, 6]" by auto
  moreover have "\<forall>type\<in>set [0, 1, 2, 3, 5, 6]. must_escape (escape_map ! type) (ch CHR ''%'')" by code_simp
  ultimately show ?thesis by blast
qed

text \<open>
  C39: \<open>ngx_unescape_uri\<close> without flags inverts \<open>ngx_escape_uri\<close> for every type but NGX\_ESCAPE\_REFRESH, whose byte
  class does not contain the percent sign: there an escape in the source is decoded although it was not encoded.
\<close>
theorem ngx_escape_uri_roundtrip:
  "(\<forall>type < 7. type \<noteq> NGX_ESCAPE_REFRESH \<longrightarrow> ngx_unescape_uri (ngx_escape_uri s type) 0 = (s, [])) \<and>
   ngx_unescape_uri (ngx_escape_uri (bytes ''%41'') NGX_ESCAPE_REFRESH) 0 = (bytes ''A'', [])"
proof -
  have "ngx_unescape_uri (ngx_escape_uri (bytes ''%41'') NGX_ESCAPE_REFRESH) 0 = (bytes ''A'', [])" by code_simp
  then show ?thesis
    using escape_loop_decoded [OF percent_escaped] by (simp add: ngx_unescape_uri_def ngx_escape_uri_def)
qed

theorem ngx_escape_uri_roundtrip_witness:
  "ngx_unescape_uri (ngx_escape_uri (bytes ''a b%'') NGX_ESCAPE_ARGS) 0 = (bytes ''a b%'', [])"
  using ngx_escape_uri_roundtrip [of "bytes ''a b%''"] by simp

section \<open>Lengths\<close>

lemma length_escape_loop: "length (escape_loop escape s) = length s + 2 * escape_count escape s"
  by (induction s) auto

lemma length_escape_html: "length (ngx_escape_html s) = length s + ngx_escape_html_count s"
  by (induction s) (auto simp: html_entity_def)

fun pending :: "us_state \<Rightarrow> nat" where
  "pending us_usual = 0" | "pending us_quoted = 1" | "pending us_quoted_second = 2"

lemma length_unescape_second: "unescape_second type d p c = (out, stop) \<Longrightarrow> length out \<le> 3"
  by (auto simp: unescape_second_def Let_def split: if_splits)

lemma length_unescape_loop:
  "length (fst (unescape_loop type st d p s)) + length (snd (unescape_loop type st d p s)) \<le> length s + pending st"
proof (induction type st d p s rule: unescape_loop.induct)
  case (4 type decoded prev c s)
  obtain out stop where o: "unescape_second type decoded prev c = (out, stop)" by fastforce
  show ?case using 4 [OF o [symmetric]] length_unescape_second [OF o] by (auto simp: o split: prod.splits)
qed (auto split: prod.splits)

text \<open>
  The memory that callers provide is enough. \<open>ngx_escape_uri\<close> writes two bytes more than its source for
  each byte that the call with NULL counted, \<open>ngx_escape_html\<close> exactly as many more as its count, and
  \<open>ngx_unescape_uri\<close> never writes more than it has read, so that it can decode in place.
\<close>
theorem ngx_escape_lengths:
  "length (ngx_escape_uri s type) = length s + 2 * ngx_escape_uri_count s type \<and>
   length (ngx_escape_html s) = length s + ngx_escape_html_count s \<and>
   length (fst (ngx_unescape_uri s flags)) + length (snd (ngx_unescape_uri s flags)) \<le> length s"
  using length_unescape_loop [of flags us_usual 0 0 s]
  by (simp add: ngx_escape_uri_def ngx_escape_uri_count_def length_escape_loop length_escape_html ngx_unescape_uri_def)

section \<open>HTML\<close>

text \<open>Reading entities back, as a browser does.\<close>

fun html_decode :: "byte list \<Rightarrow> byte list" where
  "html_decode [] = []"
| "html_decode (c # s) =
     (if c \<noteq> ch CHR ''&'' then c # html_decode s
      else if take 3 s = bytes ''lt;'' then ch CHR ''<'' # html_decode (drop 3 s)
      else if take 3 s = bytes ''gt;'' then ch CHR ''>'' # html_decode (drop 3 s)
      else if take 4 s = bytes ''amp;'' then ch CHR ''&'' # html_decode (drop 4 s)
      else if take 5 s = bytes ''quot;'' then DQUOTE # html_decode (drop 5 s)
      else c # html_decode s)"

lemma html_decode_entity: "html_decode (html_entity c @ s) = c # html_decode s"
  by (auto simp: html_entity_def byte_simps)

text \<open>
  \<open>ngx_escape_html\<close> removes every byte that could start markup or end an attribute, and loses nothing:
  a reader that decodes the four entities gets the source back.
\<close>
theorem ngx_escape_html_safe:
  "set (ngx_escape_html s) \<inter> {ch CHR ''<'', ch CHR ''>'', DQUOTE} = {} \<and>
   html_decode (ngx_escape_html s) = s"
proof -
  have "set (html_entity c) \<inter> {ch CHR ''<'', ch CHR ''>'', DQUOTE} = {}" for c
    by (auto simp: html_entity_def byte_simps)
  then have "set (ngx_escape_html s) \<inter> {ch CHR ''<'', ch CHR ''>'', DQUOTE} = {}"
    by (induction s) auto
  moreover have "html_decode (ngx_escape_html s) = s"
    by (induction s) (simp_all add: html_decode_entity)
  ultimately show ?thesis ..
qed

end
