(* ===== verification/Ngx_Utf8.thy ===== *)
theory Ngx_Utf8
  imports Ngx_Prelude
begin

text \<open>
  UTF-8 of src/core/ngx_string.c: \<open>ngx_utf8_decode\<close> and \<open>ngx_utf8_length\<close>. Pointers are indices into a region; \<open>None\<close> is a
  read outside of it. \<open>n\<close> is a \<open>size_t\<close>, so that \<open>n - 1\<close> wraps for 0.
\<close>

section \<open>The code\<close>

text \<open>The loop over the continuation bytes: \<open>Inl\<close> for the return in the middle.\<close>

fun utf8_cont :: "byte list \<Rightarrow> nat \<Rightarrow> u32 \<Rightarrow> nat \<Rightarrow> (nat + u32 \<times> nat) option" where
  "utf8_cont m i u 0 = Some (Inr (u, i))"
| "utf8_cont m i u (Suc len) = do {
     c \<leftarrow> rd m i;
     (if c < 0x80 then Some (Inl (i + 1))
      else utf8_cont m (i + 1) (push_bit 6 u OR (ucast c AND 0x3f)) len)
   }"

definition utf8_rest :: "byte list \<Rightarrow> nat \<Rightarrow> u64 \<Rightarrow> u32 \<Rightarrow> u32 \<Rightarrow> nat \<Rightarrow> (u32 \<times> nat) option" where
  "utf8_rest m i n u valid len =
     (if n - 1 < of_nat len then Some (0xfffffffe, i)
      else (case utf8_cont m (i + 1) u len of
              None \<Rightarrow> None
            | Some (Inl i) \<Rightarrow> Some (0xffffffff, i)
            | Some (Inr (u, i)) \<Rightarrow> Some (if valid < u then u else 0xffffffff, i)))"

definition ngx_utf8_decode :: "byte list \<Rightarrow> nat \<Rightarrow> u64 \<Rightarrow> (u32 \<times> nat) option" where
  "ngx_utf8_decode m i n = do {
     c \<leftarrow> rd m i;
     let u = (ucast c :: u32);
     (if 0xf0 \<le> u then utf8_rest m i n (u AND 0x07) 0xffff 3
      else if 0xe0 \<le> u then utf8_rest m i n (u AND 0x0f) 0x7ff 2
      else if 0xc2 \<le> u then utf8_rest m i n (u AND 0x1f) 0x7f 1
      else Some (0xffffffff, i + 1))
   }"

lemma utf8_cont_advance: "utf8_cont m i u len = Some (Inr (v, j)) \<Longrightarrow> j = i + len"
  by (induction m i u len rule: utf8_cont.induct) (auto simp: bind_eq_Some_conv split: if_splits)

lemma utf8_decode_advance: "ngx_utf8_decode m i n = Some (u, j) \<Longrightarrow> \<not> 0x10ffff < u \<Longrightarrow> i < j"
  by (auto simp: ngx_utf8_decode_def utf8_rest_def bind_eq_Some_conv Let_def dest: utf8_cont_advance
      split: if_splits option.splits sum.splits prod.splits)

function utf8_length_loop :: "byte list \<Rightarrow> nat \<Rightarrow> nat \<Rightarrow> u64 \<Rightarrow> nat \<Rightarrow> nat option" where
  "utf8_length_loop m i stop n len =
     (if i < stop then
        (case rd m i of
           None \<Rightarrow> None
         | Some c \<Rightarrow>
             if c < 0x80 then utf8_length_loop m (i + 1) stop n (len + 1)
             else (case ngx_utf8_decode m i n of
                     None \<Rightarrow> None
                   | Some (u, j) \<Rightarrow> if 0x10ffff < u then Some (unat n) else utf8_length_loop m j stop n (len + 1)))
      else Some len)"
  by pat_completeness auto
termination
  by (relation "measure (\<lambda>(m, i, stop, n, len). stop - i)") (auto dest!: utf8_decode_advance)

declare utf8_length_loop.simps [simp del]

definition ngx_utf8_length :: "byte list \<Rightarrow> nat \<Rightarrow> nat option" where
  "ngx_utf8_length m n = utf8_length_loop m 0 n (of_nat n) 0"

section \<open>Encoding\<close>

definition utf8_encode :: "nat \<Rightarrow> byte list" where
  "utf8_encode cp =
     (let q = cp div 64; q' = q div 64; q'' = q' div 64
      in if cp < 0x80 then [of_nat cp]
         else if cp < 0x800 then [of_nat (0xc0 + q), of_nat (0x80 + cp mod 64)]
         else if cp < 0x10000 then [of_nat (0xe0 + q'), of_nat (0x80 + q mod 64), of_nat (0x80 + cp mod 64)]
         else [of_nat (0xf0 + q''), of_nat (0x80 + q' mod 64), of_nat (0x80 + q mod 64), of_nat (0x80 + cp mod 64)])"

lemma ucast_of_nat: "a < 256 \<Longrightarrow> (ucast (of_nat a :: byte) :: u32) = of_nat a"
  by (simp add: unsigned_of_nat take_bit_nat_eq_self)

lemma unat_ucast_byte [simp]: "unat (ucast (c :: byte) :: u32) = unat c"
proof -
  have "(ucast c :: u32) = of_nat (unat c)" using ucast_of_nat [OF unat_less_256, of c] by simp
  then show ?thesis using unat_less_256 [of c] by (simp add: unat_of_nat take_bit_nat_eq_self del: of_nat_unat)
qed

lemma of_nat_le_numeral: "a < 2 ^ 32 \<Longrightarrow> (numeral k \<le> (of_nat a :: u32)) \<longleftrightarrow> unat (numeral k :: u32) \<le> a"
  by (simp add: word_le_nat_alt unat_of_nat take_bit_nat_eq_self)

lemma of_nat_less_numeral: "a < 2 ^ 32 \<Longrightarrow> (numeral k < (of_nat a :: u32)) \<longleftrightarrow> unat (numeral k :: u32) < a"
  by (simp add: word_less_nat_alt unat_of_nat take_bit_nat_eq_self)

lemma of_nat_and_mask: "(of_nat a :: u32) AND mask k = of_nat (a mod 2 ^ k)"
proof -
  have "(of_nat a :: u32) AND mask k = of_nat (take_bit k a)" by (simp only: take_bit_eq_mask [symmetric] take_bit_of_nat)
  then show ?thesis unfolding take_bit_eq_mod .
qed

lemma of_nat_and:
  "(of_nat a :: u32) AND 0x3f = of_nat (a mod 64)" "(of_nat a :: u32) AND 0x1f = of_nat (a mod 32)"
  "(of_nat a :: u32) AND 0x0f = of_nat (a mod 16)" "(of_nat a :: u32) AND 0x07 = of_nat (a mod 8)"
  using of_nat_and_mask [of a 6] of_nat_and_mask [of a 5] of_nat_and_mask [of a 4] of_nat_and_mask [of a 3]
  by (simp_all add: mask_numeral)

lemma push_or: "b < 64 \<Longrightarrow> push_bit 6 (of_nat a :: u32) OR of_nat b = of_nat (a * 64 + b)"
proof -
  assume b: "b < 64"
  have "\<not> (bit (push_bit 6 (of_nat a :: u32)) k \<and> bit (of_nat b :: u32) k)" for k
  proof
    assume k: "bit (push_bit 6 (of_nat a :: u32)) k \<and> bit (of_nat b :: u32) k"
    then have "6 \<le> k" "bit b k" by (auto simp: bit_simps)
    then have "2 ^ k \<le> b" using bit_nat_iff not_le by (metis bit_iff_odd div_less even_zero)
    moreover have "(2 :: nat) ^ 6 \<le> 2 ^ k" using \<open>6 \<le> k\<close> by (rule power_increasing) simp
    ultimately show False using b by simp
  qed
  then have "push_bit 6 (of_nat a :: u32) OR of_nat b = push_bit 6 (of_nat a) + of_nat b"
    by (subst disjunctive_add) auto
  then show ?thesis by (simp add: push_bit_eq_mult mult.commute)
qed

lemma byte_ge_0x80: "a < 64 \<Longrightarrow> \<not> (of_nat (128 + a) :: byte) < 128"
  by (simp add: word_less_nat_alt unat_of_nat take_bit_nat_eq_self del: of_nat_add)

lemma utf8_cont_step:
  assumes "i < length m" "m ! i = of_nat (128 + b)" "b < 64"
  shows "utf8_cont m i (of_nat a) (Suc len) = utf8_cont m (i + 1) (of_nat (a * 64 + b)) len"
proof -
  have "(128 + b) mod 64 = b" using assms(3) mod_mult_self1 [of b 2 64] by (simp add: add.commute)
  then have "ucast (m ! i) AND 0x3f = (of_nat b :: u32)"
    using assms(2,3) ucast_of_nat [of "128 + b"] of_nat_and(1) [of "128 + b"] by (simp del: of_nat_add)
  then show ?thesis using assms byte_ge_0x80 [OF assms(3)] push_or [OF assms(3), of a] by simp
qed


section \<open>Correctness\<close>

definition at :: "byte list \<Rightarrow> nat \<Rightarrow> byte list \<Rightarrow> bool" where
  "at m i w \<longleftrightarrow> i + length w \<le> length m \<and> take (length w) (drop i m) = w"

lemma at_Cons: "at m i (c # w) \<longleftrightarrow> i < length m \<and> m ! i = c \<and> at m (i + 1) w"
proof (cases "i < length m")
  case True
  then have "drop i m = m ! i # drop (Suc i) m" by (simp add: Cons_nth_drop_Suc)
  then show ?thesis using True by (auto simp: at_def)
next
  case False
  then show ?thesis by (simp add: at_def)
qed

lemma utf8_rest_ok:
  assumes "len < 2 ^ 63" "len < n" "n < 2 ^ 64"
    and "utf8_cont m (i + 1) (of_nat a) len = Some (Inr (of_nat cp, j))" "v < cp" "cp < 2 ^ 32"
  shows "utf8_rest m i (of_nat n) (of_nat a) (of_nat v) len = Some (of_nat cp, j)"
proof -
  have e: "(of_nat n :: u64) - 1 = of_nat (n - 1)" using assms(2) by (simp add: of_nat_diff)
  have "unat (of_nat (n - 1) :: u64) = n - 1" "unat (of_nat len :: u64) = len"
    using assms(1-3) by (intro unat_of_nat_small; simp)+
  then have "\<not> (of_nat n :: u64) - 1 < of_nat len" unfolding e word_less_nat_alt using assms(2) by linarith
  moreover have "(of_nat v :: u32) < of_nat cp"
    using assms(5,6) by (simp add: word_less_nat_alt unat_of_nat take_bit_nat_eq_self)
  ultimately show ?thesis using assms(4) by (simp add: utf8_rest_def)
qed

lemma div64: "cp = cp div 64 * 64 + cp mod 64" "cp mod 64 < (64 :: nat)"
  by simp_all

lemma utf8_decode_encode:
  assumes cp: "0x80 \<le> cp" "cp \<le> 0x10ffff" and m: "at m i (utf8_encode cp)"
    and n: "length (utf8_encode cp) \<le> n" "n < 2 ^ 64"
  shows "ngx_utf8_decode m i (of_nat n) = Some (of_nat cp, i + length (utf8_encode cp))"
proof -
  define q r q' r' q'' r'' where q: "q = cp div 64" "r = cp mod 64" "q' = q div 64" "r' = q mod 64" "q'' = q' div 64" "r'' = q' mod 64"
  have d: "cp = q * 64 + r" "r < 64" "q = q' * 64 + r'" "r' < 64" "q' = q'' * 64 + r''" "r'' < 64" unfolding q by simp_all
  consider "cp < 0x800" | "0x800 \<le> cp" "cp < 0x10000" | "0x10000 \<le> cp" by linarith
  then show ?thesis
  proof cases
    case 1
    let ?a = "0xc0 + q"
    have a: "?a < 256" "0xc2 \<le> ?a" "?a < 0xe0" "q < 32" using 1 cp d(1,2) by linarith+
    have md: "?a mod 32 = q" using a(4) mod_mult_self1 [of q 6 32] by (simp add: add.commute)
    have e: "utf8_encode cp = [of_nat ?a, of_nat (0x80 + r)]" using 1 cp by (simp add: utf8_encode_def q Let_def)
    have mi: "i < length m" "m ! i = of_nat ?a" "i + 1 < length m" "m ! (i + 1) = of_nat (128 + r)"
      using m unfolding e at_Cons by auto
    have "utf8_cont m (i + 1) (of_nat q) (Suc 0) = Some (Inr (of_nat cp, i + 2))"
      using utf8_cont_step [OF mi(3,4) d(2), of q 0] d(1) by simp
    then have "utf8_rest m i (of_nat n) (of_nat q) (of_nat 0x7f) 1 = Some (of_nat cp, i + 2)"
      using n e cp 1 by (intro utf8_rest_ok) simp_all
    then show ?thesis
      using mi(1,2) a e ucast_of_nat [OF a(1)] of_nat_and(2) [of ?a] of_nat_le_numeral [of ?a] md
      by (simp add: ngx_utf8_decode_def Let_def del: of_nat_add)
  next
    case 2
    let ?a = "0xe0 + q'"
    have a: "?a < 256" "0xe0 \<le> ?a" "?a < 0xf0" "q' < 16" using 2 cp d by linarith+
    have md: "?a mod 16 = q'" using a(4) mod_mult_self1 [of q' 14 16] by (simp add: add.commute)
    have e: "utf8_encode cp = [of_nat ?a, of_nat (0x80 + r'), of_nat (0x80 + r)]" using 2 cp by (simp add: utf8_encode_def q Let_def)
    have mi: "i < length m" "m ! i = of_nat ?a" "i + 1 < length m" "m ! (i + 1) = of_nat (128 + r')"
      "i + 1 + 1 < length m" "m ! (i + 1 + 1) = of_nat (128 + r)"
      using m unfolding e at_Cons by auto
    have "utf8_cont m (i + 1) (of_nat q') (Suc (Suc 0)) = Some (Inr (of_nat cp, i + 3))"
      using utf8_cont_step [OF mi(3,4) d(4), of q' "Suc 0"] utf8_cont_step [OF mi(5,6) d(2), of q 0]
        d(1) d(3) [symmetric] by simp
    then have "utf8_cont m (i + 1) (of_nat q') 2 = Some (Inr (of_nat cp, i + 3))" unfolding numeral_2_eq_2 .
    then have "utf8_rest m i (of_nat n) (of_nat q') (of_nat 0x7ff) 2 = Some (of_nat cp, i + 3)"
      using n e cp 2 by (intro utf8_rest_ok) simp_all
    then show ?thesis
      using mi(1,2) a e ucast_of_nat [OF a(1)] of_nat_and(3) [of ?a] of_nat_le_numeral [of ?a] md
      by (simp add: ngx_utf8_decode_def Let_def del: of_nat_add)
  next
    case 3
    let ?a = "0xf0 + q''"
    have a: "?a < 256" "0xf0 \<le> ?a" "q'' < 8" using 3 cp d by linarith+
    have md: "?a mod 8 = q''" using a(3) mod_mult_self1 [of q'' 30 8] by (simp add: add.commute)
    have e: "utf8_encode cp = [of_nat ?a, of_nat (0x80 + r''), of_nat (0x80 + r'), of_nat (0x80 + r)]"
      using 3 cp by (simp add: utf8_encode_def q Let_def)
    have mi: "i < length m" "m ! i = of_nat ?a" "i + 1 < length m" "m ! (i + 1) = of_nat (128 + r'')"
      "i + 1 + 1 < length m" "m ! (i + 1 + 1) = of_nat (128 + r')"
      "i + 1 + 1 + 1 < length m" "m ! (i + 1 + 1 + 1) = of_nat (128 + r)"
      using m unfolding e at_Cons by auto
    have "utf8_cont m (i + 1) (of_nat q'') (Suc (Suc (Suc 0))) = Some (Inr (of_nat cp, i + 4))"
      using utf8_cont_step [OF mi(3,4) d(6), of q'' "Suc (Suc 0)"] utf8_cont_step [OF mi(5,6) d(4), of q' "Suc 0"]
        utf8_cont_step [OF mi(7,8) d(2), of q 0] d(1) d(3,5) [symmetric] by simp
    then have "utf8_cont m (i + 1) (of_nat q'') 3 = Some (Inr (of_nat cp, i + 4))" unfolding numeral_3_eq_3 .
    then have "utf8_rest m i (of_nat n) (of_nat q'') (of_nat 0xffff) 3 = Some (of_nat cp, i + 4)"
      using n e cp 3 by (intro utf8_rest_ok) simp_all
    then show ?thesis
      using mi(1,2) a e ucast_of_nat [OF a(1)] of_nat_and(4) [of ?a] of_nat_le_numeral [of ?a] md
      by (simp add: ngx_utf8_decode_def Let_def del: of_nat_add)
  qed
qed


text \<open>
  \<open>ngx_utf8_decode\<close> decodes the UTF-8 encoding of every character from 0x80 to 0x10ffff, in two, three or four bytes,
  and leaves the pointer behind it.
\<close>
theorem ngx_utf8_decode_encode:
  assumes "0x80 \<le> cp" "cp \<le> 0x10ffff" "at m i (utf8_encode cp)" "length (utf8_encode cp) \<le> n" "n < 2 ^ 64"
  shows "ngx_utf8_decode m i (of_nat n) = Some (of_nat cp, i + length (utf8_encode cp))"
  by (rule utf8_decode_encode [OF assms])

theorem ngx_utf8_decode_encode_witness:
  "ngx_utf8_decode [0xe2, 0x82, 0xac] 0 (of_nat 3) = Some (of_nat 0x20ac, 3)"
  using ngx_utf8_decode_encode [of "0x20ac" "[0xe2, 0x82, 0xac]" 0 3] by (simp add: utf8_encode_def at_def)

section \<open>ngx\_utf8\_length\<close>

lemma length_utf8_encode: "0 < length (utf8_encode cp)"
  by (simp add: utf8_encode_def Let_def)

lemma utf8_length_step:
  assumes cp: "cp \<le> 0x10ffff" and m: "at m i (utf8_encode cp)" and i: "i + length (utf8_encode cp) \<le> n" "n < 2 ^ 64"
  shows "utf8_length_loop m i n (of_nat n) len = utf8_length_loop m (i + length (utf8_encode cp)) n (of_nat n) (len + 1)"
proof -
  have il: "i < n" using i length_utf8_encode [of cp] by linarith
  show ?thesis
  proof (cases "cp < 0x80")
    case True
    then have "utf8_encode cp = [of_nat cp]" by (simp add: utf8_encode_def)
    moreover have "(of_nat cp :: byte) < 0x80" using True by (simp add: word_less_nat_alt unat_of_nat take_bit_nat_eq_self)
    ultimately show ?thesis using m il by (subst utf8_length_loop.simps) (simp add: at_Cons)
  next
    case False
    then have d: "ngx_utf8_decode m i (of_nat n) = Some (of_nat cp, i + length (utf8_encode cp))"
      using utf8_decode_encode [of cp m i n] cp m i by simp
    obtain c w where e: "utf8_encode cp = c # w" "\<not> c < 0x80"
    proof (cases "utf8_encode cp")
      case Nil
      then show thesis using length_utf8_encode [of cp] by simp
    next
      case (Cons c w)
      then have c: "rd m i = Some c" using m by (simp add: at_Cons)
      have "\<not> c < 0x80"
      proof
        assume "c < 0x80"
        then have "(ucast c :: u32) < 0x80" by (simp add: word_less_nat_alt)
        then have "ngx_utf8_decode m i (of_nat n) = Some (0xffffffff, i + 1)"
          using c by (simp add: ngx_utf8_decode_def Let_def word_le_nat_alt word_less_nat_alt)
        then have "(of_nat cp :: u32) = 0xffffffff" using d by simp
        then have "unat (of_nat cp :: u32) = unat (0xffffffff :: u32)" by simp
        then show False using cp by (simp add: unat_of_nat take_bit_nat_eq_self)
      qed
      then show thesis using that Cons by blast
    qed
    have "\<not> 0x10ffff < (of_nat cp :: u32)"
      using cp by (simp add: word_less_nat_alt unat_of_nat take_bit_nat_eq_self)
    then show ?thesis using d e m il by (subst utf8_length_loop.simps) (simp add: at_Cons)
  qed
qed

lemma at_append: "at m i (v @ w) \<longleftrightarrow> at m i v \<and> at m (i + length v) w"
proof (induction v arbitrary: i)
  case Nil
  then show ?case by (auto simp: at_def)
qed (simp add: at_Cons)

lemma utf8_length_loop_chars:
  "list_all (\<lambda>cp. cp \<le> 0x10ffff) cps \<Longrightarrow> at m i (concat (map utf8_encode cps)) \<Longrightarrow>
   i + length (concat (map utf8_encode cps)) = n \<Longrightarrow> n < 2 ^ 64 \<Longrightarrow>
   utf8_length_loop m i n (of_nat n) len = Some (len + length cps)"
proof (induction cps arbitrary: i len)
  case Nil
  then show ?case by (subst utf8_length_loop.simps) simp
next
  case (Cons cp cps)
  then have "utf8_length_loop m i n (of_nat n) len = utf8_length_loop m (i + length (utf8_encode cp)) n (of_nat n) (len + 1)"
    by (intro utf8_length_step) (auto simp: at_append)
  then show ?case using Cons by (simp add: at_append)
qed

text \<open>
  \<open>ngx_utf8_length\<close> counts the characters of every well formed text. It passes the length of the whole string
  to \<open>ngx_utf8_decode\<close>, not the length of the rest: for ASCII text that ends in the first byte of a two-byte
  sequence it reads the byte behind the string.
\<close>
theorem ngx_utf8_length_counts:
  assumes "list_all (\<lambda>cp. cp \<le> 0x10ffff) cps" "length (concat (map utf8_encode cps)) < 2 ^ 64"
    and ascii: "t \<noteq> []" "list_all (\<lambda>c. c < 0x80) t" "length t < 2 ^ 63" and lead: "0xc2 \<le> c" "c < 0xe0"
  shows "ngx_utf8_length (concat (map utf8_encode cps)) (length (concat (map utf8_encode cps))) = Some (length cps) \<and>
    ngx_utf8_length (t @ [c]) (length (t @ [c])) = None"
proof -
  let ?w = "concat (map utf8_encode cps)" and ?m = "t @ [c]" and ?n = "of_nat (length (t @ [c])) :: u64"
  have "at ?w 0 ?w" by (simp add: at_def)
  then have 1: "ngx_utf8_length ?w (length ?w) = Some (length cps)"
    using utf8_length_loop_chars [OF assms(1), of ?w 0 "length ?w" 0] assms(2) by (simp add: ngx_utf8_length_def)
  have n: "\<not> ?n - 1 < of_nat 1"
  proof -
    have "?n - 1 = of_nat (length t)" by simp
    moreover have "unat (of_nat (length t) :: u64) = length t" using ascii(3) by (intro unat_of_nat_small) simp
    ultimately show ?thesis using ascii(1) by (simp add: word_less_nat_alt)
  qed
  have "0xc2 \<le> (ucast c :: u32)" "\<not> 0xe0 \<le> (ucast c :: u32)"
    using lead by (simp_all add: word_le_nat_alt word_less_nat_alt)
  then have "ngx_utf8_decode ?m (length t) ?n = None"
    using n by (auto simp: ngx_utf8_decode_def utf8_rest_def Let_def rd_def word_le_nat_alt)
  moreover have "\<not> c < 0x80" using lead by (auto simp: word_le_nat_alt word_less_nat_alt)
  ultimately have last: "utf8_length_loop ?m (length t) (length ?m) ?n k = None" for k
    by (subst utf8_length_loop.simps) (simp add: rd_def)
  have "utf8_length_loop ?m i (length ?m) ?n k = None" if "i \<le> length t" for i k
    using that
  proof (induction "length t - i" arbitrary: i k)
    case 0
    then show ?case using last by simp
  next
    case (Suc x)
    then have i: "i < length t" by simp
    then have "t ! i < 0x80" using ascii(2) by (simp add: list_all_length)
    then show ?case using Suc.hyps(1) [of "i + 1"] Suc.hyps(2) i
      by (subst utf8_length_loop.simps) (simp add: rd_def nth_append)
  qed
  then show ?thesis using 1 by (simp add: ngx_utf8_length_def)
qed

theorem ngx_utf8_length_counts_witness:
  "ngx_utf8_length [0xc3, 0xa9, 0x21] 3 = Some 2 \<and> ngx_utf8_length [0x61, 0xc3] 2 = None"
proof -
  have w: "concat (map utf8_encode [0xe9, 0x21]) = [0xc3, 0xa9, 0x21]" by (simp add: utf8_encode_def)
  have "list_all (\<lambda>cp. cp \<le> 0x10ffff) [0xe9, 0x21 :: nat]" "length [0xc3, 0xa9, 0x21 :: byte] < 2 ^ 64" "[0x61 :: byte] \<noteq> []"
    "list_all (\<lambda>c. c < 0x80) [0x61 :: byte]" "length [0x61 :: byte] < 2 ^ 63" "0xc2 \<le> (0xc3 :: byte)" "0xc3 < (0xe0 :: byte)"
    by simp_all
  note th = ngx_utf8_length_counts [of "[0xe9, 0x21]", unfolded w, OF this]
  have "length [0xc3, 0xa9, 0x21 :: byte] = 3" "length [0xe9, 0x21 :: nat] = 2" "length [0x61, 0xc3 :: byte] = 2"
    "[0x61] @ [0xc3] = [0x61, 0xc3 :: byte]" by simp_all
  from th [unfolded this] show ?thesis .
qed

end
