(* ===== verification/Double.thy ===== *)
theory Double
  imports Complex_Main
begin

text \<open>Numbers of the type \<open>double\<close>: a double is a rational number, and every operation rounds its exact result.\<close>

text \<open>
  The rounding of a number to a \<open>double\<close>, to nearest with ties to even: \<open>dbl_exp\<close> is the exponent of the
  number, and the result has 53 significant bits. Overflow, underflow and the special values are not represented.
\<close>

fun bit_size :: "nat \<Rightarrow> nat" where
  "bit_size n = (if n = 0 then 0 else Suc (bit_size (n div 2)))"

declare bit_size.simps [simp del]

definition dbl_exp :: "rat \<Rightarrow> int" where
  "dbl_exp x = (let (a, b) = quotient_of x; e = int (bit_size (nat a)) - int (bit_size (nat b))
     in if 2 powi e \<le> x then e else e - 1)"

definition round_even :: "rat \<Rightarrow> int" where
  "round_even q = (let n = floor q; f = q - of_int n
     in if f < 1 / 2 \<or> (f = 1 / 2 \<and> even n) then n else n + 1)"

definition dbl :: "rat \<Rightarrow> rat" where
  "dbl x = (if x = 0 then 0
     else let u = 2 powi (dbl_exp \<bar>x\<bar> - 52); r = of_int (round_even (\<bar>x\<bar> / u)) * u
          in if x < 0 then - r else r)"

section \<open>Bounds\<close>

lemma bit_size_bounds: "n < 2 ^ bit_size n" "0 < n \<Longrightarrow> 2 ^ (bit_size n - 1) \<le> n"
proof -
  show "n < 2 ^ bit_size n"
  proof (induction n rule: bit_size.induct)
    case (1 n)
    then show ?case by (subst bit_size.simps) auto
  qed
  show "2 ^ (bit_size n - 1) \<le> n" if "0 < n"
    using that
  proof (induction n rule: bit_size.induct)
    case (1 n)
    show ?case
    proof (cases "n = 1")
      case True
      then show ?thesis by (simp add: bit_size.simps)
    next
      case False
      then have "0 < n div 2" using 1 by simp
      moreover from this have "0 < bit_size (n div 2)" by (subst bit_size.simps) simp
      ultimately have "2 ^ (bit_size (n div 2) - 1) \<le> n div 2" "2 ^ bit_size (n div 2) = 2 * (2 ^ (bit_size (n div 2) - 1) :: nat)"
        using 1 by (auto simp flip: power_Suc)
      then have "2 ^ bit_size (n div 2) \<le> n" by linarith
      then show ?thesis using 1 by (subst bit_size.simps) simp
    qed
  qed
qed

lemma powi_diff: "(2 :: rat) powi (int k - int n) = 2 ^ k / 2 ^ n"
  by (simp add: power_int_diff)

lemma dbl_exp_le:
  assumes "0 < x"
  shows "2 powi dbl_exp x \<le> x"
proof -
  obtain a b where ab: "quotient_of x = (a, b)" by (cases "quotient_of x")
  have b: "0 < b" by (rule quotient_of_denom_pos [OF ab])
  have x: "x = of_int a / of_int b" by (rule quotient_of_div [OF ab])
  have a: "0 < a" using assms b unfolding x by (simp add: zero_less_divide_iff)
  let ?m = "bit_size (nat a)" and ?n = "bit_size (nat b)"
  have "0 < ?m" using a by (subst bit_size.simps) simp
  have "int (2 ^ (?m - 1)) \<le> int (nat a)" "int (nat b) < int (2 ^ ?n)"
    using bit_size_bounds [of "nat a"] bit_size_bounds(1) [of "nat b"] a by (simp_all only: of_nat_le_iff of_nat_less_iff zero_less_nat_eq)
  then have "2 ^ (?m - 1) \<le> a" "b \<le> 2 ^ ?n" using a b by simp_all
  then have "(of_int (2 ^ (?m - 1)) :: rat) \<le> of_int a" "of_int b \<le> (of_int (2 ^ ?n) :: rat)"
    by (simp_all only: of_int_le_iff)
  then have "(2 :: rat) ^ (?m - 1) \<le> of_int a" "of_int b \<le> (2 :: rat) ^ ?n" by (simp_all only: of_int_power of_int_numeral)
  then have "(2 :: rat) ^ (?m - 1) / 2 ^ ?n \<le> of_int a / of_int b" using a b by (intro frac_le) auto
  moreover have "(2 :: rat) powi (int ?m - int ?n - 1) = 2 ^ (?m - 1) / 2 ^ ?n"
  proof -
    have "int ?m - int ?n - 1 = int (?m - 1) - int ?n" using \<open>0 < ?m\<close> by simp
    then show ?thesis by (simp only: powi_diff)
  qed
  ultimately have "2 powi (int ?m - int ?n - 1) \<le> x" unfolding x by (simp only:)
  moreover have "dbl_exp x = (if 2 powi (int ?m - int ?n) \<le> x then int ?m - int ?n else int ?m - int ?n - 1)"
    by (simp only: dbl_exp_def ab Let_def prod.case)
  ultimately show ?thesis by (cases "2 powi (int ?m - int ?n) \<le> x") (simp_all only: if_True if_False)
qed

lemma dbl_bounds:
  assumes "0 \<le> x"
  shows "0 \<le> dbl x" "dbl x \<le> 2 * x"
proof -
  have "0 \<le> dbl x \<and> dbl x \<le> 2 * x"
  proof (cases "x = 0")
    case False
    then have x: "0 < x" using assms by simp
    define u :: rat where "u = 2 powi (dbl_exp x - 52)"
    have u: "0 < u" by (simp add: u_def)
    have "u = 2 powi dbl_exp x / 2 ^ 52" by (simp add: u_def power_int_diff)
    also have "\<dots> \<le> 2 powi dbl_exp x" by simp
    finally have "u \<le> x" using dbl_exp_le [OF x] by linarith
    then have q: "1 \<le> x / u" using u by (simp add: pos_le_divide_eq)
    have fl: "0 \<le> \<lfloor>x / u\<rfloor>" "of_int \<lfloor>x / u\<rfloor> \<le> x / u" using q by simp_all
    have "0 \<le> round_even (x / u)" "round_even (x / u) \<le> \<lfloor>x / u\<rfloor> + 1" using fl by (auto simp: round_even_def Let_def)
    then have "(0 :: rat) \<le> of_int (round_even (x / u))" "of_int (round_even (x / u)) \<le> (of_int (\<lfloor>x / u\<rfloor> + 1) :: rat)"
      by (simp_all only: of_int_0_le_iff of_int_le_iff)
    then have "(0 :: rat) \<le> of_int (round_even (x / u))" "of_int (round_even (x / u)) \<le> 2 * (x / u)" using fl q by linarith+
    then have "of_int (round_even (x / u)) * u \<le> 2 * (x / u) * u" "0 \<le> of_int (round_even (x / u)) * u"
      using u by (intro mult_right_mono mult_nonneg_nonneg; simp)+
    moreover have "2 * (x / u) * u = 2 * x" using u by simp
    ultimately show ?thesis using x by (simp add: dbl_def Let_def u_def)
  qed (simp add: dbl_def)
  then show "0 \<le> dbl x" "dbl x \<le> 2 * x" by auto
qed

end
