(* ===== verification/Decimal.thy ===== *)
theory Decimal
  imports Ngx_Numbers
begin

text \<open>
  Decimal numerals of natural numbers, as the output functions of the C and C++ libraries and
  \<open>ngx_sprintf\<close> print them; the readers of numbers invert them.
\<close>

fun dec_show :: "nat \<Rightarrow> byte list" where
  "dec_show n = (if n < 10 then [of_nat (48 + n)] else dec_show (n div 10) @ [of_nat (48 + n mod 10)])"

declare dec_show.simps [simp del]

lemma digit_of_nat:
  assumes "d < 10"
  shows "is_digit (of_nat (48 + d))" "digit_val (of_nat (48 + d)) = d"
proof -
  have "unat (of_nat (48 + d) :: byte) = 48 + d" 
    unfolding unat_of_nat using assms by simp
  then show "is_digit (of_nat (48 + d))" "digit_val (of_nat (48 + d)) = d"
    using assms by (simp_all add: is_digit_unat digit_val_def)
qed

lemma dec_show_digits: "list_all is_digit (dec_show n)"
proof (induction n rule: dec_show.induct)
  case (1 n)
  then show ?case using digit_of_nat [of n] digit_of_nat [of "n mod 10"] by (subst dec_show.simps) auto
qed

lemma dec_show_value [simp]: "dec_value (dec_show n) = n"
proof (induction n rule: dec_show.induct)
  case (1 n)
  then show ?case using digit_of_nat [of n] digit_of_nat [of "n mod 10"] by (subst dec_show.simps) auto
qed

lemma dec_show_nonempty [simp]: "dec_show n \<noteq> []"
  by (subst dec_show.simps) simp

lemma dec_show_0: "dec_show 0 = bytes ''0''"
  by (simp add: dec_show.simps byte_simps)

lemma dec_show_length: "0 < k \<Longrightarrow> length (dec_show n) \<le> k \<longleftrightarrow> n < 10 ^ k"
proof (induction n arbitrary: k rule: dec_show.induct)
  case (1 n)
  then obtain j where k: "k = Suc j" by (cases k) auto
  show ?case
  proof (cases "n < 10")
    case True
    moreover have "n < 10 ^ k" using True power_increasing [of 1 k "10 :: nat"] 1(2) by (simp add: Suc_le_eq)
    ultimately show ?thesis using k by (subst dec_show.simps) simp
  next
    case False
    show ?thesis
    proof (cases j)
      case 0
      then show ?thesis using False k by (subst dec_show.simps) simp
    next
      case (Suc i)
      then have "length (dec_show (n div 10)) \<le> j \<longleftrightarrow> n div 10 < 10 ^ j" using 1 False by blast
      moreover have "n div 10 < 10 ^ j \<longleftrightarrow> n < 10 ^ k" using k by (simp add: div_less_iff_less_mult mult.commute)
      ultimately show ?thesis using False k by (subst dec_show.simps) simp
    qed
  qed
qed

end
