(* ===== verification/Ngx_Sprintf.thy ===== *)
theory Ngx_Sprintf
  imports Double Decimal
begin

text \<open>
  Formatted output, \<open>ngx_vslprintf\<close> and its callers in src/core/ngx_string.c. The format is the bytes of the C string in front
  of its NUL, the arguments are a list of tagged values, and the output is the list of the bytes written from
  \<open>buf\<close> on; \<open>cap\<close> is \<open>last - buf\<close> at the start. A result \<open>None\<close> is undefined behaviour: an argument that is missing
  or of another type, a string that is read behind its memory, a format that ends inside of a directive, or a
  \<open>double\<close> that does not fit.
\<close>

section \<open>Numbers\<close>

abbreviation (input) NGX_INT64_LEN :: nat where "NGX_INT64_LEN \<equiv> 20"

text \<open>
  The loops that write the digits into \<open>temp\<close> from the end; \<open>p\<close> is the number of free bytes in front of the
  pointer. The 32-bit and the 64-bit loop differ in the type.
\<close>

fun dec_loop :: "nat \<Rightarrow> 'a :: len word \<Rightarrow> byte list \<Rightarrow> byte list option" where
  "dec_loop 0 n ds = None"
| "dec_loop (Suc p) n ds =
     (let ds = (ucast (n mod 10) + ch CHR ''0'') # ds; n = n div 10 in if n = 0 then Some ds else dec_loop p n ds)"

definition HEX_digits :: "byte list" where
  "HEX_digits = bytes ''0123456789ABCDEF''"

fun hex_loop :: "byte list \<Rightarrow> nat \<Rightarrow> u64 \<Rightarrow> byte list \<Rightarrow> byte list option" where
  "hex_loop tab 0 n ds = None"
| "hex_loop tab (Suc p) n ds =
     (let ds = tab ! unat (n AND 0xf) # ds; n = drop_bit 4 n in if n = 0 then Some ds else hex_loop tab p n ds)"

definition ngx_sprintf_num :: "nat \<Rightarrow> u64 \<Rightarrow> byte \<Rightarrow> nat \<Rightarrow> u64 \<Rightarrow> byte list \<Rightarrow> byte list option" where
  "ngx_sprintf_num cap ui64 zero hexadecimal width out = do {
     ds \<leftarrow> (if hexadecimal = 0 then
              (if ui64 \<le> 0xffffffff then dec_loop NGX_INT64_LEN (ucast ui64 :: u32) [] else dec_loop NGX_INT64_LEN ui64 [])
            else hex_loop (if hexadecimal = 1 then hex_digits else HEX_digits) NGX_INT64_LEN ui64 []);
     let out = out @ replicate (min (unat width - length ds) (cap - length out)) zero;
     let len = (if length out + length ds > cap then cap - length out else length ds);
     Some (out @ take len ds)
   }"

section \<open>Directives\<close>

datatype va_arg = V64 u64 | V32 u32 | VStr "byte list" | VMem "byte list" | VDouble rat

record fmt_spec =
  fs_zero :: byte
  fs_width :: u64
  fs_sign :: bool
  fs_hex :: nat
  fs_max_width :: bool
  fs_frac_width :: u64
  fs_slen :: u64

fun read_width :: "byte list \<Rightarrow> u64 \<Rightarrow> u64 \<times> byte list" where
  "read_width [] w = (w, [])"
| "read_width (c # fmt) w = (if is_digit c then read_width fmt (w * 10 + ucast c - 48) else (w, c # fmt))"

fun fmt_flags :: "byte list \<Rightarrow> va_arg list \<Rightarrow> fmt_spec \<Rightarrow> (byte list \<times> va_arg list \<times> fmt_spec) option" where
  "fmt_flags [] args sp = Some ([], args, sp)"
| "fmt_flags (c # fmt) args sp =
     (if c = ch CHR ''u'' then fmt_flags fmt args (sp\<lparr>fs_sign := False\<rparr>)
      else if c = ch CHR ''m'' then fmt_flags fmt args (sp\<lparr>fs_max_width := True\<rparr>)
      else if c = ch CHR ''X'' then fmt_flags fmt args (sp\<lparr>fs_hex := 2, fs_sign := False\<rparr>)
      else if c = ch CHR ''x'' then fmt_flags fmt args (sp\<lparr>fs_hex := 1, fs_sign := False\<rparr>)
      else if c = ch CHR ''.'' then (let (w, fmt) = read_width fmt (fs_frac_width sp) in Some (fmt, args, sp\<lparr>fs_frac_width := w\<rparr>))
      else if c = ch CHR ''*'' then
        (case args of V64 n # args \<Rightarrow> fmt_flags fmt args (sp\<lparr>fs_slen := n\<rparr>) | _ \<Rightarrow> None)
      else Some (c # fmt, args, sp))"

text \<open>\<open>%V\<close> and \<open>%v\<close>; \<open>%s\<close> copies up to a NUL, or the given number of bytes.\<close>

definition put_str :: "nat \<Rightarrow> byte list \<Rightarrow> byte list \<Rightarrow> byte list" where
  "put_str cap s out = out @ take (cap - length out) s"

definition put_mem :: "nat \<Rightarrow> u64 \<Rightarrow> byte list \<Rightarrow> byte list \<Rightarrow> byte list option" where
  "put_mem cap slen m out =
     (if slen = - 1 then
        (let s = takeWhile (\<lambda>c. c \<noteq> 0) m
         in if length s = length m \<and> length s \<le> cap - length out then None else Some (put_str cap s out))
      else let len = min (cap - length out) (unat slen) in if length m < len then None else Some (out @ take len m))"

text \<open>The integer arguments: the sign flag, the value and the rest of the specification.\<close>

definition int_arg :: "byte \<Rightarrow> va_arg \<Rightarrow> fmt_spec \<Rightarrow> (u64 \<times> fmt_spec) option" where
  "int_arg c a sp =
     (case a of
        V64 n \<Rightarrow>
          if c \<in> set (bytes ''OTr'') then Some (n, sp\<lparr>fs_sign := True\<rparr>)
          else if c = ch CHR ''M'' then Some (n, sp\<lparr>fs_sign := (n = - 1)\<rparr>)
          else if c \<in> set (bytes ''zlL'') then Some (n, sp)
          else if c \<in> set (bytes ''iA'') then Some (n, if fs_max_width sp then sp\<lparr>fs_width := of_nat NGX_INT64_LEN\<rparr> else sp)
          else if c = ch CHR ''p'' then Some (n, sp\<lparr>fs_hex := 2, fs_sign := False, fs_zero := ch CHR ''0'', fs_width := 16\<rparr>)
          else None
      | V32 n \<Rightarrow>
          if c = ch CHR ''P'' then Some (scast n, sp\<lparr>fs_sign := True\<rparr>)
          else if c \<in> set (bytes ''dD'') then Some (if fs_sign sp then scast n else ucast n, sp)
          else None
      | _ \<Rightarrow> None)"

definition put_int :: "nat \<Rightarrow> u64 \<Rightarrow> fmt_spec \<Rightarrow> byte list \<Rightarrow> byte list option" where
  "put_int cap n sp out =
     (if fs_sign sp \<and> n <s 0 then ngx_sprintf_num cap (- n) (fs_zero sp) (fs_hex sp) (fs_width sp) (out @ [ch CHR ''-''])
      else ngx_sprintf_num cap n (fs_zero sp) (fs_hex sp) (fs_width sp) out)"

primrec scale_of :: "nat \<Rightarrow> u64 \<Rightarrow> u64" where
  "scale_of 0 s = s"
| "scale_of (Suc n) s = scale_of n (s * 10)"

definition put_fixed :: "nat \<Rightarrow> u64 \<Rightarrow> u64 \<Rightarrow> fmt_spec \<Rightarrow> byte list \<Rightarrow> byte list option" where
  "put_fixed cap ui64 frc sp out = do {
     out \<leftarrow> ngx_sprintf_num cap ui64 (fs_zero sp) 0 (fs_width sp) out;
     (if fs_frac_width sp = 0 then Some out
      else ngx_sprintf_num cap frc (ch CHR ''0'') 0 (fs_frac_width sp) (if length out < cap then out @ [ch CHR ''.''] else out))
   }"

definition put_double :: "nat \<Rightarrow> rat \<Rightarrow> fmt_spec \<Rightarrow> byte list \<Rightarrow> byte list option" where
  "put_double cap f sp out =
     (let out = (if f < 0 then out @ [ch CHR ''-''] else out); f = \<bar>f\<bar>
      in if 2 ^ 63 \<le> f then None
         else let ui64 = of_int \<lfloor>f\<rfloor> :: u64; fw = fs_frac_width sp; scale = scale_of (unat fw) 1;
                  x = dbl (dbl (dbl (f - of_int \<lfloor>f\<rfloor>) * dbl (of_nat (unat scale))) + 1 / 2);
                  frc = (if fw = 0 then 0 else of_int \<lfloor>x\<rfloor>);
                  (ui64, frc) = (if fw \<noteq> 0 \<and> frc = scale then (ui64 + 1, 0) else (ui64, frc))
              in if 2 ^ 64 \<le> x then None else put_fixed cap ui64 frc sp out)"

definition convert :: "nat \<Rightarrow> byte \<Rightarrow> va_arg list \<Rightarrow> fmt_spec \<Rightarrow> byte list \<Rightarrow> (va_arg list \<times> byte list) option" where
  "convert cap c args sp out =
     (if c \<in> set (bytes ''Vv'') then (case args of VStr s # args \<Rightarrow> Some (args, put_str cap s out) | _ \<Rightarrow> None)
      else if c = ch CHR ''s'' then
        (case args of VMem m # args \<Rightarrow> map_option (Pair args) (put_mem cap (fs_slen sp) m out) | _ \<Rightarrow> None)
      else if c \<in> set (bytes ''OPTMzidlDLArp'') then
        (case args of
           a # args \<Rightarrow> do { (n, sp) \<leftarrow> int_arg c a sp; out \<leftarrow> put_int cap n sp out; Some (args, out) }
         | [] \<Rightarrow> None)
      else if c = ch CHR ''f'' then
        (case args of VDouble f # args \<Rightarrow> map_option (Pair args) (put_double cap f sp out) | _ \<Rightarrow> None)
      else if c = ch CHR ''c'' then (case args of V32 d # args \<Rightarrow> Some (args, out @ [ucast (d AND 0xff)]) | _ \<Rightarrow> None)
      else if c = ch CHR ''Z'' then Some (args, out @ [0])
      else if c = ch CHR ''N'' then Some (args, out @ [10])
      else Some (args, out @ [c]))"

definition directive :: "nat \<Rightarrow> byte list \<Rightarrow> va_arg list \<Rightarrow> byte list \<Rightarrow> (byte list \<times> va_arg list \<times> byte list) option" where
  "directive cap fmt args out =
     (let zero = (if fmt \<noteq> [] \<and> hd fmt = ch CHR ''0'' then ch CHR ''0'' else 32); (width, fmt) = read_width fmt 0
      in do {
        (fmt, args, sp) \<leftarrow> fmt_flags fmt args \<lparr>fs_zero = zero, fs_width = width, fs_sign = True, fs_hex = 0,
                             fs_max_width = False, fs_frac_width = 0, fs_slen = - 1\<rparr>;
        (case fmt of
           [] \<Rightarrow> None
         | c # fmt \<Rightarrow> do { (args, out) \<leftarrow> convert cap c args sp out; Some (fmt, args, out) })
      })"

lemma read_width_length: "read_width fmt w = (w', fmt') \<Longrightarrow> length fmt' \<le> length fmt"
  by (induction fmt w rule: read_width.induct) (auto split: if_splits)

lemma fmt_flags_length: "fmt_flags fmt args sp = Some (fmt', args', sp') \<Longrightarrow> length fmt' \<le> length fmt"
  by (induction fmt args sp rule: fmt_flags.induct)
     (auto split: if_splits list.splits va_arg.splits prod.splits dest: read_width_length)

lemma directive_Some:
  assumes "directive cap fmt args out = Some (fmt', args', out')"
  shows "length fmt' < length fmt \<and> (\<exists>c args1 sp. convert cap c args1 sp out = Some (args', out'))"
proof -
  obtain w fmt1 where w: "read_width fmt 0 = (w, fmt1)" by (cases "read_width fmt 0")
  then obtain fmt2 args2 sp where f: "fmt_flags fmt1 args \<lparr>fs_zero = if fmt \<noteq> [] \<and> hd fmt = ch CHR ''0'' then ch CHR ''0'' else 32,
      fs_width = w, fs_sign = True, fs_hex = 0, fs_max_width = False, fs_frac_width = 0, fs_slen = - 1\<rparr> = Some (fmt2, args2, sp)"
    using assms by (auto simp: directive_def bind_eq_Some_conv)
  then obtain c fmt3 where c: "fmt2 = c # fmt3" using assms w by (cases fmt2) (auto simp: directive_def)
  then have "convert cap c args2 sp out = Some (args', out')" "fmt' = fmt3"
    using assms w f by (auto simp: directive_def bind_eq_Some_conv)
  then show ?thesis using read_width_length [OF w] fmt_flags_length [OF f] c by auto
qed

section \<open>The loop\<close>

function ngx_vslprintf :: "nat \<Rightarrow> byte list \<Rightarrow> va_arg list \<Rightarrow> byte list \<Rightarrow> byte list option" where
  "ngx_vslprintf cap fmt args out =
     (case fmt of
        [] \<Rightarrow> Some out
      | c # fmt \<Rightarrow>
          if \<not> length out < cap then Some out
          else if c = ch CHR ''%'' then
            (case directive cap fmt args out of
               None \<Rightarrow> None
             | Some (fmt, args, out) \<Rightarrow> ngx_vslprintf cap fmt args out)
          else ngx_vslprintf cap fmt args (out @ [c]))"
  by pat_completeness auto
termination
  by (relation "measure (\<lambda>(cap, fmt, args, out). length fmt)") (auto dest: directive_Some)

declare ngx_vslprintf.simps [simp del]

text \<open>The callers: \<open>ngx_sprintf\<close> has the end of the address space as \<open>last\<close>.\<close>

definition ngx_snprintf :: "nat \<Rightarrow> byte list \<Rightarrow> va_arg list \<Rightarrow> byte list option" where
  "ngx_snprintf mx fmt args = ngx_vslprintf mx fmt args []"

definition ngx_slprintf :: "addr \<Rightarrow> addr \<Rightarrow> byte list \<Rightarrow> va_arg list \<Rightarrow> byte list option" where
  "ngx_slprintf buf lst fmt args = ngx_vslprintf (lst - buf) fmt args []"

definition ngx_sprintf :: "addr \<Rightarrow> byte list \<Rightarrow> va_arg list \<Rightarrow> byte list option" where
  "ngx_sprintf buf fmt args = ngx_vslprintf (2 ^ 64 - 1 - buf) fmt args []"


section \<open>Room\<close>

text \<open>The output is extended, and not over the end.\<close>

definition grows :: "nat \<Rightarrow> byte list \<Rightarrow> byte list \<Rightarrow> bool" where
  "grows cap out r \<longleftrightarrow> (\<exists>xs. r = out @ xs) \<and> length r \<le> cap"

lemma grows_trans: "grows cap out r \<Longrightarrow> grows cap r r' \<Longrightarrow> grows cap out r'"
  by (auto simp: grows_def)

lemma grows_snoc: "length out < cap \<Longrightarrow> grows cap out (out @ [c])"
  by (simp add: grows_def)

lemma grows_take: "length out \<le> cap \<Longrightarrow> n \<le> cap - length out \<Longrightarrow> grows cap out (out @ take n s)"
  by (auto simp: grows_def min_def)

lemma ngx_sprintf_num_grows:
  assumes "ngx_sprintf_num cap n zero hx w out = Some r" "length out \<le> cap"
  shows "grows cap out r"
proof -
  obtain ds where r: "r = (let out = out @ replicate (min (unat w - length ds) (cap - length out)) zero;
     len = (if length out + length ds > cap then cap - length out else length ds) in out @ take len ds)"
    using assms(1) unfolding ngx_sprintf_num_def by (auto simp: bind_eq_Some_conv simp del: take_append)
  show ?thesis using assms(2) unfolding r Let_def by (auto simp: grows_def min_def)
qed

lemma put_str_grows: "length out \<le> cap \<Longrightarrow> grows cap out (put_str cap s out)"
  unfolding put_str_def by (rule grows_take) auto

lemma put_mem_grows: "put_mem cap slen m out = Some r \<Longrightarrow> length out \<le> cap \<Longrightarrow> grows cap out r"
  using put_str_grows grows_take by (auto simp: put_mem_def Let_def split: if_splits)

lemma put_int_grows:
  assumes "put_int cap n sp out = Some r" "length out < cap"
  shows "grows cap out r"
proof (cases "fs_sign sp \<and> n <s 0")
  case True
  then have "grows cap (out @ [ch CHR ''-'']) r"
    using assms by (intro ngx_sprintf_num_grows) (auto simp: put_int_def)
  then show ?thesis using grows_snoc [OF assms(2)] grows_trans by blast
next
  case False
  then show ?thesis using assms by (intro ngx_sprintf_num_grows) (auto simp: put_int_def)
qed

lemma put_fixed_grows:
  assumes "put_fixed cap n k sp out = Some r" "length out \<le> cap"
  shows "grows cap out r"
proof -
  obtain r1 where n: "ngx_sprintf_num cap n (fs_zero sp) 0 (fs_width sp) out = Some r1"
    using assms(1) by (auto simp: put_fixed_def bind_eq_Some_conv)
  have r1: "grows cap out r1" by (rule ngx_sprintf_num_grows [OF n assms(2)])
  let ?r1 = "if length r1 < cap then r1 @ [ch CHR ''.''] else r1"
  have d: "grows cap r1 ?r1" "length ?r1 \<le> cap" using r1 by (auto simp: grows_def)
  show ?thesis
  proof (cases "fs_frac_width sp = 0")
    case True
    then show ?thesis using assms(1) n r1 by (simp add: put_fixed_def)
  next
    case False
    then have "grows cap ?r1 r" using assms(1) n d(2) by (intro ngx_sprintf_num_grows) (auto simp: put_fixed_def)
    then show ?thesis using r1 d(1) grows_trans by blast
  qed
qed

lemma put_double_grows:
  assumes "put_double cap f sp out = Some r" "length out < cap"
  shows "grows cap out r"
proof -
  let ?out = "if f < 0 then out @ [ch CHR ''-''] else out"
  have "\<exists>n k. put_fixed cap n k sp ?out = Some r"
    using assms(1) unfolding put_double_def Let_def by (auto split: if_splits)
  then show ?thesis
    using assms(2) put_fixed_grows [of cap _ _ sp ?out r] grows_snoc [of out cap "ch CHR ''-''"] grows_trans
    by (auto split: if_splits)
qed

lemma convert_grows:
  "convert cap c args sp out = Some (args', out') \<Longrightarrow> length out < cap \<Longrightarrow> grows cap out out'"
  using put_str_grows put_mem_grows put_int_grows put_double_grows grows_snoc
  by (auto simp: convert_def bind_eq_Some_conv split: if_splits list.splits va_arg.splits)

lemma vslprintf_grows:
  "ngx_vslprintf cap fmt args out = Some r \<Longrightarrow> length out \<le> cap \<Longrightarrow> grows cap out r"
proof (induction cap fmt args out rule: ngx_vslprintf.induct)
  case (1 cap fmt args out)
  show ?case
  proof (cases "fmt = [] \<or> \<not> length out < cap")
    case True
    then show ?thesis using 1(3,4) by (subst (asm) ngx_vslprintf.simps) (auto simp: grows_def split: list.splits)
  next
    case False
    then obtain c fmt' where f: "fmt = c # fmt'" "length out < cap" by (cases fmt) auto
    show ?thesis
    proof (cases "c = ch CHR ''%''")
      case True
      then obtain fmt2 args2 out2 where d: "directive cap fmt' args out = Some (fmt2, args2, out2)"
        and r: "ngx_vslprintf cap fmt2 args2 out2 = Some r"
        using 1(3) f by (subst (asm) ngx_vslprintf.simps) (auto split: option.splits)
      have g: "grows cap out out2" using directive_Some [OF d] convert_grows f(2) by blast
      then have "grows cap out2 r" using 1(1) [OF f(1) _ True d] r f(2) by (auto simp: grows_def)
      then show ?thesis by (rule grows_trans [OF g])
    next
      case False
      then have "ngx_vslprintf cap fmt' args (out @ [c]) = Some r"
        using 1(3) f by (subst (asm) ngx_vslprintf.simps) simp
      then have "grows cap (out @ [c]) r" using 1(2) [OF f(1) _ False] f(2) by auto
      then show ?thesis by (rule grows_trans [OF grows_snoc [OF f(2)]])
    qed
  qed
qed


section \<open>Digits\<close>

lemma dec_loop_show:
  fixes n :: "'a :: len word"
  assumes len: "4 \<le> LENGTH('a)" and p: "unat n < 10 ^ p" "0 < p"
  shows "dec_loop p n ds = Some (dec_show (unat n) @ ds)"
  using p
proof (induction p arbitrary: n ds)
  case (Suc p)
  have "(16 :: nat) \<le> 2 ^ LENGTH('a)" using len power_increasing [of 4 "LENGTH('a)" "2 :: nat"] by simp
  then have ten: "unat (10 :: 'a word) = 10" by (subst unat_numeral) (simp add: take_bit_nat_eq_self)
  have m: "unat (n mod 10) = unat n mod 10" and q: "unat (n div 10) = unat n div 10" 
    unfolding unat_mod unat_div ten by (rule refl)+
  have d: "ucast (n mod 10) + ch CHR ''0'' = (of_nat (48 + unat n mod 10) :: byte)"
  proof -
    have "(ucast (n mod 10) :: byte) = of_nat (unat (n mod 10))" by simp
    then show ?thesis unfolding m by (simp add: byte_simps)
  qed
  show ?case
  proof (cases "unat n < 10")
    case True
    then have "n div 10 = 0" using q by (simp add: unat_eq_0 [symmetric])
    then show ?thesis using True d by (simp add: dec_show.simps [of "unat n"])
  next
    case False
    then have nz: "n div 10 \<noteq> 0" using q by (metis div_greater_zero_iff not_less unsigned_0 less_irrefl zero_less_numeral)
    have "unat (n div 10) < 10 ^ p" using Suc.prems(1) q by (simp add: less_mult_imp_div_less mult.commute)
    moreover have "0 < p" using False Suc.prems(1) by (cases p) auto
    ultimately show ?thesis
      using Suc.IH [of "n div 10"] nz d q False by (simp add: dec_show.simps [of "unat n"])
  qed
qed simp

lemma unat_u64_less: "unat (n :: u64) < 10 ^ 20"
  using unsigned_less [of n, where ?'a = nat] by simp

lemma sprintf_num_dec:
  assumes "length out + max (unat w) (length (dec_show (unat n))) \<le> cap"
  shows "ngx_sprintf_num cap n zero 0 w out =
    Some (out @ replicate (unat w - length (dec_show (unat n))) zero @ dec_show (unat n))"
proof -
  have "(if n \<le> 0xffffffff then dec_loop 20 (ucast n :: u32) [] else dec_loop 20 n []) = Some (dec_show (unat n))"
  proof (cases "n \<le> 0xffffffff")
    case True
    then have "unat n < 2 ^ 32" by (simp add: word_le_nat_alt)
    then have "unat (ucast n :: u32) = unat n" by (simp add: unsigned_ucast_eq take_bit_nat_eq_self)
    then show ?thesis using True dec_loop_show [of "ucast n :: u32" 20 "[]"] unat_u64_less [of n] by simp
  next
    case False
    then show ?thesis using dec_loop_show [of n 20 "[]"] unat_u64_less [of n] by simp
  qed
  moreover have "min (unat w - length (dec_show (unat n))) (cap - length out) = unat w - length (dec_show (unat n))"
    using assms by (auto simp: max_def min_def split: if_splits)
  moreover have "\<not> cap < length out + (unat w - length (dec_show (unat n))) + length (dec_show (unat n))"
    using assms by (auto simp: max_def split: if_splits)
  ultimately show ?thesis by (simp add: ngx_sprintf_num_def Let_def)
qed

lemma HEX_nibble:
  assumes "k < 16" "tab = hex_digits \<or> tab = HEX_digits"
  shows "ngx_hextoi_loop (tab ! k # line) (Suc j) v = ngx_hextoi_loop line j (v * 16 + of_nat k)"
  using assms(2)
proof
  assume "tab = HEX_digits"
  then show ?thesis using nibble_cases [OF assms(1)] by (auto simp: HEX_digits_def byte_simps Let_def)
qed (simp only: ngx_hextoi_loop_nibble [OF assms(1)])

lemma hex_loop_value:
  assumes tab: "tab = hex_digits \<or> tab = HEX_digits"
  shows "unat n < 16 ^ p \<Longrightarrow> 0 < p \<Longrightarrow> \<exists>r. hex_loop tab p n ds = Some r \<and> length r \<le> p + length ds \<and> r \<noteq> [] \<and>
    ngx_hextoi_loop r (length r) 0 = ngx_hextoi_loop ds (length ds) n"
proof (induction p arbitrary: n ds)
  case (Suc p)
  let ?k = "unat (n AND 0xf)"
  have k: "?k = unat n mod 16"
  proof -
    have "n AND 0xf = take_bit 4 n" by (simp add: take_bit_eq_mask mask_numeral)
    then show ?thesis by (simp add: unsigned_take_bit_eq take_bit_nat_def)
  qed
  have "unat (drop_bit 4 n) = unat n div 2 ^ 4" unfolding unat_drop_bit_eq by (rule drop_bit_eq_div)
  then have q: "unat (drop_bit 4 n) = unat n div 16" by simp
  have n: "drop_bit 4 n * 16 + of_nat ?k = n"
  proof -
    have "of_nat (unat n div 16 * 16 + unat n mod 16) = n" by simp
    then have "of_nat (unat n div 16) * 16 + of_nat (unat n mod 16) = n" by (simp only: of_nat_add of_nat_mult of_nat_numeral)
    moreover have "of_nat (unat n div 16) = drop_bit 4 n" unfolding q [symmetric] by simp
    ultimately show ?thesis using k by simp
  qed
  have step: "ngx_hextoi_loop (tab ! ?k # ds) (Suc (length ds)) (drop_bit 4 n) = ngx_hextoi_loop ds (length ds) n"
    using HEX_nibble [OF _ tab, of ?k] k n by simp
  show ?case
  proof (cases "drop_bit 4 n = 0")
    case True
    then show ?thesis using step by simp
  next
    case False
    have "unat (drop_bit 4 n) < 16 ^ p" using Suc.prems(1) q by (simp add: less_mult_imp_div_less mult.commute)
    moreover have "0 < p" using False q Suc.prems(1) by (cases p) (auto simp: unat_eq_0 [symmetric])
    ultimately obtain r where "hex_loop tab p (drop_bit 4 n) (tab ! ?k # ds) = Some r" "length r \<le> p + Suc (length ds)" "r \<noteq> []"
      "ngx_hextoi_loop r (length r) 0 = ngx_hextoi_loop (tab ! ?k # ds) (Suc (length ds)) (drop_bit 4 n)"
      using Suc.IH [of "drop_bit 4 n" "tab ! ?k # ds"] by auto
    then show ?thesis using False step by simp
  qed
qed simp


section \<open>Truncation\<close>

definition num_digits :: "u64 \<Rightarrow> nat \<Rightarrow> byte list option" where
  "num_digits n hx =
     (if hx = 0 then (if n \<le> 0xffffffff then dec_loop NGX_INT64_LEN (ucast n :: u32) [] else dec_loop NGX_INT64_LEN n [])
      else hex_loop (if hx = 1 then hex_digits else HEX_digits) NGX_INT64_LEN n [])"

lemma sprintf_num_take:
  assumes "length out \<le> cap"
  shows "ngx_sprintf_num cap n zero hx w out =
    map_option (\<lambda>ds. out @ take (cap - length out) (replicate (unat w - length ds) zero @ ds)) (num_digits n hx)"
proof (cases "num_digits n hx")
  case None
  then show ?thesis by (simp add: ngx_sprintf_num_def num_digits_def)
next
  case (Some ds)
  have "(let out = out @ replicate (min (unat w - length ds) (cap - length out)) zero;
             len = (if length out + length ds > cap then cap - length out else length ds) in out @ take len ds) =
      out @ take (cap - length out) (replicate (unat w - length ds) zero @ ds)"
    using assms by (auto simp: Let_def min_def)
  then show ?thesis using Some by (simp add: ngx_sprintf_num_def num_digits_def Let_def)
qed

lemma take_append_take: "length out \<le> cap \<Longrightarrow> cap \<le> cap' \<Longrightarrow>
    take cap (out @ take (cap' - length out) xs) = out @ take (cap - length out) xs"
  by (simp add: min_def)

lemma sprintf_num_trunc:
  assumes "ngx_sprintf_num cap' n zero hx w out = Some r" "length out \<le> cap" "cap \<le> cap'"
  shows "ngx_sprintf_num cap n zero hx w out = Some (take cap r)"
proof -
  obtain ds where ds: "num_digits n hx = Some ds"
    using assms sprintf_num_take [of out cap' n zero hx w] by (cases "num_digits n hx") auto
  define xs where "xs = replicate (unat w - length ds) zero @ ds"
  have "r = out @ take (cap' - length out) xs"
    using assms sprintf_num_take [of out cap' n zero hx w] unfolding ds option.map by (simp flip: xs_def)
  then have "take cap r = out @ take (cap - length out) xs" using take_append_take [OF assms(2,3)] by (simp only:)
  then show ?thesis using sprintf_num_take [OF assms(2), of n zero hx w] unfolding ds option.map by (simp flip: xs_def)
qed

text \<open>An output that is cut at \<open>cap\<close> is a fixed point of the operations that follow.\<close>

lemma sprintf_num_full:
  assumes "ngx_sprintf_num cap' n zero hx w out = Some r" "length out \<le> cap'" "cap \<le> length out"
  shows "ngx_sprintf_num cap n zero hx w (take cap out) = Some (take cap r)"
  using assms sprintf_num_take [of "take cap out" cap n zero hx w] sprintf_num_take [of out cap' n zero hx w] by auto

lemma sprintf_num_cut:
  assumes "ngx_sprintf_num cap' n zero hx w out = Some r" "length out \<le> cap'" "cap \<le> cap'"
  shows "ngx_sprintf_num cap n zero hx w (take cap out) = Some (take cap r)"
  using assms sprintf_num_trunc [of cap' n zero hx w out r cap] sprintf_num_full [of cap' n zero hx w out r cap]
  by (cases "length out \<le> cap") auto

lemma put_int_trunc:
  assumes "put_int cap' n sp out = Some r" "length out < cap" "cap \<le> cap'"
  shows "put_int cap n sp out = Some (take cap r)"
  using assms by (auto simp: put_int_def intro!: sprintf_num_trunc split: if_splits)

lemma put_fixed_trunc:
  assumes "put_fixed cap' n k sp out = Some r" "length out \<le> cap" "cap \<le> cap'"
  shows "put_fixed cap n k sp out = Some (take cap r)"
proof -
  obtain r1 where n: "ngx_sprintf_num cap' n (fs_zero sp) 0 (fs_width sp) out = Some r1"
    using assms(1) by (auto simp: put_fixed_def bind_eq_Some_conv)
  have n': "ngx_sprintf_num cap n (fs_zero sp) 0 (fs_width sp) out = Some (take cap r1)"
    by (rule sprintf_num_trunc [OF n assms(2,3)])
  have r1: "length r1 \<le> cap'" using ngx_sprintf_num_grows [OF n] assms(2,3) by (auto simp: grows_def)
  let ?dot = "\<lambda>cap r1. if length r1 < cap then r1 @ [ch CHR ''.''] else r1"
  have dot: "?dot cap (take cap r1) = take cap (?dot cap' r1)" "length (?dot cap' r1) \<le> cap'"
    using r1 assms(3) by (auto simp: take_Suc_conv_app_nth not_less)
  show ?thesis
  proof (cases "fs_frac_width sp = 0")
    case True
    then show ?thesis using assms(1) n n' by (simp add: put_fixed_def)
  next
    case False
    then have "ngx_sprintf_num cap' k (ch CHR ''0'') 0 (fs_frac_width sp) (?dot cap' r1) = Some r"
      using assms(1) n by (simp add: put_fixed_def)
    then have "ngx_sprintf_num cap k (ch CHR ''0'') 0 (fs_frac_width sp) (take cap (?dot cap' r1)) = Some (take cap r)"
      using dot(2) assms(3) by (intro sprintf_num_cut) auto
    then show ?thesis using False n' unfolding dot(1) [symmetric] by (simp add: put_fixed_def)
  qed
qed

lemma put_double_trunc:
  assumes "put_double cap' f sp out = Some r" "length out < cap" "cap \<le> cap'"
  shows "put_double cap f sp out = Some (take cap r)"
  using assms unfolding put_double_def Let_def
  by (auto intro!: put_fixed_trunc split: if_splits)

lemma put_str_trunc: "length out \<le> cap \<Longrightarrow> cap \<le> cap' \<Longrightarrow> put_str cap s out = take cap (put_str cap' s out)"
  unfolding put_str_def by (simp only: take_append_take)

lemma put_mem_trunc:
  assumes "put_mem cap' slen m out = Some r" "length out \<le> cap" "cap \<le> cap'"
  shows "put_mem cap slen m out = Some (take cap r)"
proof (cases "slen = - 1")
  case True
  then show ?thesis using assms put_str_trunc [OF assms(2,3)] by (auto simp: put_mem_def Let_def split: if_splits)
next
  case False
  then have r: "r = out @ take (min (cap' - length out) (unat slen)) m" "min (cap' - length out) (unat slen) \<le> length m"
    using assms(1) by (auto simp: put_mem_def Let_def split: if_splits)
  then have "\<not> length m < min (cap - length out) (unat slen)" using assms(3) by auto
  moreover have "take cap r = out @ take (min (cap - length out) (unat slen)) m"
    using assms(2,3) unfolding r by (simp add: min_def)
  ultimately show ?thesis using False by (simp add: put_mem_def Let_def)
qed

lemma convert_trunc:
  assumes "convert cap' c args sp out = Some (args', r)" "length out < cap" "cap \<le> cap'"
  shows "convert cap c args sp out = Some (args', take cap r)"
proof -
  have le: "length out \<le> cap" using assms(2) by simp
  note defs = convert_def bind_eq_Some_conv
  consider "c \<in> set (bytes ''Vv'')" | "c \<notin> set (bytes ''Vv'')" "c = ch CHR ''s''"
    | "c \<notin> set (bytes ''Vv'')" "c \<noteq> ch CHR ''s''" "c \<in> set (bytes ''OPTMzidlDLArp'')"
    | "c \<notin> set (bytes ''Vv'')" "c \<noteq> ch CHR ''s''" "c \<notin> set (bytes ''OPTMzidlDLArp'')" "c = ch CHR ''f''"
    | "c \<notin> set (bytes ''Vv'')" "c \<noteq> ch CHR ''s''" "c \<notin> set (bytes ''OPTMzidlDLArp'')" "c \<noteq> ch CHR ''f''" by blast
  then show ?thesis
  proof cases
    case 1
    then show ?thesis
      using assms(1) put_str_trunc [OF le assms(3)] by (auto simp: defs split: list.splits va_arg.splits)
  next
    case 2
    then show ?thesis
      using assms(1) put_mem_trunc [OF _ le assms(3)] by (auto simp: defs split: list.splits va_arg.splits)
  next
    case 3
    then obtain a n sp' where "args = a # args'" "int_arg c a sp = Some (n, sp')" "put_int cap' n sp' out = Some r"
      using assms(1) by (cases args) (auto simp: defs)
    then show ?thesis using 3 put_int_trunc [OF _ assms(2,3)] by (simp add: defs)
  next
    case 4
    then show ?thesis
      using assms(1) put_double_trunc [OF _ assms(2,3)] by (auto simp: defs split: list.splits va_arg.splits)
  next
    case 5
    then show ?thesis using assms by (auto simp: defs split: if_splits list.splits va_arg.splits)
  qed
qed

lemma directive_trunc:
  assumes "directive cap' fmt args out = Some (fmt', args', r)" "length out < cap" "cap \<le> cap'"
  shows "directive cap fmt args out = Some (fmt', args', take cap r)"
proof -
  obtain w fmt1 where w: "read_width fmt 0 = (w, fmt1)" by (cases "read_width fmt 0")
  then obtain fmt2 args2 sp where f: "fmt_flags fmt1 args \<lparr>fs_zero = if fmt \<noteq> [] \<and> hd fmt = ch CHR ''0'' then ch CHR ''0'' else 32,
      fs_width = w, fs_sign = True, fs_hex = 0, fs_max_width = False, fs_frac_width = 0, fs_slen = - 1\<rparr> = Some (fmt2, args2, sp)"
    using assms by (auto simp: directive_def bind_eq_Some_conv)
  then obtain c fmt3 where c: "fmt2 = c # fmt3" using assms w by (cases fmt2) (auto simp: directive_def)
  then have "convert cap' c args2 sp out = Some (args', r)" "fmt' = fmt3"
    using assms w f by (auto simp: directive_def bind_eq_Some_conv)
  then show ?thesis using convert_trunc [OF _ assms(2,3)] w f c by (simp add: directive_def)
qed

lemma vslprintf_trunc:
  "ngx_vslprintf cap' fmt args out = Some r \<Longrightarrow> length out \<le> cap' \<Longrightarrow> cap \<le> cap' \<Longrightarrow>
   ngx_vslprintf cap fmt args (take cap out) = Some (take cap r)"
proof (induction cap' fmt args out rule: ngx_vslprintf.induct)
  case (1 cap' fmt args out)
  show ?case
  proof (cases "length out < cap")
    case False
    obtain xs where "r = out @ xs" using vslprintf_grows [OF 1(3,4)] by (auto simp: grows_def)
    then have "take cap r = take cap out" using False by simp
    moreover have "ngx_vslprintf cap fmt args (take cap out) = Some (take cap out)"
      using False by (subst ngx_vslprintf.simps) (auto split: list.split)
    ultimately show ?thesis by simp
  next
    case True
    then have t: "take cap out = out" "length out < cap'" using 1(5) by auto
    show ?thesis
    proof (cases fmt)
      case Nil
      then show ?thesis using 1(3) True by (simp add: ngx_vslprintf.simps [of _ "[]"])
    next
      case (Cons c fmt')
      show ?thesis
      proof (cases "c = ch CHR ''%''")
        case True
        then obtain fmt2 args2 out2 where d: "directive cap' fmt' args out = Some (fmt2, args2, out2)"
          and r: "ngx_vslprintf cap' fmt2 args2 out2 = Some r"
          using 1(3) Cons t(2) by (subst (asm) ngx_vslprintf.simps) (auto split: option.splits)
        have "length out2 \<le> cap'" using directive_Some [OF d] convert_grows [of cap' _ _ _ out] t(2) by (auto simp: grows_def)
        then have "ngx_vslprintf cap fmt2 args2 (take cap out2) = Some (take cap r)"
          using 1(1) [OF Cons _ True d] t(2) r 1(5) by auto
        then show ?thesis
          using directive_trunc [OF d \<open>length out < cap\<close> 1(5)] t(1) Cons True \<open>length out < cap\<close>
          by (subst ngx_vslprintf.simps) simp
      next
        case False
        then have "ngx_vslprintf cap' fmt' args (out @ [c]) = Some r"
          using 1(3) Cons t(2) by (subst (asm) ngx_vslprintf.simps) simp
        then have "ngx_vslprintf cap fmt' args (take cap (out @ [c])) = Some (take cap r)"
          using 1(2) [OF Cons _ False] t(2) 1(5) by auto
        moreover have "take cap (out @ [c]) = out @ [c]" using \<open>length out < cap\<close> by simp
        ultimately show ?thesis using False Cons t(1) \<open>length out < cap\<close> by (subst ngx_vslprintf.simps) simp
      qed
    qed
  qed
qed


lemmas sprintf_eval = ngx_vslprintf.simps directive_def byte_simps convert_def int_arg_def put_int_def put_str_def put_mem_def
  sprintf_num_dec dec_show.simps word_sless_alt

text \<open>
  C29: \<open>ngx_snprintf\<close> never writes behind its end, and what it writes is the output of \<open>ngx_sprintf\<close>, cut at the end: for every
  format and all arguments for which \<open>ngx_sprintf\<close> is defined, \<open>ngx_snprintf\<close> is defined too and gives the first \<open>mx\<close> bytes.
\<close>
theorem ngx_snprintf_truncates:
  assumes "ngx_sprintf buf fmt args = Some r" "mx \<le> 2 ^ 64 - 1 - buf"
  shows "ngx_snprintf mx fmt args = Some (take mx r) \<and>
    (\<forall>mx fmt args r. ngx_snprintf mx fmt args = Some r \<longrightarrow> length r \<le> mx)"
  using vslprintf_trunc [of "2 ^ 64 - 1 - buf" fmt args "[]" r mx] vslprintf_grows [of _ _ _ "[]"] assms
  by (auto simp: ngx_sprintf_def ngx_snprintf_def grows_def)

theorem ngx_snprintf_truncates_witness:
  "ngx_snprintf 4 (bytes ''a%02d-%V'') [V32 7, VStr (bytes ''xyz'')] = Some (bytes ''a07-'')"
proof -
  have "ngx_sprintf 4096 (bytes ''a%02d-%V'') [V32 7, VStr (bytes ''xyz'')] = Some (bytes ''a07-xyz'')"
    by (simp add: ngx_sprintf_def sprintf_eval)
  then show ?thesis using ngx_snprintf_truncates [of 4096 _ _ _ 4] by (simp add: bytes_def)
qed

section \<open>Numbers are read back\<close>

lemma read_width_nondigit: "\<not> is_digit c \<Longrightarrow> read_width (c # fmt) w = (w, c # fmt)"
  by simp

lemma directive_int64:
  "directive cap (bytes ''uL'') [V64 n] out = map_option (\<lambda>out. ([], [], out)) (ngx_sprintf_num cap n 32 0 0 out)"
  "directive cap (bytes ''L'') [V64 n] out = map_option (\<lambda>out. ([], [], out))
     (if n <s 0 then ngx_sprintf_num cap (- n) 32 0 0 (out @ [ch CHR ''-'']) else ngx_sprintf_num cap n 32 0 0 out)"
  "directive cap (bytes ''xL'') [V64 n] out = map_option (\<lambda>out. ([], [], out)) (ngx_sprintf_num cap n 32 1 0 out)"
  "directive cap (bytes ''XL'') [V64 n] out = map_option (\<lambda>out. ([], [], out)) (ngx_sprintf_num cap n 32 2 0 out)"
  by (simp_all add: directive_def byte_simps convert_def int_arg_def put_int_def map_option_case split: option.split)

lemma snprintf_directive:
  "0 < mx \<Longrightarrow> directive mx fmt args [] = Some ([], [], out) \<Longrightarrow> ngx_snprintf mx (ch CHR ''%'' # fmt) args = Some out"
  by (simp add: ngx_snprintf_def ngx_vslprintf.simps)

lemma vsl_literal:
  assumes "list_all (\<lambda>c. c \<noteq> ch CHR ''%'') xs" "length out + length xs \<le> cap"
  shows "ngx_vslprintf cap (xs @ fmt) args out = ngx_vslprintf cap fmt args (out @ xs)"
  using assms
proof (induction xs arbitrary: out)
  case (Cons x xs)
  then have "ngx_vslprintf cap ((x # xs) @ fmt) args out = ngx_vslprintf cap (xs @ fmt) args (out @ [x])"
    by (subst ngx_vslprintf.simps) simp
  then show ?case using Cons by simp
qed simp

lemma vsl_directive:
  assumes "directive cap (d @ fmt) args out = Some (fmt, args', out')" "length out < cap"
  shows "ngx_vslprintf cap (ch CHR ''%'' # d @ fmt) args out = ngx_vslprintf cap fmt args' out'"
  using assms by (subst ngx_vslprintf.simps) simp

lemma directive_s:
  assumes "0 \<notin> set s" "length out + length s \<le> cap"
  shows "directive cap (bytes ''s'' @ fmt) (VMem (s @ [0]) # args) out = Some (fmt, args, out @ s)"
proof -
  have "takeWhile (\<lambda>c. c \<noteq> 0) (s @ [0]) = s" using assms(1) by (simp add: takeWhile_append)
  then show ?thesis
    using assms(2) by (simp add: bytes_def directive_def byte_simps convert_def put_mem_def put_str_def)
qed

lemma atoi_show:
  assumes "unat n < 2 ^ 63"
  shows "ngx_atoi (dec_show (unat n)) (length (dec_show (unat n))) = Some n"
  using ngx_ato_loop_digits [of "dec_show (unat n)" "[]"] dec_show_digits [of "unat n"] assms
  by (simp add: ngx_atoi_def int64_result_small)

lemma sprintf_num_hex:
  assumes "16 \<le> cap" "hx = 1 \<or> hx = 2" "unat n < 2 ^ 63"
  shows "\<exists>r. ngx_sprintf_num cap n 32 hx 0 [] = Some r \<and> ngx_hextoi r (length r) = Some n"
proof -
  let ?tab = "if hx = 1 then hex_digits else HEX_digits"
  have n: "unat n < 16 ^ 16" using assms(3) by simp
  have tab: "?tab = hex_digits \<or> ?tab = HEX_digits" by simp
  obtain r where r: "hex_loop ?tab 16 n [] = Some r" "length r \<le> 16" "r \<noteq> []"
    "ngx_hextoi_loop r (length r) 0 = ngx_hextoi_loop [] 0 n"
    using hex_loop_value [OF tab n, of "[]"] by auto
  have more: "hex_loop tab p m ds = Some r \<Longrightarrow> hex_loop tab (Suc p) m ds = Some r" for tab p m ds r
    by (induction tab p m ds rule: hex_loop.induct) (auto simp: Let_def split: if_splits)
  have "hex_loop ?tab 20 n [] = Some r" using more [OF more [OF more [OF more [OF r(1)]]]] by simp
  then have "num_digits n hx = Some r" using assms(2) by (auto simp: num_digits_def)
  then have "ngx_sprintf_num cap n 32 hx 0 [] = Some r" using sprintf_num_take [of "[]" cap n 32 hx 0] r(2) assms(1) by simp
  moreover have "\<not> n <s 0" using of_nat_sless_0 [of "unat n"] assms(3) by simp
  ultimately show ?thesis using r(3,4) by (simp add: ngx_hextoi_def)
qed

text \<open>
  Numbers that are printed are read back. With room for 20 bytes, \<open>%uL\<close> prints the decimal numeral of every 64-bit number and
  \<open>%L\<close> that of its absolute value behind the sign, the smallest number included; \<open>ngx_atoi\<close> returns the number
  from the former, and \<open>ngx_hextoi\<close> from \<open>%xL\<close> and \<open>%XL\<close>, when it is below 2^63.
\<close>
theorem ngx_snprintf_numbers:
  assumes mx: "20 \<le> mx"
  shows "ngx_snprintf mx (bytes ''%uL'') [V64 n] = Some (dec_show (unat n)) \<and>
    ngx_snprintf mx (bytes ''%L'') [V64 n] =
      Some (if n <s 0 then ch CHR ''-'' # dec_show (unat (- n)) else dec_show (unat n)) \<and>
    (unat n < 2 ^ 63 \<longrightarrow> ngx_atoi (dec_show (unat n)) (length (dec_show (unat n))) = Some n \<and>
       (\<exists>r. ngx_snprintf mx (bytes ''%xL'') [V64 n] = Some r \<and> ngx_hextoi r (length r) = Some n) \<and>
       (\<exists>r. ngx_snprintf mx (bytes ''%XL'') [V64 n] = Some r \<and> ngx_hextoi r (length r) = Some n))"
proof -
  have fmt: "bytes ''%uL'' = ch CHR ''%'' # bytes ''uL''" "bytes ''%L'' = ch CHR ''%'' # bytes ''L''"
    "bytes ''%xL'' = ch CHR ''%'' # bytes ''xL''" "bytes ''%XL'' = ch CHR ''%'' # bytes ''XL''" by (simp_all add: bytes_def)
  have len: "length (dec_show (unat m)) \<le> 20" for m :: u64
    using dec_show_length [of 20 "unat m"] unat_u64_less [of m] by simp
  have num: "ngx_sprintf_num mx m 32 0 0 [] = Some (dec_show (unat m))" for m
    using sprintf_num_dec [of "[]" 0 m mx 32] len [of m] mx by simp
  have neg: "ngx_sprintf_num mx (- n) 32 0 0 [ch CHR ''-''] = Some (ch CHR ''-'' # dec_show (unat (- n)))" if "n <s 0"
  proof -
    have "2 ^ 63 \<le> unat n" using of_nat_sless_0 [of "unat n"] that by (simp add: unsigned_less)
    moreover have "unat (- n) = 2 ^ 64 - unat n"
    proof -
      have "- n = of_nat (2 ^ 64 - unat n)" using unsigned_less [of n, where ?'a = nat] by (simp add: of_nat_diff)
      moreover have "unat (of_nat (2 ^ 64 - unat n) :: u64) = 2 ^ 64 - unat n"
        using calculation \<open>2 ^ 63 \<le> unat n\<close> by (intro unat_of_nat_small) simp
      ultimately show ?thesis by (simp only:)
    qed
    ultimately have "unat (- n) \<le> 2 ^ 63" by simp
    then have "length (dec_show (unat (- n))) \<le> 19" by (subst dec_show_length) auto
    then show ?thesis using sprintf_num_dec [of "[ch CHR ''-'']" 0 "- n" mx 32] mx by simp
  qed
  have "0 < mx" using mx by simp
  note run = snprintf_directive [OF this]
  have hex: "\<exists>r. ngx_snprintf mx (ch CHR ''%'' # f) [V64 n] = Some r \<and> ngx_hextoi r (length r) = Some n"
    if "unat n < 2 ^ 63" "(f, hx) \<in> {(bytes ''xL'', 1), (bytes ''XL'', 2)}" for f and hx :: nat
    using sprintf_num_hex [of mx hx n] mx that run [of f "[V64 n]"] by (auto simp: directive_int64)
  show ?thesis
    unfolding fmt using hex [of "bytes ''xL''" 1] hex [of "bytes ''XL''" 2]
    by (auto intro!: run simp: directive_int64 num neg atoi_show)
qed

theorem ngx_snprintf_numbers_witness:
  "ngx_snprintf 20 (bytes ''%L'') [V64 (- 42)] = Some (bytes ''-42'')"
  using ngx_snprintf_numbers [of 20 "- 42"] by (simp add: dec_show.simps byte_simps word_sless_alt)

lemma int_arg_small:
  assumes "k < 2 ^ 31"
  shows "(scast (of_nat k :: u32) :: u64) = of_nat k" "\<not> (of_nat k :: u64) <s 0"
proof -
  have "sint (of_nat k :: u32) = int k" using assms by (simp add: signed_of_nat signed_take_bit_int_eq_self)
  then show "(scast (of_nat k :: u32) :: u64) = of_nat k" by (metis of_int_of_nat_eq of_int_sint)
  show "\<not> (of_nat k :: u64) <s 0" using assms by (simp add: of_nat_sless_0)
qed

end
