(* ===== verification/Ngx_Times.thy ===== *)
theory Ngx_Times
  imports Ngx_Sprintf "HOL-Library.Signed_Division"
begin

text \<open>
  Dates: \<open>ngx_gmtime\<close>, \<open>ngx_http_time\<close> and \<open>ngx_http_cookie_time\<close> of src/core/ngx_times.c. A \<open>time_t\<close> is a 64-bit word, the members
  of \<open>ngx_tm_t\<close> are \<open>int\<close>s, as 32-bit words.
\<close>

section \<open>The code\<close>

record ngx_tm_t =
  ngx_tm_sec :: u32
  ngx_tm_min :: u32
  ngx_tm_hour :: u32
  ngx_tm_mday :: u32
  ngx_tm_mon :: u32
  ngx_tm_year :: u32
  ngx_tm_wday :: u32

text \<open>The year that starts with March, and the day of it; \<open>days\<close> is counted from March 1, 1 BC.\<close>

definition gauss_days :: "u64 \<Rightarrow> u64" where
  "gauss_days year = 365 * year + year div 4 - year div 100 + year div 400"

definition leap_word :: "u64 \<Rightarrow> u64" where
  "leap_word year = (if year mod 4 = 0 \<and> (year mod 100 \<noteq> 0 \<or> year mod 400 = 0) then 1 else 0)"

definition gm_year :: "u64 \<Rightarrow> u64 \<times> u64" where
  "gm_year days =
     (let year = (days + 2) * 400 div (365 * 400 + 100 - 4 + 1); yday = days - gauss_days year
      in if yday <s 0 then (year - 1, 365 + leap_word year + yday) else (year, yday))"

definition ngx_gmtime :: "u64 \<Rightarrow> ngx_tm_t" where
  "ngx_gmtime t =
     (let n = t; days = n div 86400; wday = (4 + days) mod 7;
          n = n mod 86400; hour = n div 3600;
          n = n mod 3600; min = n div 60; sec = n mod 60;
          days = days - (31 + 28) + 719527;
          (year, yday) = gm_year days;
          mon = word_of_int ((sint yday + 31) * 10 sdiv 306);
          mday = yday - (367 * mon div 12 - 30) + 1;
          (year, mon) = (if 306 \<le>s yday then (year + 1, mon - 10) else (year, mon + 2))
      in \<lparr>ngx_tm_sec = ucast sec, ngx_tm_min = ucast min, ngx_tm_hour = ucast hour, ngx_tm_mday = ucast mday,
          ngx_tm_mon = ucast mon, ngx_tm_year = ucast year, ngx_tm_wday = ucast wday\<rparr>)"

definition week :: "byte list list" where
  "week = map bytes [''Sun'', ''Mon'', ''Tue'', ''Wed'', ''Thu'', ''Fri'', ''Sat'']"

definition months :: "byte list list" where
  "months = map bytes [''Jan'', ''Feb'', ''Mar'', ''Apr'', ''May'', ''Jun'', ''Jul'', ''Aug'', ''Sep'', ''Oct'', ''Nov'', ''Dec'']"

text \<open>A pointer of one of the tables as an argument of a directive.\<close>

definition name_arg :: "byte list list \<Rightarrow> u32 \<Rightarrow> va_arg option" where
  "name_arg names i = (if unat i < length names then Some (VMem (names ! unat i @ [0])) else None)"

definition ngx_http_time :: "addr \<Rightarrow> u64 \<Rightarrow> byte list option" where
  "ngx_http_time buf t =
     (let tm = ngx_gmtime t
      in do {
        w \<leftarrow> name_arg week (ngx_tm_wday tm);
        m \<leftarrow> name_arg months (ngx_tm_mon tm - 1);
        ngx_sprintf buf (bytes ''%s, %02d %s %4d %02d:%02d:%02d GMT'')
          [w, V32 (ngx_tm_mday tm), m, V32 (ngx_tm_year tm), V32 (ngx_tm_hour tm), V32 (ngx_tm_min tm), V32 (ngx_tm_sec tm)]
      })"

definition ngx_http_cookie_time :: "addr \<Rightarrow> u64 \<Rightarrow> byte list option" where
  "ngx_http_cookie_time buf t =
     (let tm = ngx_gmtime t; late = 2037 <s ngx_tm_year tm
      in do {
        w \<leftarrow> name_arg week (ngx_tm_wday tm);
        m \<leftarrow> name_arg months (ngx_tm_mon tm - 1);
        ngx_sprintf buf (if late then bytes ''%s, %02d-%s-%d %02d:%02d:%02d GMT'' else bytes ''%s, %02d-%s-%02d %02d:%02d:%02d GMT'')
          [w, V32 (ngx_tm_mday tm), m, V32 (if late then ngx_tm_year tm else word_of_int (sint (ngx_tm_year tm) smod 100)),
           V32 (ngx_tm_hour tm), V32 (ngx_tm_min tm), V32 (ngx_tm_sec tm)]
      })"

section \<open>The calendar\<close>

definition leap :: "nat \<Rightarrow> nat" where
  "leap y = (if y mod 4 = 0 \<and> (y mod 100 \<noteq> 0 \<or> y mod 400 = 0) then 1 else 0)"

definition month_len :: "nat \<Rightarrow> nat \<Rightarrow> nat" where
  "month_len y m = (if m = 2 then 28 + leap y else if m \<in> {4, 6, 9, 11} then 30 else 31)"

text \<open>The days from January 1, 1970 to a date.\<close>

definition civil :: "nat \<Rightarrow> nat \<Rightarrow> nat \<Rightarrow> nat" where
  "civil y m d = sum_list (map (\<lambda>k. 365 + leap k) [1970..<y]) + sum_list (map (month_len y) [1..<m]) + (d - 1)"

section \<open>Gauss\<close>

text \<open>The same computation on natural numbers.\<close>

definition gauss :: "nat \<Rightarrow> nat" where
  "gauss y = 365 * y + y div 4 - y div 100 + y div 400"

lemma div_100_4: "k div 100 \<le> k div (4 :: nat)"
  by (rule div_le_mono2) simp_all

lemma gauss_int: "int (gauss y) = 365 * int y + int (y div 4) - int (y div 100) + int (y div 400)"
  using div_100_4 [of y] unfolding gauss_def by linarith

lemma gauss_Suc: "gauss (Suc y) = gauss y + 365 + leap (Suc y)"
proof -
  have "int (gauss (Suc y)) = int (gauss y) + 365 + int (leap (Suc y))"
  proof -
    have "Suc y mod 400 = 0 \<Longrightarrow> Suc y mod 100 = 0" "Suc y mod 100 = 0 \<Longrightarrow> Suc y mod 4 = 0" by presburger+
    then show ?thesis
      unfolding gauss_int leap_def div_Suc by (auto split: if_splits)
  qed
  then show ?thesis by linarith
qed

lemma gauss_mono: "x \<le> y \<Longrightarrow> gauss x \<le> gauss y"
  by (rule lift_Suc_mono_le [of gauss]) (simp_all add: gauss_Suc)

text \<open>The estimate of the year is right or one too large.\<close>

lemma gauss_bounds: "146097 * int y - 699 \<le> 400 * int (gauss y)" "400 * int (gauss y) \<le> 146097 * int y + 396"
proof -
  define a b c where "a = int (y div 4)" and "b = int (y div 100)" and "c = int (y div 400)"
  have "4 * a \<le> int y" "int y \<le> 4 * a + 3" "100 * b \<le> int y" "int y \<le> 100 * b + 99" "400 * c \<le> int y" "int y \<le> 400 * c + 399"
    using div_mult_mod_eq [of y 4] div_mult_mod_eq [of y 100] div_mult_mod_eq [of y 400]
      mod_less_divisor [of 4 y] mod_less_divisor [of 100 y] mod_less_divisor [of 400 y]
    unfolding a_def b_def c_def by linarith+
  moreover have "400 * int (gauss y) = 146000 * int y + 400 * a - 400 * b + 400 * c"
    unfolding gauss_int a_def b_def c_def by simp
  ultimately show "146097 * int y - 699 \<le> 400 * int (gauss y)" "400 * int (gauss y) \<le> 146097 * int y + 396"
    by linarith+
qed

lemma year_estimate:
  assumes y: "y = (d + 2) * 400 div 146097" and d: "366 \<le> d"
  shows "0 < y" "gauss (y - 1) \<le> d" "d < gauss (y + 1)"
proof -
  define q r where "q = (d + 2) * 400 div 146097" and "r = (d + 2) * 400 mod 146097"
  have qr: "(d + 2) * 400 = 146097 * q + r" "r < 146097" unfolding q_def r_def by simp_all
  have "int ((d + 2) * 400) = int (146097 * q + r)" using qr(1) by (simp only:)
  then have e: "400 * int d + 800 = 146097 * int y + int r" using y unfolding q_def [symmetric] by simp
  have "0 < int y" using e qr(2) d by linarith
  then show p: "0 < y" by simp
  have "int (y - 1) = int y - 1" using p by simp
  then show "gauss (y - 1) \<le> d" using gauss_bounds(2) [of "y - 1"] e qr(2) by linarith
  define G D R where "G = int (gauss (y + 1))" and "D = int d" and "R = int r"
  have "146097 * (int y + 1) - 699 \<le> 400 * G" using gauss_bounds(1) [of "y + 1"] unfolding G_def by (simp add: algebra_simps)
  moreover have "R < 146097" using qr(2) unfolding R_def by simp
  moreover have "400 * D + 800 = 146097 * int y + R" using e unfolding D_def R_def .
  ultimately have "D < G" by (simp add: algebra_simps)
  then show "d < gauss (y + 1)" unfolding D_def G_def by simp
qed

definition march_year :: "nat \<Rightarrow> nat" where
  "march_year d = (let y = (d + 2) * 400 div 146097 in if d < gauss y then y - 1 else y)"

lemma march_year:
  assumes "366 \<le> d"
  shows "gauss (march_year d) \<le> d" "d < gauss (Suc (march_year d))"
  using year_estimate [OF refl assms] by (auto simp: march_year_def Let_def)

section \<open>The words\<close>

lemma of_nat_u64:
  assumes "a < 2 ^ 64"
  shows "(of_nat a :: u64) div numeral k = of_nat (a div unat (numeral k :: u64))"
    "(of_nat a :: u64) mod numeral k = of_nat (a mod unat (numeral k :: u64))"
proof -
  have u: "unat (of_nat a :: u64) = a" using assms by (rule unat_of_nat_small)
  show "(of_nat a :: u64) div numeral k = of_nat (a div unat (numeral k :: u64))"
    "(of_nat a :: u64) mod numeral k = of_nat (a mod unat (numeral k :: u64))"
    by (simp_all only: word_arith_nat_div word_arith_nat_mod u)
qed

lemma of_nat_eq_0_u64: "a < 2 ^ 64 \<Longrightarrow> (of_nat a :: u64) = 0 \<longleftrightarrow> a = 0"
  using unat_of_nat_small [of a] by auto

lemma gauss_days_of_nat:
  assumes "y < 2 ^ 32"
  shows "gauss_days (of_nat y) = of_nat (gauss y)"
proof -
  have y: "y < 2 ^ 64" using assms by simp
  have "(of_nat (gauss y) :: u64) = of_int (int (gauss y))" by simp
  also have "\<dots> = 365 * of_nat y + of_nat (y div 4) - of_nat (y div 100) + of_nat (y div 400)"
    unfolding gauss_int by simp
  finally show ?thesis unfolding gauss_days_def of_nat_u64 [OF y] by simp
qed

lemma leap_word_of_nat: "y < 2 ^ 32 \<Longrightarrow> leap_word (of_nat y) = of_nat (leap y)"
proof -
  assume "y < 2 ^ 32"
  then have y: "y < 2 ^ 64" by simp
  have m: "y mod k < 2 ^ 64" for k using y by (meson mod_less_eq_dividend le_less_trans)
  show ?thesis unfolding leap_word_def leap_def of_nat_u64 [OF y] using m by (simp add: of_nat_eq_0_u64)
qed


lemma sint_of_int_small:
  assumes "- (2 ^ 63) \<le> i" "i < 2 ^ 63"
  shows "sint (of_int i :: u64) = i"
  using assms by (simp add: signed_of_int signed_take_bit_int_eq_self)

lemma gm_year_of_nat:
  assumes d: "366 \<le> d" "d < 2 ^ 40"
  shows "gm_year (of_nat d) = (of_nat (march_year d), of_nat (d - gauss (march_year d)))"
proof -
  define y where "y = (d + 2) * 400 div 146097"
  note est = year_estimate [OF y_def d(1)]
  have big: "(d + 2) * 400 < 2 ^ 64" using d by simp
  have "(of_nat ((d + 2) * 400) :: u64) div 146097 = of_nat y"
    unfolding of_nat_u64 [OF big] y_def by simp
  moreover have "((of_nat d + 2) * 400 :: u64) = of_nat ((d + 2) * 400)" by (simp only: of_nat_mult of_nat_add of_nat_numeral)
  moreover have "(365 * 400 + 100 - 4 + 1 :: u64) = 146097" by simp
  ultimately have Y: "((of_nat d + 2) * 400 :: u64) div (365 * 400 + 100 - 4 + 1) = of_nat y" by (simp only:)
  have y32: "y < 2 ^ 32" using d(2) unfolding y_def by (simp add: less_mult_imp_div_less)
  define i where "i = int d - int (gauss y)"
  have yday: "of_nat d - gauss_days (of_nat y) = (of_int i :: u64)"
    unfolding gauss_days_of_nat [OF y32] i_def by simp
  have g: "gauss y = gauss (y - 1) + 365 + leap y" using gauss_Suc [of "y - 1"] est(1) by simp
  have l: "leap y \<le> 1" "leap (Suc y) \<le> 1" by (simp_all add: leap_def)
  have i: "- 366 \<le> i" "i < 367" using est g l gauss_Suc [of y] unfolding i_def by simp_all
  have neg: "(of_int i :: u64) <s 0 \<longleftrightarrow> i < 0" using i by (simp add: word_sless_alt sint_of_int_small)
  show ?thesis
  proof (cases "i < 0")
    case True
    then have "march_year d = y - 1" unfolding march_year_def Let_def y_def [symmetric] i_def by simp
    moreover have "d - gauss (y - 1) = nat (365 + int (leap y) + i)" using True g est(2) unfolding i_def by simp
    moreover have "365 + leap_word (of_nat y) + of_int i = (of_nat (nat (365 + int (leap y) + i)) :: u64)"
    proof -
      have "0 \<le> 365 + int (leap y) + i" using g est(2) unfolding i_def by simp
      then have "(of_nat (nat (365 + int (leap y) + i)) :: u64) = of_int (365 + int (leap y) + i)" by (simp only: of_nat_nat)
      then show ?thesis unfolding leap_word_of_nat [OF y32] by simp
    qed
    moreover have "(of_nat y - 1 :: u64) = of_nat (y - 1)" using est(1) by simp
    ultimately show ?thesis using True neg unfolding gm_year_def Let_def Y yday by simp
  next
    case False
    then have "march_year d = y" unfolding march_year_def Let_def y_def [symmetric] i_def by simp
    moreover have "(of_int i :: u64) = of_nat (d - gauss y)" using False unfolding i_def by (simp add: of_nat_diff)
    ultimately show ?thesis using False neg unfolding gm_year_def Let_def Y yday by simp
  qed
qed

section \<open>The fields of a date\<close>

text \<open>Day \<open>yd\<close> of the year that starts with March: its month (1 is March) and its day.\<close>

definition march_month :: "nat \<Rightarrow> nat" where
  "march_month yd = (yd + 31) * 10 div 306"

definition march_mday :: "nat \<Rightarrow> nat" where
  "march_mday yd = yd + 31 - 367 * march_month yd div 12"

text \<open>The months, by the day that they start with.\<close>

lemma march_month_cases:
  assumes "yd < 366"
  obtains "march_month yd = 1" "yd \<le> 30" | "march_month yd = 2" "31 \<le> yd" "yd \<le> 60"
  | "march_month yd = 3" "61 \<le> yd" "yd \<le> 91" | "march_month yd = 4" "92 \<le> yd" "yd \<le> 121"
  | "march_month yd = 5" "122 \<le> yd" "yd \<le> 152" | "march_month yd = 6" "153 \<le> yd" "yd \<le> 183"
  | "march_month yd = 7" "184 \<le> yd" "yd \<le> 213" | "march_month yd = 8" "214 \<le> yd" "yd \<le> 244"
  | "march_month yd = 9" "245 \<le> yd" "yd \<le> 274" | "march_month yd = 10" "275 \<le> yd" "yd \<le> 305"
  | "march_month yd = 11" "306 \<le> yd" "yd \<le> 336" | "march_month yd = 12" "337 \<le> yd"
proof -
  define m where "m = march_month yd"
  have *: "306 * m \<le> (yd + 31) * 10" "(yd + 31) * 10 < 306 * m + 306"
    using div_mult_mod_eq [of "(yd + 31) * 10" 306] mod_less_divisor [of 306 "(yd + 31) * 10"]
    unfolding m_def march_month_def by linarith+
  then have "0 < m" "m < 13" using assms by (cases "m = 0"; simp)+
  then have "m = 1 \<or> m = 2 \<or> m = 3 \<or> m = 4 \<or> m = 5 \<or> m = 6 \<or> m = 7 \<or> m = 8 \<or> m = 9 \<or> m = 10 \<or> m = 11 \<or> m = 12" by presburger
  then consider "m = 1" | "m = 2" | "m = 3" | "m = 4" | "m = 5" | "m = 6" | "m = 7" | "m = 8" | "m = 9" | "m = 10" | "m = 11" | "m = 12" by blast
  then show ?thesis using * that [folded m_def] by cases simp_all
qed

definition gm_date :: "nat \<Rightarrow> nat \<Rightarrow> nat \<times> nat \<times> nat" where
  "gm_date y yd = (if 306 \<le> yd then (Suc y, march_month yd - 10, march_mday yd) else (y, march_month yd + 2, march_mday yd))"

lemma gm_date_valid:
  assumes d: "gm_date y yd = (Y, m, k)" and yd: "yd < 365 + leap (Suc y)"
  shows "1 \<le> m \<and> m \<le> 12 \<and> 1 \<le> k \<and> k \<le> month_len Y m \<and>
    sum_list (map (month_len Y) [1..<m]) + (k - 1) = (if 306 \<le> yd then yd - 306 else yd + 59 + leap Y)"
proof -
  have "yd < 366" using yd by (simp add: leap_def split: if_splits)
  then show ?thesis
    by (rule march_month_cases)
       (use d yd in \<open>auto simp: gm_date_def march_mday_def month_len_def upt_rec split: if_splits\<close>)
qed

lemma month_len_le: "month_len y m \<le> 31"
  by (simp add: month_len_def leap_def)

lemma years_sum: "sum_list (map (\<lambda>k. 365 + leap k) [1970..<1970 + n]) + 719162 = gauss (1969 + n)"
proof (induction n)
  case 0
  then show ?case by (simp add: gauss_def)
next
  case (Suc n)
  have "[1970..<1970 + Suc n] = [1970..<1970 + n] @ [1970 + n]" by (simp only: add_Suc_right upt_Suc) simp
  then show ?case using Suc gauss_Suc [of "1969 + n"] by simp
qed

lemma civil_gm_date:
  assumes d: "gm_date y yd = (Y, m, k)" and yd: "yd < 365 + leap (Suc y)" and y: "1970 \<le> y \<or> 306 \<le> yd \<and> 1969 \<le> y"
  shows "civil Y m k + 719468 = gauss y + yd"
proof -
  have Y: "1970 \<le> Y" "Y = (if 306 \<le> yd then Suc y else y)" using d y by (auto simp: gm_date_def split: if_splits)
  then obtain n where n: "Y = 1970 + n" using le_Suc_ex by blast
  have s: "sum_list (map (\<lambda>k. 365 + leap k) [1970..<Y]) + 719162 = gauss (Y - 1)" unfolding n using years_sum [of n] by simp
  show ?thesis
    using s gm_date_valid [OF d yd] gauss_Suc [of "y - 1"] Y y unfolding civil_def by (auto split: if_splits)
qed

lemma ucast_of_nat_u32: "k < 2 ^ 64 \<Longrightarrow> (ucast (of_nat k :: u64) :: u32) = of_nat k"
  by (simp add: unsigned_of_nat take_bit_nat_eq_self)

lemma gm_month_of_nat:
  assumes "yd < 366"
  shows "word_of_int ((sint (of_nat yd :: u64) + 31) * 10 sdiv 306) = (of_nat (march_month yd) :: u64)"
proof -
  have "((int yd + 31) * 10) sdiv 306 = int (march_month yd)"
    unfolding march_month_def by (simp add: signed_divide_int_def zdiv_int)
  moreover have "sint (of_nat yd :: u64) = int yd" using assms by (intro sint_of_nat_small) simp
  ultimately show ?thesis by simp
qed

lemma gm_mday_of_nat:
  assumes "yd < 366"
  shows "of_nat yd - (367 * of_nat (march_month yd) div 12 - 30) + 1 = (of_nat (march_mday yd) :: u64)"
proof -
  define a where "a = 367 * march_month yd"
  have a: "a < 2 ^ 64" "a div 12 \<le> yd + 30" using assms unfolding a_def by (rule march_month_cases; simp)+
  have "(367 * of_nat (march_month yd) :: u64) = of_nat a" unfolding a_def by simp
  moreover have "(of_nat (march_mday yd) :: u64) = of_nat (yd + 31) - of_nat (a div 12)"
    using a(2) unfolding march_mday_def a_def by (simp add: of_nat_diff)
  ultimately show ?thesis using of_nat_u64(1) [OF a(1), of "num.Bit0 (num.Bit0 (num.Bit1 num.One))"] by simp
qed

lemma gm_date_words:
  assumes "yd < 366" "y < 10000" "gm_date y yd = (Y, m, k)"
  shows "(if 306 \<le>s (of_nat yd :: u64) then (of_nat y + 1, of_nat (march_month yd) - 10) else (of_nat y, of_nat (march_month yd) + 2))
      = (of_nat Y :: u64, of_nat m :: u64)" "march_mday yd = k"
proof -
  have "(306 \<le>s (of_nat yd :: u64)) = (306 \<le> yd)"
    using sint_of_nat_small [of yd] assms(1) by (simp add: word_sle_eq)
  moreover have "306 \<le> yd \<Longrightarrow> 10 \<le> march_month yd" using assms(1) by (rule march_month_cases) simp_all
  ultimately show "(if 306 \<le>s (of_nat yd :: u64) then (of_nat y + 1, of_nat (march_month yd) - 10) else (of_nat y, of_nat (march_month yd) + 2))
      = (of_nat Y :: u64, of_nat m :: u64)" "march_mday yd = k"
    using assms(3) by (auto simp: gm_date_def of_nat_diff split: if_splits)
qed

definition gm_fields :: "nat \<Rightarrow> nat \<times> nat \<times> nat" where
  "gm_fields D = gm_date (march_year D) (D - gauss (march_year D))"

lemma march_year_range:
  assumes "719468 \<le> d" "d < 719468 + 2932897"
  shows "1969 \<le> march_year d" "march_year d < 9999 \<or> march_year d = 9999 \<and> d - gauss (march_year d) < 306"
    "d - gauss (march_year d) < 365 + leap (Suc (march_year d))"
    "1970 \<le> march_year d \<or> 306 \<le> d - gauss (march_year d)"
proof -
  note my = march_year [of d]
  have g: "gauss 1969 = 719162" "gauss 1970 = 719527" "gauss 9999 = 3652059" "gauss 10000 = 3652425" by (simp_all add: gauss_def)
  have "\<not> march_year d < 1969" using gauss_mono [of "Suc (march_year d)" 1969] my(2) assms g by auto
  then show a: "1969 \<le> march_year d" by simp
  have "\<not> 9999 < march_year d" using gauss_mono [of 10000 "march_year d"] my(1) assms g by auto
  then show "march_year d < 9999 \<or> march_year d = 9999 \<and> d - gauss (march_year d) < 306" using assms g by (cases "march_year d = 9999") auto
  show "d - gauss (march_year d) < 365 + leap (Suc (march_year d))" using my gauss_Suc assms by auto
  show "1970 \<le> march_year d \<or> 306 \<le> d - gauss (march_year d)" using a g assms by (cases "march_year d = 1969") auto
qed

lemma ngx_gmtime_of_nat:
  assumes N: "N < 253402300800" and f: "gm_fields (N div 86400 + 719468) = (Y, m, k)"
  shows "ngx_gmtime (of_nat N) = \<lparr>ngx_tm_sec = of_nat (N mod 86400 mod 3600 mod 60), ngx_tm_min = of_nat (N mod 86400 mod 3600 div 60),
    ngx_tm_hour = of_nat (N mod 86400 div 3600), ngx_tm_mday = of_nat k, ngx_tm_mon = of_nat m, ngx_tm_year = of_nat Y,
    ngx_tm_wday = of_nat ((4 + N div 86400) mod 7)\<rparr>"
proof -
  define D where "D = N div 86400 + 719468"
  define y yd where "y = march_year D" and "yd = D - gauss y"
  have D: "719468 \<le> D" "D < 719468 + 2932897" using N unfolding D_def by (auto simp: less_mult_imp_div_less)
  note rng = march_year_range [OF D, folded y_def, folded yd_def]
  have yd: "yd < 366" using rng(3) by (simp add: leap_def split: if_splits)
  have y: "y < 10000" using rng(2) by auto
  have d: "gm_date y yd = (Y, m, k)" using f unfolding gm_fields_def D_def [symmetric] y_def [symmetric] yd_def [symmetric] .
  have b: "N < 2 ^ 64" "N div 86400 < 2 ^ 64" "N mod 86400 < 2 ^ 64" "N mod 86400 mod 3600 < 2 ^ 64" "4 + N div 86400 < 2 ^ 64" 
    using N mod_less_divisor [of 86400 N] mod_less_divisor [of 3600 "N mod 86400"] by (simp_all add: less_mult_imp_div_less)
  have dn: "(of_nat N :: u64) div 86400 = of_nat (N div 86400)" "(of_nat N :: u64) mod 86400 = of_nat (N mod 86400)"
    "(of_nat (N mod 86400) :: u64) div 3600 = of_nat (N mod 86400 div 3600)" "(of_nat (N mod 86400) :: u64) mod 3600 = of_nat (N mod 86400 mod 3600)"
    "(of_nat (N mod 86400 mod 3600) :: u64) div 60 = of_nat (N mod 86400 mod 3600 div 60)"
    "(of_nat (N mod 86400 mod 3600) :: u64) mod 60 = of_nat (N mod 86400 mod 3600 mod 60)"
    using b(1,3,4) by (simp_all only: of_nat_u64) simp_all
  have w: "((4 + of_nat (N div 86400)) mod 7 :: u64) = of_nat ((4 + N div 86400) mod 7)"
    using of_nat_u64(2) [OF b(5), of "num.Bit1 (num.Bit1 num.One)"] by simp
  have days: "(of_nat (N div 86400) - (31 + 28) + 719527 :: u64) = of_nat D" unfolding D_def by simp
  have gm: "gm_year (of_nat D :: u64) = (of_nat y, of_nat yd)"
    unfolding y_def yd_def using D by (intro gm_year_of_nat) auto
  have "k \<le> 31" "m \<le> 12" using gm_date_valid [OF d rng(3)] month_len_le [of Y m] by auto
  moreover have "Y \<le> 10000" using d y by (auto simp: gm_date_def split: if_splits)
  ultimately have k: "k < 2 ^ 64" "m < 2 ^ 64" "Y < 2 ^ 64" by simp_all
  have c: "N mod 86400 mod 3600 mod 60 < 2 ^ 64" "N mod 86400 mod 3600 div 60 < 2 ^ 64" "N mod 86400 div 3600 < 2 ^ 64"
    "(4 + N div 86400) mod 7 < 2 ^ 64"
    using b by (auto intro: le_less_trans [OF mod_less_eq_dividend] le_less_trans [OF div_le_dividend])
  show ?thesis
    unfolding ngx_gmtime_def Let_def dn w days gm prod.case gm_month_of_nat [OF yd] gm_mday_of_nat [OF yd]
      gm_date_words [OF yd y d]
    using k c by (simp only: prod.case ucast_of_nat_u32)
qed

lemma gmtime_fields:
  assumes "unat t < 253402300800"
  obtains Y m k hh mm ss where "1 \<le> m" "m \<le> 12" "1 \<le> k" "k \<le> month_len Y m" "1970 \<le> Y" "Y \<le> 9999"
    "hh < 24" "mm < 60" "ss < 60" "unat t = civil Y m k * 86400 + hh * 3600 + mm * 60 + ss"
    "ngx_gmtime t = \<lparr>ngx_tm_sec = of_nat ss, ngx_tm_min = of_nat mm, ngx_tm_hour = of_nat hh, ngx_tm_mday = of_nat k,
       ngx_tm_mon = of_nat m, ngx_tm_year = of_nat Y, ngx_tm_wday = of_nat ((4 + civil Y m k) mod 7)\<rparr>"
proof -
  define N where "N = unat t"
  define D where "D = N div 86400 + 719468"
  obtain Y m k where f: "gm_fields D = (Y, m, k)" by (cases "gm_fields D")
  have N: "N < 253402300800" using assms(1) unfolding N_def .
  have D: "719468 \<le> D" "D < 719468 + 2932897" using N unfolding D_def by (auto simp: less_mult_imp_div_less)
  note rng = march_year_range [OF D]
  note d = f [unfolded gm_fields_def]
  have v: "1 \<le> m" "m \<le> 12" "1 \<le> k" "k \<le> month_len Y m" using gm_date_valid [OF d rng(3)] by blast+
  have "1970 \<le> march_year D \<or> 306 \<le> D - gauss (march_year D) \<and> 1969 \<le> march_year D" using rng(1,4) by blast
  from civil_gm_date [OF d rng(3) this] have "civil Y m k + 719468 = D" using march_year(1) [of D] D by simp
  then have civ: "N div 86400 = civil Y m k" unfolding D_def by simp
  have Y: "1970 \<le> Y" "Y \<le> 9999" using d rng(1,2,4) by (auto simp: gm_date_def split: if_splits)
  have hms: "N mod 86400 div 3600 < 24" "N mod 86400 mod 3600 div 60 < 60" "N mod 86400 mod 3600 mod 60 < 60"
    by (simp_all add: less_mult_imp_div_less)
  have "unat t = civil Y m k * 86400 + N mod 86400 div 3600 * 3600 + N mod 86400 mod 3600 div 60 * 60 + N mod 86400 mod 3600 mod 60"
    unfolding civ [symmetric] N_def [symmetric]
    using div_mult_mod_eq [of N 86400] div_mult_mod_eq [of "N mod 86400" 3600] div_mult_mod_eq [of "N mod 86400 mod 3600" 60] by linarith
  moreover have "ngx_gmtime t = ngx_gmtime (of_nat N)" unfolding N_def by simp
  ultimately show ?thesis using that [OF v Y hms] ngx_gmtime_of_nat [OF N f [unfolded D_def], unfolded civ] by (simp only:)
qed

lemma unat_small_u32: "a < 2 ^ 32 \<Longrightarrow> unat (of_nat a :: u32) = a"
  by (simp add: unsigned_of_nat take_bit_nat_eq_self)

text \<open>
  C28: \<open>ngx_gmtime\<close> returns the date: for every time of the years 1970 to 9999 its fields are a day of the Gregorian calendar and a
  time of the day, \<open>t\<close> is the number of seconds from January 1, 1970 to them, and the day of the week counts on from a Thursday.
\<close>
theorem ngx_gmtime_calendar:
  assumes "unat t < 253402300800" "tm = ngx_gmtime t"
    "Y = unat (ngx_tm_year tm)" "m = unat (ngx_tm_mon tm)" "k = unat (ngx_tm_mday tm)"
    "hh = unat (ngx_tm_hour tm)" "mm = unat (ngx_tm_min tm)" "ss = unat (ngx_tm_sec tm)"
  shows "1970 \<le> Y \<and> Y \<le> 9999 \<and> 1 \<le> m \<and> m \<le> 12 \<and> 1 \<le> k \<and> k \<le> month_len Y m \<and> hh < 24 \<and> mm < 60 \<and> ss < 60 \<and>
    unat t = civil Y m k * 86400 + hh * 3600 + mm * 60 + ss \<and> unat (ngx_tm_wday tm) = (4 + civil Y m k) mod 7"
proof -
  obtain Y' m' k' hh' mm' ss' where f: "1 \<le> m'" "m' \<le> 12" "1 \<le> k'" "k' \<le> month_len Y' m'" "1970 \<le> Y'" "Y' \<le> 9999"
      "hh' < 24" "mm' < 60" "ss' < 60" "unat t = civil Y' m' k' * 86400 + hh' * 3600 + mm' * 60 + ss'"
    and tm: "ngx_gmtime t = \<lparr>ngx_tm_sec = of_nat ss', ngx_tm_min = of_nat mm', ngx_tm_hour = of_nat hh', ngx_tm_mday = of_nat k',
       ngx_tm_mon = of_nat m', ngx_tm_year = of_nat Y', ngx_tm_wday = of_nat ((4 + civil Y' m' k') mod 7)\<rparr>"
    using gmtime_fields [OF assms(1)] by metis
  have "Y = Y'" "m = m'" "k = k'" "hh = hh'" "mm = mm'" "ss = ss'"
    using f(1-9) month_len_le [of Y' m'] unfolding assms(2-8) tm by (simp_all add: unat_small_u32)
  moreover have "unat (ngx_tm_wday tm) = (4 + civil Y' m' k') mod 7"
    using mod_less_divisor [of 7 "4 + civil Y' m' k'"] unfolding assms(2) tm by (simp add: unat_small_u32 del: mod_less_divisor)
  ultimately show ?thesis using f by simp
qed

theorem ngx_gmtime_calendar_witness: "unat (951827696 :: u64) = civil 2000 2 29 * 86400 + 12 * 3600 + 34 * 60 + 56"
proof -
  have "ngx_gmtime 951827696 = \<lparr>ngx_tm_sec = 56, ngx_tm_min = 34, ngx_tm_hour = 12, ngx_tm_mday = 29, ngx_tm_mon = 2,
    ngx_tm_year = 2000, ngx_tm_wday = 2\<rparr>" by code_simp
  then show ?thesis using ngx_gmtime_calendar [of 951827696, OF _ refl refl refl refl refl refl refl] by simp
qed

end
