(* ===== verification/Ngx_Http_Parse_Time.thy ===== *)
theory Ngx_Http_Parse_Time
  imports Ngx_Times
begin

text \<open>
  Dates in headers: \<open>ngx_http_parse_time\<close> of src/http/ngx_http_parse_time.c, as one function per part of a date. It is shown that it
  stays inside of its input, that it understands the three formats, and that it inverts
  \<open>ngx_http_time\<close> and \<open>ngx_http_cookie_time\<close>.
\<close>

section \<open>The code\<close>

text \<open>Steps that may end the function: \<open>None\<close> is a read outside of the memory, \<open>Some None\<close> is \<open>return NGX_ERROR\<close>.\<close>

type_synonym 'a step = "'a option option"

definition and_then :: "'a step \<Rightarrow> ('a \<Rightarrow> 'b step) \<Rightarrow> 'b step" where
  "and_then r f = (case r of None \<Rightarrow> None | Some None \<Rightarrow> Some None | Some (Some x) \<Rightarrow> f x)"

definition fails_if :: "bool \<Rightarrow> 'a step \<Rightarrow> 'a step" where
  "fails_if b r = (if b then Some None else r)"

datatype pt_fmt = No | Rfc822 | Rfc850 | Isoc

function name_loop :: "byte list \<Rightarrow> nat \<Rightarrow> nat \<Rightarrow> (pt_fmt \<times> nat) option" where
  "name_loop mem len p =
     (if p < len then do {
        c \<leftarrow> rd mem p;
        (if c = ch CHR '','' then Some (No, p) else if c = ch CHR '' '' then Some (Isoc, p) else name_loop mem len (p + 1))
      } else Some (No, p))"
  by pat_completeness auto
termination
  by (relation "measure (\<lambda>(mem, len, p). len - p)") auto

function spaces_loop :: "byte list \<Rightarrow> nat \<Rightarrow> nat \<Rightarrow> nat option" where
  "spaces_loop mem len p =
     (if p < len then do { c \<leftarrow> rd mem p; (if c \<noteq> ch CHR '' '' then Some p else spaces_loop mem len (p + 1)) } else Some p)"
  by pat_completeness auto
termination
  by (relation "measure (\<lambda>(mem, len, p). len - p)") auto

declare name_loop.simps [simp del] spaces_loop.simps [simp del]

definition digit :: "byte list \<Rightarrow> nat \<Rightarrow> u64 step" where
  "digit mem p = do { c \<leftarrow> rd mem p; Some (if is_digit c then Some (ucast c - 48) else None) }"

definition two_digits :: "byte list \<Rightarrow> nat \<Rightarrow> u64 step" where
  "two_digits mem p = and_then (digit mem p) (\<lambda>a. and_then (digit mem (p + 1)) (\<lambda>b. Some (Some (a * 10 + b))))"

definition four_digits :: "byte list \<Rightarrow> nat \<Rightarrow> u64 step" where
  "four_digits mem p =
     and_then (digit mem p) (\<lambda>a. and_then (digit mem (p + 1)) (\<lambda>b.
     and_then (digit mem (p + 2)) (\<lambda>c. and_then (digit mem (p + 3)) (\<lambda>d. Some (Some (a * 1000 + b * 100 + c * 10 + d))))))"

definition expect :: "byte list \<Rightarrow> nat \<Rightarrow> char \<Rightarrow> unit step" where
  "expect mem p c = do { x \<leftarrow> rd mem p; Some (if x = ch c then Some () else None) }"

text \<open>The day in front of the month, in the formats with a comma.\<close>

definition pt_day :: "byte list \<Rightarrow> nat \<Rightarrow> nat \<Rightarrow> (pt_fmt \<times> u64 \<times> nat) step" where
  "pt_day mem len p = and_then (two_digits mem p) (\<lambda>day. do {
     c \<leftarrow> rd mem (p + 2);
     (if c = ch CHR '' '' then fails_if (int len - int (p + 2) < 18) (Some (Some (Rfc822, day, p + 3)))
      else if c = ch CHR ''-'' then Some (Some (Rfc850, day, p + 3))
      else Some None)
   })"

definition pt_month :: "byte list \<Rightarrow> nat \<Rightarrow> u64 step" where
  "pt_month mem p = do {
     c \<leftarrow> rd mem p;
     (if c = ch CHR ''J'' then do {
        a \<leftarrow> rd mem (p + 1);
        (if a = ch CHR ''a'' then Some (Some 0)
         else do { b \<leftarrow> rd mem (p + 2); Some (Some (if b = ch CHR ''n'' then 5 else 6)) })
      }
      else if c = ch CHR ''F'' then Some (Some 1)
      else if c = ch CHR ''M'' then do { b \<leftarrow> rd mem (p + 2); Some (Some (if b = ch CHR ''r'' then 2 else 4)) }
      else if c = ch CHR ''A'' then do { a \<leftarrow> rd mem (p + 1); Some (Some (if a = ch CHR ''p'' then 3 else 7)) }
      else if c = ch CHR ''S'' then Some (Some 8)
      else if c = ch CHR ''O'' then Some (Some 9)
      else if c = ch CHR ''N'' then Some (Some 10)
      else if c = ch CHR ''D'' then Some (Some 11)
      else Some None)
   }"

text \<open>The part between the month and the hour: the year, or in the format of \<open>asctime\<close> the day.\<close>

definition pt_isoc_day :: "byte list \<Rightarrow> nat \<Rightarrow> nat \<Rightarrow> (u64 \<times> nat) step" where
  "pt_isoc_day mem len p = do {
     c \<leftarrow> rd mem p;
     let p = (if c = ch CHR '' '' then p + 1 else p);
     and_then (digit mem p) (\<lambda>day. do {
       c \<leftarrow> rd mem (p + 1);
       and_then (if c \<noteq> ch CHR '' '' then and_then (digit mem (p + 1)) (\<lambda>d. Some (Some (day * 10 + d, p + 2)))
                 else Some (Some (day, p + 1)))
         (\<lambda>(day, p). fails_if (int len - int p < 14) (Some (Some (day, p))))
     })
   }"

definition pt_middle :: "byte list \<Rightarrow> nat \<Rightarrow> pt_fmt \<Rightarrow> u64 \<Rightarrow> nat \<Rightarrow> (u64 \<times> u64 \<times> nat) step" where
  "pt_middle mem len fmt day p =
     (if fmt = Rfc822 then and_then (four_digits mem p) (\<lambda>year. Some (Some (day, year, p + 4)))
      else if fmt = Rfc850 then
        and_then (two_digits mem p) (\<lambda>year. Some (Some (day, year + (if year < 70 then 2000 else 1900), p + 2)))
      else and_then (pt_isoc_day mem len p) (\<lambda>(day, p). Some (Some (day, 2038, p))))"

definition pt_clock :: "byte list \<Rightarrow> nat \<Rightarrow> (u64 \<times> u64 \<times> u64) step" where
  "pt_clock mem p =
     and_then (expect mem p CHR '' '') (\<lambda>_. and_then (two_digits mem (p + 1)) (\<lambda>hour.
     and_then (expect mem (p + 3) CHR '':'') (\<lambda>_. and_then (two_digits mem (p + 4)) (\<lambda>mins.
     and_then (expect mem (p + 6) CHR '':'') (\<lambda>_. and_then (two_digits mem (p + 7)) (\<lambda>sec. Some (Some (hour, mins, sec))))))))"

definition mday :: "u64 list" where
  "mday = [31, 28, 31, 30, 31, 30, 31, 31, 30, 31, 30, 31]"

definition pt_time :: "u64 \<Rightarrow> u64 \<Rightarrow> u64 \<Rightarrow> u64 \<Rightarrow> u64 \<Rightarrow> u64 \<Rightarrow> u64 step" where
  "pt_time day month year hour mins sec =
     fails_if (23 < hour \<or> 59 < mins \<or> 59 < sec)
     (fails_if (if day = 29 \<and> month = 1 then year AND 3 \<noteq> 0 \<or> year mod 100 = 0 \<and> year mod 400 \<noteq> 0
                else mday ! unat month < day)
      (let month = month - 1; (month, year) = (if month \<le>s 0 then (month + 12, year - 1) else (month, year))
       in Some (Some ((365 * year + year div 4 - year div 100 + year div 400
            + word_of_int (sint (367 * month) sdiv 12) - 30 + day - 1 - 719527 + 31 + 28) * 86400
            + hour * 3600 + mins * 60 + sec))))"

definition pt_rest :: "byte list \<Rightarrow> nat \<Rightarrow> pt_fmt \<Rightarrow> u64 \<Rightarrow> nat \<Rightarrow> u64 step" where
  "pt_rest mem len fmt day p =
     and_then (pt_month mem p) (\<lambda>month.
     and_then (if fmt = Rfc822 then expect mem (p + 3) CHR '' '' else if fmt = Rfc850 then expect mem (p + 3) CHR ''-'' else Some (Some ())) (\<lambda>_.
     and_then (pt_middle mem len fmt day (p + 4)) (\<lambda>(day, year, p).
     and_then (pt_clock mem p) (\<lambda>(hour, mins, sec).
     and_then (if fmt = Isoc then and_then (expect mem (p + 9) CHR '' '') (\<lambda>_. four_digits mem (p + 10)) else Some (Some year)) (\<lambda>year.
     pt_time day month year hour mins sec)))))"

definition ngx_http_parse_time :: "byte list \<Rightarrow> nat \<Rightarrow> u64 option" where
  "ngx_http_parse_time mem len = do {
     (fmt, p) \<leftarrow> name_loop mem len 0;
     p \<leftarrow> spaces_loop mem len (p + 1);
     r \<leftarrow> fails_if (int len - int p < 18)
       (and_then (if fmt \<noteq> Isoc then pt_day mem len p else Some (Some (fmt, 32, p)))
         (\<lambda>(fmt, day, p). pt_rest mem len fmt day p));
     Some (case r of None \<Rightarrow> NGX_ERROR | Some t \<Rightarrow> t)
   }"

section \<open>A valid date gives its time\<close>

lemma u64_small_simps:
  assumes "a < 2 ^ 64"
  shows "numeral k < (of_nat a :: u64) \<longleftrightarrow> unat (numeral k :: u64) < a" "(of_nat a :: u64) = numeral k \<longleftrightarrow> a = unat (numeral k :: u64)"
    "(of_nat a :: u64) = 1 \<longleftrightarrow> a = 1" "(of_nat a :: u64) < numeral k \<longleftrightarrow> a < unat (numeral k :: u64)"
  using unat_of_nat_small [OF assms] by (auto simp: word_less_nat_alt word_unat_eq_iff)

lemma year_and_3: "Y < 2 ^ 64 \<Longrightarrow> ((of_nat Y :: u64) AND 3 = 0) \<longleftrightarrow> Y mod 4 = 0"
proof -
  assume Y: "Y < 2 ^ 64"
  have "(of_nat Y :: u64) AND 3 = take_bit 2 (of_nat Y)" by (simp add: take_bit_eq_mask mask_eq_exp_minus_1)
  also have "\<dots> = of_nat Y mod 4" by (simp add: take_bit_eq_mod)
  also have "\<dots> = of_nat (Y mod 4)" using of_nat_u64(2) [OF Y, of "num.Bit0 (num.Bit0 num.One)"] by simp
  finally show ?thesis using of_nat_eq_0_u64 [of "Y mod 4"] Y mod_less_eq_dividend [of Y 4] by simp
qed

lemma month_range_cases:
  fixes m :: nat
  assumes "1 \<le> m" "m \<le> 12"
  obtains "m = 1" | "m = 2" | "m = 3" | "m = 4" | "m = 5" | "m = 6" | "m = 7" | "m = 8" | "m = 9" | "m = 10" | "m = 11" | "m = 12"
proof -
  have "m = 1 \<or> m = 2 \<or> m = 3 \<or> m = 4 \<or> m = 5 \<or> m = 6 \<or> m = 7 \<or> m = 8 \<or> m = 9 \<or> m = 10 \<or> m = 11 \<or> m = 12"
    using assms by presburger
  then show ?thesis using that by blast
qed

lemma leap_check:
  assumes "Y < 2 ^ 64"
  shows "((of_nat Y :: u64) AND 3 \<noteq> 0 \<or> (of_nat Y :: u64) mod 100 = 0 \<and> (of_nat Y :: u64) mod 400 \<noteq> 0) \<longleftrightarrow> leap Y = 0"
proof -
  have m: "Y mod j < 2 ^ 64" for j using assms by (meson mod_less_eq_dividend le_less_trans)
  show ?thesis
    using year_and_3 [OF assms] m unfolding of_nat_u64 [OF assms] leap_def by (simp add: of_nat_eq_0_u64)
qed

lemma day_check:
  assumes "1 \<le> m" "m \<le> 12" "k < 2 ^ 64" "Y < 2 ^ 64"
  shows "\<not> (if of_nat k = (29 :: u64) \<and> of_nat (m - 1) = (1 :: u64)
    then (of_nat Y :: u64) AND 3 \<noteq> 0 \<or> (of_nat Y :: u64) mod 100 = 0 \<and> (of_nat Y :: u64) mod 400 \<noteq> 0
    else mday ! unat (of_nat (m - 1) :: u64) < of_nat k) \<longleftrightarrow> k \<le> month_len Y m"
  unfolding leap_check [OF assms(4)] using assms(1,2)
  by (rule month_range_cases)
     (use assms(3) in \<open>auto simp: u64_small_simps mday_def month_len_def leap_def split: if_splits\<close>)

lemma months_sum:
  assumes "1 \<le> m" "m \<le> 12"
  shows "int (sum_list (map (month_len Y) [1..<m])) =
    (if m \<le> 2 then 367 * (int m + 10) div 12 - 306 else 367 * (int m - 2) div 12 + 59 + int (leap Y)) - 30"
  using assms by (rule month_range_cases) (simp_all add: month_len_def upt_rec)

lemma gauss_civil:
  assumes "1 \<le> m" "m \<le> 12" "1 \<le> k" "1970 \<le> Y"
  shows "int (civil Y m k) = (if m \<le> 2 then int (gauss (Y - 1)) + 367 * (int m + 10) div 12
    else int (gauss Y) + 367 * (int m - 2) div 12) - 30 + int k - 1 - 719468"
proof -
  obtain n where n: "Y = 1970 + n" using assms(4) le_Suc_ex by blast
  have s: "int (sum_list (map (\<lambda>k. 365 + leap k) [1970..<Y])) + 719162 = int (gauss (Y - 1))"
    using arg_cong [OF years_sum [of n], of int] unfolding n by simp
  have g: "int (gauss Y) = int (gauss (Y - 1)) + 365 + int (leap Y)" using gauss_Suc [of "Y - 1"] assms(4) by simp
  have "int (k - 1) = int k - 1" using assms(3) by simp
  then show ?thesis using s g months_sum [OF assms(1,2), of Y] unfolding civil_def of_nat_add by (auto split: if_splits)
qed

lemma pt_month_words:
  assumes "1 \<le> m" "m \<le> 12" "1 \<le> Y"
  shows "(let month = of_nat (m - 1) - (1 :: u64)
      in if month \<le>s 0 then (month + 12, of_nat Y - (1 :: u64)) else (month, of_nat Y)) =
    (of_nat (if m \<le> 2 then m + 10 else m - 2), of_nat (if m \<le> 2 then Y - 1 else Y))"
proof -
  have w: "(of_nat (m - 1) - 1 :: u64) = of_int (int m - 2)" using assms(1) by (simp add: of_nat_diff)
  have "(of_int (int m - 2) :: u64) \<le>s 0 \<longleftrightarrow> m \<le> 2"
    using sint_of_int_small [of "int m - 2"] assms(2) by (simp add: word_sle_eq)
  moreover have "(of_int (int m - 2) :: u64) = of_nat (m - 2)" if "2 < m" using that by (simp add: of_nat_diff)
  ultimately show ?thesis using assms(3) unfolding w Let_def by (auto simp: of_nat_diff)
qed

lemma pt_month_div:
  assumes "1 \<le> j" "j \<le> 12"
  shows "word_of_int (sint (367 * of_nat j :: u64) sdiv 12) = (of_int (367 * int j div 12) :: u64)"
proof -
  have "sint (367 * of_nat j :: u64) = 367 * int j"
    using sint_of_nat_small [of "367 * j"] assms(2) by simp
  moreover have "(367 * int j) sdiv 12 = 367 * int j div 12" using assms(1) by (simp add: signed_divide_int_def sgn_if)
  ultimately show ?thesis by simp
qed

lemma pt_time_valid:
  assumes d: "1 \<le> m" "m \<le> 12" "1 \<le> k" "k \<le> month_len Y m" "1970 \<le> Y" "Y \<le> 9999" and t: "hh < 24" "mm < 60" "ss < 60"
  shows "pt_time (of_nat k) (of_nat (m - 1)) (of_nat Y) (of_nat hh) (of_nat mm) (of_nat ss) =
    Some (Some (of_nat (civil Y m k * 86400 + hh * 3600 + mm * 60 + ss)))"
proof -
  have k: "k < 2 ^ 64" "Y < 2 ^ 64" "Y < 2 ^ 32" "Y - 1 < 2 ^ 32" using d month_len_le [of Y m] by simp_all
  have hms: "\<not> (23 < (of_nat hh :: u64) \<or> 59 < (of_nat mm :: u64) \<or> 59 < (of_nat ss :: u64))"
    using t by (simp add: u64_small_simps)
  note day = day_check [OF d(1,2) k(1,2), THEN iffD2, OF d(4)]
  define j where "j = (if m \<le> 2 then m + 10 else m - 2)"
  define y where "y = (if m \<le> 2 then Y - 1 else Y)"
  have j: "1 \<le> j" "j \<le> 12" "y < 2 ^ 32" using d k(3,4) unfolding j_def y_def by auto
  have mw: "(let month = of_nat (m - 1) - (1 :: u64)
      in if month \<le>s 0 then (month + 12, of_nat Y - (1 :: u64)) else (month, of_nat Y)) = (of_nat j, of_nat y)"
    using pt_month_words [OF d(1,2), of Y] d(5) unfolding j_def y_def by simp
  have c: "int (civil Y m k) = int (gauss y) + 367 * int j div 12 - 30 + int k - 1 - 719468"
    using gauss_civil [OF d(1-3,5)] d(1) unfolding j_def y_def by (auto simp: of_nat_diff)
  have "(of_nat (civil Y m k) :: u64) = of_int (int (civil Y m k))" by simp
  also have "\<dots> = gauss_days (of_nat y) + of_int (367 * int j div 12) - 30 + of_nat k - 1 - 719527 + 31 + 28"
    unfolding c gauss_days_of_nat [OF j(3)] by simp
  finally have civ: "gauss_days (of_nat y) + of_int (367 * int j div 12) - 30 + of_nat k - 1 - 719527 + 31 + 28 = (of_nat (civil Y m k) :: u64)" ..
  have "pt_time (of_nat k) (of_nat (m - 1)) (of_nat Y) (of_nat hh) (of_nat mm) (of_nat ss) =
    Some (Some ((gauss_days (of_nat y) + word_of_int (sint (367 * of_nat j :: u64) sdiv 12) - 30 + of_nat k - 1 - 719527 + 31 + 28) * 86400
      + of_nat hh * 3600 + of_nat mm * 60 + of_nat ss))"
    unfolding pt_time_def fails_if_def gauss_days_def using hms day mw [unfolded Let_def] by (simp only: if_False Let_def prod.case)
  then show ?thesis unfolding pt_month_div [OF j(1,2)] civ by simp
qed

lemma pt_time_invalid:
  assumes "1 \<le> m" "m \<le> 12" "k < 2 ^ 64" "Y < 2 ^ 64" "hh < 2 ^ 64" "mm < 2 ^ 64" "ss < 2 ^ 64"
    "\<not> (hh < 24 \<and> mm < 60 \<and> ss < 60 \<and> k \<le> month_len Y m)"
  shows "pt_time (of_nat k) (of_nat (m - 1)) (of_nat Y) (of_nat hh) (of_nat mm) (of_nat ss) = Some None"
proof (cases "hh < 24 \<and> mm < 60 \<and> ss < 60")
  case True
  then have "\<not> k \<le> month_len Y m" using assms(8) by blast
  note day = this [folded day_check [OF assms(1-4)], unfolded not_not]
  show ?thesis unfolding pt_time_def fails_if_def if_P [OF day] by (simp only: if_cancel)
next
  case False
  then show ?thesis using assms(5-7) unfolding pt_time_def fails_if_def by (auto simp: u64_small_simps)
qed

section \<open>Memory safety\<close>

definition inside :: "'a option \<Rightarrow> bool" where
  "inside r \<longleftrightarrow> r \<noteq> None"

lemma inside_Some [simp]: "inside (Some x)"
  by (simp add: inside_def)

lemma inside_bind: "i < length mem \<Longrightarrow> inside (f (mem ! i)) \<Longrightarrow> inside (rd mem i \<bind> f)"
  by (simp add: inside_def)

lemma and_then_inside: "inside r \<Longrightarrow> (\<And>x. r = Some (Some x) \<Longrightarrow> inside (f x)) \<Longrightarrow> inside (and_then r f)"
  by (auto simp: and_then_def inside_def split: option.split)

lemma and_then_Some_Some: "and_then r f = Some (Some y) \<longleftrightarrow> (\<exists>x. r = Some (Some x) \<and> f x = Some (Some y))"
  by (auto simp: and_then_def split: option.split)

lemma and_then_Some [simp]: "and_then (Some (Some x)) f = f x" "and_then (Some None) f = Some None"
  by (simp_all add: and_then_def)

lemma fails_if_inside: "(\<not> b \<Longrightarrow> inside r) \<Longrightarrow> inside (fails_if b r)"
  by (simp add: fails_if_def)

lemma fails_if_Some_Some: "fails_if b r = Some (Some y) \<longleftrightarrow> \<not> b \<and> r = Some (Some y)"
  by (simp add: fails_if_def)

lemmas inside_intros = inside_bind and_then_inside fails_if_inside

lemma digit_inside: "p < length mem \<Longrightarrow> inside (digit mem p)"
  by (simp add: digit_def)

lemma two_digits_inside: "p + 2 \<le> length mem \<Longrightarrow> inside (two_digits mem p)"
  unfolding two_digits_def by (intro and_then_inside digit_inside) auto

lemma four_digits_inside: "p + 4 \<le> length mem \<Longrightarrow> inside (four_digits mem p)"
  unfolding four_digits_def by (intro and_then_inside digit_inside) auto

lemma expect_inside: "p < length mem \<Longrightarrow> inside (expect mem p c)"
  by (simp add: expect_def)

lemma pt_month_inside: "p + 3 \<le> length mem \<Longrightarrow> inside (pt_month mem p)"
  by (simp add: pt_month_def)

lemma pt_day_inside: "p + 3 \<le> length mem \<Longrightarrow> inside (pt_day mem len p)"
  unfolding pt_day_def by (intro inside_intros two_digits_inside) (auto simp: fails_if_def)

lemma pt_day_Some:
  assumes "pt_day mem len p = Some (Some (fmt, day, q))"
  shows "q = p + 3" "fmt = Rfc822 \<and> q + 17 \<le> len \<or> fmt = Rfc850"
  using assms by (auto simp: pt_day_def and_then_Some_Some fails_if_Some_Some bind_eq_Some_conv split: if_splits)

lemma pt_clock_inside: "p + 9 \<le> length mem \<Longrightarrow> inside (pt_clock mem p)"
  unfolding pt_clock_def by (intro and_then_inside two_digits_inside expect_inside) auto

lemma pt_isoc_day_inside: "p + 3 \<le> length mem \<Longrightarrow> inside (pt_isoc_day mem len p)"
  unfolding pt_isoc_day_def Let_def
  by (auto simp: fails_if_def intro!: inside_intros digit_inside)

lemma pt_isoc_day_Some: "pt_isoc_day mem len p = Some (Some (day, q)) \<Longrightarrow> q + 14 \<le> len"
  by (auto simp: pt_isoc_day_def Let_def and_then_Some_Some fails_if_Some_Some bind_eq_Some_conv split: if_splits)

lemma pt_middle_inside:
  "p + 4 \<le> length mem \<Longrightarrow> inside (pt_middle mem len fmt day p)"
  unfolding pt_middle_def
  by (auto intro!: and_then_inside four_digits_inside two_digits_inside pt_isoc_day_inside)

lemma pt_middle_Some:
  assumes "pt_middle mem len fmt day p = Some (Some (day', year, q))"
  shows "fmt = Rfc822 \<Longrightarrow> q = p + 4" "fmt = Rfc850 \<Longrightarrow> q = p + 2" "fmt \<noteq> Rfc822 \<Longrightarrow> fmt \<noteq> Rfc850 \<Longrightarrow> q + 14 \<le> len"
  using assms by (auto simp: pt_middle_def and_then_Some_Some split: if_splits dest: pt_isoc_day_Some)

lemma pt_time_inside: "inside (pt_time day month year hour mins sec)"
  by (simp add: pt_time_def Let_def fails_if_def split: prod.splits)

lemma name_loop_inside: "len \<le> length mem \<Longrightarrow> \<exists>fmt q. name_loop mem len p = Some (fmt, q) \<and> fmt \<in> {No, Isoc}"
proof (induction mem len p rule: name_loop.induct)
  case (1 mem len p)
  then show ?case by (subst name_loop.simps) auto
qed

lemma spaces_loop_inside: "len \<le> length mem \<Longrightarrow> \<exists>q. spaces_loop mem len p = Some q"
proof (induction mem len p rule: spaces_loop.induct)
  case (1 mem len p)
  then show ?case by (subst spaces_loop.simps) auto
qed

lemma pt_rest_inside:
  assumes "fmt = Rfc822 \<and> p + 17 \<le> len \<or> fmt = Rfc850 \<and> p + 15 \<le> len \<or> fmt = Isoc \<and> p + 18 \<le> len" "len \<le> length mem"
  shows "inside (pt_rest mem len fmt day p)"
proof -
  have mid: "inside (pt_middle mem len fmt day (p + 4))" using assms by (intro pt_middle_inside) auto
  have q: "q + 9 \<le> len \<and> (fmt = Isoc \<longrightarrow> q + 14 \<le> len)"
    if "pt_middle mem len fmt day (p + 4) = Some (Some (day', year, q))" for day' year q
    using pt_middle_Some [OF that] assms by auto
  have clock: "inside (pt_clock mem q)" if "pt_middle mem len fmt day (p + 4) = Some (Some (day', year, q))" for day' year q
    using q [OF that] assms by (intro pt_clock_inside) auto
  have yr: "inside (if fmt = Isoc then and_then (expect mem (q + 9) CHR '' '') (\<lambda>_. four_digits mem (q + 10)) else Some (Some year))"
    if "pt_middle mem len fmt day (p + 4) = Some (Some (day', year, q))" for day' year q
    using q [OF that] assms by (auto intro!: and_then_inside expect_inside four_digits_inside)
  have sep: "inside (if fmt = Rfc822 then expect mem (p + 3) CHR '' '' else if fmt = Rfc850 then expect mem (p + 3) CHR ''-'' else Some (Some ()))"
    using assms by (auto intro!: expect_inside)
  have "p + 3 \<le> length mem" using assms by auto
  then show ?thesis
    unfolding pt_rest_def
    by (auto intro!: and_then_inside pt_month_inside sep mid clock yr pt_time_inside split: prod.split split del: if_split)
qed

text \<open>
  \<open>ngx_http_parse_time\<close> never reads outside of the \<open>len\<close> bytes that it is given, whatever they are: the checks of the rest
  (18 bytes, 18 behind the day, 14 behind the day of the third format) are enough for all reads behind them.
\<close>
theorem ngx_http_parse_time_safe:
  assumes "len \<le> length mem"
  shows "\<exists>t. ngx_http_parse_time mem len = Some t"
proof -
  obtain fmt0 q where n: "name_loop mem len 0 = Some (fmt0, q)" "fmt0 \<in> {No, Isoc}" using name_loop_inside [OF assms] by blast
  obtain p where s: "spaces_loop mem len (Suc q) = Some p" using spaces_loop_inside [OF assms] by blast
  have "inside (fails_if (int len - int p < 18)
    (and_then (if fmt0 \<noteq> Isoc then pt_day mem len p else Some (Some (fmt0, 32, p))) (\<lambda>(fmt, day, p). pt_rest mem len fmt day p)))"
    using assms n(2) pt_day_Some [of mem len p]
    by (intro fails_if_inside and_then_inside) (auto intro!: pt_day_inside pt_rest_inside split: if_splits)
  then show ?thesis unfolding ngx_http_parse_time_def n(1) by (auto simp: s inside_def)
qed

theorem ngx_http_parse_time_safe_witness:
  "\<exists>t. ngx_http_parse_time (bytes ''Tue Dec  1 23:50:13'') 19 = Some t"
  by (rule ngx_http_parse_time_safe) (simp add: bytes_def)

section \<open>The three formats\<close>

definition dd :: "nat \<Rightarrow> byte list" where
  "dd k = [of_nat (48 + k div 10), of_nat (48 + k mod 10)]"

lemma length_dd [simp]: "length (dd k) = 2"
  by (simp add: dd_def)

lemma digit_reads:
  assumes "rd mem p = Some (of_nat (48 + d))" "d < 10"
  shows "digit mem p = Some (Some (of_nat d))"
proof -
  have "unat (of_nat (48 + d) :: byte) = 48 + d" unfolding unat_of_nat using assms(2) by simp
  then have "(ucast (of_nat (48 + d) :: byte) :: u64) = of_nat (48 + d)"
    using of_nat_unat [of "of_nat (48 + d) :: byte", where ?'a = "64 word"] by metis
  then show ?thesis using assms digit_of_nat(1) [OF assms(2)] by (simp add: digit_def)
qed

lemma two_digits_reads:
  assumes "reads mem p (dd k)" "k < 100"
  shows "two_digits mem p = Some (Some (of_nat k))"
proof -
  have "digit mem p = Some (Some (of_nat (k div 10)))" "digit mem (p + 1) = Some (Some (of_nat (k mod 10)))"
    using assms by (auto simp: dd_def intro!: digit_reads)
  moreover have "(of_nat (k div 10) * 10 + of_nat (k mod 10) :: u64) = of_nat k"
    using arg_cong [OF div_mult_mod_eq [of k 10], of "of_nat :: nat \<Rightarrow> u64"] by (simp only: of_nat_add of_nat_mult of_nat_numeral)
  ultimately show ?thesis by (simp add: two_digits_def)
qed

lemma four_digits_reads:
  assumes "reads mem p (dd (k div 100))" "reads mem (p + 2) (dd (k mod 100))" "k < 10000"
  shows "four_digits mem p = Some (Some (of_nat k))"
proof -
  have a: "two_digits mem p = Some (Some (of_nat (k div 100)))" "two_digits mem (p + 2) = Some (Some (of_nat (k mod 100)))"
    using assms by (auto intro!: two_digits_reads simp: less_mult_imp_div_less)
  obtain x y where xy: "digit mem p = Some (Some x)" "digit mem (p + 1) = Some (Some y)" "x * 10 + y = of_nat (k div 100)"
    using a(1) by (auto simp: two_digits_def and_then_Some_Some)
  obtain u v where uv: "digit mem (p + 2) = Some (Some u)" "digit mem (p + 3) = Some (Some v)" "u * 10 + v = of_nat (k mod 100)"
    using a(2) by (auto simp: two_digits_def and_then_Some_Some add.assoc numeral_3_eq_3)
  have "x * 1000 + y * 100 + u * 10 + v = (x * 10 + y) * 100 + (u * 10 + v)" by (simp add: algebra_simps)
  also have "\<dots> = of_nat (k div 100 * 100 + k mod 100)" unfolding xy(3) uv(3) by (simp only: of_nat_add of_nat_mult of_nat_numeral)
  finally show ?thesis using xy(1,2) uv(1,2) by (simp add: four_digits_def)
qed

lemma expect_reads: "rd mem p = Some (ch c) \<Longrightarrow> expect mem p c = Some (Some ())"
  by (simp add: expect_def)

lemma pt_month_reads:
  assumes "reads mem p (months ! (m - 1))" "1 \<le> m" "m \<le> 12"
  shows "pt_month mem p = Some (Some (of_nat (m - 1)))"
  using assms(2,3)
  by (rule month_range_cases) (use assms(1) in \<open>simp_all add: months_def bytes_def pt_month_def byte_simps\<close>)

definition clock :: "nat \<Rightarrow> nat \<Rightarrow> nat \<Rightarrow> byte list" where
  "clock hh mm ss = bytes '' '' @ dd hh @ bytes '':'' @ dd mm @ bytes '':'' @ dd ss"

lemma pt_clock_reads:
  assumes "reads mem p (clock hh mm ss)" "hh < 100" "mm < 100" "ss < 100"
  shows "pt_clock mem p = Some (Some (of_nat hh, of_nat mm, of_nat ss))"
proof -
  have "rd mem p = Some (ch CHR '' '')" "reads mem (p + 1) (dd hh)" "rd mem (p + 3) = Some (ch CHR '':'')" "reads mem (p + 4) (dd mm)"
    "rd mem (p + 6) = Some (ch CHR '':'')" "reads mem (p + 7) (dd ss)"
    using assms(1) by (simp_all add: clock_def numeral_eq_Suc)
  then show ?thesis using assms(2-4) by (simp add: pt_clock_def expect_reads two_digits_reads)
qed

definition word_name :: "byte list \<Rightarrow> bool" where
  "word_name nm \<longleftrightarrow> ch CHR '','' \<notin> set nm \<and> ch CHR '' '' \<notin> set nm"

definition rfc822 :: "byte list \<Rightarrow> nat \<Rightarrow> nat \<Rightarrow> nat \<Rightarrow> nat \<Rightarrow> nat \<Rightarrow> nat \<Rightarrow> byte list" where
  "rfc822 nm Y m k hh mm ss = nm @ bytes '', '' @ dd k @ bytes '' '' @ months ! (m - 1) @ bytes '' '' @ dd (Y div 100) @ dd (Y mod 100) @ clock hh mm ss"

definition rfc850 :: "byte list \<Rightarrow> nat \<Rightarrow> nat \<Rightarrow> nat \<Rightarrow> nat \<Rightarrow> nat \<Rightarrow> nat \<Rightarrow> byte list" where
  "rfc850 nm Y m k hh mm ss = nm @ bytes '', '' @ dd k @ bytes ''-'' @ months ! (m - 1) @ bytes ''-'' @ dd (Y mod 100) @ clock hh mm ss"

definition asctime :: "byte list \<Rightarrow> nat \<Rightarrow> nat \<Rightarrow> nat \<Rightarrow> nat \<Rightarrow> nat \<Rightarrow> nat \<Rightarrow> byte list" where
  "asctime nm Y m k hh mm ss = nm @ bytes '' '' @ months ! (m - 1) @ bytes '' '' @
     (if k < 10 then bytes '' '' @ [of_nat (48 + k)] else dd k) @ clock hh mm ss @ bytes '' '' @ dd (Y div 100) @ dd (Y mod 100)"

lemma name_loop_reads:
  assumes "reads mem p nm" "word_name nm" "rd mem (p + length nm) = Some c" "c = ch CHR '','' \<or> c = ch CHR '' ''" "p + length nm < len"
  shows "name_loop mem len p = Some (if c = ch CHR '','' then No else Isoc, p + length nm)"
  using assms
proof (induction nm arbitrary: p)
  case Nil
  then show ?case by (subst name_loop.simps) auto
next
  case (Cons x nm)
  then have "name_loop mem len (p + 1) = Some (if c = ch CHR '','' then No else Isoc, p + 1 + length nm)"
    by (intro Cons.IH) (auto simp: word_name_def)
  then show ?case using Cons.prems by (subst name_loop.simps) (auto simp: word_name_def)
qed

lemma spaces_loop_stop: "rd mem p = Some c \<Longrightarrow> c \<noteq> ch CHR '' '' \<Longrightarrow> spaces_loop mem len p = Some p"
  by (subst spaces_loop.simps) simp

lemma spaces_loop_space: "rd mem p = Some (ch CHR '' '') \<Longrightarrow> p < len \<Longrightarrow> spaces_loop mem len p = spaces_loop mem len (p + 1)"
  by (subst spaces_loop.simps) simp

lemma digit_not_space: "is_digit c \<Longrightarrow> c \<noteq> ch CHR '' ''"
  by (auto simp: is_digit_def byte_simps)

lemma dd_not_space: "k < 100 \<Longrightarrow> hd (dd k) \<noteq> ch CHR '' ''"
  unfolding dd_def list.sel by (intro digit_not_space digit_of_nat) (simp add: less_mult_imp_div_less)

lemma month_name:
  assumes "1 \<le> m" "m \<le> 12"
  shows "length (months ! (m - 1)) = 3" "hd (months ! (m - 1)) \<noteq> ch CHR '' ''"
  using assms by (rule month_range_cases; simp add: months_def bytes_def byte_simps)+

lemma comma_prefix:
  assumes r: "reads mem 0 (nm @ bytes '', '' @ dd k)" and nm: "word_name nm" and k: "k < 100" and len: "length nm + 20 \<le> len" 
  shows "ngx_http_parse_time mem len = map_option (\<lambda>r. case r of None \<Rightarrow> NGX_ERROR | Some t \<Rightarrow> t)
    (and_then (pt_day mem len (length nm + 2)) (\<lambda>(fmt, day, p). pt_rest mem len fmt day p))"
proof -
  have "reads mem 0 nm" "rd mem (0 + length nm) = Some (ch CHR '','')" "rd mem (length nm + 1) = Some (ch CHR '' '')"
    "rd mem (length nm + 2) = Some (hd (dd k))" using r by (simp_all add: dd_def)
  moreover have "name_loop mem len 0 = Some (No, length nm)" using name_loop_reads [OF calculation(1) nm calculation(2)] len by simp
  moreover have "spaces_loop mem len (length nm + 1) = Some (length nm + 2)"
    using spaces_loop_space [OF calculation(3)] spaces_loop_stop [OF calculation(4) dd_not_space [OF k]] len by simp
  moreover have "\<not> int len - int (length nm + 2) < 18" using len by simp
  ultimately show ?thesis
    by (simp add: ngx_http_parse_time_def fails_if_def map_conv_bind_option comp_def)
qed


lemma offset_Suc:
  fixes p :: nat
  shows "p + 3 = Suc (p + 2)" "p + 4 = Suc (p + 3)" "p + 5 = Suc (p + 4)" "p + 6 = Suc (p + 5)" "p + 7 = Suc (p + 6)" "p + 8 = Suc (p + 7)" "p + 9 = Suc (p + 8)" "p + 10 = Suc (p + 9)" 
    "p + 11 = Suc (p + 10)" "p + 12 = Suc (p + 11)" "p + 13 = Suc (p + 12)" "p + 14 = Suc (p + 13)" "p + 15 = Suc (p + 14)" "p + 16 = Suc (p + 15)" "p + 17 = Suc (p + 16)" "p + 18 = Suc (p + 17)" "p + 19 = Suc (p + 18)"
  by simp_all

lemma rfc822_reads:
  assumes r: "reads mem 0 (rfc822 nm Y m k hh mm ss)" and len: "length nm + 22 \<le> len" and nm: "word_name nm"
    and d: "1 \<le> m" "m \<le> 12" "k < 100" "Y < 10000" and t: "hh < 100" "mm < 100" "ss < 100"
  shows "ngx_http_parse_time mem len = map_option (\<lambda>r. case r of None \<Rightarrow> NGX_ERROR | Some t \<Rightarrow> t)
    (pt_time (of_nat k) (of_nat (m - 1)) (of_nat Y) (of_nat hh) (of_nat mm) (of_nat ss))"
proof -
  define n where "n = length nm"
  note ml = month_name(1) [OF d(1,2)]
  have f: "reads mem (n + 2) (dd k)" "rd mem (n + 4) = Some (ch CHR '' '')" "reads mem (n + 5) (months ! (m - 1))"
    "rd mem (n + 8) = Some (ch CHR '' '')" "reads mem (n + 9) (dd (Y div 100))" "reads mem (n + 11) (dd (Y mod 100))"
    "reads mem (n + 13) (clock hh mm ss)"
    using r ml unfolding rfc822_def n_def by (simp_all add: offset_Suc)
  have "pt_day mem len (n + 2) = Some (Some (Rfc822, of_nat k, n + 5))"
    using f(1,2) d(3) len unfolding n_def by (simp add: pt_day_def two_digits_reads fails_if_def offset_Suc)
  moreover have "pt_rest mem len Rfc822 (of_nat k) (n + 5) = pt_time (of_nat k) (of_nat (m - 1)) (of_nat Y) (of_nat hh) (of_nat mm) (of_nat ss)"
    using pt_month_reads [OF f(3) d(1,2)] expect_reads [OF f(4)] four_digits_reads [of mem "n + 9" Y] f(5,6) d(4) pt_clock_reads [OF f(7) t]
    by (simp add: pt_rest_def pt_middle_def offset_Suc)
  ultimately show ?thesis using comma_prefix [of mem nm k len] r nm d(3) len unfolding rfc822_def n_def by simp
qed

lemma rfc850_reads:
  assumes r: "reads mem 0 (rfc850 nm Y m k hh mm ss)" and len: "length nm + 20 \<le> len" and nm: "word_name nm"
    and d: "1 \<le> m" "m \<le> 12" "k < 100" "1970 \<le> Y" "Y < 2070" and t: "hh < 100" "mm < 100" "ss < 100"
  shows "ngx_http_parse_time mem len = map_option (\<lambda>r. case r of None \<Rightarrow> NGX_ERROR | Some t \<Rightarrow> t)
    (pt_time (of_nat k) (of_nat (m - 1)) (of_nat Y) (of_nat hh) (of_nat mm) (of_nat ss))"
proof -
  define n where "n = length nm"
  note ml = month_name(1) [OF d(1,2)]
  have f: "reads mem (n + 2) (dd k)" "rd mem (n + 4) = Some (ch CHR ''-'')" "reads mem (n + 5) (months ! (m - 1))"
    "rd mem (n + 8) = Some (ch CHR ''-'')" "reads mem (n + 9) (dd (Y mod 100))" "reads mem (n + 11) (clock hh mm ss)"
    using r ml unfolding rfc850_def n_def by (simp_all add: offset_Suc)
  have y: "(of_nat (Y mod 100) + (if (of_nat (Y mod 100) :: u64) < 70 then 2000 else 1900)) = (of_nat Y :: u64)"
  proof -
    have "Y mod 100 < 100" by simp
    then have "((of_nat (Y mod 100) :: u64) < 70) = (Y mod 100 < 70)" by (subst u64_small_simps(4)) simp_all
    moreover have "Y mod 100 = (if Y < 2000 then Y - 1900 else Y - 2000)" using d(4,5) by (auto intro!: mod_nat_eqI)
    then have "Y mod 100 + (if Y mod 100 < 70 then 2000 else 1900) = Y" using d(4,5) by auto
    then have "(of_nat (Y mod 100 + (if Y mod 100 < 70 then 2000 else 1900)) :: u64) = of_nat Y" by (simp only:)
    ultimately show ?thesis by (simp split: if_splits)
  qed
  have "pt_day mem len (n + 2) = Some (Some (Rfc850, of_nat k, n + 5))"
    using f(1,2) d(3) unfolding n_def by (simp add: pt_day_def two_digits_reads offset_Suc byte_simps)
  moreover have "pt_rest mem len Rfc850 (of_nat k) (n + 5) = pt_time (of_nat k) (of_nat (m - 1)) (of_nat Y) (of_nat hh) (of_nat mm) (of_nat ss)"
    using pt_month_reads [OF f(3) d(1,2)] expect_reads [OF f(4)] two_digits_reads [OF f(5)] pt_clock_reads [OF f(6) t] y
    by (simp add: pt_rest_def pt_middle_def offset_Suc)
  ultimately show ?thesis using comma_prefix [of mem nm k len] r nm d(3) len unfolding rfc850_def n_def by simp
qed

lemma pt_isoc_day_reads:
  assumes "reads mem p (if k < 10 then bytes '' '' @ [of_nat (48 + k)] else dd k)" "rd mem (p + 2) = Some (ch CHR '' '')" "p + 16 \<le> len" "k < 100"
  shows "pt_isoc_day mem len p = Some (Some (of_nat k, p + 2))"
proof (cases "k < 10")
  case True
  then have "rd mem p = Some (ch CHR '' '')" "digit mem (p + 1) = Some (Some (of_nat k))" using assms(1) by (auto intro!: digit_reads)
  then show ?thesis using assms(2,3) by (simp add: pt_isoc_day_def fails_if_def)
next
  case False
  then have r: "reads mem p (dd k)" using assms(1) by simp
  obtain a b where ab: "digit mem p = Some (Some a)" "digit mem (p + 1) = Some (Some b)" "a * 10 + b = of_nat k"
    using two_digits_reads [OF r assms(4)] by (auto simp: two_digits_def and_then_Some_Some)
  moreover have "rd mem p = Some (hd (dd k))" "rd mem (p + 1) = Some (dd k ! 1)" using r by (simp_all add: dd_def)
  moreover have "dd k ! 1 \<noteq> ch CHR '' ''"
  proof -
    have "dd k ! 1 = of_nat (48 + k mod 10)" by (simp add: dd_def)
    then show ?thesis using digit_not_space [OF digit_of_nat(1) [of "k mod 10"]] by simp
  qed
  ultimately show ?thesis using dd_not_space [OF assms(4)] assms(3) by (simp add: pt_isoc_day_def fails_if_def)
qed

lemma asctime_reads:
  assumes r: "reads mem 0 (asctime nm Y m k hh mm ss)" and len: "length nm + 21 \<le> len" and nm: "word_name nm"
    and d: "1 \<le> m" "m \<le> 12" "k < 100" "Y < 10000" and t: "hh < 100" "mm < 100" "ss < 100"
  shows "ngx_http_parse_time mem len = map_option (\<lambda>r. case r of None \<Rightarrow> NGX_ERROR | Some t \<Rightarrow> t)
    (pt_time (of_nat k) (of_nat (m - 1)) (of_nat Y) (of_nat hh) (of_nat mm) (of_nat ss))"
proof -
  define n where "n = length nm"
  note ml = month_name [OF d(1,2)]
  have k2: "length (if k < 10 then bytes '' '' @ [of_nat (48 + k)] else dd k) = 2" by simp
  have f: "reads mem 0 nm" "rd mem (0 + n) = Some (ch CHR '' '')" "reads mem (n + 1) (months ! (m - 1))"
    "rd mem (n + 4) = Some (ch CHR '' '')" "reads mem (n + 5) (if k < 10 then bytes '' '' @ [of_nat (48 + k)] else dd k)"
    "reads mem (n + 7) (clock hh mm ss)" "rd mem (n + 7) = Some (ch CHR '' '')"
    "rd mem (n + 16) = Some (ch CHR '' '')" "reads mem (n + 17) (dd (Y div 100))" "reads mem (n + 19) (dd (Y mod 100))"
    using r ml(1) k2 unfolding asctime_def n_def by (simp_all add: offset_Suc clock_def del: length_append split del: if_split)
  have "rd mem (n + 1) = Some (hd (months ! (m - 1)))" using f(3) ml(1) by (cases "months ! (m - 1)") auto
  then have "spaces_loop mem len (n + 1) = Some (n + 1)" using ml(2) by (rule spaces_loop_stop)
  moreover have "name_loop mem len 0 = Some (Isoc, n)"
    using name_loop_reads [OF f(1) nm f(2) [unfolded n_def]] len unfolding n_def by (simp add: byte_simps)
  moreover have "pt_rest mem len Isoc 32 (n + 1) = pt_time (of_nat k) (of_nat (m - 1)) (of_nat Y) (of_nat hh) (of_nat mm) (of_nat ss)"
    using pt_month_reads [OF f(3) d(1,2)] pt_isoc_day_reads [OF f(5)] f(7) pt_clock_reads [OF f(6) t] expect_reads [OF f(8)]
      four_digits_reads [of mem "n + 17" Y] f(9,10) d(3,4) len unfolding n_def
    by (simp add: pt_rest_def pt_middle_def offset_Suc)
  moreover have "\<not> int len - int (n + 1) < 18" using len unfolding n_def by simp
  ultimately show ?thesis by (simp add: ngx_http_parse_time_def fails_if_def map_conv_bind_option comp_def)
qed

section \<open>Printing a date\<close>

lemma dec_show_dd: "k < 100 \<Longrightarrow> replicate (2 - length (dec_show k)) (ch CHR ''0'') @ dec_show k = dd k"
  by (cases "k < 10") (simp_all add: dec_show.simps [of k] dec_show.simps [of "k div 10"] dd_def byte_simps less_mult_imp_div_less)

lemma dec_show_dd4:
  assumes "1000 \<le> k" "k < 10000"
  shows "dec_show k = dd (k div 100) @ dd (k mod 100)"
proof -
  have q: "k div 10 div 10 = k div 100" "k div 10 mod 10 = k mod 100 div 10" "k mod 10 = k mod 100 mod 10"
    using div_mult2_eq [of k 10 10] mod_mult2_eq [of k 10 10] by simp_all
  have "10 \<le> k div 100" using assms(1) div_le_mono [of 1000 k 100] by simp
  moreover have "k div 100 < 100" using assms(2) by (simp add: less_mult_imp_div_less)
  ultimately have "dec_show (k div 100) = dd (k div 100)" using dec_show_dd [of "k div 100"] dec_show_length [of 1 "k div 100"] by simp
  moreover have "10 \<le> k div 10" using assms(1) div_le_mono [of 1000 k 10] by simp
  ultimately show ?thesis
    using assms(1) by (simp add: dec_show.simps [of k] dec_show.simps [of "k div 10"] q [symmetric] dd_def [of "k mod 100"])
qed

lemma directive_02d:
  assumes "k < 100" "length out + 2 \<le> cap"
  shows "directive cap (bytes ''02d'' @ fmt) (V32 (of_nat k) # args) out = Some (fmt, args, out @ dd k)"
proof -
  have "length (dec_show k) \<le> 2" using assms(1) dec_show_length [of 2 k] by simp
  then have "ngx_sprintf_num cap (of_nat k) (ch CHR ''0'') 0 2 out = Some (out @ dd k)"
    using sprintf_num_dec [of out 2 "of_nat k" cap "ch CHR ''0''"] unat_of_nat_small [of k] assms dec_show_dd [OF assms(1)] by simp
  then show ?thesis
    using int_arg_small [of k] assms(1)
    by (simp add: bytes_def directive_def byte_simps convert_def int_arg_def put_int_def)
qed

lemma directive_4d:
  assumes "1000 \<le> k" "k < 10000" "length out + 4 \<le> cap"
  shows "directive cap (bytes ''4d'' @ fmt) (V32 (of_nat k) # args) out = Some (fmt, args, out @ dd (k div 100) @ dd (k mod 100))"
proof -
  have "ngx_sprintf_num cap (of_nat k) 32 0 4 out = Some (out @ dd (k div 100) @ dd (k mod 100))"
    using sprintf_num_dec [of out 4 "of_nat k" cap 32] unat_of_nat_small [of k] assms(2,3) dec_show_dd4 [OF assms(1,2)] by simp
  then show ?thesis
    using int_arg_small [of k] assms(2)
    by (simp add: bytes_def directive_def byte_simps convert_def int_arg_def put_int_def)
qed

text \<open>The directives of a date as steps of the loop.\<close>

lemma vsl_date:
  assumes "length out + 4 < cap"
  shows "k < 100 \<Longrightarrow> ngx_vslprintf cap (bytes ''%02d'' @ fmt) (V32 (of_nat k) # args) out = ngx_vslprintf cap fmt args (out @ dd k)"
    "1000 \<le> k \<Longrightarrow> k < 10000 \<Longrightarrow>
      ngx_vslprintf cap (bytes ''%4d'' @ fmt) (V32 (of_nat k) # args) out = ngx_vslprintf cap fmt args (out @ dd (k div 100) @ dd (k mod 100))"
    "0 \<notin> set s \<Longrightarrow> length s = 3 \<Longrightarrow> ngx_vslprintf cap (bytes ''%s'' @ fmt) (VMem (s @ [0]) # args) out = ngx_vslprintf cap fmt args (out @ s)"
    "list_all (\<lambda>c. c \<noteq> ch CHR ''%'') (bytes cs) \<Longrightarrow> length cs \<le> 4 \<Longrightarrow>
      ngx_vslprintf cap (bytes cs @ fmt) args out = ngx_vslprintf cap fmt args (out @ bytes cs)"
proof -
  have b: "bytes (c # cs) @ fmt = ch c # bytes cs @ fmt" for c cs by (simp add: bytes_def)
  show "ngx_vslprintf cap (bytes ''%02d'' @ fmt) (V32 (of_nat k) # args) out = ngx_vslprintf cap fmt args (out @ dd k)" if "k < 100"
    unfolding b [of _ "''02d''"] using assms that by (intro vsl_directive directive_02d) auto
  show "ngx_vslprintf cap (bytes ''%4d'' @ fmt) (V32 (of_nat k) # args) out = ngx_vslprintf cap fmt args (out @ dd (k div 100) @ dd (k mod 100))"
    if "1000 \<le> k" "k < 10000"
    unfolding b [of _ "''4d''"] using assms that by (intro vsl_directive directive_4d) auto
  show "ngx_vslprintf cap (bytes ''%s'' @ fmt) (VMem (s @ [0]) # args) out = ngx_vslprintf cap fmt args (out @ s)" if "0 \<notin> set s" "length s = 3"
    unfolding b [of _ "''s''"] using assms that by (intro vsl_directive directive_s) auto
  show "ngx_vslprintf cap (bytes cs @ fmt) args out = ngx_vslprintf cap fmt args (out @ bytes cs)"
    if "list_all (\<lambda>c. c \<noteq> ch CHR ''%'') (bytes cs)" "length cs \<le> 4"
    using assms that by (intro vsl_literal) auto
qed

lemma date_literals:
  "cs \<in> {'', '', '' '', '':'', ''-'', '' GMT''} \<Longrightarrow> list_all (\<lambda>c. c \<noteq> ch CHR ''%'') (bytes cs)"
  by (auto simp: bytes_def byte_simps)

lemma vsl_gmt: "length out + 4 \<le> cap \<Longrightarrow> ngx_vslprintf cap (bytes '' GMT'') [] out = Some (out @ bytes '' GMT'')"
  using vsl_literal [OF date_literals, of "'' GMT''" out cap "[]" "[]"] by (simp add: ngx_vslprintf.simps [of _ "[]"])

lemma table_names:
  "n < 7 \<Longrightarrow> length (week ! n) = 3 \<and> 0 \<notin> set (week ! n) \<and> word_name (week ! n)"
  "n < 12 \<Longrightarrow> length (months ! n) = 3 \<and> 0 \<notin> set (months ! n)"
proof -
  have "\<forall>x \<in> set week. length x = 3 \<and> 0 \<notin> set x \<and> word_name x" "\<forall>x \<in> set months. length x = 3 \<and> 0 \<notin> set x"
    by (simp_all add: week_def months_def bytes_def byte_simps word_name_def)
  moreover have "length week = 7" "length months = 12" by (simp_all add: week_def months_def)
  ultimately show "n < 7 \<Longrightarrow> length (week ! n) = 3 \<and> 0 \<notin> set (week ! n) \<and> word_name (week ! n)"
    "n < 12 \<Longrightarrow> length (months ! n) = 3 \<and> 0 \<notin> set (months ! n)" by simp_all
qed

lemma sprintf_rfc822:
  assumes "n < 7" "1 \<le> m" "m \<le> 12" "k < 100" "1000 \<le> Y" "Y < 10000" "hh < 100" "mm < 100" "ss < 100" "40 \<le> cap"
  shows "ngx_vslprintf cap (bytes ''%s, %02d %s %4d %02d:%02d:%02d GMT'')
    [VMem (week ! n @ [0]), V32 (of_nat k), VMem (months ! (m - 1) @ [0]), V32 (of_nat Y), V32 (of_nat hh), V32 (of_nat mm), V32 (of_nat ss)] [] =
    Some (rfc822 (week ! n) Y m k hh mm ss @ bytes '' GMT'')"
proof -
  have fmt: "bytes ''%s, %02d %s %4d %02d:%02d:%02d GMT'' = bytes ''%s'' @ bytes '', '' @ bytes ''%02d'' @ bytes '' '' @ bytes ''%s'' @ bytes '' '' @
    bytes ''%4d'' @ bytes '' '' @ bytes ''%02d'' @ bytes '':'' @ bytes ''%02d'' @ bytes '':'' @ bytes ''%02d'' @ bytes '' GMT''"
    by (simp add: bytes_def)
  have m: "m - 1 < 12" using assms by simp
  note nm = table_names(1) [OF assms(1)] table_names(2) [OF m]
  show ?thesis
    unfolding fmt using assms nm
    by (simp add: vsl_date vsl_gmt date_literals rfc822_def clock_def)
qed

lemma sprintf_rfc850:
  assumes "n < 7" "1 \<le> m" "m \<le> 12" "k < 100" "hh < 100" "mm < 100" "ss < 100" "40 \<le> cap"
  shows "ngx_vslprintf cap (bytes ''%s, %02d-%s-%02d %02d:%02d:%02d GMT'')
    [VMem (week ! n @ [0]), V32 (of_nat k), VMem (months ! (m - 1) @ [0]), V32 (of_nat (Y mod 100)), V32 (of_nat hh), V32 (of_nat mm), V32 (of_nat ss)] [] =
    Some (rfc850 (week ! n) Y m k hh mm ss @ bytes '' GMT'')"
proof -
  have fmt: "bytes ''%s, %02d-%s-%02d %02d:%02d:%02d GMT'' = bytes ''%s'' @ bytes '', '' @ bytes ''%02d'' @ bytes ''-'' @ bytes ''%s'' @ bytes ''-'' @
    bytes ''%02d'' @ bytes '' '' @ bytes ''%02d'' @ bytes '':'' @ bytes ''%02d'' @ bytes '':'' @ bytes ''%02d'' @ bytes '' GMT''"
    by (simp add: bytes_def)
  have m: "m - 1 < 12" using assms by simp
  note nm = table_names(1) [OF assms(1)] table_names(2) [OF m]
  show ?thesis
    unfolding fmt using assms nm
    by (simp add: vsl_date vsl_gmt date_literals rfc850_def clock_def)
qed

section \<open>Times are read back\<close>

lemma name_arg_table:
  assumes "n < 7" "1 \<le> m" "m \<le> 12"
  shows "name_arg week (of_nat n) = Some (VMem (week ! n @ [0]))" "name_arg months (of_nat m - 1) = Some (VMem (months ! (m - 1) @ [0]))"
proof -
  have "of_nat m - 1 = (of_nat (m - 1) :: u32)" using assms(2) by (simp add: of_nat_diff)
  then have "unat (of_nat m - 1 :: u32) = m - 1" "unat (of_nat n :: u32) = n" using assms unat_small_u32 [of "m - 1"] unat_small_u32 [of n] by simp_all
  moreover have "length week = 7" "length months = 12" by (simp_all add: week_def months_def)
  ultimately show "name_arg week (of_nat n) = Some (VMem (week ! n @ [0]))" "name_arg months (of_nat m - 1) = Some (VMem (months ! (m - 1) @ [0]))"
    using assms by (simp_all add: name_arg_def)
qed

lemma parse_time_formats:
  assumes "word_name nm" "1 \<le> m" "m \<le> 12" "1 \<le> k" "k < 100" "1970 \<le> Y" "Y \<le> 9999" "hh < 100" "mm < 100" "ss < 100"
    "s = rfc822 nm Y m k hh mm ss \<or> s = asctime nm Y m k hh mm ss \<or> s = rfc850 nm Y m k hh mm ss \<and> Y < 2070" "length s \<le> len"
  shows "ngx_http_parse_time (s @ xs) len =
    Some (if hh < 24 \<and> mm < 60 \<and> ss < 60 \<and> k \<le> month_len Y m then of_nat (civil Y m k * 86400 + hh * 3600 + mm * 60 + ss) else NGX_ERROR)"
proof -
  note ml = month_name(1) [OF assms(2,3)]
  have r: "reads (s @ xs) 0 s" by (simp add: reads_def nth_append)
  have y: "Y < 10000" using assms(7) by simp
  have p: "ngx_http_parse_time (s @ xs) len = map_option (\<lambda>r. case r of None \<Rightarrow> NGX_ERROR | Some t \<Rightarrow> t)
    (pt_time (of_nat k) (of_nat (m - 1)) (of_nat Y) (of_nat hh) (of_nat mm) (of_nat ss))"
    using assms(11)
  proof (elim disjE conjE)
    assume s: "s = rfc822 nm Y m k hh mm ss"
    then have "length nm + 22 \<le> len" using assms(12) ml by (simp add: rfc822_def clock_def)
    then show ?thesis using rfc822_reads [OF r [unfolded s] _ assms(1,2,3,5) y assms(8,9,10)] s by simp
  next
    assume s: "s = asctime nm Y m k hh mm ss"
    then have "length nm + 21 \<le> len" using assms(12) ml by (simp add: asctime_def clock_def split: if_splits)
    then show ?thesis using asctime_reads [OF r [unfolded s] _ assms(1,2,3,5) y assms(8,9,10)] s by simp
  next
    assume s: "s = rfc850 nm Y m k hh mm ss" "Y < 2070"
    then have "length nm + 20 \<le> len" using assms(12) ml by (simp add: rfc850_def clock_def)
    then show ?thesis using rfc850_reads [OF r [unfolded s(1)] _ assms(1,2,3,5,6) s(2) assms(8,9,10)] s by simp
  qed
  show ?thesis
  proof (cases "hh < 24 \<and> mm < 60 \<and> ss < 60 \<and> k \<le> month_len Y m")
    case True
    then show ?thesis using p pt_time_valid [OF assms(2,3,4) _ assms(6,7)] by simp
  next
    case False
    then have "pt_time (of_nat k) (of_nat (m - 1)) (of_nat Y) (of_nat hh) (of_nat mm) (of_nat ss) = Some None"
      using assms by (intro pt_time_invalid) auto
    then show ?thesis using False p by auto
  qed
qed

text \<open>
  The three formats of a date are understood. When the fields are a day of the calendar (years 1970 to 9999, for the format with a year of
  two digits 1970 to 2069) and a time of the day, \<open>ngx_http_parse_time\<close> returns the seconds since January 1, 1970, whatever
  the name of the day of the week and whatever follows; when the hour, minute, second or day is too large it returns \<open>NGX_ERROR\<close>.
\<close>
theorem ngx_http_parse_time_formats:
  assumes "word_name nm" "1 \<le> m" "m \<le> 12" "1 \<le> k" "k < 100" "1970 \<le> Y" "Y \<le> 9999" "hh < 100" "mm < 100" "ss < 100"
    "s = rfc822 nm Y m k hh mm ss \<or> s = asctime nm Y m k hh mm ss \<or> s = rfc850 nm Y m k hh mm ss \<and> Y < 2070" "length s \<le> len"
  shows "ngx_http_parse_time (s @ xs) len =
    Some (if hh < 24 \<and> mm < 60 \<and> ss < 60 \<and> k \<le> month_len Y m then of_nat (civil Y m k * 86400 + hh * 3600 + mm * 60 + ss) else NGX_ERROR)"
  using assms by (rule parse_time_formats)

theorem ngx_http_parse_time_formats_witness:
  "ngx_http_parse_time (asctime (bytes ''Sun'') 1994 11 6 8 49 37) 24 = Some 784111777 \<and>
   ngx_http_parse_time (rfc850 (bytes ''Sunday'') 1994 11 31 8 49 37 @ bytes '' GMT'') 29 = Some NGX_ERROR"
proof -
  have nm: "word_name (bytes ''Sun'')" "word_name (bytes ''Sunday'')" by (simp_all add: word_name_def bytes_def byte_simps)
  have len: "length (asctime (bytes ''Sun'') 1994 11 6 8 49 37) = 24" "length (rfc850 (bytes ''Sunday'') 1994 11 31 8 49 37) = 26"
    by (simp_all add: asctime_def rfc850_def clock_def months_def bytes_def)
  have c: "civil 1994 11 6 = 9075" by (simp add: civil_def month_len_def leap_def upt_rec)
  show ?thesis
    using ngx_http_parse_time_formats [OF nm(1), of 11 6 1994 8 49 37 _ 24 "[]"] ngx_http_parse_time_formats [OF nm(2), of 11 31 1994 8 49 37 _ 29]
    by (simp add: len c month_len_def)
qed

lemma civil_2038: "2038 \<le> Y \<Longrightarrow> 24837 \<le> civil Y m k"
proof -
  assume "2038 \<le> Y"
  then obtain n where n: "Y = 1970 + n" "68 \<le> n" using le_Suc_ex [of 1970 Y] by auto
  have "gauss 2037 \<le> gauss (1969 + n)" using n(2) by (intro gauss_mono) simp
  then have "24837 \<le> sum_list (map (\<lambda>k. 365 + leap k) [1970..<Y])" using years_sum [of n] unfolding n(1) by (simp add: gauss_def)
  then show ?thesis unfolding civil_def by linarith
qed

lemma cookie_year: "1970 \<le> Y \<Longrightarrow> Y \<le> 2037 \<Longrightarrow> word_of_int (sint (of_nat Y :: u32) smod 100) = (of_nat (Y mod 100) :: u32)"
proof -
  assume Y: "1970 \<le> Y" "Y \<le> 2037"
  then have "sint (of_nat Y :: u32) = int Y" by (simp add: signed_of_nat signed_take_bit_int_eq_self)
  moreover have "int Y smod 100 = int (Y mod 100)" using Y by (simp add: signed_modulo_int_def zmod_int)
  ultimately show ?thesis by simp
qed

text \<open>
  C27: A printed time is read back. For all times of the years 1970 to 9999 \<open>ngx_http_time\<close> writes 29 bytes from which \<open>ngx_http_parse_time\<close>
  returns the time; \<open>ngx_http_cookie_time\<close>, with its year of two digits, writes 27 bytes and is read back for the years up to 2037.
\<close>
theorem ngx_http_time_roundtrip:
  assumes "unat t < 253402300800" "buf + 40 < 2 ^ 64"
  shows "(\<exists>s. ngx_http_time buf t = Some s \<and> length s = 29 \<and> ngx_http_parse_time s 29 = Some t) \<and>
    (unat t < 2145916800 \<longrightarrow> (\<exists>s. ngx_http_cookie_time buf t = Some s \<and> length s = 27 \<and> ngx_http_parse_time s 27 = Some t))"
proof -
  obtain Y m k hh mm ss where m: "1 \<le> m" "m \<le> 12" and k: "1 \<le> k" "k \<le> month_len Y m" and Y: "1970 \<le> Y" "Y \<le> 9999"
    and h: "hh < 24" "mm < 60" "ss < 60" and t: "unat t = civil Y m k * 86400 + hh * 3600 + mm * 60 + ss"
    and tm: "ngx_gmtime t = \<lparr>ngx_tm_sec = of_nat ss, ngx_tm_min = of_nat mm, ngx_tm_hour = of_nat hh, ngx_tm_mday = of_nat k,
       ngx_tm_mon = of_nat m, ngx_tm_year = of_nat Y, ngx_tm_wday = of_nat ((4 + civil Y m k) mod 7)\<rparr>"
    using gmtime_fields [OF assms(1)] by metis
  define n where "n = (4 + civil Y m k) mod 7"
  have n: "n < 7" unfolding n_def by simp
  have b: "k < 100" "1000 \<le> Y" "Y < 10000" "hh < 100" "mm < 100" "ss < 100" "40 \<le> 2 ^ 64 - 1 - buf"
    using k month_len_le [of Y m] Y h assms(2) by simp_all
  note nm = table_names(1) [OF n] month_name(1) [OF m]
  have tt: "t = of_nat (civil Y m k * 86400 + hh * 3600 + mm * 60 + ss)" unfolding t [symmetric] by simp
  have "ngx_http_time buf t = Some (rfc822 (week ! n) Y m k hh mm ss @ bytes '' GMT'')"
    using sprintf_rfc822 [OF n m b] name_arg_table [OF n m] unfolding ngx_http_time_def tm n_def [symmetric] by (simp add: ngx_sprintf_def)
  moreover have "length (rfc822 (week ! n) Y m k hh mm ss @ bytes '' GMT'') = 29" using nm by (simp add: rfc822_def clock_def)
  moreover have "ngx_http_parse_time (rfc822 (week ! n) Y m k hh mm ss @ bytes '' GMT'') 29 = Some t"
    using parse_time_formats [of "week ! n" m k Y hh mm ss "rfc822 (week ! n) Y m k hh mm ss" 29] nm m k Y h b(1) tt
    by (simp add: rfc822_def clock_def)
  moreover have "\<exists>s. ngx_http_cookie_time buf t = Some s \<and> length s = 27 \<and> ngx_http_parse_time s 27 = Some t" if "unat t < 2145916800"
  proof -
    have Y2: "Y \<le> 2037" using civil_2038 [of Y m k] t that by linarith
    have "\<not> 2037 <s (of_nat Y :: u32)" using Y2 by (simp add: word_sless_alt signed_of_nat signed_take_bit_int_eq_self)
    then have "ngx_http_cookie_time buf t = Some (rfc850 (week ! n) Y m k hh mm ss @ bytes '' GMT'')"
      using sprintf_rfc850 [OF n m b(1,4-7), of Y] name_arg_table [OF n m] cookie_year [OF Y(1) Y2]
      unfolding ngx_http_cookie_time_def tm n_def [symmetric] by (simp add: ngx_sprintf_def)
    moreover have "ngx_http_parse_time (rfc850 (week ! n) Y m k hh mm ss @ bytes '' GMT'') 27 = Some t"
      using parse_time_formats [of "week ! n" m k Y hh mm ss "rfc850 (week ! n) Y m k hh mm ss" 27] nm m k Y h b(1) Y2 tt
      by (simp add: rfc850_def clock_def)
    ultimately show ?thesis using nm by (simp add: rfc850_def clock_def)
  qed
  ultimately show ?thesis by blast
qed

theorem ngx_http_time_roundtrip_witness: "\<exists>s. ngx_http_time 4096 784111777 = Some s \<and> ngx_http_parse_time s 29 = Some 784111777"
  using ngx_http_time_roundtrip [of 784111777 4096] by auto

end
