(* ===== verification/Ngx_Rbtree.thy ===== *)
theory Ngx_Rbtree
  imports Ngx_Prelude
begin

text \<open>
  The red-black trees of src/core/ngx_rbtree.c and .h. Nodes live in a store, a pointer is an address or NULL, and a result \<open>None\<close>
  is an access through NULL or to an address without a node, or a loop that does not end. The code has every
  case twice, for the left and for the right side, which differ in nothing else; they are one definition here with the side as a
  parameter.
\<close>

section \<open>Nodes\<close>

type_synonym ptr = "addr option"

record ngx_rbtree_node_t =
  rb_key :: u64
  rb_left :: ptr
  rb_right :: ptr
  rb_parent :: ptr
  rb_color :: byte
  rb_data :: byte

type_synonym rb_store = "addr \<rightharpoonup> ngx_rbtree_node_t"

record ngx_rbtree_t =
  rbt_root :: ptr
  rbt_sentinel :: ptr
  rbt_insert :: "rb_store \<Rightarrow> ptr \<Rightarrow> ptr \<Rightarrow> ptr \<Rightarrow> rb_store option"

datatype side = Lft | Rgt

fun opp :: "side \<Rightarrow> side" where
  "opp Lft = Rgt"
| "opp Rgt = Lft"

definition rb_get :: "rb_store \<Rightarrow> ptr \<Rightarrow> ngx_rbtree_node_t option" where
  "rb_get h p = p \<bind> h"

definition rb_put :: "(ngx_rbtree_node_t \<Rightarrow> ngx_rbtree_node_t) \<Rightarrow> rb_store \<Rightarrow> ptr \<Rightarrow> rb_store option" where
  "rb_put f h p = do { a \<leftarrow> p; n \<leftarrow> h a; Some (h(a \<mapsto> f n)) }"

fun side_of :: "side \<Rightarrow> ngx_rbtree_node_t \<Rightarrow> ptr" where
  "side_of Lft n = rb_left n"
| "side_of Rgt n = rb_right n"

fun side_upd :: "side \<Rightarrow> ptr \<Rightarrow> ngx_rbtree_node_t \<Rightarrow> ngx_rbtree_node_t" where
  "side_upd Lft q n = n\<lparr>rb_left := q\<rparr>"
| "side_upd Rgt q n = n\<lparr>rb_right := q\<rparr>"

definition child :: "side \<Rightarrow> rb_store \<Rightarrow> ptr \<Rightarrow> ptr option" where
  "child d h p = map_option (side_of d) (rb_get h p)"

definition parent :: "rb_store \<Rightarrow> ptr \<Rightarrow> ptr option" where
  "parent h p = map_option rb_parent (rb_get h p)"

definition color :: "rb_store \<Rightarrow> ptr \<Rightarrow> byte option" where
  "color h p = map_option rb_color (rb_get h p)"

definition key :: "rb_store \<Rightarrow> ptr \<Rightarrow> u64 option" where
  "key h p = map_option rb_key (rb_get h p)"

definition set_child :: "side \<Rightarrow> ptr \<Rightarrow> rb_store \<Rightarrow> ptr \<Rightarrow> rb_store option" where
  "set_child d q = rb_put (side_upd d q)"

definition set_parent :: "ptr \<Rightarrow> rb_store \<Rightarrow> ptr \<Rightarrow> rb_store option" where
  "set_parent q = rb_put (rb_parent_update (\<lambda>_. q))"

definition set_color :: "byte \<Rightarrow> rb_store \<Rightarrow> ptr \<Rightarrow> rb_store option" where
  "set_color c = rb_put (rb_color_update (\<lambda>_. c))"

abbreviation (input) ngx_rbt_red :: "rb_store \<Rightarrow> ptr \<Rightarrow> rb_store option" where "ngx_rbt_red \<equiv> set_color 1"

abbreviation (input) ngx_rbt_black :: "rb_store \<Rightarrow> ptr \<Rightarrow> rb_store option" where "ngx_rbt_black \<equiv> set_color 0"

definition ngx_rbtree_init ::
  "rb_store \<Rightarrow> ptr \<Rightarrow> (rb_store \<Rightarrow> ptr \<Rightarrow> ptr \<Rightarrow> ptr \<Rightarrow> rb_store option) \<Rightarrow> (rb_store \<times> ngx_rbtree_t) option" where
  "ngx_rbtree_init h s i = do {
     h \<leftarrow> ngx_rbt_black h s;
     Some (h, \<lparr>rbt_root = s, rbt_sentinel = s, rbt_insert = i\<rparr>)
   }"

partial_function (option) ngx_rbtree_min :: "rb_store \<Rightarrow> ptr \<Rightarrow> ptr \<Rightarrow> ptr option" where
  "ngx_rbtree_min h node sentinel = do {
     l \<leftarrow> child Lft h node;
     (if l \<noteq> sentinel then ngx_rbtree_min h l sentinel else Some node)
   }"

section \<open>Rotations\<close>

text \<open>\<open>rb_rotate Lft\<close> is \<open>ngx_rbtree_left_rotate\<close>, \<open>rb_rotate Rgt\<close> is \<open>ngx_rbtree_right_rotate\<close>; they return the store and the root.\<close>

definition rb_replace :: "side \<Rightarrow> rb_store \<Rightarrow> ptr \<Rightarrow> ptr \<Rightarrow> ptr \<Rightarrow> (rb_store \<times> ptr) option" where
  "rb_replace d h root node temp =
     (if node = root then Some (h, temp)
      else do {
        p \<leftarrow> parent h node;
        c \<leftarrow> child d h p;
        h \<leftarrow> set_child (if node = c then d else opp d) temp h p;
        Some (h, root)
      })"

definition rb_rotate :: "side \<Rightarrow> rb_store \<Rightarrow> ptr \<Rightarrow> ptr \<Rightarrow> ptr \<Rightarrow> (rb_store \<times> ptr) option" where
  "rb_rotate d h root sentinel node = do {
     temp \<leftarrow> child (opp d) h node;
     c \<leftarrow> child d h temp;
     h \<leftarrow> set_child (opp d) c h node;
     c \<leftarrow> child d h temp;
     h \<leftarrow> (if c \<noteq> sentinel then set_parent node h c else Some h);
     p \<leftarrow> parent h node;
     h \<leftarrow> set_parent p h temp;
     (h, root) \<leftarrow> rb_replace d h root node temp;
     h \<leftarrow> set_child d node h temp;
     h \<leftarrow> set_parent temp h node;
     Some (h, root)
   }"

definition ngx_rbtree_left_rotate :: "rb_store \<Rightarrow> ptr \<Rightarrow> ptr \<Rightarrow> ptr \<Rightarrow> (rb_store \<times> ptr) option" where
  "ngx_rbtree_left_rotate = rb_rotate Lft"

definition ngx_rbtree_right_rotate :: "rb_store \<Rightarrow> ptr \<Rightarrow> ptr \<Rightarrow> ptr \<Rightarrow> (rb_store \<times> ptr) option" where
  "ngx_rbtree_right_rotate = rb_rotate Rgt"

section \<open>Insertion\<close>

text \<open>The search for the place: the two functions differ in the comparison of the keys.\<close>

partial_function (option) rb_insert_loop ::
  "(u64 \<Rightarrow> u64 \<Rightarrow> bool) \<Rightarrow> rb_store \<Rightarrow> ptr \<Rightarrow> ptr \<Rightarrow> ptr \<Rightarrow> (ptr \<times> side) option" where
  "rb_insert_loop before h temp node sentinel = do {
     kn \<leftarrow> key h node;
     kt \<leftarrow> key h temp;
     let d = (if before kn kt then Lft else Rgt);
     p \<leftarrow> child d h temp;
     (if p = sentinel then Some (temp, d) else rb_insert_loop before h p node sentinel)
   }"

definition rb_insert_with :: "(u64 \<Rightarrow> u64 \<Rightarrow> bool) \<Rightarrow> rb_store \<Rightarrow> ptr \<Rightarrow> ptr \<Rightarrow> ptr \<Rightarrow> rb_store option" where
  "rb_insert_with before h temp node sentinel = do {
     (temp, d) \<leftarrow> rb_insert_loop before h temp node sentinel;
     h \<leftarrow> set_child d node h temp;
     h \<leftarrow> set_parent temp h node;
     h \<leftarrow> set_child Lft sentinel h node;
     h \<leftarrow> set_child Rgt sentinel h node;
     ngx_rbt_red h node
   }"

definition timer_less :: "u64 \<Rightarrow> u64 \<Rightarrow> bool" where
  "timer_less a b \<longleftrightarrow> a - b <s 0"

definition ngx_rbtree_insert_value :: "rb_store \<Rightarrow> ptr \<Rightarrow> ptr \<Rightarrow> ptr \<Rightarrow> rb_store option" where
  "ngx_rbtree_insert_value = rb_insert_with (<)"

definition ngx_rbtree_insert_timer_value :: "rb_store \<Rightarrow> ptr \<Rightarrow> ptr \<Rightarrow> ptr \<Rightarrow> rb_store option" where
  "ngx_rbtree_insert_timer_value = rb_insert_with timer_less"

text \<open>One pass of the loop, when the parent is on side \<open>d\<close> of the grandparent.\<close>

definition rb_insert_case :: "side \<Rightarrow> rb_store \<Rightarrow> ptr \<Rightarrow> ptr \<Rightarrow> ptr \<Rightarrow> (rb_store \<times> ptr \<times> ptr) option" where
  "rb_insert_case d h root sentinel node = do {
     p \<leftarrow> parent h node;
     g \<leftarrow> parent h p;
     temp \<leftarrow> child (opp d) h g;
     c \<leftarrow> color h temp;
     (if c \<noteq> 0 then do {
        h \<leftarrow> ngx_rbt_black h p;
        h \<leftarrow> ngx_rbt_black h temp;
        h \<leftarrow> ngx_rbt_red h g;
        Some (h, root, g)
      } else do {
        q \<leftarrow> child (opp d) h p;
        (h, root, node) \<leftarrow> (if node = q then do { (h, root) \<leftarrow> rb_rotate d h root sentinel p; Some (h, root, p) }
                            else Some (h, root, node));
        p \<leftarrow> parent h node;
        h \<leftarrow> ngx_rbt_black h p;
        g \<leftarrow> parent h p;
        h \<leftarrow> ngx_rbt_red h g;
        (h, root) \<leftarrow> rb_rotate (opp d) h root sentinel g;
        Some (h, root, node)
      })
   }"

partial_function (option) rb_insert_fix :: "rb_store \<Rightarrow> ptr \<Rightarrow> ptr \<Rightarrow> ptr \<Rightarrow> (rb_store \<times> ptr) option" where
  "rb_insert_fix h root sentinel node =
     (if node = root then Some (h, root)
      else do {
        p \<leftarrow> parent h node;
        c \<leftarrow> color h p;
        (if c = 0 then Some (h, root)
         else do {
           g \<leftarrow> parent h p;
           l \<leftarrow> child Lft h g;
           (h, root, node) \<leftarrow> rb_insert_case (if p = l then Lft else Rgt) h root sentinel node;
           rb_insert_fix h root sentinel node
         })
      })"

definition ngx_rbtree_insert :: "rb_store \<Rightarrow> ngx_rbtree_t \<Rightarrow> ptr \<Rightarrow> (rb_store \<times> ngx_rbtree_t) option" where
  "ngx_rbtree_insert h tree node =
     (let root = rbt_root tree; sentinel = rbt_sentinel tree
      in if root = sentinel then do {
           h \<leftarrow> set_parent None h node;
           h \<leftarrow> set_child Lft sentinel h node;
           h \<leftarrow> set_child Rgt sentinel h node;
           h \<leftarrow> ngx_rbt_black h node;
           Some (h, tree\<lparr>rbt_root := node\<rparr>)
         } else do {
           h \<leftarrow> rbt_insert tree h root node sentinel;
           (h, root) \<leftarrow> rb_insert_fix h root sentinel node;
           h \<leftarrow> ngx_rbt_black h root;
           Some (h, tree\<lparr>rbt_root := root\<rparr>)
         })"

section \<open>Deletion\<close>

definition rb_clear :: "rb_store \<Rightarrow> ptr \<Rightarrow> rb_store option" where
  "rb_clear = rb_put (\<lambda>n. n\<lparr>rb_left := None, rb_right := None, rb_parent := None, rb_key := 0\<rparr>)"

text \<open>The node that leaves its place, and its only child.\<close>

definition rb_subst :: "rb_store \<Rightarrow> ptr \<Rightarrow> ptr \<Rightarrow> (ptr \<times> ptr) option" where
  "rb_subst h sentinel node = do {
     l \<leftarrow> child Lft h node;
     r \<leftarrow> child Rgt h node;
     (if l = sentinel then Some (r, node)
      else if r = sentinel then Some (l, node)
      else do {
        subst \<leftarrow> ngx_rbtree_min h r sentinel;
        sl \<leftarrow> child Lft h subst;
        sr \<leftarrow> child Rgt h subst;
        Some (if sl \<noteq> sentinel then sl else sr, subst)
      })
   }"

text \<open>\<open>subst\<close> takes the place of \<open>node\<close>.\<close>

definition rb_take_place :: "rb_store \<Rightarrow> ptr \<Rightarrow> ptr \<Rightarrow> ptr \<Rightarrow> ptr \<Rightarrow> (rb_store \<times> ptr) option" where
  "rb_take_place h root sentinel node subst = do {
     q \<leftarrow> child Lft h node;
     h \<leftarrow> set_child Lft q h subst;
     q \<leftarrow> child Rgt h node;
     h \<leftarrow> set_child Rgt q h subst;
     q \<leftarrow> parent h node;
     h \<leftarrow> set_parent q h subst;
     c \<leftarrow> color h node;
     h \<leftarrow> set_color c h subst;
     (h, root) \<leftarrow> rb_replace Lft h root node subst;
     l \<leftarrow> child Lft h subst;
     h \<leftarrow> (if l \<noteq> sentinel then set_parent subst h l else Some h);
     r \<leftarrow> child Rgt h subst;
     h \<leftarrow> (if r \<noteq> sentinel then set_parent subst h r else Some h);
     Some (h, root)
   }"

definition rb_unlink :: "rb_store \<Rightarrow> ptr \<Rightarrow> ptr \<Rightarrow> ptr \<Rightarrow> ptr \<Rightarrow> ptr \<Rightarrow> (rb_store \<times> ptr) option" where
  "rb_unlink h root sentinel node subst temp = do {
     sp \<leftarrow> parent h subst;
     l \<leftarrow> child Lft h sp;
     h \<leftarrow> set_child (if subst = l then Lft else Rgt) temp h sp;
     (if subst = node then do {
        h \<leftarrow> set_parent sp h temp;
        Some (h, root)
      } else do {
        h \<leftarrow> set_parent (if sp = node then subst else sp) h temp;
        rb_take_place h root sentinel node subst
      })
   }"

text \<open>One pass of the loop, when \<open>temp\<close> is on side \<open>d\<close> of its parent.\<close>

definition rb_sibling :: "side \<Rightarrow> rb_store \<Rightarrow> ptr \<Rightarrow> ptr option" where
  "rb_sibling d h temp = do { p \<leftarrow> parent h temp; child (opp d) h p }"

definition rb_black_sibling :: "side \<Rightarrow> rb_store \<Rightarrow> ptr \<Rightarrow> ptr \<Rightarrow> ptr \<Rightarrow> ptr \<Rightarrow> (rb_store \<times> ptr \<times> ptr) option" where
  "rb_black_sibling d h root sentinel temp w = do {
     l \<leftarrow> child Lft h w;
     cl \<leftarrow> color h l;
     both \<leftarrow> (if cl \<noteq> 0 then Some False else do { r \<leftarrow> child Rgt h w; cr \<leftarrow> color h r; Some (cr = 0) });
     (if both then do {
        h \<leftarrow> ngx_rbt_red h w;
        p \<leftarrow> parent h temp;
        Some (h, root, p)
      } else do {
        far \<leftarrow> child (opp d) h w;
        cf \<leftarrow> color h far;
        (h, root, w) \<leftarrow> (if cf = 0 then do {
             near \<leftarrow> child d h w;
             h \<leftarrow> ngx_rbt_black h near;
             h \<leftarrow> ngx_rbt_red h w;
             (h, root) \<leftarrow> rb_rotate (opp d) h root sentinel w;
             w \<leftarrow> rb_sibling d h temp;
             Some (h, root, w)
           } else Some (h, root, w));
        p \<leftarrow> parent h temp;
        c \<leftarrow> color h p;
        h \<leftarrow> set_color c h w;
        h \<leftarrow> ngx_rbt_black h p;
        far \<leftarrow> child (opp d) h w;
        h \<leftarrow> ngx_rbt_black h far;
        (h, root) \<leftarrow> rb_rotate d h root sentinel p;
        Some (h, root, root)
      })
   }"

definition rb_delete_case :: "side \<Rightarrow> rb_store \<Rightarrow> ptr \<Rightarrow> ptr \<Rightarrow> ptr \<Rightarrow> (rb_store \<times> ptr \<times> ptr) option" where
  "rb_delete_case d h root sentinel temp = do {
     w \<leftarrow> rb_sibling d h temp;
     c \<leftarrow> color h w;
     (if c \<noteq> 0 then do {
        h \<leftarrow> ngx_rbt_black h w;
        p \<leftarrow> parent h temp;
        h \<leftarrow> ngx_rbt_red h p;
        (h, root) \<leftarrow> rb_rotate d h root sentinel p;
        w \<leftarrow> rb_sibling d h temp;
        rb_black_sibling d h root sentinel temp w
      } else rb_black_sibling d h root sentinel temp w)
   }"

partial_function (option) rb_delete_fix :: "rb_store \<Rightarrow> ptr \<Rightarrow> ptr \<Rightarrow> ptr \<Rightarrow> (rb_store \<times> ptr) option" where
  "rb_delete_fix h root sentinel temp = do {
     c \<leftarrow> (if temp = root then Some 1 else color h temp);
     (if temp = root \<or> c \<noteq> 0 then do { h \<leftarrow> ngx_rbt_black h temp; Some (h, root) }
      else do {
        p \<leftarrow> parent h temp;
        l \<leftarrow> child Lft h p;
        (h, root, temp) \<leftarrow> rb_delete_case (if temp = l then Lft else Rgt) h root sentinel temp;
        rb_delete_fix h root sentinel temp
      })
   }"

definition ngx_rbtree_delete :: "rb_store \<Rightarrow> ngx_rbtree_t \<Rightarrow> ptr \<Rightarrow> (rb_store \<times> ngx_rbtree_t) option" where
  "ngx_rbtree_delete h tree node =
     (let root = rbt_root tree; sentinel = rbt_sentinel tree
      in do {
        (temp, subst) \<leftarrow> rb_subst h sentinel node;
        (if subst = root then do {
           h \<leftarrow> ngx_rbt_black h temp;
           h \<leftarrow> rb_clear h node;
           Some (h, tree\<lparr>rbt_root := temp\<rparr>)
         } else do {
           red \<leftarrow> color h subst;
           (h, root) \<leftarrow> rb_unlink h root sentinel node subst temp;
           h \<leftarrow> rb_clear h node;
           (h, root) \<leftarrow> (if red \<noteq> 0 then Some (h, root) else rb_delete_fix h root sentinel temp);
           Some (h, tree\<lparr>rbt_root := root\<rparr>)
         })
      })"

end
