(* ===== verification/Ngx_Rbtree_Zip.thy ===== *)
theory Ngx_Rbtree_Zip
  imports Ngx_Rbtree
begin

text \<open>
  Trees in the store. A tree of addresses and colors is represented by the nodes of a store, together with a position in it: the
  subtree at the position and the list of the nodes above it, with their other subtrees. Reading and writing a pointer, painting a node and
  rotating are local operations at a position. \<open>zip_ok\<close> also says which addresses may differ from an older store,
  from which the keys and the data are taken.
\<close>

section \<open>Trees in the store\<close>

datatype rtree = Lf | Nd rtree addr bool rtree

primrec addrs :: "rtree \<Rightarrow> addr list" where
  "addrs Lf = []"
| "addrs (Nd a x c b) = addrs a @ x # addrs b"

definition node_at :: "side \<Rightarrow> addr \<Rightarrow> bool \<Rightarrow> rtree \<Rightarrow> rtree \<Rightarrow> rtree" where
  "node_at d x c a b = (case d of Lft \<Rightarrow> Nd a x c b | Rgt \<Rightarrow> Nd b x c a)"

primrec rp :: "addr \<Rightarrow> rtree \<Rightarrow> ptr" where
  "rp s Lf = Some s"
| "rp s (Nd a x c b) = Some x"

definition mk :: "rb_store \<Rightarrow> side \<Rightarrow> addr \<Rightarrow> bool \<Rightarrow> ptr \<Rightarrow> ptr \<Rightarrow> ptr \<Rightarrow> ngx_rbtree_node_t" where
  "mk h0 d x c p a b = \<lparr>rb_key = rb_key (the (h0 x)), rb_left = (case d of Lft \<Rightarrow> a | Rgt \<Rightarrow> b), rb_right = (case d of Lft \<Rightarrow> b | Rgt \<Rightarrow> a),
     rb_parent = p, rb_color = of_bool c, rb_data = rb_data (the (h0 x))\<rparr>"

fun rep :: "rb_store \<Rightarrow> addr \<Rightarrow> rb_store \<Rightarrow> ptr \<Rightarrow> rtree \<Rightarrow> bool" where
  "rep h0 s h p Lf = True"
| "rep h0 s h p (Nd a x c b) \<longleftrightarrow> h x = Some (mk h0 Lft x c p (rp s a) (rp s b)) \<and> rep h0 s h (Some x) a \<and> rep h0 s h (Some x) b"

type_synonym frame = "side \<times> addr \<times> bool \<times> rtree"

fun pp :: "ptr \<Rightarrow> frame list \<Rightarrow> ptr" where
  "pp q [] = q"
| "pp q ((d, x, c, t) # ctx) = Some x"

fun repc :: "rb_store \<Rightarrow> addr \<Rightarrow> ptr \<Rightarrow> rb_store \<Rightarrow> frame list \<Rightarrow> ptr \<Rightarrow> ptr \<Rightarrow> bool" where
  "repc h0 s q h [] a root \<longleftrightarrow> root = a"
| "repc h0 s q h ((d, x, c, t) # ctx) a root \<longleftrightarrow>
     h x = Some (mk h0 d x c (pp q ctx) a (rp s t)) \<and> rep h0 s h (Some x) t \<and> repc h0 s q h ctx (Some x) root"

fun caddrs :: "frame list \<Rightarrow> addr list" where
  "caddrs [] = []"
| "caddrs ((d, x, c, t) # ctx) = x # addrs t @ caddrs ctx"

fun plug :: "rtree \<Rightarrow> frame list \<Rightarrow> rtree" where
  "plug t [] = t"
| "plug t ((d, x, c, b) # ctx) = plug (node_at d x c t b) ctx"

definition zraw :: "rb_store \<Rightarrow> addr \<Rightarrow> ptr \<Rightarrow> rb_store \<Rightarrow> rtree \<Rightarrow> frame list \<Rightarrow> ptr \<Rightarrow> bool" where
  "zraw h0 s q h t ctx root \<longleftrightarrow> rep h0 s h (pp q ctx) t \<and> repc h0 s q h ctx (rp s t) root \<and>
     distinct (s # addrs t @ caddrs ctx) \<and> (\<exists>n. h s = Some n \<and> rb_color n = 0)"

definition zip_ok :: "rb_store \<Rightarrow> addr set \<Rightarrow> addr \<Rightarrow> ptr \<Rightarrow> rb_store \<Rightarrow> rtree \<Rightarrow> frame list \<Rightarrow> ptr \<Rightarrow> bool" where
  "zip_ok h0 X s q h t ctx root \<longleftrightarrow> zraw h0 s q h t ctx root \<and> set (addrs t @ caddrs ctx) \<subseteq> X \<and> s \<notin> X \<and> (\<forall>a. a \<notin> X \<longrightarrow> h a = h0 a)"

lemmas zip_defs = zip_ok_def zraw_def

lemma opp_opp [simp]: "opp (opp d) = d"
  by (cases d) simp_all

lemma opp_neq [simp]: "opp d \<noteq> d" "d \<noteq> opp d"
  by (cases d; simp)+

lemma side_cases: "d' = d \<or> d' = opp d"
  by (cases d; cases d') simp_all

lemma mk_opp: "mk h0 (opp d) x c p a b = mk h0 d x c p b a"
  by (cases d) (simp_all add: mk_def)

lemma mk_simps [simp]:
  "side_of d (mk h0 d x c p a b) = a" "side_of (opp d) (mk h0 d x c p a b) = b"
  "side_of d (mk h0 (opp d) x c p a b) = b"
  "side_upd d e (mk h0 d x c p a b) = mk h0 d x c p e b" "side_upd (opp d) e (mk h0 d x c p a b) = mk h0 d x c p a e"
  "side_upd d e (mk h0 (opp d) x c p a b) = mk h0 (opp d) x c p a e"
  "rb_parent (mk h0 d x c p a b) = p" "rb_color (mk h0 d x c p a b) = of_bool c" "rb_key (mk h0 d x c p a b) = rb_key (the (h0 x))"
  "mk h0 d x c p a b\<lparr>rb_parent := e\<rparr> = mk h0 d x c e a b"
  by (cases d; simp add: mk_def)+

lemma mk_color: "mk h0 d x c p a b\<lparr>rb_color := of_bool c'\<rparr> = mk h0 d x c' p a b"
  by (cases d) (simp_all add: mk_def)

lemma node_at_simps [simp]:
  "rp s (node_at d x c a b) = Some x" "set (addrs (node_at d x c a b)) = insert x (set (addrs a) \<union> set (addrs b))"
  "rep h0 s h p (node_at d x c a b) \<longleftrightarrow> h x = Some (mk h0 d x c p (rp s a) (rp s b)) \<and> rep h0 s h (Some x) a \<and> rep h0 s h (Some x) b"
  "distinct (addrs (node_at d x c a b)) \<longleftrightarrow> distinct (x # addrs a @ addrs b)"
  "node_at d x c a b \<noteq> Lf"
  by (cases d; auto simp: node_at_def mk_def)+

lemma node_at_opp: "node_at (opp d) x c a b = node_at d x c b a"
  by (cases d) (simp_all add: node_at_def)

lemma node_at_cases:
  obtains "t = Lf" | x c a b where "t = node_at d x c a b"
  by (cases t; cases d) (auto simp: node_at_def)

lemma tree_cong: "(\<And>y. y \<in> set (addrs t) \<Longrightarrow> h' y = h y) \<Longrightarrow> rep h0 s h' p t = rep h0 s h p t"
  by (induction t arbitrary: p) auto

lemma tree_upd [simp]: "x \<notin> set (addrs t) \<Longrightarrow> rep h0 s (h(x := n)) p t = rep h0 s h p t"
  by (rule tree_cong) auto

lemma repc_cong: "(\<And>y. y \<in> set (caddrs ctx) \<Longrightarrow> h' y = h y) \<Longrightarrow> repc h0 s q h' ctx a root = repc h0 s q h ctx a root"
proof (induction ctx arbitrary: a)
  case (Cons f ctx)
  obtain d x c t where "f = (d, x, c, t)" by (cases f)
  then show ?case using Cons tree_cong [of t h' h] by simp
qed simp

lemma repc_upd [simp]: "x \<notin> set (caddrs ctx) \<Longrightarrow> repc h0 s q (h(x := n)) ctx a root = repc h0 s q h ctx a root"
  by (rule repc_cong) auto

lemma repc_root: "repc h0 s q h ctx a root \<Longrightarrow> ctx \<noteq> [] \<Longrightarrow> \<exists>y \<in> set (caddrs ctx). root = Some y"
proof (induction ctx arbitrary: a)
  case (Cons f ctx)
  then show ?case by (cases f; cases ctx) auto
qed simp

lemma rp_neq: "x \<notin> set (addrs t) \<Longrightarrow> x \<noteq> s \<Longrightarrow> rp s t \<noteq> Some x"
  by (cases t) auto

lemma zip_refocus: "zip_ok h0 X s q h t ((d, x, c, b) # ctx) root \<longleftrightarrow> zip_ok h0 X s q h (node_at d x c t b) ctx root"
  unfolding zip_defs by auto

lemma zip_recolor:
  assumes "zip_ok h0 X s q h (node_at d x c a b) ctx root"
  shows "\<exists>h'. set_color (of_bool c') h (Some x) = Some h' \<and> zip_ok h0 X s q h' (node_at d x c' a b) ctx root"
  using assms unfolding zip_defs set_color_def rb_put_def by (auto simp: mk_color)

lemma get_simps:
  "child d h (Some x) = map_option (side_of d) (h x)" "parent h (Some x) = map_option rb_parent (h x)"
  "color h (Some x) = map_option rb_color (h x)" "key h (Some x) = map_option rb_key (h x)"
  "set_child d e h (Some x) = map_option (\<lambda>n. h(x \<mapsto> side_upd d e n)) (h x)"
  "set_parent e h (Some x) = map_option (\<lambda>n. h(x \<mapsto> n\<lparr>rb_parent := e\<rparr>)) (h x)"
  "set_color k h (Some x) = map_option (\<lambda>n. h(x \<mapsto> n\<lparr>rb_color := k\<rparr>)) (h x)"
  by (simp_all add: child_def parent_def color_def key_def set_child_def set_parent_def set_color_def rb_get_def rb_put_def
    map_conv_bind_option comp_def)

text \<open>The pointer to a subtree is replaced in its parent or as the root.\<close>

lemma rb_replace_ctx:
  assumes "repc h0 s q h ctx (Some x) root" "h x = Some n" "rb_parent n = pp q ctx" "distinct (s # x # caddrs ctx)"
  shows "\<exists>h' root'. rb_replace d h root (Some x) t = Some (h', root') \<and> repc h0 s q h' ctx t root' \<and>
    (\<forall>y. y \<notin> set (caddrs ctx) \<longrightarrow> h' y = h y)"
proof (cases ctx)
  case Nil
  then show ?thesis using assms(1) by (simp add: rb_replace_def)
next
  case (Cons f ctx')
  obtain e y c b where f: "f = (e, y, c, b)" by (cases f)
  obtain z where "z \<in> set (caddrs ctx)" "root = Some z" using repc_root [OF assms(1)] Cons by auto
  then have "root \<noteq> Some x" using assms(4) by auto
  moreover have "rp s b \<noteq> Some x" using assms(4) unfolding Cons f by (intro rp_neq) auto
  ultimately show ?thesis
    using assms unfolding Cons f using side_cases [of e d] by (auto simp: rb_replace_def get_simps)
qed

lemma rep_parent:
  assumes "rep h0 s h p t" "distinct (addrs t)" "t \<noteq> Lf"
  obtains b n where "rp s t = Some b" "b \<in> set (addrs t)" "h b = Some n" "\<And>p'. rep h0 s (h(b \<mapsto> n\<lparr>rb_parent := p'\<rparr>)) p' t"
  using assms by (cases t) auto

lemma zip_rotate:
  assumes "zip_ok h0 X s q h (node_at d x c A (node_at d y e B C)) ctx root"
  shows "\<exists>h' root'. rb_rotate d h root (Some s) (Some x) = Some (h', root') \<and>
    zip_ok h0 X s q h' (node_at d y e (node_at d x c A B) C) ctx root'"
proof -
  have h: "h x = Some (mk h0 d x c (pp q ctx) (rp s A) (Some y))" "h y = Some (mk h0 d y e (Some x) (rp s B) (rp s C))"
    and reps: "rep h0 s h (Some x) A" "rep h0 s h (Some y) B" "rep h0 s h (Some y) C"
    and ctx: "repc h0 s q h ctx (Some x) root"
    and dist: "distinct (s # x # y # addrs A @ addrs B @ addrs C @ caddrs ctx)"
    and X: "insert x (insert y (set (addrs A @ addrs B @ addrs C @ caddrs ctx))) \<subseteq> X" "s \<notin> X"
    and rest: "\<exists>n. h s = Some n \<and> rb_color n = 0" "\<forall>a. a \<notin> X \<longrightarrow> h a = h0 a"
    using assms unfolding zip_defs by auto
  define h1 where "h1 = h(x \<mapsto> mk h0 d x c (pp q ctx) (rp s A) (rp s B))"
  obtain h2 where h2: "(if rp s B \<noteq> Some s then set_parent (Some x) h1 (rp s B) else Some h1) = Some h2"
      "rep h0 s h2 (Some x) B" "\<forall>z. z \<notin> set (addrs B) \<longrightarrow> h2 z = h1 z"
  proof (cases "B = Lf")
    case False
    have "rep h0 s h1 (Some y) B" "distinct (addrs B)" using reps(2) dist unfolding h1_def by auto
    then obtain b n where b: "rp s B = Some b" "b \<in> set (addrs B)" "h1 b = Some n" "rep h0 s (h1(b \<mapsto> n\<lparr>rb_parent := Some x\<rparr>)) (Some x) B"
      using False by (elim rep_parent) auto
    then show ?thesis using dist by (intro that [of "h1(b \<mapsto> n\<lparr>rb_parent := Some x\<rparr>)"]) (auto simp: get_simps)
  qed (use that in auto)
  define h3 where "h3 = h2(y \<mapsto> mk h0 d y e (pp q ctx) (rp s B) (rp s C))"
  have a: "h2 x = h1 x" "h2 y = h1 y" using h2(3) dist by auto
  have c3: "repc h0 s q h3 ctx (Some x) root" "h3 x = Some (mk h0 d x c (pp q ctx) (rp s A) (rp s B))"
  proof -
    have "h3 z = h z" if "z \<in> set (caddrs ctx)" for z using that dist h2(3) unfolding h3_def h1_def by auto
    then show "repc h0 s q h3 ctx (Some x) root" using ctx repc_cong [of ctx h3 h] by simp
    show "h3 x = Some (mk h0 d x c (pp q ctx) (rp s A) (rp s B))" using a dist unfolding h3_def h1_def by simp
  qed
  obtain h4 root' where h4: "rb_replace d h3 root (Some x) (Some y) = Some (h4, root')" "repc h0 s q h4 ctx (Some y) root'"
    "\<forall>z. z \<notin> set (caddrs ctx) \<longrightarrow> h4 z = h3 z"
    using rb_replace_ctx [OF c3, of d "Some y"] dist by auto
  define h5 where "h5 = h4(y \<mapsto> mk h0 d y e (pp q ctx) (Some x) (rp s C), x \<mapsto> mk h0 d x c (Some y) (rp s A) (rp s B))"
  have "child (opp d) h (Some x) = Some (Some y)" "child d h (Some y) = Some (rp s B)"
    "set_child (opp d) (rp s B) h (Some x) = Some h1" "child d h1 (Some y) = Some (rp s B)"
    using h dist by (simp_all add: h1_def get_simps)
  moreover have "parent h2 (Some x) = Some (pp q ctx)" "set_parent (pp q ctx) h2 (Some y) = Some h3"
    using a h dist by (simp_all add: h1_def h3_def get_simps)
  moreover have "set_child d (Some x) h4 (Some y) = Some (h4(y \<mapsto> mk h0 d y e (pp q ctx) (Some x) (rp s C)))"
    "set_parent (Some y) (h4(y \<mapsto> mk h0 d y e (pp q ctx) (Some x) (rp s C))) (Some x) = Some h5"
    using h4(3) c3(2) dist by (simp_all add: h3_def h5_def get_simps)
  ultimately have run: "rb_rotate d h root (Some s) (Some x) = Some (h5, root')"
    unfolding rb_rotate_def using h2(1) h4(1) by (simp split del: if_split)
  have same: "h5 z = h z" if "z \<notin> {x, y} \<union> set (addrs B) \<union> set (caddrs ctx)" for z
    using that h2(3) h4(3) unfolding h5_def h3_def h1_def by auto
  have B: "h5 z = h2 z" if "z \<in> set (addrs B)" for z using that h4(3) dist unfolding h5_def h3_def by auto
  have AC: "h5 z = h z" if "z \<in> set (addrs A) \<union> set (addrs C)" for z using that dist by (intro same) auto
  have "rep h0 s h5 (Some x) A" "rep h0 s h5 (Some y) C" "rep h0 s h5 (Some x) B"
    using reps h2(2) AC B tree_cong [of A h5 h] tree_cong [of C h5 h] tree_cong [of B h5 h2] by auto
  moreover have "repc h0 s q h5 ctx (Some y) root'" using h4(2) dist unfolding h5_def by simp
  moreover have "h5 s = h s" using dist by (intro same) auto
  moreover have "h5 a = h0 a" if "a \<notin> X" for a
  proof -
    have "a \<notin> {x, y} \<union> set (addrs B) \<union> set (caddrs ctx)" using that X(1) by auto
    then show ?thesis using same rest(2) that by simp
  qed
  moreover have "h5 x = Some (mk h0 d x c (Some y) (rp s A) (rp s B))" "h5 y = Some (mk h0 d y e (pp q ctx) (Some x) (rp s C))"
    using dist unfolding h5_def by auto
  ultimately have "zip_ok h0 X s q h5 (node_at d y e (node_at d x c A B) C) ctx root'"
    using rest(1) dist X unfolding zip_defs by auto
  then show ?thesis using run by blast
qed

section \<open>Red-black trees\<close>

primrec red :: "rtree \<Rightarrow> bool" where
  "red Lf = False"
| "red (Nd a x c b) = c"

primrec bh :: "rtree \<Rightarrow> nat" where
  "bh Lf = 0"
| "bh (Nd a x c b) = bh a + of_bool (\<not> c)"

primrec rbi :: "rtree \<Rightarrow> bool" where
  "rbi Lf = True"
| "rbi (Nd a x c b) \<longleftrightarrow> bh a = bh b \<and> (c \<longrightarrow> \<not> red a \<and> \<not> red b) \<and> rbi a \<and> rbi b"

text \<open>A context for a subtree of black height \<open>n\<close> whose root has the color \<open>r\<close>.\<close>

fun okc :: "nat \<Rightarrow> bool \<Rightarrow> frame list \<Rightarrow> bool" where
  "okc n r [] = True"
| "okc n r ((d, x, c, t) # ctx) \<longleftrightarrow> rbi t \<and> bh t = n \<and> (c \<longrightarrow> \<not> r \<and> \<not> red t) \<and> okc (n + of_bool (\<not> c)) c ctx"

fun black_top :: "rtree \<Rightarrow> frame list \<Rightarrow> bool" where
  "black_top t [] \<longleftrightarrow> \<not> red t"
| "black_top t [(d, x, c, b)] \<longleftrightarrow> \<not> c"
| "black_top t (f # f' # ctx) \<longleftrightarrow> black_top t (f' # ctx)"

lemma node_at_rb [simp]:
  "red (node_at d x c a b) = c"
  "rbi (node_at d x c a b) \<longleftrightarrow> bh a = bh b \<and> (c \<longrightarrow> \<not> red a \<and> \<not> red b) \<and> rbi a \<and> rbi b"
  by (cases d; auto simp: node_at_def)+

lemma bh_node_at: "bh a = bh b \<Longrightarrow> bh (node_at d x c a b) = bh a + of_bool (\<not> c)"
  by (cases d) (simp_all add: node_at_def)

lemma plug_rbi: "rbi (plug t ctx) \<longleftrightarrow> rbi t \<and> okc (bh t) (red t) ctx"
proof (induction ctx arbitrary: t)
  case (Cons f ctx)
  obtain d x c b where f: "f = (d, x, c, b)" by (cases f)
  show ?case unfolding f plug.simps Cons using bh_node_at [of t b d x c] by auto
qed simp

lemma black_top_frames: "ctx \<noteq> [] \<Longrightarrow> black_top t ctx = black_top t' ctx"
  by (induction t ctx rule: black_top.induct) auto

lemma red_plug: "\<not> red (plug t ctx) \<longleftrightarrow> black_top t ctx"
proof (induction ctx arbitrary: t)
  case (Cons f ctx)
  obtain d x c b where f: "f = (d, x, c, b)" by (cases f)
  show ?case unfolding f plug.simps Cons using black_top_frames [of ctx t "node_at d x c t b"] by (cases ctx) auto
qed simp

lemma addrs_rotate: "addrs (node_at d x c A (node_at d y e B C)) = addrs (node_at d y e (node_at d x c A B) C)"
  by (cases d) (simp_all add: node_at_def)

lemma addrs_recolor: "addrs (node_at d x c a b) = addrs (node_at d x c' a b)"
  by (cases d) (simp_all add: node_at_def)

lemma addrs_node_at: "addrs a = addrs a' \<Longrightarrow> addrs b = addrs b' \<Longrightarrow> addrs (node_at d x c a b) = addrs (node_at d x c' a' b')"
  by (cases d) (simp_all add: node_at_def)

lemma addrs_plug: "addrs t = addrs t' \<Longrightarrow> addrs (plug t ctx) = addrs (plug t' ctx)"
proof (induction ctx arbitrary: t t')
  case (Cons f ctx)
  obtain d x c b where f: "f = (d, x, c, b)" by (cases f)
  show ?case unfolding f plug.simps by (intro Cons.IH addrs_node_at Cons.prems refl)
qed simp

lemma zip_plug: "zip_ok h0 X s q h t ctx root \<longleftrightarrow> zip_ok h0 X s q h (plug t ctx) [] root"
proof (induction ctx arbitrary: t)
  case (Cons f ctx)
  obtain d x c b where f: "f = (d, x, c, b)" by (cases f)
  show ?case unfolding f zip_refocus plug.simps by (rule Cons)
qed simp

lemma zip_get:
  "zip_ok h0 X s q h (node_at d x c a b) ctx root \<Longrightarrow> h x = Some (mk h0 d x c (pp q ctx) (rp s a) (rp s b))"
  by (simp add: zip_defs)

lemma zip_color: "zip_ok h0 X s q h t ctx root \<Longrightarrow> color h (rp s t) = Some (of_bool (red t))"
  by (cases t) (auto simp: zip_defs get_simps)

lemma zip_color_frame: "zip_ok h0 X s q h t ((d, x, c, b) # ctx) root \<Longrightarrow> color h (rp s b) = Some (of_bool (red b))"
  by (cases b) (auto simp: zip_defs get_simps)

lemma zip_black:
  assumes "zip_ok h0 X s q h (node_at d x c a b) ctx root"
  obtains h' where "set_color 0 h (Some x) = Some h'" "zip_ok h0 X s q h' (node_at d x False a b) ctx root"
  using zip_recolor [OF assms, of False] by auto

lemma zip_red:
  assumes "zip_ok h0 X s q h (node_at d x c a b) ctx root"
  obtains h' where "set_color 1 h (Some x) = Some h'" "zip_ok h0 X s q h' (node_at d x True a b) ctx root"
  using zip_recolor [OF assms, of True] by auto

lemma zip_rotateE:
  assumes "zip_ok h0 X s q h (node_at d x c A (node_at d y e B C)) ctx root"
  obtains h' root' where "rb_rotate d h root (Some s) (Some x) = Some (h', root')"
    "zip_ok h0 X s q h' (node_at d y e (node_at d x c A B) C) ctx root'"
  using zip_rotate [OF assms] by auto

lemma zip_refocus2: "zip_ok h0 X s q h t ((opp d, x, c, a) # ctx) root \<longleftrightarrow> zip_ok h0 X s q h (node_at d x c a t) ctx root"
  unfolding zip_refocus node_at_opp ..

lemmas zip_up = iffD1 [OF zip_refocus] and zip_down = iffD2 [OF zip_refocus]
lemmas zip_up2 = iffD1 [OF zip_refocus2] and zip_down2 = iffD2 [OF zip_refocus2]

lemma zip_parent: "zip_ok h0 X s q h t ctx root \<Longrightarrow> rp s t = Some m \<Longrightarrow> t \<noteq> Lf \<Longrightarrow> parent h (Some m) = Some (pp q ctx)"
  by (cases t) (auto simp: zip_defs get_simps)

lemma zip_frame: "zip_ok h0 X s q h t ((d, x, c, b) # ctx) root \<Longrightarrow> h x = Some (mk h0 d x c (pp q ctx) (rp s t) (rp s b))"
  by (simp add: zip_defs)

lemma zip_fresh: "zip_ok h0 X s q h t ((d, x, c, b) # ctx) root \<Longrightarrow> rp s t = Some m \<Longrightarrow> t \<noteq> Lf \<Longrightarrow> rp s b \<noteq> Some m"
  by (cases t; cases b) (auto simp: zip_defs)

lemma zip_root:
  assumes "zip_ok h0 X s q h t ctx root" "rp s t = Some m" "t \<noteq> Lf"
  shows "Some m = root \<longleftrightarrow> ctx = []"
proof (cases "ctx = []")
  case False
  have "repc h0 s q h ctx (rp s t) root" using assms(1) by (simp add: zip_defs)
  then obtain y where "y \<in> set (caddrs ctx)" "root = Some y" using repc_root False by blast
  moreover have "m \<in> set (addrs t)" using assms(2,3) by (cases t) auto
  moreover have "set (addrs t) \<inter> set (caddrs ctx) = {}" using assms(1) by (simp add: zip_defs)
  ultimately show ?thesis using False by auto
qed (use assms in \<open>simp add: zip_defs\<close>)

end
