(* ===== verification/Ngx_Rbtree_Insert.thy ===== *)
theory Ngx_Rbtree_Insert
  imports Ngx_Rbtree_Zip
begin

text \<open>
  \<open>ngx_rbtree_insert\<close>: the new node gets its place in the order of the keys, and the loop restores the balance.
\<close>

section \<open>The insertion keeps the tree balanced\<close>

lemma insert_rotate:
  assumes z: "zip_ok h0 X s q h t ((d, p, True, b) # (d, g, False, u) # ctx) root" and m: "rp s t = Some m" "t \<noteq> Lf"
  shows "\<exists>h1 h2 h' root'. parent h (Some m) = Some (Some p) \<and> set_color 0 h (Some p) = Some h1 \<and> parent h1 (Some p) = Some (Some g) \<and>
    set_color 1 h1 (Some g) = Some h2 \<and> rb_rotate (opp d) h2 root (Some s) (Some g) = Some (h', root') \<and>
    zip_ok h0 X s q h' t ((d, p, False, node_at d g True b u) # ctx) root'"
proof -
  have "parent h (Some m) = Some (Some p)" using zip_parent [OF z m] by simp
  moreover obtain h1 where h1: "set_color 0 h (Some p) = Some h1" "zip_ok h0 X s q h1 (node_at d p False t b) ((d, g, False, u) # ctx) root"
    using zip_up [OF z] by (rule zip_black)
  moreover have "parent h1 (Some p) = Some (Some g)" using zip_get [OF h1(2)] by (simp add: get_simps)
  moreover obtain h2 where h2: "set_color 1 h1 (Some g) = Some h2" "zip_ok h0 X s q h2 (node_at d g True (node_at d p False t b) u) ctx root"
    using zip_up [OF h1(2)] by (rule zip_red)
  moreover obtain h' root' where "rb_rotate (opp d) h2 root (Some s) (Some g) = Some (h', root')"
      "zip_ok h0 X s q h' (node_at d p False t (node_at d g True b u)) ctx root'"
    using zip_rotateE [of h0 X s q h2 "opp d" g True u p False b t ctx root] h2(2) unfolding node_at_opp by blast
  ultimately show ?thesis by (auto simp: zip_refocus)
qed


lemma insert_case_red:
  assumes z: "zip_ok h0 X s q h t ((d1, p, True, b) # (d, g, False, node_at d u True ul ur) # ctx) root" and m: "rp s t = Some m" "t \<noteq> Lf"
  shows "\<exists>h'. rb_insert_case d h root (Some s) (Some m) = Some (h', root, Some g) \<and>
    zip_ok h0 X s q h' (node_at d g True (node_at d1 p False t b) (node_at d u False ul ur)) ctx root"
proof -
  have r: "parent h (Some m) = Some (Some p)" "parent h (Some p) = Some (Some g)" "child (opp d) h (Some g) = Some (Some u)" "color h (Some u) = Some 1"
    using zip_parent [OF z m] zip_frame [OF z] zip_frame [OF zip_up [OF z]] zip_get [OF zip_down2 [OF zip_up [OF zip_up [OF z]]]]
    by (simp_all add: get_simps)
  obtain h1 where h1: "set_color 0 h (Some p) = Some h1"
      "zip_ok h0 X s q h1 (node_at d1 p False t b) ((d, g, False, node_at d u True ul ur) # ctx) root"
    using zip_up [OF z] by (rule zip_black)
  obtain h2 where h2: "set_color 0 h1 (Some u) = Some h2"
      "zip_ok h0 X s q h2 (node_at d u False ul ur) ((opp d, g, False, node_at d1 p False t b) # ctx) root"
    using zip_down2 [OF zip_up [OF h1(2)]] by (rule zip_black)
  obtain h3 where h3: "set_color 1 h2 (Some g) = Some h3"
      "zip_ok h0 X s q h3 (node_at d g True (node_at d1 p False t b) (node_at d u False ul ur)) ctx root"
    using zip_up2 [OF h2(2)] by (rule zip_red)
  show ?thesis using r h1(1) h2(1) h3 unfolding rb_insert_case_def by auto
qed

lemma insert_case_outer:
  assumes z: "zip_ok h0 X s q h t ((d, p, True, b) # (d, g, False, u) # ctx) root" and m: "rp s t = Some m" "t \<noteq> Lf" and u: "\<not> red u"
  shows "\<exists>h' root'. rb_insert_case d h root (Some s) (Some m) = Some (h', root', Some m) \<and>
    zip_ok h0 X s q h' t ((d, p, False, node_at d g True b u) # ctx) root'"
proof -
  have r: "parent h (Some m) = Some (Some p)" "parent h (Some p) = Some (Some g)" "child (opp d) h (Some g) = Some (rp s u)"
    "child (opp d) h (Some p) = Some (rp s b)"
    using zip_parent [OF z m] zip_frame [OF z] zip_frame [OF zip_up [OF z]] by (simp_all add: get_simps)
  have c: "color h (rp s u) = Some 0" using zip_color_frame [OF zip_up [OF z]] u by simp
  have "rp s b \<noteq> Some m" using z m by (rule zip_fresh)
  then show ?thesis using insert_rotate [OF z m] r c unfolding rb_insert_case_def by auto
qed

lemma insert_case_inner:
  assumes z: "zip_ok h0 X s q h (node_at d m True x y) ((opp d, p, True, b) # (d, g, False, u) # ctx) root" and u: "\<not> red u"
  shows "\<exists>h' root'. rb_insert_case d h root (Some s) (Some m) = Some (h', root', Some p) \<and>
    zip_ok h0 X s q h' (node_at d p True b x) ((d, m, False, node_at d g True y u) # ctx) root'"
proof -
  have r: "parent h (Some m) = Some (Some p)" "parent h (Some p) = Some (Some g)" "child (opp d) h (Some g) = Some (rp s u)"
    "child (opp d) h (Some p) = Some (Some m)"
    using zip_get [OF z] zip_frame [OF z] zip_frame [OF zip_up [OF z]] by (simp_all add: get_simps)
  have c: "color h (rp s u) = Some 0" using zip_color_frame [OF zip_up [OF z]] u by simp
  obtain h1 root1 where h1: "rb_rotate d h root (Some s) (Some p) = Some (h1, root1)"
      "zip_ok h0 X s q h1 (node_at d m True (node_at d p True b x) y) ((d, g, False, u) # ctx) root1"
    using zip_up2 [OF z] by (rule zip_rotateE)
  obtain h2 h3 h' root' where "parent h1 (Some p) = Some (Some m)" "set_color 0 h1 (Some m) = Some h2" "parent h2 (Some m) = Some (Some g)"
      "set_color 1 h2 (Some g) = Some h3" "rb_rotate (opp d) h3 root1 (Some s) (Some g) = Some (h', root')"
      "zip_ok h0 X s q h' (node_at d p True b x) ((d, m, False, node_at d g True y u) # ctx) root'"
    using insert_rotate [OF zip_down [OF h1(2)], of p] by auto
  then show ?thesis using r c h1(1) unfolding rb_insert_case_def by auto
qed

lemma insert_fix_black:
  assumes z: "zip_ok h0 X s q h t ((d, p, False, b) # ctx) root" and m: "rp s t = Some m" "t \<noteq> Lf"
  shows "rb_insert_fix h root (Some s) (Some m) = Some (h, root)"
  using zip_parent [OF z m] zip_frame [OF z] zip_root [OF z m]
  by (subst rb_insert_fix.simps) (auto simp: get_simps)

lemma insert_fix_red:
  assumes z: "zip_ok h0 X s q h t ((d1, p, True, b) # (d, g, c, u) # ctx) root" and m: "rp s t = Some m" "t \<noteq> Lf"
  shows "rb_insert_fix h root (Some s) (Some m) = do {
    (h, root, node) \<leftarrow> rb_insert_case d h root (Some s) (Some m);
    rb_insert_fix h root (Some s) node }"
proof -
  have p: "parent h (Some m) = Some (Some p)" "color h (Some p) = Some 1" "parent h (Some p) = Some (Some g)"
    using zip_parent [OF z m] zip_frame [OF z] by (simp_all add: get_simps)
  have "rp s u \<noteq> Some p" using zip_up [OF z] by (rule zip_fresh) simp_all
  then have "\<exists>l. child Lft h (Some g) = Some l \<and> (if Some p = l then Lft else Rgt) = d"
    using zip_frame [OF zip_up [OF z]] by (cases d) (auto simp: get_simps mk_def)
  then show ?thesis using p zip_root [OF z m] by (subst rb_insert_fix.simps) auto
qed

lemma insert_fix:
  assumes "zip_ok h0 X s q h t ctx root" "red t" "rbi t" "okc (bh t) False ctx" "ctx \<noteq> [] \<Longrightarrow> black_top t ctx" "rp s t = Some m"
  shows "\<exists>h' root' t'. rb_insert_fix h root (Some s) (Some m) = Some (h', root') \<and> zip_ok h0 X s q h' t' [] root' \<and>
    rbi t' \<and> addrs t' = addrs (plug t ctx)"
  using assms
proof (induction "length ctx" arbitrary: t ctx h root m rule: less_induct)
  case less
  have t: "t \<noteq> Lf" using less.prems(2) by auto
  note z = less.prems(1) and m = less.prems(6) t
  show ?case
  proof (cases ctx)
    case Nil
    then show ?thesis using less.prems zip_root [OF z m] by (subst rb_insert_fix.simps) auto
  next
    case (Cons f ctx1)
    obtain d1 p c1 b where f: "f = (d1, p, c1, b)" by (cases f)
    show ?thesis
    proof (cases c1)
      case False
      then have ctx: "ctx = (d1, p, False, b) # ctx1" using Cons f by simp
      have "rbi (plug t ctx)" using less.prems(2-4) unfolding ctx by (simp add: plug_rbi del: plug.simps)
      then show ?thesis using insert_fix_black [OF z [unfolded ctx] m] zip_plug z by blast
    next
      case True
      then obtain f2 ctx2 where "ctx1 = f2 # ctx2" using less.prems(5) unfolding Cons f by (cases ctx1) auto
      moreover obtain d g c u where "f2 = (d, g, c, u)" by (cases f2)
      ultimately have ctx: "ctx = (d1, p, True, b) # (d, g, False, u) # ctx2" using less.prems(4) True Cons f by auto
      note z = z [unfolded ctx]
      note run = insert_fix_red [OF z m]
      have ok: "rbi b" "rbi u" "bh b = bh t" "bh u = bh t" "\<not> red b" "okc (Suc (bh t)) False ctx2"
        using less.prems(4) unfolding ctx by auto
      have top: "black_top t' ctx2" if "ctx2 \<noteq> []" for t'
        using less.prems(5) black_top_frames [OF that, of t t'] that unfolding ctx by (cases ctx2) auto
      show ?thesis
      proof (cases "red u")
        case True
        obtain v ul ur where u: "u = node_at d v True ul ur" using True by (cases u rule: node_at_cases [where d = d]) auto
        let ?t = "node_at d g True (node_at d1 p False t b) (node_at d v False ul ur)"
        obtain h1 where h1: "rb_insert_case d h root (Some s) (Some m) = Some (h1, root, Some g)" "zip_ok h0 X s q h1 ?t ctx2 root"
          using insert_case_red [OF z [unfolded u] m] by blast
        have bh: "bh ul = bh ur" "bh ul = bh t" "bh (node_at d1 p False t b) = Suc (bh t)" "bh ?t = Suc (bh t)"
          using ok(2-4) unfolding u by (simp_all add: bh_node_at)
        have "rbi ?t" using ok bh less.prems(3) unfolding u by (simp add: bh_node_at)
        then obtain h' root' t' where "rb_insert_fix h1 root (Some s) (Some g) = Some (h', root')" "zip_ok h0 X s q h' t' [] root'"
            "rbi t'" "addrs t' = addrs (plug ?t ctx2)"
          using less.hyps [OF _ h1(2)] bh(4) ok(6) top unfolding ctx by auto
        moreover have "addrs (plug ?t ctx2) = addrs (plug t ctx)"
          unfolding ctx u plug.simps by (intro addrs_plug addrs_node_at refl)
        ultimately show ?thesis using run h1(1) by auto
      next
        case False
        consider "d1 = d" | "d1 = opp d" using side_cases by blast
        then show ?thesis
        proof cases
          case 1
          obtain h1 root1 where h1: "rb_insert_case d h root (Some s) (Some m) = Some (h1, root1, Some m)"
              "zip_ok h0 X s q h1 t ((d, p, False, node_at d g True b u) # ctx2) root1"
            using insert_case_outer [OF z [unfolded 1] m False] by blast
          have "rbi (plug t ((d, p, False, node_at d g True b u) # ctx2))"
            using ok less.prems(2,3) False unfolding plug_rbi by (simp add: bh_node_at)
          moreover have "addrs (plug t ((d, p, False, node_at d g True b u) # ctx2)) = addrs (plug t ctx)"
            unfolding ctx 1 plug.simps by (rule addrs_plug) (cases d; simp add: node_at_def)
          moreover have "rb_insert_fix h root (Some s) (Some m) = Some (h1, root1)" using run h1(1) insert_fix_black [OF h1(2) m] by simp
          ultimately show ?thesis using iffD1 [OF zip_plug, OF h1(2)] by blast
        next
          case 2
          obtain x y where t: "t = node_at d m True x y" using less.prems(2,6) by (cases t rule: node_at_cases [where d = d]) auto
          let ?t = "node_at d p True b x"
          obtain h1 root1 where h1: "rb_insert_case d h root (Some s) (Some m) = Some (h1, root1, Some p)"
              "zip_ok h0 X s q h1 ?t ((d, m, False, node_at d g True y u) # ctx2) root1"
            using insert_case_inner [OF z [unfolded t 2] False] by blast
          have "bh x = bh t" "bh y = bh t" "rbi x" "rbi y" "\<not> red x" "\<not> red y" using less.prems(3) unfolding t by (simp_all add: bh_node_at)
          then have "rbi (plug ?t ((d, m, False, node_at d g True y u) # ctx2))"
            using ok False unfolding plug_rbi by (simp add: bh_node_at)
          moreover have "addrs (plug ?t ((d, m, False, node_at d g True y u) # ctx2)) = addrs (plug t ctx)"
            unfolding ctx 2 t plug.simps by (rule addrs_plug) (cases d; simp add: node_at_def)
          moreover have "rb_insert_fix h root (Some s) (Some m) = Some (h1, root1)" using run h1(1) insert_fix_black [OF h1(2), of p] by simp
          ultimately show ?thesis using iffD1 [OF zip_plug, OF h1(2)] by blast
        qed
      qed
    qed
  qed
qed

section \<open>The place of a new node\<close>

definition key_of :: "rb_store \<Rightarrow> addr \<Rightarrow> u64" where
  "key_of h x = rb_key (the (h x))"

fun descend :: "(addr \<Rightarrow> bool) \<Rightarrow> rtree \<Rightarrow> frame list \<Rightarrow> frame list" where
  "descend B Lf ctx = ctx"
| "descend B (Nd a y c b) ctx = (if B y then descend B a ((Lft, y, c, b) # ctx) else descend B b ((Rgt, y, c, a) # ctx))"

primrec tins :: "(addr \<Rightarrow> bool) \<Rightarrow> addr \<Rightarrow> rtree \<Rightarrow> rtree" where
  "tins B x Lf = Nd Lf x True Lf"
| "tins B x (Nd a y c b) = (if B y then Nd (tins B x a) y c b else Nd a y c (tins B x b))"

lemma plug_descend: "plug Lf (descend B t ctx) = plug t ctx" "plug (Nd Lf x True Lf) (descend B t ctx) = plug (tins B x t) ctx"
  by (induction B t ctx rule: descend.induct) (auto simp: node_at_def)

lemma descend_nonempty: "t \<noteq> Lf \<or> ctx \<noteq> [] \<Longrightarrow> descend B t ctx \<noteq> []"
  by (induction B t ctx rule: descend.induct) auto

text \<open>In a sorted tree the place is behind all nodes that are not greater.\<close>

definition place :: "('a \<Rightarrow> bool) \<Rightarrow> 'a \<Rightarrow> 'a list \<Rightarrow> 'a list" where
  "place B x ys = takeWhile (\<lambda>y. \<not> B y) ys @ x # dropWhile (\<lambda>y. \<not> B y) ys"

lemma place_append:
  "sorted_wrt (\<lambda>y z. B y \<longrightarrow> B z) (ys @ y # zs) \<Longrightarrow>
   place B x (ys @ y # zs) = (if B y then place B x ys @ y # zs else ys @ y # place B x zs)"
proof -
  assume s: "sorted_wrt (\<lambda>y z. B y \<longrightarrow> B z) (ys @ y # zs)"
  show ?thesis
  proof (cases "B y")
    case True
    then show ?thesis by (simp add: place_def takeWhile_tail dropWhile_append3)
  next
    case False
    then have "\<forall>w \<in> set ys. \<not> B w" using s by (auto simp: sorted_wrt_append)
    then show ?thesis using False by (simp add: place_def)
  qed
qed

lemma addrs_tins: "sorted_wrt (\<lambda>y z. B y \<longrightarrow> B z) (addrs t) \<Longrightarrow> addrs (tins B x t) = place B x (addrs t)"
proof (induction t)
  case (Nd a y c b)
  note p = Nd.prems [unfolded addrs.simps]
  have "sorted_wrt (\<lambda>y z. B y \<longrightarrow> B z) (addrs a)" "sorted_wrt (\<lambda>y z. B y \<longrightarrow> B z) (y # addrs b)"
    using p unfolding sorted_wrt_append by blast+
  then have "addrs (tins B x a) = place B x (addrs a)" "addrs (tins B x b) = place B x (addrs b)" using Nd.IH by simp_all
  then show ?case using place_append [OF p, of x] by (simp only: tins.simps addrs.simps if_distrib [of addrs] split: if_split)
qed (simp add: place_def)

lemma insert_loop:
  assumes "zip_ok h0 X s q h t ctx root" "t \<noteq> Lf" "h x = Some n"
    "descend (\<lambda>y. before (rb_key n) (key_of h0 y)) t ctx = (d, p, c, b) # ctx'"
  shows "rb_insert_loop before h (rp s t) (Some x) (Some s) = Some (Some p, d)"
  using assms
proof (induction t arbitrary: ctx)
  case (Nd l y e r)
  have z: "zip_ok h0 X s q h l ((Lft, y, e, r) # ctx) root" "zip_ok h0 X s q h r ((Rgt, y, e, l) # ctx) root"
    using Nd.prems(1) by (simp_all add: zip_refocus node_at_def)
  have k: "key h (Some x) = Some (rb_key n)" "key h (Some y) = Some (key_of h0 y)" "child Lft h (Some y) = Some (rp s l)" "child Rgt h (Some y) = Some (rp s r)"
    using Nd.prems(3) zip_frame [OF z(1)] by (simp_all add: get_simps key_of_def mk_def)
  have leaf: "rp s l = Some s \<longleftrightarrow> l = Lf" "rp s r = Some s \<longleftrightarrow> r = Lf"
    using Nd.prems(1) by (cases l; cases r; simp add: zip_defs)+
  show ?case
  proof (cases "before (rb_key n) (key_of h0 y)")
    case True
    then have d: "descend (\<lambda>y. before (rb_key n) (key_of h0 y)) l ((Lft, y, e, r) # ctx) = (d, p, c, b) # ctx'" using Nd.prems(4) by simp
    have "rb_insert_loop before h (Some y) (Some x) (Some s) =
        (if l = Lf then Some (Some y, Lft) else rb_insert_loop before h (rp s l) (Some x) (Some s))"
      using k leaf(1) True by (subst rb_insert_loop.simps) simp
    then show ?thesis using d Nd.IH(1) [OF z(1) _ Nd.prems(3) d] by (cases "l = Lf") auto
  next
    case False
    then have d: "descend (\<lambda>y. before (rb_key n) (key_of h0 y)) r ((Rgt, y, e, l) # ctx) = (d, p, c, b) # ctx'" using Nd.prems(4) by simp
    have "rb_insert_loop before h (Some y) (Some x) (Some s) =
        (if r = Lf then Some (Some y, Rgt) else rb_insert_loop before h (rp s r) (Some x) (Some s))"
      using k leaf(2) False by (subst rb_insert_loop.simps) simp
    then show ?thesis using d Nd.IH(2) [OF z(2) _ Nd.prems(3) d] by (cases "r = Lf") auto
  qed
qed simp


lemma zip_link:
  assumes z: "zip_ok h0 X s q h Lf ((d, p, c, b) # ctx) root" and x: "x \<notin> insert s (set (caddrs ((d, p, c, b) # ctx)))" "x \<in> X" "h x = Some n" "h0 x = Some n"
  shows "\<exists>h1 h2 h3 h4 h5. set_child d (Some x) h (Some p) = Some h1 \<and> set_parent (Some p) h1 (Some x) = Some h2 \<and>
    set_child Lft (Some s) h2 (Some x) = Some h3 \<and> set_child Rgt (Some s) h3 (Some x) = Some h4 \<and> set_color 1 h4 (Some x) = Some h5 \<and>
    zip_ok h0 X s q h5 (Nd Lf x True Lf) ((d, p, c, b) # ctx) root"
proof -
  have px: "p \<noteq> x" using x(1) by auto
  define h5 where "h5 = h(p \<mapsto> mk h0 d p c (pp q ctx) (Some x) (rp s b), x \<mapsto> mk h0 Lft x True (Some p) (Some s) (Some s))"
  have n: "n\<lparr>rb_parent := Some p, rb_left := Some s, rb_right := Some s, rb_color := 1\<rparr> = mk h0 Lft x True (Some p) (Some s) (Some s)"
    by (simp add: mk_def x(4))
  have "zip_ok h0 X s q h5 (Nd Lf x True Lf) ((d, p, c, b) # ctx) root"
    using z x(1,2) unfolding zip_defs h5_def by auto
  then show ?thesis using zip_frame [OF z] x(3) px n by (auto simp: get_simps h5_def)
qed

section \<open>Insertion\<close>

definition rbtree :: "rb_store \<Rightarrow> ngx_rbtree_t \<Rightarrow> rtree \<Rightarrow> bool" where
  "rbtree h tree t \<longleftrightarrow> (\<exists>s q. rbt_sentinel tree = Some s \<and> zraw h s q h t [] (rbt_root tree)) \<and> rbi t \<and> \<not> red t"

lemma rep_self: "rep h0 s h p t \<Longrightarrow> rep h s h p t"
proof (induction t arbitrary: p)
  case (Nd a x c b)
  have e: "h x = Some (mk h0 Lft x c p (rp s a) (rp s b))" using Nd.prems by simp
  have "mk h0 Lft x c p (rp s a) (rp s b) = mk h Lft x c p (rp s a) (rp s b)" unfolding mk_def e by simp
  then have "h x = Some (mk h Lft x c p (rp s a) (rp s b))" using e by (simp only:)
  moreover have "rep h s h (Some x) a" "rep h s h (Some x) b" using Nd.IH Nd.prems unfolding rep.simps by blast+
  ultimately show ?case unfolding rep.simps by blast
qed simp

lemma rep_key: "rep h0 s h p t \<Longrightarrow> x \<in> set (addrs t) \<Longrightarrow> key_of h x = key_of h0 x"
  by (induction t arbitrary: p) (auto simp: key_of_def)

lemma repc_self: "repc h0 s q h ctx a root \<Longrightarrow> repc h s q h ctx a root"
proof (induction ctx arbitrary: a)
  case (Cons f ctx)
  obtain d x c b where f: "f = (d, x, c, b)" by (cases f)
  have e: "h x = Some (mk h0 d x c (pp q ctx) a (rp s b))" using Cons.prems unfolding f by simp
  have "mk h0 d x c (pp q ctx) a (rp s b) = mk h d x c (pp q ctx) a (rp s b)" unfolding mk_def e by simp
  then have "h x = Some (mk h d x c (pp q ctx) a (rp s b))" using e by (simp only:)
  moreover have "rep h s h (Some x) b" "repc h s q h ctx (Some x) root" using Cons rep_self unfolding f repc.simps by blast+
  ultimately show ?case unfolding f repc.simps by blast
qed simp

lemma zraw_self: "zraw h0 s q h t ctx root \<Longrightarrow> zraw h s q h t ctx root"
  using rep_self repc_self unfolding zraw_def by blast

lemma zraw_zip: "zraw h s q h t ctx root \<Longrightarrow> set (addrs t @ caddrs ctx) \<subseteq> X \<Longrightarrow> s \<notin> X \<Longrightarrow> zip_ok h X s q h t ctx root"
  by (simp add: zip_ok_def)

lemma set_addrs_plug: "set (addrs (plug t ctx)) = set (addrs t) \<union> set (caddrs ctx)"
proof (induction ctx arbitrary: t)
  case (Cons f ctx)
  obtain d x c b where f: "f = (d, x, c, b)" by (cases f)
  show ?case unfolding f plug.simps Cons by auto
qed simp

lemma insert_empty:
  assumes "zraw h s q h Lf [] root" "x \<noteq> s" "h x = Some n"
    and tree: "rbt_root tree = root" "rbt_sentinel tree = Some s"
  shows "\<exists>h'. ngx_rbtree_insert h tree (Some x) = Some (h', tree\<lparr>rbt_root := Some x\<rparr>) \<and> zip_ok h {x} s None h' (Nd Lf x False Lf) [] (Some x)"
proof -
  define h' where "h' = h(x \<mapsto> mk h Lft x False None (Some s) (Some s))"
  have "n\<lparr>rb_parent := None, rb_left := Some s, rb_right := Some s, rb_color := 0\<rparr> = mk h Lft x False None (Some s) (Some s)"
    by (simp add: mk_def assms(3))
  then have "ngx_rbtree_insert h tree (Some x) = Some (h', tree\<lparr>rbt_root := Some x\<rparr>)"
    using assms by (simp add: ngx_rbtree_insert_def get_simps h'_def zraw_def Let_def)
  moreover have "zip_ok h {x} s None h' (Nd Lf x False Lf) [] (Some x)"
    using assms unfolding zip_defs h'_def by auto
  ultimately show ?thesis by blast
qed

lemma paint_root:
  assumes "zip_ok h0 X s q h t [] root" "t \<noteq> Lf" "rbi t"
  obtains h' t' where "set_color 0 h root = Some h'" "zip_ok h0 X s q h' t' [] root" "rbi t'" "\<not> red t'" "addrs t' = addrs t"
proof -
  obtain x c a b where t: "t = node_at Lft x c a b" using assms(2) by (cases t rule: node_at_cases [where d = Lft]) auto
  have "root = Some x" using assms(1) unfolding t zip_defs by simp
  moreover obtain h' where "set_color 0 h (Some x) = Some h'" "zip_ok h0 X s q h' (node_at Lft x False a b) [] root"
    using assms(1) unfolding t by (rule zip_black)
  moreover have "rbi (node_at Lft x False a b)" using assms(3) unfolding t by simp
  ultimately show ?thesis using that [of h' "node_at Lft x False a b"] addrs_recolor [of Lft x False a b c] unfolding t by simp
qed

lemma insert_tree:
  assumes z: "zip_ok h X s q h t [] root" and t: "t \<noteq> Lf" "rbi t" "\<not> red t" and x: "x \<notin> insert s (set (addrs t))" "x \<in> X" "h x = Some n"
    and tree: "rbt_root tree = root" "rbt_sentinel tree = Some s" "rbt_insert tree = rb_insert_with before"
  shows "\<exists>h' root' t'. ngx_rbtree_insert h tree (Some x) = Some (h', tree\<lparr>rbt_root := root'\<rparr>) \<and> zip_ok h X s q h' t' [] root' \<and>
    rbi t' \<and> \<not> red t' \<and> addrs t' = addrs (tins (\<lambda>y. before (rb_key n) (key_of h y)) x t)"
proof -
  let ?B = "\<lambda>y. before (rb_key n) (key_of h y)"
  obtain d p c b ctx where d: "descend ?B t [] = (d, p, c, b) # ctx" using descend_nonempty [of t "[]" ?B] t(1) by (cases "descend ?B t []") auto
  let ?ctx = "(d, p, c, b) # ctx"
  have pl: "plug Lf ?ctx = t" using plug_descend(1) [of ?B t "[]"] unfolding d by simp
  have zl: "zip_ok h X s q h Lf ?ctx root" using z iffD2 [OF zip_plug, of h X s q h Lf ?ctx root] unfolding pl by simp
  have root: "root = rp s t" "root \<noteq> Some s" using z t(1) by (cases t; auto simp: zip_defs)+
  have loop: "rb_insert_loop before h root (Some x) (Some s) = Some (Some p, d)"
    using insert_loop [where before = before, OF z t(1) x(3) d] root(1) by simp
  have "set (addrs t) = set (caddrs ?ctx)" using set_addrs_plug [of Lf ?ctx] unfolding pl by simp
  then obtain h1 h2 h3 h4 h5 where link: "set_child d (Some x) h (Some p) = Some h1" "set_parent (Some p) h1 (Some x) = Some h2"
    "set_child Lft (Some s) h2 (Some x) = Some h3" "set_child Rgt (Some s) h3 (Some x) = Some h4" "set_color 1 h4 (Some x) = Some h5"
    "zip_ok h X s q h5 (Nd Lf x True Lf) ?ctx root"
    using zip_link [OF zl _ x(2,3,3)] x(1) by blast
  have ok: "okc 0 False ?ctx" using plug_rbi [of Lf ?ctx] t(2) unfolding pl by simp
  have top: "black_top (Nd Lf x True Lf) ?ctx" using red_plug [of Lf ?ctx] t(3) black_top_frames [of ?ctx Lf "Nd Lf x True Lf"] unfolding pl by simp
  obtain h6 root' t6 where fix6: "rb_insert_fix h5 root (Some s) (Some x) = Some (h6, root')" "zip_ok h X s q h6 t6 [] root'" "rbi t6"
      "addrs t6 = addrs (plug (Nd Lf x True Lf) ?ctx)"
    using insert_fix [OF link(6), of x] ok top by auto
  have a: "addrs t6 = addrs (tins ?B x t)" using fix6(4) plug_descend(2) [of x ?B t "[]"] unfolding d by simp
  have "addrs (tins ?B x t) \<noteq> []" by (cases t) auto
  then have "t6 \<noteq> Lf" using a by auto
  then obtain h' t' where "set_color 0 h6 root' = Some h'" "zip_ok h X s q h' t' [] root'" "rbi t'" "\<not> red t'" "addrs t' = addrs t6"
    using paint_root [OF fix6(2) _ fix6(3)] by blast
  moreover have "ngx_rbtree_insert h tree (Some x) = Some (h', tree\<lparr>rbt_root := root'\<rparr>)"
    using loop link(1-5) fix6(1) tree root(2) calculation(1) by (simp add: ngx_rbtree_insert_def rb_insert_with_def)
  ultimately show ?thesis using a by auto
qed


lemma insert_rbtree:
  assumes "rbtree h tree t" "rbt_sentinel tree = Some s" "x \<notin> insert s (set (addrs t))" "h x = Some n" "rbt_insert tree = rb_insert_with before"
  obtains h' root' t' where "ngx_rbtree_insert h tree (Some x) = Some (h', tree\<lparr>rbt_root := root'\<rparr>)"
    "rbtree h' (tree\<lparr>rbt_root := root'\<rparr>) t'" "addrs t' = addrs (tins (\<lambda>y. before (rb_key n) (key_of h y)) x t)"
    "\<forall>a. a \<notin> insert x (set (addrs t)) \<longrightarrow> h' a = h a" "\<forall>a \<in> insert x (set (addrs t)). key_of h' a = key_of h a"
proof -
  obtain q where z: "zraw h s q h t [] (rbt_root tree)" and rb: "rbi t" "\<not> red t" using assms(1,2) by (auto simp: rbtree_def)
  let ?X = "insert x (set (addrs t))"
  have "\<exists>h' root' q t'. ngx_rbtree_insert h tree (Some x) = Some (h', tree\<lparr>rbt_root := root'\<rparr>) \<and> zip_ok h ?X s q h' t' [] root' \<and>
    rbi t' \<and> \<not> red t' \<and> addrs t' = addrs (tins (\<lambda>y. before (rb_key n) (key_of h y)) x t)"
  proof (cases "t = Lf")
    case True
    then show ?thesis using insert_empty [OF z [unfolded True] _ assms(4) refl assms(2)] assms(3) by fastforce
  next
    case False
    have "zip_ok h ?X s q h t [] (rbt_root tree)" using z assms(3) by (intro zraw_zip) (auto simp: zraw_def)
    from insert_tree [where before = before, OF this False rb assms(3) insertI1 assms(4) refl assms(2,5)] show ?thesis by blast
  qed
  then obtain h' root' q t' where *: "ngx_rbtree_insert h tree (Some x) = Some (h', tree\<lparr>rbt_root := root'\<rparr>)"
    "zip_ok h ?X s q h' t' [] root'" "rbi t'" "\<not> red t'" "addrs t' = addrs (tins (\<lambda>y. before (rb_key n) (key_of h y)) x t)" by blast
  have "set (addrs (tins B x t)) = ?X" for B by (induction t) auto
  then have st: "set (addrs t') = ?X" using *(5) by simp
  have "rbtree h' (tree\<lparr>rbt_root := root'\<rparr>) t'"
    using *(2-4) assms(2) zraw_self [of h s q h' t' "[]" root'] unfolding rbtree_def zip_ok_def by auto
  moreover have "\<forall>a \<in> ?X. key_of h' a = key_of h a"
    using *(2) rep_key [of h s h' q t'] st by (auto simp: zip_defs)
  ultimately show ?thesis using that *(1,2,5) by (auto simp: zip_ok_def)
qed

end
