(* ===== verification/Ngx_Rbtree_Fixup.thy ===== *)
theory Ngx_Rbtree_Fixup
  imports Ngx_Rbtree_Insert
begin

text \<open>
  The loop of \<open>ngx_rbtree_delete\<close> in src/core/ngx_rbtree.c that restores the balance: it starts at a subtree that lacks one
  black node, and the tree that it leaves has the same nodes in the same order and is balanced.
\<close>

section \<open>One pass of the loop\<close>

text \<open>The place of \<open>temp\<close>, which may be the sentinel: then its \<open>parent\<close> has been set.\<close>

definition temp_ok :: "rb_store \<Rightarrow> addr set \<Rightarrow> addr \<Rightarrow> ptr \<Rightarrow> rb_store \<Rightarrow> rtree \<Rightarrow> frame list \<Rightarrow> ptr \<Rightarrow> bool" where
  "temp_ok h0 X s q h t ctx root \<longleftrightarrow> zip_ok h0 X s q h t ctx root \<and> (t = Lf \<longrightarrow> parent h0 (Some s) = Some (pp q ctx))"

lemma temp_zip: "temp_ok h0 X s q h t ctx root \<Longrightarrow> zip_ok h0 X s q h t ctx root"
  by (simp add: temp_ok_def)

lemma temp_parent: "temp_ok h0 X s q h t ctx root \<Longrightarrow> parent h (rp s t) = Some (pp q ctx)"
  by (cases t) (auto simp: temp_ok_def zip_defs get_simps)

lemma temp_sibling:
  assumes "temp_ok h0 X s q h t ((d, p, c, w) # ctx) root"
  shows "rb_sibling d h (rp s t) = Some (rp s w)"
  using temp_parent [OF assms] zip_frame [OF temp_zip [OF assms]] by (simp add: rb_sibling_def get_simps)

lemma temp_change:
  assumes "temp_ok h0 X s q h t ((d, p, c, w) # ctx) root" "zip_ok h0 X s q h' t ((d', p, c', w') # ctx') root'"
  shows "temp_ok h0 X s q h' t ((d', p, c', w') # ctx') root'"
  using assms by (simp add: temp_ok_def)

text \<open>The sibling is black and its children are black: it is painted red.\<close>

lemma black_sibling_both:
  assumes t: "temp_ok h0 X s q h t ((d, p, c, node_at d w False n f) # ctx) root" and "\<not> red n" "\<not> red f"
  shows "\<exists>h'. rb_black_sibling d h root (Some s) (rp s t) (Some w) = Some (h', root, Some p) \<and>
    zip_ok h0 X s q h' (node_at d p c t (node_at d w True n f)) ctx root"
proof -
  note z = zip_down2 [OF zip_up [OF temp_zip [OF t]]]
  have k: "h w = Some (mk h0 d w False (Some p) (rp s n) (rp s f))" using zip_get [OF z] by simp
  have nf: "color h (rp s n) = Some 0" "color h (rp s f) = Some 0"
    using zip_color [OF zip_down [OF z]] zip_color_frame [OF zip_down [OF z]] assms(2,3) by simp_all
  obtain h' where h': "set_color 1 h (Some w) = Some h'" "zip_ok h0 X s q h' (node_at d w True n f) ((opp d, p, c, t) # ctx) root"
    using z by (rule zip_red)
  have "temp_ok h0 X s q h' t ((d, p, c, node_at d w True n f) # ctx) root"
    using t zip_down [OF zip_up2 [OF h'(2)]] by (rule temp_change)
  from temp_parent [OF this] have "parent h' (rp s t) = Some (Some p)" by simp
  then have "rb_black_sibling d h root (Some s) (rp s t) (Some w) = Some (h', root, Some p)"
    using k nf h'(1) unfolding rb_black_sibling_def by (cases d) (simp_all add: get_simps mk_def)
  then show ?thesis using zip_up2 [OF h'(2)] by blast
qed

text \<open>The far child of the sibling is red: one rotation ends the loop.\<close>

lemma black_sibling_far:
  assumes t: "temp_ok h0 X s q h t ((d, p, c, node_at d w e n (node_at d f True x y)) # ctx) root"
  shows "\<exists>h1 h2 h3 h' root'. parent h (rp s t) = Some (Some p) \<and> color h (Some p) = Some (of_bool c) \<and> set_color (of_bool c) h (Some w) = Some h1 \<and>
    set_color 0 h1 (Some p) = Some h2 \<and> child (opp d) h2 (Some w) = Some (Some f) \<and> set_color 0 h2 (Some f) = Some h3 \<and>
    rb_rotate d h3 root (Some s) (Some p) = Some (h', root') \<and>
    zip_ok h0 X s q h' (node_at d w c (node_at d p False t n) (node_at d f False x y)) ctx root'"
proof -
  note z = zip_up [OF temp_zip [OF t]]
  have "parent h (rp s t) = Some (Some p)" using temp_parent [OF t] by simp
  moreover have "color h (Some p) = Some (of_bool c)" using zip_get [OF z] by (simp add: get_simps)
  moreover obtain h1 where h1: "set_color (of_bool c) h (Some w) = Some h1"
      "zip_ok h0 X s q h1 (node_at d w c n (node_at d f True x y)) ((opp d, p, c, t) # ctx) root"
    using zip_recolor [OF zip_down2 [OF z], of c] by blast
  moreover obtain h2 where h2: "set_color 0 h1 (Some p) = Some h2" "zip_ok h0 X s q h2 (node_at d p False t (node_at d w c n (node_at d f True x y))) ctx root"
    using zip_up2 [OF h1(2)] by (rule zip_black)
  moreover have "child (opp d) h2 (Some w) = Some (Some f)" using zip_get [OF zip_down2 [OF h2(2)]] by (simp add: get_simps)
  moreover obtain h3 where h3: "set_color 0 h2 (Some f) = Some h3"
      "zip_ok h0 X s q h3 (node_at d f False x y) ((opp d, w, c, n) # (opp d, p, False, t) # ctx) root"
    using zip_down2 [OF zip_down2 [OF h2(2)]] by (rule zip_black)
  moreover obtain h' root' where "rb_rotate d h3 root (Some s) (Some p) = Some (h', root')"
      "zip_ok h0 X s q h' (node_at d w c (node_at d p False t n) (node_at d f False x y)) ctx root'"
    using zip_up2 [OF zip_up2 [OF h3(2)]] by (rule zip_rotateE)
  ultimately show ?thesis by auto
qed

lemma zip_kids:
  assumes z: "zip_ok h0 X s q h (node_at d w e n f) ctx root"
  shows "child d h (Some w) = Some (rp s n)" "child (opp d) h (Some w) = Some (rp s f)"
    "color h (rp s n) = Some (of_bool (red n))" "color h (rp s f) = Some (of_bool (red f))"
  using zip_get [OF z] zip_color [OF zip_down [OF z]] zip_color_frame [OF zip_down [OF z]] by (simp_all add: get_simps)

lemma black_sibling_rotate:
  assumes t: "temp_ok h0 X s q h t ((d, p, c, node_at d w False n f) # ctx) root" and r: "red n \<or> red f"
  shows "\<exists>h' root' w' n' x. rb_black_sibling d h root (Some s) (rp s t) (Some w) = Some (h', root', root') \<and>
    zip_ok h0 X s q h' (node_at d w' c (node_at d p False t n') x) ctx root' \<and>
    addrs (node_at d w' c (node_at d p False t n') x) = addrs (node_at d p c t (node_at d w False n f)) \<and>
    (rbi n \<and> rbi f \<and> bh n = bh f \<longrightarrow> rbi n' \<and> bh n' = bh n \<and> rbi x \<and> bh x = Suc (bh n) \<and> \<not> red x)"
proof (cases "red f")
  case True
  note z = zip_down2 [OF zip_up [OF temp_zip [OF t]]]
  obtain v x y where f: "f = node_at d v True x y" using True by (cases f rule: node_at_cases [where d = d]) auto
  obtain h1 h2 h3 h' root' where *: "parent h (rp s t) = Some (Some p)" "color h (Some p) = Some (of_bool c)" "set_color (of_bool c) h (Some w) = Some h1"
    "set_color 0 h1 (Some p) = Some h2" "child (opp d) h2 (Some w) = Some (Some v)" "set_color 0 h2 (Some v) = Some h3"
    "rb_rotate d h3 root (Some s) (Some p) = Some (h', root')"
    "zip_ok h0 X s q h' (node_at d w c (node_at d p False t n) (node_at d v False x y)) ctx root'"
    using black_sibling_far [OF t [unfolded f]] by blast
  have "rb_black_sibling d h root (Some s) (rp s t) (Some w) = Some (h', root', root')"
    using zip_kids [OF z] * True unfolding rb_black_sibling_def f by (cases d) auto
  moreover have "addrs (node_at d w c (node_at d p False t n) (node_at d v False x y)) = addrs (node_at d p c t (node_at d w False n f))"
    unfolding f by (cases d) (simp_all add: node_at_def)
  moreover have "rbi n \<and> rbi f \<and> bh n = bh f \<longrightarrow> rbi n \<and> bh n = bh n \<and> rbi (node_at d v False x y) \<and> bh (node_at d v False x y) = Suc (bh n) \<and> \<not> red (node_at d v False x y)"
    unfolding f by (auto simp: bh_node_at)
  ultimately show ?thesis using *(8) by blast
next
  case False
  note z = zip_down2 [OF zip_up [OF temp_zip [OF t]]]
  obtain v x y where n: "n = node_at d v True x y" using False r by (cases n rule: node_at_cases [where d = d]) auto
  obtain h1 where h1: "set_color 0 h (Some v) = Some h1" "zip_ok h0 X s q h1 (node_at d v False x y) ((d, w, False, f) # (opp d, p, c, t) # ctx) root"
    using zip_down [OF z [unfolded n]] by (rule zip_black)
  obtain h2 where h2: "set_color 1 h1 (Some w) = Some h2" "zip_ok h0 X s q h2 (node_at d w True (node_at d v False x y) f) ((opp d, p, c, t) # ctx) root"
    using zip_up [OF h1(2)] by (rule zip_red)
  obtain h3 root3 where h3: "rb_rotate (opp d) h2 root (Some s) (Some w) = Some (h3, root3)"
      "zip_ok h0 X s q h3 (node_at d v False x (node_at d w True y f)) ((opp d, p, c, t) # ctx) root3"
    using zip_rotateE [of h0 X s q h2 "opp d" w True f v False y x "(opp d, p, c, t) # ctx" root] h2(2) unfolding node_at_opp by blast
  have t3: "temp_ok h0 X s q h3 t ((d, p, c, node_at d v False x (node_at d w True y f)) # ctx) root3"
    using t zip_down [OF zip_up2 [OF h3(2)]] by (rule temp_change)
  obtain h4 h5 h6 h' root' where *: "parent h3 (rp s t) = Some (Some p)" "color h3 (Some p) = Some (of_bool c)" "set_color (of_bool c) h3 (Some v) = Some h4"
    "set_color 0 h4 (Some p) = Some h5" "child (opp d) h5 (Some v) = Some (Some w)" "set_color 0 h5 (Some w) = Some h6"
    "rb_rotate d h6 root3 (Some s) (Some p) = Some (h', root')"
    "zip_ok h0 X s q h' (node_at d v c (node_at d p False t x) (node_at d w False y f)) ctx root'"
    using black_sibling_far [OF t3] by blast
  have "rb_black_sibling d h root (Some s) (rp s t) (Some w) = Some (h', root', root')"
    using zip_kids [OF z] temp_sibling [OF t3] h1(1) h2(1) h3(1) * False unfolding rb_black_sibling_def n by (cases d) auto
  moreover have "addrs (node_at d v c (node_at d p False t x) (node_at d w False y f)) = addrs (node_at d p c t (node_at d w False n f))"
    unfolding n by (cases d) (simp_all add: node_at_def)
  moreover have "rbi n \<and> rbi f \<and> bh n = bh f \<longrightarrow> rbi x \<and> bh x = bh n \<and> rbi (node_at d w False y f) \<and> bh (node_at d w False y f) = Suc (bh n) \<and> \<not> red (node_at d w False y f)"
    unfolding n by (auto simp: bh_node_at)
  ultimately show ?thesis using *(8) by blast
qed

section \<open>The loop\<close>

text \<open>The subtree at \<open>temp\<close> is balanced, except that its root may be red with a red child, and it lacks one black node.\<close>

primrec rbi2 :: "rtree \<Rightarrow> bool" where
  "rbi2 Lf = True"
| "rbi2 (Nd a x c b) \<longleftrightarrow> bh a = bh b \<and> rbi a \<and> rbi b"

lemma rbi2_node_at [simp]: "rbi2 (node_at d x c a b) \<longleftrightarrow> bh a = bh b \<and> rbi a \<and> rbi b"
  by (cases d) (auto simp: node_at_def)

lemma rbi2_black: "rbi2 t \<Longrightarrow> \<not> red t \<Longrightarrow> rbi t"
  by (cases t) auto

lemma okc_False: "okc n r ctx \<Longrightarrow> okc n False ctx"
  by (cases ctx) auto

definition lacks :: "rtree \<Rightarrow> frame list \<Rightarrow> bool" where
  "lacks t ctx \<longleftrightarrow> rbi2 t \<and> okc (Suc (bh t)) False ctx \<and> (t \<noteq> Lf \<or> ctx \<noteq> []) \<and> (ctx \<noteq> [] \<longrightarrow> black_top t ctx)"

definition fixed :: "rb_store \<Rightarrow> addr set \<Rightarrow> addr \<Rightarrow> ptr \<Rightarrow> addr list \<Rightarrow> (rb_store \<times> ptr) option \<Rightarrow> bool" where
  "fixed h0 X s q as r \<longleftrightarrow> (\<exists>h root t. r = Some (h, root) \<and> zip_ok h0 X s q h t [] root \<and> rbi t \<and> \<not> red t \<and> addrs t = as)"

lemma delete_fix_end:
  assumes z: "zip_ok h0 X s q h t ctx root" and l: "lacks t ctx" and "red t \<or> ctx = []"
  shows "fixed h0 X s q (addrs (plug t ctx)) (rb_delete_fix h root (Some s) (rp s t))"
proof -
  have "t \<noteq> Lf" using assms(3) l by (auto simp: lacks_def)
  then obtain x c a b where t: "t = node_at Lft x c a b" by (cases t rule: node_at_cases [where d = Lft]) auto
  obtain h' where h': "set_color 0 h (Some x) = Some h'" "zip_ok h0 X s q h' (node_at Lft x False a b) ctx root"
    using z unfolding t by (rule zip_black)
  have "color h (Some x) = Some (of_bool c)" using zip_color [OF z] unfolding t by simp
  then have run: "rb_delete_fix h root (Some s) (rp s t) = Some (h', root)"
    using h'(1) assms(3) zip_root [OF z, of x] unfolding t by (subst rb_delete_fix.simps) auto
  let ?t = "plug (node_at Lft x False a b) ctx"
  have "rbi ?t" using l assms(3) unfolding plug_rbi lacks_def t by (auto simp: bh_node_at)
  moreover have "\<not> red ?t"
    using l black_top_frames [of ctx t "node_at Lft x False a b"] unfolding red_plug lacks_def by (cases "ctx = []") auto
  moreover have "addrs ?t = addrs (plug t ctx)" unfolding t by (intro addrs_plug addrs_recolor)
  ultimately show ?thesis unfolding fixed_def run using iffD1 [OF zip_plug, OF h'(2)] by blast
qed

lemma delete_fix_step:
  assumes t: "temp_ok h0 X s q h t ((d, p, c, node_at d w e n f) # ctx) root" and "\<not> red t"
  shows "rb_delete_fix h root (Some s) (rp s t) = do {
    (h, root, temp) \<leftarrow> rb_delete_case d h root (Some s) (rp s t);
    rb_delete_fix h root (Some s) temp }"
proof -
  note z = temp_zip [OF t]
  have c: "color h (rp s t) = Some 0" using zip_color [OF z] assms(2) by simp
  have p: "parent h (rp s t) = Some (Some p)" using temp_parent [OF t] by simp
  have ne: "rp s t \<noteq> Some w" using z by (cases t) (auto simp: zip_defs)
  have k: "child d h (Some p) = Some (rp s t)" "child (opp d) h (Some p) = Some (Some w)" using zip_kids [OF zip_up [OF z]] by simp_all
  then have "\<exists>l. child Lft h (Some p) = Some l \<and> (if rp s t = l then Lft else Rgt) = d" using ne by (cases d) auto
  moreover have "rp s t \<noteq> root"
  proof (cases "t = Lf")
    case True
    obtain y where "y \<in> set (caddrs ((d, p, c, node_at d w e n f) # ctx))" "root = Some y"
      using z repc_root [of h0 s q h "(d, p, c, node_at d w e n f) # ctx" "rp s t" root] by (auto simp: zip_defs)
    then show ?thesis using True z by (auto simp: zip_defs)
  next
    case False
    then obtain m where "rp s t = Some m" by (cases t) auto
    then show ?thesis using zip_root [OF z _ False] by simp
  qed
  ultimately show ?thesis using c p by (subst rb_delete_fix.simps) auto
qed

lemma fixed_root:
  assumes "zip_ok h0 X s q h t ctx root" "rbi (plug t ctx)" "\<not> red (plug t ctx)" "t \<noteq> Lf"
  shows "fixed h0 X s q (addrs (plug t ctx)) (rb_delete_fix h root (Some s) root)"
proof -
  have z: "zip_ok h0 X s q h (plug t ctx) [] root" using assms(1) zip_plug by blast
  have "plug t ctx \<noteq> Lf" using set_addrs_plug [of t ctx] assms(4) by (cases t) auto
  moreover have "rbi2 (plug t ctx)" using assms(2) by (cases "plug t ctx") auto
  ultimately have "lacks (plug t ctx) []" by (simp add: lacks_def)
  moreover have "root = rp s (plug t ctx)" using z by (simp add: zip_defs)
  ultimately show ?thesis using delete_fix_end [OF z] by simp
qed

lemma lacks_frame:
  assumes "lacks t ((d, p, c, node_at d w e n f) # ctx)"
  shows "rbi n" "rbi f" "bh n = bh f" "bh n = bh t + of_bool e" "c \<longrightarrow> \<not> e" "e \<longrightarrow> \<not> red n \<and> \<not> red f"
    "okc (Suc (bh t) + of_bool (\<not> c)) c ctx" "rbi2 t" "ctx = [] \<Longrightarrow> \<not> c" "\<And>t'. ctx \<noteq> [] \<Longrightarrow> black_top t' ctx"
proof -
  have o: "rbi n" "rbi f" "bh n = bh f" "bh (node_at d w e n f) = Suc (bh t)" "c \<longrightarrow> \<not> e" "e \<longrightarrow> \<not> red n \<and> \<not> red f"
    "okc (Suc (bh t) + of_bool (\<not> c)) c ctx" "rbi2 t" "black_top t ((d, p, c, node_at d w e n f) # ctx)"
    using assms by (auto simp: lacks_def)
  then show "rbi n" "rbi f" "bh n = bh f" "c \<longrightarrow> \<not> e" "e \<longrightarrow> \<not> red n \<and> \<not> red f" "okc (Suc (bh t) + of_bool (\<not> c)) c ctx" "rbi2 t" by blast+
  show "bh n = bh t + of_bool e" using o(4) bh_node_at [OF o(3), of d w e] by (cases e) auto
  show "ctx = [] \<Longrightarrow> \<not> c" using o(9) by auto
  show "black_top t' ctx" if "ctx \<noteq> []" for t' using o(9) black_top_frames [OF that, of t t'] that by (cases ctx) auto
qed

lemma black_pass:
  assumes t: "temp_ok h0 X s q h t ((d, p, c, node_at d w False n f) # ctx) root" and r: "\<not> red t"
    and l: "lacks t ((d, p, c, node_at d w False n f) # ctx)"
    and IH: "\<And>h'. zip_ok h0 X s q h' (node_at d p c t (node_at d w True n f)) ctx root \<Longrightarrow>
      lacks (node_at d p c t (node_at d w True n f)) ctx \<Longrightarrow>
      fixed h0 X s q (addrs (plug (node_at d p c t (node_at d w True n f)) ctx)) (rb_delete_fix h' root (Some s) (Some p))"
  shows "fixed h0 X s q (addrs (plug (node_at d p c t (node_at d w False n f)) ctx))
    (do { (h, root, temp) \<leftarrow> rb_black_sibling d h root (Some s) (rp s t) (Some w); rb_delete_fix h root (Some s) temp })"
proof -
  note l = lacks_frame [OF l]
  have rt: "rbi t" using rbi2_black l(8) r by blast
  show ?thesis
  proof (cases "red n \<or> red f")
    case False
    let ?t = "node_at d p c t (node_at d w True n f)"
    obtain h' where h': "rb_black_sibling d h root (Some s) (rp s t) (Some w) = Some (h', root, Some p)" "zip_ok h0 X s q h' ?t ctx root"
      using black_sibling_both [OF t] False by blast
    have "bh ?t = bh t + of_bool (\<not> c)" using l(3,4) by (simp add: bh_node_at)
    then have "lacks ?t ctx" using l rt False okc_False [OF l(7)] by (simp add: lacks_def bh_node_at)
    moreover have "addrs (plug ?t ctx) = addrs (plug (node_at d p c t (node_at d w False n f)) ctx)" by (intro addrs_plug addrs_node_at refl)
    ultimately show ?thesis using IH [OF h'(2)] h'(1) by simp
  next
    case True
    then obtain h' root' w' n' x where *: "rb_black_sibling d h root (Some s) (rp s t) (Some w) = Some (h', root', root')"
        "zip_ok h0 X s q h' (node_at d w' c (node_at d p False t n') x) ctx root'"
        "addrs (node_at d w' c (node_at d p False t n') x) = addrs (node_at d p c t (node_at d w False n f))"
        "rbi n'" "bh n' = bh n" "rbi x" "bh x = Suc (bh n)" "\<not> red x"
      using black_sibling_rotate [OF t True] l(1-3) by blast
    let ?t = "node_at d w' c (node_at d p False t n') x"
    have b: "bh (node_at d p False t n') = Suc (bh t)" "bh ?t = Suc (bh t) + of_bool (\<not> c)" using *(5,7) l(4) by (simp_all add: bh_node_at)
    have "rbi (plug ?t ctx)" unfolding plug_rbi using b * rt l(4,7) by simp
    moreover have "\<not> red (plug ?t ctx)" unfolding red_plug using l(9,10) by (cases "ctx = []") auto
    ultimately have "fixed h0 X s q (addrs (plug ?t ctx)) (rb_delete_fix h' root' (Some s) root')"
      by (intro fixed_root [OF *(2)]) simp_all
    then show ?thesis using *(1) addrs_plug [OF *(3)] by simp
  qed
qed

text \<open>The sibling is red: a rotation gives a black one.\<close>

lemma red_sibling:
  assumes t: "temp_ok h0 X s q h t ((d, p, False, node_at d w True (node_at d v False x y) f) # ctx) root"
  shows "\<exists>h' root'. rb_delete_case d h root (Some s) (rp s t) = rb_black_sibling d h' root' (Some s) (rp s t) (Some v) \<and>
    temp_ok h0 X s q h' t ((d, p, True, node_at d v False x y) # (d, w, False, f) # ctx) root'"
proof -
  let ?n = "node_at d v False x y"
  have sib: "rb_sibling d h (rp s t) = Some (Some w)" "color h (Some w) = Some 1"
    using temp_sibling [OF t] zip_color_frame [OF temp_zip [OF t]] by simp_all
  obtain h1 where h1: "set_color 0 h (Some w) = Some h1" "zip_ok h0 X s q h1 (node_at d w False ?n f) ((opp d, p, False, t) # ctx) root"
    using zip_down2 [OF zip_up [OF temp_zip [OF t]]] by (rule zip_black)
  have "temp_ok h0 X s q h1 t ((d, p, False, node_at d w False ?n f) # ctx) root" using t zip_down [OF zip_up2 [OF h1(2)]] by (rule temp_change)
  from temp_parent [OF this] have p1: "parent h1 (rp s t) = Some (Some p)" by simp
  obtain h2 where h2: "set_color 1 h1 (Some p) = Some h2" "zip_ok h0 X s q h2 (node_at d p True t (node_at d w False ?n f)) ctx root"
    using zip_up2 [OF h1(2)] by (rule zip_red)
  obtain h3 root3 where h3: "rb_rotate d h2 root (Some s) (Some p) = Some (h3, root3)"
      "zip_ok h0 X s q h3 (node_at d w False (node_at d p True t ?n) f) ctx root3"
    using h2(2) by (rule zip_rotateE)
  have t3: "temp_ok h0 X s q h3 t ((d, p, True, ?n) # (d, w, False, f) # ctx) root3"
    using t zip_down [OF zip_down [OF h3(2)]] by (rule temp_change)
  then show ?thesis using sib h1(1) p1 h2(1) h3(1) temp_sibling [OF t3] by (auto simp: rb_delete_case_def)
qed

lemma delete_fix:
  assumes "temp_ok h0 X s q h t ctx root" "lacks t ctx"
  shows "fixed h0 X s q (addrs (plug t ctx)) (rb_delete_fix h root (Some s) (rp s t))"
  using assms
proof (induction "length ctx" arbitrary: t ctx h root rule: less_induct)
  case less
  note t = less.prems(1) and l = less.prems(2)
  show ?case
  proof (cases "red t \<or> ctx = []")
    case True
    then show ?thesis using delete_fix_end [OF temp_zip [OF t] l] by blast
  next
    case False
    then obtain d p c b ctx1 where "ctx = (d, p, c, b) # ctx1" by (cases ctx) auto
    moreover have "b \<noteq> Lf" using l calculation by (auto simp: lacks_def)
    ultimately obtain w e n f where ctx: "ctx = (d, p, c, node_at d w e n f) # ctx1"
      by (cases b rule: node_at_cases [where d = d]) auto
    note t = t [unfolded ctx] and l = l [unfolded ctx]
    have r: "\<not> red t" using False by blast
    note run = delete_fix_step [OF t r]
    show ?thesis
    proof (cases e)
      case False
      have "rb_sibling d h (rp s t) = Some (Some w)" "color h (Some w) = Some 0"
        using temp_sibling [OF t] zip_color_frame [OF temp_zip [OF t]] False by simp_all
      then have "rb_delete_case d h root (Some s) (rp s t) = rb_black_sibling d h root (Some s) (rp s t) (Some w)"
        by (simp add: rb_delete_case_def)
      moreover have "fixed h0 X s q (addrs (plug (node_at d p c t (node_at d w False n f)) ctx1))
          (do { (h, root, temp) \<leftarrow> rb_black_sibling d h root (Some s) (rp s t) (Some w); rb_delete_fix h root (Some s) temp })"
      proof (rule black_pass)
        show "fixed h0 X s q (addrs (plug (node_at d p c t (node_at d w True n f)) ctx1)) (rb_delete_fix h' root (Some s) (Some p))"
          if "zip_ok h0 X s q h' (node_at d p c t (node_at d w True n f)) ctx1 root" "lacks (node_at d p c t (node_at d w True n f)) ctx1" for h'
          using less.hyps [of ctx1 h' "node_at d p c t (node_at d w True n f)" root] that unfolding ctx by (simp add: temp_ok_def)
      qed (use t l r False in simp_all)
      ultimately show ?thesis using run False unfolding ctx by simp
    next
      case True
      note l' = lacks_frame [OF l]
      have nc: "\<not> c" "\<not> red n" "n \<noteq> Lf" using l'(4-6) True by auto
      then obtain v x y where n: "n = node_at d v False x y" by (cases n rule: node_at_cases [where d = d]) auto
      let ?ctx = "(d, p, True, node_at d v False x y) # (d, w, False, f) # ctx1"
      obtain h3 root3 where case_run: "rb_delete_case d h root (Some s) (rp s t) = rb_black_sibling d h3 root3 (Some s) (rp s t) (Some v)"
        and t3: "temp_ok h0 X s q h3 t ?ctx root3" using red_sibling [of h0 X s q h t d p w v x y f ctx1 root] t nc(1) True unfolding n by auto
      have l3: "lacks t ?ctx" using l' nc True unfolding n lacks_def by (cases "ctx1 = []") (auto simp: neq_Nil_conv)
      have "fixed h0 X s q (addrs (plug (node_at d p True t (node_at d v False x y)) ((d, w, False, f) # ctx1)))
          (do { (h, root, temp) \<leftarrow> rb_black_sibling d h3 root3 (Some s) (rp s t) (Some v); rb_delete_fix h root (Some s) temp })"
        by (rule black_pass [OF t3 r l3], drule (1) delete_fix_end) simp_all
      moreover have "addrs (plug (node_at d p True t (node_at d v False x y)) ((d, w, False, f) # ctx1)) = addrs (plug t ctx)"
        unfolding ctx n plug.simps by (rule addrs_plug) (cases d; simp add: node_at_def)
      ultimately show ?thesis using run case_run by simp
    qed
  qed
qed

end
