(* ===== verification/Ngx_Rbtree_Delete.thy ===== *)
theory Ngx_Rbtree_Delete
  imports Ngx_Rbtree_Fixup
begin

text \<open>
  \<open>ngx_rbtree_delete\<close> of src/core/ngx_rbtree.c: the node, or its successor, is taken out of its place, the successor takes the place
  of the node, and the loop restores the balance. \<open>delete_rbtree\<close> is the result for the whole function.
\<close>

section \<open>Taking a node out\<close>

lemma pp_append: "pp q (path @ ctx) = pp (pp q ctx) path"
  by (cases path) auto

lemma repc_append: "repc h0 s q h (path @ ctx) a root \<longleftrightarrow> (\<exists>m. repc h0 s (pp q ctx) h path a m \<and> repc h0 s q h ctx m root)"
proof (induction path arbitrary: a)
  case (Cons f path)
  obtain d x c b where f: "f = (d, x, c, b)" by (cases f)
  show ?case unfolding f using Cons by (auto simp: pp_append)
qed simp

lemma caddrs_append [simp]: "caddrs (path @ ctx) = caddrs path @ caddrs ctx"
  by (induction path rule: caddrs.induct) auto

lemma rep_plug: "rep h0 s h p (plug t path) \<longleftrightarrow> rep h0 s h (pp p path) t \<and> repc h0 s p h path (rp s t) (rp s (plug t path))"
proof (induction path arbitrary: t)
  case (Cons f path)
  obtain d x c b where f: "f = (d, x, c, b)" by (cases f)
  show ?case unfolding f plug.simps Cons by auto
qed simp

lemma rep_get: "rep h0 s h p t \<Longrightarrow> rp s t = Some x \<Longrightarrow> t \<noteq> Lf \<Longrightarrow> \<exists>n. h x = Some n \<and> rb_parent n = p"
  by (cases t) auto

text \<open>The parent of the root of a subtree is set, or that of the sentinel.\<close>

lemma set_parent_sub:
  assumes "rep h0 s h p t" "distinct (s # addrs t)" "h s = Some n"
  obtains h' where "set_parent e h (rp s t) = Some h'" "rep h0 s h' e t" "parent h' (rp s t) = Some e"
    "\<forall>z. z \<notin> insert s (set (addrs t)) \<longrightarrow> h' z = h z" "\<exists>n'. h' s = Some n' \<and> rb_color n' = rb_color n"
    "t \<noteq> Lf \<longrightarrow> h' s = h s"
proof (cases t)
  case Lf
  then show ?thesis using assms by (intro that [of "h(s \<mapsto> n\<lparr>rb_parent := e\<rparr>)"]) (auto simp: get_simps)
next
  case (Nd a x c b)
  then show ?thesis
    using assms by (intro that [of "h(x \<mapsto> mk h0 Lft x c e (rp s a) (rp s b))"]) (auto simp: get_simps)
qed

text \<open>The parent of the topmost node of a path is set.\<close>

lemma set_parent_top:
  assumes "repc h0 s p h path a m" "path \<noteq> []" "distinct (caddrs path)"
  obtains x h' where "m = Some x" "x \<in> set (caddrs path)" "set_parent e h m = Some h'" "repc h0 s e h' path a m" "\<forall>z. z \<noteq> x \<longrightarrow> h' z = h z"
  using assms
proof (induction path arbitrary: a thesis)
  case (Cons f path)
  obtain d x c b where f: "f = (d, x, c, b)" by (cases f)
  show ?case
  proof (cases "path = []")
    case True
    define h1 where "h1 = h(x \<mapsto> mk h0 d x c e a (rp s b))"
    have "set_parent e h m = Some h1" "m = Some x" "repc h0 s e h1 (f # path) a m"
      using Cons.prems(2,4) True unfolding f h1_def by (auto simp: get_simps)
    moreover have "\<forall>z. z \<noteq> x \<longrightarrow> h1 z = h z" by (simp add: h1_def)
    moreover have "x \<in> set (caddrs (f # path))" unfolding f by simp
    ultimately show ?thesis by (intro Cons.prems(1))
  next
    case False
    have "repc h0 s p h path (Some x) m" "distinct (caddrs path)" using Cons.prems(2,4) unfolding f by auto
    then obtain y h' where y: "m = Some y" "y \<in> set (caddrs path)" "set_parent e h m = Some h'" "repc h0 s e h' path (Some x) m"
        "\<forall>z. z \<noteq> y \<longrightarrow> h' z = h z"
      using Cons.IH False by metis
    have "y \<noteq> x" "y \<notin> set (addrs b)" using y(2) Cons.prems(4) unfolding f by auto
    then have "h' x = h x" "rep h0 s h' (Some x) b = rep h0 s h (Some x) b" using y(5) by (auto intro!: tree_cong)
    moreover have "pp p path = pp e path" using False by (cases path) auto
    ultimately have "repc h0 s e h' (f # path) a m" using Cons.prems(2) y(4) unfolding f by simp
    then show ?thesis using y Cons.prems(1) [of y h'] unfolding f by auto
  qed
qed simp

lemma rb_min:
  assumes "rep h0 s h p t" "t \<noteq> Lf" "s \<notin> set (addrs t)"
  shows "\<exists>y c b path. t = plug (Nd Lf y c b) path \<and> (\<forall>f \<in> set path. fst f = Lft) \<and> ngx_rbtree_min h (rp s t) (Some s) = Some (Some y) \<and>
    addrs t = y # addrs b @ caddrs path"
  using assms
proof (induction t arbitrary: p)
  case (Nd l x c r)
  have k: "child Lft h (Some x) = Some (rp s l)" using Nd.prems(1) by (simp add: get_simps mk_def)
  show ?case
  proof (cases "l = Lf")
    case True
    then have "ngx_rbtree_min h (Some x) (Some s) = Some (Some x)" using k by (subst ngx_rbtree_min.simps) simp
    then show ?thesis using True by (intro exI [of _ x] exI [of _ c] exI [of _ r] exI [of _ "[]"]) simp
  next
    case False
    then obtain y e b path where y: "l = plug (Nd Lf y e b) path" "\<forall>f \<in> set path. fst f = Lft" "ngx_rbtree_min h (rp s l) (Some s) = Some (Some y)"
        "addrs l = y # addrs b @ caddrs path"
      using Nd.IH(1) [of "Some x"] Nd.prems by auto
    have "rp s l \<noteq> Some s" using False Nd.prems(3) by (cases l) auto
    then have "ngx_rbtree_min h (Some x) (Some s) = Some (Some y)" using k y(3) by (subst ngx_rbtree_min.simps) simp
    moreover have "plug t (path @ [(Lft, x, c, r)]) = Nd (plug t path) x c r" for t
      by (induction path arbitrary: t rule: caddrs.induct) (auto simp: node_at_def)
    ultimately show ?thesis
      using y by (intro exI [of _ y] exI [of _ e] exI [of _ b] exI [of _ "path @ [(Lft, x, c, r)]"]) simp
  qed
qed simp

text \<open>The node that has been deleted.\<close>

definition cleared :: "rb_store \<Rightarrow> addr \<Rightarrow> bool" where
  "cleared h x \<longleftrightarrow> (\<exists>n. h x = Some n \<and> rb_left n = None \<and> rb_right n = None \<and> rb_parent n = None \<and> rb_key n = 0)"

lemma clear_simps: "h x = Some n \<Longrightarrow> \<exists>n'. rb_clear h (Some x) = Some (h(x \<mapsto> n')) \<and> cleared (h(x \<mapsto> n')) x"
  by (auto simp: rb_clear_def rb_put_def cleared_def)

lemma mk_sides:
  "rb_left (mk h0 Lft x c p a b) = a" "rb_left (mk h0 Rgt x c p a b) = b" "rb_right (mk h0 Lft x c p a b) = b" "rb_right (mk h0 Rgt x c p a b) = a"
  "mk h0 Lft x c p a b\<lparr>rb_left := e\<rparr> = mk h0 Lft x c p e b" "mk h0 Lft x c p a b\<lparr>rb_right := e\<rparr> = mk h0 Lft x c p a e"
  by (simp_all add: mk_def)

text \<open>The node has at most one child, which takes its place.\<close>

lemma unlink_one:
  assumes z: "zraw h0 s q h (Nd l x c r) ((d, p, e, b) # ctx) root" and t: "l = Lf \<and> t = r \<or> r = Lf \<and> t = l"
  shows "\<exists>h1 h'. rb_unlink h root (Some s) (Some x) (Some x) (rp s t) = Some (h1, root) \<and> rb_clear h1 (Some x) = Some h' \<and>
    zraw h0 s q h' t ((d, p, e, b) # ctx) root \<and> parent h' (rp s t) = Some (Some p) \<and> cleared h' x \<and>
    (\<forall>a. a \<notin> insert s (set (addrs (Nd l x c r) @ caddrs ((d, p, e, b) # ctx))) \<longrightarrow> h' a = h a)"
proof -
  have h: "h x = Some (mk h0 Lft x c (Some p) (rp s l) (rp s r))" "h p = Some (mk h0 d p e (pp q ctx) (Some x) (rp s b))"
    and reps: "rep h0 s h (Some x) t" "rep h0 s h (Some p) b" "repc h0 s q h ctx (Some p) root"
    and dist: "distinct (s # x # p # addrs t @ addrs b @ caddrs ctx)"
    and sent: "\<exists>n. h s = Some n \<and> rb_color n = 0"
    using z t unfolding zraw_def by auto
  define h1 where "h1 = h(p \<mapsto> mk h0 d p e (pp q ctx) (rp s t) (rp s b))"
  have ne: "rp s b \<noteq> Some x" using dist by (intro rp_neq) auto
  have side: "\<exists>l. child Lft h (Some p) = Some l \<and> (if Some x = l then Lft else Rgt) = d"
    using h(2) ne by (cases d) (auto simp: get_simps mk_sides)
  have s1: "set_child d (rp s t) h (Some p) = Some h1" using h(2) by (simp add: get_simps h1_def)
  obtain n where n: "h1 s = Some n" "rb_color n = 0" using sent dist unfolding h1_def by auto
  have t1: "rep h0 s h1 (Some x) t" "distinct (s # addrs t)" using reps(1) dist unfolding h1_def by auto
  from t1 n(1) obtain h2 where h2: "set_parent (Some p) h1 (rp s t) = Some h2" "rep h0 s h2 (Some p) t" "parent h2 (rp s t) = Some (Some p)"
    "\<forall>z. z \<notin> insert s (set (addrs t)) \<longrightarrow> h2 z = h1 z" "\<exists>n'. h2 s = Some n' \<and> rb_color n' = rb_color n"
    by (rule set_parent_sub)
  have x2: "h2 x = h x" "h2 p = h1 p" using h2(4) dist unfolding h1_def by auto
  obtain n' where h3: "rb_clear h2 (Some x) = Some (h2(x \<mapsto> n'))" "cleared (h2(x \<mapsto> n')) x" using clear_simps [of h2 x] x2 h(1) by auto
  let ?h = "h2(x \<mapsto> n')"
  have par: "parent h (Some x) = Some (Some p)" using h(1) by (simp add: get_simps)
  have run: "rb_unlink h root (Some s) (Some x) (Some x) (rp s t) = Some (h2, root)"
    using side s1 h2(1) par unfolding rb_unlink_def by auto
  have same: "?h z = h z" if "z \<notin> insert s (insert x (insert p (set (addrs t))))" for z using that h2(4) by (auto simp: h1_def)
  have "rep h0 s ?h (Some p) b" "repc h0 s q ?h ctx (Some p) root"
  proof -
    have "?h z = h z" if "z \<in> set (addrs b) \<union> set (caddrs ctx)" for z using that dist by (intro same) auto
    then show "rep h0 s ?h (Some p) b" "repc h0 s q ?h ctx (Some p) root" using reps(2,3) tree_cong [of b ?h h] repc_cong [of ctx ?h h] by auto
  qed
  moreover have "rep h0 s ?h (Some p) t" "?h p = Some (mk h0 d p e (pp q ctx) (rp s t) (rp s b))" "\<exists>n. ?h s = Some n \<and> rb_color n = 0"
    using h2(2,5) n(2) x2 dist unfolding h1_def by auto
  ultimately have "zraw h0 s q ?h t ((d, p, e, b) # ctx) root" using dist unfolding zraw_def by auto
  moreover have "parent ?h (rp s t) = Some (Some p)"
  proof -
    have "rp s t \<noteq> Some x" using dist by (intro rp_neq) auto
    then show ?thesis using h2(3) by (cases t) (auto simp: get_simps)
  qed
  moreover have "?h a = h a" if "a \<notin> insert s (set (addrs (Nd l x c r) @ caddrs ((d, p, e, b) # ctx)))" for a
    using that t by (intro same) auto
  ultimately show ?thesis using run h3 by blast
qed

text \<open>The successor is cut off from its parent.\<close>

lemma unlink_hole:
  assumes h: "h x = Some (mk h0 Lft x c pq (rp s l) (rp s (plug (Nd Lf y e t) path)))"
    and path: "repc h0 s (Some x) h path (Some y) (rp s (plug (Nd Lf y e t) path))" "\<forall>f \<in> set path. fst f = Lft"
    and dist: "distinct (s # x # y # addrs l @ addrs t @ caddrs path)"
  obtains h1 b R where "child Lft h (pp (Some x) path) = Some b" "set_child (if Some y = b then Lft else Rgt) (rp s t) h (pp (Some x) path) = Some h1"
    "repc h0 s (Some x) h1 path (rp s t) R" "h1 x = Some (mk h0 Lft x c pq (rp s l) R)"
    "\<forall>z. z \<notin> insert x (set (caddrs path)) \<longrightarrow> h1 z = h z" "path = [] \<longrightarrow> R = rp s t"
proof (cases path)
  case Nil
  have "rp s l \<noteq> Some y" using dist by (intro rp_neq) auto
  then show ?thesis using h Nil by (intro that [of "rp s l" "h(x \<mapsto> mk h0 Lft x c pq (rp s l) (rp s t))" "rp s t"])
    (simp_all add: get_simps mk_sides)
next
  case (Cons f path1)
  obtain v k b where f: "f = (Lft, v, k, b)" using path(2) Cons by (cases f) auto
  define h1 where "h1 = h(v \<mapsto> mk h0 Lft v k (pp (Some x) path1) (rp s t) (rp s b))"
  have v: "h v = Some (mk h0 Lft v k (pp (Some x) path1) (Some y) (rp s b))" using path(1) unfolding Cons f by simp
  have "repc h0 s (Some x) h1 path (rp s t) (rp s (plug (Nd Lf y e t) path))"
    using path(1) dist unfolding Cons f h1_def by simp
  moreover have "h1 x = h x" using dist unfolding Cons f h1_def by auto
  moreover have "child Lft h (pp (Some x) path) = Some (Some y)" "set_child Lft (rp s t) h (pp (Some x) path) = Some h1"
    using v unfolding Cons f h1_def by (simp_all add: get_simps mk_sides)
  moreover have "\<forall>z. z \<notin> insert x (set (caddrs path)) \<longrightarrow> h1 z = h z" unfolding Cons f h1_def by auto
  ultimately show ?thesis using that [of "Some y" h1 "rp s (plug (Nd Lf y e t) path)"] h Cons by auto
qed

text \<open>The parent of what hangs on the right of the successor is set.\<close>

lemma top_parent:
  assumes path: "repc h0 s (Some x) h path (rp s t) R" "path = [] \<longrightarrow> R = rp s t" and t: "rep h0 s h (pp (Some y) path) t"
    "parent h (rp s t) = Some (pp (Some y) path)" and dist: "distinct (s # addrs t @ caddrs path)" and s: "h s = Some n"
  obtains h' where "(if R \<noteq> Some s then set_parent (Some y) h R else Some h) = Some h'" "repc h0 s (Some y) h' path (rp s t) R"
    "rep h0 s h' (pp (Some y) path) t" "parent h' (rp s t) = Some (pp (Some y) path)"
    "\<forall>z. z \<notin> set (addrs t @ caddrs path) \<longrightarrow> h' z = h z"
proof (cases "path = []")
  case True
  show ?thesis
  proof (cases "t = Lf")
    case False
    have "distinct (s # addrs t)" using dist by simp
    from t(1) this s obtain h' where h': "set_parent (Some y) h (rp s t) = Some h'" "rep h0 s h' (Some y) t" "parent h' (rp s t) = Some (Some y)"
      "\<forall>z. z \<notin> insert s (set (addrs t)) \<longrightarrow> h' z = h z" "\<exists>n'. h' s = Some n' \<and> rb_color n' = rb_color n" "t \<noteq> Lf \<longrightarrow> h' s = h s"
      by (rule set_parent_sub)
    have "rp s t \<noteq> Some s" using False dist by (cases t) auto
    moreover have "\<forall>z. z \<notin> set (addrs t @ caddrs path) \<longrightarrow> h' z = h z" using h'(4,6) False True by auto
    ultimately show ?thesis using that [of h'] h' True path by simp
  qed (use True path t that in auto)
next
  case False
  have d: "distinct (caddrs path)" using dist by simp
  obtain v h' where v: "R = Some v" "v \<in> set (caddrs path)" "set_parent (Some y) h R = Some h'" "repc h0 s (Some y) h' path (rp s t) R"
    "\<forall>z. z \<noteq> v \<longrightarrow> h' z = h z"
    using set_parent_top [OF path(1) False d, of "Some y"] by metis
  have st: "h' z = h z" if "z \<in> insert s (set (addrs t))" for z using that v(2,5) dist by auto
  have "rep h0 s h' (pp (Some y) path) t" using t(1) st tree_cong [of t h' h] by auto
  moreover have "parent h' (rp s t) = Some (pp (Some y) path)" using t(2) st by (cases t) (auto simp: get_simps)
  moreover have "R \<noteq> Some s" using v(1,2) dist by auto
  moreover have "\<forall>z. z \<notin> set (addrs t @ caddrs path) \<longrightarrow> h' z = h z" using v(2,5) by auto
  ultimately show ?thesis using that [of h'] v(3,4) by simp
qed

lemma tree_frame: "rep h0 s h p t \<Longrightarrow> \<forall>z. z \<notin> Y \<longrightarrow> h' z = h z \<Longrightarrow> set (addrs t) \<inter> Y = {} \<Longrightarrow> rep h0 s h' p t"
  using tree_cong [of t h' h] by blast

lemma repc_frame: "repc h0 s q h ctx a root \<Longrightarrow> \<forall>z. z \<notin> Y \<longrightarrow> h' z = h z \<Longrightarrow> set (caddrs ctx) \<inter> Y = {} \<Longrightarrow> repc h0 s q h' ctx a root"
  using repc_cong [of ctx h' h] by blast

lemma distinct_plug: "distinct (addrs (plug t ctx)) \<longleftrightarrow> distinct (addrs t @ caddrs ctx)"
proof (induction ctx arbitrary: t)
  case (Cons f ctx)
  obtain d x c b where f: "f = (d, x, c, b)" by (cases f)
  show ?case unfolding f plug.simps Cons by auto
qed simp

text \<open>The successor takes the place of the node.\<close>

lemma take_place:
  assumes hx: "h x = Some (mk h0 Lft x c (pp q ctx) (rp s l) R)" and hy: "h y = Some (mk h0 Lft y e p a b)" and l: "l \<noteq> Lf" "rep h0 s h (Some x) l"
    and ctx: "repc h0 s q h ctx (Some x) root" and path: "repc h0 s (Some x) h path (rp s t) R" "path = [] \<longrightarrow> R = rp s t"
    and t: "rep h0 s h (pp (Some y) path) t" "parent h (rp s t) = Some (pp (Some y) path)" and s: "h s = Some n"
    and dist: "distinct (s # x # y # addrs l @ addrs t @ caddrs path @ caddrs ctx)"
  obtains h' root' where "rb_take_place h root (Some s) (Some x) (Some y) = Some (h', root')"
    "h' y = Some (mk h0 Rgt y c (pp q ctx) R (rp s l))" "rep h0 s h' (Some y) l" "repc h0 s q h' ctx (Some y) root'"
    "repc h0 s (Some y) h' path (rp s t) R" "rep h0 s h' (pp (Some y) path) t" "parent h' (rp s t) = Some (pp (Some y) path)"
    "\<forall>z. z \<notin> insert y (set (addrs l @ addrs t @ caddrs path @ caddrs ctx)) \<longrightarrow> h' z = h z"
proof -
  define h1 where "h1 = h(y \<mapsto> mk h0 Lft y c (pp q ctx) (rp s l) R)"
  have f1: "\<forall>z. z \<notin> {y} \<longrightarrow> h1 z = h z" and x1: "h1 x = Some (mk h0 Lft x c (pp q ctx) (rp s l) R)" using hx dist by (auto simp: h1_def)
  have "repc h0 s q h1 ctx (Some x) root" by (rule repc_frame [OF ctx f1]) (use dist in auto)
  from rb_replace_ctx [OF this x1, of Lft "Some y"] obtain h2 root' where
    h2: "rb_replace Lft h1 root (Some x) (Some y) = Some (h2, root')" "repc h0 s q h2 ctx (Some y) root'"
    and f2: "\<forall>z. z \<notin> set (caddrs ctx) \<longrightarrow> h2 z = h1 z" using dist by auto
  have f12: "\<forall>z. z \<notin> insert y (set (caddrs ctx)) \<longrightarrow> h2 z = h z" using f1 f2 by simp
  have l2: "rep h0 s h2 (Some x) l" by (rule tree_frame [OF l(2) f12]) (use dist in auto)
  have s2: "h2 s = Some n" "distinct (s # addrs l)" using f12 s dist by auto
  from l2 s2(2,1) obtain h3 where h3: "set_parent (Some y) h2 (rp s l) = Some h3" "rep h0 s h3 (Some y) l"
    and "\<forall>z. z \<notin> insert s (set (addrs l)) \<longrightarrow> h3 z = h2 z" "l \<noteq> Lf \<longrightarrow> h3 s = h2 s" by (rule set_parent_sub)
  then have f3: "\<forall>z. z \<notin> set (addrs l) \<longrightarrow> h3 z = h2 z" using l(1) by auto
  then have f13: "\<forall>z. z \<notin> insert y (set (addrs l @ caddrs ctx)) \<longrightarrow> h3 z = h z" using f12 by simp
  have p3: "repc h0 s (Some x) h3 path (rp s t) R" by (rule repc_frame [OF path(1) f13]) (use dist in auto)
  have t3: "rep h0 s h3 (pp (Some y) path) t" by (rule tree_frame [OF t(1) f13]) (use dist in auto)
  have "parent h3 (rp s t) = Some (pp (Some y) path)" using t(2) f13 dist by (cases t) (auto simp: get_simps)
  moreover have "distinct (s # addrs t @ caddrs path)" "h3 s = Some n" using dist f13 s by auto
  ultimately obtain h4 where
    h4: "(if R \<noteq> Some s then set_parent (Some y) h3 R else Some h3) = Some h4" "repc h0 s (Some y) h4 path (rp s t) R"
      "rep h0 s h4 (pp (Some y) path) t" "parent h4 (rp s t) = Some (pp (Some y) path)"
    and f4: "\<forall>z. z \<notin> set (addrs t @ caddrs path) \<longrightarrow> h4 z = h3 z" using top_parent [OF p3 path(2) t3] by metis
  have y: "h2 y = h1 y" "h3 y = h1 y" "h4 y = h1 y" using f2 f3 f4 dist by auto
  have "rp s l \<noteq> Some s" "x \<noteq> y" using l(1) dist by (cases l; auto)+
  then have "rb_take_place h root (Some s) (Some x) (Some y) = Some (h4, root')"
    using hx hy h2(1) h3(1) h4(1) y unfolding rb_take_place_def
    by (simp add: get_simps mk_sides mk_color h1_def split del: if_split)
  moreover have "h4 y = Some (mk h0 Rgt y c (pp q ctx) R (rp s l))" using y(3) mk_opp [of h0 Lft y c "pp q ctx" R "rp s l"] by (simp add: h1_def)
  moreover have "rep h0 s h4 (Some y) l" by (rule tree_frame [OF h3(2) f4]) (use dist in auto)
  moreover have "repc h0 s q h4 ctx (Some y) root'" by (rule repc_frame [OF repc_frame [OF h2(2) f3] f4]) (use dist in auto)
  moreover have "\<forall>z. z \<notin> insert y (set (addrs l @ addrs t @ caddrs path @ caddrs ctx)) \<longrightarrow> h4 z = h z" using f13 f4 by simp
  ultimately show ?thesis using that h4(2-4) by blast
qed

lemma unlink_two:
  assumes z: "zraw h0 s q h (Nd l x c (plug (Nd Lf y e t) path)) ctx root" and l: "l \<noteq> Lf" and path: "\<forall>f \<in> set path. fst f = Lft"
  shows "\<exists>h1 h' root'. rb_unlink h root (Some s) (Some x) (Some y) (rp s t) = Some (h1, root') \<and> rb_clear h1 (Some x) = Some h' \<and>
    zraw h0 s q h' t (path @ (Rgt, y, c, l) # ctx) root' \<and> parent h' (rp s t) = Some (pp (Some y) path) \<and> cleared h' x \<and>
    (\<forall>a. a \<notin> insert s (set (addrs (Nd l x c (plug (Nd Lf y e t) path)) @ caddrs ctx)) \<longrightarrow> h' a = h a)"
proof -
  let ?r = "plug (Nd Lf y e t) path"
  have hx: "h x = Some (mk h0 Lft x c (pp q ctx) (rp s l) (rp s ?r))" and rl: "rep h0 s h (Some x) l"
    and hy: "h y = Some (mk h0 Lft y e (pp (Some x) path) (Some s) (rp s t))" and rt: "rep h0 s h (Some y) t"
    and rpath: "repc h0 s (Some x) h path (Some y) (rp s ?r)" and rctx: "repc h0 s q h ctx (Some x) root"
    and sent: "\<exists>n. h s = Some n \<and> rb_color n = 0"
    using z unfolding zraw_def by (simp_all add: rep_plug)
  have r: "distinct (y # addrs t @ caddrs path)" "set (addrs ?r) = insert y (set (addrs t @ caddrs path))"
    using z distinct_plug [of "Nd Lf y e t" path] set_addrs_plug [of "Nd Lf y e t" path] by (auto simp: zraw_def)
  then have dist: "distinct (s # x # y # addrs l @ addrs t @ caddrs path @ caddrs ctx)" using z by (auto simp: zraw_def)
  then have "distinct (s # x # y # addrs l @ addrs t @ caddrs path)" by auto
  from unlink_hole [OF hx rpath path this] obtain h1 b R where
    h1: "child Lft h (pp (Some x) path) = Some b" "set_child (if Some y = b then Lft else Rgt) (rp s t) h (pp (Some x) path) = Some h1"
      "repc h0 s (Some x) h1 path (rp s t) R" "h1 x = Some (mk h0 Lft x c (pp q ctx) (rp s l) R)"
    and f1: "\<forall>z. z \<notin> insert x (set (caddrs path)) \<longrightarrow> h1 z = h z" and R: "path = [] \<longrightarrow> R = rp s t" by metis
  have new: "(if pp (Some x) path = Some x then Some y else pp (Some x) path) = pp (Some y) path"
    using dist by (cases path rule: caddrs.cases) auto
  have "h1 s = h s" using f1 dist by auto
  then obtain n where n: "h1 s = Some n" "rb_color n = 0" using sent by auto
  have t1: "rep h0 s h1 (Some y) t" "distinct (s # addrs t)" using tree_frame [OF rt f1] dist by auto
  from t1 n(1) obtain h2 where h2: "set_parent (pp (Some y) path) h1 (rp s t) = Some h2" "rep h0 s h2 (pp (Some y) path) t"
      "parent h2 (rp s t) = Some (pp (Some y) path)"
    and f2: "\<forall>z. z \<notin> insert s (set (addrs t)) \<longrightarrow> h2 z = h1 z" and s2: "\<exists>n'. h2 s = Some n' \<and> rb_color n' = rb_color n"
    by (rule set_parent_sub)
  then obtain n' where n': "h2 s = Some n'" "rb_color n' = 0" using n(2) by auto
  have xy: "h2 x = h1 x" "h2 y = h y" using f1 f2 dist by auto
  have f12: "\<forall>z. z \<notin> {s, x} \<union> set (addrs t @ caddrs path) \<longrightarrow> h2 z = h z" using f1 f2 by simp
  have l2: "rep h0 s h2 (Some x) l" by (rule tree_frame [OF rl f12]) (use dist in auto)
  have c2: "repc h0 s q h2 ctx (Some x) root" by (rule repc_frame [OF rctx f12]) (use dist in auto)
  have p2: "repc h0 s (Some x) h2 path (rp s t) R" by (rule repc_frame [OF h1(3) f2]) (use dist in auto)
  obtain h3 root' where h3: "rb_take_place h2 root (Some s) (Some x) (Some y) = Some (h3, root')"
      "h3 y = Some (mk h0 Rgt y c (pp q ctx) R (rp s l))" "rep h0 s h3 (Some y) l" "repc h0 s q h3 ctx (Some y) root'"
      "repc h0 s (Some y) h3 path (rp s t) R" "rep h0 s h3 (pp (Some y) path) t" "parent h3 (rp s t) = Some (pp (Some y) path)"
    and f3: "\<forall>z. z \<notin> insert y (set (addrs l @ addrs t @ caddrs path @ caddrs ctx)) \<longrightarrow> h3 z = h2 z"
    using take_place [OF _ _ l l2 c2 p2 R h2(2,3) n'(1) dist, of c e "pp (Some x) path" "Some s" "rp s t"] xy h1(4) hy by metis
  have "h3 x = h1 x" "h3 s = h2 s" using f3 xy dist by auto
  then obtain m where h4: "rb_clear h3 (Some x) = Some (h3(x \<mapsto> m))" "cleared (h3(x \<mapsto> m)) x" using clear_simps [of h3 x] h1(4) by auto
  have "parent h (Some y) = Some (pp (Some x) path)" "y \<noteq> x" using hy dist by (auto simp: get_simps)
  then have run: "rb_unlink h root (Some s) (Some x) (Some y) (rp s t) = Some (h3, root')"
    using h1(1,2) h2(1) h3(1) new unfolding rb_unlink_def by (simp split del: if_split)
  let ?h = "h3(x \<mapsto> m)"
  have "repc h0 s q ?h (path @ (Rgt, y, c, l) # ctx) (rp s t) root'" "rep h0 s ?h (pp q (path @ (Rgt, y, c, l) # ctx)) t"
    using h3(2-6) dist unfolding repc_append pp_append by auto
  then have "zraw h0 s q ?h t (path @ (Rgt, y, c, l) # ctx) root'" using dist n' \<open>h3 s = h2 s\<close> unfolding zraw_def by auto
  moreover have "parent ?h (rp s t) = Some (pp (Some y) path)" using h3(7) dist by (cases t) (auto simp: get_simps)
  moreover have "?h a = h a" if "a \<notin> insert s (set (addrs (Nd l x c ?r) @ caddrs ctx))" for a using that r(2) f3 f12 by simp
  ultimately show ?thesis using run h4 by blast
qed

section \<open>Deletion\<close>

lemma focus: "x \<in> set (addrs t) \<Longrightarrow> \<exists>l c r ctx. plug t ctx0 = plug (Nd l x c r) ctx"
proof (induction t arbitrary: ctx0)
  case (Nd a y c b)
  have "plug (Nd a y c b) ctx0 = plug a ((Lft, y, c, b) # ctx0)" "plug (Nd a y c b) ctx0 = plug b ((Rgt, y, c, a) # ctx0)"
    by (simp_all add: node_at_def)
  note e = this
  consider "x = y" | "x \<in> set (addrs a)" | "x \<in> set (addrs b)" using Nd.prems by auto
  then show ?case
  proof cases
    case 2
    then show ?thesis unfolding e(1) by (rule Nd.IH(1))
  next
    case 3
    then show ?thesis unfolding e(2) by (rule Nd.IH(2))
  qed blast
qed simp

lemma addrs_plug_context: "\<exists>as bs. \<forall>t. addrs (plug t ctx) = as @ addrs t @ bs"
proof (induction ctx)
  case Nil
  show ?case by (intro exI [of _ "[]"]) simp
next
  case (Cons f ctx)
  then obtain as bs where ab: "\<forall>t. addrs (plug t ctx) = as @ addrs t @ bs" by blast
  obtain d x c b where f: "f = (d, x, c, b)" by (cases f)
  show ?case
  proof (cases d)
    case Lft
    then show ?thesis unfolding f using ab by (intro exI [of _ as] exI [of _ "x # addrs b @ bs"]) (simp add: node_at_def)
  next
    case Rgt
    then show ?thesis unfolding f using ab by (intro exI [of _ "as @ addrs b @ [x]"] exI [of _ bs]) (simp add: node_at_def)
  qed
qed

lemma plug_append: "plug t (path @ ctx) = plug (plug t path) ctx"
proof (induction path arbitrary: t)
  case (Cons f path)
  then show ?case by (cases f) simp
qed simp

lemma okc_addr: "okc n r (path @ (d, x, c, b) # ctx) = okc n r (path @ (d, y, c, b) # ctx)"
  by (induction n r path rule: okc.induct) auto

lemma black_top_addr: "black_top t (path @ (d, x, c, b) # ctx) = black_top t (path @ (d, y, c, b) # ctx)"
proof (induction path)
  case (Cons f path)
  then show ?case by (cases path) auto
qed (cases ctx; simp)

lemma addrs_left_path: "\<forall>f \<in> set path. fst f = Lft \<Longrightarrow> addrs (plug t path) = addrs t @ caddrs path"
proof (induction path arbitrary: t)
  case (Cons f path)
  then show ?case by (cases f) (auto simp: node_at_def)
qed simp

lemma rbi_imp_rbi2: "rbi t \<Longrightarrow> rbi2 t"
  by (cases t) auto

lemma bh_0: "rbi t \<Longrightarrow> \<not> red t \<Longrightarrow> bh t = 0 \<Longrightarrow> t = Lf"
  by (cases t) auto

text \<open>What is left to do when a node with at most one child has been taken out.\<close>

lemma delete_finish:
  assumes z: "zraw h0 s q h t ctx root" "parent h (rp s t) = Some (pp q ctx)" and ctx: "ctx \<noteq> []" "black_top t ctx"
    and w: "rbi (Nd l y e r)" "l = Lf \<and> t = r \<or> r = Lf \<and> t = l" "okc (bh (Nd l y e r)) e ctx"
  shows "fixed h (set (addrs t @ caddrs ctx)) s q (addrs (plug t ctx)) (if e then Some (h, root) else rb_delete_fix h root (Some s) (rp s t))"
proof -
  let ?X = "set (addrs t @ caddrs ctx)"
  have zip: "zip_ok h ?X s q h t ctx root" using zraw_self [OF z(1)] by (intro zraw_zip) (auto simp: zraw_def)
  show ?thesis
  proof (cases e)
    case True
    then have "t = Lf" "bh (Nd l y e r) = 0" using w(1,2) bh_0 by auto
    then have "rbi (plug t ctx)" using okc_False [OF w(3)] unfolding plug_rbi by simp
    moreover have "\<not> red (plug t ctx)" unfolding red_plug by (rule ctx(2))
    ultimately show ?thesis using True iffD1 [OF zip_plug, OF zip] unfolding fixed_def by auto
  next
    case False
    have "rbi2 t" "Suc (bh t) = bh (Nd l y e r)" using w(1,2) False rbi_imp_rbi2 by auto
    then have "lacks t ctx" using w(3) False ctx by (simp add: lacks_def)
    moreover have "temp_ok h ?X s q h t ctx root" using zip z(2) by (auto simp: temp_ok_def)
    ultimately show ?thesis using delete_fix False by simp
  qed
qed

text \<open>The root has at most one child, which becomes the root.\<close>

lemma delete_root:
  assumes z: "zraw h0 s q h (Nd l x c r) [] root" and t: "rbi (Nd l x c r)" "l = Lf \<and> t = r \<or> r = Lf \<and> t = l"
  shows "\<exists>h1 h' t'. set_color 0 h (rp s t) = Some h1 \<and> rb_clear h1 (Some x) = Some h' \<and> zraw h0 s (Some x) h' t' [] (rp s t) \<and>
    rbi t' \<and> \<not> red t' \<and> addrs t' = addrs t \<and> cleared h' x \<and> (\<forall>a. a \<notin> insert s (set (addrs (Nd l x c r))) \<longrightarrow> h' a = h a)"
proof (cases t)
  case Lf
  obtain n where n: "h s = Some n" "rb_color n = 0" using z by (auto simp: zraw_def)
  have x: "h x \<noteq> None" "s \<noteq> x" using z by (auto simp: zraw_def)
  obtain n' where "rb_clear (h(s \<mapsto> n\<lparr>rb_color := 0\<rparr>)) (Some x) = Some (h(s \<mapsto> n\<lparr>rb_color := 0\<rparr>, x \<mapsto> n'))"
      "cleared (h(s \<mapsto> n\<lparr>rb_color := 0\<rparr>, x \<mapsto> n')) x"
    using clear_simps [of "h(s \<mapsto> n\<lparr>rb_color := 0\<rparr>)" x] x by auto
  moreover have "zraw h0 s (Some x) (h(s \<mapsto> n\<lparr>rb_color := 0\<rparr>, x \<mapsto> n')) Lf [] (Some s)" using x by (auto simp: zraw_def)
  ultimately show ?thesis using Lf n by (auto simp: get_simps intro!: exI [of _ Lf])
next
  case (Nd a y e b)
  have hy: "h y = Some (mk h0 Lft y e (Some x) (rp s a) (rp s b))" and x: "h x \<noteq> None"
    and ab: "rep h0 s h (Some y) a" "rep h0 s h (Some y) b" and dist: "distinct (s # x # y # addrs a @ addrs b)"
    and sent: "\<exists>n. h s = Some n \<and> rb_color n = 0"
    using z t(2) unfolding Nd zraw_def by auto
  define h1 where "h1 = h(y \<mapsto> mk h0 Lft y False (Some x) (rp s a) (rp s b))"
  obtain n' where n': "rb_clear h1 (Some x) = Some (h1(x \<mapsto> n'))" "cleared (h1(x \<mapsto> n')) x" using clear_simps [of h1 x] x dist by (auto simp: h1_def)
  have "set_color 0 h (rp s t) = Some h1" using hy mk_color [of False h0 Lft y e "Some x" "rp s a" "rp s b"] unfolding Nd by (simp add: get_simps h1_def)
  moreover have "zraw h0 s (Some x) (h1(x \<mapsto> n')) (Nd a y False b) [] (rp s t)"
    using ab dist sent unfolding Nd zraw_def h1_def by auto
  moreover have "rbi (Nd a y False b)" using t unfolding Nd by auto
  moreover have "\<forall>z. z \<notin> insert s (set (addrs (Nd l x c r))) \<longrightarrow> (h1(x \<mapsto> n')) z = h z" using t(2) unfolding Nd h1_def by auto
  ultimately show ?thesis using n' unfolding Nd by (intro exI [of _ h1] exI [of _ "h1(x \<mapsto> n')"] exI [of _ "Nd a y False b"]) simp
qed

text \<open>The result of a deletion.\<close>

definition deleted :: "rb_store \<Rightarrow> addr \<Rightarrow> rtree \<Rightarrow> addr \<Rightarrow> (rb_store \<times> ptr) option \<Rightarrow> bool" where
  "deleted h s t x r \<longleftrightarrow> (\<exists>h' root t' q. r = Some (h', root) \<and> zraw h s q h' t' [] root \<and> rbi t' \<and> \<not> red t' \<and>
     addrs t' = remove1 x (addrs t) \<and> cleared h' x \<and> (\<forall>a. a \<notin> insert s (set (addrs t)) \<longrightarrow> h' a = h a))"

lemma zraw_refocus: "zraw h0 s q h t ((d, x, c, b) # ctx) root \<longleftrightarrow> zraw h0 s q h (node_at d x c t b) ctx root"
  unfolding zraw_def by auto

lemma zraw_plug: "zraw h0 s q h t ctx root \<longleftrightarrow> zraw h0 s q h (plug t ctx) [] root"
proof (induction ctx arbitrary: t)
  case (Cons f ctx)
  obtain d x c b where f: "f = (d, x, c, b)" by (cases f)
  show ?case unfolding f zraw_refocus plug.simps by (rule Cons)
qed simp

lemma rep_info:
  "rep h0 s h p t \<Longrightarrow> x \<in> set (addrs t) \<Longrightarrow> rb_key (the (h x)) = rb_key (the (h0 x)) \<and> rb_data (the (h x)) = rb_data (the (h0 x))"
  by (induction t arbitrary: p) (auto simp: mk_def)

lemma rep_rebase:
  assumes "rep h1 s h p t" "\<And>a. a \<in> set (addrs t) \<Longrightarrow> rb_key (the (h1 a)) = rb_key (the (h0 a)) \<and> rb_data (the (h1 a)) = rb_data (the (h0 a))"
  shows "rep h0 s h p t"
  using assms by (induction t arbitrary: p) (simp_all add: mk_def)

lemma deleted_fixed:
  assumes f: "fixed h1 X s q as r" and z: "zraw h s q h1 t1 ctx1 root1" and as: "as = addrs (plug t1 ctx1)" "as = remove1 x (addrs t)"
    and X: "X \<subseteq> set (addrs t)" "x \<notin> X" "cleared h1 x" and fr: "\<forall>a. a \<notin> insert s (set (addrs t)) \<longrightarrow> h1 a = h a"
  shows "deleted h s t x r"
proof -
  obtain h' root t' where r: "r = Some (h', root)" "zip_ok h1 X s q h' t' [] root" "rbi t'" "\<not> red t'" "addrs t' = as"
    using f unfolding fixed_def by blast
  have "zraw h s q h1 (plug t1 ctx1) [] root1" using z zraw_plug by blast
  then have "rb_key (the (h1 a)) = rb_key (the (h a)) \<and> rb_data (the (h1 a)) = rb_data (the (h a))" if "a \<in> set (addrs t')" for a
    using rep_info [of h s h1 q "plug t1 ctx1" a] that r(5) as(1) by (auto simp: zraw_def)
  then have "zraw h s q h' t' [] root" using r(2) rep_rebase [of h1 s h' q t' h] by (auto simp: zip_defs)
  moreover have "\<forall>a. a \<notin> insert s (set (addrs t)) \<longrightarrow> h' a = h a" using r(2) X fr by (auto simp: zip_ok_def)
  moreover have "cleared h' x" using r(2) X(2,3) by (simp add: zip_ok_def cleared_def)
  ultimately show ?thesis using r as(2) unfolding deleted_def by blast
qed

definition rb_delete_after :: "rb_store \<Rightarrow> ptr \<Rightarrow> ptr \<Rightarrow> ptr \<Rightarrow> ptr \<Rightarrow> ptr \<Rightarrow> (rb_store \<times> ptr) option" where
  "rb_delete_after h root sentinel node subst temp = do {
     red \<leftarrow> color h subst;
     (h, root) \<leftarrow> rb_unlink h root sentinel node subst temp;
     h \<leftarrow> rb_clear h node;
     (if red \<noteq> 0 then Some (h, root) else rb_delete_fix h root sentinel temp)
   }"

lemma delete_one:
  assumes z: "zraw h s q h (Nd l x c r) ctx root" and ctx: "ctx \<noteq> []" and rb: "rbi (plug (Nd l x c r) ctx)" "\<not> red (plug (Nd l x c r) ctx)"
    and t: "l = Lf \<and> t = r \<or> r = Lf \<and> t = l"
  shows "deleted h s (plug (Nd l x c r) ctx) x (rb_delete_after h root (Some s) (Some x) (Some x) (rp s t))"
proof -
  obtain d p e b ctx1 where cx: "ctx = (d, p, e, b) # ctx1" using ctx by (cases ctx) auto
  obtain h1 h2 where u: "rb_unlink h root (Some s) (Some x) (Some x) (rp s t) = Some (h1, root)" "rb_clear h1 (Some x) = Some h2"
    "zraw h s q h2 t ctx root" "parent h2 (rp s t) = Some (pp q ctx)" "cleared h2 x"
    "\<forall>a. a \<notin> insert s (set (addrs (Nd l x c r) @ caddrs ctx)) \<longrightarrow> h2 a = h a"
    using unlink_one [OF z [unfolded cx] t] unfolding cx by auto
  have top: "black_top t ctx" using rb(2) black_top_frames [OF ctx] unfolding red_plug by blast
  have w: "rbi (Nd l x c r)" "okc (bh (Nd l x c r)) c ctx" using rb(1) unfolding plug_rbi by auto
  have f: "fixed h2 (set (addrs t @ caddrs ctx)) s q (addrs (plug t ctx)) (if c then Some (h2, root) else rb_delete_fix h2 root (Some s) (rp s t))"
    by (rule delete_finish [OF u(3,4) ctx top w(1) t w(2)])
  have "color h (Some x) = Some (of_bool c)" using z by (simp add: zraw_def get_simps)
  then have run: "rb_delete_after h root (Some s) (Some x) (Some x) (rp s t) = (if c then Some (h2, root) else rb_delete_fix h2 root (Some s) (rp s t))"
    using u(1,2) by (simp add: rb_delete_after_def)
  have as: "addrs (plug t ctx) = remove1 x (addrs (plug (Nd l x c r) ctx))"
  proof -
    obtain as bs where ab: "\<forall>t. addrs (plug t ctx) = as @ addrs t @ bs" using addrs_plug_context by blast
    have "distinct (addrs (plug (Nd l x c r) ctx))" using z unfolding distinct_plug by (simp add: zraw_def)
    then have "x \<notin> set as" "x \<notin> set (addrs l)" using ab by auto
    then show ?thesis using ab t by (auto simp: remove1_append)
  qed
  show ?thesis unfolding run
    using t u(5,6) z set_addrs_plug [of "Nd l x c r" ctx] by (intro deleted_fixed [OF f u(3) refl as]) (auto simp: zraw_def)
qed

lemma delete_two:
  assumes z: "zraw h s q h (Nd l x c (plug (Nd Lf y e t) path)) ctx root" and l: "l \<noteq> Lf" and path: "\<forall>f \<in> set path. fst f = Lft"
    and rb: "rbi (plug (Nd l x c (plug (Nd Lf y e t) path)) ctx)" "\<not> red (plug (Nd l x c (plug (Nd Lf y e t) path)) ctx)"
  shows "deleted h s (plug (Nd l x c (plug (Nd Lf y e t) path)) ctx) x (rb_delete_after h root (Some s) (Some x) (Some y) (rp s t))"
proof -
  let ?t0 = "plug (Nd l x c (plug (Nd Lf y e t) path)) ctx" and ?cx = "path @ (Rgt, y, c, l) # ctx" and ?cy = "path @ (Rgt, x, c, l) # ctx"
  have pl: "?t0 = plug (Nd Lf y e t) ?cy" by (simp add: plug_append node_at_def)
  obtain h1 h2 root2 where u: "rb_unlink h root (Some s) (Some x) (Some y) (rp s t) = Some (h1, root2)" "rb_clear h1 (Some x) = Some h2"
    "zraw h s q h2 t ?cx root2" "parent h2 (rp s t) = Some (pp q ?cx)" "cleared h2 x"
    "\<forall>a. a \<notin> insert s (set (addrs (Nd l x c (plug (Nd Lf y e t) path)) @ caddrs ctx)) \<longrightarrow> h2 a = h a"
    using unlink_two [OF z l path] unfolding pp_append pp.simps by blast
  have top: "black_top t ?cx"
    using rb(2) black_top_frames [of ?cy t "Nd Lf y e t"] black_top_addr [of t path Rgt x c l ctx y] unfolding pl red_plug by simp
  have w: "rbi (Nd Lf y e t)" "okc (bh (Nd Lf y e t)) e ?cx"
    using rb(1) okc_addr [of "bh (Nd Lf y e t)" e path Rgt x c l ctx y] unfolding pl plug_rbi by auto
  have f: "fixed h2 (set (addrs t @ caddrs ?cx)) s q (addrs (plug t ?cx)) (if e then Some (h2, root2) else rb_delete_fix h2 root2 (Some s) (rp s t))"
    by (rule delete_finish [OF u(3,4) _ top w(1) _ w(2)]) simp_all
  have "rep h s h (pp (Some x) path) (Nd Lf y e t)" using z by (simp add: zraw_def rep_plug)
  then have "color h (Some y) = Some (of_bool e)" by (simp add: get_simps)
  then have run: "rb_delete_after h root (Some s) (Some x) (Some y) (rp s t) = (if e then Some (h2, root2) else rb_delete_fix h2 root2 (Some s) (rp s t))"
    using u(1,2) by (simp add: rb_delete_after_def)
  have as: "addrs (plug t ?cx) = remove1 x (addrs ?t0)"
  proof -
    obtain as bs where ab: "\<forall>t. addrs (plug t ctx) = as @ addrs t @ bs" using addrs_plug_context by blast
    have "distinct (addrs ?t0)" using z unfolding distinct_plug by (simp add: zraw_def)
    then have "x \<notin> set as" "x \<notin> set (addrs l)" using ab by auto
    then show ?thesis using ab path by (simp add: plug_append node_at_def addrs_left_path remove1_append)
  qed
  show ?thesis unfolding run
    using u(5,6) z set_addrs_plug [of "Nd l x c (plug (Nd Lf y e t) path)" ctx] set_addrs_plug [of "Nd Lf y e t" path]
    by (intro deleted_fixed [OF f u(3) refl as]) (auto simp: zraw_def)
qed

lemma rp_sentinel: "s \<notin> set (addrs t) \<Longrightarrow> rp s t = Some s \<longleftrightarrow> t = Lf"
  by (cases t) auto

lemma root_in: "zraw h0 s q h t ctx root \<Longrightarrow> t \<noteq> Lf \<Longrightarrow> \<exists>y. root = Some y \<and> (if ctx = [] then root = rp s t else y \<in> set (caddrs ctx))"
  using repc_root [of h0 s q h ctx "rp s t" root] by (cases t; cases "ctx = []") (auto simp: zraw_def)

definition rb_delete_from :: "rb_store \<Rightarrow> ptr \<Rightarrow> ptr \<Rightarrow> ptr \<Rightarrow> (rb_store \<times> ptr) option" where
  "rb_delete_from h root sentinel node = do {
     (temp, subst) \<leftarrow> rb_subst h sentinel node;
     (if subst = root then do { h \<leftarrow> set_color 0 h temp; h \<leftarrow> rb_clear h node; Some (h, temp) }
      else rb_delete_after h root sentinel node subst temp)
   }"

lemma ngx_rbtree_delete_from:
  "ngx_rbtree_delete h tree node =
   map_option (\<lambda>(h, root). (h, tree\<lparr>rbt_root := root\<rparr>)) (rb_delete_from h (rbt_root tree) (rbt_sentinel tree) node)"
  by (auto simp: ngx_rbtree_delete_def rb_delete_from_def rb_delete_after_def Let_def split: Option.bind_split)

lemma rep_kids:
  "rep h0 s h p (Nd l x c r) \<Longrightarrow> child Lft h (Some x) = Some (rp s l)"
  "rep h0 s h p (Nd l x c r) \<Longrightarrow> child Rgt h (Some x) = Some (rp s r)"
  by (simp_all add: get_simps mk_def)

lemma zraw_kids:
  assumes "zraw h0 s q h (Nd l x c r) ctx root"
  shows "child Lft h (Some x) = Some (rp s l)" "child Rgt h (Some x) = Some (rp s r)" "rep h0 s h (Some x) r"
    "s \<notin> set (addrs l)" "s \<notin> set (addrs r)"
  using assms rep_kids [of h0 s h _ l x c r] by (auto simp: zraw_def)

lemma delete_at:
  assumes z: "zraw h s q h (Nd l x c r) ctx root" and rb: "rbi (plug (Nd l x c r) ctx)" "\<not> red (plug (Nd l x c r) ctx)"
  shows "deleted h s (plug (Nd l x c r) ctx) x (rb_delete_from h root (Some s) (Some x))"
proof (cases "l = Lf \<or> r = Lf")
  case True
  define t where "t = (if l = Lf then r else l)"
  have t: "l = Lf \<and> t = r \<or> r = Lf \<and> t = l" using True by (auto simp: t_def)
  note k = zraw_kids [OF z]
  have sub: "rb_subst h (Some s) (Some x) = Some (rp s t, Some x)"
    using k rp_sentinel [of s l] rp_sentinel [of s r] True by (auto simp: rb_subst_def t_def)
  show ?thesis
  proof (cases "ctx = []")
    case c: True
    have root: "root = Some x" using z c by (simp add: zraw_def)
    have w: "rbi (Nd l x c r)" "x \<notin> set (addrs l)" "x \<notin> set (addrs t)" using rb c z t by (auto simp: zraw_def)
    obtain h1 h' t' where *: "set_color 0 h (rp s t) = Some h1" "rb_clear h1 (Some x) = Some h'" "zraw h s (Some x) h' t' [] (rp s t)"
      "rbi t'" "\<not> red t'" "addrs t' = addrs t" "cleared h' x" "\<forall>a. a \<notin> insert s (set (addrs (Nd l x c r))) \<longrightarrow> h' a = h a"
      using delete_root [OF z [unfolded c] w(1) t] by blast
    have "addrs t = remove1 x (addrs (Nd l x c r))" using t w(2) by (auto simp: remove1_append)
    then show ?thesis using * sub root c unfolding deleted_def rb_delete_from_def by auto
  next
    case False
    obtain y where "root = Some y" "y \<in> set (caddrs ctx)" using root_in [OF z] False by auto
    then have "root \<noteq> Some x" using z by (auto simp: zraw_def)
    then show ?thesis using delete_one [OF z False rb t] sub unfolding rb_delete_from_def by auto
  qed
next
  case False
  note k = zraw_kids [OF z]
  obtain y e b path where y: "r = plug (Nd Lf y e b) path" "\<forall>f \<in> set path. fst f = Lft" "ngx_rbtree_min h (rp s r) (Some s) = Some (Some y)"
      "addrs r = y # addrs b @ caddrs path"
    using rb_min [OF k(3) _ k(5)] False by auto
  have "rep h s h (pp (Some x) path) (Nd Lf y e b)" using k(3) unfolding y(1) by (simp add: rep_plug)
  from rep_kids [OF this] have "child Lft h (Some y) = Some (Some s)" "child Rgt h (Some y) = Some (rp s b)" by simp_all
  then have sub: "rb_subst h (Some s) (Some x) = Some (rp s b, Some y)"
    using k y(3) rp_sentinel [of s l] rp_sentinel [of s r] False by (auto simp: rb_subst_def)
  obtain m where "root = Some m" "if ctx = [] then root = Some x else m \<in> set (caddrs ctx)" using root_in [OF z] by auto
  then have "root \<noteq> Some y" using z y(4) by (cases "ctx = []") (auto simp: zraw_def)
  then show ?thesis using delete_two [OF z [unfolded y(1)] _ y(2)] rb False sub unfolding rb_delete_from_def y(1) by auto
qed

lemma delete_rbtree:
  assumes "rbtree h tree t" "rbt_sentinel tree = Some s" "x \<in> set (addrs t)"
  obtains h' root' t' where "ngx_rbtree_delete h tree (Some x) = Some (h', tree\<lparr>rbt_root := root'\<rparr>)"
    "rbtree h' (tree\<lparr>rbt_root := root'\<rparr>) t'" "addrs t' = remove1 x (addrs t)" "cleared h' x"
    "\<forall>a. a \<notin> insert s (set (addrs t)) \<longrightarrow> h' a = h a" "\<forall>a \<in> set (addrs t'). key_of h' a = key_of h a"
proof -
  obtain q where z: "zraw h s q h t [] (rbt_root tree)" and rb: "rbi t" "\<not> red t" using assms(1,2) by (auto simp: rbtree_def)
  obtain l c r ctx where f: "t = plug (Nd l x c r) ctx" using focus [OF assms(3), of "[]"] by auto
  have z1: "zraw h s q h (Nd l x c r) ctx (rbt_root tree)"
    using z zraw_plug [of h s q h "Nd l x c r" ctx "rbt_root tree"] unfolding f by blast
  have "deleted h s t x (rb_delete_from h (rbt_root tree) (Some s) (Some x))"
    using delete_at [OF z1] rb unfolding f by blast
  then obtain h' root' t' q' where *: "rb_delete_from h (rbt_root tree) (Some s) (Some x) = Some (h', root')" "zraw h s q' h' t' [] root'" "rbi t'"
    "\<not> red t'" "addrs t' = remove1 x (addrs t)" "cleared h' x" "\<forall>a. a \<notin> insert s (set (addrs t)) \<longrightarrow> h' a = h a"
    unfolding deleted_def by blast
  have "ngx_rbtree_delete h tree (Some x) = Some (h', tree\<lparr>rbt_root := root'\<rparr>)"
    unfolding ngx_rbtree_delete_from assms(2) *(1) by simp
  moreover have "rbtree h' (tree\<lparr>rbt_root := root'\<rparr>) t'" using *(2-4) assms(2) zraw_self [OF *(2)] by (auto simp: rbtree_def)
  moreover have "\<forall>a \<in> set (addrs t'). key_of h' a = key_of h a" using *(2) rep_key [of h s h' q' t'] by (auto simp: zraw_def)
  ultimately show ?thesis using that *(5-7) by blast
qed

end
