(* ===== verification/Ngx_Rbtree_Order.thy ===== *)
theory Ngx_Rbtree_Order
  imports Ngx_Rbtree_Delete
begin

text \<open>
  The order of the keys. The trees of src/core/ngx_rbtree.c are searched with one of two comparisons: \<open>ngx_rbtree_insert_value\<close> compares
  unsigned numbers, \<open>ngx_rbtree_insert_timer_value\<close> the sign of the difference, which orders keys that are close to each
  other although they wrap around. \<open>key_order\<close> is what the tree needs of a comparison: it is the order of a rank.
\<close>

section \<open>Sorted trees\<close>

definition ordered :: "(u64 \<Rightarrow> int) \<Rightarrow> (u64 \<Rightarrow> bool) \<Rightarrow> rb_store \<Rightarrow> addr list \<Rightarrow> bool" where
  "ordered rank valid h as \<longleftrightarrow> sorted (map (\<lambda>a. rank (key_of h a)) as) \<and> (\<forall>a \<in> set as. valid (key_of h a))"

lemma ordered_cong: "(\<And>a. a \<in> set as \<Longrightarrow> key_of h' a = key_of h a) \<Longrightarrow> ordered rank valid h' as = ordered rank valid h as"
  unfolding ordered_def by (auto cong: map_cong)

lemma set_place: "set (place B x ys) = insert x (set ys)"
  by (induction ys) (auto simp: place_def)

lemma sorted_place: "sorted (map f ys) \<Longrightarrow> sorted (map f (place (\<lambda>y. f x < f y) x ys))"
proof (induction ys)
  case (Cons y ys)
  have "\<forall>z \<in> set (place (\<lambda>y. f x < f y) x ys). f y \<le> f z" if "\<not> f x < f y" using Cons.prems that by (auto simp: set_place)
  then show ?case using Cons by (cases "f x < f y") (auto simp: place_def)
qed (simp add: place_def)

locale key_order =
  fixes before :: "u64 \<Rightarrow> u64 \<Rightarrow> bool" and rank :: "u64 \<Rightarrow> int" and valid :: "u64 \<Rightarrow> bool"
  assumes before_rank: "valid a \<Longrightarrow> valid b \<Longrightarrow> before a b \<longleftrightarrow> rank a < rank b"
begin

lemma insert_ordered:
  assumes "rbtree h tree t" "rbt_insert tree = rb_insert_with before" "ordered rank valid h (addrs t)"
    and x: "rbt_sentinel tree \<noteq> Some x" "x \<notin> set (addrs t)" "h x = Some n" "valid (rb_key n)"
  obtains h' root' t' where "ngx_rbtree_insert h tree (Some x) = Some (h', tree\<lparr>rbt_root := root'\<rparr>)"
    "rbtree h' (tree\<lparr>rbt_root := root'\<rparr>) t'" "addrs t' = place (\<lambda>y. rank (rb_key n) < rank (key_of h y)) x (addrs t)"
    "ordered rank valid h' (addrs t')" "\<forall>a. a \<notin> insert x (set (addrs t)) \<longrightarrow> h' a = h a"
    "\<forall>a \<in> insert x (set (addrs t)). key_of h' a = key_of h a"
proof -
  let ?B = "\<lambda>y. before (rb_key n) (key_of h y)" and ?R = "\<lambda>y. rank (rb_key n) < rank (key_of h y)"
  obtain s where s: "rbt_sentinel tree = Some s" using assms(1) by (auto simp: rbtree_def)
  obtain h' root' t' where r: "ngx_rbtree_insert h tree (Some x) = Some (h', tree\<lparr>rbt_root := root'\<rparr>)"
    "rbtree h' (tree\<lparr>rbt_root := root'\<rparr>) t'" "addrs t' = addrs (tins ?B x t)"
    "\<forall>a. a \<notin> insert x (set (addrs t)) \<longrightarrow> h' a = h a" "\<forall>a \<in> insert x (set (addrs t)). key_of h' a = key_of h a"
    using insert_rbtree [OF assms(1) s _ x(3) assms(2)] x(1,2) s by auto
  have B: "?B y = ?R y" if "y \<in> set (addrs t)" for y using that assms(3) x(4) by (auto simp: ordered_def before_rank)
  have srt: "sorted_wrt (\<lambda>y z. rank (key_of h y) \<le> rank (key_of h z)) (addrs t)" using assms(3) by (simp add: ordered_def sorted_map)
  have "sorted_wrt (\<lambda>y z. ?B y \<longrightarrow> ?B z) (addrs t)" by (rule sorted_wrt_mono_rel [OF _ srt]) (auto simp: B)
  then have "addrs t' = place ?B x (addrs t)" using r(3) addrs_tins by simp
  also have "\<dots> = place ?R x (addrs t)" using B takeWhile_cong [of "addrs t" "addrs t" "\<lambda>y. \<not> ?B y" "\<lambda>y. \<not> ?R y"]
      dropWhile_cong [of "addrs t" "addrs t" "\<lambda>y. \<not> ?B y" "\<lambda>y. \<not> ?R y"] unfolding place_def by simp
  finally have p: "addrs t' = place ?R x (addrs t)" .
  have kx: "key_of h x = rb_key n" using x(3) by (simp add: key_of_def)
  have "sorted (map (\<lambda>a. rank (key_of h a)) (addrs t'))"
    using sorted_place [of "\<lambda>a. rank (key_of h a)" "addrs t" x] assms(3) unfolding p kx ordered_def by blast
  then have "ordered rank valid h (addrs t')" using assms(3) x(4) kx unfolding ordered_def p set_place by auto
  then have "ordered rank valid h' (addrs t')" using r(5) ordered_cong [of "addrs t'" h' h rank valid] by (auto simp: p set_place)
  then show ?thesis using that r(1,2,4,5) p by blast
qed

end

lemma delete_ordered:
  assumes "rbtree h tree t" "rbt_sentinel tree = Some s" "x \<in> set (addrs t)" "ordered rank valid h (addrs t)"
  obtains h' root' t' where "ngx_rbtree_delete h tree (Some x) = Some (h', tree\<lparr>rbt_root := root'\<rparr>)"
    "rbtree h' (tree\<lparr>rbt_root := root'\<rparr>) t'" "addrs t' = remove1 x (addrs t)" "ordered rank valid h' (addrs t')" "cleared h' x"
    "\<forall>a. a \<notin> insert s (set (addrs t)) \<longrightarrow> h' a = h a" "\<forall>a \<in> set (addrs t'). key_of h' a = key_of h a"
proof -
  obtain h' root' t' where r: "ngx_rbtree_delete h tree (Some x) = Some (h', tree\<lparr>rbt_root := root'\<rparr>)"
    "rbtree h' (tree\<lparr>rbt_root := root'\<rparr>) t'" "addrs t' = remove1 x (addrs t)" "cleared h' x"
    "\<forall>a. a \<notin> insert s (set (addrs t)) \<longrightarrow> h' a = h a" "\<forall>a \<in> set (addrs t'). key_of h' a = key_of h a"
    using assms(1-3) by (rule delete_rbtree)
  have "ordered rank valid h (addrs t')"
    using assms(4) set_remove1_subset [of x "addrs t"] unfolding r(3) ordered_def by (auto intro: sorted_map_remove1)
  then have "ordered rank valid h' (addrs t')" using r(6) ordered_cong [of "addrs t'" h' h] by blast
  then show ?thesis using that r by blast
qed

text \<open>The first node of a tree is the one that \<open>ngx_rbtree_min\<close> finds.\<close>

lemma min_rbtree:
  assumes "rbtree h tree t" "t \<noteq> Lf"
  shows "ngx_rbtree_min h (rbt_root tree) (rbt_sentinel tree) = Some (Some (hd (addrs t)))" "hd (addrs t) \<in> set (addrs t)"
proof -
  obtain s q where z: "rbt_sentinel tree = Some s" "rep h s h q t" "rbt_root tree = rp s t" "s \<notin> set (addrs t)"
    using assms(1) by (auto simp: rbtree_def zraw_def)
  show "ngx_rbtree_min h (rbt_root tree) (rbt_sentinel tree) = Some (Some (hd (addrs t)))"
    using rb_min [OF z(2) assms(2) z(4)] z(1,3) by auto
  show "hd (addrs t) \<in> set (addrs t)" using assms(2) by (cases t) (auto simp: hd_append)
qed

lemma rbtree_empty: "rbtree h tree t \<Longrightarrow> rbt_root tree = rbt_sentinel tree \<longleftrightarrow> t = Lf"
  by (cases t) (auto simp: rbtree_def zraw_def)

lemma tree_node: "rep h0 s h p t \<Longrightarrow> x \<in> set (addrs t) \<Longrightarrow> h x \<noteq> None"
  by (induction t arbitrary: p) auto

lemma rbtree_node: "rbtree h tree t \<Longrightarrow> x \<in> set (addrs t) \<Longrightarrow> h x \<noteq> None"
  using tree_node by (auto simp: rbtree_def zraw_def)

lemma rbtree_frame:
  assumes "rbtree h tree t" "rbt_sentinel tree = Some s" "\<And>a. a \<in> insert s (set (addrs t)) \<Longrightarrow> h' a = h a"
  shows "rbtree h' tree t"
proof -
  obtain q where z: "zraw h s q h t [] (rbt_root tree)" using assms(1,2) by (auto simp: rbtree_def)
  then have "zraw h s q h' t [] (rbt_root tree)" using assms(3) tree_cong [of t h' h h s q] by (simp add: zraw_def)
  from zraw_self [OF this] show ?thesis using assms(1,2) by (auto simp: rbtree_def)
qed

section \<open>The comparisons\<close>

interpretation ulong: key_order "(<)" uint "\<lambda>_. True"
  by unfold_locales (simp add: word_less_def)

text \<open>The time of a key counted from the moment \<open>b\<close>.\<close>

definition since :: "u64 \<Rightarrow> u64 \<Rightarrow> int" where
  "since b k = sint (k - b)"

definition near :: "u64 \<Rightarrow> u64 \<Rightarrow> bool" where
  "near b k \<longleftrightarrow> - (2 ^ 62) \<le> since b k \<and> since b k < 2 ^ 62"

lemma sint_diff:
  fixes u v :: u64
  assumes "- (2 ^ 63) \<le> sint u - sint v" "sint u - sint v < 2 ^ 63"
  shows "sint (u - v) = sint u - sint v"
  using assms by (simp add: sint_word_ariths signed_take_bit_int_eq_self)

lemma since_diff: "near b k \<Longrightarrow> near b m \<Longrightarrow> since m k = since b k - since b m"
  using sint_diff [of "k - b" "m - b"] by (simp add: near_def since_def)

interpretation timer: key_order timer_less "since b" "near b" for b
proof
  fix k m assume "near b k" "near b m"
  from since_diff [OF this] show "timer_less k m \<longleftrightarrow> since b k < since b m"
    by (simp add: timer_less_def word_sless_alt since_def)
qed

section \<open>The height\<close>

primrec height :: "rtree \<Rightarrow> nat" where
  "height Lf = 0"
| "height (Nd a x c b) = Suc (max (height a) (height b))"

lemma height_bh: "rbi t \<Longrightarrow> height t \<le> 2 * bh t + of_bool (red t)"
proof (induction t)
  case (Nd a x c b)
  then show ?case by (cases c; cases "red a"; cases "red b") auto
qed simp

lemma bh_length: "rbi t \<Longrightarrow> 2 ^ bh t \<le> Suc (length (addrs t))"
  by (induction t) auto

text \<open>The path from the root to any node has at most \<open>2 * log\<^sub>2 (n + 1)\<close> nodes in a tree with \<open>n\<close> nodes.\<close>

lemma rbtree_height:
  assumes "rbtree h tree t"
  shows "2 ^ (height t div 2) \<le> length (addrs t) + 1"
proof -
  have t: "rbi t" "\<not> red t" using assms by (auto simp: rbtree_def)
  have "height t div 2 \<le> bh t" using height_bh [OF t(1)] t(2) by simp
  then have "(2::nat) ^ (height t div 2) \<le> 2 ^ bh t" by (intro power_increasing) simp_all
  then show ?thesis using bh_length [OF t(1)] by linarith
qed

section \<open>Properties\<close>

text \<open>
  C12: Insertion with the order of the keys. A node that is not in the tree is inserted without an access through NULL or
  outside the nodes; the result is again a balanced tree of nodes that point to each other consistently, has the nodes of
  the tree and the new one, which is behind those with a key that is not greater, and the keys are still sorted. Only the nodes
  of the tree and the new node are written.
\<close>
theorem ngx_rbtree_insert_sorted:
  assumes "rbtree h tree t" "rbt_insert tree = ngx_rbtree_insert_value" "sorted (map (key_of h) (addrs t))"
    "rbt_sentinel tree \<noteq> Some x" "x \<notin> set (addrs t)" "h x = Some n"
  shows "\<exists>h' root' t'. ngx_rbtree_insert h tree (Some x) = Some (h', tree\<lparr>rbt_root := root'\<rparr>) \<and>
    rbtree h' (tree\<lparr>rbt_root := root'\<rparr>) t' \<and> sorted (map (key_of h') (addrs t')) \<and>
    addrs t' = takeWhile (\<lambda>y. key_of h y \<le> rb_key n) (addrs t) @ x # dropWhile (\<lambda>y. key_of h y \<le> rb_key n) (addrs t) \<and>
    (\<forall>a. a \<notin> insert x (set (addrs t)) \<longrightarrow> h' a = h a)"
proof -
  have o: "ordered uint (\<lambda>_. True) g as \<longleftrightarrow> sorted (map (key_of g) as)" for g as
    by (simp add: ordered_def sorted_map word_le_def)
  have "ordered uint (\<lambda>_. True) h (addrs t)" using assms(3) unfolding o .
  from ulong.insert_ordered [OF assms(1) assms(2) [unfolded ngx_rbtree_insert_value_def] this assms(4-6) TrueI]
  obtain h' root' t' where r: "ngx_rbtree_insert h tree (Some x) = Some (h', tree\<lparr>rbt_root := root'\<rparr>)"
    "rbtree h' (tree\<lparr>rbt_root := root'\<rparr>) t'" "addrs t' = place (\<lambda>y. uint (rb_key n) < uint (key_of h y)) x (addrs t)"
    "ordered uint (\<lambda>_. True) h' (addrs t')" "\<forall>a. a \<notin> insert x (set (addrs t)) \<longrightarrow> h' a = h a" .
  have "addrs t' = takeWhile (\<lambda>y. key_of h y \<le> rb_key n) (addrs t) @ x # dropWhile (\<lambda>y. key_of h y \<le> rb_key n) (addrs t)"
    unfolding r(3) place_def not_less word_le_def [symmetric] by (rule refl)
  then show ?thesis using r(1,2,5) r(4) [unfolded o] by blast
qed

definition rb_node :: "u64 \<Rightarrow> addr \<Rightarrow> addr \<Rightarrow> ptr \<Rightarrow> byte \<Rightarrow> ngx_rbtree_node_t" where
  "rb_node k l r p c = \<lparr>rb_key = k, rb_left = Some l, rb_right = Some r, rb_parent = p, rb_color = c, rb_data = 0\<rparr>"

text \<open>Two nodes, with the keys 5 and 7, a new node with key 5 and the sentinel at address 0.\<close>

definition store3 :: "rb_store" where
  "store3 = [0 \<mapsto> rb_node 0 0 0 None 0, 1 \<mapsto> rb_node 5 0 2 None 0, 2 \<mapsto> rb_node 7 0 0 (Some 1) 1, 3 \<mapsto> rb_node 5 0 0 None 0]"

definition tree3 :: "(rb_store \<Rightarrow> ptr \<Rightarrow> ptr \<Rightarrow> ptr \<Rightarrow> rb_store option) \<Rightarrow> ngx_rbtree_t" where
  "tree3 i = \<lparr>rbt_root = Some 1, rbt_sentinel = Some 0, rbt_insert = i\<rparr>"

lemma rbtree3: "rbtree store3 (tree3 i) (Nd Lf 1 False (Nd Lf 2 True Lf))"
  by (simp add: rbtree_def zraw_def tree3_def store3_def mk_def rb_node_def)

theorem ngx_rbtree_insert_sorted_witness:
  "\<exists>h' root' t'. ngx_rbtree_insert store3 (tree3 ngx_rbtree_insert_value) (Some 3) = Some (h', (tree3 ngx_rbtree_insert_value)\<lparr>rbt_root := root'\<rparr>) \<and>
    addrs t' = [1, 3, 2] \<and> sorted (map (key_of h') [1, 3, 2])"
  using ngx_rbtree_insert_sorted [OF rbtree3 [of ngx_rbtree_insert_value], of 3 "rb_node 5 0 0 None 0"]
  by (auto simp: tree3_def store3_def key_of_def rb_node_def)

text \<open>
  C13: Deletion. A node of the tree is deleted without an access through NULL or outside the nodes; the result is a
  balanced tree of consistent nodes with the other nodes in the same order and with the same keys, and the links and the
  key of the deleted node are cleared. Nothing but the nodes of the
  tree and the sentinel is written.
\<close>
theorem ngx_rbtree_delete_removes:
  assumes "rbtree h tree t" "rbt_sentinel tree = Some s" "x \<in> set (addrs t)"
  shows "\<exists>h' root' t'. ngx_rbtree_delete h tree (Some x) = Some (h', tree\<lparr>rbt_root := root'\<rparr>) \<and>
    rbtree h' (tree\<lparr>rbt_root := root'\<rparr>) t' \<and> addrs t' = remove1 x (addrs t) \<and> cleared h' x \<and>
    (\<forall>a \<in> set (addrs t'). key_of h' a = key_of h a) \<and> (\<forall>a. a \<notin> insert s (set (addrs t)) \<longrightarrow> h' a = h a)"
proof -
  from assms obtain h' root' t' where "ngx_rbtree_delete h tree (Some x) = Some (h', tree\<lparr>rbt_root := root'\<rparr>)"
    "rbtree h' (tree\<lparr>rbt_root := root'\<rparr>) t'" "addrs t' = remove1 x (addrs t)" "cleared h' x"
    "\<forall>a. a \<notin> insert s (set (addrs t)) \<longrightarrow> h' a = h a" "\<forall>a \<in> set (addrs t'). key_of h' a = key_of h a" by (rule delete_rbtree)
  then show ?thesis by blast
qed

theorem ngx_rbtree_delete_removes_witness:
  "\<exists>h' root' t'. ngx_rbtree_delete store3 (tree3 ngx_rbtree_insert_value) (Some 1) = Some (h', (tree3 ngx_rbtree_insert_value)\<lparr>rbt_root := root'\<rparr>) \<and>
    addrs t' = [2] \<and> key_of h' 2 = 7"
proof -
  have "rbt_sentinel (tree3 ngx_rbtree_insert_value) = Some 0" "1 \<in> set (addrs (Nd Lf 1 False (Nd Lf 2 True Lf)))" by (simp_all add: tree3_def)
  from ngx_rbtree_delete_removes [OF rbtree3 this] obtain h' root' t' where
    "ngx_rbtree_delete store3 (tree3 ngx_rbtree_insert_value) (Some 1) = Some (h', (tree3 ngx_rbtree_insert_value)\<lparr>rbt_root := root'\<rparr>)"
    "addrs t' = [2]" "\<forall>a \<in> set (addrs t'). key_of h' a = key_of store3 a" by auto
  moreover from this have "key_of h' 2 = 7" by (simp add: key_of_def store3_def rb_node_def)
  ultimately show ?thesis by blast
qed

end
