(* ===== verification/Ngx_Event_Timer.thy ===== *)
theory Ngx_Event_Timer
  imports Ngx_Rbtree_Order
begin

text \<open>
  The timers of src/event/ngx_event_timer.c and .h: a red-black tree of the events that have a timer, in the order of the time at
  which they expire. The node of an event is part of it (\<open>ev->timer\<close>), so both have the same address here. The
  globals \<open>ngx_event_timer_rbtree\<close>, \<open>ngx_event_timer_sentinel\<close> and \<open>ngx_current_msec\<close> are in the state. The handler of
  an event is a parameter. The build has no threads.
\<close>

section \<open>The model\<close>

record ngx_event_t =
  timer_set :: bool
  timedout :: bool

record timers =
  nodes :: rb_store
  events :: "addr \<rightharpoonup> ngx_event_t"
  ngx_event_timer_rbtree :: ngx_rbtree_t
  ngx_event_timer_sentinel :: addr
  ngx_current_msec :: u64

text \<open>What else the program has in its memory, and the handlers may change, is in an extension of the record.\<close>

abbreviation (input) NGX_TIMER_INFINITE :: u64 where "NGX_TIMER_INFINITE \<equiv> - 1"

abbreviation (input) NGX_TIMER_LAZY_DELAY :: u64 where "NGX_TIMER_LAZY_DELAY \<equiv> 300"

definition ngx_event_timer_init :: "'z timers_scheme \<Rightarrow> (ngx_int_t \<times> 'z timers_scheme) option" where
  "ngx_event_timer_init st = do {
     (h, tree) \<leftarrow> ngx_rbtree_init (nodes st) (Some (ngx_event_timer_sentinel st)) ngx_rbtree_insert_timer_value;
     Some (NGX_OK, st\<lparr>nodes := h, ngx_event_timer_rbtree := tree\<rparr>)
   }"

definition ngx_event_find_timer :: "'z timers_scheme \<Rightarrow> u64 option" where
  "ngx_event_find_timer st =
     (let tree = ngx_event_timer_rbtree st
      in if rbt_root tree = Some (ngx_event_timer_sentinel st) then Some NGX_TIMER_INFINITE
         else do {
           node \<leftarrow> ngx_rbtree_min (nodes st) (rbt_root tree) (rbt_sentinel tree);
           k \<leftarrow> key (nodes st) node;
           let timer = k - ngx_current_msec st;
           Some (if 0 <s timer then timer else 0)
         })"

definition update_event :: "(ngx_event_t \<Rightarrow> ngx_event_t) \<Rightarrow> addr \<Rightarrow> 'z timers_scheme \<Rightarrow> 'z timers_scheme option" where
  "update_event f ev st = do { e \<leftarrow> events st ev; Some (st\<lparr>events := (events st)(ev \<mapsto> f e)\<rparr>) }"

definition ngx_event_del_timer :: "addr \<Rightarrow> 'z timers_scheme \<Rightarrow> 'z timers_scheme option" where
  "ngx_event_del_timer ev st = do {
     (h, tree) \<leftarrow> ngx_rbtree_delete (nodes st) (ngx_event_timer_rbtree st) (Some ev);
     update_event (timer_set_update (\<lambda>_. False)) ev (st\<lparr>nodes := h, ngx_event_timer_rbtree := tree\<rparr>)
   }"

definition set_key :: "u64 \<Rightarrow> rb_store \<Rightarrow> ptr \<Rightarrow> rb_store option" where
  "set_key k = rb_put (rb_key_update (\<lambda>_. k))"

definition ngx_abs :: "u64 \<Rightarrow> u64" where
  "ngx_abs v = (if 0 \<le>s v then v else - v)"

definition ngx_event_add_timer :: "addr \<Rightarrow> u64 \<Rightarrow> 'z timers_scheme \<Rightarrow> 'z timers_scheme option" where
  "ngx_event_add_timer ev timer st = do {
     e \<leftarrow> events st ev;
     let k = ngx_current_msec st + timer;
     lazy \<leftarrow> (if timer_set e
              then do { old \<leftarrow> key (nodes st) (Some ev); Some (ngx_abs (k - old) <s NGX_TIMER_LAZY_DELAY) }
              else Some False);
     (if lazy then Some st
      else do {
        st \<leftarrow> (if timer_set e then ngx_event_del_timer ev st else Some st);
        h \<leftarrow> set_key k (nodes st) (Some ev);
        (h, tree) \<leftarrow> ngx_rbtree_insert h (ngx_event_timer_rbtree st) (Some ev);
        update_event (timer_set_update (\<lambda>_. True)) ev (st\<lparr>nodes := h, ngx_event_timer_rbtree := tree\<rparr>)
      })
   }"

partial_function (option) ngx_event_expire_timers :: "(addr \<Rightarrow> 'z timers_scheme \<Rightarrow> 'z timers_scheme option) \<Rightarrow> 'z timers_scheme \<Rightarrow> 'z timers_scheme option" where
  "ngx_event_expire_timers handler st =
     (let tree = ngx_event_timer_rbtree st
      in if rbt_root tree = rbt_sentinel tree then Some st
         else do {
           node \<leftarrow> ngx_rbtree_min (nodes st) (rbt_root tree) (rbt_sentinel tree);
           k \<leftarrow> key (nodes st) node;
           (if k - ngx_current_msec st \<le>s 0 then do {
              ev \<leftarrow> node;
              (h, tree) \<leftarrow> ngx_rbtree_delete (nodes st) tree node;
              st \<leftarrow> update_event (\<lambda>e. e\<lparr>timer_set := False, timedout := True\<rparr>) ev (st\<lparr>nodes := h, ngx_event_timer_rbtree := tree\<rparr>);
              st \<leftarrow> handler ev st;
              ngx_event_expire_timers handler st
            } else Some st)
         })"

section \<open>The invariant\<close>

text \<open>The events that have a timer, and the time that is left.\<close>

definition armed :: "'z timers_scheme \<Rightarrow> addr set" where
  "armed st = {a. \<exists>e. events st a = Some e \<and> timer_set e}"

definition left_of :: "'z timers_scheme \<Rightarrow> addr \<Rightarrow> int" where
  "left_of st a = since (ngx_current_msec st) (key_of (nodes st) a)"

text \<open>
  The tree holds the events with a timer. Every event has a node, which is not the sentinel, and no timer is more than \<open>2\<^sup>6\<^sup>2\<close>
  milliseconds away.
\<close>

definition timers_rep :: "'z timers_scheme \<Rightarrow> rtree \<Rightarrow> bool" where
  "timers_rep st t \<longleftrightarrow> rbtree (nodes st) (ngx_event_timer_rbtree st) t \<and>
     rbt_sentinel (ngx_event_timer_rbtree st) = Some (ngx_event_timer_sentinel st) \<and>
     rbt_insert (ngx_event_timer_rbtree st) = ngx_rbtree_insert_timer_value \<and>
     ordered (since (ngx_current_msec st)) (near (ngx_current_msec st)) (nodes st) (addrs t) \<and>
     set (addrs t) = armed st \<and> (\<forall>a \<in> dom (events st). a \<noteq> ngx_event_timer_sentinel st \<and> nodes st a \<noteq> None)"

definition timers_ok :: "'z timers_scheme \<Rightarrow> bool" where
  "timers_ok st \<longleftrightarrow> (\<exists>t. timers_rep st t)"

lemma rep_event: "timers_rep st t \<Longrightarrow> a \<in> dom (events st) \<Longrightarrow> a \<noteq> ngx_event_timer_sentinel st \<and> nodes st a \<noteq> None"
  by (simp add: timers_rep_def)

lemma armed_upd: "armed (st\<lparr>nodes := h, ngx_event_timer_rbtree := tree, events := (events st)(a \<mapsto> e)\<rparr>) = (if timer_set e then insert a (armed st) else armed st - {a})"
  by (auto simp: armed_def)

text \<open>The timer of an event is taken out of the tree.\<close>

definition drop_timer :: "(ngx_event_t \<Rightarrow> ngx_event_t) \<Rightarrow> addr \<Rightarrow> 'z timers_scheme \<Rightarrow> 'z timers_scheme option" where
  "drop_timer f a st = do {
     (h, tree) \<leftarrow> ngx_rbtree_delete (nodes st) (ngx_event_timer_rbtree st) (Some a);
     update_event f a (st\<lparr>nodes := h, ngx_event_timer_rbtree := tree\<rparr>)
   }"

lemma clear_set: "\<not> timer_set (e\<lparr>timer_set := False\<rparr>)" "\<not> timer_set (e\<lparr>timer_set := False, timedout := True\<rparr>)"
  by simp_all

lemma drop_timer:
  assumes ok: "timers_ok st" and a: "a \<in> armed st" and f: "\<And>e. \<not> timer_set (f e)"
  obtains st' where "drop_timer f a st = Some st'" "timers_ok st'" "armed st' = armed st - {a}" "\<forall>b \<in> armed st'. left_of st' b = left_of st b"
    "\<exists>e. events st a = Some e \<and> events st' = (events st)(a \<mapsto> f e)" "ngx_current_msec st' = ngx_current_msec st" "timers.more st' = timers.more st"
proof -
  obtain t where t: "timers_rep st t" using ok by (auto simp: timers_ok_def)
  let ?s = "ngx_event_timer_sentinel st" and ?tree = "ngx_event_timer_rbtree st"
  have p: "rbtree (nodes st) ?tree t" "rbt_sentinel ?tree = Some ?s" "a \<in> set (addrs t)"
    "ordered (since (ngx_current_msec st)) (near (ngx_current_msec st)) (nodes st) (addrs t)" using t a by (auto simp: timers_rep_def)
  then obtain h' root' t' where r: "ngx_rbtree_delete (nodes st) ?tree (Some a) = Some (h', ?tree\<lparr>rbt_root := root'\<rparr>)"
    "rbtree h' (?tree\<lparr>rbt_root := root'\<rparr>) t'" "addrs t' = remove1 a (addrs t)"
    "ordered (since (ngx_current_msec st)) (near (ngx_current_msec st)) h' (addrs t')" "cleared h' a"
    "\<forall>b. b \<notin> insert ?s (set (addrs t)) \<longrightarrow> h' b = nodes st b" "\<forall>b \<in> set (addrs t'). key_of h' b = key_of (nodes st) b"
    by (rule delete_ordered)
  obtain e where e: "events st a = Some e" using a by (auto simp: armed_def)
  define st' where "st' = st\<lparr>nodes := h', ngx_event_timer_rbtree := ?tree\<lparr>rbt_root := root'\<rparr>, events := (events st)(a \<mapsto> f e)\<rparr>"
  have arm: "armed st' = armed st - {a}" unfolding st'_def armed_upd using f by simp
  have dst: "distinct (addrs t)" using p(1) by (auto simp: rbtree_def zraw_def)
  then have set': "set (addrs t') = armed st'" using r(3) arm t by (simp add: timers_rep_def)
  have "h' b \<noteq> None" if "b \<in> dom (events st)" for b
  proof (cases "b \<in> set (addrs t')")
    case True
    then show ?thesis using rbtree_node [OF r(2)] by auto
  next
    case False
    then have "b = a \<or> b \<notin> set (addrs t)" using r(3) dst by auto
    then show ?thesis using r(5,6) rep_event [OF t that] by (auto simp: cleared_def)
  qed
  then have "timers_rep st' t'" using r(2,4) t set' e by (auto simp: timers_rep_def st'_def)
  moreover have "drop_timer f a st = Some st'" using r(1) e by (simp add: drop_timer_def update_event_def st'_def)
  moreover have "\<forall>b \<in> armed st'. left_of st' b = left_of st b" using r(7) set' by (auto simp: left_of_def st'_def)
  moreover have "\<exists>e. events st a = Some e \<and> events st' = (events st)(a \<mapsto> f e)" "ngx_current_msec st' = ngx_current_msec st" "timers.more st' = timers.more st"
    using e by (auto simp: st'_def)
  ultimately show ?thesis using that arm by (auto simp: timers_ok_def)
qed

lemma del_timer:
  assumes "timers_ok st" "a \<in> armed st"
  obtains st' where "ngx_event_del_timer a st = Some st'" "timers_ok st'" "armed st' = armed st - {a}" "\<forall>b \<in> armed st'. left_of st' b = left_of st b"
    "dom (events st') = dom (events st)" "ngx_current_msec st' = ngx_current_msec st"
proof -
  have e: "drop_timer (timer_set_update (\<lambda>_. False)) a st = ngx_event_del_timer a st" by (simp add: drop_timer_def ngx_event_del_timer_def)
  obtain st' where d: "drop_timer (timer_set_update (\<lambda>_. False)) a st = Some st'" "timers_ok st'" "armed st' = armed st - {a}"
    "\<forall>b \<in> armed st'. left_of st' b = left_of st b" "\<exists>x. events st a = Some x \<and> events st' = (events st)(a \<mapsto> x\<lparr>timer_set := False\<rparr>)"
    "ngx_current_msec st' = ngx_current_msec st" "timers.more st' = timers.more st"
    by (rule drop_timer [OF assms clear_set(1)])
  then have "dom (events st') = dom (events st)" by (auto split: if_splits)
  then show ?thesis using that d(1-4,6) unfolding e by blast
qed

text \<open>A timer is put into the tree.\<close>

lemma put_timer:
  assumes ok: "timers_ok st" and a: "a \<in> dom (events st)" "a \<notin> armed st" and k: "near (ngx_current_msec st) k"
  obtains h h' tree' st' where "set_key k (nodes st) (Some a) = Some h" "ngx_rbtree_insert h (ngx_event_timer_rbtree st) (Some a) = Some (h', tree')"
    "update_event (timer_set_update (\<lambda>_. True)) a (st\<lparr>nodes := h', ngx_event_timer_rbtree := tree'\<rparr>) = Some st'"
    "timers_ok st'" "armed st' = insert a (armed st)" "left_of st' a = since (ngx_current_msec st) k" "\<forall>b \<in> armed st. left_of st' b = left_of st b"
    "dom (events st') = dom (events st)" "ngx_current_msec st' = ngx_current_msec st"
proof -
  obtain t where t: "timers_rep st t" using ok by (auto simp: timers_ok_def)
  let ?s = "ngx_event_timer_sentinel st" and ?tree = "ngx_event_timer_rbtree st" and ?now = "ngx_current_msec st"
  obtain e n where e: "events st a = Some e" and n: "nodes st a = Some n" "a \<noteq> ?s" using rep_event [OF t a(1)] a(1) by auto
  define h where "h = (nodes st)(a \<mapsto> n\<lparr>rb_key := k\<rparr>)"
  have at: "a \<notin> set (addrs t)" using a(2) t by (simp add: timers_rep_def)
  have same: "h b = nodes st b" if "b \<in> insert ?s (set (addrs t))" for b using that at n(2) by (auto simp: h_def)
  have "rbtree (nodes st) ?tree t" "rbt_sentinel ?tree = Some ?s" using t by (simp_all add: timers_rep_def)
  from rbtree_frame [OF this same] have "rbtree h ?tree t" .
  moreover have "rbt_insert ?tree = rb_insert_with timer_less" "rbt_sentinel ?tree \<noteq> Some a" "h a = Some (n\<lparr>rb_key := k\<rparr>)"
    using t n(2) by (auto simp: timers_rep_def ngx_rbtree_insert_timer_value_def h_def)
  ultimately have tree: "rbtree h ?tree t" "rbt_insert ?tree = rb_insert_with timer_less" "rbt_sentinel ?tree \<noteq> Some a" "h a = Some (n\<lparr>rb_key := k\<rparr>)"
    by blast+
  have "key_of h b = key_of (nodes st) b" if "b \<in> set (addrs t)" for b using that same by (simp add: key_of_def)
  then have ord: "ordered (since ?now) (near ?now) h (addrs t)" "\<forall>b \<in> set (addrs t). key_of h b = key_of (nodes st) b"
    using t ordered_cong [of "addrs t" h "nodes st"] by (auto simp: timers_rep_def)
  have "near ?now (rb_key (n\<lparr>rb_key := k\<rparr>))" using k by simp
  with tree(1,2) ord(1) tree(3) at tree(4)
  obtain h' root' t' where r: "ngx_rbtree_insert h ?tree (Some a) = Some (h', ?tree\<lparr>rbt_root := root'\<rparr>)"
    "rbtree h' (?tree\<lparr>rbt_root := root'\<rparr>) t'"
    "addrs t' = place (\<lambda>y. since ?now (rb_key (n\<lparr>rb_key := k\<rparr>)) < since ?now (key_of h y)) a (addrs t)"
    "ordered (since ?now) (near ?now) h' (addrs t')" "\<forall>b. b \<notin> insert a (set (addrs t)) \<longrightarrow> h' b = h b"
    "\<forall>b \<in> insert a (set (addrs t)). key_of h' b = key_of h b" by (rule timer.insert_ordered)
  define st' where "st' = st\<lparr>nodes := h', ngx_event_timer_rbtree := ?tree\<lparr>rbt_root := root'\<rparr>, events := (events st)(a \<mapsto> e\<lparr>timer_set := True\<rparr>)\<rparr>"
  have arm: "armed st' = insert a (armed st)" "set (addrs t') = armed st'"
    unfolding r(3) set_place st'_def armed_upd using t by (simp_all add: timers_rep_def)
  have "h' b \<noteq> None" if "b \<in> dom (events st)" for b
    using rbtree_node [OF r(2), of b] r(5) rep_event [OF t that] unfolding r(3) set_place by (cases "b \<in> insert a (set (addrs t))") (auto simp: h_def)
  then have "timers_rep st' t'" using r(2,4) t arm(2) e by (auto simp: timers_rep_def st'_def)
  then have "timers_ok st'" by (auto simp: timers_ok_def)
  moreover have "set_key k (nodes st) (Some a) = Some h" using n(1) by (simp add: set_key_def rb_put_def h_def)
  moreover have "update_event (timer_set_update (\<lambda>_. True)) a (st\<lparr>nodes := h', ngx_event_timer_rbtree := ?tree\<lparr>rbt_root := root'\<rparr>\<rparr>) = Some st'"
    using e by (simp add: update_event_def st'_def)
  moreover have "left_of st' a = since ?now k" "\<forall>b \<in> armed st. left_of st' b = left_of st b"
    using r(6) ord(2) tree(4) t by (auto simp: left_of_def st'_def key_of_def timers_rep_def)
  moreover have "dom (events st') = dom (events st)" "ngx_current_msec st' = ngx_current_msec st" using e by (auto simp: st'_def)
  ultimately show ?thesis using that r(1) arm(1) by blast
qed

lemma since_add:
  assumes "timer < 2 ^ 62"
  shows "since b (b + timer) = uint timer" "near b (b + timer)"
proof -
  have t: "0 \<le> uint timer" "uint timer < 4611686018427387904" using assms by (simp_all add: word_less_alt)
  then have "signed_take_bit 63 (uint timer) = uint timer" by (intro signed_take_bit_int_eq_self; auto intro: order.trans [where b = 0])
  then show "since b (b + timer) = uint timer" by (simp add: since_def sint_uint)
  then show "near b (b + timer)" unfolding near_def using t by (auto intro: order.trans [where b = 0])
qed

lemma lazy_iff:
  assumes "near b k" "near b old" "since b k \<ge> 0"
  shows "ngx_abs (k - old) <s 300 \<longleftrightarrow> \<bar>since b k - since b old\<bar> < 300"
proof -
  have d: "sint (k - old) = since b k - since b old" using since_diff [OF assms(1,2)] by (simp add: since_def)
  have "sint (- (k - old)) = - sint (k - old)"
    using assms d sint_diff [of 0 "k - old"] by (simp add: near_def)
  then show ?thesis using d by (simp add: ngx_abs_def word_sless_alt word_sle_eq)
qed

lemma rep_left: "timers_rep st t \<Longrightarrow> a \<in> armed st \<Longrightarrow> near (ngx_current_msec st) (key_of (nodes st) a)"
  by (auto simp: timers_rep_def ordered_def)

lemma key_node: "nodes st a \<noteq> None \<Longrightarrow> key (nodes st) (Some a) = Some (key_of (nodes st) a)"
  by (auto simp: get_simps key_of_def)

lemma add_timer:
  assumes ok: "timers_ok st" and a: "a \<in> dom (events st)" and timer: "timer < 2 ^ 62"
  obtains st' where "ngx_event_add_timer a timer st = Some st'" "timers_ok st'" "armed st' = insert a (armed st)"
    "\<bar>left_of st' a - uint timer\<bar> < 300" "a \<notin> armed st \<longrightarrow> left_of st' a = uint timer"
    "\<forall>b \<in> armed st - {a}. left_of st' b = left_of st b" "dom (events st') = dom (events st)" "ngx_current_msec st' = ngx_current_msec st"
proof -
  let ?now = "ngx_current_msec st"
  obtain t where t: "timers_rep st t" using ok by (auto simp: timers_ok_def)
  obtain e where e: "events st a = Some e" using a by auto
  have since: "since ?now (?now + timer) = uint timer" and k: "near ?now (?now + timer)" using since_add [OF timer] by blast+
  show ?thesis
  proof (cases "a \<in> armed st")
    case False
    then have "\<not> timer_set e" using e by (auto simp: armed_def)
    moreover obtain h h' tree' st' where p: "set_key (?now + timer) (nodes st) (Some a) = Some h" "ngx_rbtree_insert h (ngx_event_timer_rbtree st) (Some a) = Some (h', tree')"
        "update_event (timer_set_update (\<lambda>_. True)) a (st\<lparr>nodes := h', ngx_event_timer_rbtree := tree'\<rparr>) = Some st'"
        "timers_ok st'" "armed st' = insert a (armed st)" "left_of st' a = since ?now (?now + timer)" "\<forall>b \<in> armed st. left_of st' b = left_of st b"
        "dom (events st') = dom (events st)" "ngx_current_msec st' = ?now"
      by (rule put_timer [OF ok a False k])
    ultimately have "ngx_event_add_timer a timer st = Some st'" using e by (simp add: ngx_event_add_timer_def)
    then show ?thesis using that p since by simp
  next
    case True
    then have set: "timer_set e" using e by (auto simp: armed_def)
    have key: "key (nodes st) (Some a) = Some (key_of (nodes st) a)" using rep_event [OF t a] by (simp add: key_node)
    have lazy: "ngx_abs (?now + timer - key_of (nodes st) a) <s 300 \<longleftrightarrow> \<bar>uint timer - left_of st a\<bar> < 300"
      using lazy_iff [OF k rep_left [OF t True]] since by (simp add: left_of_def)
    show ?thesis
    proof (cases "\<bar>uint timer - left_of st a\<bar> < 300")
      case l: True
      then have "ngx_event_add_timer a timer st = Some st" using e set key lazy by (simp add: ngx_event_add_timer_def)
      moreover have "armed st = insert a (armed st)" "\<bar>left_of st a - uint timer\<bar> < 300" using True l by auto
      ultimately show ?thesis using that ok True by blast
    next
      case l: False
      from ok True obtain st1 where s1: "ngx_event_del_timer a st = Some st1" "timers_ok st1" "armed st1 = armed st - {a}"
          "\<forall>b \<in> armed st1. left_of st1 b = left_of st b" "dom (events st1) = dom (events st)" "ngx_current_msec st1 = ?now"
        by (rule del_timer)
      have "a \<in> dom (events st1)" "a \<notin> armed st1" "near (ngx_current_msec st1) (?now + timer)" using s1 a k by auto
      from put_timer [OF s1(2) this]
      obtain h h' tree' st' where p: "set_key (?now + timer) (nodes st1) (Some a) = Some h" "ngx_rbtree_insert h (ngx_event_timer_rbtree st1) (Some a) = Some (h', tree')"
        "update_event (timer_set_update (\<lambda>_. True)) a (st1\<lparr>nodes := h', ngx_event_timer_rbtree := tree'\<rparr>) = Some st'"
        "timers_ok st'" "armed st' = insert a (armed st1)" "left_of st' a = since (ngx_current_msec st1) (?now + timer)" "\<forall>b \<in> armed st1. left_of st' b = left_of st1 b"
        "dom (events st') = dom (events st1)" "ngx_current_msec st' = ngx_current_msec st1" .
      have "ngx_event_add_timer a timer st = Some st'" using e set key lazy l s1(1) p(1-3) by (simp add: ngx_event_add_timer_def)
      then show ?thesis using that p s1 since True by auto
    qed
  qed
qed

lemma ok_min:
  assumes "timers_rep st t" "t \<noteq> Lf"
  obtains a where "ngx_rbtree_min (nodes st) (rbt_root (ngx_event_timer_rbtree st)) (rbt_sentinel (ngx_event_timer_rbtree st)) = Some (Some a)"
    "a \<in> armed st" "\<forall>b \<in> armed st. left_of st a \<le> left_of st b" "key (nodes st) (Some a) = Some (key_of (nodes st) a)"
proof -
  note m = min_rbtree [of "nodes st" "ngx_event_timer_rbtree st" t]
  have a: "hd (addrs t) \<in> armed st" using assms m(2) by (simp add: timers_rep_def)
  have "addrs t = hd (addrs t) # tl (addrs t)" using assms(2) by (cases t) auto
  then have "\<forall>b \<in> armed st. left_of st (hd (addrs t)) \<le> left_of st b"
    using assms(1) unfolding timers_rep_def ordered_def left_of_def by (metis (no_types, lifting) list.simps(9) set_ConsD sorted_simps(2) order_refl imageI list.set_map)
  moreover have "key (nodes st) (Some (hd (addrs t))) = Some (key_of (nodes st) (hd (addrs t)))"
    using a rep_event [OF assms(1), of "hd (addrs t)"] by (intro key_node) (auto simp: armed_def)
  ultimately show ?thesis using that m(1) assms a by (auto simp: timers_rep_def)
qed

lemma ok_empty: "timers_rep st t \<Longrightarrow> t = Lf \<longleftrightarrow> armed st = {}"
  by (cases t) (auto simp: timers_rep_def)

lemma ok_root: "timers_rep st t \<Longrightarrow> rbt_root (ngx_event_timer_rbtree st) = rbt_sentinel (ngx_event_timer_rbtree st) \<longleftrightarrow> t = Lf"
  by (rule rbtree_empty [of "nodes st"]) (simp add: timers_rep_def)

section \<open>Expiry\<close>

definition expired :: "'z timers_scheme \<Rightarrow> addr set" where
  "expired st = {a \<in> armed st. left_of st a \<le> 0}"

lemma finite_armed: "timers_ok st \<Longrightarrow> finite (armed st)"
  by (metis timers_ok_def timers_rep_def List.finite_set)

lemma expire_step:
  assumes ok: "timers_ok st"
  shows "expired st = {} \<Longrightarrow> ngx_event_expire_timers handler st = Some st"
    and "expired st \<noteq> {} \<Longrightarrow> \<exists>a \<in> expired st. (\<forall>b \<in> armed st. left_of st a \<le> left_of st b) \<and>
      ngx_event_expire_timers handler st = do {
        st \<leftarrow> drop_timer (\<lambda>e. e\<lparr>timer_set := False, timedout := True\<rparr>) a st;
        st \<leftarrow> handler a st;
        ngx_event_expire_timers handler st }"
proof -
  obtain t where t: "timers_rep st t" using ok by (auto simp: timers_ok_def)
  let ?f = "\<lambda>e. e\<lparr>timer_set := False, timedout := True\<rparr>"
  have "armed st \<noteq> {} \<Longrightarrow> \<exists>a \<in> armed st. (\<forall>b \<in> armed st. left_of st a \<le> left_of st b) \<and>
    ngx_event_expire_timers handler st =
    (if left_of st a \<le> 0 then do { st \<leftarrow> drop_timer ?f a st; st \<leftarrow> handler a st; ngx_event_expire_timers handler st } else Some st)"
  proof -
    assume "armed st \<noteq> {}"
    then have "t \<noteq> Lf" using ok_empty [OF t] by simp
    then obtain a where a: "ngx_rbtree_min (nodes st) (rbt_root (ngx_event_timer_rbtree st)) (rbt_sentinel (ngx_event_timer_rbtree st)) = Some (Some a)"
      "a \<in> armed st" "\<forall>b \<in> armed st. left_of st a \<le> left_of st b" "key (nodes st) (Some a) = Some (key_of (nodes st) a)"
      by (rule ok_min [OF t])
    have "ngx_event_expire_timers handler st =
      (if left_of st a \<le> 0 then do { st \<leftarrow> drop_timer ?f a st; st \<leftarrow> handler a st; ngx_event_expire_timers handler st } else Some st)"
      using a(1,4) ok_root [OF t] \<open>t \<noteq> Lf\<close>
      by (subst ngx_event_expire_timers.simps) (simp add: drop_timer_def left_of_def since_def word_sle_eq split_def)
    then show ?thesis using a(2,3) by blast
  qed
  note step = this
  show "ngx_event_expire_timers handler st = Some st" if "expired st = {}"
  proof (cases "armed st = {}")
    case True
    then have "t = Lf" using ok_empty [OF t] by simp
    then show ?thesis using ok_root [OF t] by (subst ngx_event_expire_timers.simps) simp
  next
    case False
    then show ?thesis using step that by (auto simp: expired_def)
  qed
  show "\<exists>a \<in> expired st. (\<forall>b \<in> armed st. left_of st a \<le> left_of st b) \<and>
    ngx_event_expire_timers handler st = do { st \<leftarrow> drop_timer ?f a st; st \<leftarrow> handler a st; ngx_event_expire_timers handler st }"
    if ne: "expired st \<noteq> {}"
  proof -
    obtain b where b: "b \<in> armed st" "left_of st b \<le> 0" using ne by (auto simp: expired_def)
    then obtain a where "a \<in> armed st" "\<forall>b \<in> armed st. left_of st a \<le> left_of st b"
      "ngx_event_expire_timers handler st =
       (if left_of st a \<le> 0 then do { st \<leftarrow> drop_timer ?f a st; st \<leftarrow> handler a st; ngx_event_expire_timers handler st } else Some st)"
      using step by blast
    moreover from this b have "left_of st a \<le> 0" by (meson order.trans)
    ultimately show ?thesis by (auto simp: expired_def)
  qed
qed

text \<open>
  A handler may do whatever keeps the timers consistent, but it arms no timer that has already expired.
\<close>

definition handler_ok :: "(addr \<Rightarrow> 'z timers_scheme \<Rightarrow> 'z timers_scheme option) \<Rightarrow> bool" where
  "handler_ok handler \<longleftrightarrow> (\<forall>a st. timers_ok st \<and> a \<in> dom (events st) - armed st \<longrightarrow>
     (\<exists>st'. handler a st = Some st' \<and> timers_ok st' \<and> expired st' \<subseteq> expired st \<and> ngx_current_msec st' = ngx_current_msec st))"

lemma expire_ok:
  assumes "handler_ok handler" "timers_ok st"
  shows "\<exists>st'. ngx_event_expire_timers handler st = Some st' \<and> timers_ok st' \<and> expired st' = {} \<and> ngx_current_msec st' = ngx_current_msec st"
  using assms(2)
proof (induction "card (expired st)" arbitrary: st rule: less_induct)
  case less
  show ?case
  proof (cases "expired st = {}")
    case True
    then show ?thesis using expire_step(1) [OF less.prems] less.prems by blast
  next
    case False
    let ?f = "\<lambda>e. e\<lparr>timer_set := False, timedout := True\<rparr>"
    obtain a where a: "a \<in> expired st" "ngx_event_expire_timers handler st = do { st \<leftarrow> drop_timer ?f a st; st \<leftarrow> handler a st; ngx_event_expire_timers handler st }"
      using expire_step(2) [OF less.prems False] by blast
    have "a \<in> armed st" using a(1) by (simp add: expired_def)
    with less.prems obtain st1 where s1: "drop_timer ?f a st = Some st1" "timers_ok st1" "armed st1 = armed st - {a}"
        "\<forall>b \<in> armed st1. left_of st1 b = left_of st b" "\<exists>e. events st a = Some e \<and> events st1 = (events st)(a \<mapsto> ?f e)"
        "ngx_current_msec st1 = ngx_current_msec st" "timers.more st1 = timers.more st" by (rule drop_timer [OF _ _ clear_set(2)])
    have "a \<in> dom (events st1) - armed st1" using s1(3,5) by auto
    then obtain st2 where s2: "handler a st1 = Some st2" "timers_ok st2" "expired st2 \<subseteq> expired st1" "ngx_current_msec st2 = ngx_current_msec st1"
      using assms(1) s1(2) unfolding handler_ok_def by blast
    have "expired st1 \<subseteq> expired st - {a}" using s1(3,4) by (auto simp: expired_def)
    then have "expired st2 \<subset> expired st" using s2(3) a(1) by auto
    moreover have "finite (expired st)" using finite_armed [OF less.prems] by (simp add: expired_def)
    ultimately have "card (expired st2) < card (expired st)" by (rule psubset_card_mono [rotated])
    from less.hyps [OF this s2(2)] show ?thesis using a(2) s1(1,6) s2(1,4) by simp
  qed
qed

text \<open>When the handlers leave the timers alone: the expired timers are handled once each, in the order of their times.\<close>

lemma expired_more [simp]:
  "timers_ok (timers.more_update g st) = timers_ok st" "armed (timers.more_update g st) = armed st" "left_of (timers.more_update g st) = left_of st"
  by (auto simp: timers_ok_def timers_rep_def armed_def left_of_def fun_eq_iff)

lemma expire_calls:
  assumes "timers_ok st"
  shows "\<exists>st' as. ngx_event_expire_timers (\<lambda>a st. Some (timers.more_update (f a) st)) st = Some st' \<and> set as = expired st \<and> distinct as \<and>
    sorted (map (left_of st) as) \<and> timers.more st' = fold f as (timers.more st) \<and> armed st' = armed st - expired st \<and>
    (\<forall>a \<in> expired st. \<exists>e. events st' a = Some e \<and> timedout e) \<and> (\<forall>a. a \<notin> expired st \<longrightarrow> events st' a = events st a)"
  using assms
proof (induction "card (expired st)" arbitrary: st rule: less_induct)
  case less
  let ?h = "\<lambda>a st. Some (timers.more_update (f a) st)" and ?f = "\<lambda>e. e\<lparr>timer_set := False, timedout := True\<rparr>"
  show ?case
  proof (cases "expired st = {}")
    case True
    then show ?thesis using expire_step(1) [OF less.prems True, of ?h] by (intro exI [of _ st] exI [of _ "[]"]) simp
  next
    case False
    obtain a where a: "a \<in> expired st" "\<forall>b \<in> armed st. left_of st a \<le> left_of st b"
        "ngx_event_expire_timers ?h st = do { st \<leftarrow> drop_timer ?f a st; st \<leftarrow> ?h a st; ngx_event_expire_timers ?h st }"
      using expire_step(2) [OF less.prems False, of ?h] by blast
    have "a \<in> armed st" using a(1) by (simp add: expired_def)
    with less.prems obtain st1 where s1: "drop_timer ?f a st = Some st1" "timers_ok st1" "armed st1 = armed st - {a}"
        "\<forall>b \<in> armed st1. left_of st1 b = left_of st b" "\<exists>e. events st a = Some e \<and> events st1 = (events st)(a \<mapsto> ?f e)"
        "ngx_current_msec st1 = ngx_current_msec st" "timers.more st1 = timers.more st" by (rule drop_timer [OF _ _ clear_set(2)])
    let ?st = "timers.more_update (f a) st1"
    have ex: "expired ?st = expired st - {a}" using s1(3,4) by (auto simp: expired_def)
    have "finite (expired st)" using finite_armed [OF less.prems] by (simp add: expired_def)
    then have "card (expired ?st) < card (expired st)" unfolding ex using a(1) by (intro psubset_card_mono) auto
    from less.hyps [OF this] obtain st' as where r: "ngx_event_expire_timers ?h ?st = Some st'" "set as = expired ?st" "distinct as"
      "sorted (map (left_of ?st) as)" "timers.more st' = fold f as (timers.more ?st)" "armed st' = armed ?st - expired ?st"
      "\<forall>b \<in> expired ?st. \<exists>e. events st' b = Some e \<and> timedout e" "\<forall>b. b \<notin> expired ?st \<longrightarrow> events st' b = events ?st b"
      using s1(2) by auto
    have in_as: "b \<in> armed st" "left_of ?st b = left_of st b" if "b \<in> set as" for b
      using that r(2) s1(3,4) unfolding ex by (auto simp: expired_def)
    then have "sorted (map (left_of st) (a # as))" using r(4) a(2) by (simp cong: map_cong)
    moreover have "set (a # as) = expired st" "distinct (a # as)" using r(2,3) a(1) unfolding ex by auto
    moreover have "armed st' = armed st - expired st" using r(6) s1(3) a(1) unfolding ex by auto
    moreover have "\<forall>b \<in> expired st. \<exists>e. events st' b = Some e \<and> timedout e" "\<forall>b. b \<notin> expired st \<longrightarrow> events st' b = events st b"
      using r(7,8) s1(5) a(1) unfolding ex by auto
    moreover have "timers.more st' = fold f (a # as) (timers.more st)" using r(5) s1(7) by simp
    ultimately show ?thesis using r(1) s1(1) a(3) by (intro exI [of _ st'] exI [of _ "a # as"]) simp
  qed
qed

lemma find_timer:
  assumes "timers_ok st"
  shows "ngx_event_find_timer st = Some (if armed st = {} then - 1 else word_of_int (max 0 (Min (left_of st ` armed st))))"
proof -
  obtain t where t: "timers_rep st t" using assms by (auto simp: timers_ok_def)
  have s: "rbt_sentinel (ngx_event_timer_rbtree st) = Some (ngx_event_timer_sentinel st)" using t by (simp add: timers_rep_def)
  show ?thesis
  proof (cases "t = Lf")
    case True
    then show ?thesis using ok_root [OF t] ok_empty [OF t] s by (simp add: ngx_event_find_timer_def)
  next
    case False
    then obtain a where a: "ngx_rbtree_min (nodes st) (rbt_root (ngx_event_timer_rbtree st)) (rbt_sentinel (ngx_event_timer_rbtree st)) = Some (Some a)"
      "a \<in> armed st" "\<forall>b \<in> armed st. left_of st a \<le> left_of st b" "key (nodes st) (Some a) = Some (key_of (nodes st) a)"
      by (rule ok_min [OF t])
    have "Min (left_of st ` armed st) = left_of st a" using a(2,3) finite_armed [OF assms] by (intro Min_eqI) auto
    moreover have "ngx_event_find_timer st = Some (if 0 < left_of st a then key_of (nodes st) a - ngx_current_msec st else 0)"
      using a(1,4) ok_root [OF t] False s by (simp add: ngx_event_find_timer_def left_of_def since_def word_sless_alt)
    ultimately show ?thesis using a(2) by (auto simp: left_of_def since_def max_def)
  qed
qed

section \<open>Runs\<close>

text \<open>The operations on the timers in any order, and the passing of time: no timer is left unhandled for \<open>2\<^sup>6\<^sup>2\<close> milliseconds.\<close>

inductive timer_step :: "(addr \<Rightarrow> 'z timers_scheme \<Rightarrow> 'z timers_scheme option) \<Rightarrow> 'z timers_scheme \<Rightarrow> 'z timers_scheme \<Rightarrow> bool" for handler where
  add: "a \<in> dom (events st) \<Longrightarrow> timer < 2 ^ 62 \<Longrightarrow> ngx_event_add_timer a timer st = Some st' \<Longrightarrow> timer_step handler st st'"
| del: "a \<in> armed st \<Longrightarrow> ngx_event_del_timer a st = Some st' \<Longrightarrow> timer_step handler st st'"
| expire: "ngx_event_expire_timers handler st = Some st' \<Longrightarrow> timer_step handler st st'"
| tick: "d < 2 ^ 62 \<Longrightarrow> now = ngx_current_msec st + d \<Longrightarrow> \<forall>a \<in> armed st. - (2 ^ 62) \<le> left_of st a - uint d \<Longrightarrow>
    timer_step handler st (st\<lparr>ngx_current_msec := now\<rparr>)"

lemma near_tick:
  assumes "near b k" "d < 2 ^ 62" "- (2 ^ 62) \<le> since b k - uint d"
  shows "since (b + d) k = since b k - uint d" "near (b + d) k"
proof -
  show s: "since (b + d) k = since b k - uint d" using since_diff [OF assms(1) since_add(2) [OF assms(2)]] since_add(1) [OF assms(2)] by simp
  have "since b k - uint d \<le> since b k" by simp
  then show "near (b + d) k" using assms unfolding near_def s by linarith
qed

lemma tick_ok:
  assumes "timers_ok st" "d < 2 ^ 62" "\<forall>a \<in> armed st. - (2 ^ 62) \<le> left_of st a - uint d"
  shows "timers_ok (st\<lparr>ngx_current_msec := ngx_current_msec st + d\<rparr>)"
proof -
  let ?now = "ngx_current_msec st"
  obtain t where t: "timers_rep st t" using assms(1) by (auto simp: timers_ok_def)
  have k: "since (?now + d) (key_of (nodes st) a) = since ?now (key_of (nodes st) a) - uint d" "near (?now + d) (key_of (nodes st) a)"
    if "a \<in> set (addrs t)" for a
  proof -
    have a: "a \<in> armed st" using that t by (simp add: timers_rep_def)
    then have "- (2 ^ 62) \<le> since ?now (key_of (nodes st) a) - uint d" using assms(3) by (simp add: left_of_def)
    from near_tick [OF rep_left [OF t a] assms(2) this]
    show "since (?now + d) (key_of (nodes st) a) = since ?now (key_of (nodes st) a) - uint d" "near (?now + d) (key_of (nodes st) a)" .
  qed
  have "sorted_wrt (\<lambda>a b. since ?now (key_of (nodes st) a) \<le> since ?now (key_of (nodes st) b)) (addrs t)"
    using t by (simp add: timers_rep_def ordered_def sorted_map)
  then have "sorted_wrt (\<lambda>a b. since (?now + d) (key_of (nodes st) a) \<le> since (?now + d) (key_of (nodes st) b)) (addrs t)"
    by (rule sorted_wrt_mono_rel [rotated]) (simp add: k(1))
  then have "ordered (since (?now + d)) (near (?now + d)) (nodes st) (addrs t)" using k(2) by (simp add: ordered_def sorted_map)
  then have "timers_rep (st\<lparr>ngx_current_msec := ?now + d\<rparr>) t" using t by (simp add: timers_rep_def armed_def)
  then show ?thesis by (auto simp: timers_ok_def)
qed

lemma step_ok:
  assumes "timer_step handler st st'" "handler_ok handler" "timers_ok st"
  shows "timers_ok st'"
  using assms(1)
proof cases
  case (add a timer)
  from assms(3) add(1,2) show ?thesis by (rule add_timer) (use add(3) in simp)
next
  case (del a)
  from assms(3) del(1) show ?thesis by (rule del_timer) (use del(2) in simp)
next
  case expire
  then show ?thesis using expire_ok [OF assms(2,3)] by simp
next
  case (tick d now)
  then show ?thesis using tick_ok [OF assms(3) tick(2)] by simp
qed

lemma init_ok:
  assumes "ngx_event_timer_init st = Some (r, st')" "armed st = {}" "\<forall>a \<in> dom (events st). a \<noteq> ngx_event_timer_sentinel st \<and> nodes st a \<noteq> None"
  shows "timers_ok st'"
proof -
  obtain n where n: "nodes st (ngx_event_timer_sentinel st) = Some n"
    using assms(1) by (cases "nodes st (ngx_event_timer_sentinel st)") (auto simp: ngx_event_timer_init_def ngx_rbtree_init_def get_simps)
  have ev: "a \<noteq> ngx_event_timer_sentinel st" "\<exists>y. nodes st a = Some y" if "events st a = Some e" for a e using assms(3) that by blast+
  have "timers_rep st' Lf" using assms(1,2) n
    by (auto simp: ngx_event_timer_init_def ngx_rbtree_init_def get_simps timers_rep_def rbtree_def zraw_def ordered_def armed_def dest: ev)
  then show ?thesis by (auto simp: timers_ok_def)
qed

section \<open>Properties\<close>

lemma run_ok:
  assumes "(timer_step handler)\<^sup>*\<^sup>* st st'" "handler_ok handler" "timers_ok st"
  shows "timers_ok st'"
  using assms by (induction rule: rtranclp_induct) (auto intro: step_ok)

text \<open>
  C16: The invariant of the timers. After \<open>ngx_event_timer_init\<close>, in every order of arming and removing timers, expiring them and
  the clock going on, the tree is consistent, sorted by the time that is left, and holds exactly the events that have a timer, whatever the
  handlers do to the timers that keeps this; and with \<open>n\<close> timers a search in the tree takes at most \<open>2 * log\<^sub>2 (n + 1)\<close> steps.
\<close>
theorem timers_invariant:
  assumes "ngx_event_timer_init st0 = Some (r, st1)" "armed st0 = {}"
    "\<forall>a \<in> dom (events st0). a \<noteq> ngx_event_timer_sentinel st0 \<and> nodes st0 a \<noteq> None"
    and "handler_ok handler" "(timer_step handler)\<^sup>*\<^sup>* st1 st"
  shows "\<exists>t. timers_rep st t \<and> 2 ^ (height t div 2) \<le> card (armed st) + 1"
proof -
  obtain t where t: "timers_rep st t" using run_ok [OF assms(5,4) init_ok [OF assms(1-3)]] by (auto simp: timers_ok_def)
  then have "rbtree (nodes st) (ngx_event_timer_rbtree st) t" "card (armed st) = length (addrs t)"
    using distinct_card [of "addrs t"] by (auto simp: timers_rep_def rbtree_def zraw_def)
  then show ?thesis using t rbtree_height by fastforce
qed

text \<open>Three events, of which the first two have timers for the times 5 and 7; it is 6.\<close>

definition events3 :: "addr \<rightharpoonup> ngx_event_t" where
  "events3 = [1 \<mapsto> \<lparr>timer_set = True, timedout = False\<rparr>, 2 \<mapsto> \<lparr>timer_set = True, timedout = False\<rparr>, 3 \<mapsto> \<lparr>timer_set = False, timedout = False\<rparr>]"

definition timers3 :: timers where
  "timers3 = \<lparr>nodes = store3, events = events3, ngx_event_timer_rbtree = tree3 ngx_rbtree_insert_timer_value,
     ngx_event_timer_sentinel = 0, ngx_current_msec = 6\<rparr>"

lemma armed3: "armed timers3 = {1, 2}"
  by (auto simp: armed_def timers3_def events3_def split: if_splits)

lemma left3: "left_of timers3 1 = - 1" "left_of timers3 (Suc 0) = - 1" "left_of timers3 2 = 1"
  by (simp_all add: left_of_def since_def key_of_def timers3_def store3_def rb_node_def)

lemma expired3: "expired timers3 = {1}"
  using left3 by (auto simp: expired_def armed3)

lemma timers3: "timers_ok timers3"
proof -
  have "ordered (since 6) (near 6) store3 [1, 2]"
    by (simp add: ordered_def near_def since_def key_of_def store3_def rb_node_def)
  moreover have "\<forall>a \<in> dom events3. a \<noteq> 0 \<and> store3 a \<noteq> None" by (simp add: events3_def store3_def)
  ultimately have "timers_rep timers3 (Nd Lf 1 False (Nd Lf 2 True Lf))"
    using armed3 rbtree3 by (simp add: timers_rep_def timers3_def tree3_def)
  then show ?thesis by (auto simp: timers_ok_def)
qed

lemma handler_id: "handler_ok (\<lambda>a st. Some st)"
  by (simp add: handler_ok_def)

theorem timers_invariant_witness:
  "\<exists>st1 st2. ngx_event_timer_init (timers3\<lparr>events := [3 \<mapsto> \<lparr>timer_set = False, timedout = False\<rparr>]\<rparr>) = Some (0, st1) \<and>
    timer_step (\<lambda>a st. Some st) st1 st2 \<and> timers_ok st2 \<and> armed st2 = {3}"
proof -
  let ?st0 = "timers3\<lparr>events := [3 \<mapsto> \<lparr>timer_set = False, timedout = False\<rparr>]\<rparr>"
  obtain st1 where i: "ngx_event_timer_init ?st0 = Some (0, st1)" "events st1 = events ?st0"
    by (simp add: ngx_event_timer_init_def ngx_rbtree_init_def get_simps timers3_def store3_def)
  have st0: "armed ?st0 = {}" "\<forall>a \<in> dom (events ?st0). a \<noteq> ngx_event_timer_sentinel ?st0 \<and> nodes ?st0 a \<noteq> None"
    by (auto simp: armed_def timers3_def store3_def split: if_splits)
  have inv: "timers_ok st" if "(timer_step (\<lambda>a st. Some st))\<^sup>*\<^sup>* st1 st" for st
    using timers_invariant [OF i(1) st0 handler_id that] by (auto simp: timers_ok_def)
  have a: "3 \<in> dom (events st1)" "armed st1 = {}" using i(2) by (auto simp: armed_def split: if_splits)
  have "timers_ok st1" "(10::u64) < 2 ^ 62" using inv [OF rtranclp.rtrancl_refl] by simp_all
  from this(1) a(1) this(2) obtain st2 where s: "ngx_event_add_timer 3 10 st1 = Some st2" "armed st2 = insert 3 (armed st1)" by (rule add_timer)
  have "timer_step (\<lambda>a st. Some st) st1 st2" by (rule timer_step.add [OF a(1) _ s(1)]) simp
  moreover from this have "timers_ok st2" by (intro inv r_into_rtranclp)
  ultimately show ?thesis using i(1) s(2) a(2) by blast
qed

text \<open>
  C17: \<open>ngx_event_add_timer\<close>. It arms the timer of an event, and of no other: the event then expires after \<open>timer\<close>
  milliseconds, exactly if it had no timer, and otherwise within less than 300 milliseconds of it, because a timer that is
  close enough is kept. The other timers keep their times.
\<close>
theorem ngx_event_add_timer_arms:
  assumes "timers_ok st" "a \<in> dom (events st)" "timer < 2 ^ 62"
  shows "\<exists>st'. ngx_event_add_timer a timer st = Some st' \<and> timers_ok st' \<and> armed st' = insert a (armed st) \<and>
    \<bar>left_of st' a - uint timer\<bar> < 300 \<and> (a \<notin> armed st \<longrightarrow> left_of st' a = uint timer) \<and>
    (\<forall>b \<in> armed st - {a}. left_of st' b = left_of st b)"
proof -
  from assms obtain st' where "ngx_event_add_timer a timer st = Some st'" "timers_ok st'" "armed st' = insert a (armed st)"
    "\<bar>left_of st' a - uint timer\<bar> < 300" "a \<notin> armed st \<longrightarrow> left_of st' a = uint timer"
    "\<forall>b \<in> armed st - {a}. left_of st' b = left_of st b" by (rule add_timer)
  then show ?thesis by blast
qed

theorem ngx_event_add_timer_arms_witness:
  "\<exists>st'. ngx_event_add_timer 3 1000 timers3 = Some st' \<and> armed st' = {1, 2, 3} \<and> left_of st' 3 = 1000 \<and> left_of st' 1 = - 1"
proof -
  have "3 \<in> dom (events timers3)" "(1000::u64) < 2 ^ 62" by (simp_all add: timers3_def events3_def)
  from ngx_event_add_timer_arms [OF timers3 this] show ?thesis by (auto simp: armed3 left3)
qed

text \<open>
  \<open>ngx_event_find_timer\<close>. The time until the next timer expires, and 0 if one has expired, or \<open>NGX_TIMER_INFINITE\<close> if there is none.
\<close>
theorem ngx_event_find_timer_earliest:
  assumes "timers_ok st"
  shows "ngx_event_find_timer st =
    Some (if armed st = {} then NGX_TIMER_INFINITE else word_of_int (max 0 (Min (left_of st ` armed st))))"
  using assms by (rule find_timer)

theorem ngx_event_find_timer_earliest_witness: "ngx_event_find_timer timers3 = Some 0"
  using ngx_event_find_timer_earliest [OF timers3] by (simp add: armed3 left3)

text \<open>
  C18: \<open>ngx_event_expire_timers\<close> returns, with every timer that is left still in the future, if the handlers keep the timers
  consistent and arm no timer that has already expired.
\<close>
theorem ngx_event_expire_timers_returns:
  assumes "handler_ok handler" "timers_ok st"
  shows "\<exists>st'. ngx_event_expire_timers handler st = Some st' \<and> timers_ok st' \<and> (\<forall>a \<in> armed st'. 0 < left_of st' a)"
  using expire_ok [OF assms] by (force simp: expired_def)

theorem ngx_event_expire_timers_returns_witness:
  "\<exists>st'. ngx_event_expire_timers (\<lambda>a st. Some st) timers3 = Some st' \<and> timers_ok st'"
  using ngx_event_expire_timers_returns [OF handler_id timers3] by blast

text \<open>
  The calls of \<open>ngx_event_expire_timers\<close>. With handlers that do not touch the timers, the handler of every expired event is
  called once, in the order in which they expired; these events are marked as timed out and have no timer any more, and
  the other events are as before.
\<close>
theorem ngx_event_expire_timers_calls:
  assumes "timers_ok st"
  shows "\<exists>st' as. ngx_event_expire_timers (\<lambda>a st. Some (timers.more_update (f a) st)) st = Some st' \<and> set as = expired st \<and> distinct as \<and>
    sorted (map (left_of st) as) \<and> timers.more st' = fold f as (timers.more st) \<and> armed st' = armed st - expired st \<and>
    (\<forall>a \<in> expired st. \<exists>e. events st' a = Some e \<and> timedout e) \<and> (\<forall>a. a \<notin> expired st \<longrightarrow> events st' a = events st a)"
  using assms by (rule expire_calls)

theorem ngx_event_expire_timers_calls_witness:
  "\<exists>st'. ngx_event_expire_timers (\<lambda>a st. Some (timers.more_update (\<lambda>_. ()) st)) timers3 = Some st' \<and> armed st' = {2} \<and>
    (\<exists>e. events st' 1 = Some e \<and> timedout e)"
  using ngx_event_expire_timers_calls [OF timers3, of "\<lambda>_ _. ()"] by (auto simp: armed3 expired3)

end
