(* ===== verification/Ngx_Inet.thy ===== *)
theory Ngx_Inet
  imports Ngx_Sprintf Ngx_Http_Args Ngx_Radix_Table
begin

text \<open>
  Internet addresses in text form, src/core/ngx_inet.c: reading (\<open>ngx_inet_addr\<close>, \<open>ngx_inet6_addr\<close>), printing
  (\<open>ngx_inet_ntop\<close>, \<open>ngx_inet6_ntop\<close>, \<open>ngx_sock_ntop\<close>), and networks (\<open>ngx_ptocidr\<close>). An \<open>in_addr_t\<close> is a word in network order
  on a little endian machine, so that its first byte in memory is its lowest. A text is read from a region of memory, and
  what a function prints is the list of the bytes that it writes from \<open>text\<close> on.
\<close>

section \<open>Reading\<close>

definition htonl :: "u32 \<Rightarrow> u32" where
  "htonl w = push_bit 24 (w AND 0xff) OR push_bit 8 (w AND 0xff00) OR (drop_bit 8 w AND 0xff00) OR drop_bit 24 w"

abbreviation (input) ntohl :: "u32 \<Rightarrow> u32" where "ntohl \<equiv> htonl"

abbreviation (input) INADDR_NONE :: u32 where "INADDR_NONE \<equiv> 0xffffffff"

text \<open>The bytes of an \<open>in_addr_t\<close> in memory.\<close>

definition in_addr_bytes :: "u32 \<Rightarrow> byte list" where
  "in_addr_bytes a = [ucast a, ucast (drop_bit 8 a), ucast (drop_bit 16 a), ucast (drop_bit 24 a)]"

function inet_addr_loop :: "byte list \<Rightarrow> nat \<Rightarrow> nat \<Rightarrow> u32 \<Rightarrow> u64 \<Rightarrow> u64 \<Rightarrow> u32 option" where
  "inet_addr_loop m p stop addr octet n =
     (if p < stop then
        (case rd m p of
           None \<Rightarrow> None
         | Some c \<Rightarrow>
             if is_digit c then inet_addr_loop m (p + 1) stop addr (octet * 10 + ucast (c - ch CHR ''0'')) n
             else if c = ch CHR ''.'' \<and> octet < 256 then inet_addr_loop m (p + 1) stop (push_bit 8 addr + ucast octet) 0 (n + 1)
             else Some INADDR_NONE)
      else if n = 3 \<and> octet < 256 then Some (htonl (push_bit 8 addr + ucast octet))
      else Some INADDR_NONE)"
  by pat_completeness auto
termination
  by (relation "measure (\<lambda>(m, p, stop, addr, octet, n). stop - p)") auto

declare inet_addr_loop.simps [simp del]

definition ngx_inet_addr :: "byte list \<Rightarrow> nat \<Rightarrow> nat \<Rightarrow> u32 option" where
  "ngx_inet_addr m text len = inet_addr_loop m text (text + len) 0 0 0"

text \<open>The variables of \<open>ngx_inet6_addr\<close>; \<open>i6_buf\<close> is the memory behind \<open>addr\<close>, which the pointer \<open>i6_addr\<close> runs through.\<close>

record inet6 =
  i6_buf :: "byte list"
  i6_addr :: nat
  i6_zero :: "nat option"
  i6_digit :: "nat option"
  i6_len4 :: nat
  i6_nibbles :: nat
  i6_word :: u64
  i6_n :: nat

definition store_byte :: "byte list \<Rightarrow> nat \<Rightarrow> byte \<Rightarrow> byte list option" where
  "store_byte buf i b = (if i < length buf then Some (buf[i := b]) else None)"

definition put_two :: "byte \<Rightarrow> byte \<Rightarrow> inet6 \<Rightarrow> inet6 option" where
  "put_two a b st = do {
     buf \<leftarrow> store_byte (i6_buf st) (i6_addr st) a;
     buf \<leftarrow> store_byte buf (i6_addr st + 1) b;
     Some (st\<lparr>i6_buf := buf, i6_addr := i6_addr st + 2\<rparr>)
   }"

definition put_word :: "inet6 \<Rightarrow> inet6 option" where
  "put_word st = put_two (ucast (drop_bit 8 (i6_word st))) (ucast (i6_word st AND 0xff)) st"

text \<open>The value \<open>Some None\<close> is the return of \<open>NGX_ERROR\<close> from the loop.\<close>

definition inet6_v4 :: "byte list \<Rightarrow> inet6 \<Rightarrow> inet6 option option" where
  "inet6_v4 m st =
     (if i6_n st < 2 then Some None
      else case i6_digit st of
        None \<Rightarrow> Some None
      | Some digit \<Rightarrow> do {
          w \<leftarrow> ngx_inet_addr m digit (i6_len4 st - 1);
          (if w = INADDR_NONE then Some None
           else do {
             let wd = (ucast (ntohl w) :: u64);
             st \<leftarrow> put_two (ucast (drop_bit 24 wd AND 0xff)) (ucast (drop_bit 16 wd AND 0xff)) (st\<lparr>i6_word := wd\<rparr>);
             Some (Some (st\<lparr>i6_n := i6_n st - 1\<rparr>))
           })
        })"

fun inet6_loop :: "byte list \<Rightarrow> nat \<Rightarrow> nat \<Rightarrow> inet6 \<Rightarrow> inet6 option option" where
  "inet6_loop m p 0 st = Some (Some st)"
| "inet6_loop m p (Suc len) st =
     (case rd m p of
        None \<Rightarrow> None
      | Some c \<Rightarrow>
          if c = ch CHR '':'' then
            (if i6_nibbles st \<noteq> 0 then
               (case put_word st of
                  None \<Rightarrow> None
                | Some st' \<Rightarrow>
                    let st' = st'\<lparr>i6_digit := Some (p + 1), i6_len4 := Suc len, i6_n := i6_n st - 1\<rparr>
                    in if i6_n st' \<noteq> 0 then inet6_loop m (p + 1) len (st'\<lparr>i6_nibbles := 0, i6_word := 0\<rparr>) else Some None)
             else if i6_zero st = None then
               inet6_loop m (p + 1) len (st\<lparr>i6_digit := Some (p + 1), i6_len4 := Suc len, i6_zero := Some (i6_addr st)\<rparr>)
             else Some None)
          else if c = ch CHR ''.'' \<and> i6_nibbles st \<noteq> 0 then inet6_v4 m st
          else if i6_nibbles st + 1 > 4 then Some None
          else if is_digit c then
            inet6_loop m (p + 1) len (st\<lparr>i6_nibbles := i6_nibbles st + 1, i6_word := i6_word st * 16 + ucast (c - ch CHR ''0'')\<rparr>)
          else if ch CHR ''a'' \<le> c OR 0x20 \<and> c OR 0x20 \<le> ch CHR ''f'' then
            inet6_loop m (p + 1) len (st\<lparr>i6_nibbles := i6_nibbles st + 1, i6_word := i6_word st * 16 + ucast ((c OR 0x20) - ch CHR ''a'') + 10\<rparr>)
          else Some None)"

text \<open>The loop that moves the bytes behind \<open>::\<close> to the end, \<open>k\<close> bytes further.\<close>

fun move_up :: "byte list \<Rightarrow> nat \<Rightarrow> nat \<Rightarrow> nat \<Rightarrow> byte list option" where
  "move_up buf zero 0 k = Some buf"
| "move_up buf zero (Suc i) k = do { b \<leftarrow> rd buf (zero + i); buf \<leftarrow> store_byte buf (zero + i + k) b; move_up buf zero i k }"

definition ngx_memzero :: "byte list \<Rightarrow> nat \<Rightarrow> nat \<Rightarrow> byte list option" where
  "ngx_memzero buf i n = (if i + n \<le> length buf then Some (take i buf @ replicate n 0 @ drop (i + n) buf) else None)"

definition inet6_finish :: "inet6 \<Rightarrow> (ngx_int_t \<times> byte list) option" where
  "inet6_finish st =
     (if i6_nibbles st = 0 \<and> i6_zero st = None then Some (NGX_ERROR, i6_buf st)
      else do {
        st \<leftarrow> put_word st;
        let n = i6_n st - 1;
        (case i6_zero st of
           Some zero \<Rightarrow>
             if n \<noteq> 0 then do {
               buf \<leftarrow> move_up (i6_buf st) zero (i6_addr st - zero) (n * 2);
               buf \<leftarrow> ngx_memzero buf zero (n * 2);
               Some (NGX_OK, buf)
             } else Some (NGX_ERROR, i6_buf st)
         | None \<Rightarrow> Some (if n \<noteq> 0 then NGX_ERROR else NGX_OK, i6_buf st))
      })"

text \<open>The result is the return value and what is then in the memory at \<open>addr\<close>, where an error leaves what it finds.\<close>

definition ngx_inet6_addr :: "byte list \<Rightarrow> nat \<Rightarrow> nat \<Rightarrow> byte list \<Rightarrow> (ngx_int_t \<times> byte list option) option" where
  "ngx_inet6_addr m p len addr =
     (if len = 0 then Some (NGX_ERROR, None)
      else do {
        c \<leftarrow> rd m p;
        let (p, len) = (if c = ch CHR '':'' then (p + 1, len - 1) else (p, len));
        r \<leftarrow> inet6_loop m p len \<lparr>i6_buf = addr, i6_addr = 0, i6_zero = None, i6_digit = None, i6_len4 = 0, i6_nibbles = 0, i6_word = 0, i6_n = 8\<rparr>;
        (case r of
           None \<Rightarrow> Some (NGX_ERROR, None)
         | Some st \<Rightarrow> do { (rc, buf) \<leftarrow> inet6_finish st; Some (rc, if rc = NGX_OK then Some buf else None) })
      })"

section \<open>Printing\<close>

abbreviation (input) NGX_INET_ADDRSTRLEN :: nat where "NGX_INET_ADDRSTRLEN \<equiv> 15"

abbreviation (input) NGX_INET6_ADDRSTRLEN :: nat where "NGX_INET6_ADDRSTRLEN \<equiv> 45"

text \<open>The search for the longest run of zero words: the variables \<open>zero\<close>, \<open>last\<close> (\<open>None\<close> for \<open>(ngx_uint_t) -1\<close>), \<open>max\<close> and \<open>n\<close>.\<close>

type_synonym zero_run = "nat option \<times> nat option \<times> nat \<times> nat"

definition run_end :: "zero_run \<Rightarrow> zero_run" where
  "run_end z = (case z of (zero, lst, mx, n) \<Rightarrow> if mx < n then (lst, lst, n, n) else (zero, lst, mx, n))"

definition run_step :: "byte list \<Rightarrow> nat \<Rightarrow> zero_run \<Rightarrow> zero_run option" where
  "run_step p i z = do {
     a \<leftarrow> rd p i;
     b \<leftarrow> (if a \<noteq> 0 then Some 1 else rd p (i + 1));
     (if a \<noteq> 0 \<or> b \<noteq> 0 then (case run_end z of (zero, lst, mx, n) \<Rightarrow> Some (zero, lst, mx, 0))
      else (case z of (zero, lst, mx, n) \<Rightarrow> Some (zero, if n = 0 then Some i else lst, mx, n + 1)))
   }"

primrec run_loop :: "byte list \<Rightarrow> nat list \<Rightarrow> zero_run \<Rightarrow> zero_run option" where
  "run_loop p [] z = Some z"
| "run_loop p (i # is) z = run_step p i z \<bind> run_loop p is"

text \<open>\<open>text\<close> is the address of the output, \<open>out\<close> what has been written.\<close>

function ntop_loop :: "byte list \<Rightarrow> addr \<Rightarrow> nat option \<Rightarrow> nat \<Rightarrow> nat \<Rightarrow> nat \<Rightarrow> byte list \<Rightarrow> byte list option" where
  "ntop_loop p txt zero mx n i out =
     (if i < n then
        (if zero = Some i then ntop_loop p txt zero mx n (i + (mx - 1) * 2 + 2) (out @ bytes '':'')
         else case do { a \<leftarrow> rd p i; b \<leftarrow> rd p (i + 1); ngx_sprintf (txt + length out) (bytes ''%uxi'') [V64 (ucast a * 256 + ucast b)] } of
             None \<Rightarrow> None
           | Some w \<Rightarrow> ntop_loop p txt zero mx n (i + 2) (out @ w @ (if i < 14 then bytes '':'' else [])))
      else Some out)"
  by pat_completeness auto
termination
  by (relation "measure (\<lambda>(p, txt, zero, mx, n, i, out). n - i)") auto

declare ntop_loop.simps [simp del]

definition ngx_inet6_ntop :: "byte list \<Rightarrow> addr \<Rightarrow> nat \<Rightarrow> byte list option" where
  "ngx_inet6_ntop p txt len =
     (if len < NGX_INET6_ADDRSTRLEN then Some []
      else do {
        z \<leftarrow> run_loop p [0, 2, 4, 6, 8, 10, 12, 14] (None, None, 1, 0);
        let (zero, lst, mx, n) = run_end z;
        n \<leftarrow> (if zero = Some 0 then do {
                p10 \<leftarrow> rd p 10;
                p11 \<leftarrow> rd p 11;
                p14 \<leftarrow> rd p 14;
                p15 \<leftarrow> rd p 15;
                Some (if mx = 5 \<and> p10 = 0xff \<and> p11 = 0xff \<or> mx = 6 \<or> mx = 7 \<and> p14 \<noteq> 0 \<and> p15 \<noteq> 1 then 12 else 16)
              } else Some 16);
        out \<leftarrow> ntop_loop p txt zero mx n 0 (if zero = Some 0 then bytes '':'' else []);
        (if n = 12 then do {
           a \<leftarrow> rd p 12; b \<leftarrow> rd p 13; c \<leftarrow> rd p 14; d \<leftarrow> rd p 15;
           v \<leftarrow> ngx_sprintf (txt + length out) (bytes ''%ud.%ud.%ud.%ud'') [V32 (ucast a), V32 (ucast b), V32 (ucast c), V32 (ucast d)];
           Some (out @ v)
         } else Some out)
      })"

text \<open>A \<open>struct sockaddr\<close> with its address and port, both in network order, or a path.\<close>

datatype sockaddr = Sin u32 "16 word" | Sin6 "byte list" "16 word" | Sun "byte list" | Sockaddr_other

definition ntohs :: "16 word \<Rightarrow> 16 word" where
  "ntohs w = push_bit 8 w OR drop_bit 8 w"

definition inet_args :: "byte list \<Rightarrow> va_arg list" where
  "inet_args p = map (\<lambda>c. V32 (ucast c)) (take 4 p)"

datatype family = Fam_inet | Fam_inet6 | Fam_unix | Fam_other

definition ngx_inet_ntop :: "family \<Rightarrow> byte list \<Rightarrow> addr \<Rightarrow> nat \<Rightarrow> byte list option" where
  "ngx_inet_ntop fam p txt len =
     (case fam of
        Fam_inet \<Rightarrow> ngx_snprintf len (bytes ''%ud.%ud.%ud.%ud'') (inet_args p)
      | Fam_inet6 \<Rightarrow> ngx_inet6_ntop p txt len
      | _ \<Rightarrow> Some [])"

text \<open>The result is the returned length and the bytes that are written.\<close>

definition ngx_sock_ntop :: "sockaddr \<Rightarrow> addr \<Rightarrow> nat \<Rightarrow> bool \<Rightarrow> (nat \<times> byte list) option" where
  "ngx_sock_ntop sa txt len port =
     (case sa of
        Sin a pt \<Rightarrow> do {
          out \<leftarrow> (if port then ngx_snprintf len (bytes ''%ud.%ud.%ud.%ud:%d'') (inet_args (in_addr_bytes a) @ [V32 (ucast (ntohs pt))])
                 else ngx_snprintf len (bytes ''%ud.%ud.%ud.%ud'') (inet_args (in_addr_bytes a)));
          Some (length out, out)
        }
      | Sin6 a pt \<Rightarrow> do {
          out \<leftarrow> ngx_inet6_ntop a (if port then txt + 1 else txt) len;
          (if port then do {
             v \<leftarrow> ngx_sprintf (txt + 1 + length out) (bytes '']:%d'') [V32 (ucast (ntohs pt))];
             Some (1 + length out + length v, bytes ''['' @ out @ v)
           } else Some (length out, out))
        }
      | Sun path \<Rightarrow> do {
          out \<leftarrow> ngx_snprintf len (bytes ''unix:%s%Z'') [VMem path];
          Some ((length out + 2 ^ 64 - 1) mod 2 ^ 64, out)
        }
      | Sockaddr_other \<Rightarrow> Some (0, []))"

section \<open>Networks\<close>

text \<open>The loop over the bytes of an IPv6 network.\<close>

fun cidr6_loop :: "byte list \<Rightarrow> nat \<Rightarrow> byte list \<times> byte list \<times> bool" where
  "cidr6_loop [] shift = ([], [], False)"
| "cidr6_loop (a # addr) shift =
     (let s = (if shift > 8 then 8 else shift); msk = (ucast (push_bit (8 - s) (0xff :: u32)) :: byte);
          (as, ms, ch) = cidr6_loop addr (shift - s)
      in ((a AND msk) # as, msk # ms, a \<noteq> a AND msk \<or> ch))"

definition cidr_in :: "u32 \<Rightarrow> nat \<Rightarrow> ngx_int_t \<times> cidr" where
  "cidr_in a shift =
     (let msk = (if shift \<noteq> 0 then htonl (push_bit (32 - shift) 0xffffffff) else 0)
      in (if a = a AND msk then NGX_OK else NGX_DONE, AF_INET (a AND msk) msk))"

definition cidr_in6 :: "byte list \<Rightarrow> nat \<Rightarrow> ngx_int_t \<times> cidr" where
  "cidr_in6 a shift = (let (as, ms, ch) = cidr6_loop a shift in (if ch then NGX_DONE else NGX_OK, AF_INET6 as ms))"

definition ngx_ptocidr :: "ngx_str_t \<Rightarrow> byte list \<Rightarrow> (ngx_int_t \<times> cidr option) option" where
  "ngx_ptocidr txt buf = do {
     let m = str_data txt;
     let lst = str_len txt;
     msk \<leftarrow> ngx_strlchr m 0 lst (ch CHR ''/'');
     let len = (case msk of Some q \<Rightarrow> q | None \<Rightarrow> lst);
     a \<leftarrow> ngx_inet_addr m 0 len;
     r \<leftarrow> (if a \<noteq> INADDR_NONE then Some (Some (AF_INET a 0xffffffff))
          else do {
            (rc, b) \<leftarrow> ngx_inet6_addr m 0 len buf;
            Some (map_option (\<lambda>b. AF_INET6 b (replicate 16 0xff)) b)
          });
     (case (r, msk) of
        (None, _) \<Rightarrow> Some (NGX_ERROR, None)
      | (Some c, None) \<Rightarrow> Some (NGX_OK, Some c)
      | (Some c, Some q) \<Rightarrow> do {
          shift \<leftarrow> ngx_atoi (drop (q + 1) m) (lst - (q + 1));
          (if shift = NGX_ERROR then Some (NGX_ERROR, None)
           else case c of
             AF_INET6 b _ \<Rightarrow> Some (if 128 <s shift then (NGX_ERROR, None) else map_prod id Some (cidr_in6 b (unat shift)))
           | AF_INET a _ \<Rightarrow> Some (if 32 <s shift then (NGX_ERROR, None) else map_prod id Some (cidr_in a (unat shift))))
        })
   }"

section \<open>IPv4\<close>

lemma htonl_masks:
  "htonl w = push_bit 24 (w AND mask 8) OR push_bit 8 (w AND push_bit 8 (mask 8)) OR (drop_bit 8 w AND push_bit 8 (mask 8)) OR drop_bit 24 w"
proof -
  have "(0xff :: u32) = mask 8" "(0xff00 :: u32) = push_bit 8 (mask 8)" by (simp_all add: mask_eq_exp_minus_1 push_bit_eq_mult)
  then show ?thesis by (simp only: htonl_def)
qed

lemma in_addr_bytes_htonl:
  "in_addr_bytes (htonl x) = [ucast (drop_bit 24 x), ucast (drop_bit 16 x), ucast (drop_bit 8 x), ucast x]"
  unfolding in_addr_bytes_def htonl_masks list.inject
  by (intro conjI; simp?; rule bit_word_eqI; auto simp: bit_simps)

lemma in_addr_bytes_inj: "in_addr_bytes a = in_addr_bytes b \<Longrightarrow> a = b"
proof (rule bit_word_eqI)
  fix n assume "in_addr_bytes a = in_addr_bytes b" "n < LENGTH(32)"
  then have e: "(ucast a :: byte) = ucast b" "(ucast (drop_bit 8 a) :: byte) = ucast (drop_bit 8 b)"
    "(ucast (drop_bit 16 a) :: byte) = ucast (drop_bit 16 b)" "(ucast (drop_bit 24 a) :: byte) = ucast (drop_bit 24 b)" and n: "n < 32"
    by (simp_all add: in_addr_bytes_def)
  have g: "bit a (k + i) = bit b (k + i)" if "(ucast (drop_bit k a) :: byte) = ucast (drop_bit k b)" "i < 8" for k i
    using that(2) arg_cong [OF that(1), of "\<lambda>w. bit w i"] by (simp add: bit_simps add.commute)
  consider "n < 8" | "8 \<le> n" "n < 16" | "16 \<le> n" "n < 24" | "24 \<le> n" "n < 32" using n by linarith
  then show "bit a n = bit b n"
    using g [of 0 n] g [of 8 "n - 8"] g [of 16 "n - 16"] g [of 24 "n - 24"] e by cases auto
qed

lemma htonl_htonl: "htonl (htonl x) = x"
proof (rule in_addr_bytes_inj)
  have "in_addr_bytes (htonl (htonl x)) = rev (in_addr_bytes (htonl x))" unfolding in_addr_bytes_htonl [of "htonl x"] by (simp add: in_addr_bytes_def)
  then show "in_addr_bytes (htonl (htonl x)) = in_addr_bytes x" unfolding in_addr_bytes_htonl by (simp add: in_addr_bytes_def)
qed

lemma in_addr_be32:
  assumes "a < 256" "b < 256" "c < 256" "d < 256"
  shows "in_addr_bytes (htonl (of_nat (((a * 256 + b) * 256 + c) * 256 + d))) = [of_nat a, of_nat b, of_nat c, of_nat d]"
proof -
  let ?v = "((a * 256 + b) * 256 + c) * 256 + d"
  have v: "?v < 2 ^ 32" using assms by simp
  have u: "unat (of_nat ?v :: u32) = ?v" using v by (simp only: unat_of_nat) (simp add: take_bit_nat_eq_self)
  have dr: "(ucast (drop_bit k (of_nat ?v :: u32)) :: byte) = of_nat (?v div 2 ^ k)" for k
  proof -
    have "unat (drop_bit k (of_nat ?v :: u32)) = ?v div 2 ^ k" unfolding unat_drop_bit_eq u by (simp add: drop_bit_eq_div)
    then show ?thesis by (metis of_nat_unat)
  qed
  have q: "?v div 2 ^ 24 = a" "?v div 2 ^ 16 = a * 256 + b" "?v div 2 ^ 8 = (a * 256 + b) * 256 + c" using assms by auto
  have "(of_nat 256 :: byte) = 0" unfolding word_of_nat_eq_0_iff by simp
  then have m: "(of_nat (k * 256 + j) :: byte) = of_nat j" for k j by (simp only: of_nat_add of_nat_mult) simp
  show ?thesis unfolding in_addr_bytes_htonl dr q m using dr [of 0] m [of "(a * 256 + b) * 256 + c" d] by simp
qed

lemma digit_ucast: "is_digit c \<Longrightarrow> ucast (c - ch CHR ''0'') = (of_nat (digit_val c) :: u64)"
proof -
  assume c: "is_digit c"
  then have "unat (c - ch CHR ''0'') = digit_val c" by (simp add: is_digit_unat digit_val_def unat_sub word_le_nat_alt byte_simps)
  then show ?thesis by (metis of_nat_unat)
qed

lemma inet_digits:
  assumes "reads m p ds" "list_all is_digit ds" "p + length ds \<le> stop"
  shows "inet_addr_loop m p stop a (of_nat k) n = inet_addr_loop m (p + length ds) stop a (of_nat (dec_acc k ds)) n"
  using assms
proof (induction ds arbitrary: p k)
  case (Cons c ds)
  have "inet_addr_loop m p stop a (of_nat k) n = inet_addr_loop m (p + 1) stop a (of_nat (k * 10 + digit_val c)) n"
    using Cons.prems digit_ucast [of c] by (subst inet_addr_loop.simps) simp
  then show ?case using Cons.IH [of "p + 1" "k * 10 + digit_val c"] Cons.prems by simp
qed simp

text \<open>Parts with dots between them.\<close>

fun dotted :: "byte list list \<Rightarrow> byte list" where
  "dotted [] = []"
| "dotted [d] = d"
| "dotted (d # e # ds) = d @ ch CHR ''.'' # dotted (e # ds)"

definition octet_ok :: "byte list \<Rightarrow> bool" where
  "octet_ok d \<longleftrightarrow> dec_value d mod 2 ^ 64 < 256"

lemma octet_word: "(of_nat (dec_value d) :: u64) < 256 \<longleftrightarrow> octet_ok d"
  by (simp add: octet_ok_def word_less_nat_alt unat_of_nat take_bit_nat_def)

lemma octet_ucast:
  assumes "octet_ok d"
  shows "(ucast (of_nat (dec_value d) :: u64) :: u32) = of_nat (dec_value d mod 2 ^ 64)"
proof -
  have "unat (of_nat (dec_value d) :: u64) = dec_value d mod 2 ^ 64" by (simp add: unat_of_nat take_bit_nat_def)
  then show ?thesis by (metis of_nat_unat)
qed

text \<open>The address with the given octets in front.\<close>

definition octets_acc :: "u32 \<Rightarrow> byte list list \<Rightarrow> u32" where
  "octets_acc a ds = foldl (\<lambda>a d. push_bit 8 a + of_nat (dec_value d mod 2 ^ 64)) a ds"

lemma octets_acc_Cons: "octets_acc a (d # ds) = octets_acc (push_bit 8 a + of_nat (dec_value d mod 2 ^ 64)) ds"
  by (simp add: octets_acc_def)

lemma inet_dotted:
  assumes "reads m p (dotted ds)" "ds \<noteq> []" "\<forall>d \<in> set ds. list_all is_digit d" "stop = p + length (dotted ds)"
  shows "inet_addr_loop m p stop a 0 n =
    Some (if n + of_nat (length ds) = 4 \<and> (\<forall>d \<in> set ds. octet_ok d) then htonl (octets_acc a ds) else INADDR_NONE)"
  using assms
proof (induction ds arbitrary: p a n rule: dotted.induct)
  case (2 d)
  have "inet_addr_loop m p stop a 0 n = inet_addr_loop m stop stop a (of_nat (dec_value d)) n"
    using inet_digits [of m p d stop a 0 n] 2 by simp
  moreover have "n + 1 = 4 \<longleftrightarrow> n = 3" using eq_diff_eq [of n 4 1] by auto
  ultimately show ?case by (subst (asm) inet_addr_loop.simps [of m stop]) (simp add: octet_word octets_acc_def octet_ucast)
next
  case (3 d e ds)
  let ?q = "p + length d"
  have r: "reads m p d" "rd m ?q = Some (ch CHR ''.'')" "reads m (?q + 1) (dotted (e # ds))" using 3(2) by simp_all
  have st: "stop = ?q + 1 + length (dotted (e # ds))" using 3(5) by simp
  have dot: "\<not> is_digit (ch CHR ''.'')" by (simp add: byte_simps)
  have "inet_addr_loop m p stop a 0 n = inet_addr_loop m ?q stop a (of_nat (dec_value d)) n"
    using inet_digits [of m p d stop a 0 n] r(1) 3(4) st by simp
  also have "\<dots> = (if octet_ok d then inet_addr_loop m (?q + 1) stop (push_bit 8 a + ucast (of_nat (dec_value d) :: u64)) 0 (n + 1) else Some INADDR_NONE)"
    using r(2) st dot by (subst inet_addr_loop.simps) (simp add: octet_word)
  finally have step: "inet_addr_loop m p stop a 0 n =
    (if octet_ok d then inet_addr_loop m (?q + 1) stop (push_bit 8 a + of_nat (dec_value d mod 2 ^ 64)) 0 (n + 1) else Some INADDR_NONE)"
    by (simp add: octet_ucast)
  have "n + 1 + of_nat (length (e # ds)) = n + of_nat (length (d # e # ds))" by simp
  then show ?case
    using 3(1) [OF r(3) _ _ st, of "push_bit 8 a + of_nat (dec_value d mod 2 ^ 64)" "n + 1"] 3(4)
    unfolding step by (simp only: octets_acc_Cons) auto
qed simp

lemma octets_acc_bytes:
  assumes "length ds = 4" "\<forall>d \<in> set ds. octet_ok d"
  shows "in_addr_bytes (htonl (octets_acc 0 ds)) = map (\<lambda>d. of_nat (dec_value d mod 2 ^ 64)) ds"
proof -
  obtain d1 d2 d3 d4 where ds: "ds = [d1, d2, d3, d4]" using assms(1) by (auto simp: numeral_eq_Suc length_Suc_conv)
  have p: "push_bit 8 (of_nat x :: u32) = of_nat (x * 256)" for x by (simp add: push_bit_eq_mult)
  have "octets_acc 0 ds = of_nat (((dec_value d1 mod 2 ^ 64 * 256 + dec_value d2 mod 2 ^ 64) * 256 + dec_value d3 mod 2 ^ 64) * 256 + dec_value d4 mod 2 ^ 64)"
    unfolding ds octets_acc_def foldl.simps push_bit_0_id by (simp only: p push_bit_of_0 of_nat_add [symmetric] add_0)
  then show ?thesis
    using in_addr_be32 [of "dec_value d1 mod 2 ^ 64" "dec_value d2 mod 2 ^ 64" "dec_value d3 mod 2 ^ 64" "dec_value d4 mod 2 ^ 64"] assms(2)
    unfolding ds octet_ok_def by simp
qed

lemma inet_other:
  assumes "p \<le> q" "q < stop" "\<forall>i. p \<le> i \<and> i < stop \<longrightarrow> rd m i \<noteq> None" "rd m q = Some c" "\<not> is_digit c" "c \<noteq> ch CHR ''.''"
  shows "inet_addr_loop m p stop a octet n = Some INADDR_NONE"
  using assms
proof (induction m p stop a octet n rule: inet_addr_loop.induct)
  case (1 m p stop addr octet n)
  show ?case
  proof (cases "p = q")
    case True
    then show ?thesis using 1(4,6-8) by (subst inet_addr_loop.simps) simp
  next
    case False
    then obtain e where "p + 1 \<le> q" "rd m p = Some e" "p < stop" using 1(3-5) by auto
    then show ?thesis using 1 by (subst inet_addr_loop.simps) auto
  qed
qed

definition v4_show :: "byte list \<Rightarrow> byte list" where
  "v4_show p = dotted (map (\<lambda>b. dec_show (unat b)) p)"

lemma directive_ud:
  assumes "length out + length (dec_show (unat b)) \<le> cap"
  shows "directive cap (bytes ''ud'' @ fmt) (V32 (ucast (b :: byte)) # args) out = Some (fmt, args, out @ dec_show (unat b))"
proof -
  have b: "unat b < 2 ^ 32" "unat b < 2 ^ 64" using unat_less_256 [of b] by simp_all
  have "unat (ucast b :: u32) = unat b" unfolding unsigned_ucast_eq using b(1) by (simp add: take_bit_nat_eq_self)
  then have "unat (ucast (ucast b :: u32) :: u64) = unat b" unfolding unsigned_ucast_eq [of "ucast b :: u32"] using b(2) by (simp add: take_bit_nat_eq_self)
  then have "ngx_sprintf_num cap (ucast (ucast b :: u32)) 32 0 0 out = Some (out @ dec_show (unat b))"
    using sprintf_num_dec [of out 0 "ucast (ucast b :: u32)" cap 32] assms by simp
  then show ?thesis by (simp add: bytes_def directive_def byte_simps convert_def int_arg_def put_int_def)
qed

lemma byte_show_length: "length (dec_show (unat (b :: byte))) \<le> 3" "0 < length (dec_show (unat b))"
  using dec_show_length [of 3 "unat b"] unat_less_256 [of b] by simp_all

lemma v4_show_simps: "v4_show [a, b, c, d] = dec_show (unat a) @ bytes ''.'' @ dec_show (unat b) @ bytes ''.'' @ dec_show (unat c) @ bytes ''.'' @ dec_show (unat d)"
  by (simp add: v4_show_def bytes_def)

lemma v4_show_length:
  assumes "length p = 4"
  shows "length (v4_show p) \<le> 15" "v4_show p \<noteq> []"
proof -
  obtain a b c d where p: "p = [a, b, c, d]" using assms by (auto simp: numeral_eq_Suc length_Suc_conv)
  note l = byte_show_length(1) [of a] byte_show_length(1) [of b] byte_show_length(1) [of c] byte_show_length(1) [of d]
  show "length (v4_show p) \<le> 15" "v4_show p \<noteq> []" unfolding p v4_show_simps using l by simp_all
qed

lemma vsl_ud:
  assumes "length out + 3 \<le> cap"
  shows "ngx_vslprintf cap (bytes ''%ud'' @ fmt) (V32 (ucast (b :: byte)) # args) out = ngx_vslprintf cap fmt args (out @ dec_show (unat b))"
proof -
  have "directive cap (bytes ''ud'' @ fmt) (V32 (ucast b) # args) out = Some (fmt, args, out @ dec_show (unat b))"
    using assms byte_show_length [of b] by (intro directive_ud) simp
  from vsl_directive [OF this] assms show ?thesis by (simp add: bytes_def)
qed

lemma vsl_dot: "length out < cap \<Longrightarrow> ngx_vslprintf cap (bytes ''.'' @ fmt) args out = ngx_vslprintf cap fmt args (out @ bytes ''.'')"
  by (rule vsl_literal) (auto simp: bytes_def byte_simps)

lemma v4_print:
  assumes "length p = 4" "length out + 15 \<le> cap"
  shows "ngx_vslprintf cap (bytes ''%ud.%ud.%ud.%ud'' @ fmt) (map (\<lambda>c. V32 (ucast c)) p @ args) out = ngx_vslprintf cap fmt args (out @ v4_show p)"
proof -
  obtain a b c d where p: "p = [a, b, c, d]" using assms(1) by (auto simp: numeral_eq_Suc length_Suc_conv)
  have f: "bytes ''%ud.%ud.%ud.%ud'' @ fmt = bytes ''%ud'' @ bytes ''.'' @ bytes ''%ud'' @ bytes ''.'' @ bytes ''%ud'' @ bytes ''.'' @ bytes ''%ud'' @ fmt"
    by (simp add: bytes_def)
  note l = byte_show_length(1) [of a] byte_show_length(1) [of b] byte_show_length(1) [of c] byte_show_length(1) [of d]
  show ?thesis unfolding f p v4_show_simps using assms(2) l by (simp add: vsl_ud vsl_dot)
qed

lemma snprintf_v4:
  assumes "length p = 4" "15 \<le> cap"
  shows "ngx_vslprintf cap (bytes ''%ud.%ud.%ud.%ud'') (map (\<lambda>c. V32 (ucast c)) p) [] = Some (v4_show p)"
  using v4_print [OF assms(1), of "[]" cap "[]" "[]"] assms(2) by (simp add: ngx_vslprintf.simps [of _ "[]"])

lemma inet_addr_v4:
  assumes "length p = 4" "reads m q (v4_show p)"
  shows "\<exists>r. ngx_inet_addr m q (length (v4_show p)) = Some r \<and> in_addr_bytes r = p"
proof -
  let ?ds = "map (\<lambda>b. dec_show (unat b)) p"
  have ok: "\<forall>d \<in> set ?ds. octet_ok d" using unat_less_256 by (auto simp: octet_ok_def intro: le_less_trans [OF mod_less_eq_dividend])
  have ne: "?ds \<noteq> []" using assms(1) by auto
  have dg: "\<forall>d \<in> set ?ds. list_all is_digit d" by (auto simp: dec_show_digits)
  have "ngx_inet_addr m q (length (v4_show p)) = Some (htonl (octets_acc 0 ?ds))"
    using inet_dotted [of m q ?ds "q + length (v4_show p)" 0 0] assms ok ne dg unfolding ngx_inet_addr_def v4_show_def by simp
  moreover have "in_addr_bytes (htonl (octets_acc 0 ?ds)) = p"
    proof -
    have "(of_nat (unat b mod 2 ^ 64) :: byte) = b" for b :: byte using unat_less_256 [of b] by (simp add: mod_less)
    then show ?thesis using octets_acc_bytes [OF _ ok] assms(1) by (simp add: map_idI)
  qed
  ultimately show ?thesis by simp
qed

lemma inet_returns: "\<forall>i. p \<le> i \<and> i < stop \<longrightarrow> rd m i \<noteq> None \<Longrightarrow> inet_addr_loop m p stop a octet n \<noteq> None"
proof (induction m p stop a octet n rule: inet_addr_loop.induct)
  case (1 m p stop addr octet n)
  show ?case
  proof (cases "p < stop")
    case True
    then obtain c where "rd m p = Some c" using 1(3) by auto
    then show ?thesis using 1 True by (subst inet_addr_loop.simps) auto
  qed (simp add: inet_addr_loop.simps)
qed

text \<open>
  C20: \<open>ngx_inet_addr\<close>. A text of digits and dots is an address if it has four parts, and the value of each, modulo \<open>2\<^sup>6\<^sup>4\<close>, is below 256
  (a part may be empty, and a number that wraps is accepted); its bytes are these values. Every other text gives
  \<open>INADDR_NONE\<close>, and no byte outside of the text is read.
\<close>
theorem ngx_inet_addr_correct:
  assumes "reads m q t" "length t < 2 ^ 63"
  shows "\<exists>r. ngx_inet_addr m q (length t) = Some r \<and>
    (\<forall>ds. ds \<noteq> [] \<and> t = dotted ds \<and> (\<forall>d \<in> set ds. list_all is_digit d) \<longrightarrow>
      (if length ds = 4 \<and> (\<forall>d \<in> set ds. dec_value d mod 2 ^ 64 < 256) then in_addr_bytes r = map (\<lambda>d. of_nat (dec_value d mod 2 ^ 64)) ds
       else r = INADDR_NONE)) \<and>
    ((\<exists>c \<in> set t. \<not> is_digit c \<and> c \<noteq> ch CHR ''.'') \<longrightarrow> r = INADDR_NONE)"
proof -
  have rd: "\<forall>i. q \<le> i \<and> i < q + length t \<longrightarrow> rd m i = Some (t ! (i - q))" using assms(1) by (auto simp: reads_def le_iff_add)
  then obtain r where r: "ngx_inet_addr m q (length t) = Some r" using inet_returns [of q "q + length t" m] by (fastforce simp: ngx_inet_addr_def)
  have "if length ds = 4 \<and> (\<forall>d \<in> set ds. dec_value d mod 2 ^ 64 < 256) then in_addr_bytes r = map (\<lambda>d. of_nat (dec_value d mod 2 ^ 64)) ds
      else r = INADDR_NONE"
    if ds: "ds \<noteq> []" "t = dotted ds" "\<forall>d \<in> set ds. list_all is_digit d" for ds
  proof -
    have "length ds \<le> Suc (length t)" unfolding ds(2) by (induction ds rule: dotted.induct) auto
    then have "(of_nat (length ds) = (4 :: u64)) = (length ds = 4)" using assms(2) by (auto simp: word_unat_eq_iff unat_of_nat take_bit_nat_eq_self)
    then have "r = (if length ds = 4 \<and> (\<forall>d \<in> set ds. octet_ok d) then htonl (octets_acc 0 ds) else INADDR_NONE)"
      using inet_dotted [of m q ds "q + length t" 0 0] assms(1) ds r by (simp add: ngx_inet_addr_def)
    then show ?thesis using octets_acc_bytes [of ds] by (simp add: octet_ok_def)
  qed
  moreover have "r = INADDR_NONE" if c: "\<exists>c \<in> set t. \<not> is_digit c \<and> c \<noteq> ch CHR ''.''"
  proof -
    obtain i where "i < length t" "\<not> is_digit (t ! i)" "t ! i \<noteq> ch CHR ''.''" using c by (auto simp: in_set_conv_nth)
    then show ?thesis using inet_other [of q "q + i" "q + length t" m "t ! i" 0 0 0] rd r by (simp add: ngx_inet_addr_def)
  qed
  ultimately show ?thesis using r by blast
qed

theorem ngx_inet_addr_correct_witness:
  "\<exists>r. ngx_inet_addr (bytes ''10.0.0.1'') 0 (length (bytes ''10.0.0.1'')) = Some r \<and> in_addr_bytes r = [10, 0, 0, 1]"
proof -
  let ?t = "bytes ''10.0.0.1''" and ?ds = "[bytes ''10'', bytes ''0'', bytes ''0'', bytes ''1'']"
  have t: "reads ?t 0 ?t" "length ?t < 2 ^ 63" by (rule reads_self) simp
  have d: "?ds \<noteq> [] \<and> ?t = dotted ?ds \<and> (\<forall>d \<in> set ?ds. list_all is_digit d)" by (simp add: bytes_def byte_simps)
  from ngx_inet_addr_correct [OF t] d obtain r where "ngx_inet_addr ?t 0 (length ?t) = Some r"
    "if length ?ds = 4 \<and> (\<forall>d \<in> set ?ds. dec_value d mod 2 ^ 64 < 256) then in_addr_bytes r = map (\<lambda>d. of_nat (dec_value d mod 2 ^ 64)) ?ds
       else r = INADDR_NONE" by metis
  then show ?thesis by (simp add: bytes_def byte_simps digit_val_def)
qed

text \<open>
  IPv4 addresses round trip. With room for 15 bytes \<open>ngx_inet_ntop\<close> prints the four bytes of every address in decimal with dots
  between them, as at most 15 bytes, and \<open>ngx_inet_addr\<close> reads the text back as the same four bytes.
\<close>
theorem ngx_inet_roundtrip:
  assumes "length p = 4" "NGX_INET_ADDRSTRLEN \<le> len"
  shows "\<exists>t r. ngx_inet_ntop Fam_inet p txt len = Some t \<and> length t \<le> NGX_INET_ADDRSTRLEN \<and> ngx_inet_addr t 0 (length t) = Some r \<and> in_addr_bytes r = p"
proof -
  have "ngx_inet_ntop Fam_inet p txt len = Some (v4_show p)"
    using snprintf_v4 [OF assms] assms(1) by (simp add: ngx_inet_ntop_def ngx_snprintf_def inet_args_def)
  then show ?thesis using inet_addr_v4 [OF assms(1) reads_self] v4_show_length(1) [OF assms(1)] by blast
qed

theorem ngx_inet_roundtrip_witness:
  "\<exists>t r. ngx_inet_ntop Fam_inet [127, 0, 0, 1] 0 15 = Some t \<and> length t \<le> 15 \<and> ngx_inet_addr t 0 (length t) = Some r \<and> in_addr_bytes r = [127, 0, 0, 1]"
  by (rule ngx_inet_roundtrip) simp_all

end
