(* ===== verification/Ngx_Inet6.thy ===== *)
theory Ngx_Inet6
  imports Ngx_Inet
begin

text \<open>
  IPv6 addresses in text form, the model of which is in \<open>Ngx_Inet\<close>: the reader never leaves the text and the sixteen bytes of the
  address; what the printer writes, as the words of the address with at most one run of zero words left out, or with an
  IPv4 part at its end; and that the reader takes each such text back to the address.
\<close>

section \<open>Memory safety of the IPv6 reader\<close>

lemma store_byte_in: "i < length buf \<Longrightarrow> store_byte buf i b = Some (buf[i := b])"
  by (simp add: store_byte_def)

text \<open>What the loop keeps: two bytes are written for each word, and one word is still free.\<close>

definition i6_inv :: "nat \<Rightarrow> inet6 \<Rightarrow> bool" where
  "i6_inv stop st \<longleftrightarrow> length (i6_buf st) = 16 \<and> i6_addr st = 2 * (8 - i6_n st) \<and> 1 \<le> i6_n st \<and> i6_n st \<le> 8 \<and>
     (\<forall>z. i6_zero st = Some z \<longrightarrow> z \<le> i6_addr st) \<and> (\<forall>d. i6_digit st = Some d \<longrightarrow> d + (i6_len4 st - 1) = stop)"

lemma put_two_in:
  assumes "length (i6_buf st) = 16" "i6_addr st \<le> 14"
  shows "put_two a b st = Some (st\<lparr>i6_buf := (i6_buf st)[i6_addr st := a, Suc (i6_addr st) := b], i6_addr := i6_addr st + 2\<rparr>)"
  using assms by (simp add: put_two_def store_byte_def)

lemma inet6_v4_inv:
  assumes "i6_inv stop st" "stop \<le> length m"
  shows "\<exists>r. inet6_v4 m st = Some r \<and> (\<forall>st'. r = Some st' \<longrightarrow> i6_inv stop st')"
proof (cases "i6_n st < 2 \<or> i6_digit st = None")
  case True
  then show ?thesis by (auto simp: inet6_v4_def split: option.splits)
next
  case False
  then obtain d where d: "i6_digit st = Some d" "2 \<le> i6_n st" by auto
  then have "d + (i6_len4 st - 1) \<le> length m" using assms by (simp add: i6_inv_def)
  then obtain w where w: "ngx_inet_addr m d (i6_len4 st - 1) = Some w"
    using inet_returns [of d "d + (i6_len4 st - 1)" m 0 0 0] by (fastforce simp: ngx_inet_addr_def)
  have "length (i6_buf (st\<lparr>i6_word := k\<rparr>)) = 16" "i6_addr (st\<lparr>i6_word := k\<rparr>) \<le> 14" for k using assms(1) d(2) by (auto simp: i6_inv_def)
  note p = put_two_in [OF this]
  have "i6_n st - 1 \<ge> 1" "2 * (8 - i6_n st) + 2 = 2 * (8 - (i6_n st - 1))" using d(2) assms(1) by (auto simp: i6_inv_def)
  then show ?thesis using w d assms(1) False by (auto simp: inet6_v4_def p i6_inv_def Let_def le_SucI)
qed

lemma inet6_loop_inv:
  assumes "i6_inv stop st" "stop \<le> length m" "stop = p + len"
  shows "\<exists>r. inet6_loop m p len st = Some r \<and> (\<forall>st'. r = Some st' \<longrightarrow> i6_inv stop st')"
  using assms
proof (induction m p len st rule: inet6_loop.induct)
  case (2 m p len st)
  have rd: "rd m p = Some (m ! p)" using 2(6,7) by (intro rd_in) simp
  have a: "length (i6_buf st) = 16" "i6_addr st \<le> 14" using 2(5) by (auto simp: i6_inv_def)
  have put: "put_word st = Some (st\<lparr>i6_buf := (i6_buf st)[i6_addr st := ucast (drop_bit 8 (i6_word st)), Suc (i6_addr st) := ucast (i6_word st AND 0xff)], i6_addr := i6_addr st + 2\<rparr>)"
    unfolding put_word_def by (rule put_two_in [OF a])
  have st: "stop = p + 1 + len" using 2(7) by simp
  consider (word) "m ! p = ch CHR '':''" "i6_nibbles st \<noteq> 0" "i6_n st - 1 \<noteq> 0" | (zero) "m ! p = ch CHR '':''" "i6_nibbles st = 0" "i6_zero st = None"
    | (v4) "m ! p \<noteq> ch CHR '':''" "m ! p = ch CHR ''.''" "i6_nibbles st \<noteq> 0"
    | (digit) "m ! p \<noteq> ch CHR '':''" "\<not> (m ! p = ch CHR ''.'' \<and> i6_nibbles st \<noteq> 0)" "\<not> i6_nibbles st + 1 > 4" "is_digit (m ! p)"
    | (letter) "m ! p \<noteq> ch CHR '':''" "\<not> (m ! p = ch CHR ''.'' \<and> i6_nibbles st \<noteq> 0)" "\<not> i6_nibbles st + 1 > 4" "\<not> is_digit (m ! p)"
        "ch CHR ''a'' \<le> m ! p OR 0x20 \<and> m ! p OR 0x20 \<le> ch CHR ''f''"
    | (err) "m ! p = ch CHR '':'' \<and> (i6_nibbles st \<noteq> 0 \<and> i6_n st - 1 = 0 \<or> i6_nibbles st = 0 \<and> i6_zero st \<noteq> None) \<or>
        m ! p \<noteq> ch CHR '':'' \<and> \<not> (m ! p = ch CHR ''.'' \<and> i6_nibbles st \<noteq> 0) \<and>
        (i6_nibbles st + 1 > 4 \<or> \<not> is_digit (m ! p) \<and> \<not> (ch CHR ''a'' \<le> m ! p OR 0x20 \<and> m ! p OR 0x20 \<le> ch CHR ''f''))"
    by argo
  then show ?case
  proof cases
    case word
    let ?st = "(st\<lparr>i6_buf := (i6_buf st)[i6_addr st := ucast (drop_bit 8 (i6_word st)), Suc (i6_addr st) := ucast (i6_word st AND 0xff)], i6_addr := i6_addr st + 2\<rparr>)
      \<lparr>i6_digit := Some (p + 1), i6_len4 := Suc len, i6_n := i6_n st - 1, i6_nibbles := 0, i6_word := 0\<rparr>"
    have "i6_inv stop ?st" using 2(5) st word(3) by (auto simp: i6_inv_def le_SucI)
    then show ?thesis using 2(1) [OF rd word(1,2) put refl] word 2(6) st rd put by (simp add: Let_def)
  next
    case zero
    have "i6_inv stop (st\<lparr>i6_digit := Some (p + 1), i6_len4 := Suc len, i6_zero := Some (i6_addr st)\<rparr>)" using 2(5) st by (auto simp: i6_inv_def)
    then show ?thesis using 2(2) [OF rd zero(1)] zero 2(6) st rd by simp
  next
    case v4
    then show ?thesis using inet6_v4_inv [OF 2(5,6)] rd by simp
  next
    case digit
    have "i6_inv stop (st\<lparr>i6_nibbles := i6_nibbles st + 1, i6_word := w\<rparr>)" for w using 2(5) by (auto simp: i6_inv_def)
    then show ?thesis using 2(3) [OF rd] digit 2(6) st rd by auto
  next
    case letter
    have "i6_inv stop (st\<lparr>i6_nibbles := i6_nibbles st + 1, i6_word := w\<rparr>)" for w using 2(5) by (auto simp: i6_inv_def)
    then show ?thesis using 2(4) [OF rd] letter 2(6) st rd by auto
  next
    case err
    then have "inet6_loop m p (Suc len) st = Some None" using rd put by (auto simp: Let_def split: if_splits)
    then show ?thesis by simp
  qed
qed simp

text \<open>The move of the bytes behind \<open>::\<close>.\<close>

lemma move_up_nth:
  assumes "z + c + k \<le> length buf" "0 < k"
  shows "\<exists>b. move_up buf z c k = Some b \<and> length b = length buf \<and> (\<forall>i < c. b ! (z + k + i) = buf ! (z + i)) \<and>
    (\<forall>i. i < z \<or> z + c + k \<le> i \<longrightarrow> b ! i = buf ! i)"
  using assms
proof (induction c arbitrary: buf)
  case (Suc c)
  let ?buf = "buf[z + c + k := buf ! (z + c)]"
  obtain b where b: "move_up ?buf z c k = Some b" "length b = length buf" "\<forall>i < c. b ! (z + k + i) = ?buf ! (z + i)"
    "\<forall>i. i < z \<or> z + c + k \<le> i \<longrightarrow> b ! i = ?buf ! i" using Suc.IH [of ?buf] Suc.prems by auto
  have run: "move_up buf z (Suc c) k = Some b" using Suc.prems b(1) by (simp add: store_byte_def)
  have "b ! (z + k + i) = buf ! (z + i)" if i: "i < Suc c" for i
  proof (cases "i = c")
    case True
    then show ?thesis using b(4) Suc.prems by (simp add: add.commute add.left_commute)
  next
    case False
    then show ?thesis using b(3) i Suc.prems by simp
  qed
  moreover have "b ! i = buf ! i" if "i < z \<or> z + Suc c + k \<le> i" for i using b(4) that Suc.prems by (cases "i = z + c + k") auto
  ultimately show ?case using run b(2) by blast
qed simp

text \<open>The address that is read: what was read, with zero bytes at the place of \<open>::\<close>.\<close>

definition final6 :: "byte list \<Rightarrow> nat option \<Rightarrow> byte list" where
  "final6 w zero = (case zero of None \<Rightarrow> w | Some z \<Rightarrow> take z w @ replicate (16 - length w) 0 @ drop z w)"

lemma move_zero:
  assumes "length buf = z + c + k" "0 < k"
  shows "\<exists>b. move_up buf z c k = Some b \<and> ngx_memzero b z k = Some (take z buf @ replicate k 0 @ take c (drop z buf))"
proof -
  obtain b where b: "move_up buf z c k = Some b" "length b = length buf" "\<forall>i < c. b ! (z + k + i) = buf ! (z + i)"
    "\<forall>i. i < z \<or> z + c + k \<le> i \<longrightarrow> b ! i = buf ! i" using move_up_nth [of z c k buf] assms by auto
  have "drop (z + k) b = take c (drop z buf)" using b(2,3) assms(1) by (intro nth_equalityI) auto
  moreover have "take z b = take z buf" using b(2,4) assms(1) by (intro nth_equalityI) auto
  ultimately show ?thesis using b(1,2) assms(1) by (simp add: ngx_memzero_def)
qed

lemma inet6_finish_final:
  assumes inv: "i6_inv stop st" and w: "w = take (i6_addr st) (i6_buf st) @ [ucast (drop_bit 8 (i6_word st)), ucast (i6_word st AND 0xff)]"
    and ok: "i6_nibbles st \<noteq> 0 \<or> i6_zero st \<noteq> None"
  shows "inet6_finish st = Some (if i6_zero st \<noteq> None \<and> i6_n st \<noteq> 1 \<or> i6_zero st = None \<and> i6_n st = 1 then (NGX_OK, final6 w (i6_zero st)) else (NGX_ERROR, w @ drop (length w) (i6_buf st)))"
proof -
  let ?buf = "(i6_buf st)[i6_addr st := ucast (drop_bit 8 (i6_word st)), Suc (i6_addr st) := ucast (i6_word st AND 0xff)]"
  let ?a = "i6_addr st"
  have a: "length (i6_buf st) = 16" "?a \<le> 14" "?a + 2 + 2 * (i6_n st - 1) = 16" using inv by (auto simp: i6_inv_def)
  have put: "put_word st = Some (st\<lparr>i6_buf := ?buf, i6_addr := ?a + 2\<rparr>)" unfolding put_word_def by (rule put_two_in [OF a(1,2)])
  have len: "length w = ?a + 2" using w a by simp
  have buf: "?buf = w @ drop (length w) (i6_buf st)"
    unfolding len w using a(1,2) by (intro nth_equalityI) (auto simp: nth_append nth_list_update less_Suc_eq nth_Cons' not_le Suc_diff_Suc numeral_2_eq_2 intro!: arg_cong [where f = "(!) (i6_buf st)"])
  show ?thesis
  proof (cases "i6_zero st")
    case None
    have "w @ drop (length w) (i6_buf st) = w" if "i6_n st = 1" using that a len by simp
    then show ?thesis using None ok put inv buf by (auto simp: inet6_finish_def final6_def i6_inv_def)
  next
    case (Some z)
    then have z: "z \<le> ?a" using inv by (simp add: i6_inv_def)
    show ?thesis
    proof (cases "i6_n st = 1")
      case False
      then have n: "0 < 2 * (i6_n st - 1)" "i6_n st - 1 \<noteq> 0" using inv by (auto simp: i6_inv_def)
      have "length ?buf = z + (?a + 2 - z) + 2 * (i6_n st - 1)" using z a by simp
      from move_zero [OF this n(1)] obtain b where b: "move_up ?buf z (?a + 2 - z) (2 * (i6_n st - 1)) = Some b"
        "ngx_memzero b z (2 * (i6_n st - 1)) = Some (take z ?buf @ replicate (2 * (i6_n st - 1)) 0 @ take (?a + 2 - z) (drop z ?buf))" by blast
      have "take z ?buf = take z w" "take (?a + 2 - z) (drop z ?buf) = drop z w" unfolding buf using z len by simp_all
      moreover have "2 * (i6_n st - 1) = 16 - length w" using a(3) len by simp
      ultimately show ?thesis using b Some ok put False n(2) by (simp add: inet6_finish_def final6_def mult.commute)
    qed (use Some ok put buf in \<open>simp add: inet6_finish_def\<close>)
  qed
qed

lemma inet6_start: "i6_inv stop \<lparr>i6_buf = addr, i6_addr = 0, i6_zero = None, i6_digit = None, i6_len4 = 0, i6_nibbles = 0, i6_word = 0, i6_n = 8\<rparr> \<longleftrightarrow> length addr = 16"
  by (simp add: i6_inv_def)

lemma inet6_addr_returns:
  assumes "p + len \<le> length m" "length addr = 16"
  shows "\<exists>rc r. ngx_inet6_addr m p len addr = Some (rc, r) \<and> (rc = NGX_OK \<and> (\<exists>b. r = Some b \<and> length b = 16) \<or> rc = NGX_ERROR \<and> r = None)"
proof (cases "len = 0")
  case True
  then show ?thesis by (simp add: ngx_inet6_addr_def)
next
  case False
  let ?st = "\<lparr>i6_buf = addr, i6_addr = 0, i6_zero = None, i6_digit = None, i6_len4 = 0, i6_nibbles = 0, i6_word = 0, i6_n = 8\<rparr>"
  have rd: "rd m p = Some (m ! p)" using assms(1) False by simp
  obtain q k where q: "(if m ! p = ch CHR '':'' then (p + 1, len - 1) else (p, len)) = (q, k)" "p + len = q + k" using False by (cases "m ! p = ch CHR '':''") auto
  obtain r where r: "inet6_loop m q k ?st = Some r" "\<forall>st'. r = Some st' \<longrightarrow> i6_inv (p + len) st'"
    using inet6_loop_inv [of "p + len" ?st m q k] assms q(2) inet6_start by auto
  show ?thesis
  proof (cases r)
    case None
    then show ?thesis using False rd q(1) r(1) by (simp add: ngx_inet6_addr_def split_def)
  next
    case (Some st)
    then have inv: "i6_inv (p + len) st" using r(2) by simp
    let ?w = "take (i6_addr st) (i6_buf st) @ [ucast (drop_bit 8 (i6_word st)), ucast (i6_word st AND 0xff)]"
    have w: "length ?w = i6_addr st + 2" "i6_addr st + 2 \<le> 16" "i6_n st = 1 \<longrightarrow> i6_addr st + 2 = 16" using inv by (auto simp: i6_inv_def)
    have "\<exists>rc b. inet6_finish st = Some (rc, b) \<and> (rc = NGX_OK \<and> length b = 16 \<or> rc = NGX_ERROR)"
    proof (cases "i6_nibbles st = 0 \<and> i6_zero st = None")
      case True
      then show ?thesis by (simp add: inet6_finish_def)
    next
      case nz: False
      have "length (final6 ?w (i6_zero st)) = 16" if "i6_zero st \<noteq> None \<or> i6_n st = 1"
        using that w inv by (cases "i6_zero st") (auto simp: final6_def i6_inv_def)
      then show ?thesis using inet6_finish_final [OF inv refl] nz by auto
    qed
    then show ?thesis using False rd q(1) r(1) Some by (auto simp: ngx_inet6_addr_def split_def)
  qed
qed

text \<open>
  \<open>ngx_inet6_addr\<close> is safe: for every text it returns \<open>NGX_OK\<close> with an address of 16 bytes or \<open>NGX_ERROR\<close>, reads only the bytes
  of the text and writes only to the 16 bytes of the address, also when it moves the bytes behind \<open>::\<close> to their place.
\<close>
theorem ngx_inet6_addr_safe:
  assumes "p + len \<le> length m" "length addr = 16"
  shows "\<exists>rc r. ngx_inet6_addr m p len addr = Some (rc, r) \<and> (rc = NGX_OK \<and> (\<exists>b. r = Some b \<and> length b = 16) \<or> rc = NGX_ERROR \<and> r = None)"
  using assms by (rule inet6_addr_returns)

theorem ngx_inet6_addr_safe_witness:
  "\<exists>rc r. ngx_inet6_addr (bytes ''::1'') 0 3 (replicate 16 7) = Some (rc, r) \<and> (rc = NGX_OK \<and> (\<exists>b. r = Some b \<and> length b = 16) \<or> rc = NGX_ERROR \<and> r = None)"
  by (rule ngx_inet6_addr_safe) simp_all

section \<open>Hexadecimal words\<close>

fun nibbles :: "nat \<Rightarrow> nat list" where
  "nibbles n = (if n < 16 then [n] else nibbles (n div 16) @ [n mod 16])"

declare nibbles.simps [simp del]

definition hex_show :: "nat \<Rightarrow> byte list" where
  "hex_show n = map ((!) hex_digits) (nibbles n)"

lemma nibbles_small: "k \<in> set (nibbles n) \<Longrightarrow> k < 16"
  by (induction n rule: nibbles.induct) (subst (asm) nibbles.simps, auto split: if_splits)

lemma nibbles_value: "foldl (\<lambda>v k. v * 16 + k) 0 (nibbles n) = n"
proof (induction n rule: nibbles.induct)
  case (1 n)
  then show ?case by (subst nibbles.simps) simp
qed

lemma nibbles_length: "0 < length (nibbles n)" "n < 16 ^ k \<Longrightarrow> 0 < k \<Longrightarrow> length (nibbles n) \<le> k"
proof -
  show "0 < length (nibbles n)" by (subst nibbles.simps) simp
  show "n < 16 ^ k \<Longrightarrow> 0 < k \<Longrightarrow> length (nibbles n) \<le> k"
  proof (induction n arbitrary: k rule: nibbles.induct)
    case (1 n)
    then obtain j where k: "k = Suc j" by (cases k) auto
    show ?case
    proof (cases "n < 16")
      case False
      then have "n div 16 < 16 ^ j" "0 < j" using 1(2) k by (auto simp: less_mult_imp_div_less mult.commute intro: Nat.gr0I)
      then show ?thesis using 1(1) [OF False] k False by (subst nibbles.simps) simp
    qed (use k in \<open>simp add: nibbles.simps\<close>)
  qed
qed

lemma hex_loop_show:
  assumes "unat n < 16 ^ p" "0 < p"
  shows "hex_loop hex_digits p n ds = Some (hex_show (unat n) @ ds)"
  using assms
proof (induction p arbitrary: n ds)
  case (Suc p)
  have "n AND 0xf = take_bit 4 n" by (simp add: take_bit_eq_mask mask_numeral)
  then have k: "unat (n AND 0xf) = unat n mod 16" by (simp add: unsigned_take_bit_eq take_bit_nat_def)
  have "unat (drop_bit 4 n) = unat n div 2 ^ 4" unfolding unat_drop_bit_eq by (rule drop_bit_eq_div)
  then have q: "unat (drop_bit 4 n) = unat n div 16" by simp
  show ?case
  proof (cases "unat n < 16")
    case True
    then have "drop_bit 4 n = 0" using q by (simp add: unat_eq_0 [symmetric])
    then show ?thesis using True k by (simp add: hex_show_def nibbles.simps)
  next
    case False
    then have "drop_bit 4 n \<noteq> 0" using q by (auto simp: unat_eq_0 [symmetric])
    moreover have "unat (drop_bit 4 n) < 16 ^ p" using Suc.prems(1) q by (simp add: less_mult_imp_div_less mult.commute)
    moreover have "0 < p" using False Suc.prems(1) by (cases p) auto
    ultimately show ?thesis using Suc.IH [of "drop_bit 4 n"] q k False by (simp add: hex_show_def nibbles.simps [of "unat n"])
  qed
qed simp

lemma sprintf_hex:
  assumes "unat n < 65536" "dst + 16 < 2 ^ 64"
  shows "ngx_sprintf dst (bytes ''%uxi'') [V64 n] = Some (hex_show (unat n))"
proof -
  let ?cap = "2 ^ 64 - 1 - dst"
  have "unat n < 16 ^ 20" using assms(1) by simp
  then have h: "hex_loop hex_digits 20 n [] = Some (hex_show (unat n))" using hex_loop_show [of n 20 "[]"] by simp
  have "length (hex_show (unat n)) \<le> 4" using nibbles_length(2) [of "unat n" 4] assms(1) by (simp add: hex_show_def)
  then have "\<not> ?cap < length (hex_show (unat n))" using assms(2) by linarith
  then have "ngx_sprintf_num ?cap n 32 1 0 [] = Some (hex_show (unat n))"
    using h by (simp add: ngx_sprintf_num_def)
  then have "directive ?cap (bytes ''uxi'' @ []) [V64 n] [] = Some ([], [], hex_show (unat n))"
    by (simp add: bytes_def directive_def byte_simps convert_def int_arg_def put_int_def)
  from vsl_directive [OF this] show ?thesis using assms(2) unfolding ngx_sprintf_def by (simp add: bytes_def ngx_vslprintf.simps [of _ "[]"])
qed

section \<open>Printing an IPv6 address\<close>

text \<open>Words with colons between them, and words with colons behind them.\<close>

definition word16 :: "byte \<Rightarrow> byte \<Rightarrow> nat" where
  "word16 a b = unat a * 256 + unat b"

fun show_words :: "byte list \<Rightarrow> byte list" where
  "show_words [a, b] = hex_show (word16 a b)"
| "show_words (a # b # q) = hex_show (word16 a b) @ bytes '':'' @ show_words q"
| "show_words _ = []"

fun show_heads :: "byte list \<Rightarrow> byte list" where
  "show_heads (a # b # q) = hex_show (word16 a b) @ bytes '':'' @ show_heads q"
| "show_heads _ = []"

lemma word16_less: "word16 a b < 65536"
  using unat_less_256 [of a] unat_less_256 [of b] by (simp add: word16_def)

lemma word16_u64: "unat (ucast (a :: byte) * 256 + ucast (b :: byte) :: u64) = word16 a b"
proof -
  have "(ucast a * 256 + ucast b :: u64) = of_nat (word16 a b)" by (simp add: word16_def)
  then show ?thesis using word16_less [of a b] by (simp add: unat_of_nat_small)
qed

lemma hex_show_length: "length (hex_show (word16 a b)) \<le> 4" "0 < length (hex_show (word16 a b))"
  using nibbles_length [of "word16 a b"] nibbles_length(2) [of "word16 a b" 4] word16_less [of a b] by (simp_all add: hex_show_def)

lemma sprintf_word:
  assumes "dst + 16 < 2 ^ 64"
  shows "ngx_sprintf dst (bytes ''%uxi'') [V64 (ucast a * 256 + ucast b)] = Some (hex_show (word16 a b))"
  using sprintf_hex [of "ucast a * 256 + ucast b" dst] assms word16_less [of a b] by (simp add: word16_u64)

lemma ntop_word:
  assumes "length p = 16" "i < n" "zero \<noteq> Some i" "n \<le> 16" "even i" "even n" "txt + length out + 16 < 2 ^ 64"
  shows "ntop_loop p txt zero mx n i out = ntop_loop p txt zero mx n (i + 2) (out @ hex_show (word16 (p ! i) (p ! (i + 1))) @ (if i < 14 then bytes '':'' else []))"
proof -
  have "i + 1 < 16" using assms by (auto elim!: evenE)
  then have "rd p i = Some (p ! i)" "rd p (i + 1) = Some (p ! (i + 1))" using assms(1) by simp_all
  then show ?thesis using assms sprintf_word [of "txt + length out"] by (subst ntop_loop.simps) simp
qed

lemma drop_two: "i + 1 < length p \<Longrightarrow> drop i p = p ! i # p ! (i + 1) # drop (i + 2) p"
  by (simp add: Cons_nth_drop_Suc)

text \<open>The words behind the place of \<open>::\<close>, and those in front of it.\<close>

lemma show_words_drop:
  "i + 2 < length p \<Longrightarrow> show_words (drop i p) = hex_show (word16 (p ! i) (p ! (i + 1))) @ bytes '':'' @ show_words (drop (i + 2) p)"
  using drop_two [of i p] drop_two [of "i + 2" p] by (cases "drop (i + 2) p") auto

lemma ntop_words:
  assumes "length p = 16" "even i" "i \<le> 16" "\<forall>z. zero = Some z \<longrightarrow> z < i" "txt + length out + 5 * (16 - i) + 16 < 2 ^ 64"
  shows "ntop_loop p txt zero mx 16 i out = Some (out @ show_words (drop i p))"
  using assms(2-)
proof (induction "16 - i" arbitrary: i out rule: less_induct)
  case less
  show ?case
  proof (cases "i < 16")
    case False
    then show ?thesis using less.prems(2) assms(1) by (subst ntop_loop.simps) simp
  next
    case True
    let ?out = "out @ hex_show (word16 (p ! i) (p ! (i + 1))) @ (if i < 14 then bytes '':'' else [])"
    have e: "i + 2 \<le> 16" "even (i + 2)" using True less.prems(1) by (auto elim!: evenE)
    have "ntop_loop p txt zero mx 16 i out = ntop_loop p txt zero mx 16 (i + 2) ?out"
      using less.prems assms(1) True by (intro ntop_word) auto
    also have "\<dots> = Some (?out @ show_words (drop (i + 2) p))"
    proof (rule less.hyps)
      have "length ?out \<le> length out + 5" using hex_show_length(1) [of "p ! i" "p ! (i + 1)"] by simp
      then show "txt + length ?out + 5 * (16 - (i + 2)) + 16 < 2 ^ 64" using less.prems(4) e(1) by linarith
    qed (use e less.prems(3) True in auto)
    also have "\<dots> = Some (out @ show_words (drop i p))"
    proof (cases "i < 14")
      case l: True
      then show ?thesis using show_words_drop [of i p] assms(1) by simp
    next
      case False
      then have "i = 14" using True less.prems(1) by (auto elim!: evenE)
      then show ?thesis using drop_two [of i p] assms(1) by simp
    qed
    finally show ?thesis .
  qed
qed

lemma ntop_heads:
  assumes "length p = 16" "even i" "even z" "i \<le> z" "z < n" "n = 12 \<or> n = 16" "z \<le> 12" "txt + length out + 5 * (16 - i) + 16 < 2 ^ 64"
  shows "ntop_loop p txt (Some z) mx n i out = ntop_loop p txt (Some z) mx n z (out @ show_heads (take (z - i) (drop i p)))"
  using assms(2,4,8)
proof (induction "z - i" arbitrary: i out rule: less_induct)
  case less
  show ?case
  proof (cases "i = z")
    case False
    let ?w = "hex_show (word16 (p ! i) (p ! (i + 1))) @ bytes '':''"
    have e: "i + 2 \<le> z" "even (i + 2)" using False less.prems(1,2) assms(3) by (auto elim!: evenE)
    have "ntop_loop p txt (Some z) mx n i out = ntop_loop p txt (Some z) mx n (i + 2) (out @ hex_show (word16 (p ! i) (p ! (i + 1))) @ (if i < 14 then bytes '':'' else []))"
      using less.prems assms e by (intro ntop_word) auto
    also have "\<dots> = ntop_loop p txt (Some z) mx n (i + 2) (out @ ?w)" using e assms(7) by simp
    also have "\<dots> = ntop_loop p txt (Some z) mx n z ((out @ ?w) @ show_heads (take (z - (i + 2)) (drop (i + 2) p)))"
    proof (rule less.hyps)
      have "length (out @ ?w) \<le> length out + 5" using hex_show_length(1) [of "p ! i" "p ! (i + 1)"] by simp
      then show "txt + length (out @ ?w) + 5 * (16 - (i + 2)) + 16 < 2 ^ 64" using less.prems(3) e(1) assms(7) by linarith
    qed (use e in auto)
    also have "(out @ ?w) @ show_heads (take (z - (i + 2)) (drop (i + 2) p)) = out @ show_heads (take (z - i) (drop i p))"
    proof -
      obtain k where k: "z - i = Suc (Suc k)" using e(1) by (cases "z - i"; cases "z - i - 1") auto
      moreover have "i + 1 < length p" "z - (i + 2) = k" using e assms k by simp_all
      ultimately show ?thesis using drop_two [of i p] by simp
    qed
    finally show ?thesis .
  qed simp
qed

section \<open>The longest run of zero words\<close>

definition zeros :: "byte list \<Rightarrow> nat \<Rightarrow> nat \<Rightarrow> bool" where
  "zeros p i j \<longleftrightarrow> (\<forall>k. i \<le> k \<and> k < j \<longrightarrow> p ! k = 0)"

definition run_inv :: "byte list \<Rightarrow> nat \<Rightarrow> zero_run \<Rightarrow> bool" where
  "run_inv p i r = (case r of (zero, lst, mx, n) \<Rightarrow> 1 \<le> mx \<and>
     (\<forall>z. zero = Some z \<longrightarrow> even z \<and> z + 2 * mx \<le> i \<and> zeros p z (z + 2 * mx) \<and> 2 \<le> mx) \<and>
     (0 < n \<longrightarrow> 2 * n \<le> i \<and> lst = Some (i - 2 * n) \<and> zeros p (i - 2 * n) i) \<and> even i)"

lemma run_end_inv: "run_inv p i r \<Longrightarrow> run_inv p i (run_end r)"
  by (auto simp: run_inv_def run_end_def split: prod.splits if_splits)

lemma run_step_inv:
  assumes "run_inv p i r" "i + 1 < length p"
  shows "\<exists>r'. run_step p i r = Some r' \<and> run_inv p (i + 2) r'"
proof (cases "p ! i = 0 \<and> p ! (i + 1) = 0")
  case True
  obtain zero lst mx n where r: "r = (zero, lst, mx, n)" by (cases r)
  have "zeros p (i - 2 * n) (i + 2)" if "zeros p (i - 2 * n) i" for n
    unfolding zeros_def
  proof (intro allI impI)
    fix k assume k: "i - 2 * n \<le> k \<and> k < i + 2"
    then consider "k < i" | "k = i" | "k = i + 1" by linarith
    then show "p ! k = 0" using that k True by cases (auto simp: zeros_def)
  qed
  moreover have "zeros p i (i + 2)" using True by (auto simp: zeros_def less_Suc_eq)
  ultimately show ?thesis using assms True unfolding r by (cases "n = 0") (auto simp: run_step_def run_inv_def)
next
  case False
  then show ?thesis using run_end_inv [OF assms(1)] assms(2) by (auto simp: run_step_def run_inv_def split: prod.splits)
qed

lemma run_loop_steps:
  assumes "length p = 16" "run_inv p (2 * k) r" "k \<le> 8"
  shows "\<exists>r'. run_loop p (map ((*) 2) [k..<8]) r = Some r' \<and> run_inv p 16 r'"
  using assms(2,3)
proof (induction "8 - k" arbitrary: k r)
  case (Suc d)
  have k: "[k..<8] = k # [Suc k..<8]" "2 * k + 1 < length p" using Suc.hyps(2) assms(1) by (simp_all add: upt_conv_Cons)
  obtain r1 where r1: "run_step p (2 * k) r = Some r1" "run_inv p (2 * k + 2) r1" using run_step_inv [OF Suc.prems(1) k(2)] by blast
  have d: "d = 8 - Suc k" "Suc k \<le> 8" using Suc.hyps(2) by simp_all
  have "run_inv p (2 * Suc k) r1" using r1(2) by simp
  from Suc.hyps(1) [OF d(1) this d(2)] obtain r' where "run_loop p (map ((*) 2) [Suc k..<8]) r1 = Some r'" "run_inv p 16 r'" by blast
  then show ?case using r1(1) unfolding k(1) by auto
qed auto

lemma run_loop_inv:
  assumes "length p = 16"
  shows "\<exists>r. run_loop p [0, 2, 4, 6, 8, 10, 12, 14] (None, None, 1, 0) = Some r \<and> run_inv p 16 r"
proof -
  have "run_inv p (2 * 0) (None, None, 1, 0)" by (simp add: run_inv_def)
  moreover have "map ((*) 2) [0..<8] = [0, 2, 4, 6, 8, 10, 12, 14 :: nat]" by (simp add: upt_rec)
  ultimately show ?thesis using run_loop_steps [OF assms, of 0] by simp
qed

text \<open>The texts that are printed for an address.\<close>

inductive inet6_text :: "byte list \<Rightarrow> byte list \<Rightarrow> bool" where
  full: "inet6_text p (show_words p)"
| gap: "even z \<Longrightarrow> 2 \<le> k \<Longrightarrow> z + 2 * k \<le> 16 \<Longrightarrow> zeros p z (z + 2 * k) \<Longrightarrow>
    inet6_text p ((if z = 0 then bytes '':'' else []) @ show_heads (take z p) @ bytes '':'' @ show_words (drop (z + 2 * k) p))"
| mapped: "zeros p 0 10 \<Longrightarrow> p ! 10 = 255 \<Longrightarrow> p ! 11 = 255 \<Longrightarrow>
    inet6_text p (bytes ''::'' @ hex_show (word16 255 255) @ bytes '':'' @ v4_show (drop 12 p))"
| compatible: "zeros p 0 12 \<Longrightarrow> inet6_text p (bytes ''::'' @ v4_show (drop 12 p))"

lemma show_words_length: "even (length q) \<Longrightarrow> length (show_words q) \<le> 5 * (length q div 2) - (if q = [] then 0 else 1)"
proof (induction q rule: show_words.induct)
  case (1 a b)
  then show ?case using hex_show_length(1) [of a b] by simp
next
  case (2 a b v va)
  then show ?case using hex_show_length(1) [of a b] by (cases va) auto
qed auto

lemma show_heads_length: "length (show_heads q) \<le> 5 * (length q div 2)"
proof (induction q rule: show_heads.induct)
  case (1 a b q)
  then show ?case using hex_show_length(1) [of a b] by simp
qed simp_all

lemma inet6_text_length: "inet6_text p t \<Longrightarrow> length p = 16 \<Longrightarrow> length t \<le> 39"
proof (induction rule: inet6_text.induct)
  case (full p)
  then show ?case using show_words_length [of p] by (auto split: if_splits)
next
  case (gap z k p)
  have "length (show_heads (take z p)) \<le> 5 * (z div 2)" using show_heads_length [of "take z p"] gap by simp
  moreover have "length (show_words (drop (z + 2 * k) p)) \<le> 5 * ((16 - (z + 2 * k)) div 2)"
    using show_words_length [of "drop (z + 2 * k) p"] gap by (auto split: if_splits)
  moreover have "z div 2 + (16 - (z + 2 * k)) div 2 \<le> 6" using gap(1-3) by (auto elim!: evenE)
  ultimately show ?case by (auto split: if_splits)
next
  case (mapped p)
  then show ?case using hex_show_length(1) [of 255 255] v4_show_length(1) [of "drop 12 p"] by simp
next
  case (compatible p)
  then show ?case using v4_show_length(1) [of "drop 12 p"] by simp
qed

lemma ntop_v4:
  assumes "length p = 16" "txt + length out + 16 < 2 ^ 64"
  shows "do { a \<leftarrow> rd p 12; b \<leftarrow> rd p 13; c \<leftarrow> rd p 14; d \<leftarrow> rd p 15;
    v \<leftarrow> ngx_sprintf (txt + length out) (bytes ''%ud.%ud.%ud.%ud'') [V32 (ucast a), V32 (ucast b), V32 (ucast c), V32 (ucast d)];
    Some (out @ v) } = Some (out @ v4_show (drop 12 p))"
proof -
  have d: "drop 12 p = [p ! 12, p ! 13, p ! 14, p ! 15]" using assms(1) drop_two [of 12 p] drop_two [of 14 p] by simp
  have "ngx_sprintf (txt + length out) (bytes ''%ud.%ud.%ud.%ud'') [V32 (ucast (p ! 12)), V32 (ucast (p ! 13)), V32 (ucast (p ! 14)), V32 (ucast (p ! 15))]
    = Some (v4_show (drop 12 p))"
    using snprintf_v4 [of "drop 12 p" "2 ^ 64 - 1 - (txt + length out)"] assms unfolding ngx_sprintf_def d by simp
  then show ?thesis using assms(1) by simp
qed

lemma ntop_gap_head:
  assumes "length p = 16" "even z" "2 \<le> mx" "z + 2 * mx \<le> 16" "n = 16 \<or> n = 12 \<and> z = 0" "txt + 200 < 2 ^ 64" "out = (if z = 0 then bytes '':'' else [])"
  shows "ntop_loop p txt (Some z) mx n 0 out = ntop_loop p txt (Some z) mx n (z + 2 * mx) (out @ show_heads (take z p) @ bytes '':'')"
proof -
  have z: "z < n" "n = 12 \<or> n = 16" "z \<le> 12" using assms(2-5) by (auto elim!: evenE)
  then have "ntop_loop p txt (Some z) mx n 0 out = ntop_loop p txt (Some z) mx n z (out @ show_heads (take z p))"
    using ntop_heads [of p 0 z n "txt" out mx] assms by simp
  moreover have "Suc (Suc (z + (mx - Suc 0) * 2)) = z + 2 * mx" using assms(3) by (cases mx) auto
  ultimately show ?thesis using z(1) by (subst (asm) (2) ntop_loop.simps) simp
qed

text \<open>What is printed for an address with a run of \<open>mx\<close> zero words at \<open>z\<close>, without and with an IPv4 part.\<close>

lemma ntop_gap_text:
  assumes "length p = 16" "even z" "2 \<le> mx" "z + 2 * mx \<le> 16" "txt + 200 < 2 ^ 64"
  shows "ntop_loop p txt (Some z) mx 16 0 (if z = 0 then bytes '':'' else []) =
    Some ((if z = 0 then bytes '':'' else []) @ show_heads (take z p) @ bytes '':'' @ show_words (drop (z + 2 * mx) p))"
proof -
  let ?out = "if z = 0 then bytes '':'' else []"
  let ?w = "?out @ show_heads (take z p) @ bytes '':''"
  have "length ?w \<le> 42" using show_heads_length [of "take z p"] assms(1,4) div_le_mono [of z 16 2] by auto
  then have "ntop_loop p txt (Some z) mx 16 (z + 2 * mx) ?w = Some (?w @ show_words (drop (z + 2 * mx) p))"
    using ntop_words [of p "z + 2 * mx" "Some z" "txt" ?w mx] assms by simp
  then show ?thesis using ntop_gap_head [OF assms(1-4) _ assms(5) refl] by simp
qed

lemma ntop_dotted_text:
  assumes "length p = 16" "mx = 5 \<and> p ! 10 = 255 \<and> p ! 11 = 255 \<or> mx = 6 \<or> mx = 7" "txt + 200 < 2 ^ 64"
  shows "ntop_loop p txt (Some 0) mx 12 0 (bytes '':'') = Some (bytes ''::'' @ (if mx = 5 then hex_show (word16 255 255) @ bytes '':'' else []))"
proof -
  have b: "bytes ''::'' = bytes '':'' @ bytes '':''" by (simp add: bytes_def)
  have "ntop_loop p txt (Some 0) mx 12 0 (bytes '':'') = ntop_loop p txt (Some 0) mx 12 (2 * mx) (bytes ''::'')"
    using ntop_gap_head [of p 0 mx 12 "txt" "bytes '':''"] assms unfolding b by auto
  also have "\<dots> = Some (bytes ''::'' @ (if mx = 5 then hex_show (word16 255 255) @ bytes '':'' else []))"
  proof (cases "mx = 5")
    case True
    have "ntop_loop p txt (Some 0) mx 12 10 (bytes ''::'') = ntop_loop p txt (Some 0) mx 12 (10 + 2) (bytes ''::'' @ hex_show (word16 255 255) @ bytes '':'')"
      using ntop_word [of p 10 12 "Some 0" "txt" "bytes ''::''" mx] assms True by simp
    then show ?thesis using True by (simp add: ntop_loop.simps [of _ _ _ _ _ 12])
  qed (use assms(2) in \<open>auto simp: ntop_loop.simps\<close>)
  finally show ?thesis .
qed

lemma ngx_inet6_ntop_text:
  assumes "length p = 16" "NGX_INET6_ADDRSTRLEN \<le> len" "txt + 200 < 2 ^ 64"
  shows "\<exists>t. ngx_inet6_ntop p txt len = Some t \<and> inet6_text p t"
proof -
  obtain r where r: "run_loop p [0, 2, 4, 6, 8, 10, 12, 14] (None, None, 1, 0) = Some r" "run_inv p 16 (run_end r)"
    using run_loop_inv [OF assms(1)] run_end_inv by blast
  obtain zero lst mx k where e: "run_end r = (zero, lst, mx, k)" by (cases "run_end r")
  have ln: "\<not> len < 45" using assms(2) by simp
  show ?thesis
  proof (cases zero)
    case None
    have "ntop_loop p txt zero mx 16 0 [] = Some (show_words p)" using ntop_words [of p 0 zero "txt" "[]" mx] assms None by simp
    then have "ngx_inet6_ntop p txt len = Some (show_words p)" using r(1) e None ln by (simp add: ngx_inet6_ntop_def)
    then show ?thesis using inet6_text.full by blast
  next
    case (Some z)
    have z: "even z" "2 \<le> mx" "z + 2 * mx \<le> 16" "zeros p z (z + 2 * mx)" using r(2) e Some by (auto simp: run_inv_def)
    show ?thesis
    proof (cases "z = 0 \<and> (mx = 5 \<and> p ! 10 = 0xff \<and> p ! 11 = 0xff \<or> mx = 6 \<or> mx = 7 \<and> p ! 14 \<noteq> 0 \<and> p ! 15 \<noteq> 1)")
      case False
      then have "ngx_inet6_ntop p txt len = ntop_loop p txt (Some z) mx 16 0 (if z = 0 then bytes '':'' else [])"
        using r(1) e Some ln assms(1) by (auto simp: ngx_inet6_ntop_def)
      then show ?thesis using ntop_gap_text [OF assms(1) z(1-3) assms(3)] inet6_text.gap [OF z] by auto
    next
      case True
      then have m: "mx = 5 \<and> p ! 10 = 255 \<and> p ! 11 = 255 \<or> mx = 6 \<or> mx = 7" by auto
      let ?out = "bytes ''::'' @ (if mx = 5 then hex_show (word16 255 255) @ bytes '':'' else [])"
      have "txt + length ?out + 16 < 2 ^ 64" using hex_show_length(1) [of 255 255] assms(3) by simp
      then have "ngx_inet6_ntop p txt len = Some (?out @ v4_show (drop 12 p))"
        using ntop_dotted_text [OF assms(1) m assms(3)] ntop_v4 [OF assms(1), of "txt" ?out] True r(1) e Some ln assms(1) by (auto simp: ngx_inet6_ntop_def)
      moreover have "inet6_text p (?out @ v4_show (drop 12 p))"
      proof (cases "mx = 5")
        case five: True
        then show ?thesis using inet6_text.mapped [of p] z(4) m True by simp
      next
        case False
        then have "zeros p 0 12" using z(4) True by (auto simp: zeros_def)
        then show ?thesis using inet6_text.compatible [of p] False by simp
      qed
      ultimately show ?thesis by blast
    qed
  qed
qed

section \<open>Reading what was printed\<close>

lemma i6_digit_step:
  assumes "rd m p = Some c" "is_digit c" "i6_nibbles st < 4"
  shows "inet6_loop m p (Suc len) st =
    inet6_loop m (p + 1) len (st\<lparr>i6_nibbles := i6_nibbles st + 1, i6_word := i6_word st * 16 + ucast (c - ch CHR ''0'')\<rparr>)"
proof -
  have "c \<noteq> ch CHR '':''" "c \<noteq> ch CHR ''.''" using assms(2) by (auto simp: byte_simps)
  then show ?thesis using assms by simp
qed

lemma hex_digit_cases:
  assumes "k < 16"
  shows "hex_digits ! k \<noteq> ch CHR '':'' \<and> hex_digits ! k \<noteq> ch CHR ''.'' \<and>
    (if is_digit (hex_digits ! k) then ucast (hex_digits ! k - ch CHR ''0'') = (of_nat k :: u64)
     else ch CHR ''a'' \<le> hex_digits ! k OR 0x20 \<and> hex_digits ! k OR 0x20 \<le> ch CHR ''f'' \<and>
       ucast ((hex_digits ! k OR 0x20) - ch CHR ''a'') + 10 = (of_nat k :: u64))"
proof -
  have "\<forall>k \<in> set [0, 1, 2, 3, 4, 5, 6, 7, 8, 9, 10, 11, 12, 13, 14, 15]. hex_digits ! k \<noteq> ch CHR '':'' \<and> hex_digits ! k \<noteq> ch CHR ''.'' \<and>
    (if is_digit (hex_digits ! k) then ucast (hex_digits ! k - ch CHR ''0'') = (of_nat k :: u64)
     else ch CHR ''a'' \<le> hex_digits ! k OR 0x20 \<and> hex_digits ! k OR 0x20 \<le> ch CHR ''f'' \<and>
       ucast ((hex_digits ! k OR 0x20) - ch CHR ''a'') + 10 = (of_nat k :: u64))" by code_simp
  then show ?thesis using nibble_cases [OF assms] by auto
qed

lemma i6_nibble_step:
  assumes "rd m p = Some (hex_digits ! k)" "k < 16" "i6_nibbles st < 4"
  shows "inet6_loop m p (Suc len) st = inet6_loop m (p + 1) len (st\<lparr>i6_nibbles := i6_nibbles st + 1, i6_word := i6_word st * 16 + of_nat k\<rparr>)"
proof -
  have n: "\<not> 4 < i6_nibbles st + 1" using assms(3) by simp
  note d = hex_digit_cases [OF assms(2)]
  show ?thesis
  proof (cases "is_digit (hex_digits ! k)")
    case True
    then show ?thesis using i6_digit_step [OF assms(1) _ assms(3)] d by simp
  next
    case False
    then have "i6_word st * 16 + ucast ((hex_digits ! k OR 0x20) - ch CHR ''a'') + 10 = i6_word st * 16 + of_nat k" using d by (simp only: if_False add.assoc)
    then show ?thesis using assms(1) n d False by (simp only: inet6_loop.simps option.case if_False if_True simp_thms)
  qed
qed

lemma i6_nibbles_steps:
  assumes "reads m p (map ((!) hex_digits) ks)" "\<forall>k \<in> set ks. k < 16" "i6_nibbles st + length ks \<le> 4"
  shows "inet6_loop m p (length ks + len) st = inet6_loop m (p + length ks) len
    (st\<lparr>i6_nibbles := i6_nibbles st + length ks, i6_word := foldl (\<lambda>v k. v * 16 + of_nat k) (i6_word st) ks\<rparr>)"
  using assms
proof (induction ks arbitrary: p st)
  case (Cons k ks)
  have "inet6_loop m p (length (k # ks) + len) st = inet6_loop m (p + 1) (length ks + len) (st\<lparr>i6_nibbles := i6_nibbles st + 1, i6_word := i6_word st * 16 + of_nat k\<rparr>)"
    using Cons.prems i6_nibble_step [of m p k st "length ks + len"] by simp
  then show ?case using Cons.IH [of "p + 1" "st\<lparr>i6_nibbles := i6_nibbles st + 1, i6_word := i6_word st * 16 + of_nat k\<rparr>"] Cons.prems by simp
qed simp

lemma nibbles_word: "foldl (\<lambda>v k. v * 16 + of_nat k) (of_nat v :: u64) ks = of_nat (foldl (\<lambda>v k. v * 16 + k) v ks)"
proof (induction ks arbitrary: v)
  case (Cons k ks)
  then show ?case using Cons.IH [of "v * 16 + k"] by simp
qed simp

text \<open>The states in front of a word: \<open>w\<close> is what was read, \<open>zero\<close> the place of \<open>::\<close>.\<close>

definition at6 :: "nat \<Rightarrow> byte list \<Rightarrow> nat option \<Rightarrow> inet6 \<Rightarrow> bool" where
  "at6 stop w zero st \<longleftrightarrow> i6_inv stop st \<and> take (i6_addr st) (i6_buf st) = w \<and> i6_zero st = zero \<and> i6_nibbles st = 0 \<and> i6_word st = 0"

lemma at6_addr: "at6 stop w zero st \<Longrightarrow> i6_addr st = length w \<and> length w = 2 * (8 - i6_n st) \<and> length w \<le> 14 \<and> length (i6_buf st) = 16"
  by (auto simp: at6_def i6_inv_def)

lemma at6_hex:
  assumes "at6 stop w zero st" "reads m p (hex_show (word16 a b))"
  shows "inet6_loop m p (length (hex_show (word16 a b)) + len) st = inet6_loop m (p + length (hex_show (word16 a b))) len
    (st\<lparr>i6_nibbles := length (hex_show (word16 a b)), i6_word := of_nat (word16 a b)\<rparr>)"
  using i6_nibbles_steps [of m p "nibbles (word16 a b)" st len] assms nibbles_small hex_show_length(1) [of a b]
    nibbles_word [of 0 "nibbles (word16 a b)"] nibbles_value [of "word16 a b"]
  by (simp add: at6_def hex_show_def)

lemma word16_bytes: "ucast (drop_bit 8 (of_nat (word16 a b) :: u64)) = a" "ucast ((of_nat (word16 a b) :: u64) AND 0xff) = b"
proof -
  have u: "unat (of_nat (word16 a b) :: u64) = word16 a b" using word16_less [of a b] by (simp add: unat_of_nat_small)
  have "unat (drop_bit 8 (of_nat (word16 a b) :: u64)) = word16 a b div 2 ^ 8" unfolding unat_drop_bit_eq u by (rule drop_bit_eq_div)
  also have "\<dots> = unat a" using unat_less_256 [of b] by (simp add: word16_def)
  finally show "ucast (drop_bit 8 (of_nat (word16 a b) :: u64)) = a" by (metis of_nat_unat ucast_id)
  have "(of_nat (word16 a b) :: u64) AND 0xff = take_bit 8 (of_nat (word16 a b))" by (simp add: take_bit_eq_mask mask_numeral)
  then have "unat ((of_nat (word16 a b) :: u64) AND 0xff) = word16 a b mod 256" using u by (simp add: unsigned_take_bit_eq take_bit_nat_def)
  also have "\<dots> = unat b" using unat_less_256 [of b] by (simp add: word16_def)
  finally show "ucast ((of_nat (word16 a b) :: u64) AND 0xff) = b" by (metis of_nat_unat ucast_id)
qed

lemma take_put:
  assumes "i + 2 \<le> length buf"
  shows "take (i + 2) (buf[i := a, Suc i := b]) = take i buf @ [a, b]"
  using assms by (intro nth_equalityI) (auto simp: nth_append nth_Cons' nth_list_update less_Suc_eq not_less)

lemma at6_head:
  assumes "at6 stop w zero st" "length w \<le> 12" "reads m p (hex_show (word16 a b) @ bytes '':'')" "stop = p + length (hex_show (word16 a b)) + 1 + len"
  shows "\<exists>st'. inet6_loop m p (length (hex_show (word16 a b)) + 1 + len) st = inet6_loop m (p + length (hex_show (word16 a b)) + 1) len st' \<and>
    at6 stop (w @ [a, b]) zero st' \<and> i6_digit st' = Some (p + length (hex_show (word16 a b)) + 1)"
proof -
  let ?q = "p + length (hex_show (word16 a b))"
  let ?st = "st\<lparr>i6_nibbles := length (hex_show (word16 a b)), i6_word := of_nat (word16 a b)\<rparr>"
  let ?st' = "st\<lparr>i6_buf := (i6_buf st)[i6_addr st := a, Suc (i6_addr st) := b], i6_addr := i6_addr st + 2, i6_digit := Some (?q + 1), i6_len4 := Suc len,
    i6_n := i6_n st - 1, i6_nibbles := 0, i6_word := 0\<rparr>"
  note ad = at6_addr [OF assms(1)]
  have n: "2 \<le> i6_n st" "i6_n st \<le> 8" using ad assms(1,2) by (auto simp: at6_def i6_inv_def)
  have c: "rd m ?q = Some (ch CHR '':'')" using assms(3) by simp
  have "put_word ?st = Some (?st\<lparr>i6_buf := (i6_buf st)[i6_addr st := a, Suc (i6_addr st) := b], i6_addr := i6_addr st + 2\<rparr>)"
    unfolding put_word_def using ad by (subst put_two_in) (simp_all add: word16_bytes)
  then have "inet6_loop m ?q (Suc len) ?st = inet6_loop m (?q + 1) len ?st'" using c n hex_show_length(2) [of a b] by (simp add: Let_def)
  then have "inet6_loop m p (length (hex_show (word16 a b)) + 1 + len) st = inet6_loop m (?q + 1) len ?st'"
    using at6_hex [OF assms(1), of m p a b "Suc len"] assms(3) by simp
  moreover have "take (i6_addr st + 2) ((i6_buf st)[i6_addr st := a, Suc (i6_addr st) := b]) = w @ [a, b]"
    using take_put [of "i6_addr st" "i6_buf st" a b] ad assms(1) by (simp add: at6_def)
  then have "at6 stop (w @ [a, b]) zero ?st'"
    using assms(1,4) n by (auto simp: at6_def i6_inv_def le_SucI)
  ultimately show ?thesis by (intro exI [of _ ?st']) simp
qed

lemma at6_heads:
  assumes "at6 stop w zero st" "even (length q)" "length w + length q \<le> 14" "reads m p (show_heads q)" "stop = p + length (show_heads q) + len"
  shows "\<exists>st'. inet6_loop m p (length (show_heads q) + len) st = inet6_loop m (p + length (show_heads q)) len st' \<and>
    at6 stop (w @ q) zero st' \<and> (if q = [] then st' = st else i6_digit st' = Some (p + length (show_heads q)))"
  using assms
proof (induction q arbitrary: p w st rule: show_heads.induct)
  case (1 a b q)
  let ?n = "length (hex_show (word16 a b)) + 1"
  obtain st1 where st1: "inet6_loop m p (?n + (length (show_heads q) + len)) st = inet6_loop m (p + ?n) (length (show_heads q) + len) st1"
    "at6 stop (w @ [a, b]) zero st1" "i6_digit st1 = Some (p + ?n)"
    using at6_head [OF 1(2), of m p a b "length (show_heads q) + len"] 1(4-6) by (auto simp: add.assoc)
  obtain st2 where st2: "inet6_loop m (p + ?n) (length (show_heads q) + len) st1 = inet6_loop m (p + ?n + length (show_heads q)) len st2"
    "at6 stop ((w @ [a, b]) @ q) zero st2" "if q = [] then st2 = st1 else i6_digit st2 = Some (p + ?n + length (show_heads q))"
    using 1(1) [OF st1(2), of "p + ?n"] 1(3-6) by (auto simp: add.assoc)
  have "i6_digit st2 = Some (p + ?n + length (show_heads q))" using st2(3) st1(3) by (cases "q = []") simp_all
  moreover have "length (show_heads (a # b # q)) = ?n + length (show_heads q)" by simp
  ultimately show ?case using st1(1) st2(1,2) by (intro exI [of _ st2]) (simp only: add.assoc append_assoc append.simps list.simps if_False)
qed (auto intro!: exI [of _ st])

lemma at6_colon:
  assumes "at6 stop w None st" "rd m p = Some (ch CHR '':'')" "stop = p + 1 + len"
  shows "\<exists>st'. inet6_loop m p (1 + len) st = inet6_loop m (p + 1) len st' \<and> at6 stop w (Some (length w)) st' \<and> i6_digit st' = Some (p + 1)"
proof -
  let ?st = "st\<lparr>i6_digit := Some (p + 1), i6_len4 := Suc len, i6_zero := Some (i6_addr st)\<rparr>"
  have "inet6_loop m p (1 + len) st = inet6_loop m (p + 1) len ?st" using assms by (simp add: at6_def)
  moreover have "at6 stop w (Some (length w)) ?st" using assms(1,3) at6_addr [OF assms(1)] by (auto simp: at6_def i6_inv_def)
  ultimately show ?thesis by (intro exI [of _ ?st]) simp
qed

text \<open>The state behind the loop, and the address that \<open>w\<close> and \<open>zero\<close> give.\<close>

definition end6 :: "nat \<Rightarrow> byte list \<Rightarrow> nat option \<Rightarrow> inet6 \<Rightarrow> bool" where
  "end6 stop w zero st \<longleftrightarrow> i6_inv stop st \<and> i6_zero st = zero \<and> (i6_nibbles st \<noteq> 0 \<or> zero \<noteq> None) \<and>
     w = take (i6_addr st) (i6_buf st) @ [ucast (drop_bit 8 (i6_word st)), ucast (i6_word st AND 0xff)]"

lemma end6_finish:
  assumes "end6 stop w zero st" "if zero = None then length w = 16 else length w < 16"
  shows "inet6_finish st = Some (NGX_OK, final6 w zero)"
proof -
  have "length w = 2 * (8 - i6_n st) + 2" "1 \<le> i6_n st" "i6_n st \<le> 8" using assms(1) by (auto simp: end6_def i6_inv_def)
  then have "i6_zero st \<noteq> None \<and> i6_n st \<noteq> 1 \<or> i6_zero st = None \<and> i6_n st = 1"
    using assms by (auto simp: end6_def split: if_splits)
  then show ?thesis using inet6_finish_final [of stop st w] assms(1) by (simp add: end6_def)
qed

lemma at6_last:
  assumes "at6 stop w zero st" "reads m p (hex_show (word16 a b))"
  shows "\<exists>st'. inet6_loop m p (length (hex_show (word16 a b))) st = Some (Some st') \<and> end6 stop (w @ [a, b]) zero st'"
proof -
  let ?st = "st\<lparr>i6_nibbles := length (hex_show (word16 a b)), i6_word := of_nat (word16 a b)\<rparr>"
  have "inet6_loop m p (length (hex_show (word16 a b))) st = Some (Some ?st)" using at6_hex [OF assms, of 0] by simp
  moreover have "end6 stop (w @ [a, b]) zero ?st" using assms(1) hex_show_length(2) [of a b] by (auto simp: at6_def end6_def i6_inv_def word16_bytes)
  ultimately show ?thesis by blast
qed

lemma at6_words:
  assumes "at6 stop w zero st" "even (length q)" "q \<noteq> []" "length w + length q \<le> 16" "reads m p (show_words q)" "stop = p + length (show_words q)"
  shows "\<exists>st'. inet6_loop m p (length (show_words q)) st = Some (Some st') \<and> end6 stop (w @ q) zero st'"
  using assms
proof (induction q arbitrary: p w st rule: show_words.induct)
  case (1 a b)
  then show ?case using at6_last by simp
next
  case (2 a b v va)
  let ?q = "v # va"
  let ?n = "length (hex_show (word16 a b)) + 1"
  have r: "reads m p (hex_show (word16 a b) @ bytes '':'')" "reads m (p + ?n) (show_words ?q)" using 2(6) by simp_all
  have st: "stop = p + ?n + length (show_words ?q)" using 2(7) by simp
  obtain st1 where st1: "inet6_loop m p (?n + length (show_words ?q)) st = inet6_loop m (p + ?n) (length (show_words ?q)) st1" "at6 stop (w @ [a, b]) zero st1"
  proof -
    have "length w \<le> 12" using 2(3,5) by (cases va) auto
    then show ?thesis using that at6_head [OF 2(2) _ r(1), of "length (show_words ?q)"] st by (auto simp: add.assoc)
  qed
  obtain st2 where "inet6_loop m (p + ?n) (length (show_words ?q)) st1 = Some (Some st2)" "end6 stop ((w @ [a, b]) @ ?q) zero st2"
    using 2(1) [OF st1(2) _ _ _ r(2) st] 2(3,5) by auto
  then show ?case using st1(1) by simp
qed auto

lemma i6_digits_steps:
  assumes "reads m p ds" "list_all is_digit ds" "i6_nibbles st + length ds \<le> 4"
  shows "\<exists>wd. inet6_loop m p (length ds + len) st = inet6_loop m (p + length ds) len (st\<lparr>i6_nibbles := i6_nibbles st + length ds, i6_word := wd\<rparr>)"
  using assms
proof (induction ds arbitrary: p st)
  case Nil
  then show ?case by (intro exI [of _ "i6_word st"]) simp
next
  case (Cons c ds)
  let ?st = "st\<lparr>i6_nibbles := i6_nibbles st + 1, i6_word := i6_word st * 16 + ucast (c - ch CHR ''0'')\<rparr>"
  have "inet6_loop m p (length (c # ds) + len) st = inet6_loop m (p + 1) (length ds + len) ?st"
    using Cons.prems i6_digit_step [of m p c st "length ds + len"] by simp
  moreover obtain wd where "inet6_loop m (p + 1) (length ds + len) ?st = inet6_loop m (p + 1 + length ds) len (?st\<lparr>i6_nibbles := i6_nibbles ?st + length ds, i6_word := wd\<rparr>)"
    using Cons.IH [of "p + 1" ?st] Cons.prems by auto
  ultimately show ?case by (intro exI [of _ wd]) simp
qed

lemma v4_words:
  fixes x :: u32
  shows "ucast (drop_bit 24 (ucast x :: u64) AND 0xff) = (ucast (drop_bit 24 x) :: byte)" "ucast (drop_bit 16 (ucast x :: u64) AND 0xff) = (ucast (drop_bit 16 x) :: byte)"
    "ucast (drop_bit 8 (ucast x :: u64)) = (ucast (drop_bit 8 x) :: byte)" "ucast ((ucast x :: u64) AND 0xff) = (ucast x :: byte)"
proof -
  have "(0xff :: u64) = mask 8" by (simp add: mask_eq_exp_minus_1)
  note m = this
  show "ucast (drop_bit 24 (ucast x :: u64) AND 0xff) = (ucast (drop_bit 24 x) :: byte)" "ucast (drop_bit 16 (ucast x :: u64) AND 0xff) = (ucast (drop_bit 16 x) :: byte)"
    "ucast (drop_bit 8 (ucast x :: u64)) = (ucast (drop_bit 8 x) :: byte)" "ucast ((ucast x :: u64) AND 0xff) = (ucast x :: byte)"
    unfolding m by (rule bit_word_eqI, auto simp: bit_simps)+
qed

lemma inaddr_none: "in_addr_bytes r = replicate 4 255 \<longleftrightarrow> r = INADDR_NONE"
proof -
  have "in_addr_bytes INADDR_NONE = replicate 4 255" by code_simp
  then show ?thesis using in_addr_bytes_inj by metis
qed

lemma v4_stored:
  assumes inv: "i6_inv stop st" and n: "2 \<le> i6_n st" and d: "i6_digit st = Some p" "i6_zero st = zero" "zero \<noteq> None"
    and r: "ngx_inet_addr m p (i6_len4 st - 1) = Some r" "r \<noteq> INADDR_NONE"
  shows "\<exists>st'. inet6_v4 m st = Some (Some st') \<and> end6 stop (take (i6_addr st) (i6_buf st) @ in_addr_bytes r) zero st'"
proof -
  let ?wd = "ucast (ntohl r) :: u64"
  let ?buf = "(i6_buf st)[i6_addr st := ucast (drop_bit 24 ?wd AND 0xff), Suc (i6_addr st) := ucast (drop_bit 16 ?wd AND 0xff)]"
  let ?st = "st\<lparr>i6_word := ?wd, i6_buf := ?buf, i6_addr := i6_addr st + 2, i6_n := i6_n st - 1\<rparr>"
  have a: "length (i6_buf st) = 16" "i6_addr st \<le> 12" using inv n by (auto simp: i6_inv_def)
  have "put_two (ucast (drop_bit 24 ?wd AND 0xff)) (ucast (drop_bit 16 ?wd AND 0xff)) (st\<lparr>i6_word := ?wd\<rparr>) = Some (st\<lparr>i6_word := ?wd, i6_buf := ?buf, i6_addr := i6_addr st + 2\<rparr>)"
    using a by (subst put_two_in) simp_all
  then have "inet6_v4 m st = Some (Some ?st)" using n d r by (simp add: inet6_v4_def Let_def)
  moreover have "in_addr_bytes r = in_addr_bytes (htonl (htonl r))" by (simp add: htonl_htonl)
  then have "take (i6_addr st) (i6_buf st) @ in_addr_bytes r = take (i6_addr st + 2) ?buf @ [ucast (drop_bit 8 ?wd), ucast (?wd AND 0xff)]"
    unfolding in_addr_bytes_htonl using a by (subst take_put) (simp_all add: v4_words)
  then have "end6 stop (take (i6_addr st) (i6_buf st) @ in_addr_bytes r) zero ?st"
    using inv n d by (auto simp: end6_def i6_inv_def le_SucI)
  ultimately show ?thesis by blast
qed

lemma at6_v4:
  assumes "at6 stop w zero st" "length w \<le> 12" "zero \<noteq> None" "length v = 4" "reads m p (v4_show v)" "stop = p + length (v4_show v)" "i6_digit st = Some p"
  shows "\<exists>r. inet6_loop m p (length (v4_show v)) st = Some r \<and> (if v = replicate 4 255 then r = None else \<exists>st'. r = Some st' \<and> end6 stop (w @ v) zero st')"
proof -
  obtain a b c d where v: "v = [a, b, c, d]" using assms(4) by (auto simp: numeral_eq_Suc length_Suc_conv)
  obtain tail where tail: "v4_show v = dec_show (unat a) @ ch CHR ''.'' # tail" unfolding v v4_show_simps by (simp add: bytes_def)
  let ?n = "length (dec_show (unat a))"
  have "i6_nibbles st + ?n \<le> 4" using byte_show_length(1) [of a] assms(1) by (simp add: at6_def)
  then obtain wd where wd: "inet6_loop m p (?n + Suc (length tail)) st = inet6_loop m (p + ?n) (Suc (length tail)) (st\<lparr>i6_nibbles := i6_nibbles st + ?n, i6_word := wd\<rparr>)"
    using i6_digits_steps [of m p "dec_show (unat a)" st "Suc (length tail)"] dec_show_digits assms(5) tail by auto
  let ?st = "st\<lparr>i6_nibbles := i6_nibbles st + ?n, i6_word := wd\<rparr>"
  have dot: "rd m (p + ?n) = Some (ch CHR ''.'')" "ch CHR ''.'' \<noteq> ch CHR '':''" using assms(5) tail by (simp_all add: byte_simps)
  have loop: "inet6_loop m p (length (v4_show v)) st = inet6_v4 m ?st" using wd dot by (simp add: tail)
  have inv: "i6_inv stop ?st" "2 \<le> i6_n ?st" using assms(1,2) by (auto simp: at6_def i6_inv_def)
  then have "i6_len4 ?st - 1 = length (v4_show v)" using assms(6,7) by (auto simp: i6_inv_def)
  then obtain r where r: "ngx_inet_addr m p (i6_len4 ?st - 1) = Some r" "in_addr_bytes r = v" using inet_addr_v4 [OF assms(4,5)] by auto
  show ?thesis
  proof (cases "r = INADDR_NONE")
    case True
    moreover have "inet6_v4 m ?st = Some None" using r(1) True inv(2) assms(7) by (simp add: inet6_v4_def)
    ultimately show ?thesis using r(2) inaddr_none loop by auto
  next
    case False
    then have "v \<noteq> replicate 4 255" using r(2) inaddr_none by auto
    moreover have "w = take (i6_addr ?st) (i6_buf ?st)" "i6_zero ?st = zero" using assms(1) by (simp_all add: at6_def)
    ultimately show ?thesis using v4_stored [OF inv _ _ assms(3) r(1) False] assms(7) r(2) loop by auto
  qed
qed

lemma hex_show_chars: "ch CHR '':'' \<notin> set (hex_show n)" "ch CHR ''.'' \<notin> set (hex_show n)"
  using hex_digit_cases nibbles_small [of _ n] by (fastforce simp: hex_show_def)+

lemma colon_no_dot: "ch CHR ''.'' \<notin> set (bytes '':'')" "ch CHR ''.'' \<noteq> ch CHR '':''"
  by (simp_all add: byte_simps)

lemma show_words_no_dot: "ch CHR ''.'' \<notin> set (show_words q)"
  by (induction q rule: show_words.induct) (simp_all add: hex_show_chars colon_no_dot)

lemma show_heads_no_dot: "ch CHR ''.'' \<notin> set (show_heads q)"
  by (induction q rule: show_heads.induct) (simp_all add: hex_show_chars colon_no_dot)

lemma v4_show_dot: "length v = 4 \<Longrightarrow> ch CHR ''.'' \<in> set (v4_show v)"
  by (auto simp: numeral_eq_Suc length_Suc_conv v4_show_simps bytes_def)

text \<open>The two ways in which a text starts.\<close>

abbreviation (input) start6 :: "byte list \<Rightarrow> inet6" where
  "start6 addr \<equiv> \<lparr>i6_buf = addr, i6_addr = 0, i6_zero = None, i6_digit = None, i6_len4 = 0, i6_nibbles = 0, i6_word = 0, i6_n = 8\<rparr>"

lemma start6_at: "length addr = 16 \<Longrightarrow> at6 stop [] None (start6 addr)"
  by (simp add: at6_def i6_inv_def)

lemma addr6_word:
  assumes "reads m p t" "t \<noteq> []" "hd t \<noteq> ch CHR '':''" "inet6_loop m p (length t) (start6 addr) = Some (Some st)" "inet6_finish st = Some (NGX_OK, b)"
  shows "ngx_inet6_addr m p (length t) addr = Some (NGX_OK, Some b)"
  using assms by (cases t) (simp_all add: ngx_inet6_addr_def)

lemma addr6_colons:
  assumes "reads m p (bytes ''::'' @ t)" "length addr = 16"
  shows "\<exists>st. at6 (p + length (bytes ''::'' @ t)) [] (Some 0) st \<and> i6_digit st = Some (p + 2) \<and>
    ngx_inet6_addr m p (length (bytes ''::'' @ t)) addr =
      do { r \<leftarrow> inet6_loop m (p + 2) (length t) st;
           (case r of None \<Rightarrow> Some (NGX_ERROR, None)
            | Some st \<Rightarrow> do { (rc, buf) \<leftarrow> inet6_finish st; Some (rc, if rc = NGX_OK then Some buf else None) }) }"
proof -
  have r: "rd m p = Some (ch CHR '':'')" "rd m (p + 1) = Some (ch CHR '':'')" using assms(1) by simp_all
  obtain st where st: "inet6_loop m (p + 1) (1 + length t) (start6 addr) = inet6_loop m (p + 1 + 1) (length t) st" "at6 (p + 1 + 1 + length t) [] (Some (length ([] :: byte list))) st"
    "i6_digit st = Some (p + 1 + 1)"
    using at6_colon [OF start6_at [OF assms(2)] r(2) refl] by blast
  have "ngx_inet6_addr m p (length (bytes ''::'' @ t)) addr =
      do { r \<leftarrow> inet6_loop m (p + 1) (1 + length t) (start6 addr);
           (case r of None \<Rightarrow> Some (NGX_ERROR, None)
            | Some st \<Rightarrow> do { (rc, buf) \<leftarrow> inet6_finish st; Some (rc, if rc = NGX_OK then Some buf else None) }) }"
    using r(1) by (simp add: ngx_inet6_addr_def)
  then show ?thesis using st by (intro exI [of _ st]) simp
qed

lemma addr6_finish:
  assumes "end6 stop w zero st" "if zero = None then length w = 16 else length w < 16"
  shows "(case Some st of None \<Rightarrow> Some (NGX_ERROR, None)
            | Some st \<Rightarrow> do { (rc, buf) \<leftarrow> inet6_finish st; Some (rc, if rc = NGX_OK then Some buf else None) }) = Some (NGX_OK, Some (final6 w zero))"
  using end6_finish [OF assms] by simp

lemma zeros_gap:
  assumes "zeros p z (z + k)" "z + k \<le> length p"
  shows "p = take z p @ replicate k 0 @ drop (z + k) p"
proof -
  have "take k (drop z p) = replicate k 0" using assms by (intro nth_equalityI) (auto simp: zeros_def)
  then show ?thesis using append_take_drop_id [of z p] append_take_drop_id [of k "drop z p"] by (simp add: add.commute)
qed

lemma at6_tail:
  assumes "at6 stop w (Some (length w)) st" "even (length q)" "length w + length q \<le> 12" "reads m p (show_words q)" "stop = p + length (show_words q)"
  shows "\<exists>st'. inet6_loop m p (length (show_words q)) st = Some (Some st') \<and> inet6_finish st' = Some (NGX_OK, w @ replicate (16 - length w - length q) 0 @ q)"
proof (cases "q = []")
  case True
  have e: "end6 stop (w @ [0, 0]) (Some (length w)) st" using assms(1) by (simp add: at6_def end6_def)
  have "16 - length w = Suc (Suc (14 - length w))" using assms(3) by simp
  then have "final6 (w @ [0, 0]) (Some (length w)) = w @ replicate (16 - length w) 0"
    using assms(3) by (simp add: final6_def replicate_append_same [symmetric])
  then show ?thesis using end6_finish [OF e] True assms(3) by simp
next
  case False
  obtain st' where st': "inet6_loop m p (length (show_words q)) st = Some (Some st')" "end6 stop (w @ q) (Some (length w)) st'"
    using at6_words [OF assms(1,2) False _ assms(4,5)] assms(3) by auto
  then show ?thesis using end6_finish [OF st'(2)] assms(3) by (simp add: final6_def)
qed

lemma inet6_v4_read:
  assumes "length p = 16" "length addr = 16" "even (length h)" "length h \<le> 4" "zeros p 0 (12 - length h)" "h = take (length h) (drop (12 - length h) p)"
    "reads m q (bytes ''::'' @ show_heads h @ v4_show (drop 12 p))"
  shows "ngx_inet6_addr m q (length (bytes ''::'' @ show_heads h @ v4_show (drop 12 p))) addr =
    Some (if drop 12 p = replicate 4 255 then (NGX_ERROR, None) else (NGX_OK, Some p))"
proof -
  let ?v = "drop 12 p"
  let ?t = "show_heads h @ v4_show ?v"
  obtain st where st: "at6 (q + length (bytes ''::'' @ ?t)) [] (Some 0) st" "i6_digit st = Some (q + 2)"
    "ngx_inet6_addr m q (length (bytes ''::'' @ ?t)) addr =
      do { r \<leftarrow> inet6_loop m (q + 2) (length ?t) st;
           (case r of None \<Rightarrow> Some (NGX_ERROR, None)
            | Some st \<Rightarrow> do { (rc, buf) \<leftarrow> inet6_finish st; Some (rc, if rc = NGX_OK then Some buf else None) }) }"
    using addr6_colons [OF assms(7,2)] by blast
  have r: "reads m (q + 2) (show_heads h)" "reads m (q + 2 + length (show_heads h)) (v4_show ?v)" using assms(7) by simp_all
  obtain st1 where st1: "inet6_loop m (q + 2) (length (show_heads h) + length (v4_show ?v)) st = inet6_loop m (q + 2 + length (show_heads h)) (length (v4_show ?v)) st1"
    "at6 (q + length (bytes ''::'' @ ?t)) h (Some 0) st1" "i6_digit st1 = Some (q + 2 + length (show_heads h))"
    using at6_heads [OF st(1) assms(3) _ r(1), of "length (v4_show ?v)"] assms(4) st(2) by (auto split: if_splits)
  obtain r' where r': "inet6_loop m (q + 2 + length (show_heads h)) (length (v4_show ?v)) st1 = Some r'"
    "if ?v = replicate 4 255 then r' = None else \<exists>st'. r' = Some st' \<and> end6 (q + length (bytes ''::'' @ ?t)) (h @ ?v) (Some 0) st'"
    using at6_v4 [OF st1(2) _ _ _ r(2) _ st1(3)] assms(1,4) by auto
  have p: "final6 (h @ ?v) (Some 0) = p"
  proof -
    have "drop (12 - length h) p = h @ ?v" using append_take_drop_id [of "length h" "drop (12 - length h) p"] assms(4,6) by simp
    then show ?thesis using zeros_gap [of p 0 "12 - length h"] assms(1,4,5) by (simp add: final6_def)
  qed
  show ?thesis
  proof (cases "?v = replicate 4 255")
    case True
    then show ?thesis using st(3) st1(1) r' by simp
  next
    case False
    then obtain st' where "r' = Some st'" "end6 (q + length (bytes ''::'' @ ?t)) (h @ ?v) (Some 0) st'" using r'(2) by auto
    then show ?thesis using st(3) st1(1) r'(1) end6_finish [of _ "h @ ?v" "Some 0" st'] False p assms(1,4) by simp
  qed
qed

lemma inet6_gap_read:
  assumes "length p = 16" "length addr = 16" "even z" "2 \<le> k" "z + 2 * k \<le> 16" "zeros p z (z + 2 * k)"
    "t = (if z = 0 then bytes '':'' else []) @ show_heads (take z p) @ bytes '':'' @ show_words (drop (z + 2 * k) p)" "reads m q t"
  shows "ngx_inet6_addr m q (length t) addr = Some (NGX_OK, Some p)"
proof -
  let ?w = "take z p" and ?q = "drop (z + 2 * k) p"
  have l: "length ?w = z" "length ?q = 16 - (z + 2 * k)" "even (length ?q)" "length ?w + length ?q \<le> 12" using assms by auto
  have p: "?w @ replicate (16 - length ?w - length ?q) 0 @ ?q = p" using zeros_gap [OF assms(6)] assms(1,5) l(1,2) by simp
  show ?thesis
  proof (cases "z = 0")
    case True
    then have t: "t = bytes ''::'' @ show_words ?q" using assms(7) by (simp add: bytes_def)
    obtain st where st: "at6 (q + length t) [] (Some 0) st" "ngx_inet6_addr m q (length t) addr =
      do { r \<leftarrow> inet6_loop m (q + 2) (length (show_words ?q)) st;
           (case r of None \<Rightarrow> Some (NGX_ERROR, None)
            | Some st \<Rightarrow> do { (rc, buf) \<leftarrow> inet6_finish st; Some (rc, if rc = NGX_OK then Some buf else None) }) }"
      using addr6_colons [of m q "show_words ?q" addr] assms(2,8) t by auto
    obtain st' where "inet6_loop m (q + 2) (length (show_words ?q)) st = Some (Some st')" "inet6_finish st' = Some (NGX_OK, p)"
      using at6_tail [of "q + length t" "[]" st ?q m "q + 2"] st(1) l p True assms(1,8) t by auto
    then show ?thesis using st(2) by simp
  next
    case False
    let ?n = "length (show_heads ?w)" and ?stop = "q + length t"
    have t: "t = show_heads ?w @ bytes '':'' @ show_words ?q" using assms(7) False by simp
    have r: "reads m q (show_heads ?w)" "rd m (q + ?n) = Some (ch CHR '':'')" "reads m (q + ?n + 1) (show_words ?q)" using assms(8) t by simp_all
    obtain st1 where st1: "inet6_loop m q (?n + (1 + length (show_words ?q))) (start6 addr) = inet6_loop m (q + ?n) (1 + length (show_words ?q)) st1" "at6 ?stop ?w None st1"
      using at6_heads [OF start6_at [OF assms(2)] _ _ r(1), of ?stop "1 + length (show_words ?q)"] assms(3) l t by auto
    obtain st2 where st2: "inet6_loop m (q + ?n) (1 + length (show_words ?q)) st1 = inet6_loop m (q + ?n + 1) (length (show_words ?q)) st2" "at6 ?stop ?w (Some (length ?w)) st2"
      using at6_colon [OF st1(2) r(2), of "length (show_words ?q)"] t by auto
    obtain st' where st': "inet6_loop m (q + ?n + 1) (length (show_words ?q)) st2 = Some (Some st')" "inet6_finish st' = Some (NGX_OK, p)"
      using at6_tail [OF st2(2) l(3,4) r(3)] t p by auto
    obtain a b w where w: "?w = a # b # w" using l(1) False assms(3) by (cases ?w rule: show_heads.cases) auto
    then have "t \<noteq> []" "hd t \<noteq> ch CHR '':''" using t hex_show_length(2) [of a b] hex_show_chars(1) [of "word16 a b"] by (auto simp: hd_append dest: hd_in_set)
    then show ?thesis using addr6_word [OF assms(8) _ _ _ st'(2)] st1(1) st2(1) st'(1) t by simp
  qed
qed

lemma inet6_full_read:
  assumes "length p = 16" "length addr = 16" "reads m q (show_words p)"
  shows "ngx_inet6_addr m q (length (show_words p)) addr = Some (NGX_OK, Some p)"
proof -
  obtain a b v va where p: "p = a # b # v # va" using assms(1) by (auto simp: numeral_eq_Suc length_Suc_conv)
  obtain st where st: "inet6_loop m q (length (show_words p)) (start6 addr) = Some (Some st)" "end6 (q + length (show_words p)) p None st"
    using at6_words [OF start6_at [OF assms(2)] _ _ _ assms(3) refl] assms(1) p by auto
  have "show_words p \<noteq> []" "hd (show_words p) \<noteq> ch CHR '':''"
    using hex_show_length(2) [of a b] hex_show_chars(1) [of "word16 a b"] unfolding p by (auto simp: hd_append dest: hd_in_set)
  then show ?thesis using addr6_word [OF assms(3) _ _ st(1)] end6_finish [OF st(2)] assms(1) by (simp add: final6_def)
qed

lemma inet6_text_read:
  assumes "inet6_text p t" "length p = 16" "length addr = 16" "reads m q t"
  shows "ngx_inet6_addr m q (length t) addr = Some (if ch CHR ''.'' \<in> set t \<and> drop 12 p = replicate 4 255 then (NGX_ERROR, None) else (NGX_OK, Some p))"
  using assms
proof (induction rule: inet6_text.induct)
  case (full p)
  then show ?case using inet6_full_read by (simp add: show_words_no_dot)
next
  case (gap z k p)
  then show ?case using inet6_gap_read [OF gap(5,6,1-4) refl gap(7)] show_heads_no_dot [of "take z p"] show_words_no_dot [of "drop (z + 2 * k) p"] by (simp add: colon_no_dot)
next
  case (mapped p)
  let ?t = "bytes ''::'' @ show_heads [255, 255] @ v4_show (drop 12 p)"
  have h: "[255, 255] = take (length [255, 255 :: byte]) (drop (12 - length [255, 255 :: byte]) p)" using drop_two [of 10 p] mapped by simp
  have t: "bytes ''::'' @ hex_show (word16 255 255) @ bytes '':'' @ v4_show (drop 12 p) = ?t" by simp
  have "ngx_inet6_addr m q (length ?t) addr = Some (if drop 12 p = replicate 4 255 then (NGX_ERROR, None) else (NGX_OK, Some p))"
    using mapped unfolding t by (intro inet6_v4_read [OF _ _ _ _ _ h]) simp_all
  moreover have "ch CHR ''.'' \<in> set ?t" using v4_show_dot [of "drop 12 p"] mapped by simp
  ultimately show ?case unfolding t by simp
next
  case (compatible p)
  have "ngx_inet6_addr m q (length (bytes ''::'' @ v4_show (drop 12 p))) addr = Some (if drop 12 p = replicate 4 255 then (NGX_ERROR, None) else (NGX_OK, Some p))"
    using compatible inet6_v4_read [of p addr "[]" m q] by simp
  moreover have "ch CHR ''.'' \<in> set (v4_show (drop 12 p))" using v4_show_dot compatible by simp
  ultimately show ?case by simp
qed

text \<open>
  C19: IPv6 addresses round trip. With room for 45 bytes, \<open>ngx_inet6_ntop\<close> prints every address, as at most 39 bytes, and \<open>ngx_inet6_addr\<close>
  reads the text back as the same address. One text is refused: an address that is printed with a dotted IPv4 part of
  \<open>255.255.255.255\<close>, because \<open>ngx_inet_addr\<close> has the same value for this part as for an error.
\<close>
theorem ngx_inet6_roundtrip:
  assumes "length p = 16" "length addr = 16" "NGX_INET6_ADDRSTRLEN \<le> len" "txt + 200 < 2 ^ 64"
  shows "\<exists>t. ngx_inet6_ntop p txt len = Some t \<and> length t \<le> 39 \<and>
    ngx_inet6_addr t 0 (length t) addr = Some (if ch CHR ''.'' \<in> set t \<and> drop 12 p = replicate 4 255 then (NGX_ERROR, None) else (NGX_OK, Some p))"
  using ngx_inet6_ntop_text [OF assms(1,3,4)] inet6_text_length assms(1,2) inet6_text_read reads_self by blast

theorem ngx_inet6_roundtrip_witness:
  "\<exists>t. ngx_inet6_ntop (replicate 15 0 @ [1]) 0 45 = Some t \<and> length t \<le> 39 \<and> ngx_inet6_addr t 0 (length t) (replicate 16 7) = Some (NGX_OK, Some (replicate 15 0 @ [1]))"
  proof -
  have "drop 12 (replicate 15 0 @ [1 :: byte]) \<noteq> replicate 4 255" by code_simp
  then show ?thesis using ngx_inet6_roundtrip [of "replicate 15 0 @ [1]" "replicate 16 7" 45 0] by (simp only: simp_thms if_False) simp
qed

end
