(* ===== verification/Ngx_Inet_Cidr.thy ===== *)
theory Ngx_Inet_Cidr
  imports Ngx_Inet6
begin

text \<open>
  Addresses with ports (\<open>ngx_sock_ntop\<close>) and networks (\<open>ngx_ptocidr\<close>): the exact texts that are printed, and that a network that is
  read is the address of the text under the mask of its prefix length.
\<close>

section \<open>Addresses with ports\<close>

lemma unat_less_exp16: "unat (w :: 16 word) < 65536"
  using unsigned_less [of w, where ?'a = nat] by simp

lemma port_show_length: "length (dec_show (unat (w :: 16 word))) \<le> 5"
  using dec_show_length [of 5 "unat w"] unat_less_exp16 [of w] by simp

lemma vsl_port:
  assumes "length out + 5 \<le> cap"
  shows "ngx_vslprintf cap (bytes ''%d'') [V32 (ucast (w :: 16 word))] out = Some (out @ dec_show (unat w))"
proof -
  let ?k = "unat w"
  have k: "?k < 2 ^ 31" "?k < 65536" using unat_less_exp16 [of w] by simp_all
  have u: "(ucast w :: u32) = of_nat ?k" by (metis of_nat_unat)
  have "ngx_sprintf_num cap (of_nat ?k) 32 0 0 out = Some (out @ dec_show ?k)"
    using sprintf_num_dec [of out 0 "of_nat ?k" cap 32] unat_of_nat_small [of ?k] k assms port_show_length [of w] by simp
  then have "directive cap (bytes ''d'' @ []) [V32 (ucast w)] out = Some ([], [], out @ dec_show ?k)"
    unfolding u using int_arg_small [OF k(1)] by (simp add: bytes_def directive_def byte_simps convert_def int_arg_def put_int_def del: of_nat_unat)
  from vsl_directive [OF this] assms show ?thesis by (simp add: bytes_def ngx_vslprintf.simps [of _ "[]"])
qed

lemma sock_ntop_sin:
  assumes "21 \<le> len"
  shows "\<exists>out. ngx_sock_ntop (Sin a pt) txt len True = Some (length out, out) \<and>
    out = v4_show (in_addr_bytes a) @ bytes '':'' @ dec_show (unat (ntohs pt)) \<and> length out \<le> 21"
proof -
  let ?p = "dec_show (unat (ntohs pt))"
  have l: "length (v4_show (in_addr_bytes a)) \<le> 15" "length ?p \<le> 5" "length (in_addr_bytes a) = 4"
    using v4_show_length(1) [of "in_addr_bytes a"] port_show_length [of "ntohs pt"] by (simp_all add: in_addr_bytes_def)
  have f: "bytes ''%ud.%ud.%ud.%ud:%d'' = bytes ''%ud.%ud.%ud.%ud'' @ bytes '':'' @ bytes ''%d''" by (simp add: bytes_def)
  have "ngx_vslprintf len (bytes '':'' @ bytes ''%d'') [V32 (ucast (ntohs pt))] (v4_show (in_addr_bytes a)) =
      Some ((v4_show (in_addr_bytes a) @ bytes '':'') @ ?p)"
    using vsl_literal [of "bytes '':''" "v4_show (in_addr_bytes a)" len "bytes ''%d''" "[V32 (ucast (ntohs pt))]"] l assms
      vsl_port [of "v4_show (in_addr_bytes a) @ bytes '':''" len "ntohs pt"] by (simp add: bytes_def byte_simps)
  then have "ngx_sock_ntop (Sin a pt) txt len True = Some (length (v4_show (in_addr_bytes a) @ bytes '':'' @ ?p), v4_show (in_addr_bytes a) @ bytes '':'' @ ?p)"
    using v4_print [OF l(3), of "[]" len "bytes '':'' @ bytes ''%d''" "[V32 (ucast (ntohs pt))]"] assms l(3)
    by (simp add: ngx_sock_ntop_def ngx_snprintf_def inet_args_def f)
  then show ?thesis using l by (intro exI conjI) (assumption | simp)+
qed

lemma sock_ntop_sin6:
  assumes "length p = 16" "45 \<le> len" "txt + 201 < 2 ^ 64"
  shows "\<exists>t out. ngx_sock_ntop (Sin6 p pt) txt len True = Some (length out, out) \<and> ngx_inet6_ntop p (txt + 1) len = Some t \<and> inet6_text p t \<and>
    out = bytes ''['' @ t @ bytes '']:'' @ dec_show (unat (ntohs pt)) \<and> length out \<le> 47"
proof -
  let ?p = "dec_show (unat (ntohs pt))"
  have f: "bytes '']:%d'' = bytes '']:'' @ bytes ''%d''" by (simp add: bytes_def)
  obtain t where t: "ngx_inet6_ntop p (txt + 1) len = Some t" "inet6_text p t" "length t \<le> 39"
    using ngx_inet6_ntop_text [of p len "txt + 1"] inet6_text_length assms by auto
  let ?cap = "2 ^ 64 - 1 - (txt + 1 + length t)"
  have "ngx_vslprintf ?cap (bytes '']:'' @ bytes ''%d'') [V32 (ucast (ntohs pt))] [] = Some (bytes '']:'' @ ?p)"
    using vsl_literal [of "bytes '']:''" "[]" ?cap "bytes ''%d''" "[V32 (ucast (ntohs pt))]"] vsl_port [of "bytes '']:''" ?cap "ntohs pt"] t(3) assms(3)
    by (simp add: bytes_def byte_simps)
  then have "ngx_sock_ntop (Sin6 p pt) txt len True = Some (length (bytes ''['' @ t @ bytes '']:'' @ ?p), bytes ''['' @ t @ bytes '']:'' @ ?p)"
    using t(1) by (simp add: ngx_sock_ntop_def ngx_sprintf_def f)
  then show ?thesis using t port_show_length [of "ntohs pt"] by (intro exI conjI) (assumption | simp)+
qed

text \<open>
  \<open>ngx_sock_ntop\<close> prints an address with its port: \<open>a.b.c.d:port\<close> for IPv4, \<open>[text]:port\<close> for IPv6, where the text is that of
  \<open>ngx_inet6_ntop\<close>, and the port is in decimal. It returns the number of the bytes that it writes, which is at most 21 for IPv4
  and at most 47 for IPv6, so that they fit into the \<open>len\<close> bytes.
\<close>
theorem ngx_sock_ntop_port:
  assumes "length p = 16" "53 \<le> len" "txt + 201 < 2 ^ 64"
  shows "(\<exists>out. ngx_sock_ntop (Sin a pt) txt len True = Some (length out, out) \<and>
      out = v4_show (in_addr_bytes a) @ bytes '':'' @ dec_show (unat (ntohs pt)) \<and> length out \<le> 21) \<and>
    (\<exists>t out. ngx_sock_ntop (Sin6 p pt) txt len True = Some (length out, out) \<and> ngx_inet6_ntop p (txt + 1) len = Some t \<and>
      out = bytes ''['' @ t @ bytes '']:'' @ dec_show (unat (ntohs pt)) \<and> length out \<le> 47)"
  using sock_ntop_sin [of len a pt "txt"] sock_ntop_sin6 [OF assms(1) _ assms(3), of len pt] assms(2) by fastforce

theorem ngx_sock_ntop_port_witness:
  "(\<exists>out. ngx_sock_ntop (Sin 0x0100007f 0x5000) 0 53 True = Some (length out, out) \<and>
      out = v4_show (in_addr_bytes 0x0100007f) @ bytes '':'' @ dec_show (unat (ntohs 0x5000)) \<and> length out \<le> 21) \<and>
    (\<exists>t out. ngx_sock_ntop (Sin6 (replicate 16 0) 0x5000) 0 53 True = Some (length out, out) \<and> ngx_inet6_ntop (replicate 16 0) (0 + 1) 53 = Some t \<and>
      out = bytes ''['' @ t @ bytes '']:'' @ dec_show (unat (ntohs 0x5000)) \<and> length out \<le> 47)"
  by (rule ngx_sock_ntop_port) simp_all

section \<open>Networks\<close>

definition prefix_byte :: "nat \<Rightarrow> byte" where
  "prefix_byte j = of_nat (256 - 2 ^ (8 - j))"

text \<open>The mask of \<open>k\<close> bytes whose first \<open>n\<close> bits are set.\<close>

fun prefix_mask :: "nat \<Rightarrow> nat \<Rightarrow> byte list" where
  "prefix_mask 0 n = []"
| "prefix_mask (Suc k) n = prefix_byte (if n > 8 then 8 else n) # prefix_mask k (n - 8)"

lemma prefix_byte_shift: "s \<le> 8 \<Longrightarrow> ucast (push_bit (8 - s) (0xff :: u32)) = prefix_byte s"
proof -
  assume "s \<le> 8"
  then have "s \<in> set [0, 1, 2, 3, 4, 5, 6, 7, 8]" by auto
  moreover have "\<forall>s \<in> set [0, 1, 2, 3, 4, 5, 6, 7, 8]. ucast (push_bit (8 - s) (0xff :: u32)) = prefix_byte s" by code_simp
  ultimately show ?thesis by blast
qed

lemma cidr6_loop_masks:
  "cidr6_loop a n = (map2 (AND) a (prefix_mask (length a) n), prefix_mask (length a) n, map2 (AND) a (prefix_mask (length a) n) \<noteq> a)"
proof (induction a arbitrary: n)
  case (Cons a as)
  have "n - (if n > 8 then 8 else n) = n - 8" by simp
  then show ?case using Cons prefix_byte_shift [of "if n > 8 then 8 else n"] by (auto simp: Let_def split_def)
qed simp

lemma prefix_mask_in:
  assumes "n \<le> 32"
  shows "in_addr_bytes (if n \<noteq> 0 then htonl (push_bit (32 - n) 0xffffffff) else 0) = prefix_mask 4 n"
proof -
  have "\<forall>n \<in> set [0..<33]. in_addr_bytes (if n \<noteq> 0 then htonl (push_bit (32 - n) 0xffffffff) else 0) = prefix_mask 4 n" by code_simp
  then show ?thesis using assms by simp
qed

lemma prefix_mask_16: "prefix_mask 16 128 = replicate 16 0xff"
  by code_simp

lemma atoi_result:
  assumes "n \<le> length line"
  shows "\<exists>v. ngx_atoi line n = Some v \<and> (v = NGX_ERROR \<or> unat v < 2 ^ 63)"
proof -
  have "int64_result k = NGX_ERROR \<or> unat (int64_result k) < 2 ^ 63" for k
    by (auto simp: int64_result_def unat_of_nat take_bit_nat_def simp del: of_nat_numeral)
  then show ?thesis using assms by (auto simp: ngx_atoi_def ngx_ato_loop_0)
qed

lemma sless_small:
  fixes v :: u64
  assumes "unat v < 2 ^ 63" "k < 2 ^ 63"
  shows "of_nat k <s v \<longleftrightarrow> k < unat v"
proof -
  have s: "sint (of_nat j :: u64) = int j" if "j < 2 ^ 63" for j using that by (simp add: signed_of_nat signed_take_bit_int_eq_self)
  have "sint v = int (unat v)" using s [OF assms(1)] by simp
  then show ?thesis using s [OF assms(2)] unfolding word_sless_alt by linarith
qed

text \<open>
  What a text means: the part in front of the first slash is the address, all of it where there is none; the digits behind the slash are the number of bits of the mask,
  read modulo \<open>2 ^ 64\<close>, and without a slash all bits are in the mask.
\<close>

definition cidr_host :: "ngx_str_t \<Rightarrow> nat" where
  "cidr_host t = length (takeWhile (\<lambda>c. c \<noteq> ch CHR ''/'') (take (str_len t) (str_data t)))"

definition cidr_prefix :: "nat \<Rightarrow> ngx_str_t \<Rightarrow> nat option" where
  "cidr_prefix full t =
     (case dropWhile (\<lambda>c. c \<noteq> ch CHR ''/'') (take (str_len t) (str_data t)) of
        [] \<Rightarrow> Some full
      | _ # ds \<Rightarrow> if ds \<noteq> [] \<and> list_all is_digit ds \<and> dec_value ds mod 2 ^ 64 \<le> full then Some (dec_value ds mod 2 ^ 64) else None)"

definition cidr4 :: "u32 \<Rightarrow> nat option \<Rightarrow> ngx_int_t \<times> cidr option \<Rightarrow> bool" where
  "cidr4 a n r = (case n of
     None \<Rightarrow> r = (NGX_ERROR, None)
   | Some n \<Rightarrow> \<exists>msk. in_addr_bytes msk = prefix_mask 4 n \<and> r = (if a AND msk = a then NGX_OK else NGX_DONE, Some (AF_INET (a AND msk) msk)))"

definition cidr6 :: "byte list \<Rightarrow> nat option \<Rightarrow> ngx_int_t \<times> cidr option \<Rightarrow> bool" where
  "cidr6 a n r = (case n of
     None \<Rightarrow> r = (NGX_ERROR, None)
   | Some n \<Rightarrow> let msk = prefix_mask 16 n; b = map2 (AND) a msk in r = (if b = a then NGX_OK else NGX_DONE, Some (AF_INET6 b msk)))"

definition cidr_read :: "ngx_str_t \<Rightarrow> byte list \<Rightarrow> ngx_int_t \<times> cidr option \<Rightarrow> bool" where
  "cidr_read t buf r = (case ngx_inet_addr (str_data t) 0 (cidr_host t) of
     None \<Rightarrow> False
   | Some a \<Rightarrow>
       if a \<noteq> INADDR_NONE then cidr4 a (cidr_prefix 32 t) r
       else (case ngx_inet6_addr (str_data t) 0 (cidr_host t) buf of
               None \<Rightarrow> False
             | Some (_, None) \<Rightarrow> r = (NGX_ERROR, None)
             | Some (_, Some b) \<Rightarrow> cidr6 b (cidr_prefix 128 t) r))"

lemma find_map: "find P (map f xs) = map_option f (find (\<lambda>x. P (f x)) xs)"
  by (induction xs) auto

lemma find_index: "find (\<lambda>k. w ! k = c) [0..<length w] = (if c \<in> set w then Some (length (takeWhile (\<lambda>d. d \<noteq> c) w)) else None)"
proof (induction w)
  case (Cons d w)
  have "[0..<length (d # w)] = 0 # map Suc [0..<length w]" by (simp add: map_Suc_upt upt_conv_Cons del: upt_Suc)
  then show ?case using Cons by (auto simp: find_map simp del: upt_Suc)
qed simp

lemma cidr4_in:
  assumes "n \<le> 32"
  shows "cidr4 a (Some n) (map_prod id Some (cidr_in a n))"
proof -
  have "a = a AND m \<longleftrightarrow> a AND m = a" for m by auto
  then show ?thesis using prefix_mask_in [OF assms] unfolding cidr4_def cidr_in_def Let_def by (auto simp del: One_nat_def)
qed

lemma cidr6_in: "length b = 16 \<Longrightarrow> cidr6 b (Some n) (map_prod id Some (cidr_in6 b n))"
  by (simp add: cidr6_def cidr_in6_def cidr6_loop_masks Let_def)

lemma cidr_full:
  "cidr4 a (Some 32) (NGX_OK, Some (AF_INET a 0xffffffff))"
  "length b = 16 \<Longrightarrow> cidr6 b (Some 128) (NGX_OK, Some (AF_INET6 b (replicate 16 0xff)))"
proof -
  have m: "in_addr_bytes 0xffffffff = prefix_mask 4 32" by code_simp
  have "(0xffffffff :: u32) = - 1" by simp
  then have "a AND 0xffffffff = a" by (simp only: and.right_neutral)
  then show "cidr4 a (Some 32) (NGX_OK, Some (AF_INET a 0xffffffff))" unfolding cidr4_def using m by (simp only: option.case) (rule exI [of _ "0xffffffff"], simp)
  have "(0xff :: byte) = - 1" by simp
  then have ff: "x AND 0xff = x" for x :: byte by (simp only: and.right_neutral)
  have "map2 (AND) c (replicate (length c) 0xff) = c" for c :: "byte list" by (induction c) (simp_all add: ff)
  from this [of b] show "length b = 16 \<Longrightarrow> cidr6 b (Some 128) (NGX_OK, Some (AF_INET6 b (replicate 16 0xff)))"
    unfolding cidr6_def Let_def prefix_mask_16 option.case by (simp only: if_True simp_thms)
qed

text \<open>The number behind the slash.\<close>

lemma cidr_shift:
  assumes "str_len t \<le> length (str_data t)" "q = cidr_host t" "q < str_len t"
  shows "\<exists>v. ngx_atoi (drop (q + 1) (str_data t)) (str_len t - (q + 1)) = Some v \<and>
    (\<forall>full. full < 2 ^ 63 \<longrightarrow> cidr_prefix full t = (if v = NGX_ERROR \<or> of_nat full <s v then None else Some (unat v)))"
proof -
  let ?w = "take (str_len t) (str_data t)"
  define ds where "ds = drop (q + 1) ?w"
  have len: "length ?w = str_len t" using assms(1) by simp
  have dw: "dropWhile (\<lambda>c. c \<noteq> ch CHR ''/'') ?w = drop q ?w" unfolding assms(2) cidr_host_def by (rule dropWhile_eq_drop)
  then have cons: "dropWhile (\<lambda>c. c \<noteq> ch CHR ''/'') ?w = ?w ! q # ds" unfolding ds_def using Cons_nth_drop_Suc [of q ?w] assms(3) len by simp
  have ds: "take (str_len t - (q + 1)) (drop (q + 1) (str_data t)) = ds" unfolding ds_def drop_take ..
  have nil: "str_len t - (q + 1) = 0 \<longleftrightarrow> ds = []" unfolding ds_def using len by simp
  define v where "v = (if ds = [] \<or> \<not> list_all is_digit ds then NGX_ERROR else int64_result (dec_value ds))"
  have v: "ngx_atoi (drop (q + 1) (str_data t)) (str_len t - (q + 1)) = Some v"
  proof -
    have "str_len t - (q + 1) \<le> length (drop (q + 1) (str_data t))" using assms(1) by simp
    from ngx_ato_loop_0 [OF this] show ?thesis unfolding ngx_atoi_def ds nil v_def by simp
  qed
  have "cidr_prefix full t = (if v = NGX_ERROR \<or> of_nat full <s v then None else Some (unat v))" if full: "full < 2 ^ 63" for full
  proof (cases "ds = [] \<or> \<not> list_all is_digit ds \<or> \<not> dec_value ds mod 2 ^ 64 < 2 ^ 63")
    case True
    then have "v = NGX_ERROR" by (auto simp: v_def int64_result_def)
    moreover have "cidr_prefix full t = None" using True full unfolding cidr_prefix_def cons by auto
    ultimately show ?thesis by simp
  next
    case False
    then have d: "ds \<noteq> []" "list_all is_digit ds" "dec_value ds mod 2 ^ 64 < 2 ^ 63" by blast+
    have vv: "v = of_nat (dec_value ds)" using d by (simp add: v_def int64_result_def)
    have u: "unat v = dec_value ds mod 2 ^ 64" unfolding vv by (simp add: unat_of_nat take_bit_nat_def)
    have "v \<noteq> NGX_ERROR"
    proof
      assume "v = NGX_ERROR"
      moreover have "unat (- 1 :: ngx_int_t) = 2 ^ 64 - 1" by (simp add: unsigned_minus_1_eq_mask mask_eq_exp_minus_1)
      ultimately have "unat v = 2 ^ 64 - 1" by simp
      then show False using u d(3) by simp
    qed
    moreover have "of_nat full <s v \<longleftrightarrow> full < unat v" using sless_small [OF _ full, of v] u d(3) by simp
    ultimately show ?thesis using d u unfolding cidr_prefix_def cons by (auto simp: not_less)
  qed
  then show ?thesis using v by blast
qed

lemma ptocidr_result:
  assumes "str_len t \<le> length (str_data t)" "length buf = 16"
  shows "\<exists>r. ngx_ptocidr t buf = Some r \<and> cidr_read t buf r"
proof -
  let ?m = "str_data t" and ?w = "take (str_len t) (str_data t)"
  have wl: "length ?w = str_len t" using assms(1) by simp
  define msk where "msk = (if ch CHR ''/'' \<in> set ?w then Some (cidr_host t) else None)"
  have host: "cidr_host t \<le> str_len t" using length_takeWhile_le [of "\<lambda>c. c \<noteq> ch CHR ''/''" ?w] wl by (simp add: cidr_host_def)
  have in_w: "cidr_host t < str_len t" if "ch CHR ''/'' \<in> set ?w"
  proof (rule ccontr)
    assume "\<not> cidr_host t < str_len t"
    then have "length (takeWhile (\<lambda>c. c \<noteq> ch CHR ''/'') ?w) = length ?w" using host wl by (simp add: cidr_host_def)
    then have "takeWhile (\<lambda>c. c \<noteq> ch CHR ''/'') ?w = ?w"
      using takeWhile_dropWhile_id [of "\<lambda>c. c \<noteq> ch CHR ''/''" ?w] by (metis append_eq_conv_conj take_all_iff order_refl)
    then have "\<forall>x \<in> set ?w. x \<noteq> ch CHR ''/''" unfolding takeWhile_eq_all_conv .
    then show False using that by blast
  qed
  have "find (\<lambda>k. ?m ! k = ch CHR ''/'') [0..<str_len t] = find (\<lambda>k. ?w ! k = ch CHR ''/'') [0..<length ?w]"
    unfolding wl by (intro find_cong) auto
  then have m: "ngx_strlchr ?m 0 (str_len t) (ch CHR ''/'') = Some msk"
    using ngx_strlchr_find [OF assms(1)] unfolding find_index msk_def cidr_host_def by simp
  define len where "len = (case msk of Some q \<Rightarrow> q | None \<Rightarrow> str_len t)"
  have len: "len = cidr_host t"
  proof (cases "ch CHR ''/'' \<in> set ?w")
    case False
    then have "takeWhile (\<lambda>c. c \<noteq> ch CHR ''/'') ?w = ?w" by (auto simp: takeWhile_eq_all_conv)
    then have "cidr_host t = str_len t" unfolding cidr_host_def using wl by (simp only:)
    then show ?thesis using False by (simp add: len_def msk_def)
  qed (simp add: len_def msk_def)
  obtain a where a: "ngx_inet_addr ?m 0 len = Some a" using inet_returns [of 0 len ?m 0 0 0] len host assms(1) by (fastforce simp: ngx_inet_addr_def)
  obtain rc6 r6 where r6: "ngx_inet6_addr ?m 0 len buf = Some (rc6, r6)" "rc6 = NGX_OK \<and> (\<exists>b. r6 = Some b \<and> length b = 16) \<or> rc6 = NGX_ERROR \<and> r6 = None"
    using inet6_addr_returns [of 0 len ?m buf] len host assms by auto
  define c where "c = (if a \<noteq> INADDR_NONE then Some (AF_INET a 0xffffffff) else map_option (\<lambda>b. AF_INET6 b (replicate 16 0xff)) r6)"
  have run: "ngx_ptocidr t buf = (case (c, msk) of (None, _) \<Rightarrow> Some (NGX_ERROR, None) | (Some c, None) \<Rightarrow> Some (NGX_OK, Some c)
      | (Some c, Some q) \<Rightarrow> do {
          shift \<leftarrow> ngx_atoi (drop (q + 1) ?m) (str_len t - (q + 1));
          (if shift = NGX_ERROR then Some (NGX_ERROR, None)
           else case c of
             AF_INET6 b _ \<Rightarrow> Some (if 128 <s shift then (NGX_ERROR, None) else map_prod id Some (cidr_in6 b (unat shift)))
           | AF_INET a _ \<Rightarrow> Some (if 32 <s shift then (NGX_ERROR, None) else map_prod id Some (cidr_in a (unat shift))))
        })"
    using m a r6(1) unfolding ngx_ptocidr_def len_def c_def by (simp add: Let_def)
  have read: "cidr_read t buf r \<longleftrightarrow> (case c of None \<Rightarrow> r = (NGX_ERROR, None) | Some (AF_INET a _) \<Rightarrow> cidr4 a (cidr_prefix 32 t) r | Some (AF_INET6 b _) \<Rightarrow> cidr6 b (cidr_prefix 128 t) r)" for r
    using a r6(1) unfolding cidr_read_def len c_def by (auto split: option.splits)
  show ?thesis
  proof (cases c)
    case None
    then show ?thesis unfolding run read by simp
  next
    case (Some d)
    have b: "length b = 16" if "d = AF_INET6 b x" for b x using Some r6(2) that by (auto simp: c_def split: if_splits)
    show ?thesis
    proof (cases "ch CHR ''/'' \<in> set ?w")
      case False
      then have "dropWhile (\<lambda>c. c \<noteq> ch CHR ''/'') ?w = []" by (auto simp: dropWhile_eq_Nil_conv)
      then have "cidr_prefix full t = Some full" for full unfolding cidr_prefix_def by (simp only: list.case)
      moreover have "case d of AF_INET a x \<Rightarrow> x = 0xffffffff | AF_INET6 b x \<Rightarrow> x = replicate 16 0xff" using Some by (auto simp: c_def split: if_splits)
      ultimately show ?thesis using False Some cidr_full b unfolding run read msk_def by (cases d) auto
    next
      case True
      obtain v where v: "ngx_atoi (drop (cidr_host t + 1) ?m) (str_len t - (cidr_host t + 1)) = Some v"
        "\<forall>full. full < 2 ^ 63 \<longrightarrow> cidr_prefix full t = (if v = NGX_ERROR \<or> of_nat full <s v then None else Some (unat v))"
        using cidr_shift [OF assms(1) refl in_w [OF True]] by blast
      have p: "cidr_prefix 32 t = (if v = NGX_ERROR \<or> 32 <s v then None else Some (unat v))" "cidr_prefix 128 t = (if v = NGX_ERROR \<or> 128 <s v then None else Some (unat v))"
        using v(2) [rule_format, of 32] v(2) [rule_format, of 128] by simp_all
      have "unat v \<le> 32" if "cidr_prefix 32 t = Some (unat v)" using that by (auto simp: cidr_prefix_def split: list.splits if_splits)
      then have "\<not> (v = NGX_ERROR \<or> 32 <s v) \<Longrightarrow> cidr4 x (Some (unat v)) (map_prod id Some (cidr_in x (unat v)))" for x using p(1) cidr4_in by simp
      then show ?thesis
        using True Some v(1) b cidr6_in unfolding run read msk_def p by (cases d) (auto simp: cidr4_def [of _ None] cidr6_def [of _ None] simp del: split_paired_Ex)
    qed
  qed
qed

text \<open>
  C23: \<open>ngx_ptocidr\<close>. For every text it returns, and reads only the text and its buffer. The text in front of the first slash is read as an address, and the digits behind the slash as
  the number \<open>n\<close> of bits of the mask, modulo \<open>2 ^ 64\<close>; without a slash the mask has all bits. It fails exactly if there is no address, no number, or a number above 32 for IPv4 and 128 for IPv6. Otherwise
  the network is that address under the mask of its first \<open>n\<close> bits, and the result is \<open>NGX_OK\<close> exactly if no bit of the address was cut off, \<open>NGX_DONE\<close> otherwise.
\<close>
theorem ngx_ptocidr_masked:
  assumes "str_len t \<le> length (str_data t)" "length buf = 16"
  shows "\<exists>r. ngx_ptocidr t buf = Some r \<and> cidr_read t buf r"
  by (rule ptocidr_result [OF assms])

theorem ngx_ptocidr_masked_witness:
  "\<exists>r. ngx_ptocidr \<lparr>str_len = 11, str_data = bytes ''10.1.2.3/16''\<rparr> (replicate 16 0) = Some r \<and>
    cidr_read \<lparr>str_len = 11, str_data = bytes ''10.1.2.3/16''\<rparr> (replicate 16 0) r \<and> fst r = NGX_DONE"
proof -
  let ?t = "\<lparr>str_len = 11, str_data = bytes ''10.1.2.3/16''\<rparr>"
  have "map_option fst (ngx_ptocidr ?t (replicate 16 0)) = Some NGX_DONE" by code_simp
  then show ?thesis using ngx_ptocidr_masked [of ?t "replicate 16 0"] by auto
qed

end
