(* ===== verification/Ngx_Url.thy ===== *)
theory Ngx_Url
  imports Ngx_Inet_Cidr
begin

text \<open>
  URLs of servers, src/core/ngx_inet.c: \<open>ngx_parse_addr\<close>, and \<open>ngx_parse_url\<close> with its three forms and the lookup of a host name. A
  \<open>ngx_str_t\<close> that points into the URL has the memory from its first byte on as its data. The allocator is a parameter:
  \<open>alloc k\<close> is what the \<open>k\<close>-th call of \<open>ngx_pcalloc\<close>, \<open>ngx_pnalloc\<close> or \<open>ngx_alloc\<close> returns, and so is \<open>getaddrinfo\<close>, which gives the addresses
  of a host with their lengths. The callers clear the record with \<open>ngx_memzero\<close>, so that the bytes of \<open>sockaddr\<close> are zero
  where they are not set.
\<close>

section \<open>The code\<close>

abbreviation (input) htons :: "16 word \<Rightarrow> 16 word" where "htons \<equiv> ntohs"

primrec cpystrn_loop :: "byte list \<Rightarrow> nat \<Rightarrow> byte list option" where
  "cpystrn_loop [] n = (if n = 0 then Some [0] else None)"
| "cpystrn_loop (c # src) n = (if n = 0 \<or> c = 0 then Some [0] else map_option ((#) c) (cpystrn_loop src (n - 1)))"

definition ngx_cpystrn :: "byte list \<Rightarrow> nat \<Rightarrow> byte list option" where
  "ngx_cpystrn src n = (if n = 0 then Some [] else cpystrn_loop src (n - 1))"

text \<open>Bytes that are written to memory of the given size; \<open>None\<close> is a write behind its end.\<close>

definition into :: "nat \<Rightarrow> byte list \<Rightarrow> byte list option" where
  "into room out = (if length out \<le> room then Some out else None)"

record ngx_addr_t =
  na_sockaddr :: "sockaddr option"
  na_socklen :: nat
  na_name :: ngx_str_t

record ngx_url_t =
  u_url :: ngx_str_t
  u_host :: ngx_str_t
  u_port_text :: ngx_str_t
  u_uri :: ngx_str_t
  u_port :: "16 word"
  u_default_port :: "16 word"
  u_family :: family
  u_listen :: bool
  u_uri_part :: bool
  u_no_resolve :: bool
  u_no_port :: bool
  u_wildcard :: bool
  u_socklen :: nat
  u_sockaddr :: sockaddr
  u_addrs :: "ngx_addr_t list"
  u_naddrs :: nat
  u_err :: "string option"

type_synonym alloc = "nat \<Rightarrow> addr option"

type_synonym resolver = "byte list \<Rightarrow> (sockaddr \<times> nat) list option"

type_synonym url_result = "ngx_int_t \<times> ngx_url_t"

abbreviation (input) sizeof_sockaddr_in :: nat where "sizeof_sockaddr_in \<equiv> 16"

abbreviation (input) sizeof_sockaddr_in6 :: nat where "sizeof_sockaddr_in6 \<equiv> 28"

abbreviation (input) sizeof_sockaddr_un :: nat where "sizeof_sockaddr_un \<equiv> 110"

abbreviation (input) sizeof_sun_path :: nat where "sizeof_sun_path \<equiv> 108"

abbreviation (input) NGX_SOCKADDRLEN :: nat where "NGX_SOCKADDRLEN \<equiv> sizeof_sockaddr_un"

definition null_addr :: ngx_addr_t where
  "null_addr = \<lparr>na_sockaddr = None, na_socklen = 0, na_name = \<lparr>str_len = 0, str_data = []\<rparr>\<rparr>"

definition str_at :: "byte list \<Rightarrow> nat \<Rightarrow> nat \<Rightarrow> ngx_str_t" where
  "str_at m i n = \<lparr>str_len = n, str_data = drop i m\<rparr>"

definition url_error :: "string \<Rightarrow> ngx_url_t \<Rightarrow> url_result" where
  "url_error e u = (NGX_ERROR, u\<lparr>u_err := Some e\<rparr>)"

definition ngx_parse_addr :: "alloc \<Rightarrow> byte list \<Rightarrow> nat \<Rightarrow> nat \<Rightarrow> (ngx_int_t \<times> ngx_addr_t option) option" where
  "ngx_parse_addr alloc m text len = do {
     inaddr \<leftarrow> ngx_inet_addr m text len;
     sa \<leftarrow> (if inaddr \<noteq> INADDR_NONE then Some (Some (Sin inaddr 0, sizeof_sockaddr_in))
           else do {
             (rc, b) \<leftarrow> ngx_inet6_addr m text len (replicate 16 0);
             Some (map_option (\<lambda>b. (Sin6 b 0, sizeof_sockaddr_in6)) b)
           });
     Some (case sa of
         None \<Rightarrow> (NGX_DECLINED, None)
       | Some (sa, len) \<Rightarrow>
           (case alloc 0 of
              None \<Rightarrow> (NGX_ERROR, None)
            | Some _ \<Rightarrow> (NGX_OK, Some \<lparr>na_sockaddr = Some sa, na_socklen = len, na_name = \<lparr>str_len = 0, str_data = []\<rparr>\<rparr>)))
   }"

subsection \<open>Sockets in the file system\<close>

definition unix_addr :: "alloc \<Rightarrow> nat \<Rightarrow> byte list \<Rightarrow> ngx_url_t \<Rightarrow> url_result option" where
  "unix_addr alloc len path u =
     (case alloc 0 of
        None \<Rightarrow> Some (NGX_ERROR, u\<lparr>u_addrs := []\<rparr>)
      | Some _ \<Rightarrow>
          (case alloc 1 of
             None \<Rightarrow> Some (NGX_ERROR, u\<lparr>u_addrs := [null_addr]\<rparr>)
           | Some _ \<Rightarrow> do {
               out \<leftarrow> ngx_cpystrn path len;
               out \<leftarrow> into sizeof_sun_path out;
               Some (NGX_OK, u\<lparr>u_family := Fam_unix, u_naddrs := 1,
                 u_addrs := [\<lparr>na_sockaddr = Some (Sun out), na_socklen = sizeof_sockaddr_un,
                   na_name = \<lparr>str_len = len + 4, str_data = str_data (u_url u)\<rparr>\<rparr>]\<rparr>)
             }))"

definition ngx_parse_unix_domain_url :: "alloc \<Rightarrow> ngx_url_t \<Rightarrow> url_result option" where
  "ngx_parse_unix_domain_url alloc u = do {
     let m = str_data (u_url u);
     let len = (str_len (u_url u) + 2 ^ 64 - 5) mod 2 ^ 64;
     let lst = 5 + len;
     uri \<leftarrow> (if u_uri_part u then ngx_strlchr m 5 lst (ch CHR '':'') else Some None);
     let (len, u) = (case uri of Some q \<Rightarrow> (q - 5, u\<lparr>u_uri := str_at m (q + 1) (lst - (q + 1))\<rparr>) | None \<Rightarrow> (len, u));
     (if len = 0 then Some (url_error ''no path in the unix domain socket'' u)
      else do {
        let u = u\<lparr>u_host := str_at m 5 len\<rparr>;
        let len = len + 1;
        (if len > sizeof_sun_path then Some (url_error ''too long path in the unix domain socket'' u)
         else do {
           out \<leftarrow> ngx_cpystrn (drop 5 m) len;
           out \<leftarrow> into sizeof_sun_path out;
           unix_addr alloc len (drop 5 m) (u\<lparr>u_socklen := sizeof_sockaddr_un, u_sockaddr := Sun out\<rparr>)
         })
      })
   }"

subsection \<open>Host names\<close>

definition sa_family :: "sockaddr \<Rightarrow> family" where
  "sa_family sa = (case sa of Sin _ _ \<Rightarrow> Fam_inet | Sin6 _ _ \<Rightarrow> Fam_inet6 | Sun _ \<Rightarrow> Fam_unix | Sockaddr_other \<Rightarrow> Fam_other)"

definition sa_with_port :: "16 word \<Rightarrow> sockaddr \<Rightarrow> sockaddr" where
  "sa_with_port port sa = (case sa of Sin a _ \<Rightarrow> Sin a port | Sin6 a _ \<Rightarrow> Sin6 a port | _ \<Rightarrow> sa)"

text \<open>The bytes of a socket address that the loop and \<open>ngx_sock_ntop\<close> read and write: up to the end of the address.\<close>

definition sa_used :: "sockaddr \<Rightarrow> nat" where
  "sa_used sa = (case sa of Sin _ _ \<Rightarrow> 8 | Sin6 _ _ \<Rightarrow> 24 | _ \<Rightarrow> 0)"

text \<open>
  The loop over the addresses of one family; \<open>k\<close> counts the allocations. \<open>Inl\<close> is the jump to \<open>failed\<close>. The copy of an address has the length that the resolver gave,
  and the array of addresses its number of elements.
\<close>

fun resolve_loop :: "alloc \<Rightarrow> family \<Rightarrow> nat \<Rightarrow> (sockaddr \<times> nat) list \<Rightarrow> nat \<Rightarrow> nat \<Rightarrow> ngx_url_t \<Rightarrow> (ngx_url_t + nat \<times> nat \<times> ngx_url_t) option" where
  "resolve_loop alloc fam len [] k i u = Some (Inr (k, i, u))"
| "resolve_loop alloc fam len ((sa, addrlen) # res) k i u =
     (if sa_family sa \<noteq> fam then resolve_loop alloc fam len res k i u
      else if alloc k = None then Some (Inl u)
      else if addrlen < sa_used sa \<or> length (u_addrs u) \<le> i then None
      else
        let sa = sa_with_port (htons (u_port u)) sa;
            u = u\<lparr>u_addrs := (u_addrs u)[i := (u_addrs u ! i)\<lparr>na_sockaddr := Some sa, na_socklen := addrlen\<rparr>]\<rparr>
        in case alloc (k + 1) of
             None \<Rightarrow> Some (Inl u)
           | Some p \<Rightarrow>
               (case ngx_sock_ntop sa p len True of
                  None \<Rightarrow> None
                | Some (n, out) \<Rightarrow>
                    if length out \<le> len then
                      resolve_loop alloc fam len res (k + 2) (i + 1)
                        (u\<lparr>u_addrs := (u_addrs u)[i := (u_addrs u ! i)\<lparr>na_name := \<lparr>str_len = n, str_data = out\<rparr>\<rparr>]\<rparr>)
                    else None))"

definition resolve_addrs :: "alloc \<Rightarrow> (sockaddr \<times> nat) list \<Rightarrow> ngx_url_t \<Rightarrow> url_result option" where
  "resolve_addrs alloc res u = do {
     r \<leftarrow> resolve_loop alloc Fam_inet (NGX_INET_ADDRSTRLEN + 6) res 2 0 u;
     (case r of
        Inl u \<Rightarrow> Some (NGX_ERROR, u)
      | Inr (k, i, u) \<Rightarrow> do {
          r \<leftarrow> resolve_loop alloc Fam_inet6 (NGX_INET6_ADDRSTRLEN + 8) res k i u;
          Some (case r of Inl u \<Rightarrow> (NGX_ERROR, u) | Inr (k, i, u) \<Rightarrow> (NGX_OK, u))
        })
   }"

definition ngx_inet_resolve_host :: "alloc \<Rightarrow> resolver \<Rightarrow> ngx_url_t \<Rightarrow> url_result option" where
  "ngx_inet_resolve_host alloc getaddrinfo u =
     (case alloc 0 of
        None \<Rightarrow> Some (NGX_ERROR, u)
      | Some _ \<Rightarrow> do {
          host \<leftarrow> ngx_cpystrn (str_data (u_host u)) (str_len (u_host u) + 1);
          host \<leftarrow> into (str_len (u_host u) + 1) host;
          (case getaddrinfo host of
             None \<Rightarrow> Some (url_error ''host not found'' u)
           | Some res \<Rightarrow> do {
               let n = length (filter (\<lambda>(sa, _). sa_family sa = Fam_inet \<or> sa_family sa = Fam_inet6) res);
               (if n = 0 then Some (url_error ''host not found'' u)
                else case alloc 1 of
                  None \<Rightarrow> Some (NGX_ERROR, u\<lparr>u_addrs := []\<rparr>)
                | Some _ \<Rightarrow> resolve_addrs alloc res (u\<lparr>u_addrs := replicate n null_addr, u_naddrs := n\<rparr>))
             })
        })"

subsection \<open>Addresses and ports\<close>

text \<open>The one address of a URL with a literal address: the name is written to memory of \<open>u->host.len + sizeof(":65535") - 1\<close> bytes.\<close>

definition url_addr :: "alloc \<Rightarrow> nat \<Rightarrow> ngx_url_t \<Rightarrow> url_result option" where
  "url_addr alloc socklen u =
     (let a = null_addr\<lparr>na_sockaddr := Some (u_sockaddr u), na_socklen := socklen\<rparr>
      in if alloc 0 = None then Some (NGX_ERROR, u\<lparr>u_naddrs := 1, u_addrs := []\<rparr>)
         else if alloc 1 = None then Some (NGX_ERROR, u\<lparr>u_naddrs := 1, u_addrs := [null_addr]\<rparr>)
         else case alloc 2 of
           None \<Rightarrow> Some (NGX_ERROR, u\<lparr>u_naddrs := 1, u_addrs := [a]\<rparr>)
         | Some p \<Rightarrow> do {
             out \<leftarrow> ngx_sprintf p (bytes ''%V:%d'') [VStr (take (str_len (u_host u)) (str_data (u_host u))), V32 (ucast (u_port u))];
             (if length out \<le> str_len (u_host u) + 6
              then Some (NGX_OK, u\<lparr>u_naddrs := 1, u_addrs := [a\<lparr>na_name := \<lparr>str_len = length out, str_data = out\<rparr>\<rparr>]\<rparr>)
              else None)
           })"

definition bad_port :: "ngx_int_t \<Rightarrow> bool" where
  "bad_port n \<longleftrightarrow> n <s 1 \<or> 65535 <s n"

text \<open>The address part of \<open>u->sockaddr\<close> and its port.\<close>

definition set_sin_port :: "16 word \<Rightarrow> ngx_url_t \<Rightarrow> ngx_url_t" where
  "set_sin_port n u = u\<lparr>u_port := n, u_sockaddr := sa_with_port (htons n) (u_sockaddr u)\<rparr>"

definition default_port :: "ngx_url_t \<Rightarrow> ngx_url_t" where
  "default_port u = set_sin_port (u_default_port u) (u\<lparr>u_no_port := True\<rparr>)"

text \<open>The URI part; the new end of the host and port.\<close>

definition url_uri :: "byte list \<Rightarrow> nat \<Rightarrow> nat option \<Rightarrow> ngx_url_t \<Rightarrow> url_result + ngx_url_t \<times> nat" where
  "url_uri m lst uri u =
     (case uri of
        None \<Rightarrow> Inr (u, lst)
      | Some q \<Rightarrow> if u_listen u \<or> \<not> u_uri_part u then Inl (url_error ''invalid host'' u) else Inr (u\<lparr>u_uri := str_at m q (lst - q)\<rparr>, q))"

text \<open>The port in the bytes from \<open>port\<close> to \<open>lst\<close>.\<close>

definition url_port :: "byte list \<Rightarrow> nat \<Rightarrow> nat \<Rightarrow> ngx_url_t \<Rightarrow> (url_result + ngx_url_t) option" where
  "url_port m port lst u = do {
     n \<leftarrow> ngx_atoi (drop port m) (lst - port);
     Some (if bad_port n then Inl (url_error ''invalid port'' u) else Inr ((set_sin_port (ucast n) u)\<lparr>u_port_text := str_at m port (lst - port)\<rparr>))
   }"

text \<open>A value that is a port only, in \<open>listen\<close>; \<open>Inr\<close> where it is not one.\<close>

definition url_port_only :: "byte list \<Rightarrow> nat \<Rightarrow> ngx_url_t \<Rightarrow> (url_result + ngx_url_t) option" where
  "url_port_only m lst u = do {
     n \<leftarrow> ngx_atoi m lst;
     Some (if n = NGX_ERROR then Inr (default_port u)
           else if bad_port n then Inl (url_error ''invalid port'' u)
           else Inl (NGX_OK, (set_sin_port (ucast n) u)\<lparr>u_port_text := str_at m 0 lst, u_wildcard := True\<rparr>))
   }"

definition sa_any :: "sockaddr \<Rightarrow> bool" where
  "sa_any sa = (case sa of Sin a _ \<Rightarrow> a = 0 | Sin6 a _ \<Rightarrow> a = replicate 16 0 | _ \<Rightarrow> False)"

definition inet_url_resolve :: "alloc \<Rightarrow> resolver \<Rightarrow> ngx_url_t \<Rightarrow> url_result option" where
  "inet_url_resolve alloc getaddrinfo u = do {
     (rc, u) \<leftarrow> ngx_inet_resolve_host alloc getaddrinfo u;
     (if rc \<noteq> NGX_OK then Some (NGX_ERROR, u)
      else case u_addrs u of
        [] \<Rightarrow> None
      | a # _ \<Rightarrow>
          (case na_sockaddr a of
             None \<Rightarrow> None
           | Some sa \<Rightarrow>
               if NGX_SOCKADDRLEN < na_socklen a then None
               else let u = u\<lparr>u_family := sa_family sa, u_socklen := na_socklen a, u_sockaddr := sa\<rparr>
               in Some (NGX_OK, if sa_any sa then u\<lparr>u_wildcard := True\<rparr> else u)))
   }"

definition inet_url_host :: "alloc \<Rightarrow> resolver \<Rightarrow> byte list \<Rightarrow> nat \<Rightarrow> ngx_url_t \<Rightarrow> url_result option" where
  "inet_url_host alloc getaddrinfo m len u =
     (if len = 0 then Some (url_error ''no host'' u)
      else do {
        c \<leftarrow> rd m 0;
        let u = u\<lparr>u_host := str_at m 0 len\<rparr>;
        (if u_listen u \<and> len = 1 \<and> c = ch CHR ''*'' then Some (NGX_OK, u\<lparr>u_sockaddr := Sin 0 (htons (u_port u)), u_wildcard := True\<rparr>)
         else do {
           a \<leftarrow> ngx_inet_addr m 0 len;
           let u = u\<lparr>u_sockaddr := Sin a (htons (u_port u))\<rparr>;
           (if a \<noteq> INADDR_NONE then url_addr alloc sizeof_sockaddr_in (if a = 0 then u\<lparr>u_wildcard := True\<rparr> else u)
            else if u_no_resolve u then Some (NGX_OK, u)
            else inet_url_resolve alloc getaddrinfo u)
         })
      })"

text \<open>Where the URI starts, and the port in front of it.\<close>

definition uri_start :: "nat option \<Rightarrow> nat option \<Rightarrow> nat option" where
  "uri_start uri args = (case args of None \<Rightarrow> uri | Some a \<Rightarrow> (case uri of None \<Rightarrow> Some a | Some q \<Rightarrow> if a < q then Some a else Some q))"

definition port_start :: "nat option \<Rightarrow> nat option \<Rightarrow> nat option" where
  "port_start port uri = (case uri of None \<Rightarrow> port | Some q \<Rightarrow> (case port of Some p \<Rightarrow> if q < p then None else Some p | None \<Rightarrow> None))"

definition inet_url_port :: "byte list \<Rightarrow> nat \<Rightarrow> nat option \<Rightarrow> nat option \<Rightarrow> ngx_url_t \<Rightarrow> (url_result + ngx_url_t) option" where
  "inet_url_port m lst uri port u =
     (case port of
        Some p \<Rightarrow> url_port m (p + 1) lst u
      | None \<Rightarrow> if uri = None \<and> u_listen u then url_port_only m lst u else Some (Inr (default_port u)))"

definition ngx_parse_inet_url :: "alloc \<Rightarrow> resolver \<Rightarrow> ngx_url_t \<Rightarrow> url_result option" where
  "ngx_parse_inet_url alloc getaddrinfo u = do {
     let u = u\<lparr>u_socklen := sizeof_sockaddr_in, u_sockaddr := Sin 0 0, u_family := Fam_inet\<rparr>;
     let m = str_data (u_url u);
     let lst = str_len (u_url u);
     port \<leftarrow> ngx_strlchr m 0 lst (ch CHR '':'');
     uri \<leftarrow> ngx_strlchr m 0 lst (ch CHR ''/'');
     args \<leftarrow> ngx_strlchr m 0 lst (ch CHR ''?'');
     let uri = uri_start uri args;
     (case url_uri m lst uri u of
        Inl r \<Rightarrow> Some r
      | Inr (u, lst) \<Rightarrow> do {
          let port = port_start port uri;
          r \<leftarrow> inet_url_port m lst uri port u;
          (case r of
             Inl r \<Rightarrow> Some r
           | Inr u \<Rightarrow> inet_url_host alloc getaddrinfo m (case port of Some p \<Rightarrow> p | None \<Rightarrow> lst) u)
        })
   }"

subsection \<open>IPv6 addresses in brackets\<close>

definition inet6_url_port :: "byte list \<Rightarrow> nat \<Rightarrow> nat \<Rightarrow> ngx_url_t \<Rightarrow> (url_result + ngx_url_t) option" where
  "inet6_url_port m port lst u = do {
     uri \<leftarrow> ngx_strlchr m port lst (ch CHR ''/'');
     (case url_uri m lst uri u of
        Inl r \<Rightarrow> Some (Inl r)
      | Inr (u, lst) \<Rightarrow> do {
          c \<leftarrow> rd m port;
          (if c = ch CHR '':'' then url_port m (port + 1) lst u else Some (Inr (default_port u)))
        })
   }"

definition inet6_url_host :: "alloc \<Rightarrow> byte list \<Rightarrow> nat \<Rightarrow> ngx_url_t \<Rightarrow> url_result option" where
  "inet6_url_host alloc m len u =
     (if len = 0 then Some (url_error ''no host'' u)
      else do {
        let u = u\<lparr>u_host := str_at m 0 (len + 2)\<rparr>;
        (rc, b) \<leftarrow> ngx_inet6_addr m 1 len (replicate 16 0);
        (case b of
           None \<Rightarrow> Some (url_error ''invalid IPv6 address'' u)
         | Some b \<Rightarrow>
             let u = u\<lparr>u_sockaddr := Sin6 b (htons (u_port u)), u_family := Fam_inet6\<rparr>
             in url_addr alloc sizeof_sockaddr_in6 (if b = replicate 16 0 then u\<lparr>u_wildcard := True\<rparr> else u))
      })"

definition ngx_parse_inet6_url :: "alloc \<Rightarrow> ngx_url_t \<Rightarrow> url_result option" where
  "ngx_parse_inet6_url alloc u = do {
     let u = u\<lparr>u_socklen := sizeof_sockaddr_in6, u_sockaddr := Sin6 (replicate 16 0) 0\<rparr>;
     let m = str_data (u_url u);
     let lst = str_len (u_url u);
     p \<leftarrow> ngx_strlchr m 1 lst (ch CHR '']'');
     (case p of
        None \<Rightarrow> Some (url_error ''invalid host'' u)
      | Some p \<Rightarrow> do {
          r \<leftarrow> (if lst - p \<noteq> 0 then inet6_url_port m (p + 1) lst u else Some (Inr u));
          (case r of Inl r \<Rightarrow> Some r | Inr u \<Rightarrow> inet6_url_host alloc m (p - 1) u)
        })
   }"

definition ngx_parse_url :: "alloc \<Rightarrow> resolver \<Rightarrow> ngx_url_t \<Rightarrow> url_result option" where
  "ngx_parse_url alloc getaddrinfo u = do {
     r \<leftarrow> ngx_strncasecmp (str_data (u_url u)) 0 (bytes ''unix:'') 0 5;
     (if r = 0 then ngx_parse_unix_domain_url alloc u
      else do {
        c \<leftarrow> rd (str_data (u_url u)) 0;
        (if c = ch CHR ''['' then ngx_parse_inet6_url alloc u else ngx_parse_inet_url alloc getaddrinfo u)
      })
   }"

section \<open>The pieces\<close>

text \<open>What the parameters promise: memory lies in the address space, an IPv6 address has sixteen bytes, and the length of a socket address is that of its family.\<close>

definition sa_size :: "sockaddr \<Rightarrow> nat" where
  "sa_size sa = (case sa of Sin _ _ \<Rightarrow> sizeof_sockaddr_in | Sin6 _ _ \<Rightarrow> sizeof_sockaddr_in6 | Sun _ \<Rightarrow> sizeof_sockaddr_un | Sockaddr_other \<Rightarrow> 0)"

definition found_ok :: "sockaddr \<times> nat \<Rightarrow> bool" where
  "found_ok r \<longleftrightarrow> (case fst r of Sin _ _ \<Rightarrow> snd r = sizeof_sockaddr_in | Sin6 a _ \<Rightarrow> length a = 16 \<and> snd r = sizeof_sockaddr_in6 | _ \<Rightarrow> True)"

definition alloc_ok :: "alloc \<Rightarrow> nat \<Rightarrow> bool" where
  "alloc_ok alloc n \<longleftrightarrow> (\<forall>k p. alloc k = Some p \<longrightarrow> p + n + 300 < 2 ^ 64)"

definition resolver_ok :: "resolver \<Rightarrow> bool" where
  "resolver_ok getaddrinfo \<longleftrightarrow> (\<forall>host res. getaddrinfo host = Some res \<longrightarrow> list_all found_ok res)"

lemma vsl_str:
  assumes "length out + length s < cap"
  shows "ngx_vslprintf cap (bytes ''%V'' @ fmt) (VStr s # args) out = ngx_vslprintf cap fmt args (out @ s)"
proof -
  have "directive cap (bytes ''V'' @ fmt) (VStr s # args) out = Some (fmt, args, out @ s)"
    using assms by (simp add: bytes_def directive_def byte_simps convert_def put_str_def)
  from vsl_directive [OF this] assms show ?thesis by (simp add: bytes_def)
qed

lemma sprintf_host_port:
  assumes "p + length h + 300 < 2 ^ 64"
  shows "ngx_sprintf p (bytes ''%V:%d'') [VStr h, V32 (ucast (pt :: 16 word))] = Some (h @ bytes '':'' @ dec_show (unat pt))"
proof -
  let ?cap = "2 ^ 64 - 1 - p"
  have c: "length h + 10 < ?cap" using assms by simp
  have f: "bytes ''%V:%d'' = bytes ''%V'' @ bytes '':'' @ bytes ''%d''" by (simp add: bytes_def)
  have "ngx_vslprintf ?cap (bytes '':'' @ bytes ''%d'') [V32 (ucast pt)] h = ngx_vslprintf ?cap (bytes ''%d'') [V32 (ucast pt)] (h @ bytes '':'')"
    using c by (intro vsl_literal) (simp_all add: byte_simps)
  also have "\<dots> = Some ((h @ bytes '':'') @ dec_show (unat pt))" using c by (intro vsl_port) simp
  finally show ?thesis unfolding ngx_sprintf_def f using vsl_str [of "[]" h ?cap] c by simp
qed

text \<open>
  How a call ends: with addresses that have a socket address of the size of its family, which for a path means that it fits into \<open>sun_path\<close>, with the port of the URL; or with an error that has a reason.
\<close>

definition sa_fits :: "sockaddr \<Rightarrow> nat \<Rightarrow> bool" where
  "sa_fits sa n \<longleftrightarrow> n = sa_size sa \<and> (case sa of Sin6 a _ \<Rightarrow> length a = 16 | Sun path \<Rightarrow> length path \<le> sizeof_sun_path | _ \<Rightarrow> True)"

lemma sa_fits_port [simp]: "sa_fits (sa_with_port p sa) n \<longleftrightarrow> sa_fits sa n"
  by (simp add: sa_fits_def sa_with_port_def sa_size_def split: sockaddr.splits)

definition addrs_set :: "ngx_url_t \<Rightarrow> bool" where
  "addrs_set u \<longleftrightarrow> u_naddrs u = length (u_addrs u) \<and>
     (\<forall>a \<in> set (u_addrs u). \<exists>sa. na_sockaddr a = Some sa \<and> sa_fits sa (na_socklen a) \<and> sa_with_port (htons (u_port u)) sa = sa \<and> str_len (na_name a) \<le> length (str_data (na_name a)))"

definition url_done :: "alloc \<Rightarrow> url_result option \<Rightarrow> bool" where
  "url_done alloc r \<longleftrightarrow> (\<exists>rc u. r = Some (rc, u) \<and>
     (rc = NGX_OK \<and> addrs_set u \<and> (u_addrs u \<noteq> [] \<longrightarrow> na_sockaddr (hd (u_addrs u)) = Some (u_sockaddr u)) \<or>
      rc = NGX_ERROR \<and> (u_err u \<noteq> None \<or> (\<exists>k. alloc k = None))))"

definition is_err :: "url_result \<Rightarrow> bool" where
  "is_err r \<longleftrightarrow> fst r = NGX_ERROR \<and> u_err (snd r) \<noteq> None"

lemma is_err_error [simp]: "is_err (url_error e u)"
  by (simp add: is_err_def url_error_def)

lemma url_done_error: "is_err r \<Longrightarrow> url_done alloc (Some r)"
  by (cases r) (simp add: url_done_def is_err_def)

text \<open>Before the addresses are set.\<close>

definition fresh :: "nat \<Rightarrow> ngx_url_t \<Rightarrow> bool" where
  "fresh n u \<longleftrightarrow> u_addrs u = [] \<and> u_naddrs u = 0 \<and> str_len (u_url u) = n \<and> n < length (str_data (u_url u)) \<and> str_data (u_url u) ! n = 0"

lemma fresh_done: "fresh n u \<Longrightarrow> url_done alloc (Some (NGX_OK, u))"
  by (simp add: fresh_def url_done_def addrs_set_def)

lemma url_addr_done:
  assumes "sa_with_port (htons (u_port u)) (u_sockaddr u) = u_sockaddr u" "alloc_ok alloc (str_len (u_host u))" "sa_fits (u_sockaddr u) len"
  shows "url_done alloc (url_addr alloc len u)"
proof -
  let ?h = "take (str_len (u_host u)) (str_data (u_host u))"
  consider "\<exists>k. alloc k = None" "alloc 0 = None \<or> alloc 1 = None \<or> alloc 2 = None" | p where "alloc 0 \<noteq> None" "alloc 1 \<noteq> None" "alloc 2 = Some p" by (cases "alloc 0"; cases "alloc 1"; cases "alloc 2") blast+
  then show ?thesis
  proof cases
    case 1
    then show ?thesis by (auto simp: url_addr_def url_done_def Let_def split: option.splits)
  next
    case 2
    have "p + length ?h + 300 < 2 ^ 64" using assms(2) 2(3) by (fastforce simp: alloc_ok_def)
    from sprintf_host_port [OF this, of "u_port u"] show ?thesis
      using 2 assms(1,3) port_show_length [of "u_port u"] by (auto simp: url_addr_def url_done_def addrs_set_def Let_def)
  qed
qed

lemma url_uri_cases:
  assumes "fresh n u" "case uri of Some q \<Rightarrow> q < n | None \<Rightarrow> True"
  shows "case url_uri m n uri u of Inl r \<Rightarrow> is_err r
    | Inr (v, lst) \<Rightarrow> lst = (case uri of Some q \<Rightarrow> q | None \<Rightarrow> n) \<and> fresh n v \<and> u_url v = u_url u"
  using assms by (simp add: url_uri_def fresh_def split: option.splits)

text \<open>The result of a stage: an early return with the property \<open>P\<close>, or the record for the next stage.\<close>

definition stage :: "(url_result \<Rightarrow> bool) \<Rightarrow> nat \<Rightarrow> ngx_str_t \<Rightarrow> url_result + ngx_url_t \<Rightarrow> bool" where
  "stage P n url r = (case r of Inl e \<Rightarrow> P e | Inr v \<Rightarrow> fresh n v \<and> u_url v = url)"

lemma stage_simps [simp]: "stage P n url (Inl e) \<longleftrightarrow> P e" "stage P n url (Inr v) \<longleftrightarrow> fresh n v \<and> u_url v = url"
  by (simp_all add: stage_def)

lemma stage_mono: "stage P n url r \<Longrightarrow> (\<And>e. P e \<Longrightarrow> Q e) \<Longrightarrow> stage Q n url r"
  by (cases r) simp_all

lemma url_port_cases:
  assumes "fresh n u" "lst \<le> n" "m = str_data (u_url u)"
  shows "\<exists>r. url_port m port lst u = Some r \<and> stage is_err n (u_url u) r"
proof -
  have "lst - port \<le> length (drop port m)" using assms by (simp add: fresh_def diff_le_mono)
  from atoi_result [OF this] show ?thesis using assms(1) by (auto simp: url_port_def set_sin_port_def fresh_def)
qed

lemma default_port_fresh: "fresh n u \<Longrightarrow> fresh n (default_port u) \<and> u_url (default_port u) = u_url u"
  by (simp add: default_port_def set_sin_port_def fresh_def)

lemma url_port_only_cases:
  assumes "fresh n u" "m = str_data (u_url u)"
  shows "\<exists>r. url_port_only m n u = Some r \<and> stage (\<lambda>e. url_done alloc (Some e)) n (u_url u) r"
proof -
  have "n \<le> length m" using assms by (simp add: fresh_def)
  then obtain v where v: "ngx_atoi m n = Some v" using atoi_result by blast
  have "url_done alloc (Some (NGX_OK, set_sin_port k u\<lparr>u_port_text := t, u_wildcard := True\<rparr>))" for k t
    using assms(1) by (intro fresh_done [of n]) (simp add: fresh_def set_sin_port_def)
  then show ?thesis using v default_port_fresh [OF assms(1)] url_done_error [OF is_err_error] by (auto simp: url_port_only_def)
qed

lemma cpystrn_in: "n \<le> length src \<Longrightarrow> \<exists>r. cpystrn_loop src n = Some r \<and> length r \<le> Suc n"
proof (induction src arbitrary: n)
  case (Cons c src)
  show ?case
  proof (cases n)
    case (Suc k)
    then obtain r where "cpystrn_loop src k = Some r" "length r \<le> Suc k" using Cons.IH [of k] Cons.prems by auto
    then show ?thesis using Suc by simp
  qed simp
qed simp

lemma ngx_cpystrn_in: "n \<le> Suc (length src) \<Longrightarrow> \<exists>r. ngx_cpystrn src n = Some r \<and> length r \<le> n"
  using cpystrn_in [of "n - 1" src] by (auto simp: ngx_cpystrn_def)

section \<open>Sockets in the file system\<close>

lemma strlchr_in:
  assumes "stop \<le> length m"
  obtains r where "ngx_strlchr m p stop c = Some r" "\<forall>q. r = Some q \<longrightarrow> p \<le> q \<and> q < stop \<and> m ! q = c"
proof -
  have "ngx_strlchr m p stop c = Some (find (\<lambda>k. m ! k = c) [p..<stop])" by (rule ngx_strlchr_find [OF assms])
  moreover have "\<forall>q. find (\<lambda>k. m ! k = c) [p..<stop] = Some q \<longrightarrow> p \<le> q \<and> q < stop \<and> m ! q = c"
    by (auto simp: find_Some_iff)
  ultimately show ?thesis using that by blast
qed

lemma unix_addr_done:
  assumes "fresh n u" "len + 4 \<le> length (str_data (u_url u))" "ngx_cpystrn path len = Some out" "length out \<le> sizeof_sun_path" "u_sockaddr u = Sun out"
  shows "url_done alloc (unix_addr alloc len path u)"
  using assms by (auto simp: unix_addr_def url_done_def addrs_set_def sa_with_port_def fresh_def into_def sa_fits_def sa_size_def split: option.splits)

lemma unix_domain_done:
  assumes "fresh n u" "5 \<le> n" "n < 2 ^ 63"
  shows "url_done alloc (ngx_parse_unix_domain_url alloc u)"
proof -
  let ?m = "str_data (u_url u)"
  have n: "str_len (u_url u) = n" "n < length ?m" using assms(1) by (simp_all add: fresh_def)
  have len: "(str_len (u_url u) + 2 ^ 64 - 5) mod 2 ^ 64 = n - 5"
  proof -
    have "n + 2 ^ 64 - 5 = (n - 5) + 2 ^ 64" using assms(2) by simp
    then show ?thesis unfolding n(1) using assms(3) by (simp only: mod_add_self2) simp
  qed
  have lst: "5 + (n - 5) = n" using assms(2) by simp
  obtain q0 where q0: "ngx_strlchr ?m 5 n (ch CHR '':'') = Some q0" "\<forall>k. q0 = Some k \<longrightarrow> 5 \<le> k \<and> k < n \<and> ?m ! k = ch CHR '':''"
    using strlchr_in [of n ?m 5 "ch CHR '':''"] n(2) by auto
  obtain q where q: "(if u_uri_part u then ngx_strlchr ?m 5 n (ch CHR '':'') else Some None) = Some q" "\<forall>k. q = Some k \<longrightarrow> 5 \<le> k \<and> k < n"
    using q0 by (cases "u_uri_part u") auto
  define l where "l = (case q of Some k \<Rightarrow> k - 5 | None \<Rightarrow> n - 5)"
  define v where "v = (case q of Some k \<Rightarrow> u\<lparr>u_uri := str_at ?m (k + 1) (n - (k + 1))\<rparr> | None \<Rightarrow> u)"
  have l: "l + 5 \<le> n" using q(2) assms(2) by (auto simp: l_def split: option.splits)
  have v: "fresh n v" "u_url v = u_url u" using assms(1) by (auto simp: v_def fresh_def split: option.splits)
  have run: "ngx_parse_unix_domain_url alloc u = (if l = 0 then Some (url_error ''no path in the unix domain socket'' v)
      else let v = v\<lparr>u_host := str_at ?m 5 l\<rparr> in
        (if l + 1 > sizeof_sun_path then Some (url_error ''too long path in the unix domain socket'' v)
         else do { out \<leftarrow> ngx_cpystrn (drop 5 ?m) (l + 1); out \<leftarrow> into sizeof_sun_path out;
            unix_addr alloc (l + 1) (drop 5 ?m) (v\<lparr>u_socklen := sizeof_sockaddr_un, u_sockaddr := Sun out\<rparr>) }))"
    unfolding ngx_parse_unix_domain_url_def len Let_def lst using q(1) by (cases q) (simp_all add: l_def v_def)
  have "l + 1 \<le> Suc (length (drop 5 ?m))" using l n(2) by simp
  then obtain path where path: "ngx_cpystrn (drop 5 ?m) (l + 1) = Some path" "length path \<le> l + 1" using ngx_cpystrn_in by blast
  have "url_done alloc (unix_addr alloc (l + 1) (drop 5 ?m) (v\<lparr>u_host := str_at ?m 5 l, u_socklen := sizeof_sockaddr_un, u_sockaddr := Sun path\<rparr>))" if "l + 1 \<le> sizeof_sun_path"
    using v l n path that by (intro unix_addr_done [of n]) (auto simp: fresh_def)
  then show ?thesis unfolding run Let_def using path by (auto simp: into_def intro: url_done_error)
qed

section \<open>Host names\<close>

definition addr_good :: "16 word \<Rightarrow> ngx_addr_t \<Rightarrow> bool" where
  "addr_good port a \<longleftrightarrow> (\<exists>sa. na_sockaddr a = Some sa \<and> sa_fits sa (na_socklen a) \<and> sa_with_port (htons port) sa = sa \<and> str_len (na_name a) \<le> length (str_data (na_name a)))"

lemma addrs_set_good: "addrs_set u \<longleftrightarrow> u_naddrs u = length (u_addrs u) \<and> list_all (addr_good (u_port u)) (u_addrs u)"
  by (auto simp: addrs_set_def addr_good_def list_all_iff)

text \<open>The first \<open>i\<close> of the \<open>N\<close> addresses are set.\<close>

definition res_inv :: "nat \<Rightarrow> nat \<Rightarrow> ngx_url_t \<Rightarrow> bool" where
  "res_inv N i u \<longleftrightarrow> u_naddrs u = N \<and> length (u_addrs u) = N \<and> list_all (addr_good (u_port u)) (take i (u_addrs u))"

definition of_family :: "family \<Rightarrow> (sockaddr \<times> nat) list \<Rightarrow> nat" where
  "of_family fam res = length (filter (\<lambda>(sa, _). sa_family sa = fam) res)"

lemma of_family_simps [simp]: "of_family fam [] = 0" "of_family fam ((sa, n) # res) = (if sa_family sa = fam then Suc (of_family fam res) else of_family fam res)"
  by (simp_all add: of_family_def)

definition name_room :: "family \<Rightarrow> nat" where
  "name_room fam = (if fam = Fam_inet then 21 else 53)"

lemma sa_with_port_twice: "sa_with_port p (sa_with_port q sa) = sa_with_port p sa"
  by (simp add: sa_with_port_def split: sockaddr.splits)

lemma resolve_name:
  assumes "sa_family sa = fam" "fam = Fam_inet \<or> fam = Fam_inet6" "\<forall>a p. sa = Sin6 a p \<longrightarrow> length a = 16" "p + 300 < 2 ^ 64"
  shows "\<exists>out. ngx_sock_ntop (sa_with_port q sa) p (name_room fam) True = Some (length out, out) \<and> length out \<le> name_room fam"
proof (cases sa)
  case (Sin a p')
  then show ?thesis using sock_ntop_sin [of 21 a q p] assms(1) by (auto simp: sa_with_port_def sa_family_def name_room_def)
next
  case (Sin6 a p')
  then show ?thesis using sock_ntop_sin6 [of a 53 p q] assms by (fastforce simp: sa_with_port_def sa_family_def name_room_def)
qed (use assms in \<open>auto simp: sa_family_def\<close>)

lemma res_inv_step:
  assumes "res_inv N i u" "i < N" "sa_with_port (htons (u_port u)) sa = sa" "sa_fits sa l"
  shows "res_inv N (Suc i) (u\<lparr>u_addrs := (u_addrs u)[i := (u_addrs u ! i)\<lparr>na_sockaddr := Some sa, na_socklen := l, na_name := \<lparr>str_len = length out, str_data = out\<rparr>\<rparr>]\<rparr>)"
  using assms by (simp add: res_inv_def take_Suc_conv_app_nth addr_good_def)

lemma resolve_loop_done:
  assumes "alloc_ok alloc 0" "list_all found_ok res" "fam = Fam_inet \<or> fam = Fam_inet6"
    "res_inv N i u" "i + of_family fam res \<le> N"
  shows "\<exists>r. resolve_loop alloc fam (name_room fam) res k i u = Some r \<and>
    (case r of Inl _ \<Rightarrow> \<exists>k. alloc k = None | Inr (k, j, v) \<Rightarrow> j = i + of_family fam res \<and> res_inv N j v)"
  using assms(2,4,5)
proof (induction res arbitrary: k i u)
  case (Cons r res)
  obtain sa n where r: "r = (sa, n)" by (cases r)
  show ?case
  proof (cases "sa_family sa = fam")
    case False
    then have e: "of_family fam (r # res) = of_family fam res" "resolve_loop alloc fam (name_room fam) (r # res) k i u = resolve_loop alloc fam (name_room fam) res k i u"
      using r by simp_all
    show ?thesis unfolding e using Cons.IH [of i u k] Cons.prems unfolding e by simp
  next
    case True
    then have i: "i < N" "Suc i + of_family fam res \<le> N" using Cons.prems(3) r by simp_all
    let ?sa = "sa_with_port (htons (u_port u)) sa"
    have ok: "sa_fits sa n" "sa_used sa \<le> n" "i < length (u_addrs u)"
      using Cons.prems(1,2) True assms(3) r i(1) by (auto simp: found_ok_def sa_fits_def sa_size_def sa_used_def sa_family_def res_inv_def split: sockaddr.splits)
    consider "\<exists>k. alloc k = None" "alloc k = None \<or> alloc (k + 1) = None" | p where "alloc k \<noteq> None" "alloc (k + 1) = Some p"
      by (cases "alloc k"; cases "alloc (k + 1)") blast+
    then show ?thesis
    proof cases
      case 1
      then show ?thesis using True r ok by (auto simp: Let_def)
    next
      case 2
      have "p + 300 < 2 ^ 64" using assms(1) 2(2) by (fastforce simp: alloc_ok_def)
      moreover have "\<forall>a p. sa = Sin6 a p \<longrightarrow> length a = 16" using ok(1) by (auto simp: sa_fits_def)
      ultimately obtain out where out: "ngx_sock_ntop ?sa p (name_room fam) True = Some (length out, out)" "length out \<le> name_room fam"
        using resolve_name [OF True assms(3), of p "htons (u_port u)"] by blast
      let ?u = "u\<lparr>u_addrs := (u_addrs u)[i := (u_addrs u ! i)\<lparr>na_sockaddr := Some ?sa, na_socklen := n, na_name := \<lparr>str_len = length out, str_data = out\<rparr>\<rparr>]\<rparr>"
      have run: "resolve_loop alloc fam (name_room fam) (r # res) k i u = resolve_loop alloc fam (name_room fam) res (k + 2) (Suc i) ?u"
        using True 2 out r ok(2,3) by (auto simp: Let_def)
      have inv: "res_inv N (Suc i) ?u" by (rule res_inv_step [OF Cons.prems(2) i(1)]) (use ok(1) in \<open>simp_all add: sa_with_port_twice\<close>)
      have n: "i + of_family fam (r # res) = Suc i + of_family fam res" using True r by simp
      show ?thesis unfolding run n using Cons.IH [OF _ inv i(2), of "k + 2"] Cons.prems(1) by simp
    qed
  qed
qed simp

lemma families: "length (filter (\<lambda>(sa, _). sa_family sa = Fam_inet \<or> sa_family sa = Fam_inet6) res) = of_family Fam_inet res + of_family Fam_inet6 res"
  by (induction res) (auto split: if_splits)

lemma resolve_addrs_done:
  assumes "alloc_ok alloc 0" "list_all found_ok res" "res_inv N 0 u" "N = of_family Fam_inet res + of_family Fam_inet6 res"
  shows "\<exists>rc v. resolve_addrs alloc res u = Some (rc, v) \<and> (rc = NGX_OK \<and> addrs_set v \<and> u_naddrs v = N \<or> rc = NGX_ERROR \<and> (\<exists>k. alloc k = None))"
proof -
  have room: "NGX_INET_ADDRSTRLEN + 6 = name_room Fam_inet" "NGX_INET6_ADDRSTRLEN + 8 = name_room Fam_inet6" by (simp_all add: name_room_def)
  obtain r where r: "resolve_loop alloc Fam_inet (name_room Fam_inet) res 2 0 u = Some r"
    "case r of Inl _ \<Rightarrow> \<exists>k. alloc k = None | Inr (k, j, v) \<Rightarrow> j = 0 + of_family Fam_inet res \<and> res_inv N j v"
    using resolve_loop_done [OF assms(1,2) _ assms(3), of Fam_inet 2] assms(4) by auto
  show ?thesis
  proof (cases r)
    case (Inl v)
    then show ?thesis using r unfolding resolve_addrs_def room by simp
  next
    case (Inr x)
    obtain k j v where x: "x = (k, j, v)" by (cases x)
    have j: "j = of_family Fam_inet res" "res_inv N j v" using r(2) Inr x by auto
    obtain r' where r': "resolve_loop alloc Fam_inet6 (name_room Fam_inet6) res k j v = Some r'"
      "case r' of Inl _ \<Rightarrow> \<exists>k. alloc k = None | Inr (k, j', v) \<Rightarrow> j' = j + of_family Fam_inet6 res \<and> res_inv N j' v"
      using resolve_loop_done [OF assms(1,2) _ j(2), of Fam_inet6 k] assms(4) j(1) by auto
    then show ?thesis using r(1) Inr x j(1) assms(4) unfolding resolve_addrs_def room
      by (auto simp: res_inv_def addrs_set_good split: sum.splits prod.splits)
  qed
qed

lemma resolve_host_done:
  assumes "alloc_ok alloc 0" "resolver_ok getaddrinfo" "str_len (u_host u) \<le> length (str_data (u_host u))"
  shows "\<exists>rc v. ngx_inet_resolve_host alloc getaddrinfo u = Some (rc, v) \<and>
    (rc = NGX_OK \<and> addrs_set v \<and> u_addrs v \<noteq> [] \<or> rc = NGX_ERROR \<and> (u_err v \<noteq> None \<or> (\<exists>k. alloc k = None)))"
proof -
  obtain host where host: "ngx_cpystrn (str_data (u_host u)) (str_len (u_host u) + 1) = Some host" "into (str_len (u_host u) + 1) host = Some host"
    unfolding into_def using ngx_cpystrn_in [of "str_len (u_host u) + 1" "str_data (u_host u)"] assms(3) by auto
  show ?thesis
  proof (cases "alloc 0 = None \<or> getaddrinfo host = None")
    case True
    then show ?thesis using host by (auto simp: ngx_inet_resolve_host_def url_error_def split: option.splits)
  next
    case False
    then obtain res where res: "getaddrinfo host = Some res" "alloc 0 \<noteq> None" by auto
    let ?N = "of_family Fam_inet res + of_family Fam_inet6 res"
    have s: "list_all found_ok res" using assms(2) res(1) by (simp add: resolver_ok_def)
    have "res_inv ?N 0 (u\<lparr>u_addrs := replicate ?N null_addr, u_naddrs := ?N\<rparr>)" by (simp add: res_inv_def)
    from resolve_addrs_done [OF assms(1) s this refl] show ?thesis
      using host res by (auto simp: ngx_inet_resolve_host_def families url_error_def addrs_set_def Let_def split: option.splits)
  qed
qed

lemma inet_url_resolve_done:
  assumes "alloc_ok alloc 0" "resolver_ok getaddrinfo" "str_len (u_host u) \<le> length (str_data (u_host u))"
  shows "url_done alloc (inet_url_resolve alloc getaddrinfo u)"
proof -
  obtain rc v where v: "ngx_inet_resolve_host alloc getaddrinfo u = Some (rc, v)"
    "rc = NGX_OK \<and> addrs_set v \<and> u_addrs v \<noteq> [] \<or> rc = NGX_ERROR \<and> (u_err v \<noteq> None \<or> (\<exists>k. alloc k = None))" using resolve_host_done [OF assms] by blast
  show ?thesis
  proof (cases "rc = NGX_OK")
    case True
    then have "addrs_set v" "u_addrs v \<noteq> []" using v(2) by auto
    moreover from this obtain a as sa where a: "u_addrs v = a # as" "na_sockaddr a = Some sa" "sa_fits sa (na_socklen a)" by (cases "u_addrs v") (auto simp: addrs_set_def)
    moreover from a(3) have "na_socklen a \<le> NGX_SOCKADDRLEN" by (auto simp: sa_fits_def sa_size_def split: sockaddr.splits)
    ultimately show ?thesis using v(1) True by (simp add: inet_url_resolve_def url_done_def Let_def) (simp add: addrs_set_def)
  next
    case False
    then show ?thesis using v by (auto simp: inet_url_resolve_def url_done_def)
  qed
qed

section \<open>Hosts and ports\<close>

lemma alloc_ok_less: "alloc_ok alloc n \<Longrightarrow> k \<le> n \<Longrightarrow> alloc_ok alloc k"
  by (fastforce simp: alloc_ok_def)

lemma url_done_if: "url_done alloc x \<Longrightarrow> url_done alloc y \<Longrightarrow> url_done alloc (if c then x else y)"
  by simp

lemma inet_url_host_done:
  assumes "fresh n u" "m = str_data (u_url u)" "len \<le> n" "alloc_ok alloc n" "resolver_ok getaddrinfo"
  shows "url_done alloc (inet_url_host alloc getaddrinfo m len u)"
proof (cases "len = 0")
  case True
  then show ?thesis by (simp add: inet_url_host_def url_done_error)
next
  case False
  let ?u = "u\<lparr>u_host := str_at m 0 len\<rparr>"
  have l: "len < length m" using assms(1-3) by (simp add: fresh_def)
  then have rd: "rd m 0 = Some (m ! 0)" using False by (intro rd_in) linarith
  obtain a where a: "ngx_inet_addr m 0 len = Some a" using inet_returns [of 0 len m 0 0 0] l by (fastforce simp: ngx_inet_addr_def)
  let ?v = "?u\<lparr>u_sockaddr := Sin a (htons (u_port u))\<rparr>"
  have star: "url_done alloc (Some (NGX_OK, ?u\<lparr>u_sockaddr := x, u_wildcard := True\<rparr>))" "url_done alloc (Some (NGX_OK, ?v))" for x
    using assms(1) by (auto intro!: fresh_done [of n] simp: fresh_def)
  have addr: "url_done alloc (url_addr alloc sizeof_sockaddr_in (if a = 0 then ?v\<lparr>u_wildcard := True\<rparr> else ?v))"
    using alloc_ok_less [OF assms(4,3)] by (intro url_addr_done) (auto simp: sa_with_port_def str_at_def sa_fits_def sa_size_def)
  have res: "url_done alloc (inet_url_resolve alloc getaddrinfo ?v)"
    using alloc_ok_less [OF assms(4), of 0] l by (intro inet_url_resolve_done assms(5)) (auto simp: str_at_def)
  let ?star = "u_listen u \<and> len = 1 \<and> m ! 0 = ch CHR ''*''"
  have run: "inet_url_host alloc getaddrinfo m len u = (if ?star then Some (NGX_OK, ?u\<lparr>u_sockaddr := Sin 0 (htons (u_port u)), u_wildcard := True\<rparr>)
      else if a \<noteq> INADDR_NONE then url_addr alloc sizeof_sockaddr_in (if a = 0 then ?v\<lparr>u_wildcard := True\<rparr> else ?v)
      else if u_no_resolve u then Some (NGX_OK, ?v) else inet_url_resolve alloc getaddrinfo ?v)"
    using False rd a by (simp add: inet_url_host_def Let_def)
  show ?thesis unfolding run by (intro url_done_if star addr res)
qed

lemma inet6_url_host_done:
  assumes "fresh n u" "m = str_data (u_url u)" "len + 2 \<le> n" "alloc_ok alloc n"
  shows "url_done alloc (inet6_url_host alloc m len u)"
proof (cases "len = 0")
  case True
  then show ?thesis by (simp add: inet6_url_host_def url_done_error)
next
  case False
  have "1 + len \<le> length m" using assms by (simp add: fresh_def)
  then obtain rc b where b: "ngx_inet6_addr m 1 len (replicate 16 0) = Some (rc, b)" "\<forall>x. b = Some x \<longrightarrow> length x = 16" using inet6_addr_returns [of 1 len m "replicate 16 0"] by auto
  have "url_done alloc (url_addr alloc sizeof_sockaddr_in6 (if c then v\<lparr>u_wildcard := True\<rparr> else v))"
    if "v = u\<lparr>u_host := str_at m 0 (len + 2), u_sockaddr := Sin6 x (htons (u_port u)), u_family := Fam_inet6\<rparr>" "length x = 16" for v c x
    using alloc_ok_less [OF assms(4,3)] that by (intro url_addr_done) (auto simp: sa_with_port_def str_at_def sa_fits_def sa_size_def)
  then show ?thesis using False b by (cases b) (auto simp: inet6_url_host_def Let_def url_done_error)
qed

lemma inet_url_port_cases:
  assumes "fresh n u" "lst \<le> n" "m = str_data (u_url u)" "uri = None \<longrightarrow> lst = n"
  shows "\<exists>r. inet_url_port m lst uri port u = Some r \<and> stage (\<lambda>e. url_done alloc (Some e)) n (u_url u) r"
proof (cases port)
  case None
  then show ?thesis
    using url_port_only_cases [OF assms(1,3)] default_port_fresh [OF assms(1)] assms(4) by (cases "uri = None \<and> u_listen u") (auto simp: inet_url_port_def)
next
  case (Some p)
  then obtain r where "url_port m (p + 1) lst u = Some r" "stage is_err n (u_url u) r"
    using url_port_cases [OF assms(1-3)] by blast
  then show ?thesis using Some stage_mono [OF _ url_done_error] by (simp add: inet_url_port_def)
qed

lemma inet_url_done:
  assumes "fresh n u" "alloc_ok alloc n" "resolver_ok getaddrinfo"
  shows "url_done alloc (ngx_parse_inet_url alloc getaddrinfo u)"
proof -
  let ?m = "str_data (u_url u)"
  let ?u = "u\<lparr>u_socklen := sizeof_sockaddr_in, u_sockaddr := Sin 0 0, u_family := Fam_inet\<rparr>"
  have n: "str_len (u_url u) = n" "n \<le> length ?m" "fresh n ?u" using assms(1) by (simp_all add: fresh_def)
  obtain port where port: "ngx_strlchr ?m 0 n (ch CHR '':'') = Some port" "\<forall>q. port = Some q \<longrightarrow> 0 \<le> q \<and> q < n \<and> ?m ! q = ch CHR '':''" by (rule strlchr_in [OF n(2)])
  obtain uri0 where uri0: "ngx_strlchr ?m 0 n (ch CHR ''/'') = Some uri0" "\<forall>q. uri0 = Some q \<longrightarrow> 0 \<le> q \<and> q < n \<and> ?m ! q = ch CHR ''/''" by (rule strlchr_in [OF n(2)])
  obtain args where args: "ngx_strlchr ?m 0 n (ch CHR ''?'') = Some args" "\<forall>q. args = Some q \<longrightarrow> 0 \<le> q \<and> q < n \<and> ?m ! q = ch CHR ''?''" by (rule strlchr_in [OF n(2)])
  let ?uri = "uri_start uri0 args" and ?port = "port_start port (uri_start uri0 args)"
  have uri: "case ?uri of Some q \<Rightarrow> q < n | None \<Rightarrow> True" using uri0(2) args(2) by (auto simp: uri_start_def split: option.splits)
  have p: "\<forall>p. ?port = Some p \<longrightarrow> p < n" using port(2) by (auto simp: port_start_def split: option.splits if_splits)
  note start = port(1) uri0(1) args(1) n(1)
  show ?thesis
  proof (cases "url_uri ?m n ?uri ?u")
    case (Inl r)
    then have "ngx_parse_inet_url alloc getaddrinfo u = Some r" unfolding ngx_parse_inet_url_def using start by (simp add: Let_def)
    then show ?thesis using url_uri_cases [OF n(3) uri, of ?m] Inl by (simp add: url_done_error)
  next
    case (Inr x)
    obtain v lst where x: "x = (v, lst)" by (cases x)
    have v: "lst = (case ?uri of Some q \<Rightarrow> q | None \<Rightarrow> n)" "fresh n v" "?m = str_data (u_url v)" using url_uri_cases [OF n(3) uri, of ?m] Inr x by auto
    have lst: "lst \<le> n" using v(1) uri by (auto split: option.splits)
    obtain r where r: "inet_url_port ?m lst ?uri ?port v = Some r" "stage (\<lambda>e. url_done alloc (Some e)) n (u_url v) r"
      using inet_url_port_cases [OF v(2) lst v(3)] v(1) by (metis option.simps(4))
    have "ngx_parse_inet_url alloc getaddrinfo u = (case r of Inl r \<Rightarrow> Some r
        | Inr u \<Rightarrow> inet_url_host alloc getaddrinfo ?m (case ?port of Some p \<Rightarrow> p | None \<Rightarrow> lst) u)"
      unfolding ngx_parse_inet_url_def using start Inr x r(1) by (simp add: Let_def)
    moreover have l: "(case ?port of Some p \<Rightarrow> p | None \<Rightarrow> lst) \<le> n" using p lst by (cases ?port) (auto intro: less_imp_le)
    have "url_done alloc (inet_url_host alloc getaddrinfo ?m (case ?port of Some p \<Rightarrow> p | None \<Rightarrow> lst) w)" if "r = Inr w" for w
      using that r(2) v(3) by (intro inet_url_host_done [OF _ _ l assms(2,3)]) simp_all
    ultimately show ?thesis using r(2) by (cases r) simp_all
  qed
qed

lemma inet6_url_port_cases:
  assumes "fresh n u" "m = str_data (u_url u)" "rd m port = Some c"
  shows "\<exists>r. inet6_url_port m port n u = Some r \<and> stage is_err n (u_url u) r"
proof -
  have "n \<le> length m" using assms by (simp add: fresh_def)
  then obtain uri where uri: "ngx_strlchr m port n (ch CHR ''/'') = Some uri" "\<forall>k. uri = Some k \<longrightarrow> port \<le> k \<and> k < n \<and> m ! k = ch CHR ''/''" by (rule strlchr_in)
  have u: "case uri of Some q \<Rightarrow> q < n | None \<Rightarrow> True" using uri(2) by (auto split: option.splits)
  show ?thesis
  proof (cases "url_uri m n uri u")
    case (Inl r)
    then show ?thesis using uri(1) url_uri_cases [OF assms(1) u, of m] by (simp add: inet6_url_port_def)
  next
    case (Inr x)
    obtain v lst where x: "x = (v, lst)" by (cases x)
    have v: "lst = (case uri of Some q \<Rightarrow> q | None \<Rightarrow> n)" "fresh n v" "u_url v = u_url u" using url_uri_cases [OF assms(1) u, of m] Inr x by auto
    have "lst \<le> n" using v(1) u by (auto split: option.splits)
    then have "\<exists>r. url_port m (port + 1) lst v = Some r \<and> stage is_err n (u_url v) r"
      using url_port_cases [OF v(2)] v(3) assms(2) by simp
    then show ?thesis using uri(1) assms(3) Inr x default_port_fresh [OF v(2)] v(3) by (simp add: inet6_url_port_def)
  qed
qed

lemma inet6_url_done:
  assumes "fresh n u" "alloc_ok alloc n"
  shows "url_done alloc (ngx_parse_inet6_url alloc u)"
proof -
  let ?m = "str_data (u_url u)"
  let ?u = "u\<lparr>u_socklen := sizeof_sockaddr_in6, u_sockaddr := Sin6 (replicate 16 0) 0\<rparr>"
  have n: "str_len (u_url u) = n" "n \<le> length ?m" "n < length ?m" "fresh n ?u" using assms(1) by (simp_all add: fresh_def)
  obtain p where p: "ngx_strlchr ?m 1 n (ch CHR '']'') = Some p" "\<forall>q. p = Some q \<longrightarrow> 1 \<le> q \<and> q < n \<and> ?m ! q = ch CHR '']''" by (rule strlchr_in [OF n(2)])
  show ?thesis
  proof (cases p)
    case None
    then show ?thesis using p(1) n(1) by (simp add: ngx_parse_inet6_url_def url_done_error)
  next
    case (Some q)
    then have q: "1 \<le> q" "q < n" using p(2) by auto
    have rd: "rd ?m (q + 1) = Some (?m ! (q + 1))" using q n(3) by (intro rd_in) simp
    from inet6_url_port_cases [OF n(4) _ rd] obtain r where r: "inet6_url_port ?m (q + 1) n ?u = Some r" "stage is_err n (u_url u) r" by auto
    have "ngx_parse_inet6_url alloc u = (case r of Inl r \<Rightarrow> Some r | Inr u \<Rightarrow> inet6_url_host alloc ?m (q - 1) u)"
      using p(1) Some q n(1) r(1) by (cases r) (simp_all add: ngx_parse_inet6_url_def)
    moreover have l: "q - 1 + 2 \<le> n" using q by simp
    have "url_done alloc (inet6_url_host alloc ?m (q - 1) w)" if "r = Inr w" for w
      using that r(2) by (intro inet6_url_host_done [OF _ _ l assms(2)]) simp_all
    ultimately show ?thesis using r(2) by (cases r) (simp_all add: url_done_error)
  qed
qed

section \<open>All forms\<close>

lemma length_bytes5: "length (bytes ''unix:'') = 5"
  by simp

lemma unix_prefix:
  assumes "fresh n u"
  shows "\<exists>r. ngx_strncasecmp (str_data (u_url u)) 0 (bytes ''unix:'') 0 5 = Some r \<and> (r = 0 \<longrightarrow> 5 \<le> n)"
proof -
  let ?m = "str_data (u_url u)"
  have m: "n < length ?m" "?m ! n = 0" using assms by (simp_all add: fresh_def)
  then have "0 \<in> set (drop 0 ?m)" by (metis drop0 nth_mem)
  moreover have "0 \<notin> set (take 5 (drop 0 (bytes ''unix:'')))" "0 + 5 \<le> length (bytes ''unix:'')" by (simp_all add: bytes_def byte_simps)
  ultimately obtain r where r: "ngx_strncasecmp ?m 0 (bytes ''unix:'') 0 5 = Some r" "r = 0 \<longleftrightarrow> is_match ngx_tolower (take 5 (drop 0 (bytes ''unix:''))) (drop 0 ?m)"
    unfolding ngx_strncasecmp_def using folded.strn_cmp_0 [of 5 0 "bytes ''unix:''" 0 ?m] by blast
  have "5 \<le> n" if "r = 0"
  proof (rule ccontr)
    assume l: "\<not> 5 \<le> n"
    have t: "take 5 (drop 0 (bytes ''unix:'')) = bytes ''unix:''" by (simp add: bytes_def)
    have "map ngx_tolower (take 5 ?m) = map ngx_tolower (bytes ''unix:'')" using that r(2) unfolding t is_match_def length_bytes5 by simp
    then have "map ngx_tolower (take 5 ?m) ! n = map ngx_tolower (bytes ''unix:'') ! n" by simp
    then have "ngx_tolower 0 = ngx_tolower (bytes ''unix:'' ! n)" using l m by simp
    then have "bytes ''unix:'' ! n = 0" using folded.norm_0 [of "bytes ''unix:'' ! n"] folded.norm_0 [of 0] by simp
    moreover have "bytes ''unix:'' ! n \<in> set (bytes ''unix:'')" using l by (intro nth_mem) simp
    ultimately have "0 \<in> set (bytes ''unix:'')" by simp
    then show False by (simp add: bytes_def byte_simps)
  qed
  then show ?thesis using r(1) by blast
qed

lemma parse_url_done:
  assumes "fresh n u" "alloc_ok alloc n" "resolver_ok getaddrinfo" "n < 2 ^ 63"
  shows "url_done alloc (ngx_parse_url alloc getaddrinfo u)"
proof -
  obtain r where r: "ngx_strncasecmp (str_data (u_url u)) 0 (bytes ''unix:'') 0 5 = Some r" "r = 0 \<longrightarrow> 5 \<le> n" using unix_prefix [OF assms(1)] by blast
  have rd: "rd (str_data (u_url u)) 0 = Some (str_data (u_url u) ! 0)" using assms(1) by (intro rd_in) (auto simp: fresh_def)
  show ?thesis
  proof (cases "r = 0")
    case True
    then show ?thesis using unix_domain_done [OF assms(1) _ assms(4)] r by (simp add: ngx_parse_url_def)
  next
    case False
    then show ?thesis using inet6_url_done [OF assms(1,2)] inet_url_done [OF assms(1-3)] r(1) rd by (simp add: ngx_parse_url_def)
  qed
qed

text \<open>
  C21: \<open>ngx_parse_url\<close>, for every text that ends with a NUL, every resolver whose addresses have the length of their family, and whatever allocations fail: it returns without reading behind the NUL,
  and without writing behind \<open>sun_path\<close>, \<open>u->sockaddr\<close>, the copies of the found addresses, the array of addresses or the names that it allocates. \<open>NGX_OK\<close> gives as many addresses as it announces, each
  with a socket address of the size of its family, with the port of the URL, and with a name in its memory; the first of them, where there is one, is also the socket address of the URL. Otherwise it returns
  \<open>NGX_ERROR\<close>, with a reason or because an allocation failed.
\<close>
theorem ngx_parse_url_safe:
  assumes "u_url u = \<lparr>str_len = length t, str_data = t @ [0]\<rparr>" "length t < 2 ^ 63" "u_addrs u = []" "u_naddrs u = 0"
    "alloc_ok alloc (length t)" "resolver_ok getaddrinfo"
  shows "\<exists>rc v. ngx_parse_url alloc getaddrinfo u = Some (rc, v) \<and>
    (rc = NGX_OK \<and> u_naddrs v = length (u_addrs v) \<and>
       (\<forall>a \<in> set (u_addrs v). \<exists>sa. na_sockaddr a = Some sa \<and> sa_fits sa (na_socklen a) \<and> sa_with_port (htons (u_port v)) sa = sa \<and> str_len (na_name a) \<le> length (str_data (na_name a))) \<and>
       (u_addrs v \<noteq> [] \<longrightarrow> na_sockaddr (hd (u_addrs v)) = Some (u_sockaddr v)) \<or>
     rc = NGX_ERROR \<and> (u_err v \<noteq> None \<or> (\<exists>k. alloc k = None)))"
proof -
  have "fresh (length t) u" using assms(1,3,4) by (simp add: fresh_def)
  from parse_url_done [OF this assms(5,6,2)] show ?thesis by (simp add: url_done_def addrs_set_def)
qed

definition url_of :: "byte list \<Rightarrow> ngx_url_t" where
  "url_of t = \<lparr>u_url = \<lparr>str_len = length t, str_data = t @ [0]\<rparr>, u_host = \<lparr>str_len = 0, str_data = []\<rparr>, u_port_text = \<lparr>str_len = 0, str_data = []\<rparr>,
     u_uri = \<lparr>str_len = 0, str_data = []\<rparr>, u_port = 0, u_default_port = 0, u_family = Fam_other, u_listen = False, u_uri_part = False,
     u_no_resolve = False, u_no_port = False, u_wildcard = False, u_socklen = 0, u_sockaddr = Sockaddr_other, u_addrs = [], u_naddrs = 0, u_err = None\<rparr>"

theorem ngx_parse_url_safe_witness:
  "\<exists>rc v. ngx_parse_url (\<lambda>k. Some 4096) (\<lambda>host. Some [(Sin 1 0, 16)]) (url_of (bytes ''localhost:80'')) = Some (rc, v) \<and> (rc = NGX_OK \<or> rc = NGX_ERROR)"
  using ngx_parse_url_safe [of "url_of (bytes ''localhost:80'')" "bytes ''localhost:80''" "\<lambda>k. Some 4096" "\<lambda>host. Some [(Sin 1 0, 16)]"]
  by (auto simp: url_of_def alloc_ok_def resolver_ok_def found_ok_def)

end
