(* ===== verification/Ngx_Url_Read.thy ===== *)
theory Ngx_Url_Read
  imports Ngx_Url
begin

text \<open>
  \<open>ngx_parse_url\<close> reads what \<open>ngx_sock_ntop\<close> prints. The text is found again by its delimiters, its port and address by the
  readers of numbers and addresses.
\<close>

section \<open>Reading printed addresses\<close>

lemma htons_htons: "htons (htons w) = w"
  unfolding ntohs_def by (rule bit_word_eqI) (auto simp: bit_simps)

lemma strlchr_first:
  assumes "m = zs @ xs @ c # ys" "c \<notin> set xs" "length zs + length xs < stop" "stop \<le> length m"
  shows "ngx_strlchr m (length zs) stop c = Some (Some (length zs + length xs))"
proof -
  have "find (\<lambda>k. m ! k = c) [length zs..<stop] = Some (length zs + length xs)"
    unfolding find_Some_iff using assms(1-3) by (intro exI [of _ "length xs"]) (auto simp: nth_append in_set_conv_nth)
  then show ?thesis using ngx_strlchr_find [OF assms(4)] by simp
qed

lemma strlchr_none:
  assumes "c \<notin> set (drop p (take stop m))" "stop \<le> length m"
  shows "ngx_strlchr m p stop c = Some None"
proof -
  have "m ! k \<noteq> c" if k: "k \<in> set [p..<stop]" for k
  proof -
    have "drop p (take stop m) ! (k - p) = m ! k" "k - p < length (drop p (take stop m))" using k assms(2) by auto
    then show ?thesis using assms(1) nth_mem by metis
  qed
  then have "find (\<lambda>k. m ! k = c) [p..<stop] = None" unfolding find_None_iff by blast
  then show ?thesis using ngx_strlchr_find [OF assms(2)] by simp
qed

lemma not_unix:
  assumes "m = c # xs" "0 \<in> set m" "ngx_tolower c \<noteq> ch CHR ''u''"
  shows "\<exists>r. ngx_strncasecmp m 0 (bytes ''unix:'') 0 5 = Some r \<and> r \<noteq> 0"
proof -
  have "0 \<notin> set (take 5 (drop 0 (bytes ''unix:'')))" "0 + 5 \<le> length (bytes ''unix:'')" by (simp_all add: bytes_def byte_simps)
  then obtain r where r: "ngx_strncasecmp m 0 (bytes ''unix:'') 0 5 = Some r" "r = 0 \<longleftrightarrow> is_match ngx_tolower (take 5 (drop 0 (bytes ''unix:''))) (drop 0 m)"
    unfolding ngx_strncasecmp_def using folded.strn_cmp_0 [of 5 0 "bytes ''unix:''" 0 m] assms(2) by auto
  have t: "take 5 (drop 0 (bytes ''unix:'')) = ch CHR ''u'' # bytes ''nix:''" by (simp add: bytes_def)
  have "ngx_tolower (ch CHR ''u'') = ch CHR ''u''" by (simp add: ngx_tolower_def byte_simps)
  then have "\<not> is_match ngx_tolower (take 5 (drop 0 (bytes ''unix:''))) (drop 0 m)" unfolding t using assms(1,3) by (simp add: is_match_Cons)
  then show ?thesis using r by blast
qed

lemma url_port_read:
  assumes "m = xs @ dec_show (unat (pt :: 16 word)) @ [0]" "pt \<noteq> 0" "lst = length xs + length (dec_show (unat pt))"
  shows "url_port m (length xs) lst u = Some (Inr ((set_sin_port pt u)\<lparr>u_port_text := str_at m (length xs) (lst - length xs)\<rparr>))"
proof -
  let ?d = "dec_show (unat pt)"
  have p: "0 < unat pt" "unat pt < 65536" using assms(2) unat_less_exp16 [of pt] by (simp_all add: unat_gt_0)
  have "take (lst - length xs) (drop (length xs) m) = ?d" using assms(1,3) by simp
  then have "ngx_atoi (drop (length xs) m) (lst - length xs) = Some (of_nat (unat pt))"
    using assms(1,3) p dec_show_digits [of "unat pt"] by (simp add: ngx_atoi_def ngx_ato_loop_0 int64_result_small del: of_nat_unat)
  moreover have "\<not> bad_port (of_nat (unat pt))"
  proof -
    have v: "unat (of_nat (unat pt) :: u64) = unat pt" using p by (simp add: unat_of_nat_small del: of_nat_unat)
    have "\<not> of_nat (unat pt) <s (1 :: u64)" using sless_small [of 1 "unat pt"] p by (simp del: of_nat_unat)
    moreover have "\<not> 65535 <s (of_nat (unat pt) :: u64)" using sless_small [of "of_nat (unat pt)" 65535] v p by (simp del: of_nat_unat)
    ultimately show ?thesis by (simp add: bad_port_def del: of_nat_unat)
  qed
  moreover have "(ucast (of_nat (unat pt) :: u64) :: 16 word) = pt" by (simp, rule bit_word_eqI) (auto simp: bit_simps)
  ultimately show ?thesis by (simp add: url_port_def del: of_nat_unat)
qed

lemma url_addr_ok:
  assumes "\<forall>k. alloc k \<noteq> None" "alloc_ok alloc (str_len (u_host u))"
  shows "\<exists>v a. url_addr alloc len u = Some (NGX_OK, v) \<and> u_sockaddr v = u_sockaddr u \<and> u_naddrs v = 1 \<and> u_addrs v = [a] \<and> na_sockaddr a = Some (u_sockaddr u) \<and>
    (\<forall>t. t = take (str_len (u_host u)) (str_data (u_host u)) @ bytes '':'' @ dec_show (unat (u_port u)) \<longrightarrow> na_name a = \<lparr>str_len = length t, str_data = t\<rparr>)"
proof -
  let ?h = "take (str_len (u_host u)) (str_data (u_host u))"
  obtain p where p: "alloc 2 = Some p" using assms(1) by auto
  have "p + length ?h + 300 < 2 ^ 64" using assms(2) p by (fastforce simp: alloc_ok_def)
  from sprintf_host_port [OF this, of "u_port u"] show ?thesis
    using p assms(1) port_show_length [of "u_port u"] by (auto simp: url_addr_def Let_def null_addr_def)
qed

lemma not_dec: "\<not> is_digit c \<Longrightarrow> c \<notin> set (dec_show n)"
  using dec_show_digits [of n] by (auto simp: list_all_iff)

lemma not_v4: "\<not> is_digit c \<Longrightarrow> c \<noteq> ch CHR ''.'' \<Longrightarrow> c \<notin> set (v4_show (in_addr_bytes a))"
  using not_dec unfolding in_addr_bytes_def v4_show_simps by (auto simp: bytes_def)

lemma inet_url_read:
  assumes t: "t = v4_show (in_addr_bytes a) @ bytes '':'' @ dec_show (unat pt)" and a: "a \<noteq> INADDR_NONE" "pt \<noteq> 0"
    and u: "u_url u = \<lparr>str_len = length t, str_data = t @ [0]\<rparr>" and al: "\<forall>k. alloc k \<noteq> None" "alloc_ok alloc (length t)"
  shows "\<exists>v ad. ngx_parse_url alloc getaddrinfo u = Some (NGX_OK, v) \<and> u_sockaddr v = Sin a (htons pt) \<and> u_naddrs v = 1 \<and> u_addrs v = [ad] \<and>
    na_sockaddr ad = Some (Sin a (htons pt)) \<and> na_name ad = \<lparr>str_len = length t, str_data = t\<rparr>"
proof -
  define h where hd: "h = v4_show (in_addr_bytes a)"
  let ?m = "t @ [0]" and ?d = "dec_show (unat pt)"
  let ?u = "u\<lparr>u_socklen := sizeof_sockaddr_in, u_sockaddr := Sin 0 0, u_family := Fam_inet\<rparr>"
  have t: "t = h @ bytes '':'' @ ?d" using t by (simp only: hd)
  have four: "length (in_addr_bytes a) = 4" by (simp add: in_addr_bytes_def)
  obtain c xs where h: "h = c # xs" "is_digit c"
    using dec_show_digits [of "unat (hd (in_addr_bytes a))"] unfolding hd in_addr_bytes_def v4_show_simps by (cases "dec_show (unat (ucast a :: byte))") auto
  have c: "ngx_tolower c \<noteq> ch CHR ''u''" "c \<noteq> ch CHR ''[''" using h(2) by (auto simp: ngx_tolower_def byte_simps word_le_nat_alt split: if_splits)
  obtain r where r: "ngx_strncasecmp ?m 0 (bytes ''unix:'') 0 5 = Some r" "r \<noteq> 0" using not_unix [of ?m c "xs @ bytes '':'' @ ?d @ [0]"] h(1) t c(1) by auto
  have n: "length t \<le> length ?m" by simp
  have nd: "\<not> is_digit (ch CHR ''/'')" "ch CHR ''/'' \<noteq> ch CHR ''.''" "\<not> is_digit (ch CHR ''?'')" "ch CHR ''?'' \<noteq> ch CHR ''.''"
    "ch CHR ''/'' \<noteq> ch CHR '':''" "ch CHR ''?'' \<noteq> ch CHR '':''" "\<not> is_digit (ch CHR '':'')" "ch CHR '':'' \<noteq> ch CHR ''.''"
    by (simp_all add: byte_simps)
  have colon: "ngx_strlchr ?m 0 (length t) (ch CHR '':'') = Some (Some (length h))"
    using not_v4 [OF nd(7,8), of a, folded hd] t strlchr_first [of ?m "[]" h "ch CHR '':''" "?d @ [0]" "length t"] by (simp add: bytes_def)
  have none: "ngx_strlchr ?m 0 (length t) (ch CHR ''/'') = Some None" "ngx_strlchr ?m 0 (length t) (ch CHR ''?'') = Some None"
    using not_v4 [OF nd(1,2), of a, folded hd] not_v4 [OF nd(3,4), of a, folded hd] not_dec [OF nd(1)] not_dec [OF nd(3)] nd(5,6) t by (auto intro!: strlchr_none simp: bytes_def)
  have port: "url_port ?m (length h + 1) (length t) ?u = Some (Inr ((set_sin_port pt ?u)\<lparr>u_port_text := str_at ?m (length h + 1) (length t - (length h + 1))\<rparr>))"
    using url_port_read [of ?m "h @ bytes '':''" pt "length t" ?u] t a(2) by simp
  let ?w = "(set_sin_port pt ?u)\<lparr>u_port_text := str_at ?m (length h + 1) (length t - (length h + 1))\<rparr>"
  have parse: "ngx_parse_url alloc getaddrinfo u = inet_url_host alloc getaddrinfo ?m (length h) ?w"
    using r colon none port u h(1) t c(2) by (simp add: ngx_parse_url_def ngx_parse_inet_url_def url_uri_def uri_start_def port_start_def inet_url_port_def Let_def)
  have "reads ?m 0 h" using t reads_self [of ?m] by simp
  then have addr: "ngx_inet_addr ?m 0 (length h) = Some a" using inet_addr_v4 [OF four] in_addr_bytes_inj unfolding hd by blast
  let ?x = "?w\<lparr>u_host := str_at ?m 0 (length h), u_sockaddr := Sin a (htons pt)\<rparr>"
  let ?y = "if a = 0 then ?x\<lparr>u_wildcard := True\<rparr> else ?x"
  have "c \<noteq> ch CHR ''*''" using h(2) by (auto simp: byte_simps)
  then have host: "inet_url_host alloc getaddrinfo ?m (length h) ?w = url_addr alloc sizeof_sockaddr_in ?y"
    using addr a(1) h(1) t by (simp add: inet_url_host_def Let_def set_sin_port_def)
  have "str_len (u_host ?y) \<le> length t" using t by (simp add: str_at_def)
  then have "alloc_ok alloc (str_len (u_host ?y))" using alloc_ok_less [OF al(2)] by blast
  moreover have "take (str_len (u_host ?y)) (str_data (u_host ?y)) @ bytes '':'' @ dec_show (unat (u_port ?y)) = t" "u_sockaddr ?y = Sin a (htons pt)"
    using t by (simp_all add: str_at_def set_sin_port_def)
  ultimately show ?thesis unfolding parse host using url_addr_ok [OF al(1), of ?y sizeof_sockaddr_in] by metis
qed

lemma hex_digits_set: "c \<notin> set hex_digits \<Longrightarrow> c \<notin> set (hex_show n)"
proof -
  have "hex_digits ! k \<in> set hex_digits" if "k \<in> set (nibbles n)" for k
    using nibbles_small [OF that] by (intro nth_mem) (simp add: hex_digits_def)
  then show "c \<notin> set hex_digits \<Longrightarrow> c \<notin> set (hex_show n)" by (auto simp: hex_show_def)
qed

lemma inet6_text_chars:
  assumes "inet6_text p t" "length p = 16" "c \<notin> set hex_digits" "c \<noteq> ch CHR '':''" "c \<noteq> ch CHR ''.''" "\<not> is_digit c"
  shows "c \<notin> set t"
proof -
  have w: "c \<notin> set (show_words q)" for q
    by (induction q rule: show_words.induct) (simp_all add: hex_digits_set [OF assms(3)] bytes_def assms(4))
  have h: "c \<notin> set (show_heads q)" for q
    by (induction q rule: show_heads.induct) (simp_all add: hex_digits_set [OF assms(3)] bytes_def assms(4))
  have v: "c \<notin> set (v4_show q)" if "length q = 4" for q
    using that not_dec [OF assms(6)] assms(5) by (auto simp: numeral_eq_Suc length_Suc_conv v4_show_simps bytes_def)
  show ?thesis using assms(1,2) w h v hex_digits_set [OF assms(3)] assms(4)
    by (induction rule: inet6_text.induct) (auto simp: bytes_def split: if_splits)
qed

lemma inet6_url_read:
  assumes t: "t = bytes ''['' @ x @ bytes '']:'' @ dec_show (unat pt)" and x: "inet6_text b x" "length b = 16" "drop 12 b \<noteq> replicate 4 255" "pt \<noteq> 0"
    and u: "u_url u = \<lparr>str_len = length t, str_data = t @ [0]\<rparr>" and al: "\<forall>k. alloc k \<noteq> None" "alloc_ok alloc (length t)"
  shows "\<exists>v ad. ngx_parse_url alloc getaddrinfo u = Some (NGX_OK, v) \<and> u_sockaddr v = Sin6 b (htons pt) \<and> u_naddrs v = 1 \<and> u_addrs v = [ad] \<and>
    na_sockaddr ad = Some (Sin6 b (htons pt)) \<and> na_name ad = \<lparr>str_len = length t, str_data = t\<rparr>"
proof -
  let ?m = "t @ [0]" and ?d = "dec_show (unat pt)" and ?p = "1 + length x"
  let ?u = "u\<lparr>u_socklen := sizeof_sockaddr_in6, u_sockaddr := Sin6 (replicate 16 0) 0\<rparr>"
  have m: "?m = ch CHR ''['' # x @ bytes '']:'' @ ?d @ [0]" using t by (simp add: bytes_def)
  obtain r where r: "ngx_strncasecmp ?m 0 (bytes ''unix:'') 0 5 = Some r" "r \<noteq> 0"
    using not_unix [OF m] by (auto simp: ngx_tolower_def byte_simps)
  have nd: "ch CHR '']'' \<notin> set hex_digits" "ch CHR '']'' \<noteq> ch CHR '':''" "ch CHR '']'' \<noteq> ch CHR ''.''" "\<not> is_digit (ch CHR '']'')"
    "\<not> is_digit (ch CHR ''/'')" "ch CHR ''/'' \<noteq> ch CHR '':''" by (simp_all add: hex_digits_def byte_simps)
  have close: "ngx_strlchr ?m 1 (length t) (ch CHR '']'') = Some (Some ?p)"
    using inet6_text_chars [OF x(1,2) nd(1-4)] t strlchr_first [of ?m "[ch CHR ''['']" x "ch CHR '']''" "bytes '':'' @ ?d @ [0]" "length t"] by (simp add: bytes_def)
  have "drop (?p + 1) t = bytes '':'' @ ?d" using t by (simp add: bytes_def)
  then have none: "ngx_strlchr ?m (?p + 1) (length t) (ch CHR ''/'') = Some None"
    using not_dec [OF nd(5)] nd(6) by (intro strlchr_none) (simp_all add: bytes_def)
  have colon: "rd ?m (?p + 1) = Some (ch CHR '':'')" using t by (simp add: rd_def nth_append bytes_def)
  let ?w = "(set_sin_port pt ?u)\<lparr>u_port_text := str_at ?m (?p + 2) (length t - (?p + 2))\<rparr>"
  have port: "url_port ?m (?p + 2) (length t) ?u = Some (Inr ?w)"
    using url_port_read [of ?m "bytes ''['' @ x @ bytes '']:''" pt "length t" ?u] t x(4) by simp
  have "inet6_url_port ?m (?p + 1) (length t) ?u = Some (Inr ?w)" using none colon port by (simp add: inet6_url_port_def url_uri_def)
  then have parse: "ngx_parse_url alloc getaddrinfo u = inet6_url_host alloc ?m (length x) ?w"
    using r close u m t by (simp add: ngx_parse_url_def ngx_parse_inet6_url_def Let_def)
  have "reads ?m 1 x" using t reads_self [of ?m] by simp
  from inet6_text_read [OF x(1,2) _ this, of "replicate 16 0"] have addr: "ngx_inet6_addr ?m 1 (length x) (replicate 16 0) = Some (NGX_OK, Some b)" using x(3) by simp
  let ?x = "?w\<lparr>u_host := str_at ?m 0 (length x + 2), u_sockaddr := Sin6 b (htons pt), u_family := Fam_inet6\<rparr>"
  let ?y = "if b = replicate 16 0 then ?x\<lparr>u_wildcard := True\<rparr> else ?x"
  have "x \<noteq> []" using addr by (auto simp: ngx_inet6_addr_def)
  then have host: "inet6_url_host alloc ?m (length x) ?w = url_addr alloc sizeof_sockaddr_in6 ?y"
    using addr by (simp add: inet6_url_host_def Let_def set_sin_port_def)
  have "str_len (u_host ?y) \<le> length t" using t by (simp add: str_at_def)
  then have "alloc_ok alloc (str_len (u_host ?y))" using alloc_ok_less [OF al(2)] by blast
  moreover have "take (str_len (u_host ?y)) (str_data (u_host ?y)) @ bytes '':'' @ dec_show (unat (u_port ?y)) = t" "u_sockaddr ?y = Sin6 b (htons pt)"
    using t by (simp_all add: str_at_def set_sin_port_def bytes_def)
  ultimately show ?thesis unfolding parse host using url_addr_ok [OF al(1), of ?y sizeof_sockaddr_in6] by metis
qed

text \<open>
  C22: \<open>ngx_parse_url\<close> reads what \<open>ngx_sock_ntop\<close> prints: for an IPv4 or IPv6 socket address with a port other than 0, the printed text, ended by a NUL, is
  accepted when memory is available, and gives this socket address, as the only address of the URL, with the text as its
  name. The exception is the IPv4 address 255.255.255.255 (also as the end of an IPv6 address).
\<close>
theorem ngx_parse_url_sock_ntop:
  assumes "sa = Sin a pt \<and> a \<noteq> INADDR_NONE \<or> sa = Sin6 b pt \<and> length b = 16 \<and> drop 12 b \<noteq> replicate 4 255" "pt \<noteq> 0"
    "ngx_sock_ntop sa txt len True = Some (n, t)" "53 \<le> len" "txt + 201 < 2 ^ 64"
    "u_url u = \<lparr>str_len = n, str_data = t @ [0]\<rparr>" "\<forall>k. alloc k \<noteq> None" "alloc_ok alloc n"
  shows "\<exists>v ad. ngx_parse_url alloc getaddrinfo u = Some (NGX_OK, v) \<and> u_sockaddr v = sa \<and> u_naddrs v = 1 \<and> u_addrs v = [ad] \<and>
    na_sockaddr ad = Some sa \<and> na_name ad = \<lparr>str_len = n, str_data = t\<rparr>"
proof -
  have pt: "htons pt \<noteq> 0" using assms(2) htons_htons [of pt] by (metis htons_htons ntohs_def push_bit_of_0 drop_bit_of_0 or.right_neutral)
  show ?thesis using assms(1)
  proof
    assume sa: "sa = Sin a pt \<and> a \<noteq> INADDR_NONE"
    then have t: "n = length t" "t = v4_show (in_addr_bytes a) @ bytes '':'' @ dec_show (unat (htons pt))" using sock_ntop_sin [of len a pt "txt"] assms(3,4) by auto
    show ?thesis using inet_url_read [OF t(2) _ pt, of u alloc getaddrinfo] sa assms(6-8) t(1) by (simp add: htons_htons)
  next
    assume sa: "sa = Sin6 b pt \<and> length b = 16 \<and> drop 12 b \<noteq> replicate 4 255"
    then obtain x where t: "n = length t" "inet6_text b x" "t = bytes ''['' @ x @ bytes '']:'' @ dec_show (unat (htons pt))"
      using sock_ntop_sin6 [of b len "txt" pt] assms(3-5) by auto
    show ?thesis using inet6_url_read [OF t(3,2) _ _ pt, of u alloc getaddrinfo] sa assms(6-8) t(1) by (simp add: htons_htons)
  qed
qed

theorem ngx_parse_url_sock_ntop_witness:
  "\<exists>n t. ngx_sock_ntop (Sin 0x0100007f 0x901f) 0 53 True = Some (n, t) \<and>
    (\<exists>v ad. ngx_parse_url (\<lambda>k. Some 4096) (\<lambda>host. None) ((url_of [])\<lparr>u_url := \<lparr>str_len = n, str_data = t @ [0]\<rparr>\<rparr>) = Some (NGX_OK, v) \<and>
      u_sockaddr v = Sin 0x0100007f 0x901f \<and> u_naddrs v = 1 \<and> u_addrs v = [ad] \<and> na_sockaddr ad = Some (Sin 0x0100007f 0x901f) \<and> na_name ad = \<lparr>str_len = n, str_data = t\<rparr>)"
proof -
  obtain t where t: "ngx_sock_ntop (Sin 0x0100007f 0x901f) 0 53 True = Some (length t, t)" "length t \<le> 21" using sock_ntop_sin [of 53 "0x0100007f" "0x901f" 0] by auto
  moreover have "alloc_ok (\<lambda>k. Some 4096) (length t)" using t(2) by (simp add: alloc_ok_def)
  ultimately show ?thesis
    using ngx_parse_url_sock_ntop [of "Sin 0x0100007f 0x901f" "0x0100007f" "0x901f" "replicate 16 0" 0 53 "length t" t
      "(url_of [])\<lparr>u_url := \<lparr>str_len = length t, str_data = t @ [0]\<rparr>\<rparr>" "\<lambda>k. Some 4096" "\<lambda>host. None"] by simp
qed

text \<open>The test \<open>last - p\<close> never fails: without a byte behind the bracket, the byte behind the text is read.\<close>

lemma ngx_parse_inet6_url_overread:
  assumes "u_url u = \<lparr>str_len = length x + 2, str_data = ch CHR ''['' # x @ [ch CHR '']'']\<rparr>" "ch CHR '']'' \<notin> set x"
  shows "ngx_parse_inet6_url alloc u = None"
proof -
  let ?m = "ch CHR ''['' # x @ [ch CHR '']'']"
  have "ngx_strlchr ?m 1 (length x + 2) (ch CHR '']'') = Some (Some (1 + length x))"
    using strlchr_first [of ?m "[ch CHR ''['']" x "ch CHR '']''" "[]" "length x + 2"] assms(2) by simp
  moreover have "inet6_url_port ?m (length x + 2) (length x + 2) v = None" for v
    using strlchr_none [of "ch CHR ''/''" "length x + 2" "length x + 2" ?m] by (simp add: inet6_url_port_def url_uri_def rd_def)
  ultimately show ?thesis using assms(1) by (simp add: ngx_parse_inet6_url_def)
qed

end
