(* ===== verification/Ngx_Palloc.thy ===== *)
theory Ngx_Palloc
  imports Ngx_Prelude
begin

text \<open>
  Memory pools, src/core/ngx_palloc.c and .h, with the calls of the allocator in src/os/unix/ngx_alloc.c. Memory is the list of the
  regions that the system has handed out, as an address and a length, and the bytes at all addresses. The system allocator is a
  parameter, a function of the regions in use, the alignment and the size. The blocks of a pool are in the order of
  their \<open>d.next\<close>, the first is the pool itself, and \<open>current\<close> is a position in them.
\<close>

section \<open>The code\<close>

type_synonym region = "addr \<times> nat"

type_synonym system = "region list \<Rightarrow> nat \<Rightarrow> nat \<Rightarrow> addr option"

record memory =
  live :: "region list"
  content :: "addr \<Rightarrow> byte"

record ngx_pool_data_t =
  pd_addr :: addr
  pd_last :: addr
  pd_end :: addr
  pd_failed :: u64

record ngx_pool_large_t =
  lg_addr :: addr
  lg_alloc :: "addr option"

record ngx_pool_cleanup_t =
  cl_addr :: addr
  cl_handler :: "nat option"
  cl_data :: "addr option"

record ngx_pool_t =
  p_blocks :: "ngx_pool_data_t list"
  p_max :: nat
  p_current :: nat
  p_large :: "ngx_pool_large_t list"
  p_cleanup :: "ngx_pool_cleanup_t list"

type_synonym pool_state = "ngx_pool_t \<times> memory"

abbreviation (input) sizeof_pool :: nat where "sizeof_pool \<equiv> 80"

abbreviation (input) sizeof_pool_data :: nat where "sizeof_pool_data \<equiv> 32"

abbreviation (input) sizeof_pool_large :: nat where "sizeof_pool_large \<equiv> 16"

abbreviation (input) sizeof_pool_cleanup :: nat where "sizeof_pool_cleanup \<equiv> 24"

abbreviation (input) NGX_MAX_ALLOC_FROM_POOL :: nat where "NGX_MAX_ALLOC_FROM_POOL \<equiv> 4095"

abbreviation (input) NGX_POOL_ALIGNMENT :: nat where "NGX_POOL_ALIGNMENT \<equiv> 16"

abbreviation (input) NGX_MIN_POOL_SIZE :: nat where "NGX_MIN_POOL_SIZE \<equiv> 112"

abbreviation (input) NGX_ALIGNMENT :: nat where "NGX_ALIGNMENT \<equiv> 8"

text \<open>For powers of two, \<open>p & ~(a - 1)\<close> is the multiple of \<open>a\<close> at or below \<open>p\<close>.\<close>

definition ngx_align_ptr :: "addr \<Rightarrow> nat \<Rightarrow> addr" where
  "ngx_align_ptr p a = (p + (a - 1)) - (p + (a - 1)) mod a"

definition ngx_memalign :: "system \<Rightarrow> nat \<Rightarrow> nat \<Rightarrow> memory \<Rightarrow> addr option \<times> memory" where
  "ngx_memalign os alignment sz m =
     (case os (live m) alignment sz of None \<Rightarrow> (None, m) | Some a \<Rightarrow> (Some a, m\<lparr>live := (a, sz) # live m\<rparr>))"

definition ngx_alloc :: "system \<Rightarrow> nat \<Rightarrow> memory \<Rightarrow> addr option \<times> memory" where
  "ngx_alloc os sz m = ngx_memalign os 16 sz m"

text \<open>To free an address that is not that of a region in use is an error of the program.\<close>

definition ngx_free :: "addr \<Rightarrow> memory \<Rightarrow> memory option" where
  "ngx_free a m = (if list_ex (\<lambda>r. fst r = a) (live m) then Some (m\<lparr>live := filter (\<lambda>r. fst r \<noteq> a) (live m)\<rparr>) else None)"

definition ngx_create_pool :: "system \<Rightarrow> nat \<Rightarrow> memory \<Rightarrow> ngx_pool_t option \<times> memory" where
  "ngx_create_pool os sz m =
     (case ngx_memalign os NGX_POOL_ALIGNMENT sz m of
        (None, m) \<Rightarrow> (None, m)
      | (Some p, m) \<Rightarrow>
          (let rest = (sz + 2 ^ 64 - sizeof_pool) mod 2 ^ 64
           in (Some \<lparr>p_blocks = [\<lparr>pd_addr = p, pd_last = p + sizeof_pool, pd_end = p + sz, pd_failed = 0\<rparr>],
                p_max = (if rest < NGX_MAX_ALLOC_FROM_POOL then rest else NGX_MAX_ALLOC_FROM_POOL),
                p_current = 0, p_large = [], p_cleanup = []\<rparr>, m)))"

text \<open>The search in the blocks from \<open>current\<close> on: the address, and the blocks with the new \<open>last\<close>. The difference of pointers is converted to \<open>size_t\<close>.\<close>

primrec pool_scan :: "bool \<Rightarrow> nat \<Rightarrow> ngx_pool_data_t list \<Rightarrow> (addr \<times> ngx_pool_data_t list) option" where
  "pool_scan aligned sz [] = None"
| "pool_scan aligned sz (b # bs) =
     (let m = (if aligned then ngx_align_ptr (pd_last b) NGX_ALIGNMENT else pd_last b)
      in if sz \<le> (pd_end b + 2 ^ 64 - m) mod 2 ^ 64 then Some (m, b\<lparr>pd_last := m + sz\<rparr> # bs)
         else map_option (\<lambda>(m, bs). (m, b # bs)) (pool_scan aligned sz bs))"

text \<open>The loop to the last block; a block that failed too often moves \<open>current\<close> behind it.\<close>

fun bump_failed :: "nat \<Rightarrow> nat \<Rightarrow> ngx_pool_data_t list \<Rightarrow> nat \<times> ngx_pool_data_t list" where
  "bump_failed i current (p # q # bs) =
     (let (current, bs) = bump_failed (i + 1) (if pd_failed p > 4 then i + 1 else current) (q # bs)
      in (current, p\<lparr>pd_failed := pd_failed p + 1\<rparr> # bs))"
| "bump_failed i current bs = (current, bs)"

definition ngx_palloc_block :: "system \<Rightarrow> nat \<Rightarrow> pool_state \<Rightarrow> addr option \<times> pool_state" where
  "ngx_palloc_block os sz st =
     (let (pool, mem) = st in
        let first = hd (p_blocks pool); psize = pd_end first - pd_addr first
        in case ngx_memalign os NGX_POOL_ALIGNMENT psize mem of
             (None, mem) \<Rightarrow> (None, pool, mem)
           | (Some a, mem) \<Rightarrow>
               let m = ngx_align_ptr (a + sizeof_pool_data) NGX_ALIGNMENT;
                   new = \<lparr>pd_addr = a, pd_last = m + sz, pd_end = a + psize, pd_failed = 0\<rparr>;
                   (current, bs) = bump_failed (p_current pool) (p_current pool) (drop (p_current pool) (p_blocks pool))
               in (Some m, pool\<lparr>p_blocks := take (p_current pool) (p_blocks pool) @ bs @ [new], p_current := current\<rparr>, mem))"

definition palloc_small :: "system \<Rightarrow> bool \<Rightarrow> nat \<Rightarrow> pool_state \<Rightarrow> addr option \<times> pool_state" where
  "palloc_small os aligned sz st =
     (let (pool, mem) = st in
        case pool_scan aligned sz (drop (p_current pool) (p_blocks pool)) of
          Some (m, bs) \<Rightarrow> (Some m, pool\<lparr>p_blocks := take (p_current pool) (p_blocks pool) @ bs\<rparr>, mem)
        | None \<Rightarrow> ngx_palloc_block os sz st)"

text \<open>The search for a free entry in the first entries of the list of large allocations.\<close>

primrec large_reuse :: "nat \<Rightarrow> addr \<Rightarrow> ngx_pool_large_t list \<Rightarrow> ngx_pool_large_t list option" where
  "large_reuse n p [] = None"
| "large_reuse n p (l # ls) =
     (if lg_alloc l = None then Some (l\<lparr>lg_alloc := Some p\<rparr> # ls)
      else if n > 3 then None
      else map_option ((#) l) (large_reuse (n + 1) p ls))"

definition large_push :: "addr \<Rightarrow> addr \<Rightarrow> pool_state \<Rightarrow> pool_state" where
  "large_push l p st = (let (pool, mem) = st in (pool\<lparr>p_large := \<lparr>lg_addr = l, lg_alloc = Some p\<rparr> # p_large pool\<rparr>, mem))"

text \<open>
  \<open>ngx_palloc\<close> and \<open>ngx_palloc_large\<close> call each other, for the entry of the list of large allocations; in a pool that is too
  small for an entry each call asks the system for another 16 bytes until the system has none.
\<close>

partial_function (option) palloc_large_with :: "system \<Rightarrow> nat \<Rightarrow> pool_state \<Rightarrow> (addr option \<times> pool_state) option" where
  "palloc_large_with os sz st =
     (case st of (pool, mem) \<Rightarrow>
        (case ngx_alloc os sz mem of
          (None, mem) \<Rightarrow> Some (None, pool, mem)
        | (Some p, mem) \<Rightarrow>
            (case large_reuse 0 p (p_large pool) of
               Some ls \<Rightarrow> Some (Some p, pool\<lparr>p_large := ls\<rparr>, mem)
             | None \<Rightarrow>
                 Option.bind (if sizeof_pool_large \<le> p_max pool then Some (palloc_small os True sizeof_pool_large (pool, mem))
                              else palloc_large_with os sizeof_pool_large (pool, mem))
                   (\<lambda>(l, st). case l of
                      None \<Rightarrow> map_option (\<lambda>m. (None, fst st, m)) (ngx_free p (snd st))
                    | Some l \<Rightarrow> Some (Some p, large_push l p st)))))"

definition ngx_palloc_large :: "system \<Rightarrow> nat \<Rightarrow> pool_state \<Rightarrow> (addr option \<times> pool_state) option" where
  "ngx_palloc_large = palloc_large_with"

definition ngx_palloc :: "system \<Rightarrow> nat \<Rightarrow> pool_state \<Rightarrow> (addr option \<times> pool_state) option" where
  "ngx_palloc os sz st = (if sz \<le> p_max (fst st) then Some (palloc_small os True sz st) else ngx_palloc_large os sz st)"

definition ngx_pnalloc :: "system \<Rightarrow> nat \<Rightarrow> pool_state \<Rightarrow> (addr option \<times> pool_state) option" where
  "ngx_pnalloc os sz st = (if sz \<le> p_max (fst st) then Some (palloc_small os False sz st) else ngx_palloc_large os sz st)"

definition mem_zero :: "addr \<Rightarrow> nat \<Rightarrow> memory \<Rightarrow> memory" where
  "mem_zero a n m = m\<lparr>content := (\<lambda>x. if a \<le> x \<and> x < a + n then 0 else content m x)\<rparr>"

definition ngx_pcalloc :: "system \<Rightarrow> nat \<Rightarrow> pool_state \<Rightarrow> (addr option \<times> pool_state) option" where
  "ngx_pcalloc os sz st = do {
     (p, pool, mem) \<leftarrow> ngx_palloc os sz st;
     Some (p, pool, case p of None \<Rightarrow> mem | Some a \<Rightarrow> mem_zero a sz mem)
   }"

definition ngx_pmemalign :: "system \<Rightarrow> nat \<Rightarrow> nat \<Rightarrow> pool_state \<Rightarrow> (addr option \<times> pool_state) option" where
  "ngx_pmemalign os sz alignment st =
     (let (pool, mem) = st in
        case ngx_memalign os alignment sz mem of
          (None, mem) \<Rightarrow> Some (None, pool, mem)
        | (Some p, mem) \<Rightarrow> do {
            (l, st) \<leftarrow> ngx_palloc os sizeof_pool_large (pool, mem);
            (case l of
               None \<Rightarrow> map_option (\<lambda>m. (None, fst st, m)) (ngx_free p (snd st))
             | Some l \<Rightarrow> Some (Some p, large_push l p st))
          })"

primrec large_free :: "addr option \<Rightarrow> ngx_pool_large_t list \<Rightarrow> ngx_pool_large_t list option" where
  "large_free p [] = None"
| "large_free p (l # ls) = (if lg_alloc l = p then Some (l\<lparr>lg_alloc := None\<rparr> # ls) else map_option ((#) l) (large_free p ls))"

text \<open>The argument may be NULL, which is the address of an entry whose memory was given back.\<close>

definition ngx_pfree :: "addr option \<Rightarrow> pool_state \<Rightarrow> (ngx_int_t \<times> pool_state) option" where
  "ngx_pfree p st =
     (let (pool, mem) = st in
        case large_free p (p_large pool) of
          Some ls \<Rightarrow> do {
            mem \<leftarrow> (case p of None \<Rightarrow> Some mem | Some a \<Rightarrow> ngx_free a mem);
            Some (NGX_OK, pool\<lparr>p_large := ls\<rparr>, mem)
          }
        | None \<Rightarrow> Some (NGX_DECLINED, st))"

definition ngx_pool_cleanup_add :: "system \<Rightarrow> nat \<Rightarrow> pool_state \<Rightarrow> (addr option \<times> pool_state) option" where
  "ngx_pool_cleanup_add os sz st = do {
     (c, st) \<leftarrow> ngx_palloc os sizeof_pool_cleanup st;
     (case c of
        None \<Rightarrow> Some (None, st)
      | Some c \<Rightarrow> do {
          (data, st) \<leftarrow> (if sz \<noteq> 0 then ngx_palloc os sz st else Some (None, st));
          (if sz \<noteq> 0 \<and> data = None then Some (None, st)
           else let (pool, mem) = st
                in Some (Some c, pool\<lparr>p_cleanup := \<lparr>cl_addr = c, cl_handler = None, cl_data = data\<rparr> # p_cleanup pool\<rparr>, mem))
        })
   }"

fun free_large :: "ngx_pool_large_t list \<Rightarrow> memory \<Rightarrow> memory option" where
  "free_large [] mem = Some mem"
| "free_large (l # ls) mem = (case lg_alloc l of None \<Rightarrow> free_large ls mem | Some a \<Rightarrow> do { mem \<leftarrow> ngx_free a mem; free_large ls mem })"

fun free_blocks :: "ngx_pool_data_t list \<Rightarrow> memory \<Rightarrow> memory option" where
  "free_blocks [] mem = Some mem"
| "free_blocks (b # bs) mem = do { mem \<leftarrow> ngx_free (pd_addr b) mem; free_blocks bs mem }"

text \<open>The result has the handlers that were called, with their data.\<close>

definition ngx_destroy_pool :: "pool_state \<Rightarrow> ((nat \<times> addr option) list \<times> memory) option" where
  "ngx_destroy_pool st =
     (let (pool, mem) = st; calls = List.map_filter (\<lambda>c. map_option (\<lambda>h. (h, cl_data c)) (cl_handler c)) (p_cleanup pool) in do {
        mem \<leftarrow> free_large (p_large pool) mem;
        mem \<leftarrow> free_blocks (p_blocks pool) mem;
        Some (calls, mem)
      })"

text \<open>The cleanups and \<open>current\<close> are left as they are, although the records of the cleanups lie in memory that is handed out again.\<close>

definition ngx_reset_pool :: "pool_state \<Rightarrow> pool_state option" where
  "ngx_reset_pool st =
     (let (pool, mem) = st in do {
        mem \<leftarrow> free_large (p_large pool) mem;
        Some (pool\<lparr>p_large := [], p_blocks := map (\<lambda>b. b\<lparr>pd_last := pd_addr b + sizeof_pool\<rparr>) (p_blocks pool)\<rparr>, mem)
      })"

section \<open>Regions\<close>

definition disj :: "region \<Rightarrow> region \<Rightarrow> bool" where
  "disj r s \<longleftrightarrow> fst r + snd r \<le> fst s \<or> fst s + snd s \<le> fst r"

definition inside :: "region \<Rightarrow> region \<Rightarrow> bool" where
  "inside r s \<longleftrightarrow> fst s \<le> fst r \<and> fst r + snd r \<le> fst s + snd s"

lemma disj_sym: "disj r s \<Longrightarrow> disj s r"
  by (auto simp: disj_def)

lemma disj_inside: "disj q q' \<Longrightarrow> inside r q \<Longrightarrow> inside r' q' \<Longrightarrow> disj r r'"
  by (auto simp: disj_def inside_def)

lemma sorted_disj: "sorted_wrt disj rs \<Longrightarrow> r \<in> set rs \<Longrightarrow> s \<in> set rs \<Longrightarrow> r \<noteq> s \<Longrightarrow> disj r s"
  by (induction rs) (auto dest: disj_sym)

lemma sorted_disj_snoc: "sorted_wrt disj (xs @ [r] @ ys) \<longleftrightarrow> sorted_wrt disj (xs @ ys) \<and> (\<forall>s \<in> set (xs @ ys). disj r s)"
  by (auto simp: sorted_wrt_append dest: disj_sym)

text \<open>What the system promises: a region that is aligned, inside of the address space and apart from the regions in use.\<close>

definition system_ok :: "system \<Rightarrow> bool" where
  "system_ok os \<longleftrightarrow> (\<forall>rs al n a. os rs al n = Some a \<longrightarrow> al dvd a \<and> a + n < 2 ^ 64 \<and> (\<forall>r \<in> set rs. disj (a, n) r \<and> fst r \<noteq> a))"

section \<open>The invariant\<close>

definition large_allocs :: "ngx_pool_t \<Rightarrow> addr list" where
  "large_allocs pool = List.map_filter lg_alloc (p_large pool)"

definition owned :: "ngx_pool_t \<Rightarrow> addr list" where
  "owned pool = map pd_addr (p_blocks pool) @ large_allocs pool"

text \<open>The headers of the blocks and the entries of the list of large allocations are in the blocks too.\<close>

definition headers :: "ngx_pool_t \<Rightarrow> region list" where
  "headers pool = (case map pd_addr (p_blocks pool) of [] \<Rightarrow> [] | a # as \<Rightarrow> (a, sizeof_pool) # map (\<lambda>a. (a, sizeof_pool_data)) as)"

definition entries :: "ngx_pool_t \<Rightarrow> region list" where
  "entries pool = map (\<lambda>l. (lg_addr l, sizeof_pool_large)) (p_large pool)"

definition in_blocks :: "ngx_pool_t \<Rightarrow> region \<Rightarrow> bool" where
  "in_blocks pool r \<longleftrightarrow> (\<exists>b \<in> set (p_blocks pool). pd_addr b \<le> fst r \<and> fst r + snd r \<le> pd_last b)"

definition placed :: "ngx_pool_t \<Rightarrow> memory \<Rightarrow> region \<Rightarrow> bool" where
  "placed pool mem r \<longleftrightarrow> in_blocks pool r \<or> fst r \<in> set (large_allocs pool) \<and> r \<in> set (live mem)"

definition block_ok :: "nat \<Rightarrow> ngx_pool_data_t \<Rightarrow> bool" where
  "block_ok psize b \<longleftrightarrow> pd_end b = pd_addr b + psize \<and> 16 dvd pd_addr b \<and> pd_addr b + sizeof_pool_data \<le> pd_last b \<and> pd_last b \<le> pd_end b \<and> pd_end b < 2 ^ 64"

definition pool_wf :: "nat \<Rightarrow> ngx_pool_t \<Rightarrow> bool" where
  "pool_wf psize pool \<longleftrightarrow> p_blocks pool \<noteq> [] \<and> p_current pool < length (p_blocks pool) \<and> 16 dvd psize \<and> p_max pool + sizeof_pool \<le> psize \<and>
     sizeof_pool_cleanup \<le> p_max pool \<and> list_all (block_ok psize) (p_blocks pool) \<and> pd_addr (hd (p_blocks pool)) + sizeof_pool \<le> pd_last (hd (p_blocks pool))"

definition mem_wf :: "region set \<Rightarrow> nat \<Rightarrow> ngx_pool_t \<Rightarrow> memory \<Rightarrow> bool" where
  "mem_wf rest psize pool mem \<longleftrightarrow> sorted_wrt disj (live mem) \<and> distinct (map fst (live mem)) \<and> distinct (owned pool) \<and>
     (\<forall>a \<in> set (map pd_addr (p_blocks pool)). (a, psize) \<in> set (live mem)) \<and> set (large_allocs pool) \<subseteq> fst ` set (live mem) \<and>
     {r \<in> set (live mem). fst r \<notin> set (owned pool)} = rest"

definition pool_inv :: "region set \<Rightarrow> nat \<Rightarrow> region list \<Rightarrow> pool_state \<Rightarrow> bool" where
  "pool_inv rest psize objs st \<longleftrightarrow> (case st of (pool, mem) \<Rightarrow>
     pool_wf psize pool \<and> mem_wf rest psize pool mem \<and> list_all (in_blocks pool) (entries pool) \<and> list_all (placed pool mem) objs \<and>
     sorted_wrt disj (headers pool @ entries pool @ objs))"

definition used :: "ngx_pool_t \<Rightarrow> region list \<Rightarrow> region list" where
  "used pool objs = headers pool @ entries pool @ objs"

lemma headers_in_blocks: "pool_wf psize pool \<Longrightarrow> r \<in> set (headers pool) \<Longrightarrow> in_blocks pool r"
  by (cases "p_blocks pool") (auto simp: pool_wf_def headers_def in_blocks_def block_ok_def list_all_iff)

lemma used_placed:
  assumes "pool_inv rest psize objs (pool, mem)" "r \<in> set (used pool objs)"
  shows "placed pool mem r"
  using assms headers_in_blocks [of psize pool r] by (auto simp: pool_inv_def used_def placed_def list_all_iff)

text \<open>A region in a block or of a large allocation lies in a region of the system that belongs to the pool.\<close>

lemma placed_owned:
  assumes "pool_wf psize pool" "mem_wf rest psize pool mem" "placed pool mem r"
  shows "\<exists>q \<in> set (live mem). fst q \<in> set (owned pool) \<and> inside r q"
proof (cases "in_blocks pool r")
  case True
  then obtain b where b: "b \<in> set (p_blocks pool)" "pd_addr b \<le> fst r" "fst r + snd r \<le> pd_last b" by (auto simp: in_blocks_def)
  then have "block_ok psize b" "(pd_addr b, psize) \<in> set (live mem)" using assms(1,2) by (auto simp: pool_wf_def mem_wf_def list_all_iff)
  then show ?thesis using b by (intro bexI [of _ "(pd_addr b, psize)"]) (auto simp: inside_def block_ok_def owned_def)
next
  case False
  then show ?thesis using assms(3) by (intro bexI [of _ r]) (auto simp: placed_def owned_def inside_def)
qed

text \<open>The free end of a block is apart from all regions that are used.\<close>

lemma block_end_disj:
  assumes "pool_inv rest psize objs (pool, mem)" "b \<in> set (p_blocks pool)" "pd_last b \<le> a" "a + n \<le> pd_end b" "r \<in> set (used pool objs)"
  shows "disj (a, n) r"
proof -
  have wf: "pool_wf psize pool" "mem_wf rest psize pool mem" using assms(1) by (auto simp: pool_inv_def)
  have b: "block_ok psize b" "(pd_addr b, psize) \<in> set (live mem)" using wf assms(2) by (auto simp: pool_wf_def mem_wf_def list_all_iff)
  have new: "inside (a, n) (pd_addr b, psize)" using b(1) assms(3,4) by (simp add: inside_def block_ok_def)
  consider b' where "b' \<in> set (p_blocks pool)" "pd_addr b' \<le> fst r" "fst r + snd r \<le> pd_last b'" | "fst r \<in> set (large_allocs pool)" "r \<in> set (live mem)"
    using used_placed [OF assms(1,5)] by (auto simp: placed_def in_blocks_def)
  then show ?thesis
  proof cases
    case 1
    have b': "block_ok psize b'" "(pd_addr b', psize) \<in> set (live mem)" using wf 1(1) by (auto simp: pool_wf_def mem_wf_def list_all_iff)
    show ?thesis
    proof (cases "pd_addr b' = pd_addr b")
      case True
      have "distinct (map pd_addr (p_blocks pool))" using wf(2) by (simp add: mem_wf_def owned_def)
      then have "b' = b" using True 1(1) assms(2) by (auto simp: distinct_map dest: inj_onD)
      then show ?thesis using 1(3) assms(3) by (simp add: disj_def)
    next
      case False
      then have "disj (pd_addr b, psize) (pd_addr b', psize)" using wf(2) b(2) b'(2) by (intro sorted_disj) (auto simp: mem_wf_def)
      moreover have "inside r (pd_addr b', psize)" using 1 b'(1) by (auto simp: inside_def block_ok_def)
      ultimately show ?thesis using disj_inside new by blast
    qed
  next
    case 2
    then have "fst r \<noteq> pd_addr b" using wf(2) assms(2) by (auto simp: mem_wf_def owned_def)
    then have "disj (pd_addr b, psize) r" using wf(2) b(2) 2(2) by (intro sorted_disj [of "live mem"]) (auto simp: mem_wf_def)
    then show ?thesis using disj_inside new by (fastforce simp: inside_def)
  qed
qed

section \<open>Small allocations\<close>

lemma align_8: "p \<le> ngx_align_ptr p 8" "8 dvd ngx_align_ptr p 8" "8 dvd e \<Longrightarrow> p \<le> e \<Longrightarrow> ngx_align_ptr p 8 \<le> e"
proof -
  have a: "ngx_align_ptr p 8 = 8 * ((p + 7) div 8)" by (simp add: ngx_align_ptr_def minus_mod_eq_mult_div)
  show "8 dvd ngx_align_ptr p 8" unfolding a by simp
  show "p \<le> ngx_align_ptr p 8" unfolding a by linarith
  show "ngx_align_ptr p 8 \<le> e" if e: "8 dvd e" "p \<le> e"
  proof -
    obtain k where "e = 8 * k" using e(1) by (auto simp: dvd_def)
    then have "(p + 7) div 8 \<le> (8 * k + 7) div 8" using e(2) by (intro div_le_mono) simp
    then show ?thesis unfolding a using \<open>e = 8 * k\<close> by simp
  qed
qed

lemma block_ok_end: "block_ok psize b \<Longrightarrow> 16 dvd psize \<Longrightarrow> 8 dvd pd_end b"
  by (auto simp: block_ok_def) presburger

text \<open>Blocks whose \<open>last\<close> moves on.\<close>

definition grows :: "ngx_pool_data_t list \<Rightarrow> ngx_pool_data_t list \<Rightarrow> bool" where
  "grows = list_all2 (\<lambda>b b'. pd_addr b' = pd_addr b \<and> pd_end b' = pd_end b \<and> pd_last b \<le> pd_last b' \<and> pd_last b' \<le> max (pd_last b) (pd_end b))"

lemma grows_refl: "grows bs bs"
  by (simp add: grows_def list_all2_refl)

lemma grows_append: "grows as as' \<Longrightarrow> grows bs bs' \<Longrightarrow> grows (as @ bs) (as' @ bs')"
  unfolding grows_def by (rule list_all2_appendI)

lemma pool_scan_Some:
  assumes "pool_scan al sz bs = Some (m, bs')" "list_all (block_ok psize) bs" "16 dvd psize"
  shows "\<exists>xs b ys. bs = xs @ b # ys \<and> bs' = xs @ b\<lparr>pd_last := m + sz\<rparr> # ys \<and> pd_last b \<le> m \<and> m + sz \<le> pd_end b \<and> (al \<longrightarrow> 8 dvd m)"
  using assms
proof (induction bs arbitrary: bs')
  case (Cons b bs)
  define m' where m': "m' = (if al then ngx_align_ptr (pd_last b) 8 else pd_last b)"
  have b: "pd_last b \<le> pd_end b" "8 dvd pd_end b" "pd_end b < 2 ^ 64" using Cons.prems(2,3) block_ok_end by (auto simp: block_ok_def)
  have m: "pd_last b \<le> m'" "m' \<le> pd_end b" "al \<longrightarrow> 8 dvd m'" using align_8 b(1,2) by (auto simp: m')
  have "(pd_end b + 2 ^ 64 - m') mod 2 ^ 64 = (pd_end b - m' + 2 ^ 64) mod 2 ^ 64" using m(2) by simp
  also have "\<dots> = pd_end b - m'" using b(3) by (simp only: mod_add_self2) simp
  finally have room: "(pd_end b + 2 ^ 64 - m') mod 2 ^ 64 = pd_end b - m'" .
  show ?case
  proof (cases "sz \<le> pd_end b - m'")
    case True
    then have "m = m'" "bs' = b\<lparr>pd_last := m' + sz\<rparr> # bs" using Cons.prems(1) room by (auto simp: Let_def m' [symmetric])
    then show ?thesis using m True by (intro exI [of _ "[]"]) auto
  next
    case False
    then obtain bs1 where bs1: "pool_scan al sz bs = Some (m, bs1)" "bs' = b # bs1" using Cons.prems(1) room by (auto simp: Let_def m' [symmetric])
    obtain xs c ys where "bs = xs @ c # ys" "bs1 = xs @ c\<lparr>pd_last := m + sz\<rparr> # ys" "pd_last c \<le> m" "m + sz \<le> pd_end c" "al \<longrightarrow> 8 dvd m"
      using Cons.IH [OF bs1(1)] Cons.prems(2,3) by auto
    then show ?thesis using bs1(2) by (intro exI [of _ "b # xs"]) auto
  qed
qed simp

lemma grows_facts:
  assumes "grows bs bs'"
  shows "map pd_addr bs' = map pd_addr bs" "length bs' = length bs" "bs' = [] \<longleftrightarrow> bs = []"
    "b \<in> set bs \<Longrightarrow> \<exists>b' \<in> set bs'. pd_addr b' = pd_addr b \<and> pd_last b \<le> pd_last b'"
    "list_all (block_ok psize) bs \<Longrightarrow> list_all (block_ok psize) bs'"
    "bs \<noteq> [] \<Longrightarrow> pd_last (hd bs) \<le> pd_last (hd bs') \<and> pd_addr (hd bs') = pd_addr (hd bs)"
  using assms unfolding grows_def
  by (induction bs bs' rule: list_all2_induct) (auto simp: block_ok_def)

lemma grows_same:
  assumes "grows (p_blocks pool) bs'"
  shows "headers (pool\<lparr>p_blocks := bs', p_current := c\<rparr>) = headers pool" "owned (pool\<lparr>p_blocks := bs', p_current := c\<rparr>) = owned pool"
    "entries (pool\<lparr>p_blocks := bs', p_current := c\<rparr>) = entries pool" "in_blocks pool r \<Longrightarrow> in_blocks (pool\<lparr>p_blocks := bs', p_current := c\<rparr>) r"
    "large_allocs (pool\<lparr>p_blocks := bs', p_current := c\<rparr>) = large_allocs pool"
proof -
  have m: "map pd_addr bs' = map pd_addr (p_blocks pool)" by (rule grows_facts(1) [OF assms])
  then show "headers (pool\<lparr>p_blocks := bs', p_current := c\<rparr>) = headers pool" by (simp add: headers_def)
  show "owned (pool\<lparr>p_blocks := bs', p_current := c\<rparr>) = owned pool" using m by (simp add: owned_def large_allocs_def)
  show "entries (pool\<lparr>p_blocks := bs', p_current := c\<rparr>) = entries pool" "large_allocs (pool\<lparr>p_blocks := bs', p_current := c\<rparr>) = large_allocs pool"
    by (simp_all add: entries_def large_allocs_def)
  show "in_blocks pool r \<Longrightarrow> in_blocks (pool\<lparr>p_blocks := bs', p_current := c\<rparr>) r" unfolding in_blocks_def using grows_facts(4) [OF assms] by simp (metis le_trans)
qed

lemma grows_inv:
  assumes "pool_inv rest psize objs (pool, mem)" "grows (p_blocks pool) bs'" "c < length bs'"
  shows "pool_inv rest psize objs (pool\<lparr>p_blocks := bs', p_current := c\<rparr>, mem)"
proof -
  have wf: "pool_wf psize pool" "mem_wf rest psize pool mem" using assms(1) by (auto simp: pool_inv_def)
  have "pool_wf psize (pool\<lparr>p_blocks := bs', p_current := c\<rparr>)"
    using wf(1) grows_facts(2,3,5,6) [OF assms(2)] assms(3) by (auto simp: pool_wf_def)
  moreover have "mem_wf rest psize (pool\<lparr>p_blocks := bs', p_current := c\<rparr>) mem"
    using wf(2) grows_facts(1) [OF assms(2)] unfolding mem_wf_def grows_same [OF assms(2)] by simp
  ultimately show ?thesis using assms(1) grows_same [OF assms(2), where c = c] by (auto simp: pool_inv_def list_all_iff placed_def)
qed

lemma owned_live:
  assumes "mem_wf rest psize pool mem"
  shows "set (owned pool) \<subseteq> fst ` set (live mem)"
proof
  fix a assume "a \<in> set (owned pool)"
  then consider "a \<in> set (map pd_addr (p_blocks pool))" | "a \<in> set (large_allocs pool)" by (auto simp: owned_def)
  then show "a \<in> fst ` set (live mem)"
  proof cases
    case 1
    then have "(a, psize) \<in> set (live mem)" using assms unfolding mem_wf_def by blast
    then show ?thesis by (rule rev_image_eqI) simp
  qed (use assms in \<open>auto simp: mem_wf_def\<close>)
qed

lemma new_block_inv:
  assumes inv: "pool_inv rest psize objs (pool, mem)" and os: "system_ok os" "os (live mem) 16 psize = Some a"
    and nb: "block_ok psize nb" "pd_addr nb = a"
  shows "pool_inv rest psize objs (pool\<lparr>p_blocks := p_blocks pool @ [nb]\<rparr>, mem\<lparr>live := (a, psize) # live mem\<rparr>)"
proof -
  let ?pool = "pool\<lparr>p_blocks := p_blocks pool @ [nb]\<rparr>" and ?mem = "mem\<lparr>live := (a, psize) # live mem\<rparr>"
  have wf: "pool_wf psize pool" "mem_wf rest psize pool mem" using inv by (auto simp: pool_inv_def)
  have fresh: "\<forall>r \<in> set (live mem). disj (a, psize) r \<and> fst r \<noteq> a" using os by (auto simp: system_ok_def)
  have own: "owned ?pool = map pd_addr (p_blocks pool) @ [a] @ large_allocs pool" "large_allocs ?pool = large_allocs pool"
    using nb(2) by (simp_all add: owned_def large_allocs_def)
  have a: "a \<notin> set (owned pool)" using owned_live [OF wf(2)] fresh by auto
  have "pool_wf psize ?pool" using wf(1) nb(1) by (auto simp: pool_wf_def)
  moreover have "mem_wf rest psize ?pool ?mem"
    using wf(2) fresh a nb(2) unfolding mem_wf_def own by (auto simp: owned_def)
  moreover have mono: "in_blocks pool r \<Longrightarrow> in_blocks ?pool r" for r by (auto simp: in_blocks_def)
  then have "list_all (in_blocks ?pool) (entries ?pool)" "list_all (placed ?pool ?mem) objs"
    using inv by (auto simp: pool_inv_def entries_def list_all_iff placed_def own)
  moreover have "sorted_wrt disj (headers ?pool @ entries ?pool @ objs)"
  proof -
    have h: "headers ?pool = headers pool @ [(a, sizeof_pool_data)]" using wf(1) nb(2) by (cases "p_blocks pool") (auto simp: headers_def pool_wf_def)
    have "disj (a, sizeof_pool_data) r" if r: "r \<in> set (used pool objs)" for r
    proof -
      obtain q where "q \<in> set (live mem)" "inside r q" using placed_owned [OF wf used_placed [OF inv r]] by blast
      moreover have "inside (a, sizeof_pool_data) (a, psize)" using nb by (auto simp: inside_def block_ok_def)
      ultimately show ?thesis using fresh disj_inside by blast
    qed
    moreover have "sorted_wrt disj (headers pool @ entries pool @ objs)" using inv by (simp add: pool_inv_def)
    ultimately show ?thesis using sorted_disj_snoc [of "headers pool" "(a, sizeof_pool_data)" "entries pool @ objs"]
      unfolding h by (simp add: entries_def used_def)
  qed
  ultimately show ?thesis by (simp add: pool_inv_def)
qed

text \<open>What allocations leave as it is: the cleanups, and what lies in the blocks.\<close>

definition frame :: "ngx_pool_t \<Rightarrow> ngx_pool_t \<Rightarrow> bool" where
  "frame pool pool' \<longleftrightarrow> p_cleanup pool' = p_cleanup pool \<and> (\<forall>r. in_blocks pool r \<longrightarrow> in_blocks pool' r)"

lemma frame_refl [simp]: "frame pool pool"
  by (simp add: frame_def)

lemma frame_large [simp]: "frame pool (pool'\<lparr>p_large := ls\<rparr>) \<longleftrightarrow> frame pool pool'"
  by (simp add: frame_def in_blocks_def)

lemma frame_trans: "frame p q \<Longrightarrow> frame q r \<Longrightarrow> frame p r"
  by (simp add: frame_def)

text \<open>The result of a small allocation: nothing, or a region in a block that is apart from all that is used.\<close>

definition small_result :: "region set \<Rightarrow> nat \<Rightarrow> region list \<Rightarrow> nat \<Rightarrow> pool_state \<Rightarrow> addr option \<times> pool_state \<Rightarrow> bool" where
  "small_result rest psize objs sz st r = (case r of (p, pool, mem) \<Rightarrow>
     pool_inv rest psize objs (pool, mem) \<and> p_large pool = p_large (fst st) \<and> frame (fst st) pool \<and> p_max pool = p_max (fst st) \<and>
     content mem = content (snd st) \<and> set (live (snd st)) \<subseteq> set (live mem) \<and>
     (\<forall>a. p = Some a \<longrightarrow> in_blocks pool (a, sz) \<and> (\<forall>s \<in> set (used pool objs). disj (a, sz) s)))"

lemma block_take:
  assumes inv: "pool_inv rest psize objs (pool, mem)" and b: "p_blocks pool = xs @ b # ys" "pd_last b \<le> m" "m + sz \<le> pd_end b"
    and g: "grows (xs @ b\<lparr>pd_last := m + sz\<rparr> # ys) bs" "c < length bs"
  shows "pool_inv rest psize objs (pool\<lparr>p_blocks := bs, p_current := c\<rparr>, mem) \<and> in_blocks (pool\<lparr>p_blocks := bs, p_current := c\<rparr>) (m, sz) \<and>
    (\<forall>s \<in> set (used (pool\<lparr>p_blocks := bs, p_current := c\<rparr>) objs). disj (m, sz) s) \<and> frame pool (pool\<lparr>p_blocks := bs, p_current := c\<rparr>)"
proof -
  let ?b = "b\<lparr>pd_last := m + sz\<rparr>"
  let ?pool = "pool\<lparr>p_blocks := xs @ ?b # ys, p_current := p_current pool\<rparr>"
  have g1: "grows (p_blocks pool) (xs @ ?b # ys)" unfolding b(1) using b(2,3) by (intro grows_append grows_refl) (simp add: grows_def list_all2_refl)
  have "p_current pool < length (xs @ ?b # ys)" using inv b(1) by (simp add: pool_inv_def pool_wf_def)
  from grows_inv [OF inv g1 this] have i1: "pool_inv rest psize objs (?pool, mem)" .
  have "block_ok psize b" using inv b(1) by (simp add: pool_inv_def pool_wf_def)
  then have i: "in_blocks ?pool (m, sz)" using b(2) by (auto simp: in_blocks_def block_ok_def)
  have d: "disj (m, sz) s" if "s \<in> set (used pool objs)" for s using block_end_disj [OF inv _ b(2,3) that] b(1) by simp
  have g2: "grows (p_blocks ?pool) bs" using g(1) by simp
  have e: "?pool\<lparr>p_blocks := bs, p_current := c\<rparr> = pool\<lparr>p_blocks := bs, p_current := c\<rparr>" by simp
  have u: "used (pool\<lparr>p_blocks := bs, p_current := c\<rparr>) objs = used pool objs"
    using grows_same(1,3) [OF g2, where c = c] grows_same(1,3) [OF g1, where c = "p_current pool"] unfolding e used_def by simp
  have "frame pool ?pool" "frame ?pool (?pool\<lparr>p_blocks := bs, p_current := c\<rparr>)"
    unfolding frame_def using grows_same(4) [OF g1, where c = "p_current pool"] grows_same(4) [OF g2, where c = c] by simp_all
  then have "frame pool (?pool\<lparr>p_blocks := bs, p_current := c\<rparr>)" by (rule frame_trans)
  then show ?thesis using grows_inv [OF i1 g2 g(2)] grows_same(4) [OF g2 i, where c = c] d unfolding e u by blast
qed

lemma bump_grows: "grows bs (snd (bump_failed i c bs)) \<and> (bs \<noteq> [] \<longrightarrow> c < i + length bs \<longrightarrow> fst (bump_failed i c bs) < i + length bs)"
proof (induction i c bs rule: bump_failed.induct)
  case (1 i c p q bs)
  then show ?case by (auto simp: split_def grows_def Let_def)
qed (simp_all add: grows_def list_all2_refl)

lemma palloc_small_result:
  assumes inv: "pool_inv rest psize objs (pool, mem)" and os: "system_ok os" and sz: "sz \<le> p_max pool"
  shows "small_result rest psize objs sz (pool, mem) (palloc_small os al sz (pool, mem))"
proof -
  let ?c = "p_current pool" and ?bs = "p_blocks pool"
  have wf: "pool_wf psize pool" using inv by (simp add: pool_inv_def)
  have c: "?c < length ?bs" "list_all (block_ok psize) (drop ?c ?bs)" "16 dvd psize"
    using wf by (auto simp: pool_wf_def list_all_iff dest: in_set_dropD)
  show ?thesis
  proof (cases "pool_scan al sz (drop ?c ?bs)")
    case (Some r)
    obtain m bs where r: "r = (m, bs)" by (cases r)
    obtain xs b ys where x: "drop ?c ?bs = xs @ b # ys" "bs = xs @ b\<lparr>pd_last := m + sz\<rparr> # ys" "pd_last b \<le> m" "m + sz \<le> pd_end b"
      using pool_scan_Some [OF _ c(2,3), of al sz m bs] Some r by auto
    have b: "?bs = (take ?c ?bs @ xs) @ b # ys" using x(1) append_take_drop_id [of ?c ?bs] by simp
    have "?c < length ((take ?c ?bs @ xs) @ b\<lparr>pd_last := m + sz\<rparr> # ys)" using c(1) b by (metis length_append length_Cons)
    from block_take [OF inv b x(3,4) grows_refl this] show ?thesis
      using Some r x(2) by (simp add: small_result_def palloc_small_def)
  next
    case None
    then have run: "palloc_small os al sz (pool, mem) = ngx_palloc_block os sz (pool, mem)" by (simp add: palloc_small_def)
    have ps: "pd_end (hd ?bs) - pd_addr (hd ?bs) = psize" using wf by (cases ?bs) (auto simp: pool_wf_def block_ok_def)
    show ?thesis
    proof (cases "os (live mem) 16 psize")
      case N: None
      then show ?thesis unfolding run using inv ps by (simp add: small_result_def ngx_palloc_block_def ngx_memalign_def Let_def)
    next
      case (Some a)
      have a: "16 dvd a" "a + psize < 2 ^ 64" using os Some by (auto simp: system_ok_def)
      have m: "ngx_align_ptr (a + 32) 8 = a + 32"
      proof -
        have "8 dvd a + 32" using a(1) by presburger
        then show ?thesis using align_8(1) [of "a + 32"] align_8(3) [of "a + 32" "a + 32"] by simp
      qed
      let ?nb = "\<lparr>pd_addr = a, pd_last = a + 32, pd_end = a + psize, pd_failed = 0\<rparr>"
      let ?mem = "mem\<lparr>live := (a, psize) # live mem\<rparr>"
      have room: "a + 32 + sz \<le> a + psize" using wf sz by (simp add: pool_wf_def)
      have "block_ok psize ?nb" using a room by (simp add: block_ok_def)
      from new_block_inv [OF inv os Some this] have i1: "pool_inv rest psize objs (pool\<lparr>p_blocks := ?bs @ [?nb]\<rparr>, ?mem)" by simp
      let ?bump = "bump_failed ?c ?c (drop ?c ?bs)"
      let ?new = "take ?c ?bs @ snd ?bump @ [?nb\<lparr>pd_last := a + 32 + sz\<rparr>]"
      have g: "grows (?bs @ [?nb\<lparr>pd_last := a + 32 + sz\<rparr>]) ?new"
      proof -
        have "grows (take ?c ?bs @ drop ?c ?bs) (take ?c ?bs @ snd ?bump)" using bump_grows by (intro grows_append grows_refl) blast
        then have "grows ?bs (take ?c ?bs @ snd ?bump)" by simp
        from grows_append [OF this grows_refl] show ?thesis by simp
      qed
      have l: "fst ?bump < length ?new"
        using bump_grows [of "drop ?c ?bs" ?c ?c] c(1) grows_facts(2) [of "drop ?c ?bs" "snd ?bump"] by auto
      have "palloc_small os al sz (pool, mem) = (Some (a + 32), pool\<lparr>p_blocks := ?new, p_current := fst ?bump\<rparr>, ?mem)"
        unfolding run using Some ps m by (simp add: ngx_palloc_block_def ngx_memalign_def Let_def split_def)
      moreover have "frame pool (pool\<lparr>p_blocks := ?bs @ [?nb]\<rparr>)" by (auto simp: frame_def in_blocks_def)
      then have "frame (pool\<lparr>p_blocks := ?bs @ [?nb]\<rparr>) (pool\<lparr>p_blocks := ?new, p_current := fst ?bump\<rparr>) \<Longrightarrow> frame pool (pool\<lparr>p_blocks := ?new, p_current := fst ?bump\<rparr>)"
        by (rule frame_trans)
      ultimately show ?thesis
        using block_take [OF i1, of ?bs ?nb "[]" "a + 32" sz ?new "fst ?bump"] room g l by (auto simp: small_result_def)
    qed
  qed
qed

end
