(* ===== verification/Ngx_Pool.thy ===== *)
theory Ngx_Pool
  imports Ngx_Palloc
begin

text \<open>
  The correctness of memory pools, src/core/ngx_palloc.c: the operations keep the invariant of \<open>Ngx_Palloc\<close>, for any sequence of calls
  the objects of a pool do not overlap, and a pool gives back what it took from the system.
\<close>

section \<open>Large allocations\<close>

lemma memalign_inv:
  assumes inv: "pool_inv rest psize objs (pool, mem)" and os: "system_ok os" "os (live mem) al sz = Some p"
  shows "pool_inv (insert (p, sz) rest) psize objs (pool, mem\<lparr>live := (p, sz) # live mem\<rparr>)" "p \<notin> fst ` rest"
proof -
  have wf: "mem_wf rest psize pool mem" using inv by (auto simp: pool_inv_def)
  have fresh: "\<forall>r \<in> set (live mem). disj (p, sz) r \<and> fst r \<noteq> p" using os by (auto simp: system_ok_def)
  then have p: "p \<notin> set (owned pool)" using owned_live [OF wf] by auto
  have "mem_wf (insert (p, sz) rest) psize pool (mem\<lparr>live := (p, sz) # live mem\<rparr>)" using wf fresh p by (auto simp: mem_wf_def)
  then show "pool_inv (insert (p, sz) rest) psize objs (pool, mem\<lparr>live := (p, sz) # live mem\<rparr>)"
    using inv by (auto simp: pool_inv_def list_all_iff placed_def)
  show "p \<notin> fst ` rest" using wf fresh by (auto simp: mem_wf_def)
qed

lemma rest_facts:
  assumes "mem_wf (insert (p, sz) rest) psize pool mem"
  shows "p \<notin> set (owned pool)" "(p, sz) \<in> set (live mem)"
proof -
  have "(p, sz) \<in> {r \<in> set (live mem). fst r \<notin> set (owned pool)}" using assms unfolding mem_wf_def by blast
  then show "p \<notin> set (owned pool)" "(p, sz) \<in> set (live mem)" by auto
qed

lemma free_live:
  assumes "(p, sz) \<in> set (live mem)"
  shows "\<exists>mem'. ngx_free p mem = Some mem' \<and> live mem' = filter (\<lambda>r. fst r \<noteq> p) (live mem)"
  using assms by (force simp: ngx_free_def list_ex_iff)

lemma free_inv:
  assumes inv: "pool_inv (insert (p, sz) rest) psize objs (pool, mem)" and p: "p \<notin> fst ` rest"
  shows "\<exists>mem'. ngx_free p mem = Some mem' \<and> pool_inv rest psize objs (pool, mem')"
proof -
  have wf: "mem_wf (insert (p, sz) rest) psize pool mem" using inv by (auto simp: pool_inv_def)
  have no: "p \<notin> set (owned pool)" "(p, sz) \<in> set (live mem)" by (rule rest_facts [OF wf])+
  obtain mem' where free: "ngx_free p mem = Some mem'" and l: "live mem' = filter (\<lambda>r. fst r \<noteq> p) (live mem)" using free_live [OF no(2)] by auto
  have large: "set (large_allocs pool) \<subseteq> fst ` set (filter (\<lambda>r. fst r \<noteq> p) (live mem))"
  proof
    fix a assume a: "a \<in> set (large_allocs pool)"
    then have "a \<in> fst ` set (live mem)" "a \<noteq> p" using wf no unfolding mem_wf_def owned_def by auto
    then show "a \<in> fst ` set (filter (\<lambda>r. fst r \<noteq> p) (live mem))" by force
  qed
  have "{r \<in> set (live mem). fst r \<notin> set (owned pool)} = insert (p, sz) rest" using wf by (simp add: mem_wf_def)
  then have "{r \<in> set (filter (\<lambda>r. fst r \<noteq> p) (live mem)). fst r \<notin> set (owned pool)} = rest" using p by force
  then have "mem_wf rest psize pool mem'"
    using wf large no(1) unfolding mem_wf_def l by (auto simp: sorted_wrt_filter distinct_map_filter owned_def)
  then have "pool_inv rest psize objs (pool, mem')" using inv no(1) by (auto simp: pool_inv_def list_all_iff placed_def l owned_def)
  then show ?thesis using free by blast
qed

lemma attach_inv:
  assumes inv: "pool_inv (insert (p, sz) rest) psize objs (pool, mem)" and p: "p \<notin> fst ` rest"
    and ls: "set (List.map_filter lg_alloc ls) = insert p (set (large_allocs pool))" "distinct (List.map_filter lg_alloc ls)"
    and e: "entries (pool\<lparr>p_large := ls\<rparr>) = es @ entries pool" "list_all (in_blocks pool) es" "sorted_wrt disj (headers pool @ es @ entries pool @ objs)"
      "\<forall>r \<in> set es. disj (p, sz) r"
  shows "pool_inv rest psize ((p, sz) # objs) (pool\<lparr>p_large := ls\<rparr>, mem)"
proof -
  let ?pool = "pool\<lparr>p_large := ls\<rparr>"
  have wf: "pool_wf psize pool" "mem_wf (insert (p, sz) rest) psize pool mem" using inv by (auto simp: pool_inv_def)
  have rest: "{r \<in> set (live mem). fst r \<notin> set (owned pool)} = insert (p, sz) rest" using wf(2) by (simp add: mem_wf_def)
  note no = rest_facts [OF wf(2)]
  have la: "large_allocs ?pool = List.map_filter lg_alloc ls" by (simp add: large_allocs_def)
  have sla: "set (large_allocs ?pool) = insert p (set (large_allocs pool))" "distinct (large_allocs ?pool)" using ls by (simp_all add: la)
  have own: "set (owned ?pool) = insert p (set (owned pool))" using sla by (auto simp: owned_def)
  have "{r \<in> set (live mem). fst r \<notin> set (owned ?pool)} = rest"
    using rest p unfolding own by force
  moreover have "distinct (owned ?pool)" using wf(2) sla no(1) by (auto simp: owned_def mem_wf_def)
  moreover have "p \<in> fst ` set (live mem)" using no(2) by force
  ultimately have "mem_wf rest psize ?pool mem" using wf(2) sla(1) by (auto simp: mem_wf_def)
  moreover have same: "in_blocks ?pool r \<longleftrightarrow> in_blocks pool r" "headers ?pool = headers pool" for r by (simp_all add: in_blocks_def headers_def)
  have "list_all (placed ?pool mem) ((p, sz) # objs)" using inv no(2) sla(1) by (auto simp: pool_inv_def list_all_iff placed_def same)
  moreover have "sorted_wrt disj (headers ?pool @ entries ?pool @ (p, sz) # objs)"
  proof -
    have "disj (p, sz) r" if r: "r \<in> set (used pool objs)" for r
    proof -
      obtain q where q: "q \<in> set (live mem)" "fst q \<in> set (owned pool)" "inside r q" using placed_owned [OF wf used_placed [OF inv r]] by blast
      then have "disj (p, sz) q" using no wf(2) by (intro sorted_disj [of "live mem"]) (auto simp: mem_wf_def)
      moreover have "inside (p, sz) (p, sz)" by (simp add: inside_def)
      ultimately show ?thesis using disj_inside q(3) by blast
    qed
    then show ?thesis using sorted_disj_snoc [of "headers pool @ es @ entries pool" "(p, sz)" objs] e(3,4) unfolding e(1) same by (auto simp: used_def)
  qed
  moreover have "pool_wf psize ?pool" using wf(1) by (simp add: pool_wf_def)
  moreover have "list_all (in_blocks ?pool) (entries ?pool)" using inv e(2) unfolding e(1) by (auto simp: pool_inv_def list_all_iff same)
  ultimately show ?thesis by (simp add: pool_inv_def)
qed

lemma large_reuse_Some:
  "large_reuse n p ls = Some ls' \<Longrightarrow> \<exists>xs l ys. ls = xs @ l # ys \<and> lg_alloc l = None \<and> ls' = xs @ l\<lparr>lg_alloc := Some p\<rparr> # ys"
proof (induction ls arbitrary: n ls')
  case (Cons l ls)
  show ?case
  proof (cases "lg_alloc l = None")
    case True
    then show ?thesis using Cons.prems by (intro exI [of _ "[]"]) auto
  next
    case False
    then obtain ls1 where "large_reuse (n + 1) p ls = Some ls1" "ls' = l # ls1" using Cons.prems by (auto split: if_splits)
    then show ?thesis using Cons.IH by (metis append_Cons)
  qed
qed simp

lemma large_free_Some:
  "large_free p ls = Some ls' \<Longrightarrow> \<exists>xs l ys. ls = xs @ l # ys \<and> lg_alloc l = p \<and> ls' = xs @ l\<lparr>lg_alloc := None\<rparr> # ys"
proof (induction ls arbitrary: ls')
  case (Cons l ls)
  show ?case
  proof (cases "lg_alloc l = p")
    case True
    then show ?thesis using Cons.prems by (intro exI [of _ "[]"]) auto
  next
    case False
    then obtain ls1 where "large_free p ls = Some ls1" "ls' = l # ls1" using Cons.prems by auto
    then show ?thesis using Cons.IH by (metis append_Cons)
  qed
qed simp

lemma map_filter_append: "List.map_filter f (xs @ ys) = List.map_filter f xs @ List.map_filter f ys"
  by (simp add: List.map_filter_def)

lemma map_filter_Cons: "List.map_filter f (x # ys) = (case f x of None \<Rightarrow> [] | Some y \<Rightarrow> [y]) @ List.map_filter f ys"
  by (simp add: List.map_filter_def split: option.splits)

text \<open>An entry in front of the list, and a free entry that is used again.\<close>

lemma large_push_inv:
  assumes "small_result (insert (p, sz) rest) psize objs sizeof_pool_large st (Some l, st')" "p \<notin> fst ` rest"
  shows "pool_inv rest psize ((p, sz) # objs) (large_push l p st')"
proof -
  obtain pool mem where st': "st' = (pool, mem)" by (cases st')
  have s: "pool_inv (insert (p, sz) rest) psize objs (pool, mem)" "in_blocks pool (l, sizeof_pool_large)" "\<forall>s \<in> set (used pool objs). disj (l, sizeof_pool_large) s"
    using assms(1) unfolding st' by (auto simp: small_result_def)
  have wf: "pool_wf psize pool" "mem_wf (insert (p, sz) rest) psize pool mem" using s(1) by (auto simp: pool_inv_def)
  have "disj (p, sz) (l, sizeof_pool_large)"
  proof -
    have "placed pool mem (l, sizeof_pool_large)" using s(2) by (simp add: placed_def)
    then obtain q where q: "q \<in> set (live mem)" "fst q \<in> set (owned pool)" "inside (l, sizeof_pool_large) q" using placed_owned [OF wf] by blast
    have "disj (p, sz) q" using q wf(2) rest_facts [OF wf(2)] by (intro sorted_disj [of "live mem"]) (auto simp: mem_wf_def)
    moreover have "inside (p, sz) (p, sz)" by (simp add: inside_def)
    ultimately show ?thesis using disj_inside q(3) by blast
  qed
  moreover have "sorted_wrt disj (headers pool @ [(l, sizeof_pool_large)] @ entries pool @ objs)"
    using s(1,3) by (subst sorted_disj_snoc) (simp add: pool_inv_def used_def)
  moreover have "p \<notin> set (large_allocs pool)" "distinct (large_allocs pool)" using rest_facts(1) [OF wf(2)] wf(2) by (auto simp: mem_wf_def owned_def)
  ultimately have "pool_inv rest psize ((p, sz) # objs) (pool\<lparr>p_large := \<lparr>lg_addr = l, lg_alloc = Some p\<rparr> # p_large pool\<rparr>, mem)"
    using s(2) by (intro attach_inv [OF s(1) assms(2), where es = "[(l, sizeof_pool_large)]"]) (simp_all add: map_filter_Cons large_allocs_def entries_def)
  then show ?thesis by (simp add: st' large_push_def)
qed

lemma reuse_inv:
  assumes "pool_inv (insert (p, sz) rest) psize objs (pool, mem)" "p \<notin> fst ` rest" "large_reuse 0 p (p_large pool) = Some ls"
  shows "pool_inv rest psize ((p, sz) # objs) (pool\<lparr>p_large := ls\<rparr>, mem)"
proof -
  obtain xs l ys where x: "p_large pool = xs @ l # ys" "lg_alloc l = None" "ls = xs @ l\<lparr>lg_alloc := Some p\<rparr> # ys" using large_reuse_Some [OF assms(3)] by blast
  show ?thesis
  proof (rule attach_inv [OF assms(1,2), where es = "[]"])
    have wf: "mem_wf (insert (p, sz) rest) psize pool mem" using assms(1) by (simp add: pool_inv_def)
    then have "p \<notin> set (large_allocs pool)" "distinct (large_allocs pool)" using rest_facts(1) [OF wf] by (auto simp: mem_wf_def owned_def)
    then show "set (List.map_filter lg_alloc ls) = insert p (set (large_allocs pool))" "distinct (List.map_filter lg_alloc ls)"
      using x by (auto simp: map_filter_append map_filter_Cons large_allocs_def)
    show "entries (pool\<lparr>p_large := ls\<rparr>) = [] @ entries pool" using x by (simp add: entries_def)
  qed (use assms(1) in \<open>simp_all add: pool_inv_def\<close>)
qed

section \<open>The operations\<close>

text \<open>The result of an allocation: a new object, or nothing.\<close>

definition alloc_result :: "region set \<Rightarrow> nat \<Rightarrow> region list \<Rightarrow> nat \<Rightarrow> ngx_pool_t \<Rightarrow> (addr option \<times> pool_state) option \<Rightarrow> bool" where
  "alloc_result rest psize objs sz pool r \<longleftrightarrow> (\<exists>p st. r = Some (p, st) \<and> frame pool (fst st) \<and> pool_inv rest psize (case p of None \<Rightarrow> objs | Some a \<Rightarrow> (a, sz) # objs) st)"

lemma small_alloc:
  assumes "small_result rest psize objs sz st (p, st')"
  shows "pool_inv rest psize (case p of None \<Rightarrow> objs | Some a \<Rightarrow> (a, sz) # objs) st'"
proof -
  obtain pool mem where st': "st' = (pool, mem)" by (cases st')
  show ?thesis
  proof (cases p)
    case (Some a)
    then have s: "pool_inv rest psize objs (pool, mem)" "in_blocks pool (a, sz)" "\<forall>s \<in> set (used pool objs). disj (a, sz) s"
      using assms st' by (auto simp: small_result_def)
    moreover have "sorted_wrt disj ((headers pool @ entries pool) @ [(a, sz)] @ objs)" using s(1,3) by (subst sorted_disj_snoc) (simp add: pool_inv_def used_def)
    ultimately show ?thesis using Some st' by (simp add: pool_inv_def placed_def)
  qed (use assms st' in \<open>simp add: small_result_def\<close>)
qed

lemma large_max: "pool_inv rest psize objs (pool, mem) \<Longrightarrow> sizeof_pool_large \<le> p_max pool"
  by (simp add: pool_inv_def pool_wf_def)

text \<open>The entry for a large allocation of memory that the system has given.\<close>

lemma entry_result:
  assumes inv: "pool_inv rest psize objs (pool, mem)" and os: "system_ok os" "os (live mem) al sz = Some p"
    and r: "palloc_small os True sizeof_pool_large (pool, mem\<lparr>live := (p, sz) # live mem\<rparr>) = (l, st)"
  shows "alloc_result rest psize objs sz pool (case l of None \<Rightarrow> map_option (\<lambda>m. (None, fst st, m)) (ngx_free p (snd st)) | Some l \<Rightarrow> Some (Some p, large_push l p st))"
proof -
  note m = memalign_inv [OF inv os]
  have s: "small_result (insert (p, sz) rest) psize objs sizeof_pool_large (pool, mem\<lparr>live := (p, sz) # live mem\<rparr>) (l, st)"
    using palloc_small_result [OF m(1) os(1) large_max [OF m(1)], of True] r by simp
  then have fr: "frame pool (fst st)" by (cases st) (simp add: small_result_def)
  show ?thesis
  proof (cases l)
    case None
    then have "pool_inv (insert (p, sz) rest) psize objs (fst st, snd st)" using small_alloc [OF s] by simp
    from free_inv [OF this m(2)] show ?thesis using None fr by (auto simp: alloc_result_def)
  next
    case (Some a)
    then show ?thesis using large_push_inv [OF _ m(2)] s fr by (simp add: alloc_result_def large_push_def split_def)
  qed
qed

lemma palloc_large_result:
  assumes inv: "pool_inv rest psize objs (pool, mem)" and os: "system_ok os"
  shows "alloc_result rest psize objs sz pool (ngx_palloc_large os sz (pool, mem))"
proof (cases "os (live mem) 16 sz")
  case None
  then show ?thesis using inv by (simp add: ngx_palloc_large_def palloc_large_with.simps [of os sz] ngx_alloc_def ngx_memalign_def alloc_result_def)
next
  case (Some p)
  let ?mem = "mem\<lparr>live := (p, sz) # live mem\<rparr>"
  note m = memalign_inv [OF inv os Some]
  obtain l st where l: "palloc_small os True sizeof_pool_large (pool, ?mem) = (l, st)" by (cases "palloc_small os True sizeof_pool_large (pool, ?mem)")
  have run: "ngx_palloc_large os sz (pool, mem) = (case large_reuse 0 p (p_large pool) of
        Some ls \<Rightarrow> Some (Some p, pool\<lparr>p_large := ls\<rparr>, ?mem)
      | None \<Rightarrow> (case l of None \<Rightarrow> map_option (\<lambda>m. (None, fst st, m)) (ngx_free p (snd st)) | Some l \<Rightarrow> Some (Some p, large_push l p st)))"
    using Some l large_max [OF inv]
    by (simp add: ngx_palloc_large_def palloc_large_with.simps [of os sz] ngx_alloc_def ngx_memalign_def split: option.splits)
  show ?thesis
  proof (cases "large_reuse 0 p (p_large pool)")
    case N: None
    then show ?thesis unfolding run using entry_result [OF inv os Some l] by simp
  next
    case (Some ls)
    then show ?thesis unfolding run using reuse_inv [OF m] by (simp add: alloc_result_def)
  qed
qed

lemma palloc_result:
  assumes "pool_inv rest psize objs st" "system_ok os"
  shows "alloc_result rest psize objs sz (fst st) (ngx_palloc os sz st)" "alloc_result rest psize objs sz (fst st) (ngx_pnalloc os sz st)"
proof -
  obtain pool mem where st: "st = (pool, mem)" by (cases st)
  have inv: "pool_inv rest psize objs (pool, mem)" using assms(1) st by simp
  have "alloc_result rest psize objs sz pool (Some (palloc_small os al sz (pool, mem)))" if "sz \<le> p_max pool" for al
    using small_alloc [of rest psize objs sz "(pool, mem)"] palloc_small_result [OF inv assms(2) that, of al]
    by (cases "palloc_small os al sz (pool, mem)") (simp add: alloc_result_def small_result_def)
  then show "alloc_result rest psize objs sz (fst st) (ngx_palloc os sz st)" "alloc_result rest psize objs sz (fst st) (ngx_pnalloc os sz st)"
    using palloc_large_result [OF inv assms(2)] st by (simp_all add: ngx_palloc_def ngx_pnalloc_def)
qed

lemma content_inv: "pool_inv rest psize objs (pool, mem) \<Longrightarrow> pool_inv rest psize objs (pool, mem\<lparr>content := c\<rparr>)"
  by (simp add: pool_inv_def mem_wf_def placed_def list_all_iff)

lemma pcalloc_result:
  assumes "pool_inv rest psize objs st" "system_ok os"
  shows "alloc_result rest psize objs sz (fst st) (ngx_pcalloc os sz st)"
proof -
  obtain p pool mem where r: "ngx_palloc os sz st = Some (p, pool, mem)" "frame (fst st) pool" "pool_inv rest psize (case p of None \<Rightarrow> objs | Some a \<Rightarrow> (a, sz) # objs) (pool, mem)"
    using palloc_result(1) [OF assms, of sz] by (auto simp: alloc_result_def)
  then show ?thesis using content_inv by (cases p) (auto simp: ngx_pcalloc_def alloc_result_def mem_zero_def)
qed

lemma pmemalign_result:
  assumes "pool_inv rest psize objs st" "system_ok os"
  shows "alloc_result rest psize objs sz (fst st) (ngx_pmemalign os sz al st)"
proof -
  obtain pool mem where st: "st = (pool, mem)" by (cases st)
  have inv: "pool_inv rest psize objs (pool, mem)" using assms(1) st by simp
  show ?thesis
  proof (cases "os (live mem) al sz")
    case None
    then show ?thesis using inv st by (simp add: ngx_pmemalign_def ngx_memalign_def alloc_result_def)
  next
    case (Some p)
    obtain l st' where l: "palloc_small os True sizeof_pool_large (pool, mem\<lparr>live := (p, sz) # live mem\<rparr>) = (l, st')" by (metis surj_pair)
    have "ngx_pmemalign os sz al st = (case l of None \<Rightarrow> map_option (\<lambda>m. (None, fst st', m)) (ngx_free p (snd st')) | Some l \<Rightarrow> Some (Some p, large_push l p st'))"
      using Some l large_max [OF inv] by (simp add: st ngx_pmemalign_def ngx_memalign_def ngx_palloc_def split: option.splits)
    then show ?thesis using entry_result [OF inv assms(2) Some l] st by simp
  qed
qed

lemma large_free_NULL: "large_free None ls = Some ls' \<Longrightarrow> ls' = ls"
  by (induction ls arbitrary: ls') (auto split: if_splits)

lemma pfree_NULL: "\<exists>rc. ngx_pfree None st = Some (rc, st)"
  by (cases st) (auto simp: ngx_pfree_def dest: large_free_NULL split: option.splits)

lemma pfree_inv:
  assumes "pool_inv rest psize objs st"
  shows "\<exists>rc st'. ngx_pfree (Some p) st = Some (rc, st') \<and> frame (fst st) (fst st') \<and>
    pool_inv rest psize (if rc = NGX_OK then filter (\<lambda>r. fst r \<noteq> p) objs else objs) st' \<and> (rc = NGX_OK \<longrightarrow> p \<in> set (large_allocs (fst st)))"
proof -
  obtain pool mem where st: "st = (pool, mem)" by (cases st)
  have inv: "pool_inv rest psize objs (pool, mem)" using assms(1) st by simp
  show ?thesis
  proof (cases "large_free (Some p) (p_large pool)")
    case None
    then show ?thesis using inv st by (simp add: ngx_pfree_def)
  next
    case (Some ls)
    obtain xs l ys where x: "p_large pool = xs @ l # ys" "lg_alloc l = Some p" "ls = xs @ l\<lparr>lg_alloc := None\<rparr> # ys" using large_free_Some [OF Some] by blast
    let ?pool = "pool\<lparr>p_large := ls\<rparr>"
    have wf: "mem_wf rest psize pool mem" using inv by (simp add: pool_inv_def)
    have d: "distinct (owned pool)" using wf by (simp add: mem_wf_def)
    have la: "set (large_allocs ?pool) = set (large_allocs pool) - {p}" "distinct (large_allocs ?pool)" "p \<in> set (large_allocs pool)"
      using x d by (auto simp: large_allocs_def owned_def map_filter_append map_filter_Cons)
    then obtain n where n: "(p, n) \<in> set (live mem)" using wf by (auto simp: mem_wf_def)
    obtain mem' where free: "ngx_free p mem = Some mem'" and l: "live mem' = filter (\<lambda>r. fst r \<noteq> p) (live mem)" using free_live [OF n] by auto
    have res: "ngx_pfree (Some p) st = Some (NGX_OK, ?pool, mem')" using Some st free by (simp add: ngx_pfree_def)
    have own: "set (owned ?pool) = set (owned pool) - {p}" "p \<in> set (owned pool)" "p \<notin> set (map pd_addr (p_blocks pool))" "distinct (owned ?pool)"
      using la d by (auto simp: owned_def)
    have "set (large_allocs ?pool) \<subseteq> fst ` set (live mem')"
    proof
      fix a assume "a \<in> set (large_allocs ?pool)"
      then have "a \<in> fst ` set (live mem)" "a \<noteq> p" using wf la(1) unfolding mem_wf_def by auto
      then show "a \<in> fst ` set (live mem')" unfolding l by force
    qed
    moreover have "{r \<in> set (live mem'). fst r \<notin> set (owned ?pool)} = rest" using wf own(1,2) unfolding l mem_wf_def by auto
    moreover have "\<forall>a \<in> set (map pd_addr (p_blocks pool)). (a, psize) \<in> set (live mem')" using wf own(3) unfolding l mem_wf_def by auto
    ultimately have "mem_wf rest psize ?pool mem'" using wf own(4) unfolding mem_wf_def l by (simp add: sorted_wrt_filter distinct_map_filter)
    moreover have same: "in_blocks ?pool r \<longleftrightarrow> in_blocks pool r" "headers ?pool = headers pool" "entries ?pool = entries pool" for r
      using x by (simp_all add: in_blocks_def headers_def entries_def)
    have "list_all (placed ?pool mem') (filter (\<lambda>r. fst r \<noteq> p) objs)"
      using inv la(1) unfolding l pool_inv_def by (auto simp: list_all_iff placed_def same l)
    moreover have "sorted_wrt disj (headers pool @ entries pool @ filter (\<lambda>r. fst r \<noteq> p) objs)"
      using inv by (auto simp: pool_inv_def sorted_wrt_append sorted_wrt_filter)
    ultimately have "pool_inv rest psize (filter (\<lambda>r. fst r \<noteq> p) objs) (?pool, mem')"
      using inv by (simp add: pool_inv_def same pool_wf_def list_all_iff)
    then show ?thesis using res la(3) st by simp
  qed
qed

lemma free_large_live:
  assumes "distinct (List.map_filter lg_alloc ls)" "set (List.map_filter lg_alloc ls) \<subseteq> fst ` set (live mem)"
  shows "\<exists>mem'. free_large ls mem = Some mem' \<and> live mem' = filter (\<lambda>r. fst r \<notin> set (List.map_filter lg_alloc ls)) (live mem)"
  using assms
proof (induction ls arbitrary: mem)
  case (Cons l ls)
  show ?case
  proof (cases "lg_alloc l")
    case None
    then show ?thesis using Cons by (simp add: map_filter_Cons)
  next
    case (Some a)
    then obtain n where "(a, n) \<in> set (live mem)" using Cons.prems(2) by (auto simp: map_filter_Cons)
    then obtain m1 where m1: "ngx_free a mem = Some m1" "live m1 = filter (\<lambda>r. fst r \<noteq> a) (live mem)" using free_live by blast
    have "x \<in> fst ` set (live m1)" if "x \<in> set (List.map_filter lg_alloc ls)" for x
    proof -
      have "x \<noteq> a" "x \<in> fst ` set (live mem)" using that Cons.prems Some by (auto simp: map_filter_Cons)
      then show ?thesis unfolding m1(2) by force
    qed
    then have "\<exists>mem'. free_large ls m1 = Some mem' \<and> live mem' = filter (\<lambda>r. fst r \<notin> set (List.map_filter lg_alloc ls)) (live m1)"
      using Cons.IH [of m1] Cons.prems(1) Some by (simp add: map_filter_Cons subsetI)
    then show ?thesis using Some m1 by (auto simp: map_filter_Cons intro!: filter_cong)
  qed
qed (simp add: List.map_filter_def)

lemma free_blocks_live:
  assumes "distinct (map pd_addr bs)" "pd_addr ` set bs \<subseteq> fst ` set (live mem)"
  shows "\<exists>mem'. free_blocks bs mem = Some mem' \<and> live mem' = filter (\<lambda>r. fst r \<notin> set (map pd_addr bs)) (live mem)"
  using assms
proof (induction bs arbitrary: mem)
  case (Cons b bs)
  obtain n where "(pd_addr b, n) \<in> set (live mem)" using Cons.prems(2) by auto
  then obtain m1 where m1: "ngx_free (pd_addr b) mem = Some m1" "live m1 = filter (\<lambda>r. fst r \<noteq> pd_addr b) (live mem)" using free_live by blast
  have "x \<in> fst ` set (live m1)" if "x \<in> pd_addr ` set bs" for x
  proof -
    have "x \<noteq> pd_addr b" "x \<in> fst ` set (live mem)" using that Cons.prems by (metis distinct.simps(2) list.set_map list.simps(9), auto)
    then show ?thesis unfolding m1(2) by force
  qed
  then have "\<exists>mem'. free_blocks bs m1 = Some mem' \<and> live mem' = filter (\<lambda>r. fst r \<notin> set (map pd_addr bs)) (live m1)"
    using Cons.IH [of m1] Cons.prems(1) by (simp add: subsetI)
  then show ?case using m1 by (auto intro!: filter_cong)
qed simp

lemma free_large_pool:
  assumes "mem_wf rest psize pool mem"
  obtains mem' where "free_large (p_large pool) mem = Some mem'" "live mem' = filter (\<lambda>r. fst r \<notin> set (large_allocs pool)) (live mem)"
  using free_large_live [of "p_large pool" mem] assms by (auto simp: mem_wf_def large_allocs_def owned_def)

lemma reset_inv:
  assumes "pool_inv rest psize objs st"
  shows "\<exists>st'. ngx_reset_pool st = Some st' \<and> p_cleanup (fst st') = p_cleanup (fst st) \<and> pool_inv rest psize [] st'"
proof -
  obtain pool mem where st: "st = (pool, mem)" by (cases st)
  let ?bs = "map (\<lambda>b. b\<lparr>pd_last := pd_addr b + sizeof_pool\<rparr>) (p_blocks pool)"
  let ?pool = "pool\<lparr>p_large := [], p_blocks := ?bs\<rparr>"
  have wf: "pool_wf psize pool" "mem_wf rest psize pool mem" using assms st by (auto simp: pool_inv_def)
  obtain mem' where free: "free_large (p_large pool) mem = Some mem'" and l: "live mem' = filter (\<lambda>r. fst r \<notin> set (large_allocs pool)) (live mem)"
    using free_large_pool [OF wf(2)] .
  have "pool_wf psize ?pool" using wf(1) by (auto simp: pool_wf_def list_all_iff block_ok_def hd_map)
  moreover have own: "owned ?pool = map pd_addr (p_blocks pool)" "large_allocs ?pool = []" "entries ?pool = []" "headers ?pool = headers pool"
    by (simp_all add: owned_def large_allocs_def entries_def headers_def comp_def List.map_filter_def)
  have "\<forall>a \<in> set (map pd_addr (p_blocks pool)). a \<notin> set (large_allocs pool)" using wf(2) by (auto simp: mem_wf_def owned_def)
  then have "mem_wf rest psize ?pool mem'"
    using wf(2) unfolding mem_wf_def own l by (auto simp: sorted_wrt_filter distinct_map_filter owned_def comp_def)
  moreover have "sorted_wrt disj (headers pool)" using assms st by (auto simp: pool_inv_def sorted_wrt_append)
  ultimately have "pool_inv rest psize [] (?pool, mem')" using own by (simp add: pool_inv_def)
  then show ?thesis using st free by (simp add: ngx_reset_pool_def)
qed

lemma destroy_live:
  assumes "pool_inv rest psize objs st"
  shows "\<exists>calls mem'. ngx_destroy_pool st = Some (calls, mem') \<and> set (live mem') = rest"
proof -
  obtain pool mem where st: "st = (pool, mem)" by (cases st)
  have wf: "mem_wf rest psize pool mem" using assms st by (auto simp: pool_inv_def)
  obtain m1 where m1: "free_large (p_large pool) mem = Some m1" "live m1 = filter (\<lambda>r. fst r \<notin> set (large_allocs pool)) (live mem)"
    using free_large_pool [OF wf] .
  have "distinct (map pd_addr (p_blocks pool))" using wf by (simp add: mem_wf_def owned_def)
  moreover have "pd_addr ` set (p_blocks pool) \<subseteq> fst ` set (live m1)"
  proof
    fix a assume a: "a \<in> pd_addr ` set (p_blocks pool)"
    then have "(a, psize) \<in> set (live mem)" "a \<notin> set (large_allocs pool)" using wf by (auto simp: mem_wf_def owned_def)
    then show "a \<in> fst ` set (live m1)" unfolding m1(2) by force
  qed
  ultimately obtain m2 where m2: "free_blocks (p_blocks pool) m1 = Some m2" "live m2 = filter (\<lambda>r. fst r \<notin> set (map pd_addr (p_blocks pool))) (live m1)"
    using free_blocks_live by blast
  have "{r \<in> set (live mem). fst r \<notin> set (owned pool)} = rest" using wf by (simp add: mem_wf_def)
  then have "set (live m2) = rest" unfolding m2(2) m1(2) by (auto simp: owned_def)
  then show ?thesis using st m1(1) m2(1) by (simp add: ngx_destroy_pool_def)
qed

lemma create_inv:
  assumes "ngx_create_pool os sz mem = (Some pool, mem')" "system_ok os" "sorted_wrt disj (live mem)" "distinct (map fst (live mem))" "NGX_MIN_POOL_SIZE \<le> sz" "16 dvd sz" "sz < 2 ^ 63"
  shows "pool_inv (set (live mem)) sz [] (pool, mem') \<and> p_cleanup pool = []"
proof -
  obtain a where a: "os (live mem) 16 sz = Some a" using assms(1) by (auto simp: ngx_create_pool_def ngx_memalign_def split: option.splits)
  have "sz + 2 ^ 64 - 80 = (sz - 80) + 2 ^ 64" using assms(5) by simp
  then have rest: "(sz + 2 ^ 64 - sizeof_pool) mod 2 ^ 64 = sz - 80" using assms(7) by (simp only: mod_add_self2) simp
  have fresh: "16 dvd a" "a + sz < 2 ^ 64" "\<forall>r \<in> set (live mem). disj (a, sz) r \<and> fst r \<noteq> a" using assms(2) a by (auto simp: system_ok_def)
  have p: "pool = \<lparr>p_blocks = [\<lparr>pd_addr = a, pd_last = a + sizeof_pool, pd_end = a + sz, pd_failed = 0\<rparr>],
      p_max = (if sz - 80 < NGX_MAX_ALLOC_FROM_POOL then sz - 80 else NGX_MAX_ALLOC_FROM_POOL), p_current = 0, p_large = [], p_cleanup = []\<rparr>" "mem' = mem\<lparr>live := (a, sz) # live mem\<rparr>"
    using assms(1) a unfolding ngx_create_pool_def ngx_memalign_def rest by (auto simp: Let_def)
  have "pool_wf sz pool" using assms(5,6) fresh(1,2) by (auto simp: p pool_wf_def block_ok_def)
  moreover have "mem_wf (set (live mem)) sz pool mem'"
    using assms(3,4) fresh(3) by (auto simp: p mem_wf_def owned_def large_allocs_def List.map_filter_def)
  ultimately show ?thesis by (simp add: pool_inv_def) (simp add: p entries_def headers_def)
qed

section \<open>Cleanups\<close>

text \<open>The records of the cleanups are in the blocks, and apart from the objects.\<close>

definition cleanups :: "ngx_pool_t \<Rightarrow> region list" where
  "cleanups pool = map (\<lambda>c. (cl_addr c, sizeof_pool_cleanup)) (p_cleanup pool)"

definition run_inv :: "region set \<Rightarrow> nat \<Rightarrow> region list \<Rightarrow> pool_state \<Rightarrow> bool" where
  "run_inv rest psize objs st \<longleftrightarrow> pool_inv rest psize (cleanups (fst st) @ objs) st \<and> list_all (in_blocks (fst st)) (cleanups (fst st))"

lemma frame_cleanups: "frame pool pool' \<Longrightarrow> list_all (in_blocks pool) (cleanups pool) \<Longrightarrow> cleanups pool' = cleanups pool \<and> list_all (in_blocks pool') (cleanups pool')"
  by (auto simp: frame_def cleanups_def list_all_iff)

lemma pool_inv_move: "pool_inv rest psize (r # xs @ ys) st \<longleftrightarrow> pool_inv rest psize (xs @ r # ys) st"
proof -
  have "sorted_wrt disj (hs @ r # xs @ ys) \<longleftrightarrow> sorted_wrt disj (hs @ xs @ r # ys)" for hs
    using sorted_disj_snoc [of hs r "xs @ ys"] sorted_disj_snoc [of "hs @ xs" r ys] by auto
  from this [of "headers (fst st) @ entries (fst st)"] show ?thesis by (cases st) (auto simp: pool_inv_def)
qed

lemma pool_inv_drop: "pool_inv rest psize (r # objs) st \<Longrightarrow> pool_inv rest psize objs st"
  by (cases st) (auto simp: pool_inv_def sorted_wrt_append)

lemma cleanup_inv: "pool_inv rest psize objs (pool, mem) \<Longrightarrow> pool_inv rest psize objs (pool\<lparr>p_cleanup := cs\<rparr>, mem)"
  by (simp add: pool_inv_def mem_wf_def pool_wf_def placed_def list_all_iff headers_def entries_def in_blocks_def owned_def large_allocs_def)

definition new_obj :: "addr option \<Rightarrow> nat \<Rightarrow> region list \<Rightarrow> region list" where
  "new_obj p sz objs = (case p of None \<Rightarrow> objs | Some a \<Rightarrow> (a, sz) # objs)"

lemma run_alloc:
  assumes "run_inv rest psize objs st" "alloc_result rest psize (cleanups (fst st) @ objs) sz (fst st) r" "r = Some (p, st')"
  shows "run_inv rest psize (new_obj p sz objs) st'"
proof -
  have "frame (fst st) (fst st')" "pool_inv rest psize (case p of None \<Rightarrow> cleanups (fst st) @ objs | Some a \<Rightarrow> (a, sz) # cleanups (fst st) @ objs) st'"
    using assms(2,3) by (auto simp: alloc_result_def)
  then show ?thesis using assms(1) frame_cleanups [of "fst st" "fst st'"] by (auto simp: run_inv_def new_obj_def pool_inv_move split: option.splits)
qed

lemma cleanup_result:
  assumes inv: "run_inv rest psize objs st" and os: "system_ok os" and r: "ngx_pool_cleanup_add os sz st = Some (c, st')"
  shows "run_inv rest psize (if c = None then objs else new_obj (cl_data (hd (p_cleanup (fst st')))) sz objs) st'"
proof -
  obtain pool mem where st: "st = (pool, mem)" by (cases st)
  let ?cs = "cleanups pool"
  have i0: "pool_inv rest psize (?cs @ objs) (pool, mem)" and cs: "list_all (in_blocks pool) ?cs" using inv st by (auto simp: run_inv_def)
  have mx: "sizeof_pool_cleanup \<le> p_max pool" using i0 by (simp add: pool_inv_def pool_wf_def)
  obtain a pool1 mem1 where a: "palloc_small os True sizeof_pool_cleanup (pool, mem) = (a, pool1, mem1)" by (metis prod_cases3)
  have s: "small_result rest psize (?cs @ objs) sizeof_pool_cleanup (pool, mem) (a, pool1, mem1)" using palloc_small_result [OF i0 os mx, of True] a by simp
  have call: "ngx_palloc os sizeof_pool_cleanup st = Some (a, pool1, mem1)" using a mx st by (simp add: ngx_palloc_def)
  have f1: "frame pool pool1" using s by (simp add: small_result_def)
  show ?thesis
  proof (cases a)
    case None
    then have "c = None" "st' = (pool1, mem1)" using r call by (auto simp: ngx_pool_cleanup_add_def)
    moreover have "cleanups pool1 = ?cs" "list_all (in_blocks pool1) ?cs" using frame_cleanups [OF f1 cs] by auto
    ultimately show ?thesis using small_alloc [OF s] None by (simp add: run_inv_def)
  next
    case (Some b)
    let ?objs = "(b, sizeof_pool_cleanup) # ?cs @ objs"
    have i1: "pool_inv rest psize ?objs (pool1, mem1)" using small_alloc [OF s] Some by simp
    have b: "in_blocks pool1 (b, sizeof_pool_cleanup)" using s Some by (simp add: small_result_def)
    obtain d pool2 mem2 where d: "(if sz \<noteq> 0 then ngx_palloc os sz (pool1, mem1) else Some (None, (pool1, mem1))) = Some (d, pool2, mem2)"
      "frame pool1 pool2" "pool_inv rest psize (case d of None \<Rightarrow> ?objs | Some e \<Rightarrow> (e, sz) # ?objs) (pool2, mem2)"
    proof (cases "sz = 0")
      case True
      then show ?thesis using that [of None pool1 mem1] i1 by simp
    next
      case False
      then show ?thesis using that palloc_result(1) [OF i1 os, of sz] by (auto simp: alloc_result_def)
    qed
    have f2: "cleanups pool2 = ?cs" "list_all (in_blocks pool2) ?cs" "in_blocks pool2 (b, sizeof_pool_cleanup)"
      using frame_cleanups [OF frame_trans [OF f1 d(2)] cs] d(2) b by (auto simp: frame_def)
    show ?thesis
    proof (cases "sz \<noteq> 0 \<and> d = None")
      case True
      then have "c = None" "st' = (pool2, mem2)" using r call Some d(1) by (auto simp: ngx_pool_cleanup_add_def)
      then show ?thesis using d(3) True f2 pool_inv_drop by (simp add: run_inv_def)
    next
      case False
      let ?cl = "\<lparr>cl_addr = b, cl_handler = None, cl_data = d\<rparr>"
      let ?pool = "pool2\<lparr>p_cleanup := ?cl # p_cleanup pool2\<rparr>"
      have res: "c = Some b" "st' = (?pool, mem2)" using r call Some d(1) False by (auto simp: ngx_pool_cleanup_add_def Let_def)
      have cl: "cleanups ?pool = (b, sizeof_pool_cleanup) # ?cs" using f2(1) by (simp add: cleanups_def)
      have "pool_inv rest psize (new_obj d sz ?objs) (?pool, mem2)" using cleanup_inv [OF d(3)] by (cases d) (simp_all add: new_obj_def)
      then have "pool_inv rest psize (cleanups ?pool @ new_obj d sz objs) (?pool, mem2)"
        using pool_inv_move [of rest psize _ "(b, sizeof_pool_cleanup) # ?cs" objs] unfolding cl by (cases d) (simp_all add: new_obj_def)
      moreover have "list_all (in_blocks ?pool) (cleanups ?pool)" using f2(2,3) unfolding cl by (simp add: in_blocks_def list_all_iff)
      ultimately show ?thesis using res by (simp add: run_inv_def)
    qed
  qed
qed

text \<open>A region in a block is not a large allocation.\<close>

lemma in_blocks_not_large:
  assumes "pool_inv rest psize objs (pool, mem)" "in_blocks pool r" "0 < snd r"
  shows "fst r \<notin> set (large_allocs pool)"
proof
  assume l: "fst r \<in> set (large_allocs pool)"
  have wf: "pool_wf psize pool" "mem_wf rest psize pool mem" using assms(1) by (auto simp: pool_inv_def)
  obtain b where b: "b \<in> set (p_blocks pool)" "pd_addr b \<le> fst r" "fst r + snd r \<le> pd_last b" using assms(2) by (auto simp: in_blocks_def)
  have ok: "block_ok psize b" "(pd_addr b, psize) \<in> set (live mem)" using wf b(1) by (auto simp: pool_wf_def mem_wf_def list_all_iff)
  obtain n where n: "(fst r, n) \<in> set (live mem)" using wf(2) l by (auto simp: mem_wf_def)
  have "fst r \<noteq> pd_addr b" using wf(2) l b(1) by (auto simp: mem_wf_def owned_def)
  then have "disj (pd_addr b, psize) (fst r, n)" using wf(2) ok(2) n by (intro sorted_disj [of "live mem"]) (auto simp: mem_wf_def)
  then show False using b ok(1) assms(3) \<open>fst r \<noteq> pd_addr b\<close> by (auto simp: disj_def block_ok_def)
qed

lemma run_pfree:
  assumes inv: "run_inv rest psize objs st"
  shows "\<exists>rc st'. ngx_pfree p st = Some (rc, st') \<and> run_inv rest psize (if rc = NGX_OK then filter (\<lambda>r. Some (fst r) \<noteq> p) objs else objs) st'"
proof (cases p)
  case None
  obtain rc where rc: "ngx_pfree None st = Some (rc, st)" using pfree_NULL by blast
  show ?thesis by (rule exI [of _ rc], rule exI [of _ st]) (use None inv rc in simp)
next
  case (Some a)
  obtain pool mem where st: "st = (pool, mem)" by (cases st)
  have i: "pool_inv rest psize (cleanups pool @ objs) st" "list_all (in_blocks pool) (cleanups pool)" using inv st by (auto simp: run_inv_def)
  obtain rc st' where r: "ngx_pfree (Some a) st = Some (rc, st')" "frame pool (fst st')"
    "pool_inv rest psize (if rc = NGX_OK then filter (\<lambda>r. fst r \<noteq> a) (cleanups pool @ objs) else cleanups pool @ objs) st'" "rc = NGX_OK \<longrightarrow> a \<in> set (large_allocs pool)"
    using pfree_inv [OF i(1), of a] st by auto
  have "fst r \<noteq> a" if "rc = NGX_OK" "r \<in> set (cleanups pool)" for r
    using in_blocks_not_large [of rest psize _ pool mem r] i st r(4) that by (auto simp: list_all_iff cleanups_def)
  then have "rc = NGX_OK \<Longrightarrow> filter (\<lambda>r. fst r \<noteq> a) (cleanups pool) = cleanups pool" by (simp add: filter_id_conv)
  then show ?thesis using r frame_cleanups [OF r(2) i(2)] Some by (auto simp: run_inv_def split: if_splits)
qed

section \<open>Runs\<close>

text \<open>
  A use of a pool: a sequence of calls, with the objects that were handed out and not given back. An owner of a cleanup may set its handler and data. A
  pool with cleanups is not reset, since \<open>ngx_reset_pool\<close> would leave their records in memory that is handed out again.
\<close>

inductive pool_step :: "system \<Rightarrow> pool_state \<times> region list \<Rightarrow> pool_state \<times> region list \<Rightarrow> bool" for os where
  palloc: "ngx_palloc os sz st = Some (p, st') \<Longrightarrow> pool_step os (st, objs) (st', new_obj p sz objs)"
| pnalloc: "ngx_pnalloc os sz st = Some (p, st') \<Longrightarrow> pool_step os (st, objs) (st', new_obj p sz objs)"
| pcalloc: "ngx_pcalloc os sz st = Some (p, st') \<Longrightarrow> pool_step os (st, objs) (st', new_obj p sz objs)"
| pmemalign: "ngx_pmemalign os sz al st = Some (p, st') \<Longrightarrow> pool_step os (st, objs) (st', new_obj p sz objs)"
| cleanup_add: "ngx_pool_cleanup_add os sz st = Some (c, st') \<Longrightarrow>
    pool_step os (st, objs) (st', if c = None then objs else new_obj (cl_data (hd (p_cleanup (fst st')))) sz objs)"
| set_cleanup: "i < length (p_cleanup pool) \<Longrightarrow>
    pool_step os ((pool, mem), objs) ((pool\<lparr>p_cleanup := (p_cleanup pool)[i := (p_cleanup pool ! i)\<lparr>cl_handler := h, cl_data := d\<rparr>]\<rparr>, mem), objs)"
| pfree: "ngx_pfree p st = Some (rc, st') \<Longrightarrow> pool_step os (st, objs) (st', if rc = NGX_OK then filter (\<lambda>r. Some (fst r) \<noteq> p) objs else objs)"
| reset: "p_cleanup (fst st) = [] \<Longrightarrow> ngx_reset_pool st = Some st' \<Longrightarrow> pool_step os (st, objs) (st', [])"

lemma set_cleanup_inv:
  assumes "run_inv rest psize objs (pool, mem)" "i < length (p_cleanup pool)"
  shows "run_inv rest psize objs (pool\<lparr>p_cleanup := (p_cleanup pool)[i := (p_cleanup pool ! i)\<lparr>cl_handler := h, cl_data := d\<rparr>]\<rparr>, mem)"
proof -
  have "cleanups (pool\<lparr>p_cleanup := (p_cleanup pool)[i := (p_cleanup pool ! i)\<lparr>cl_handler := h, cl_data := d\<rparr>]\<rparr>) = cleanups pool"
    using assms(2) by (simp add: cleanups_def map_update list_update_same_conv)
  then show ?thesis using assms(1) cleanup_inv by (simp add: run_inv_def in_blocks_def list_all_iff)
qed

lemma pool_step_inv:
  assumes "pool_step os (st, objs) (st', objs')" "run_inv rest psize objs st" "system_ok os"
  shows "run_inv rest psize objs' st'"
proof -
  have inv: "pool_inv rest psize (cleanups (fst st) @ objs) st" using assms(2) by (simp add: run_inv_def)
  show ?thesis
    using assms(1)
  proof cases
    case (palloc sz p)
    then show ?thesis using run_alloc [OF assms(2) palloc_result(1) [OF inv assms(3)]] by simp
  next
    case (pnalloc sz p)
    then show ?thesis using run_alloc [OF assms(2) palloc_result(2) [OF inv assms(3)]] by simp
  next
    case (pcalloc sz p)
    then show ?thesis using run_alloc [OF assms(2) pcalloc_result [OF inv assms(3)]] by simp
  next
    case (pmemalign sz al p)
    then show ?thesis using run_alloc [OF assms(2) pmemalign_result [OF inv assms(3)]] by simp
  next
    case (cleanup_add sz c)
    then show ?thesis using cleanup_result [OF assms(2,3)] by simp
  next
    case (set_cleanup i pool mem h d)
    then show ?thesis using set_cleanup_inv assms(2) by simp
  next
    case (pfree p rc)
    then show ?thesis using run_pfree [OF assms(2), of p] by auto
  next
    case reset
    then show ?thesis using reset_inv [OF inv] by (auto simp: run_inv_def cleanups_def)
  qed
qed

lemma pool_run_inv:
  assumes "(pool_step os)\<^sup>*\<^sup>* s s'" "run_inv rest psize (snd s) (fst s)" "system_ok os"
  shows "run_inv rest psize (snd s') (fst s')"
  using assms(1)
proof (induction rule: rtranclp_induct)
  case (step s1 s2)
  then show ?case using pool_step_inv [of os "fst s1" "snd s1" "fst s2" "snd s2"] assms(3) by simp
qed (rule assms(2))

lemma pool_runs:
  assumes "system_ok os" "sorted_wrt disj (live mem)" "distinct (map fst (live mem))" "NGX_MIN_POOL_SIZE \<le> sz" "16 dvd sz" "sz < 2 ^ 63"
    "ngx_create_pool os sz mem = (Some pool, mem')" "(pool_step os)\<^sup>*\<^sup>* ((pool, mem'), []) (st, objs)"
  shows "run_inv (set (live mem)) sz objs st"
proof -
  have "run_inv (set (live mem)) sz [] (pool, mem')" using create_inv [OF assms(7,1-6)] by (simp add: run_inv_def cleanups_def)
  then show ?thesis using pool_run_inv [OF assms(8) _ assms(1)] by simp
qed

lemma block_aligned:
  assumes "system_ok os" "ngx_palloc_block os sz st = (Some a, st')"
  shows "8 dvd a"
  using assms(2) align_8(2) by (auto simp: ngx_palloc_block_def Let_def split_def split: prod.splits option.splits)

lemma palloc_aligned:
  assumes "pool_inv rest psize objs (pool, mem)" "system_ok os" "ngx_palloc os sz (pool, mem) = Some (Some a, st')"
  shows "8 dvd a"
proof (cases "sz \<le> p_max pool")
  case True
  let ?bs = "drop (p_current pool) (p_blocks pool)"
  have wf: "list_all (block_ok psize) ?bs" "16 dvd psize" using assms(1) by (auto simp: pool_inv_def pool_wf_def list_all_iff dest: in_set_dropD)
  show ?thesis
  proof (cases "pool_scan True sz ?bs")
    case None
    then show ?thesis using assms(3) True block_aligned [OF assms(2)] by (simp add: ngx_palloc_def palloc_small_def)
  next
    case (Some r)
    then show ?thesis using assms(3) True pool_scan_Some [OF _ wf, of True sz] by (cases r) (auto simp: ngx_palloc_def palloc_small_def)
  qed
next
  case False
  then obtain p where p: "os (live mem) 16 sz = Some p" "a = p"
    using assms(3) by (auto simp: ngx_palloc_def ngx_palloc_large_def palloc_large_with.simps [of os sz] ngx_alloc_def ngx_memalign_def
        split: option.splits if_splits prod.splits bind_splits)
  then have "16 dvd a" using assms(2) by (auto simp: system_ok_def)
  then show ?thesis by presburger
qed

text \<open>
  C14: The objects of a pool. Let a pool have a size from \<open>NGX_MIN_POOL_SIZE\<close> on that is a multiple of 16. After any sequence of calls on the new pool, failing ones included, in
  which it is not reset while it has cleanups, the objects that were handed out and not given back are pairwise disjoint and
  apart from the data of the pool, which is the headers of its blocks, the entries of its large allocations and the records of its cleanups; they lie in memory that the
  pool got from the system; and the next \<open>ngx_palloc\<close> returns, with nothing or an address that is aligned.
\<close>
theorem ngx_pool_objects:
  assumes "system_ok os" "sorted_wrt disj (live mem)" "distinct (map fst (live mem))" "NGX_MIN_POOL_SIZE \<le> sz" "16 dvd sz" "sz < 2 ^ 63"
    "ngx_create_pool os sz mem = (Some pool, mem')" "(pool_step os)\<^sup>*\<^sup>* ((pool, mem'), []) ((pool2, mem2), objs)"
  shows "sorted_wrt disj (headers pool2 @ entries pool2 @ cleanups pool2 @ objs) \<and>
    (\<forall>r \<in> set objs. \<exists>q \<in> set (live mem2). q \<notin> set (live mem) \<and> inside r q) \<and>
    (\<forall>n. \<exists>p st. ngx_palloc os n (pool2, mem2) = Some (p, st) \<and> (\<forall>a. p = Some a \<longrightarrow> 8 dvd a))"
proof -
  have inv: "pool_inv (set (live mem)) sz (cleanups pool2 @ objs) (pool2, mem2)" using pool_runs [OF assms] by (simp add: run_inv_def)
  have wf: "pool_wf sz pool2" "mem_wf (set (live mem)) sz pool2 mem2" using inv by (auto simp: pool_inv_def)
  have "\<exists>q \<in> set (live mem2). q \<notin> set (live mem) \<and> inside r q" if "r \<in> set objs" for r
  proof -
    have "placed pool2 mem2 r" using inv that by (auto simp: pool_inv_def list_all_iff)
    then obtain q where "q \<in> set (live mem2)" "fst q \<in> set (owned pool2)" "inside r q" using placed_owned [OF wf] by blast
    then show ?thesis using wf(2) unfolding mem_wf_def by blast
  qed
  moreover have "\<exists>p st. ngx_palloc os n (pool2, mem2) = Some (p, st) \<and> (\<forall>a. p = Some a \<longrightarrow> 8 dvd a)" for n
    using palloc_result(1) [OF inv assms(1), of n] palloc_aligned [OF inv assms(1)] by (fastforce simp: alloc_result_def)
  moreover have "sorted_wrt disj (headers pool2 @ entries pool2 @ cleanups pool2 @ objs)" using inv by (simp add: pool_inv_def)
  ultimately show ?thesis by blast
qed

text \<open>
  C15: A pool frees what it took, once. After any such sequence of calls on a new pool \<open>ngx_destroy_pool\<close> returns, which means that it frees only addresses that
  are in use, and exactly those regions stay in use that were in use before the pool was created. \<open>ngx_pfree\<close> of any pointer and \<open>ngx_reset_pool\<close> do not free
  an address that is not in use either.
\<close>
theorem ngx_destroy_pool_frees:
  assumes "system_ok os" "sorted_wrt disj (live mem)" "distinct (map fst (live mem))" "NGX_MIN_POOL_SIZE \<le> sz" "16 dvd sz" "sz < 2 ^ 63"
    "ngx_create_pool os sz mem = (Some pool, mem')" "(pool_step os)\<^sup>*\<^sup>* ((pool, mem'), []) (st, objs)"
  shows "(\<exists>calls mem3. ngx_destroy_pool st = Some (calls, mem3) \<and> set (live mem3) = set (live mem)) \<and>
    (\<forall>p. ngx_pfree p st \<noteq> None) \<and> ngx_reset_pool st \<noteq> None"
proof -
  have run: "run_inv (set (live mem)) sz objs st" by (rule pool_runs [OF assms])
  then have inv: "pool_inv (set (live mem)) sz (cleanups (fst st) @ objs) st" by (simp add: run_inv_def)
  show ?thesis using destroy_live [OF inv] run_pfree [OF run] reset_inv [OF inv] by (metis option.distinct(1))
qed

section \<open>An allocator\<close>

text \<open>A system that hands out the first aligned address behind all regions in use.\<close>

definition bump_system :: system where
  "bump_system rs al n =
     (let a = ngx_align_ptr (fold (\<lambda>r e. max e (fst r + snd r + 1)) rs 4096) al
      in if 0 < al \<and> a + n < 2 ^ 64 then Some a else None)"

lemma align_ptr:
  assumes "0 < al"
  shows "p \<le> ngx_align_ptr p al" "al dvd ngx_align_ptr p al"
proof -
  have "(p + (al - 1)) mod al \<le> al - 1" using assms mod_less_divisor [of al "p + (al - 1)"] by linarith
  then show "p \<le> ngx_align_ptr p al" unfolding ngx_align_ptr_def by linarith
  show "al dvd ngx_align_ptr p al" unfolding ngx_align_ptr_def by (rule dvd_minus_mod)
qed

lemma fold_ends: "e \<le> fold (\<lambda>r e. max e (fst r + snd r + 1)) rs (e :: nat)"
proof (induction rs arbitrary: e)
  case (Cons r rs)
  have "e \<le> max e (fst r + snd r + 1)" by simp
  also have "\<dots> \<le> fold (\<lambda>r e. max e (fst r + snd r + 1)) rs (max e (fst r + snd r + 1))" by (rule Cons.IH)
  finally show ?case by simp
qed simp

lemma fold_ends_above: "r \<in> set rs \<Longrightarrow> fst r + snd r < fold (\<lambda>r e. max e (fst r + snd r + 1)) rs (e :: nat)"
proof (induction rs arbitrary: e)
  case (Cons s rs)
  then show ?case using fold_ends [of "max e (fst s + snd s + 1)" rs] by auto
qed simp

lemma bump_system_ok: "system_ok bump_system"
  unfolding system_ok_def
proof (intro allI impI)
  fix rs al n a assume os: "bump_system rs al n = Some a"
  let ?e = "fold (\<lambda>r e. max e (fst r + snd r + 1)) rs 4096"
  have a: "0 < al" "a = ngx_align_ptr ?e al" "a + n < 2 ^ 64" using os by (auto simp: bump_system_def Let_def split: if_splits)
  then have "?e \<le> a" "al dvd a" using align_ptr by simp_all
  then show "al dvd a \<and> a + n < 2 ^ 64 \<and> (\<forall>r \<in> set rs. disj (a, n) r \<and> fst r \<noteq> a)"
    using a(3) fold_ends_above [of _ rs 4096] by (fastforce simp: disj_def)
qed

text \<open>A pool of 128 bytes, with a small object, a large one and one in a second block.\<close>

abbreviation (input) sample_memory :: memory where
  "sample_memory \<equiv> \<lparr>live = [(64, 16)], content = (\<lambda>_. 0)\<rparr>"

abbreviation (input) sample_pool :: "nat \<Rightarrow> ngx_pool_data_t list \<Rightarrow> ngx_pool_large_t list \<Rightarrow> ngx_pool_t" where
  "sample_pool l bs ls \<equiv> \<lparr>p_blocks = \<lparr>pd_addr = 4096, pd_last = l, pd_end = 4224, pd_failed = 0\<rparr> # bs,
     p_max = 48, p_current = 0, p_large = ls, p_cleanup = []\<rparr>"

lemma sample_create:
  "ngx_create_pool bump_system 128 sample_memory = (Some (sample_pool 4176 [] []), sample_memory\<lparr>live := [(4096, 128), (64, 16)]\<rparr>)"
  by (simp add: ngx_create_pool_def ngx_memalign_def bump_system_def ngx_align_ptr_def)

lemma sample_palloc:
  "ngx_palloc bump_system 10 (sample_pool 4176 [] [], sample_memory\<lparr>live := [(4096, 128), (64, 16)]\<rparr>) =
     Some (Some 4176, sample_pool 4186 [] [], sample_memory\<lparr>live := [(4096, 128), (64, 16)]\<rparr>)"
  by (simp add: ngx_palloc_def palloc_small_def ngx_align_ptr_def)

lemma sample_palloc_large:
  "ngx_palloc bump_system 100 (sample_pool 4186 [] [], sample_memory\<lparr>live := [(4096, 128), (64, 16)]\<rparr>) =
     Some (Some 4240, sample_pool 4208 [] [\<lparr>lg_addr = 4192, lg_alloc = Some 4240\<rparr>], sample_memory\<lparr>live := [(4240, 100), (4096, 128), (64, 16)]\<rparr>)"
  by (simp add: ngx_palloc_def ngx_palloc_large_def palloc_large_with.simps [of _ 100] ngx_alloc_def ngx_memalign_def bump_system_def palloc_small_def large_push_def
      ngx_align_ptr_def)

lemma sample_palloc_block:
  "ngx_palloc bump_system 40 (sample_pool 4208 [] [\<lparr>lg_addr = 4192, lg_alloc = Some 4240\<rparr>], sample_memory\<lparr>live := [(4240, 100), (4096, 128), (64, 16)]\<rparr>) =
     Some (Some 4384, sample_pool 4208 [\<lparr>pd_addr = 4352, pd_last = 4424, pd_end = 4480, pd_failed = 0\<rparr>] [\<lparr>lg_addr = 4192, lg_alloc = Some 4240\<rparr>],
       sample_memory\<lparr>live := [(4352, 128), (4240, 100), (4096, 128), (64, 16)]\<rparr>)"
  by (simp add: ngx_palloc_def ngx_palloc_block_def ngx_memalign_def bump_system_def palloc_small_def ngx_align_ptr_def)

lemma sample_run:
  "(pool_step bump_system)\<^sup>*\<^sup>* ((sample_pool 4176 [] [], sample_memory\<lparr>live := [(4096, 128), (64, 16)]\<rparr>), [])
     ((sample_pool 4208 [\<lparr>pd_addr = 4352, pd_last = 4424, pd_end = 4480, pd_failed = 0\<rparr>] [\<lparr>lg_addr = 4192, lg_alloc = Some 4240\<rparr>],
       sample_memory\<lparr>live := [(4352, 128), (4240, 100), (4096, 128), (64, 16)]\<rparr>), [(4384, 40), (4240, 100), (4176, 10)])"
proof -
  note steps = pool_step.palloc [OF sample_palloc, of "[]"] pool_step.palloc [OF sample_palloc_large, of "[(4176, 10)]"]
    pool_step.palloc [OF sample_palloc_block, of "[(4240, 100), (4176, 10)]"]
  show ?thesis using steps [THEN r_into_rtranclp [of "pool_step bump_system"]] by (simp add: new_obj_def)
qed

theorem ngx_pool_objects_witness:
  "sorted_wrt disj [(4384, 40), (4240, 100), (4176 :: nat, 10 :: nat)]"
  using ngx_pool_objects [OF bump_system_ok _ _ _ _ _ sample_create sample_run] by (simp add: disj_def)

theorem ngx_destroy_pool_frees_witness:
  "\<exists>calls mem3. ngx_destroy_pool (sample_pool 4208 [\<lparr>pd_addr = 4352, pd_last = 4424, pd_end = 4480, pd_failed = 0\<rparr>] [\<lparr>lg_addr = 4192, lg_alloc = Some 4240\<rparr>],
     sample_memory\<lparr>live := [(4352, 128), (4240, 100), (4096, 128), (64, 16)]\<rparr>) = Some (calls, mem3) \<and> set (live mem3) = {(64, 16)}"
  using ngx_destroy_pool_frees [OF bump_system_ok _ _ _ _ _ sample_create sample_run] by simp

text \<open>To free a large allocation twice would not be noticed by a list of the regions, and is an error here.\<close>

lemma ngx_free_twice: "ngx_free a mem = Some mem' \<Longrightarrow> ngx_free a mem' = None"
  by (auto simp: ngx_free_def list_ex_iff split: if_splits)

text \<open>
  A block whose size is not a multiple of the alignment: the aligned address is behind the end, the difference is negative and becomes a large unsigned number,
  and memory behind the block is handed out.
\<close>

lemma pool_scan_behind_end:
  "pool_scan True 40 [\<lparr>pd_addr = 0, pd_last = 100, pd_end = 101, pd_failed = 0\<rparr>] = Some (104, [\<lparr>pd_addr = 0, pd_last = 144, pd_end = 101, pd_failed = 0\<rparr>])"
  by (simp add: ngx_align_ptr_def)

end
