(* ===== verification/Std_Map.thy ===== *)
theory Std_Map
  imports Main "HOL-Library.List_Lexorder"
begin

text \<open>
  \<open>std::map\<close>, as the recommendation engine uses it: a list of entries in ascending order of the keys.
  \<open>map_at\<close> is the value that \<open>operator[]\<close> refers to (the default value when the key is absent), \<open>map_put\<close>
  the assignment to \<open>m[k]\<close>. The laws of a map are a locale, in which the lemma on counters that are
  incremented one by one is proved.
\<close>

type_synonym ('k, 'v) std_map = "('k \<times> 'v) list"

abbreviation keys_sorted :: "('k :: linorder, 'v) std_map \<Rightarrow> bool" where
  "keys_sorted m \<equiv> sorted_wrt (<) (map fst m)"

fun map_put :: "'k :: linorder \<Rightarrow> 'v \<Rightarrow> ('k, 'v) std_map \<Rightarrow> ('k, 'v) std_map" where
  "map_put k v [] = [(k, v)]"
| "map_put k v ((a, b) # m) =
     (if k < a then (k, v) # (a, b) # m else if k = a then (k, v) # m else (a, b) # map_put k v m)"

definition map_at :: "'v \<Rightarrow> ('k, 'v) std_map \<Rightarrow> 'k \<Rightarrow> 'v" where
  "map_at d m k = (case map_of m k of None \<Rightarrow> d | Some v \<Rightarrow> v)"

definition lower_bound :: "'k :: linorder \<Rightarrow> ('k, 'v) std_map \<Rightarrow> ('k, 'v) std_map" where
  "lower_bound k m = dropWhile (\<lambda>(a, _). a < k) m"

lemma map_of_put [simp]: "map_of (map_put k v m) = (map_of m)(k \<mapsto> v)"
  by (induction m) auto

lemma map_put_keys: "set (map fst (map_put k v m)) = insert k (set (map fst m))"
proof (induction m)
  case (Cons x m)
  then show ?case by (cases x) (simp add: insert_commute)
qed simp

lemma map_put_sorted: "keys_sorted m \<Longrightarrow> keys_sorted (map_put k v m)"
proof (induction m)
  case (Cons x m)
  then show ?case using map_put_keys [of k v m] by (cases x) (auto simp: sorted_wrt_append)
qed simp

section \<open>The laws\<close>

locale map_laws =
  fixes mempty :: "'m" and look :: "'v \<Rightarrow> 'm \<Rightarrow> 'k \<Rightarrow> 'v" and put :: "'k \<Rightarrow> 'v \<Rightarrow> 'm \<Rightarrow> 'm" and inv :: "'m \<Rightarrow> bool"
  assumes look_empty: "look d mempty k = d"
    and look_put: "look d (put k v m) l = (if l = k then v else look d m l)"
    and inv_empty: "inv mempty"
    and inv_put: "inv m \<Longrightarrow> inv (put k v m)"
begin

text \<open>
  A fold that replaces the value of each key of a list by a function of it applies that function as often
  as the key occurs.
\<close>

definition bump :: "'v \<Rightarrow> ('v \<Rightarrow> 'v) \<Rightarrow> 'm \<Rightarrow> 'k list \<Rightarrow> 'm" where
  "bump d f m ks = foldl (\<lambda>m k. put k (f (look d m k)) m) m ks"

lemma bump_Cons [simp]: "bump d f m (k # ks) = bump d f (put k (f (look d m k)) m) ks"
  by (simp add: bump_def)

lemma bump_Nil [simp]: "bump d f m [] = m"
  by (simp add: bump_def)

lemma bump_look: "look d (bump d f m ks) k = (f ^^ count_list ks k) (look d m k)"
  by (induction ks arbitrary: m) (simp_all add: look_put funpow_swap1)

lemma bump_inv: "inv m \<Longrightarrow> inv (bump d f m ks)"
  by (induction ks arbitrary: m) (simp_all add: inv_put)

end

interpretation std: map_laws "[]" map_at map_put keys_sorted
  by unfold_locales (simp_all add: map_at_def map_put_sorted)

section \<open>The key behind a key\<close>

text \<open>In the order of strings, a string with a NUL appended is the successor of the string.\<close>

lemma succ_key: "k @ [0] \<le> l \<longleftrightarrow> k < (l :: 'a :: {linorder, zero} list)" if "\<And>x :: 'a. 0 \<le> x"
proof (induction k arbitrary: l)
  case Nil
  have "[] < l'" if "l' \<noteq> []" for l' :: "'a list" using that by (cases l') auto
  then show ?case using that by (cases l) (auto simp: le_less)
next
  case (Cons a k)
  show ?case
  proof (cases l)
    case (Cons b l')
    have "(a # k) @ [0] \<le> b # l' \<longleftrightarrow> a < b \<or> a = b \<and> k @ [0] \<le> l'" by (auto simp: le_less)
    also have "\<dots> \<longleftrightarrow> a # k < b # l'" using Cons.IH [of l'] by auto
    finally show ?thesis using Cons by simp
  qed simp
qed

end
