(* ===== verification/Aret_Engine.thy ===== *)
theory Aret_Engine
  imports Double Std_Map Decimal
begin

text \<open>
  The recommendation engine, src/aret/re_engine.cc. The tables of tera (src/aret/tera_easy.h declares their interface
  only) are parameters: \<open>read key\<close> is the result of \<open>Read\<close> with the record it fills, \<open>scan start end slice\<close>
  that of \<open>Scan\<close> with the slice it was given. A \<open>std::string\<close> is a list of bytes, \<open>std::map\<close> the type of Std_Map,
  an \<open>int\<close> a mathematical integer whose overflow is undefined. A result \<open>None\<close> is undefined behaviour
  of the code: an overflow, or the element at the end of an empty column.
\<close>

type_synonym cpp_string = "byte list"
type_synonym column = "(int, cpp_string) std_map"
type_synonym record_t = "(cpp_string, column) std_map"
type_synonym table_slice = "(cpp_string, record_t) std_map"
type_synonym read_fun = "cpp_string \<Rightarrow> bool \<times> record_t"
type_synonym scan_fun = "cpp_string \<Rightarrow> cpp_string \<Rightarrow> table_slice \<Rightarrow> bool \<times> table_slice"

section \<open>The standard library\<close>

definition int_ok :: "int \<Rightarrow> bool" where
  "int_ok n \<longleftrightarrow> - (2 ^ 31) \<le> n \<and> n < 2 ^ 31"

definition is_space :: "byte \<Rightarrow> bool" where
  "is_space c \<longleftrightarrow> c = 32 \<or> (9 \<le> c \<and> c \<le> 13)"

definition c_str :: "cpp_string \<Rightarrow> cpp_string" where
  "c_str s = takeWhile (\<lambda>c. c \<noteq> 0) s"

text \<open>\<open>atoi\<close>: white space, a sign, digits; undefined where the number is not an \<open>int\<close>.\<close>

definition c_atoi :: "cpp_string \<Rightarrow> int option" where
  "c_atoi s =
     (let s = dropWhile is_space (c_str s);
          neg = s \<noteq> [] \<and> hd s = ch CHR ''-'';
          s = (if s \<noteq> [] \<and> (hd s = ch CHR ''-'' \<or> hd s = ch CHR ''+'') then tl s else s);
          n = int (dec_value (takeWhile is_digit s));
          n = (if neg then - n else n)
      in if int_ok n then Some n else None)"

definition show_int :: "int \<Rightarrow> cpp_string" where
  "show_int n = (if n < 0 then ch CHR ''-'' # dec_show (nat (- n)) else dec_show (nat n))"

text \<open>\<open>find\<close> and \<open>rfind\<close> of a character; \<open>None\<close> is \<open>npos\<close>.\<close>

definition find_char :: "cpp_string \<Rightarrow> byte \<Rightarrow> nat option" where
  "find_char s c = (if c \<in> set s then Some (length (takeWhile (\<lambda>d. d \<noteq> c) s)) else None)"

definition rfind_char :: "cpp_string \<Rightarrow> byte \<Rightarrow> nat option \<Rightarrow> nat option" where
  "rfind_char s c pos =
     (let js = filter (\<lambda>i. s ! i = c) [0..<(case pos of None \<Rightarrow> length s | Some l \<Rightarrow> min (length s) (Suc l))]
      in if js = [] then None else Some (List.last js))"

definition is_infix :: "cpp_string \<Rightarrow> cpp_string \<Rightarrow> bool" where
  "is_infix s t \<longleftrightarrow> list_ex (\<lambda>i. take (length s) (drop i t) = s) [0..<Suc (length t)]"

definition dbl_to_int :: "rat \<Rightarrow> int option" where
  "dbl_to_int x = (let n = (if x < 0 then - floor (- x) else floor x) in if int_ok n then Some n else None)"

section \<open>Reading pages\<close>

definition page_of :: "record_t \<Rightarrow> cpp_string" where
  "page_of rec = (case map_at [] rec (bytes ''page'') of [] \<Rightarrow> [] | (_, htmlstr) # _ \<Rightarrow> htmlstr)"

text \<open>\<open>GetHtml\<close>: the result is \<open>html\<close> when the function returns true.\<close>

definition GetHtml :: "read_fun \<Rightarrow> cpp_string \<Rightarrow> cpp_string option" where
  "GetHtml web_read url =
     (let (ok, rec) = web_read url; html = (if ok \<and> rec \<noteq> [] then page_of rec else [])
      in if html \<noteq> [] then Some html else None)"

section \<open>Recommendations\<close>

text \<open>The output parameters, and the text of \<open>serr\<close>.\<close>

record rec_out =
  ro_urls :: "cpp_string list"
  ro_titles :: "cpp_string list"
  ro_tags :: "cpp_string list"
  ro_err :: cpp_string

abbreviation br :: cpp_string where "br \<equiv> bytes ''<br/>'' @ [10]"

text \<open>The loop of \<open>GetUrlForTag\<close> over the slice; \<open>ret\<close> counts the rows taken.\<close>

fun url_loop :: "cpp_string \<Rightarrow> int \<Rightarrow> table_slice \<Rightarrow> int \<Rightarrow> rec_out \<Rightarrow> int \<times> rec_out" where
  "url_loop tag num [] ret r = (ret, r)"
| "url_loop tag num ((row_key, row) # rows) ret r =
     (if \<not> ret < num then (ret, r)
      else if \<not> is_infix tag row_key then
        (ret, r\<lparr>ro_err := ro_err r @ bytes ''row_key '' @ row_key @ bytes '' find '' @ tag @ bytes ''fail '' @ br\<rparr>)
      else if row = [] then
        url_loop tag num rows ret (r\<lparr>ro_err := ro_err r @ bytes ''Empty row in user table<br/>''\<rparr>)
      else url_loop tag num rows (ret + 1)
        (r\<lparr>ro_urls := ro_urls r @ [map_at [] (map_at [] row (bytes ''url'')) 0],
            ro_titles := ro_titles r @ [map_at [] (map_at [] row (bytes ''title'')) 0]\<rparr>))"

definition GetUrlForTag :: "scan_fun \<Rightarrow> cpp_string \<Rightarrow> int \<Rightarrow> rec_out \<Rightarrow> int \<times> rec_out" where
  "GetUrlForTag scan tag num r =
     (let (ok, rows) = scan tag (bytes ''~'') []
      in if \<not> ok \<or> rows = [] then (0, r\<lparr>ro_err := ro_err r @ bytes ''Scan tagtable '' @ tag @ bytes ''fail '' @ br\<rparr>)
         else url_loop tag num rows 0 r)"

text \<open>\<open>record["url"].begin()->second\<close>; the begin of an empty column is its end.\<close>

definition first_value :: "record_t \<Rightarrow> cpp_string \<Rightarrow> cpp_string option" where
  "first_value rec key = (case map_at [] rec key of [] \<Rightarrow> None | (_, v) # _ \<Rightarrow> Some v)"

fun random_loop :: "int \<Rightarrow> table_slice \<Rightarrow> int \<Rightarrow> cpp_string \<Rightarrow> rec_out \<Rightarrow> (cpp_string \<times> rec_out) option" where
  "random_loop num [] n last_rand r = Some (last_rand, r)"
| "random_loop num ((row_key, rec) # rows) n last_rand r =
     (if \<not> n < num then Some (last_rand, r)
      else do {
        url \<leftarrow> first_value rec (bytes ''url'');
        title \<leftarrow> first_value rec (bytes ''title'');
        random_loop num rows (n + 1) (row_key @ [0])
          (r\<lparr>ro_urls := ro_urls r @ [url], ro_titles := ro_titles r @ [title], ro_tags := ro_tags r @ [row_key]\<rparr>)
      })"

text \<open>\<open>RandomRecommend\<close>, which always returns true; the static \<open>last_rand\<close> is an argument and a result.\<close>

definition RandomRecommend :: "scan_fun \<Rightarrow> int \<Rightarrow> cpp_string \<Rightarrow> rec_out \<Rightarrow> (cpp_string \<times> rec_out) option" where
  "RandomRecommend scan num last_rand r =
     (let (ok, rows) = scan last_rand (bytes ''~'') [];
          last_rand = (if ok then last_rand else []);
          rows = (if ok then rows else snd (scan last_rand (bytes ''~'') rows))
      in random_loop num rows 0 last_rand r)"

record TagItem =
  ti_num :: int
  ti_tag :: cpp_string

definition tag_item :: "cpp_string \<times> column \<Rightarrow> TagItem option" where
  "tag_item = (\<lambda>(ckey, col). do {
     n \<leftarrow> c_atoi (map_at [] col 0);
     Some \<lparr>ti_num = n, ti_tag = (case find_char ckey (ch CHR '':'') of None \<Rightarrow> ckey | Some pos \<Rightarrow> drop (pos + 1) ckey)\<rparr>
   })"

fun option_all :: "'a option list \<Rightarrow> 'a list option" where
  "option_all [] = Some []"
| "option_all (x # xs) = do { y \<leftarrow> x; ys \<leftarrow> option_all xs; Some (y # ys) }"

definition tag_items :: "record_t \<Rightarrow> TagItem list option" where
  "tag_items rec = option_all (map tag_item (takeWhile (\<lambda>(k, _). k < bytes ''tag~'') (lower_bound (bytes ''tag'') rec)))"

text \<open>\<open>static_cast<int>(prios[i] * di * num * recommend_radio)\<close>, at most 2; 0.7 is the nearest \<open>double\<close>.\<close>

definition tag_num :: "int \<Rightarrow> rat \<Rightarrow> int \<Rightarrow> int option" where
  "tag_num prio di num = do {
     n \<leftarrow> dbl_to_int (dbl (dbl (dbl (of_int prio * di) * of_int num) * dbl (7 / 10)));
     Some (if n > 2 then 2 else n)
   }"

fun tags_loop :: "scan_fun \<Rightarrow> (rat \<Rightarrow> cpp_string) \<Rightarrow> rat \<Rightarrow> int \<Rightarrow> TagItem list \<Rightarrow> rec_out \<Rightarrow> rec_out option" where
  "tags_loop scan fmt di num [] r = Some r"
| "tags_loop scan fmt di num (it # items) r = do {
     k \<leftarrow> tag_num (ti_num it) di num;
     let (n, r) = GetUrlForTag scan (ti_tag it) k r;
     let r = r\<lparr>ro_err := ro_err r @ bytes ''GetUrlForTag '' @ fmt (of_int (ti_num it)) @ bytes '' \"'' @ ti_tag it @
                 bytes ''\" '' @ show_int k @ bytes '' ret: '' @ show_int n @ br,
               ro_tags := ro_tags r @ replicate (nat n) (ti_tag it)\<rparr>;
     tags_loop scan fmt di num items r
   }"

text \<open>The prefix of a row key in front of its last two dashes.\<close>

definition trim_tag :: "cpp_string \<Rightarrow> cpp_string" where
  "trim_tag s =
     (case rfind_char s (ch CHR ''-'') None of
        None \<Rightarrow> s
      | Some pos \<Rightarrow>
          (case rfind_char s (ch CHR ''-'') (if pos = 0 then None else Some (pos - 1)) of
             None \<Rightarrow> s
           | Some pos \<Rightarrow> take pos s))"

text \<open>
  \<open>GetRecommend\<close>: \<open>sort_items\<close> is \<open>std::sort\<close> with the comparison of \<open>TagItem\<close>, which leaves the order of
  equal items open, and \<open>fmt\<close> the output of a \<open>double\<close> to a stream. The result has the returned boolean, the new
  \<open>last_rand\<close> and the output parameters.
\<close>

definition user_part ::
    "read_fun \<Rightarrow> scan_fun \<Rightarrow> (TagItem list \<Rightarrow> TagItem list) \<Rightarrow> (rat \<Rightarrow> cpp_string) \<Rightarrow> cpp_string \<Rightarrow> int \<Rightarrow> rec_out
     \<Rightarrow> (bool \<times> rec_out) option" where
  "user_part user_read scan sort_items fmt user num r =
     (let (ok, user_record) = user_read user
      in if ok \<and> user_record \<noteq> [] then do {
           items \<leftarrow> tag_items user_record;
           let items = take 5 (sort_items items);
           let all_prio = sum_list (map ti_num items);
           (if all_prio = 0 then Some (False, r\<lparr>ro_err := bytes ''No url can be Recommend: all_prio == 0''\<rparr>)
            else do {
              let di = dbl (1 / of_int all_prio);
              r \<leftarrow> tags_loop scan fmt di num items (r\<lparr>ro_err := ro_err r @ bytes ''di= '' @ fmt di @ br\<rparr>);
              Some (True, r)
            })
         }
         else Some (True, r))"

definition GetRecommend ::
    "read_fun \<Rightarrow> scan_fun \<Rightarrow> (TagItem list \<Rightarrow> TagItem list) \<Rightarrow> (rat \<Rightarrow> cpp_string) \<Rightarrow> cpp_string \<Rightarrow> int \<Rightarrow> cpp_string
     \<Rightarrow> (bool \<times> cpp_string \<times> rec_out) option" where
  "GetRecommend user_read scan sort_items fmt user num last_rand = do {
     (go, r) \<leftarrow> user_part user_read scan sort_items fmt user num \<lparr>ro_urls = [], ro_titles = [], ro_tags = [], ro_err = []\<rparr>;
     (if \<not> go then Some (False, last_rand, r)
      else do {
        (last_rand, r) \<leftarrow> RandomRecommend scan (num - int (length (ro_urls r))) last_rand r;
        let r = r\<lparr>ro_tags := map trim_tag (ro_tags r)\<rparr>;
        Some (True, last_rand, r\<lparr>ro_err := ro_err r @ bytes ''url_num: '' @ dec_show (length (ro_urls r)) @
          bytes '', title_num: '' @ dec_show (length (ro_titles r)) @ br\<rparr>)
      })
   }"

section \<open>Actions of users\<close>

datatype ActionType = AT_VIEW | AT_IGNORE | AT_LIKE | AT_DISLIKE | AT_ARRIVE

definition page_tags :: "read_fun \<Rightarrow> cpp_string list \<Rightarrow> cpp_string list" where
  "page_tags web_read content = concat (map (\<lambda>url. map snd (map_at [] (snd (web_read url)) (bytes ''tag''))) content)"

text \<open>The counter of a tag in the record of the user.\<close>

definition add_view :: "cpp_string \<Rightarrow> record_t \<Rightarrow> record_t option" where
  "add_view tag rec =
     (let now_tag = bytes ''tag:'' @ tag; col = map_at [] rec now_tag
      in if col = [] then Some (map_put now_tag [(0, bytes ''1'')] rec)
         else do {
           num \<leftarrow> c_atoi (map_at [] col 0);
           (if int_ok (num + 1) then Some (map_put now_tag (map_put 0 (show_int (num + 1)) col) rec) else None)
         })"

fun add_views :: "cpp_string list \<Rightarrow> record_t \<Rightarrow> record_t option" where
  "add_views [] rec = Some rec"
| "add_views (tag # tags) rec = do { rec \<leftarrow> add_view tag rec; add_views tags rec }"

text \<open>
  \<open>RecordActions\<close>, which always returns true: the record that is written to the user table under the key
  \<open>user\<close>, with the text of \<open>err\<close>; the inner \<open>None\<close> where nothing is written.
\<close>

definition RecordActions ::
    "read_fun \<Rightarrow> read_fun \<Rightarrow> cpp_string \<Rightarrow> ActionType \<Rightarrow> cpp_string list \<Rightarrow> (record_t \<times> cpp_string) option option" where
  "RecordActions web_read user_read user action content =
     (if action \<noteq> AT_VIEW then Some None
      else do {
        let tags = page_tags web_read content;
        rec \<leftarrow> add_views tags (snd (user_read user));
        Some (Some (rec, bytes ''tags num: '' @ dec_show (length tags) @ [10]))
      })"

end
