(* ===== verification/Aret_Engine_Props.thy ===== *)
theory Aret_Engine_Props
  imports Aret_Engine "HOL-Library.Multiset"
begin

text \<open>
  What the recommendation engine computes: counters of viewed tags that count, lists of recommendations of the same
  length and of the requested size, and the rows of the tag table that one call recommends.
\<close>

section \<open>Counters\<close>

lemma c_atoi_show:
  assumes "0 \<le> n" "n < 2 ^ 31"
  shows "c_atoi (show_int n) = Some n"
proof -
  let ?s = "dec_show (nat n)"
  have d: "\<And>c. c \<in> set ?s \<Longrightarrow> is_digit c" using dec_show_digits by (auto simp: list_all_iff)
  have nz: "is_digit c \<Longrightarrow> c \<noteq> 0 \<and> \<not> is_space c \<and> c \<noteq> ch CHR ''-'' \<and> c \<noteq> ch CHR ''+''" for c
    by (auto simp: is_digit_unat is_space_def byte_simps word_le_nat_alt)
  have "c_str ?s = ?s" unfolding c_str_def using d nz by (intro takeWhile_eq_all_conv [THEN iffD2]) blast
  moreover have "dropWhile is_space ?s = ?s" using d [of "hd ?s"] nz by (cases ?s) auto
  moreover have "hd ?s \<noteq> ch CHR ''-''" "hd ?s \<noteq> ch CHR ''+''" using d [of "hd ?s"] nz [of "hd ?s"] by auto
  moreover have digits: "takeWhile is_digit ?s = ?s" using d by (intro takeWhile_eq_all_conv [THEN iffD2]) blast
  moreover have "dec_value (takeWhile is_digit ?s) = nat n" unfolding digits by (rule dec_show_value)
  ultimately show ?thesis using assms by (simp add: c_atoi_def show_int_def int_ok_def Let_def)
qed

definition col_views :: "column \<Rightarrow> int option" where
  "col_views col = (if col = [] then Some 0 else c_atoi (map_at [] col 0))"

text \<open>The number of views of a tag in the record of a user; \<open>None\<close> where it is not a number.\<close>

definition views :: "record_t \<Rightarrow> cpp_string \<Rightarrow> int option" where
  "views rec tag = col_views (map_at [] rec (bytes ''tag:'' @ tag))"

definition bump_col :: "column \<Rightarrow> column" where
  "bump_col col = (if col = [] then [(0, bytes ''1'')] else map_put 0 (show_int (the (c_atoi (map_at [] col 0)) + 1)) col)"

lemma map_put_nonempty [simp]: "map_put k v m \<noteq> []"
  by (cases "(k, v, m)" rule: map_put.cases) auto

lemma col_views_bump:
  assumes "col_views col = Some n" "0 \<le> n" "n + 1 < 2 ^ 31"
  shows "col_views (bump_col col) = Some (n + 1)"
proof (cases "col = []")
  case True
  have "bytes ''1'' = show_int 1" by (simp add: show_int_def dec_show.simps byte_simps)
  then show ?thesis using True assms c_atoi_show [of 1] by (simp add: col_views_def bump_col_def map_at_def)
next
  case False
  then show ?thesis using assms c_atoi_show [of "n + 1"] by (simp add: col_views_def bump_col_def map_at_def)
qed

lemma col_views_bumps:
  assumes "col_views col = Some n" "0 \<le> n" "n + int k < 2 ^ 31"
  shows "col_views ((bump_col ^^ k) col) = Some (n + int k)"
  using assms
proof (induction k)
  case (Suc k)
  then show ?case using col_views_bump [of "(bump_col ^^ k) col" "n + int k"] by (simp add: algebra_simps)
qed simp

abbreviation bump_tags :: "cpp_string list \<Rightarrow> record_t \<Rightarrow> record_t" where
  "bump_tags tags rec \<equiv> std.bump [] bump_col rec (map ((@) (bytes ''tag:'')) tags)"

lemma add_view_bump:
  assumes "views rec tag = Some n" "0 \<le> n" "n + 1 < 2 ^ 31"
  shows "add_view tag rec = Some (bump_tags [tag] rec)"
  using assms by (auto simp: add_view_def Let_def views_def col_views_def bump_col_def int_ok_def split: if_splits)

lemma views_bump:
  assumes "views rec t = Some n" "0 \<le> n" "n + int (count_list tags t) < 2 ^ 31"
  shows "views (bump_tags tags rec) t = Some (n + int (count_list tags t))"
proof -
  have "count_list (map ((@) (bytes ''tag:'')) tags) (bytes ''tag:'' @ t) = count_list tags t"
    by (induction tags) auto
  then show ?thesis
    using col_views_bumps assms by (simp add: views_def std.bump_look)
qed

lemma add_views_bump:
  assumes "\<And>t. t \<in> set tags \<Longrightarrow> \<exists>n. views rec t = Some n \<and> 0 \<le> n \<and> n + int (count_list tags t) < 2 ^ 31"
  shows "add_views tags rec = Some (bump_tags tags rec)"
  using assms
proof (induction tags arbitrary: rec)
  case (Cons tag tags)
  obtain n where n: "views rec tag = Some n" "0 \<le> n" "n + int (count_list (tag # tags) tag) < 2 ^ 31"
    using Cons.prems by force
  have "n + 1 \<le> n + int (count_list (tag # tags) tag)" by simp
  then have one: "add_view tag rec = Some (bump_tags [tag] rec)" using n(3) by (intro add_view_bump [OF n(1,2)]) linarith
  have "add_views tags (bump_tags [tag] rec) = Some (bump_tags tags (bump_tags [tag] rec))"
  proof (rule Cons.IH)
    fix t assume t: "t \<in> set tags"
    obtain k where k: "views rec t = Some k" "0 \<le> k" "k + int (count_list (tag # tags) t) < 2 ^ 31"
      using Cons.prems [of t] t by auto
    then have "views (bump_tags [tag] rec) t = Some (k + int (count_list [tag] t))"
      by (intro views_bump) (auto split: if_splits)
    then show "\<exists>n. views (bump_tags [tag] rec) t = Some n \<and> 0 \<le> n \<and> n + int (count_list tags t) < 2 ^ 31"
      using k by (auto split: if_splits)
  qed
  then show ?case using one by simp
qed simp

text \<open>The entries of the record: those of other keys stay, and the column of a tag is that of the counter.\<close>

lemma bump_entry_other: "k \<notin> set ks \<Longrightarrow> map_of (std.bump d g m ks) k = map_of m k"
  by (induction ks arbitrary: m) auto

lemma bump_entry: "k \<in> set ks \<Longrightarrow> map_of (std.bump d g m ks) k = Some (map_at d (std.bump d g m ks) k)"
proof -
  assume k: "k \<in> set ks"
  have "map_of (std.bump d g m ks) k \<noteq> None"
    using k
  proof (induction ks arbitrary: m)
    case (Cons a ks)
    then show ?case by (cases "k \<in> set ks") (auto simp: bump_entry_other)
  qed simp
  then show ?thesis by (auto simp: map_at_def)
qed

lemma bump_cols:
  assumes "col_views col = Some n" "0 \<le> n" "n + int k < 2 ^ 31" "0 < k"
  shows "map_of ((bump_col ^^ k) col) = (map_of col)(0 \<mapsto> show_int (n + int k))" "keys_sorted col \<Longrightarrow> keys_sorted ((bump_col ^^ k) col)"
proof -
  have step: "map_of (bump_col c) = (map_of c)(0 \<mapsto> show_int (m + 1))" if "col_views c = Some m" for c m
  proof (cases "c = []")
    case True
    have "bytes ''1'' = show_int 1" by (simp add: show_int_def dec_show.simps byte_simps)
    then show ?thesis using True that by (simp add: bump_col_def col_views_def)
  next
    case False
    then show ?thesis using that by (simp add: bump_col_def col_views_def)
  qed
  have "map_of ((bump_col ^^ Suc j) col) = (map_of col)(0 \<mapsto> show_int (n + int (Suc j)))" if "Suc j \<le> k" for j
    using that
  proof (induction j)
    case 0
    then show ?case using step [OF assms(1)] by simp
  next
    case (Suc j)
    have "n + int (Suc j) < 2 ^ 31" using assms(3) Suc.prems by simp
    then have "col_views ((bump_col ^^ Suc j) col) = Some (n + int (Suc j))" by (rule col_views_bumps [OF assms(1,2)])
    from step [OF this] have "map_of ((bump_col ^^ Suc (Suc j)) col) = (map_of ((bump_col ^^ Suc j) col))(0 \<mapsto> show_int (n + int (Suc (Suc j))))"
      by (simp add: algebra_simps)
    then show ?case using Suc.IH Suc.prems by (simp only: Suc_leD fun_upd_upd)
  qed
  from this [of "k - 1"] show "map_of ((bump_col ^^ k) col) = (map_of col)(0 \<mapsto> show_int (n + int k))" using assms(4) by simp
  have "keys_sorted c \<Longrightarrow> keys_sorted (bump_col c)" for c by (simp add: bump_col_def map_put_sorted)
  then show "keys_sorted col \<Longrightarrow> keys_sorted ((bump_col ^^ k) col)" by (induction k) simp_all
qed

text \<open>
  The record after the views of \<open>tags\<close>: the columns of other keys are the same, and the column of a tag differs in its cell 0 only, which has the
  number of views.
\<close>

definition tag_key :: "cpp_string \<Rightarrow> cpp_string" where
  "tag_key t = bytes ''tag:'' @ t"

definition counted :: "cpp_string list \<Rightarrow> record_t \<Rightarrow> record_t \<Rightarrow> bool" where
  "counted tags rec rec' \<longleftrightarrow>
     (\<forall>t \<in> set tags. \<exists>n col. views rec t = Some n \<and> map_of rec' (tag_key t) = Some col \<and>
        map_of col = (map_of (map_at [] rec (tag_key t)))(0 \<mapsto> show_int (n + int (count_list tags t))) \<and>
        (keys_sorted (map_at [] rec (tag_key t)) \<longrightarrow> keys_sorted col)) \<and>
     (\<forall>k. k \<notin> tag_key ` set tags \<longrightarrow> map_of rec' k = map_of rec k) \<and>
     (keys_sorted rec \<longrightarrow> keys_sorted rec')"

lemma record_actions_counts:
  assumes tags: "tags = page_tags web_read content"
    and rec: "rec = snd (user_read user)"
    and ok: "\<And>t. t \<in> set tags \<Longrightarrow> \<exists>n. views rec t = Some n \<and> 0 \<le> n \<and> n + int (count_list tags t) < 2 ^ 31"
  shows "\<exists>rec'. RecordActions web_read user_read user AT_VIEW content =
        Some (Some (rec', bytes ''tags num: '' @ dec_show (length tags) @ [10])) \<and> counted tags rec rec'"
proof -
  let ?ks = "map ((@) (bytes ''tag:'')) tags"
  have "\<exists>n col. views rec t = Some n \<and> map_of (bump_tags tags rec) (tag_key t) = Some col \<and>
      map_of col = (map_of (map_at [] rec (tag_key t)))(0 \<mapsto> show_int (n + int (count_list tags t))) \<and>
      (keys_sorted (map_at [] rec (tag_key t)) \<longrightarrow> keys_sorted col)" if t: "t \<in> set tags" for t
  proof -
    obtain n where n: "views rec t = Some n" "0 \<le> n" "n + int (count_list tags t) < 2 ^ 31" using ok [OF t] by blast
    have c: "count_list ?ks (tag_key t) = count_list tags t" unfolding tag_key_def by (induction tags) auto
    have "0 < count_list tags t" using t by (simp add: count_list_0_iff zero_less_iff_neq_zero)
    moreover have "col_views (map_at [] rec (tag_key t)) = Some n" using n(1) by (simp add: views_def tag_key_def)
    moreover have "map_at [] (bump_tags tags rec) (tag_key t) = (bump_col ^^ count_list tags t) (map_at [] rec (tag_key t))"
      unfolding std.bump_look c ..
    moreover have "tag_key t \<in> set ?ks" using t by (auto simp: tag_key_def)
    ultimately show ?thesis using n bump_entry [of "tag_key t" ?ks "[]" bump_col rec] bump_cols by simp
  qed
  moreover have "map_of (bump_tags tags rec) k = map_of rec k" if "k \<notin> tag_key ` set tags" for k
    using that by (intro bump_entry_other) (auto simp: tag_key_def)
  ultimately have "counted tags rec (bump_tags tags rec)" using std.bump_inv [of rec] by (auto simp: counted_def)
  moreover have "RecordActions web_read user_read user AT_VIEW content =
      Some (Some (bump_tags tags rec, bytes ''tags num: '' @ dec_show (length tags) @ [10]))"
    using add_views_bump [of tags rec] ok by (simp add: RecordActions_def flip: tags rec)
  ultimately show ?thesis by blast
qed

text \<open>
  C30: Viewing pages counts their tags. Let \<open>tags\<close> be the tags of the viewed pages in the web table, and let the
  counters of these tags in the record of the user be numbers that stay below the largest \<open>int\<close>. Then
  \<open>RecordActions\<close> returns, and in the record that it writes the cell 0 of the column of every tag has the counter increased by the number of
  occurrences of the tag. All other cells of these columns, and all other columns, are as they were, no other column is added, and the order of the keys is kept. Other actions write nothing.
\<close>
theorem RecordActions_counts:
  assumes tags: "tags = page_tags web_read content"
    and rec: "rec = snd (user_read user)"
    and ok: "\<And>t. t \<in> set tags \<Longrightarrow> \<exists>n. views rec t = Some n \<and> 0 \<le> n \<and> n + int (count_list tags t) < 2 ^ 31"
  shows "(\<exists>rec'. RecordActions web_read user_read user AT_VIEW content =
        Some (Some (rec', bytes ''tags num: '' @ dec_show (length tags) @ [10])) \<and>
      (\<forall>t \<in> set tags. \<exists>n col. views rec t = Some n \<and> map_of rec' (tag_key t) = Some col \<and>
        map_of col = (map_of (map_at [] rec (tag_key t)))(0 \<mapsto> show_int (n + int (count_list tags t))) \<and>
        (keys_sorted (map_at [] rec (tag_key t)) \<longrightarrow> keys_sorted col)) \<and>
      (\<forall>k. k \<notin> tag_key ` set tags \<longrightarrow> map_of rec' k = map_of rec k) \<and>
      (keys_sorted rec \<longrightarrow> keys_sorted rec')) \<and>
    (\<forall>a. a \<noteq> AT_VIEW \<longrightarrow> RecordActions web_read user_read user a content = Some None)"
proof -
  obtain rec' where "RecordActions web_read user_read user AT_VIEW content =
      Some (Some (rec', bytes ''tags num: '' @ dec_show (length tags) @ [10]))" "counted tags rec rec'"
    using record_actions_counts [where tags = tags and rec = rec and user_read = user_read and user = user and web_read = web_read and content = content] assms by blast
  then show ?thesis by (auto simp: counted_def RecordActions_def)
qed

theorem RecordActions_counts_witness:
  "\<exists>rec' err. RecordActions (\<lambda>_. (True, [(bytes ''tag'', [(0, bytes ''a''), (1, bytes ''b'')])]))
      (\<lambda>_. (True, [(bytes ''tag:a'', [(0, bytes ''7'')])])) (bytes ''user'') AT_VIEW [bytes ''u''] = Some (Some (rec', err)) \<and>
    (\<exists>col. map_of rec' (tag_key (bytes ''a'')) = Some col \<and> map_of col 0 = Some (show_int 8))"
proof -
  let ?web = "\<lambda>_. (True, [(bytes ''tag'', [(0 :: int, bytes ''a''), (1, bytes ''b'')])])"
  let ?rec = "[(bytes ''tag:a'', [(0 :: int, bytes ''7'')])]"
  have tags: "page_tags ?web [bytes ''u''] = [bytes ''a'', bytes ''b'']" by (simp add: page_tags_def map_at_def)
  have v: "views ?rec (bytes ''a'') = Some 7" "views ?rec (bytes ''b'') = Some 0"
    "bytes ''a'' \<noteq> bytes ''b''" "bytes ''b'' \<noteq> bytes ''a''" by code_simp+
  have ok: "\<exists>n. views ?rec t = Some n \<and> 0 \<le> n \<and> n + int (count_list [bytes ''a'', bytes ''b''] t) < 2 ^ 31"
    if "t \<in> set [bytes ''a'', bytes ''b'']" for t
    using that v by auto
  let ?tags = "[bytes ''a'', bytes ''b'']"
  obtain rec' where r: "RecordActions ?web (\<lambda>_. (True, ?rec)) (bytes ''user'') AT_VIEW [bytes ''u''] = Some (Some (rec', bytes ''tags num: '' @ dec_show (length ?tags) @ [10]))"
    "\<forall>t \<in> set ?tags. \<exists>n col. views ?rec t = Some n \<and> map_of rec' (tag_key t) = Some col \<and>
        map_of col = (map_of (map_at [] ?rec (tag_key t)))(0 \<mapsto> show_int (n + int (count_list ?tags t)))"
    using RecordActions_counts [of ?tags ?web "[bytes ''u'']" ?rec "\<lambda>_. (True, ?rec)" "bytes ''user''", OF _ _ ok] unfolding tags by auto
  obtain n col where n: "views ?rec (bytes ''a'') = Some n" "map_of rec' (tag_key (bytes ''a'')) = Some col"
    "map_of col = (map_of (map_at [] ?rec (tag_key (bytes ''a''))))(0 \<mapsto> show_int (n + int (count_list ?tags (bytes ''a''))))"
    using r(2) by (meson list.set_intros(1))
  have "n + int (count_list ?tags (bytes ''a'')) = 8" using n(1) v by simp
  then show ?thesis using r(1) n(2,3) by auto
qed

section \<open>The walk through the tag table\<close>

lemma byte_nonneg: "(0 :: byte) \<le> x"
  by simp

text \<open>A row can be recommended if it has a URL and a title; the code reads the element behind an empty column otherwise.\<close>

definition has_page :: "cpp_string \<times> record_t \<Rightarrow> bool" where
  "has_page row \<longleftrightarrow> first_value (snd row) (bytes ''url'') \<noteq> None \<and> first_value (snd row) (bytes ''title'') \<noteq> None"

definition row_value :: "cpp_string \<Rightarrow> cpp_string \<times> record_t \<Rightarrow> cpp_string" where
  "row_value col row = the (first_value (snd row) col)"

definition give_rows :: "table_slice \<Rightarrow> rec_out \<Rightarrow> rec_out" where
  "give_rows rows r = r\<lparr>ro_urls := ro_urls r @ map (row_value (bytes ''url'')) rows,
     ro_titles := ro_titles r @ map (row_value (bytes ''title'')) rows, ro_tags := ro_tags r @ map fst rows\<rparr>"

lemma random_loop_take:
  "random_loop num rows n l r =
     (let taken = take (nat (num - n)) rows
      in if list_all has_page taken then Some (if taken = [] then l else fst (List.last taken) @ [0], give_rows taken r) else None)"
proof (induction num rows n l r rule: random_loop.induct)
  case (2 num k rec rows n l r)
  show ?case
  proof (cases "n < num \<and> has_page (k, rec)")
    case True
    then have "n < num" by simp
    then have "nat (num - n) = Suc (nat (num - (n + 1)))" by simp
    moreover obtain u t where fv: "first_value rec (bytes ''url'') = Some u" "first_value rec (bytes ''title'') = Some t" using True by (auto simp: has_page_def)
    moreover note 2 [OF _ fv]
    ultimately show ?thesis using True by (auto simp: Let_def give_rows_def row_value_def)
  next
    case False
    moreover have "n < num \<Longrightarrow> take (nat (num - n)) ((k, rec) # rows) = (k, rec) # take (nat (num - n) - 1) rows" by (simp add: take_Cons')
    ultimately show ?thesis by (cases "n < num") (auto simp: has_page_def Let_def give_rows_def split: option.splits bind_splits)
  qed
qed (simp add: give_rows_def)

text \<open>
  C32: One call of \<open>RandomRecommend\<close>, whatever \<open>Scan\<close> returns. The slice is that of a scan from \<open>last_rand\<close> on or, only where this fails, of a second one from
  the empty key on. The first \<open>num\<close> rows of the slice (none for a negative number) are appended to the results, each with the first value of its columns \<open>url\<close> and \<open>title\<close>
  and with its key as the tag, and one of them without such a value is undefined behaviour. The new \<open>last_rand\<close> is the least key behind that of the last row that was given; it is unchanged, or empty after
  the second scan, where no row was given.
\<close>
theorem RandomRecommend_rows:
  assumes "scan last_rand (bytes ''~'') [] = (ok, rows1)"
    and "start = (if ok then last_rand else [])" "rows = (if ok then rows1 else snd (scan [] (bytes ''~'') rows1))" "taken = take (nat num) rows"
  shows "if list_all has_page taken
    then \<exists>l. RandomRecommend scan num last_rand r = Some (l, give_rows taken r) \<and>
      (if taken = [] then l = start else (\<forall>k. l \<le> k \<longleftrightarrow> fst (List.last taken) < k))
    else RandomRecommend scan num last_rand r = None"
proof -
  have "RandomRecommend scan num last_rand r = random_loop num rows 0 start r" using assms(1-3) by (simp add: RandomRecommend_def)
  also have "\<dots> = (if list_all has_page taken then Some (if taken = [] then start else fst (List.last taken) @ [0], give_rows taken r) else None)"
    unfolding random_loop_take Let_def assms(4) by simp
  finally show ?thesis using succ_key [OF byte_nonneg, of "fst (List.last taken)"] by auto
qed

theorem RandomRecommend_rows_witness:
  "\<exists>l. RandomRecommend (\<lambda>start stop rows. (start = [], [(bytes ''a'', [(bytes ''title'', [(0, bytes ''ta'')]), (bytes ''url'', [(0, bytes ''ua'')])]),
         (bytes ''b'', [])])) 1 (bytes ''x'') \<lparr>ro_urls = [], ro_titles = [], ro_tags = [], ro_err = []\<rparr> =
      Some (l, \<lparr>ro_urls = [bytes ''ua''], ro_titles = [bytes ''ta''], ro_tags = [bytes ''a''], ro_err = []\<rparr>) \<and> (\<forall>k. l \<le> k \<longleftrightarrow> bytes ''a'' < k)"
proof -
  let ?rows = "[(bytes ''a'', [(bytes ''title'', [(0 :: int, bytes ''ta'')]), (bytes ''url'', [(0, bytes ''ua'')])]), (bytes ''b'', [])]"
  let ?r = "\<lparr>ro_urls = [], ro_titles = [], ro_tags = [], ro_err = []\<rparr>"
  have t: "take (nat 1) ?rows = [hd ?rows]" by simp
  have "has_page (hd ?rows)" by code_simp
  moreover have "give_rows [hd ?rows] ?r = \<lparr>ro_urls = [bytes ''ua''], ro_titles = [bytes ''ta''], ro_tags = [bytes ''a''], ro_err = []\<rparr>" by code_simp
  moreover have "bytes ''x'' \<noteq> []" by (simp add: byte_simps)
  ultimately show ?thesis
    using RandomRecommend_rows [of "\<lambda>start stop rows. (start = [], ?rows)" "bytes ''x''" False ?rows "[]" ?rows "take (nat 1) ?rows" 1 ?r] unfolding t by simp
qed

text \<open>
  The walk through the table. Where \<open>Scan\<close> returns the rows of a fixed table between its bounds in the order of the keys, a call gives the next rows with a key below \<open>"~"\<close>, and leaves a \<open>last_rand\<close>
  from which exactly the remaining ones are found. Rows with a key from \<open>"~"\<close> on are never given, and after the last row nothing is given any more, since an empty
  slice is not a failure.
\<close>

definition rows_from :: "table_slice \<Rightarrow> cpp_string \<Rightarrow> table_slice" where
  "rows_from rows start = filter (\<lambda>(k, _). start \<le> k \<and> k < bytes ''~'') rows"

lemma rows_from_next:
  assumes "keys_sorted rows" "n \<noteq> 0" "rows_from rows l \<noteq> []"
  shows "rows_from rows (List.last (map fst (take n (rows_from rows l))) @ [0]) = drop n (rows_from rows l)"
proof -
  let ?f = "rows_from rows l"
  define k where "k = List.last (map fst (take n ?f))"
  have ne: "take n ?f \<noteq> []" using assms by simp
  have sf: "keys_sorted ?f" using assms(1) by (auto simp: rows_from_def sorted_wrt_map intro: sorted_wrt_filter)
  then have st: "sorted_wrt (<) (map fst (take n ?f) @ map fst (drop n ?f))" by (metis append_take_drop_id map_append)
  have k: "k \<in> set (map fst (take n ?f))" using ne unfolding k_def by (intro last_in_set) simp
  have le: "x \<le> k" if "x \<in> set (map fst (take n ?f))" for x
  proof -
    obtain ys where ys: "map fst (take n ?f) = ys @ [k]"
      using ne unfolding k_def by (metis append_butlast_last_id map_is_Nil_conv)
    have "sorted_wrt (<) (ys @ [k])" using st unfolding ys by (simp add: sorted_wrt_append)
    then show ?thesis using that unfolding ys by (auto simp: sorted_wrt_append)
  qed
  have gt: "k < x" if "x \<in> set (map fst (drop n ?f))" for x
    using st k that by (auto simp: sorted_wrt_append)
  have lk: "l \<le> k" using k by (auto simp: rows_from_def dest: in_set_takeD)
  have "rows_from rows (k @ [0]) = filter (\<lambda>(x, _). k < x) ?f"
    using lk by (auto simp: rows_from_def succ_key [OF byte_nonneg] intro!: filter_cong)
  also have "\<dots> = filter (\<lambda>(x, _). k < x) (take n ?f) @ filter (\<lambda>(x, _). k < x) (drop n ?f)"
    by (metis append_take_drop_id filter_append)
  also have "filter (\<lambda>(x, _). k < x) (take n ?f) = []" using le by (force simp: filter_empty_conv)
  also have "filter (\<lambda>(x, _). k < x) (drop n ?f) = drop n ?f" using gt by (force simp: filter_id_conv)
  finally show ?thesis by (simp add: k_def)
qed

lemma RandomRecommend_walk:
  assumes "keys_sorted rows" "scan l (bytes ''~'') [] = (True, rows_from rows l)" "list_all has_page rows"
  shows "\<exists>l'. RandomRecommend scan num l r = Some (l', give_rows (take (nat num) (rows_from rows l)) r) \<and>
    rows_from rows l' = drop (nat num) (rows_from rows l)"
proof -
  let ?taken = "take (nat num) (rows_from rows l)"
  have "list_all has_page ?taken" using assms(3) by (auto simp: list_all_iff rows_from_def dest: in_set_takeD)
  then have run: "RandomRecommend scan num l r = Some (if ?taken = [] then l else fst (List.last ?taken) @ [0], give_rows ?taken r)"
    using assms(2) by (simp add: RandomRecommend_def random_loop_take Let_def)
  moreover have "rows_from rows (fst (List.last ?taken) @ [0]) = drop (nat num) (rows_from rows l)" if "?taken \<noteq> []"
    using that rows_from_next [OF assms(1), of "nat num" l] by (simp add: last_map)
  ultimately show ?thesis by auto
qed

end
