(* ===== verification/Aret_Recommend.thy ===== *)
theory Aret_Recommend
  imports Aret_Engine_Props
begin

text \<open>
  The size of the answer of \<open>GetRecommend\<close>: the products of the rounded \<open>double\<close> arithmetic stay in the range of an
  \<open>int\<close>, every tag gives at most two URLs, and \<open>RandomRecommend\<close> fills the rest.
\<close>

section \<open>The number of URLs of a tag\<close>

lemma tag_num_ok:
  assumes "0 \<le> p" "p \<le> a" "0 < a" "0 \<le> num" "num \<le> 10 ^ 7"
  shows "\<exists>k. tag_num p (dbl (1 / of_int a)) num = Some k \<and> k \<le> 2"
proof -
  define x where "x = dbl (of_int p * dbl (1 / of_int a))"
  define y where "y = dbl (x * of_int num)"
  define z where "z = dbl (y * dbl (7 / 10))"
  have d: "0 \<le> dbl (1 / of_int a)" "dbl (1 / of_int a) \<le> 2 * (1 / of_int a)" using assms by (intro dbl_bounds; simp)+
  have pa: "of_int p / of_int a \<le> (1 :: rat)" using assms by (simp add: divide_le_eq_1)
  have "of_int p * dbl (1 / of_int a) \<le> of_int p * (2 * (1 / of_int a))" using assms d by (intro mult_left_mono) auto
  also have "of_int p * (2 * (1 / of_int a)) = 2 * (of_int p / (of_int a :: rat))" by simp
  finally have "of_int p * dbl (1 / of_int a) \<le> 2" using pa by linarith
  moreover have "0 \<le> of_int p * dbl (1 / of_int a)" using assms d by simp
  ultimately have x: "0 \<le> x" "x \<le> 4" using dbl_bounds [of "of_int p * dbl (1 / of_int a)"] unfolding x_def by auto
  have num: "0 \<le> (of_int num :: rat)" "(of_int num :: rat) \<le> 10 ^ 7" using assms by (simp, metis of_int_le_iff of_int_numeral of_int_power)
  have "x * of_int num \<le> 4 * 10 ^ 7" using x num by (intro mult_mono) auto
  moreover have "0 \<le> x * of_int num" using x num by simp
  ultimately have y: "0 \<le> y" "y \<le> 8 * 10 ^ 7" using dbl_bounds [of "x * of_int num"] unfolding y_def by auto
  have s: "0 \<le> dbl (7 / 10)" "dbl (7 / 10) \<le> 2 * (7 / 10)" by (intro dbl_bounds; simp)+
  have "y * dbl (7 / 10) \<le> 8 * 10 ^ 7 * (2 * (7 / 10))" using y s by (intro mult_mono) auto
  moreover have "0 \<le> y * dbl (7 / 10)" using y s by simp
  ultimately have z: "0 \<le> z" "z \<le> 2 * (8 * 10 ^ 7 * (2 * (7 / 10)))" using dbl_bounds [of "y * dbl (7 / 10)"] unfolding z_def by auto
  then have "0 \<le> \<lfloor>z\<rfloor>" "\<lfloor>z\<rfloor> < 2 ^ 31" by (simp_all add: floor_less_iff)
  then have "dbl_to_int z = Some \<lfloor>z\<rfloor>" using z by (simp add: dbl_to_int_def int_ok_def)
  then show ?thesis by (simp add: tag_num_def flip: x_def y_def z_def)
qed

section \<open>Lengths\<close>

definition aligned :: "rec_out \<Rightarrow> bool" where
  "aligned r \<longleftrightarrow> length (ro_titles r) = length (ro_urls r) \<and> length (ro_tags r) = length (ro_urls r)"

lemma url_loop_grows:
  "url_loop tag num rows ret r = (n, r') \<Longrightarrow> ret \<le> n \<and> n \<le> max ret num \<and> ro_tags r' = ro_tags r \<and>
     int (length (ro_urls r')) = int (length (ro_urls r)) + (n - ret) \<and>
     int (length (ro_titles r')) = int (length (ro_titles r)) + (n - ret)"
proof (induction tag num rows ret r rule: url_loop.induct)
  case (2 tag num row_key row rows ret r)
  consider "\<not> ret < num \<or> \<not> is_infix tag row_key" | "ret < num" "is_infix tag row_key" "row = []"
    | "ret < num" "is_infix tag row_key" "row \<noteq> []" by blast
  then show ?case
  proof cases
    case 3
    then show ?thesis using 2(2) [OF _ _ 3(3)] 2(3) by auto
  qed (use 2 in \<open>auto split: if_splits\<close>)
qed auto

lemma GetUrlForTag_grows:
  assumes "GetUrlForTag scan tag k r = (n, r')"
  shows "0 \<le> n \<and> n \<le> max 0 k \<and> ro_tags r' = ro_tags r \<and> length (ro_urls r') = length (ro_urls r) + nat n \<and>
    length (ro_titles r') = length (ro_titles r) + nat n"
proof -
  obtain ok rows where sc: "scan tag (bytes ''~'') [] = (ok, rows)" by (cases "scan tag (bytes ''~'') []")
  show ?thesis
  proof (cases "\<not> ok \<or> rows = []")
    case True
    then show ?thesis using assms sc by (auto simp: GetUrlForTag_def)
  next
    case False
    then have "url_loop tag k rows 0 r = (n, r')" using assms sc by (auto simp: GetUrlForTag_def)
    then show ?thesis using url_loop_grows [of tag k rows 0 r n r'] by auto
  qed
qed

lemma tags_loop_ok:
  assumes "\<And>it. it \<in> set items \<Longrightarrow> \<exists>k. tag_num (ti_num it) di num = Some k \<and> k \<le> 2" "aligned r"
  shows "\<exists>r'. tags_loop scan fmt di num items r = Some r' \<and> aligned r' \<and> length (ro_urls r') \<le> length (ro_urls r) + 2 * length items"
  using assms
proof (induction items arbitrary: r)
  case (Cons it items)
  obtain k where k: "tag_num (ti_num it) di num = Some k" "k \<le> 2" using Cons.prems(1) [of it] by auto
  obtain n r1 where g: "GetUrlForTag scan (ti_tag it) k r = (n, r1)" by (cases "GetUrlForTag scan (ti_tag it) k r")
  note grows = GetUrlForTag_grows [OF g]
  let ?r = "r1\<lparr>ro_err := ro_err r1 @ bytes ''GetUrlForTag '' @ fmt (of_int (ti_num it)) @ bytes '' \"'' @ ti_tag it @
                 bytes ''\" '' @ show_int k @ bytes '' ret: '' @ show_int n @ br,
               ro_tags := ro_tags r1 @ replicate (nat n) (ti_tag it)\<rparr>"
  have "aligned ?r" using Cons.prems(2) grows by (simp add: aligned_def)
  then obtain r' where "tags_loop scan fmt di num items ?r = Some r'" "aligned r'"
    "length (ro_urls r') \<le> length (ro_urls ?r) + 2 * length items"
    using Cons.IH [of ?r] Cons.prems(1) by auto
  then show ?case using k g grows by auto
qed simp

lemma random_loop_ok:
  assumes "\<And>k rec. (k, rec) \<in> set rows \<Longrightarrow> first_value rec (bytes ''url'') \<noteq> None \<and> first_value rec (bytes ''title'') \<noteq> None" "aligned r"
  shows "\<exists>l' r'. random_loop num rows n l r = Some (l', r') \<and> aligned r' \<and>
    length (ro_urls r') = length (ro_urls r) + min (nat (num - n)) (length rows)"
  using assms
proof (induction num rows n l r rule: random_loop.induct)
  case (2 num k rec rows n l r)
  show ?case
  proof (cases "n < num")
    case True
    obtain u t where ut: "first_value rec (bytes ''url'') = Some u" "first_value rec (bytes ''title'') = Some t"
      using 2(2) [of k rec] by auto
    have "nat (num - n) = Suc (nat (num - (n + 1)))" using True by simp
    moreover have "first_value rec (bytes ''url'') \<noteq> None \<and> first_value rec (bytes ''title'') \<noteq> None"
      if "(k, rec) \<in> set rows" for k rec
      using 2(2) that by auto
    note 2(1) [OF _ ut this]
    ultimately show ?thesis using 2(3) True ut by (auto simp: aligned_def)
  qed (use 2 in simp)
qed simp

lemma RandomRecommend_ok:
  assumes "\<And>s rows k rec. (k, rec) \<in> set (snd (scan s (bytes ''~'') rows)) \<Longrightarrow>
      first_value rec (bytes ''url'') \<noteq> None \<and> first_value rec (bytes ''title'') \<noteq> None" "aligned r"
  shows "\<exists>l' r'. RandomRecommend scan num l r = Some (l', r') \<and> aligned r' \<and>
    length (ro_urls r') \<le> length (ro_urls r) + nat num \<and>
    (fst (scan l (bytes ''~'') []) \<and> num \<le> int (length (snd (scan l (bytes ''~'') []))) \<longrightarrow>
       length (ro_urls r') = length (ro_urls r) + nat num)"
proof -
  obtain ok rows where sc: "scan l (bytes ''~'') [] = (ok, rows)" by (cases "scan l (bytes ''~'') []")
  define rows' where "rows' = (if ok then rows else snd (scan [] (bytes ''~'') rows))"
  have "first_value rec (bytes ''url'') \<noteq> None \<and> first_value rec (bytes ''title'') \<noteq> None" if "(k, rec) \<in> set rows'" for k rec
    using that assms(1) [of k rec l "[]"] assms(1) [of k rec "[]" rows] sc by (auto simp: rows'_def split: if_splits)
  then have "\<exists>l' r'. random_loop num rows' 0 (if ok then l else []) r = Some (l', r') \<and> aligned r' \<and>
      length (ro_urls r') = length (ro_urls r) + min (nat num) (length rows')"
    using random_loop_ok [of rows' r num 0] assms(2) by simp
  moreover have "RandomRecommend scan num l r = random_loop num rows' 0 (if ok then l else []) r"
    using sc by (simp add: RandomRecommend_def rows'_def Let_def)
  ultimately show ?thesis using sc by (auto simp: rows'_def)
qed

lemma sum_list_ge:
  fixes xs :: "int list"
  assumes "\<And>x. x \<in> set xs \<Longrightarrow> 0 \<le> x" "x \<in> set xs"
  shows "x \<le> sum_list xs"
  using assms
proof (induction xs)
  case (Cons y xs)
  have "0 \<le> sum_list xs" using Cons.prems(1) by (intro sum_list_nonneg) simp
  then show ?case using Cons by force
qed simp

lemma user_part_ok:
  assumes read: "\<And>rec. user_read user = (True, rec) \<Longrightarrow> \<exists>items. tag_items rec = Some items \<and> (\<forall>it\<in>set items. 0 \<le> ti_num it)"
    and sort: "\<And>items. mset (sort_items items) = mset items" and num: "0 \<le> num" "num \<le> 10 ^ 7"
    and r: "aligned r" "ro_urls r = []"
  shows "\<exists>go r'. user_part user_read scan sort_items fmt user num r = Some (go, r') \<and> aligned r' \<and>
    length (ro_urls r') \<le> 10 \<and> (\<not> go \<longrightarrow> ro_urls r' = [])"
proof -
  obtain ok rec where u: "user_read user = (ok, rec)" by (cases "user_read user")
  show ?thesis
  proof (cases "ok \<and> rec \<noteq> []")
    case False
    then show ?thesis using u r by (auto simp: user_part_def)
  next
    case True
    then obtain items where items: "tag_items rec = Some items" "\<And>it. it \<in> set items \<Longrightarrow> 0 \<le> ti_num it" using read u by auto
    define its where "its = take 5 (sort_items items)"
    define a where "a = sum_list (map ti_num its)"
    have "set its \<subseteq> set items" using sort [of items] set_take_subset unfolding its_def by (metis set_mset_mset)
    then have nn: "\<And>it. it \<in> set its \<Longrightarrow> 0 \<le> ti_num it" using items(2) by blast
    have le: "ti_num it \<le> a" if "it \<in> set its" for it
      unfolding a_def using that nn by (intro sum_list_ge) auto
    have len: "length its \<le> 5" by (simp add: its_def)
    show ?thesis
    proof (cases "a = 0")
      case True
      then have "user_part user_read scan sort_items fmt user num r =
          Some (False, r\<lparr>ro_err := bytes ''No url can be Recommend: all_prio == 0''\<rparr>)"
        using \<open>ok \<and> rec \<noteq> []\<close> u items(1) by (simp add: user_part_def Let_def flip: its_def a_def)
      then show ?thesis using r by (auto simp: aligned_def)
    next
      case False
      let ?di = "dbl (1 / of_int a)"
      let ?r = "r\<lparr>ro_err := ro_err r @ bytes ''di= '' @ fmt ?di @ br\<rparr>"
      have pos: "0 < a" using False sum_list_nonneg [of "map ti_num its"] nn unfolding a_def by fastforce
      have "\<exists>k. tag_num (ti_num it) ?di num = Some k \<and> k \<le> 2" if "it \<in> set its" for it
        using nn [OF that] le [OF that] pos num by (rule tag_num_ok)
      then obtain r' where "tags_loop scan fmt ?di num its ?r = Some r'" "aligned r'" "length (ro_urls r') \<le> 2 * length its"
        using tags_loop_ok [of its ?di num ?r scan fmt] r by (auto simp: aligned_def)
      then show ?thesis
        using True False u items(1) len by (auto simp: user_part_def Let_def simp flip: its_def a_def)
    qed
  qed
qed

text \<open>
  The tables as the engine expects them: counters that are numbers and not negative, and rows of the tag table
  with a URL and a title.
\<close>

definition user_ok :: "read_fun \<Rightarrow> cpp_string \<Rightarrow> bool" where
  "user_ok user_read user \<longleftrightarrow>
     (\<forall>rec. user_read user = (True, rec) \<longrightarrow> (\<exists>items. tag_items rec = Some items \<and> (\<forall>it\<in>set items. 0 \<le> ti_num it)))"

definition table_ok :: "scan_fun \<Rightarrow> bool" where
  "table_ok scan \<longleftrightarrow>
     (\<forall>s rows k rec. (k, rec) \<in> set (snd (scan s (bytes ''~'') rows)) \<longrightarrow>
        first_value rec (bytes ''url'') \<noteq> None \<and> first_value rec (bytes ''title'') \<noteq> None)"

lemma recommend_size:
  assumes read: "user_ok user_read user"
    and rows: "table_ok scan"
    and sort: "\<And>items. mset (sort_items items) = mset items" and num: "10 \<le> num" "num \<le> 10 ^ 7"
  shows "\<exists>ok l r. GetRecommend user_read scan sort_items fmt user num last_rand = Some (ok, l, r) \<and>
    length (ro_titles r) = length (ro_urls r) \<and> length (ro_tags r) = length (ro_urls r) \<and> int (length (ro_urls r)) \<le> num \<and>
    (ok \<and> fst (scan last_rand (bytes ''~'') []) \<and> num \<le> int (length (snd (scan last_rand (bytes ''~'') []))) \<longrightarrow>
       int (length (ro_urls r)) = num) \<and>
    (\<not> ok \<longrightarrow> ro_urls r = [] \<and> l = last_rand)"
proof -
  let ?r0 = "\<lparr>ro_urls = [], ro_titles = [], ro_tags = [], ro_err = []\<rparr>"
  obtain go r1 where u: "user_part user_read scan sort_items fmt user num ?r0 = Some (go, r1)" "aligned r1"
    "length (ro_urls r1) \<le> 10" "\<not> go \<longrightarrow> ro_urls r1 = []"
    using user_part_ok [where user_read = user_read and user = user and num = num and r = ?r0 and scan = scan and fmt = fmt, OF _ sort] read num
    by (auto simp: aligned_def user_ok_def)
  show ?thesis
  proof (cases go)
    case False
    then show ?thesis using u num by (auto simp: GetRecommend_def aligned_def)
  next
    case True
    let ?k = "num - int (length (ro_urls r1))"
    obtain l r2 where rr: "RandomRecommend scan ?k last_rand r1 = Some (l, r2)" "aligned r2"
      "length (ro_urls r2) \<le> length (ro_urls r1) + nat ?k"
      "fst (scan last_rand (bytes ''~'') []) \<and> ?k \<le> int (length (snd (scan last_rand (bytes ''~'') []))) \<longrightarrow>
         length (ro_urls r2) = length (ro_urls r1) + nat ?k"
      using RandomRecommend_ok [of scan r1 ?k last_rand] rows u(2) unfolding table_ok_def by blast
    have k: "int (length (ro_urls r1) + nat ?k) = num" using u(3) num by simp
    have b: "int (length (ro_urls r2)) \<le> num" using rr(3) k by linarith
    have e: "fst (scan last_rand (bytes ''~'') []) \<and> num \<le> int (length (snd (scan last_rand (bytes ''~'') []))) \<longrightarrow>
         int (length (ro_urls r2)) = num"
      using rr(4) k by force
    show ?thesis using u(1) True rr(1,2) b e by (auto simp: GetRecommend_def aligned_def Let_def)
  qed
qed

text \<open>
  C31: The size of the answer. Let the counters of the user be numbers that are not negative, let every row of the
  tag table have a URL and a title, and let \<open>std::sort\<close> permute. Then \<open>GetRecommend\<close> for 10 or more
  recommendations returns; URLs, titles and tags are lists of the same length, of at most \<open>num\<close> elements,
  and of exactly \<open>num\<close> when as many rows are left from \<open>last_rand\<close> on. It fails only with an empty answer, and then
  leaves \<open>last_rand\<close> as it was.
\<close>
theorem GetRecommend_size:
  assumes read: "user_ok user_read user"
    and rows: "table_ok scan"
    and sort: "\<And>items. mset (sort_items items) = mset items" and num: "10 \<le> num" "num \<le> 10 ^ 7"
  shows "\<exists>ok l r. GetRecommend user_read scan sort_items fmt user num last_rand = Some (ok, l, r) \<and>
    length (ro_titles r) = length (ro_urls r) \<and> length (ro_tags r) = length (ro_urls r) \<and> int (length (ro_urls r)) \<le> num \<and>
    (ok \<and> fst (scan last_rand (bytes ''~'') []) \<and> num \<le> int (length (snd (scan last_rand (bytes ''~'') []))) \<longrightarrow>
       int (length (ro_urls r)) = num) \<and>
    (\<not> ok \<longrightarrow> ro_urls r = [] \<and> l = last_rand)"
  using assms by (rule recommend_size)

theorem GetRecommend_size_witness:
  "\<exists>ok l r. GetRecommend (\<lambda>_. (True, [(bytes ''tag:a'', [(0, bytes ''3'')])]))
      (\<lambda>s e rows. (True, [(bytes ''a-1'', [(bytes ''title'', [(0, bytes ''t'')]), (bytes ''url'', [(0, bytes ''u'')])])]))
      (sort_key (\<lambda>it. - ti_num it)) (\<lambda>_. []) (bytes ''user'') 10 [] = Some (ok, l, r) \<and>
    length (ro_tags r) = length (ro_urls r) \<and> length (ro_urls r) \<le> 10"
proof -
  let ?read = "\<lambda>_. (True, [(bytes ''tag:a'', [(0 :: int, bytes ''3'')])])"
  let ?scan = "\<lambda>s e rows. (True, [(bytes ''a-1'', [(bytes ''title'', [(0 :: int, bytes ''t'')]), (bytes ''url'', [(0, bytes ''u'')])])])"
  have items: "tag_items [(bytes ''tag:a'', [(0, bytes ''3'')])] = Some [\<lparr>ti_num = 3, ti_tag = bytes ''a''\<rparr>]" by code_simp
  have fv: "first_value [(bytes ''title'', [(0, bytes ''t'')]), (bytes ''url'', [(0, bytes ''u'')])] (bytes ''url'') \<noteq> None"
    "first_value [(bytes ''title'', [(0, bytes ''t'')]), (bytes ''url'', [(0, bytes ''u'')])] (bytes ''title'') \<noteq> None" by code_simp+
  have "\<exists>ok l r. GetRecommend ?read ?scan (sort_key (\<lambda>it. - ti_num it)) (\<lambda>_. []) (bytes ''user'') 10 [] = Some (ok, l, r) \<and>
    length (ro_titles r) = length (ro_urls r) \<and> length (ro_tags r) = length (ro_urls r) \<and> int (length (ro_urls r)) \<le> 10 \<and>
    (ok \<and> fst (?scan [] (bytes ''~'') []) \<and> 10 \<le> int (length (snd (?scan [] (bytes ''~'') []))) \<longrightarrow>
       int (length (ro_urls r)) = 10) \<and> (\<not> ok \<longrightarrow> ro_urls r = [] \<and> l = [])"
    using items fv by (intro GetRecommend_size) (auto simp: user_ok_def table_ok_def)
  then show ?thesis by auto
qed

end
