(* ===== verification/Aret_Module.thy ===== *)
theory Aret_Module
  imports Aret_Recommend Ngx_Http_Request
begin

text \<open>
  The handlers of src/aret/ngx_http_aret_module.cc. The memory from \<open>r->args.data\<close> on is a list of bytes, NULL is
  \<open>None\<close>. The results of \<open>ngx_http_send_header\<close> (by the number of the call), of \<open>ngx_http_output_filter\<close> and of the two
  allocations are parameters; what a handler does is the list of its calls of these two. A result \<open>None\<close> is undefined behaviour.
\<close>

abbreviation (input) NGX_HTTP_NOT_ALLOWED :: ngx_int_t where "NGX_HTTP_NOT_ALLOWED \<equiv> 405"
abbreviation (input) NGX_HTTP_INTERNAL_SERVER_ERROR :: ngx_int_t where "NGX_HTTP_INTERNAL_SERVER_ERROR \<equiv> 500"

section \<open>Arguments\<close>

text \<open>
  The directives of \<open>sscanf\<close>: a literal and \<open>%s\<close> into a buffer of \<open>n\<close> bytes. The outer \<open>None\<close> is an access
  outside of the input or of the buffer, the inner one a failure of the match.
\<close>

fun match_lit :: "byte list \<Rightarrow> byte list \<Rightarrow> byte list option option" where
  "match_lit [] m = Some (Some m)"
| "match_lit (c # cs) [] = None"
| "match_lit (c # cs) (x # m) = (if x = c then match_lit cs m else Some None)"

definition is_word :: "byte \<Rightarrow> bool" where
  "is_word c \<longleftrightarrow> c \<noteq> 0 \<and> \<not> is_space c"

definition scan_s :: "nat \<Rightarrow> byte list \<Rightarrow> (byte list \<times> byte list) option option" where
  "scan_s n m =
     (case dropWhile is_space m of
        [] \<Rightarrow> None
      | c # m \<Rightarrow>
          if c = 0 then Some None
          else let w = takeWhile is_word (c # m); rest = dropWhile is_word (c # m)
               in if rest = [] \<or> n \<le> length w then None else Some (Some (w, rest)))"

text \<open>The two formats; the result is the list of the converted strings.\<close>

definition sscanf_url :: "byte list \<Rightarrow> byte list list option" where
  "sscanf_url args =
     (case match_lit (bytes ''url='') args of
        None \<Rightarrow> None
      | Some None \<Rightarrow> Some []
      | Some (Some m) \<Rightarrow> (case scan_s 1024 m of None \<Rightarrow> None | Some None \<Rightarrow> Some [] | Some (Some (w, _)) \<Rightarrow> Some [w]))"

definition sscanf_user_url :: "byte list \<Rightarrow> byte list list option" where
  "sscanf_user_url args =
     (case match_lit (bytes ''user='') args of
        None \<Rightarrow> None
      | Some None \<Rightarrow> Some []
      | Some (Some m) \<Rightarrow>
          (case scan_s 128 m of
             None \<Rightarrow> None
           | Some None \<Rightarrow> Some []
           | Some (Some (u, m)) \<Rightarrow>
               (case match_lit (bytes ''&url='') m of
                  None \<Rightarrow> None
                | Some None \<Rightarrow> Some [u]
                | Some (Some m) \<Rightarrow>
                    (case scan_s 1024 m of None \<Rightarrow> None | Some None \<Rightarrow> Some [u] | Some (Some (w, _)) \<Rightarrow> Some [u, w]))))"

text \<open>\<open>parse_args\<close>: the returned boolean, \<open>user\<close> and \<open>url\<close>, which are empty before.\<close>

definition parse_args :: "byte list option \<Rightarrow> (bool \<times> cpp_string \<times> cpp_string) option" where
  "parse_args args = do {
     m \<leftarrow> args;
     r \<leftarrow> sscanf_user_url m;
     (case r of
        [u, w] \<Rightarrow> Some (True, u, w)
      | _ \<Rightarrow> do { r \<leftarrow> sscanf_url m; (case r of [w] \<Rightarrow> Some (True, [], w) | _ \<Rightarrow> Some (False, [], [])) })
   }"

section \<open>Responses\<close>

text \<open>
  The calls of the filters: \<open>ngx_http_send_header\<close> with the length of the answer in \<open>r->headers_out\<close>, and \<open>ngx_http_output_filter\<close> with the bytes of the buffer. (A second
  \<open>ngx_http_send_header\<close> sends nothing: http/ngx_http_header_filter_module.c returns where \<open>r->header_sent\<close> is set.)
\<close>

datatype filter_call = Send_header nat | Output_filter "byte list"

record server =
  sv_send_header :: "nat \<Rightarrow> ngx_int_t"
  sv_output_filter :: ngx_int_t
  sv_page_memory :: bool
  sv_buf_memory :: bool

text \<open>
  The end of both handlers, from \<open>str_to_buf(r->pool, err + content)\<close> on: the length of the answer and the
  end of the buffer are those of \<open>content\<close>.
\<close>

definition send_response :: "server \<Rightarrow> ngx_uint_t \<Rightarrow> cpp_string \<Rightarrow> cpp_string \<Rightarrow> (ngx_int_t \<times> filter_call list) option" where
  "send_response sv meth err content =
     (let send_buf = err @ content; h = Send_header (length content); body = Output_filter (take (length content) send_buf);
          hd_rc = (if meth = NGX_HTTP_HEAD then sv_send_header sv 0 else NGX_OK);
          hs = (if meth = NGX_HTTP_HEAD then [h] else [])
      in if \<not> sv_page_memory sv \<and> send_buf \<noteq> [] then None
         else if hd_rc \<noteq> NGX_OK then Some (hd_rc, hs)
         else if \<not> sv_buf_memory sv then Some (NGX_HTTP_INTERNAL_SERVER_ERROR, hs)
         else let rc = sv_send_header sv (length hs)
              in if rc \<noteq> NGX_OK then Some (rc, hs @ [h])
                 else Some (sv_output_filter sv, hs @ [h, body]))"

definition method_allowed :: "ngx_uint_t \<Rightarrow> bool" where
  "method_allowed meth \<longleftrightarrow> meth AND (NGX_HTTP_HEAD OR NGX_HTTP_GET OR NGX_HTTP_POST) \<noteq> 0"

text \<open>The loop over the recommendations; \<open>titles[i]\<close> and \<open>tags[i]\<close> are unchecked.\<close>

definition page_item :: "cpp_string \<Rightarrow> cpp_string \<Rightarrow> cpp_string \<Rightarrow> cpp_string" where
  "page_item url title tag = bytes ''<a href=view?url='' @ url @ bytes ''>'' @ title @ bytes ''</a><br/>'' @
     bytes ''Tag: '' @ tag @ bytes ''<br/>''"

definition recommend_page :: "rec_out \<Rightarrow> cpp_string option" where
  "recommend_page r =
     (if length (ro_titles r) < length (ro_urls r) \<or> length (ro_tags r) < length (ro_urls r) then None
      else Some (concat (map (\<lambda>i. page_item (ro_urls r ! i) (ro_titles r ! i) (ro_tags r ! i)) [0..<length (ro_urls r)])))"

definition ngx_http_recommend_handler ::
    "server \<Rightarrow> read_fun \<Rightarrow> scan_fun \<Rightarrow> (TagItem list \<Rightarrow> TagItem list) \<Rightarrow> (rat \<Rightarrow> cpp_string) \<Rightarrow> cpp_string \<Rightarrow> ngx_uint_t
     \<Rightarrow> (cpp_string \<times> ngx_int_t \<times> filter_call list) option" where
  "ngx_http_recommend_handler sv user_read scan sort_items fmt last_rand meth =
     (if \<not> method_allowed meth then Some (last_rand, NGX_HTTP_NOT_ALLOWED, [])
      else do {
        (ok, last_rand, r) \<leftarrow> GetRecommend user_read scan sort_items fmt (bytes ''user'') 10 last_rand;
        content \<leftarrow> (if ok then recommend_page r else Some (bytes ''GetRecommend fail~''));
        res \<leftarrow> send_response sv meth (ro_err r) content;
        Some (last_rand, res)
      })"

text \<open>The result has the record written to the user table in front.\<close>

definition ngx_http_view_handler ::
    "server \<Rightarrow> read_fun \<Rightarrow> read_fun \<Rightarrow> byte list option \<Rightarrow> ngx_uint_t \<Rightarrow> (record_t option \<times> ngx_int_t \<times> filter_call list) option" where
  "ngx_http_view_handler sv web_read user_read args meth =
     (if \<not> method_allowed meth then Some (None, NGX_HTTP_NOT_ALLOWED, [])
      else do {
        (_, user, url) \<leftarrow> parse_args args;
        rec \<leftarrow> RecordActions web_read user_read (bytes ''user'') AT_VIEW [url];
        let err = (case rec of None \<Rightarrow> [] | Some (_, err) \<Rightarrow> err);
        let html = (case (if url = [] then None else GetHtml web_read url) of
                      None \<Rightarrow> bytes ''No this page in WebTable'' | Some html \<Rightarrow> html);
        res \<leftarrow> send_response sv meth err html;
        Some (map_option fst rec, res)
      })"

section \<open>Configuration\<close>

record ngx_http_aret_loc_conf_t =
  ac_user_id :: "cpp_string option"
  ac_url :: "cpp_string option"

text \<open>\<open>ngx_conf_merge_str_value\<close> with the default \<open>""\<close>; \<open>None\<close> is a string with \<open>data == NULL\<close>.\<close>

definition merge_str :: "cpp_string option \<Rightarrow> cpp_string option \<Rightarrow> cpp_string option" where
  "merge_str conf prev = (case conf of Some s \<Rightarrow> Some s | None \<Rightarrow> (case prev of Some s \<Rightarrow> Some s | None \<Rightarrow> Some []))"

definition ngx_http_aret_create_loc_conf :: ngx_http_aret_loc_conf_t where
  "ngx_http_aret_create_loc_conf = \<lparr>ac_user_id = None, ac_url = None\<rparr>"

definition ngx_http_aret_merge_loc_conf :: "ngx_http_aret_loc_conf_t \<Rightarrow> ngx_http_aret_loc_conf_t \<Rightarrow> ngx_http_aret_loc_conf_t" where
  "ngx_http_aret_merge_loc_conf prev conf =
     (let conf = conf\<lparr>ac_user_id := merge_str (ac_user_id conf) (ac_user_id prev)\<rparr>
      in conf\<lparr>ac_user_id := merge_str (ac_user_id conf) (ac_url prev)\<rparr>)"

section \<open>Properties\<close>

lemma match_lit_app: "match_lit xs (xs @ m) = Some (Some m)"
  by (induction xs) auto

lemma is_word_special: "is_word (ch CHR ''&'')"
  by (simp add: is_word_def is_space_def byte_simps)

lemma scan_s_word:
  assumes "list_all is_word w" "w \<noteq> []" "\<not> is_word c"
  shows "scan_s n (w @ c # rest) = (if length w < n then Some (Some (w, c # rest)) else None)"
proof -
  obtain d v where w: "w = d # v" using assms(2) by (cases w) auto
  have d: "d \<noteq> 0" "\<not> is_space d" using assms(1) by (auto simp: w is_word_def)
  have "takeWhile is_word (w @ c # rest) = w" "dropWhile is_word (w @ c # rest) = c # rest"
    using assms by (simp_all add: list_all_iff)
  then show ?thesis using d by (auto simp: scan_s_def w Let_def)
qed

lemma scan_s_rest: "scan_s n m = Some (Some (w, rest)) \<Longrightarrow> \<exists>c m'. rest = c # m' \<and> \<not> is_word c"
proof -
  assume a: "scan_s n m = Some (Some (w, rest))"
  obtain c m1 where m: "dropWhile is_space m = c # m1" using a by (cases "dropWhile is_space m") (auto simp: scan_s_def)
  have "rest = dropWhile is_word (c # m1)" "rest \<noteq> []" using a by (auto simp: scan_s_def m Let_def split: if_splits)
  then show ?thesis by (metis hd_dropWhile list.collapse)
qed

text \<open>The second directive of the first format never matches: \<open>%s\<close> stops in front of a blank only.\<close>

lemma sscanf_user_url_short: "sscanf_user_url m = Some r \<Longrightarrow> length r \<le> 1"
proof -
  assume r: "sscanf_user_url m = Some r"
  have "match_lit (bytes ''&url='') m' = Some None" if s: "scan_s 128 m1 = Some (Some (u, m'))" for m1 u m'
  proof -
    obtain c m2 where "m' = c # m2" "\<not> is_word c" using scan_s_rest [OF s] by blast
    moreover from this have "c \<noteq> ch CHR ''&''" using is_word_special by metis
    ultimately show ?thesis by (simp add: bytes_def)
  qed
  then show ?thesis using r by (auto simp: sscanf_user_url_def split: option.splits)
qed

lemma parse_args_none: "sscanf_user_url m = Some r \<Longrightarrow>
    parse_args (Some m) = do { r \<leftarrow> sscanf_url m; (case r of [w] \<Rightarrow> Some (True, [], w) | _ \<Rightarrow> Some (False, [], [])) }"
  using sscanf_user_url_short [of m r] by (auto simp: parse_args_def split: list.splits)

lemma parse_args_url:
  assumes "list_all is_word w" "w \<noteq> []" "\<not> is_word c"
  shows "parse_args (Some (bytes ''url='' @ w @ c # rest)) = (if length w < 1024 then Some (True, [], w) else None)"
proof -
  let ?m = "bytes ''url='' @ w @ c # rest"
  have "sscanf_user_url ?m = Some []" by (simp add: sscanf_user_url_def byte_simps)
  moreover have "sscanf_url ?m = (if length w < 1024 then Some [w] else None)"
    using scan_s_word [OF assms, of 1024 rest] by (simp add: sscanf_url_def match_lit_app)
  ultimately show ?thesis using parse_args_none [of ?m "[]"] by simp
qed

lemma parse_args_user:
  assumes "list_all is_word u" "u \<noteq> []" "\<not> is_word c"
  shows "parse_args (Some (bytes ''user='' @ u @ c # rest)) = (if length u < 128 then Some (False, [], []) else None)"
proof -
  let ?m = "bytes ''user='' @ u @ c # rest"
  have "c \<noteq> ch CHR ''&''" using assms(3) is_word_special by metis
  then have "match_lit (bytes ''&url='') (c # rest) = Some None" by (simp add: bytes_def)
  then have s: "sscanf_user_url ?m = (if length u < 128 then Some [u] else None)"
    using scan_s_word [OF assms, of 128 rest] by (simp add: sscanf_user_url_def match_lit_app)
  have "sscanf_url ?m = Some []" by (simp add: sscanf_url_def byte_simps)
  then show ?thesis using s parse_args_none [of ?m "[u]"] by (cases "length u < 128") (auto simp: parse_args_def)
qed

text \<open>
  C35: Which arguments the view handler understands. \<open>parse_args\<close> never sets the user: of arguments that start with
  \<open>user=\<close> it returns nothing, because \<open>%s\<close> takes everything up to the next blank, the \<open>&\<close> included. Of
  arguments that start with \<open>url=\<close> it returns the rest. Both conversions write behind their buffers, of 128 and
  1024 bytes, when the word is longer, and a request without arguments dereferences NULL.
\<close>
theorem parse_args_correct:
  assumes "list_all is_word w" "w \<noteq> []" "\<not> is_word c"
  shows "parse_args (Some (bytes ''url='' @ w @ c # rest)) = (if length w < 1024 then Some (True, [], w) else None) \<and>
    parse_args (Some (bytes ''user='' @ w @ c # rest)) = (if length w < 128 then Some (False, [], []) else None) \<and>
    parse_args None = None \<and>
    (\<forall>args ok user url. parse_args args = Some (ok, user, url) \<longrightarrow> user = [])"
proof -
  have "user = []" if p: "parse_args args = Some (ok, user, url)" for args ok user url
  proof -
    obtain m r where "args = Some m" "sscanf_user_url m = Some r"
      using p by (auto simp: parse_args_def bind_eq_Some_conv)
    then show ?thesis using p parse_args_none [of m r] by (cases "sscanf_url m") (auto split: list.splits)
  qed
  then show ?thesis using parse_args_url [OF assms] parse_args_user [OF assms] by (auto simp: parse_args_def)
qed

theorem parse_args_correct_witness:
  "parse_args (Some (bytes ''user=a&url=b'' @ [32])) = Some (False, [], [])"
proof -
  have "list_all is_word (bytes ''a&url=b'')" "\<not> is_word 32" by code_simp+
  then show ?thesis using parse_args_correct [of "bytes ''a&url=b''" 32 "[]"] by (simp add: bytes_def)
qed

section \<open>The handlers\<close>

text \<open>The calls for a successful request: with HEAD the function that sends the header is called twice.\<close>

definition page_calls :: "ngx_uint_t \<Rightarrow> cpp_string \<Rightarrow> cpp_string \<Rightarrow> filter_call list" where
  "page_calls meth err content =
     (if meth = NGX_HTTP_HEAD then [Send_header (length content)] else []) @
     [Send_header (length content), Output_filter (take (length content) (err @ content))]"

lemma send_response_ok:
  assumes "\<And>i. sv_send_header sv i = NGX_OK" "sv_page_memory sv" "sv_buf_memory sv"
  shows "send_response sv meth err content = Some (sv_output_filter sv, page_calls meth err content)"
  using assms by (simp add: send_response_def page_calls_def Let_def)

text \<open>
  C33: A view is counted and answered. For an allowed method, arguments \<open>url=...\<close> of at most 1023 bytes, a server that sends
  without errors, and counters of the user that are numbers below the largest \<open>int\<close>, the view handler
  writes the record in which the counters of the tags of the page are increased and nothing else is changed. Then it calls \<open>ngx_http_send_header\<close> (twice for HEAD) with the length of the page, and
  \<open>ngx_http_output_filter\<close> with as many bytes: the first bytes of the line \<open>tags num: ...\<close> followed by the page, so that at the end of the page as many bytes are missing as the line has.
\<close>
theorem ngx_http_view_handler_response:
  assumes meth: "method_allowed meth"
    and url: "list_all is_word url" "url \<noteq> []" "\<not> is_word c" "length url < 1024"
    and sv: "\<And>i. sv_send_header sv i = NGX_OK" "sv_page_memory sv" "sv_buf_memory sv"
    and tags: "tags = page_tags web_read [url]" and rec: "rec = snd (user_read (bytes ''user''))"
    and ok: "\<And>t. t \<in> set tags \<Longrightarrow> \<exists>n. views rec t = Some n \<and> 0 \<le> n \<and> n + int (count_list tags t) < 2 ^ 31"
    and html: "html = (case GetHtml web_read url of None \<Rightarrow> bytes ''No this page in WebTable'' | Some h \<Rightarrow> h)"
    and line: "line = bytes ''tags num: '' @ dec_show (length tags) @ [10]"
  shows "\<exists>rec' hs. ngx_http_view_handler sv web_read user_read (Some (bytes ''url='' @ url @ c # rest)) meth =
      Some (Some rec', sv_output_filter sv, hs @ [Send_header (length html), Output_filter (take (length html) line @ take (length html - length line) html)]) \<and>
    hs = (if meth = NGX_HTTP_HEAD then [Send_header (length html)] else []) \<and> counted tags rec rec'"
proof -
  obtain rec' where r: "RecordActions web_read user_read (bytes ''user'') AT_VIEW [url] = Some (Some (rec', line))" "counted tags rec rec'"
    using record_actions_counts [where user_read = user_read and user = "bytes ''user''" and web_read = web_read and content = "[url]" and tags = tags and rec = rec] tags rec ok line
    by blast
  have "ngx_http_view_handler sv web_read user_read (Some (bytes ''url='' @ url @ c # rest)) meth = Some (Some rec', sv_output_filter sv, page_calls meth line html)"
    using meth url parse_args_url [OF url(1-3), of rest] html send_response_ok [OF sv] r(1) by (simp add: ngx_http_view_handler_def Let_def)
  then show ?thesis using r(2) by (simp add: page_calls_def)
qed

theorem ngx_http_view_handler_response_witness:
  "\<exists>rec'. ngx_http_view_handler \<lparr>sv_send_header = \<lambda>_. NGX_OK, sv_output_filter = NGX_OK, sv_page_memory = True, sv_buf_memory = True\<rparr>
      (\<lambda>_. (True, [(bytes ''page'', [(0, bytes ''<html>hello'')]), (bytes ''tag'', [(0, bytes ''a'')])])) (\<lambda>_. (False, []))
      (Some (bytes ''url=x '')) NGX_HTTP_GET =
    Some (Some rec', NGX_OK, [Send_header 11, Output_filter (bytes ''tags num: 1'')]) \<and> counted [bytes ''a''] [] rec'"
proof -
  let ?sv = "\<lparr>sv_send_header = \<lambda>_. NGX_OK, sv_output_filter = NGX_OK, sv_page_memory = True, sv_buf_memory = True\<rparr>"
  let ?web = "\<lambda>_. (True, [(bytes ''page'', [(0 :: int, bytes ''<html>hello'')]), (bytes ''tag'', [(0, bytes ''a'')])])"
  have tags: "page_tags ?web [bytes ''x''] = [bytes ''a'']" by code_simp
  have html: "GetHtml ?web (bytes ''x'') = Some (bytes ''<html>hello'')" by code_simp
  have v: "views [] (bytes ''a'') = Some 0" by code_simp
  have w: "method_allowed NGX_HTTP_GET" "list_all is_word (bytes ''x'')" "\<not> is_word 32" "bytes ''x'' \<noteq> []" by code_simp+
  have ok: "\<exists>n. views [] t = Some n \<and> 0 \<le> n \<and> n + int (count_list [bytes ''a''] t) < 2 ^ 31" if "t \<in> set [bytes ''a'']" for t
    using that v by auto
  let ?line = "bytes ''tags num: '' @ dec_show (length [bytes ''a'']) @ [10]"
  have "take (length (bytes ''<html>hello'')) ?line @ take (length (bytes ''<html>hello'') - length ?line) (bytes ''<html>hello'') = bytes ''tags num: 1''"
    "length (bytes ''<html>hello'') = 11" "NGX_HTTP_GET \<noteq> NGX_HTTP_HEAD" by code_simp+
  moreover have "bytes ''url=x '' = bytes ''url='' @ bytes ''x'' @ [32]" by (simp add: byte_simps)
  ultimately show ?thesis
    using ngx_http_view_handler_response [of NGX_HTTP_GET "bytes ''x''" 32 ?sv "[bytes ''a'']" ?web "[]" "\<lambda>_. (False, [])"
        "bytes ''<html>hello''" ?line "[]", OF w(1,2,4,3) _ _ _ _ _ _ ok] v
    by (simp add: tags html eval_nat_numeral)
qed

text \<open>
  C34: The page of recommendations. With the tables of the engine as in the theorem on the size of its answer, and a server that
  sends without errors, the handler returns for every allowed method: the loop never reads behind the titles or the tags,
  and the header announces exactly the number of bytes that follow. Other methods get the status 405.
\<close>
theorem ngx_http_recommend_handler_response:
  assumes read: "user_ok user_read (bytes ''user'')"
    and rows: "table_ok scan"
    and sort: "\<And>items. mset (sort_items items) = mset items"
    and sv: "\<And>i. sv_send_header sv i = NGX_OK" "sv_page_memory sv" "sv_buf_memory sv"
  shows "if method_allowed meth
    then \<exists>l hs n b. ngx_http_recommend_handler sv user_read scan sort_items fmt last_rand meth =
        Some (l, sv_output_filter sv, hs @ [Send_header n, Output_filter b]) \<and> length b = n \<and>
        hs = (if meth = NGX_HTTP_HEAD then [Send_header n] else [])
    else ngx_http_recommend_handler sv user_read scan sort_items fmt last_rand meth = Some (last_rand, NGX_HTTP_NOT_ALLOWED, [])"
proof (cases "method_allowed meth")
  case True
  obtain ok l r where g: "GetRecommend user_read scan sort_items fmt (bytes ''user'') 10 last_rand = Some (ok, l, r)"
    "length (ro_titles r) = length (ro_urls r)" "length (ro_tags r) = length (ro_urls r)"
    using recommend_size [where user_read = user_read and user = "bytes ''user''" and scan = scan and sort_items = sort_items
        and num = 10 and fmt = fmt and last_rand = last_rand, OF read rows sort] by auto
  obtain content where c: "(if ok then recommend_page r else Some (bytes ''GetRecommend fail~'')) = Some content"
    using g by (cases ok) (auto simp: recommend_page_def)
  then have "ngx_http_recommend_handler sv user_read scan sort_items fmt last_rand meth =
      Some (l, sv_output_filter sv, page_calls meth (ro_err r) content)"
    using True g(1) send_response_ok [OF sv] by (simp add: ngx_http_recommend_handler_def)
  then show ?thesis using True by (auto simp: page_calls_def)
qed (simp add: ngx_http_recommend_handler_def)

theorem ngx_http_recommend_handler_response_witness:
  "\<exists>l n b. ngx_http_recommend_handler \<lparr>sv_send_header = \<lambda>_. NGX_OK, sv_output_filter = NGX_OK, sv_page_memory = True, sv_buf_memory = True\<rparr>
      (\<lambda>_. (True, [(bytes ''tag:a'', [(0, bytes ''3'')])]))
      (\<lambda>s e rows. (True, [(bytes ''a-1'', [(bytes ''title'', [(0, bytes ''t'')]), (bytes ''url'', [(0, bytes ''u'')])])]))
      (sort_key (\<lambda>it. - ti_num it)) (\<lambda>_. []) [] NGX_HTTP_GET = Some (l, NGX_OK, [Send_header n, Output_filter b]) \<and> length b = n"
proof -
  let ?sv = "\<lparr>sv_send_header = \<lambda>_. NGX_OK, sv_output_filter = NGX_OK, sv_page_memory = True, sv_buf_memory = True\<rparr>"
  have "tag_items [(bytes ''tag:a'', [(0, bytes ''3'')])] = Some [\<lparr>ti_num = 3, ti_tag = bytes ''a''\<rparr>]" by code_simp
  then have u: "user_ok (\<lambda>_. (True, [(bytes ''tag:a'', [(0, bytes ''3'')])])) (bytes ''user'')" by (simp add: user_ok_def)
  have "first_value [(bytes ''title'', [(0, bytes ''t'')]), (bytes ''url'', [(0, bytes ''u'')])] (bytes ''url'') \<noteq> None"
    "first_value [(bytes ''title'', [(0, bytes ''t'')]), (bytes ''url'', [(0, bytes ''u'')])] (bytes ''title'') \<noteq> None" by code_simp+
  then have t: "table_ok (\<lambda>s e rows. (True, [(bytes ''a-1'', [(bytes ''title'', [(0, bytes ''t'')]), (bytes ''url'', [(0, bytes ''u'')])])]))"
    by (simp add: table_ok_def)
  have m: "method_allowed NGX_HTTP_GET" "NGX_HTTP_GET \<noteq> NGX_HTTP_HEAD" by code_simp+
  show ?thesis
    using ngx_http_recommend_handler_response [where sort_items = "sort_key (\<lambda>it. - ti_num it)" and sv = ?sv
        and meth = NGX_HTTP_GET and fmt = "\<lambda>_. []" and last_rand = "[]", OF u t] m by simp
qed

text \<open>The configuration of the URL is not inherited: the second merge writes to the user again.\<close>

lemma merge_loc_conf_url:
  "ac_url (ngx_http_aret_merge_loc_conf prev conf) = ac_url conf"
  "ac_user_id (ngx_http_aret_merge_loc_conf prev conf) = merge_str (ac_user_id conf) (ac_user_id prev)"
  by (auto simp: ngx_http_aret_merge_loc_conf_def merge_str_def split: option.splits)

end
