(* ===== verification/Spec2Isabelle.thy ===== *)
theory Spec2Isabelle
  imports Ngx_Parse Ngx_Queue Ngx_Radix_Table Ngx_Http_Request_Ok Ngx_Http_Header_Line
    Ngx_Http_Chunked Ngx_Http_Status_Line Ngx_Http_Uri Ngx_Http_Unsafe_Uri Ngx_Http_Args
    Ngx_Http_Complex_Uri_Resolve Ngx_Base64 Ngx_Escape Ngx_Utf8 Ngx_Http_Parse_Time
    Ngx_Event_Timer Ngx_Url_Read Ngx_Pool Aret_Module
begin

text \<open>
  A verification of the Aret recommendation server. The repository holds the sources of nginx 1.4.7 (nginx-1.4.7/src)
  with a module of its own (src/aret): the module answers the requests \<open>recommend\<close> and \<open>view\<close>, and keeps in the tables
  of tera what a user has seen. This development models the path of a request through the server, from the bytes
  of the request line to the counters of the recommendation engine, and the containers and string functions below it.

  \<^bold>\<open>The parts and their theories.\<close> All paths are below nginx-1.4.7/src.

  \<^item> \<^emph>\<open>Foundations.\<close> Ngx_Prelude has the machine types (LP64), byte literals, checked reads and return codes;
    Byte_Machine the loop that all incremental parsers share, as a locale with the two laws that a parser needs
    (a step reads only bytes that are there, and \<open>p--\<close> does not repeat for ever); Insertion_Sort the
    reference of the insertion sorts; Decimal the decimal numerals; Double the rounding of \<open>double\<close>; Std_Map \<open>std::map\<close> with the laws of a map.
  \<^item> \<^emph>\<open>HTTP parsers\<close> (http/ngx_http_parse.c). Ngx_Http_Request has the members of the request that the parsers use.
    Ngx_Http_Request_Line, _Request_Safe and _Request_Ok are \<open>ngx_http_parse_request_line\<close>: one function per state, then
    that it returns and may be called on pieces, where its pointers point to, and that well formed lines are
    accepted. Ngx_Http_Header_Line, Ngx_Http_Status_Line and Ngx_Http_Chunked are the parsers of those names, the last
    with the loop of \<open>ngx_http_request_body_chunked_filter\<close> (http/ngx_http_request_body.c). Ngx_Http_Complex_Uri, with _Safe
    and _Resolve, is \<open>ngx_http_parse_complex_uri\<close>; Ngx_Http_Uri composes it with the request line in
    \<open>ngx_http_process_request_uri\<close> (http/ngx_http_request.c) and has \<open>ngx_http_parse_uri\<close>; Ngx_Http_Unsafe_Uri and
    Ngx_Http_Args have \<open>ngx_http_parse_unsafe_uri\<close>, \<open>ngx_http_arg\<close> and \<open>ngx_http_split_args\<close>.
  \<^item> \<^emph>\<open>Strings and values\<close> (core/ngx_string.c, core/ngx_parse.c). Ngx_Numbers, Ngx_Parse, Ngx_String_Search,
    Ngx_Base64, Ngx_Escape, Ngx_Utf8, and Ngx_Sprintf for \<open>ngx_vslprintf\<close>.
  \<^item> \<^emph>\<open>Dates.\<close> Ngx_Times has \<open>ngx_gmtime\<close> and the printed dates of core/ngx_times.c, with the Gregorian calendar as their
    specification; Ngx_Http_Parse_Time has \<open>ngx_http_parse_time\<close> (http/ngx_http_parse_time.c).
  \<^item> \<^emph>\<open>Containers.\<close> Ngx_Queue (core/ngx_queue.h and .c) on a store of links; Ngx_Radix_Tree, _128, _Delete and _Table
    (core/ngx_radix_tree.c) on a store of nodes with the allocator, and \<open>ngx_http_geo_cidr_add\<close> as their client. Ngx_Rbtree is the
    code of core/ngx_rbtree.c and .h on a store of nodes; Ngx_Rbtree_Zip represents a tree in the store with a position in it, at
    which rotations and colors are local; Ngx_Rbtree_Insert, _Fixup and _Delete verify the two operations, and Ngx_Rbtree_Order has the order of
    the keys, with the locale \<open>key_order\<close> for the two comparisons of the code.
  \<^item> \<^emph>\<open>Memory pools\<close> (core/ngx_palloc.c). Ngx_Palloc has the operations of pools on the regions that the system allocator, a parameter, handed out, and
    their invariant; Ngx_Pool shows for any sequence of calls, a step relation with failing allocations, that objects do not overlap each other or the data of the pool (headers,
    entries of large allocations, records of cleanups), and that a pool frees each region it took once. A reset of a pool that has cleanups is not a step, since the code leaves their records in
    memory that is handed out again.
  \<^item> \<^emph>\<open>Addresses\<close> (core/ngx_inet.c). Ngx_Inet has the readers and printers of addresses and networks, with the theorems for IPv4;
    Ngx_Inet6 those for IPv6, and Ngx_Inet_Cidr addresses with ports and \<open>ngx_ptocidr\<close>. Ngx_Url has the URLs of servers, with the
    lookup of a host name and the allocator as parameters, and Ngx_Url_Read that they read printed addresses.
  \<^item> \<^emph>\<open>Timers.\<close> Ngx_Event_Timer (event/ngx_event_timer.c and .h) keeps the events with a timer in such a tree; its
    operations, in any order, are a step relation with an invariant.
  \<^item> \<^emph>\<open>Aret\<close> (src/aret). Aret_Engine is ReEngine (re_engine.cc), Aret_Engine_Props and Aret_Recommend its properties, Aret_Module
    the handlers of ngx_http_aret_module.cc.

  \<^bold>\<open>How code is modelled.\<close> A pointer into a buffer is an index, a pointer to a node is an address in a store, NULL is
  \<open>None\<close>. A buffer is a list of bytes, and an access that the code itself does not keep inside is checked: a function that reads or writes through an index, copies into an array of fixed size
  (\<open>sun_path\<close>, a socket address, the arrays of \<open>sscanf\<close>), follows a pointer that may be NULL or frees memory has an option as its
  result, \<open>None\<close> is the access outside or the address that is not in use, and the theorems that a function returns \<open>Some\<close> are its memory safety. Output that a function appends to memory
  which its caller has sized is a list, and the theorems on its length are the bound. Integers
  keep their width (64 \<open>word\<close> for \<open>ngx_int_t\<close>, 16 \<open>word\<close> for the version of the protocol), read as signed where C does.
  Loops that may not end are \<open>partial_function\<close>s, for which \<open>None\<close> is also non-termination; no fuel is used.
  Memory that is not in the sources (the page allocator of the radix tree, \<open>ngx_pnalloc\<close>, the tables of tera, the
  results of sending) is a parameter, with its documented behaviour as a hypothesis.

  \<^bold>\<open>What is shown.\<close> For the parsers: that they return and never read outside of the buffer, that input may arrive in any
  pieces, that what they accept has the form that later code relies on (no NUL, CR or LF in a URI; no dot or double dot
  in a segment in front of a slash, so that a path goes above the root only if it is \<open>/..\<close>), and that well formed input is accepted with the right values. For codecs: round trips, and the lengths that
  callers allocate. For containers: refinement of lists and of tables of prefixes, through the locales \<open>list_queue\<close> and
  \<open>prefix_table\<close>, which are interpreted for the code; the red-black tree stays balanced and is the sorted list of its nodes. For the timers: the tree holds
  the armed events in the order of their times, although the clock wraps around, and the loop of expired timers ends. For the engine: counters count, lists of
  recommendations have the requested size, one call of \<open>RandomRecommend\<close> gives the first rows of the slice and continues behind the last of them. Where the code deviates
  from its purpose, the theorem states what it does (wrap-around of numbers, bytes read behind a string, a last dot segment that is not
  resolved, the sign extension in \<open>ngx_strcasestrn\<close>, answers that are cut off).

  \<^bold>\<open>Not modelled.\<close> Everything that is I/O or a call of the kernel (events, connections, files, processes, upstreams, the
  phases of a request), modules that rest on libraries (gzip, OpenSSL, Perl, XSLT), and code under NGX_WIN32. Of the core:
  hash tables, the slab allocator and the configuration file. The mutex of the engine has no
  counterpart, since one call is one step here.

  \<^bold>\<open>Plan.\<close> Next come the values of headers (\<open>ngx_http_parse_multi_header_lines\<close>).
\<close>

end
